(* ===== verification/Prelude.thy ===== *)
theory Prelude
  imports Main "HOL-Library.Monad_Syntax" "HOL-Library.Multiset" "HOL-Library.Word"
begin

text \<open>
  What every component shares: Go's slice operations with the out-of-range panic as
  \<open>None\<close>, the list and quorum lemmas the component proofs rest on, and the
  theorem collections that components feed.

  Conventions of the whole library: a Go \<open>int\<close> is an \<open>int\<close> (the programs
  count log indices, terms and tasks, which never come near the 64-bit bound), a value whose
  wrap-around the code can reach is a \<open>word\<close>, a panic or a fatal exit is
  \<open>None\<close>, and a mutex-protected method is one function from the old state to
  the new one.
\<close>

named_theorems go_slice \<open>closed forms of the slice operations inside their bounds\<close>

section \<open>Go slices\<close>

definition slice_get :: "'a list \<Rightarrow> int \<Rightarrow> 'a option" where
  "slice_get xs i = (if 0 \<le> i \<and> i < int (length xs) then Some (xs ! nat i) else None)"

definition slice_set :: "'a list \<Rightarrow> int \<Rightarrow> 'a \<Rightarrow> 'a list option" where
  "slice_set xs i x = (if 0 \<le> i \<and> i < int (length xs) then Some (xs[nat i := x]) else None)"

definition slice_from :: "'a list \<Rightarrow> int \<Rightarrow> 'a list option" where
  "slice_from xs lo = (if 0 \<le> lo \<and> lo \<le> int (length xs) then Some (drop (nat lo) xs) else None)"

definition slice_to :: "'a list \<Rightarrow> int \<Rightarrow> 'a list option" where
  "slice_to xs hi = (if 0 \<le> hi \<and> hi \<le> int (length xs) then Some (take (nat hi) xs) else None)"

definition slice_range :: "'a list \<Rightarrow> int \<Rightarrow> int \<Rightarrow> 'a list option" where
  "slice_range xs lo hi =
     (if 0 \<le> lo \<and> lo \<le> hi \<and> hi \<le> int (length xs)
      then Some (take (nat hi - nat lo) (drop (nat lo) xs)) else None)"

lemma slice_get_in [go_slice]:
  "0 \<le> i \<Longrightarrow> i < int (length xs) \<Longrightarrow> slice_get xs i = Some (xs ! nat i)"
  by (simp add: slice_get_def)

lemma slice_set_in [go_slice]:
  "0 \<le> i \<Longrightarrow> i < int (length xs) \<Longrightarrow> slice_set xs i x = Some (xs[nat i := x])"
  by (simp add: slice_set_def)

lemma slice_from_in [go_slice]:
  "0 \<le> lo \<Longrightarrow> lo \<le> int (length xs) \<Longrightarrow> slice_from xs lo = Some (drop (nat lo) xs)"
  by (simp add: slice_from_def)

lemma slice_to_in [go_slice]:
  "0 \<le> hi \<Longrightarrow> hi \<le> int (length xs) \<Longrightarrow> slice_to xs hi = Some (take (nat hi) xs)"
  by (simp add: slice_to_def)

lemma slice_range_in [go_slice]:
  "0 \<le> lo \<Longrightarrow> lo \<le> hi \<Longrightarrow> hi \<le> int (length xs) \<Longrightarrow>
     slice_range xs lo hi = Some (take (nat hi - nat lo) (drop (nat lo) xs))"
  by (simp add: slice_range_def)

section \<open>Prefixes as takes\<close>

lemma take_eq_mono: "take m xs = take m ys \<Longrightarrow> k \<le> m \<Longrightarrow> take k xs = take k ys"
  by (metis min.absorb1 take_take)

lemma take_eq_nth:
  "take m xs = take m ys \<Longrightarrow> i < m \<Longrightarrow> i < length xs \<Longrightarrow> xs ! i = ys ! i"
  by (metis nth_take)

lemma take_eq_length:
  "take m xs = take m ys \<Longrightarrow> m \<le> length xs \<Longrightarrow> m \<le> length ys"
  by (metis length_take min.absorb2 min.cobounded1)

lemma take_eq_drop:
  "take m xs = take m ys \<Longrightarrow> take (m - k) (drop k xs) = take (m - k) (drop k ys)"
  by (metis drop_take)

lemma prefix_take: "X = take (length X) Z \<Longrightarrow> m \<le> length X \<Longrightarrow> take m X = take m Z"
  by (metis min.absorb1 take_take)

lemma prefix_nth: "X = take (length X) Z \<Longrightarrow> i < length X \<Longrightarrow> X ! i = Z ! i"
  by (metis nth_take)

lemma prefix_length: "X = take (length X) Z \<Longrightarrow> length X \<le> length Z"
  by (metis length_take min.cobounded1)

section \<open>Words\<close>

lemma word_of_nat_nonzero:
  assumes "0 < k" "k < 2 ^ 64"
  shows "(of_nat k :: 64 word) \<noteq> 0"
proof
  assume "(of_nat k :: 64 word) = 0"
  moreover have "unat (of_nat k :: 64 word) = k" using assms(2) by (simp add: unat_of_nat)
  ultimately show False using assms(1) by simp
qed

section \<open>Hash\<close>

text \<open>FNV-1a of Go's standard library (hash/fnv), 32 bits, over the bytes of a string.\<close>

definition fnv32a :: "string \<Rightarrow> 32 word" where
  "fnv32a key = foldl (\<lambda>h c. xor h (of_nat (of_char c)) * 16777619) 2166136261 key"

end
