(* ===== verification/KV_Server.thy ===== *)
theory KV_Server
  imports Prelude "HOL-Library.Word" "HOL-Library.List_Lexorder" "HOL-Library.Char_ord"
begin

text \<open>
  The unreplicated key/value server (src/src/kvsrv1/server.go), its RPC types
  (src/src/kvsrv1/rpc/rpc.go) and the checker's sequential model (src/src/models1/kv.go).
  Versions are 64-bit words, so the version after \<open>2^64 - 1\<close> is 0. The locale
  \<open>versioned_store\<close> is what clients may rely on; the replicated servers interpret it again.
\<close>

section \<open>RPC types\<close>

datatype Err = OK | ErrNoKey | ErrVersion | ErrMaybe | ErrWrongLeader | ErrWrongGroup

type_synonym Tversion = "64 word"

record PutArgs =
  putKey :: string
  putValue :: string
  putVersion :: Tversion

record GetArgs =
  getKey :: string

record GetReply =
  grValue :: string
  grVersion :: Tversion
  grErr :: Err

section \<open>The server\<close>

record kvnode =
  nodeValue :: string
  nodeVersion :: Tversion

record KVServer =
  kv_m :: "string \<rightharpoonup> kvnode"

definition MakeKVServer :: KVServer where
  "MakeKVServer = \<lparr>kv_m = Map.empty\<rparr>"

definition kv_Get :: "KVServer \<Rightarrow> GetArgs \<Rightarrow> GetReply" where
  "kv_Get kv args =
     (case kv_m kv (getKey args) of
        None \<Rightarrow> \<lparr>grValue = '''', grVersion = 0, grErr = ErrNoKey\<rparr>
      | Some n \<Rightarrow> \<lparr>grValue = nodeValue n, grVersion = nodeVersion n, grErr = OK\<rparr>)"

definition kv_Put :: "KVServer \<Rightarrow> PutArgs \<Rightarrow> KVServer \<times> Err" where
  "kv_Put kv args =
     (case kv_m kv (putKey args) of
        None \<Rightarrow>
          if putVersion args \<noteq> 0 then (kv, ErrNoKey)
          else (kv\<lparr>kv_m := (kv_m kv)(putKey args \<mapsto>
                  \<lparr>nodeValue = putValue args, nodeVersion = 1\<rparr>)\<rparr>, OK)
      | Some n \<Rightarrow>
          if putVersion args \<noteq> nodeVersion n then (kv, ErrVersion)
          else (kv\<lparr>kv_m := (kv_m kv)(putKey args \<mapsto>
                  \<lparr>nodeValue = putValue args, nodeVersion = nodeVersion n + 1\<rparr>)\<rparr>, OK))"

section \<open>What clients rely on\<close>

text \<open>
  A store of versioned values: the version of a key that does not exist is 0 and its value is
  empty; a Put succeeds exactly at the current version and bumps it, and leaves the store alone
  when it fails; a key never disappears.
\<close>

locale versioned_store =
  fixes version :: "'s \<Rightarrow> string \<Rightarrow> Tversion"
    and content :: "'s \<Rightarrow> string \<Rightarrow> string"
    and present :: "'s \<Rightarrow> string \<Rightarrow> bool"
    and put :: "'s \<Rightarrow> PutArgs \<Rightarrow> 's \<times> Err"
  assumes put_ok: "snd (put s a) = OK \<longleftrightarrow> putVersion a = version s (putKey a)"
    and put_fails: "snd (put s a) \<noteq> OK \<Longrightarrow>
      fst (put s a) = s \<and> (snd (put s a) = ErrNoKey \<or> snd (put s a) = ErrVersion)"
    and put_nokey: "snd (put s a) = ErrNoKey \<Longrightarrow> \<not> present s (putKey a)"
    and put_version: "snd (put s a) = OK \<Longrightarrow>
      version (fst (put s a)) = (version s)(putKey a := version s (putKey a) + 1)"
    and put_content: "snd (put s a) = OK \<Longrightarrow>
      content (fst (put s a)) = (content s)(putKey a := putValue a)"
    and put_present: "snd (put s a) = OK \<Longrightarrow>
      present (fst (put s a)) = (present s)(putKey a := True)"
begin

text \<open>The replies of a sequence of Puts and the store after it.\<close>

fun puts :: "'s \<Rightarrow> PutArgs list \<Rightarrow> 's" where
  "puts s [] = s"
| "puts s (a # as) = puts (fst (put s a)) as"

text \<open>The version of a key counts its successful Puts.\<close>

lemma version_counts:
  "\<exists>k \<le> length as. version (puts s as) x = version s x + of_nat k"
proof (induction as arbitrary: s)
  case (Cons a as)
  obtain k where k: "k \<le> length as" "version (puts (fst (put s a)) as) x = version (fst (put s a)) x + of_nat k"
    using Cons.IH [of "fst (put s a)"] by blast
  have "version (fst (put s a)) x = version s x \<or> version (fst (put s a)) x = version s x + 1"
    using put_fails [of s a] put_version [of s a] by (cases "snd (put s a) = OK") auto
  then show ?case
  proof
    assume "version (fst (put s a)) x = version s x + 1"
    then show ?thesis using k by (intro exI [of _ "Suc k"]) simp
  next
    assume "version (fst (put s a)) x = version s x"
    then show ?thesis using k by (intro exI [of _ k]) simp
  qed
qed simp

text \<open>
  A Put that succeeded cannot succeed again: fewer than \<open>2^64\<close> Puts later the version still
  differs, and the key is still there.
\<close>

lemma no_second_success:
  assumes ok: "snd (put s a) = OK" and "putKey a' = putKey a" "putVersion a' = putVersion a"
    and len: "length as < 2 ^ 64 - 1"
  shows "snd (put (puts (fst (put s a)) as) a') \<noteq> OK"
proof
  assume "snd (put (puts (fst (put s a)) as) a') = OK"
  then have "putVersion a = version (puts (fst (put s a)) as) (putKey a)"
    using put_ok assms(2,3) by simp
  moreover obtain k where k: "k \<le> length as"
    "version (puts (fst (put s a)) as) (putKey a) = version (fst (put s a)) (putKey a) + of_nat k"
    using version_counts by blast
  moreover have "version (fst (put s a)) (putKey a) = putVersion a + 1"
    using put_version [OF ok] put_ok [of s a] ok by simp
  ultimately have "(of_nat (Suc k) :: Tversion) = 0" by (simp add: add.commute)
  moreover have "(of_nat (Suc k) :: Tversion) \<noteq> 0" by (rule word_of_nat_nonzero) (use k len in simp_all)
  ultimately show False by contradiction
qed

lemma stays_present: "present s x \<Longrightarrow> present (puts s as) x"
proof (induction as arbitrary: s)
  case (Cons a as)
  have "present (fst (put s a)) x"
    using Cons.prems put_fails [of s a] put_present [of s a] by (cases "snd (put s a) = OK") auto
  then show ?case using Cons.IH by simp
qed simp

lemma puts_append: "puts s (as @ bs) = puts (puts s as) bs"
  by (induction as arbitrary: s) simp_all

end

section \<open>The server is such a store\<close>

definition kv_version :: "KVServer \<Rightarrow> string \<Rightarrow> Tversion" where
  "kv_version kv k = (case kv_m kv k of None \<Rightarrow> 0 | Some n \<Rightarrow> nodeVersion n)"

definition kv_content :: "KVServer \<Rightarrow> string \<Rightarrow> string" where
  "kv_content kv k = (case kv_m kv k of None \<Rightarrow> '''' | Some n \<Rightarrow> nodeValue n)"

definition kv_present :: "KVServer \<Rightarrow> string \<Rightarrow> bool" where
  "kv_present kv k \<longleftrightarrow> kv_m kv k \<noteq> None"

interpretation kv: versioned_store kv_version kv_content kv_present kv_Put
  by unfold_locales
    (auto simp: kv_Put_def kv_version_def kv_content_def kv_present_def fun_eq_iff
      split: option.splits if_splits)

lemma kv_Get_reply:
  "kv_Get kv args = \<lparr>grValue = kv_content kv (getKey args), grVersion = kv_version kv (getKey args),
     grErr = (if kv_present kv (getKey args) then OK else ErrNoKey)\<rparr>"
  by (simp add: kv_Get_def kv_content_def kv_version_def kv_present_def split: option.splits)

section \<open>The checker's model\<close>

text \<open>The model of one key; its error is the string of the reply, here the constructor.\<close>

record KvInput =
  inOp :: nat
  inKey :: string
  inValue :: string
  inVersion :: Tversion

record KvOutput =
  outValue :: string
  outVersion :: Tversion
  outErr :: Err

record KvState =
  stValue :: string
  stVersion :: Tversion

definition KvInit :: KvState where
  "KvInit = \<lparr>stValue = '''', stVersion = 0\<rparr>"

text \<open>\<open>None\<close> as the new state is the \<open>"<invalid>"\<close> of the default case.\<close>

definition KvStep :: "KvState \<Rightarrow> KvInput \<Rightarrow> KvOutput \<Rightarrow> bool \<times> KvState option" where
  "KvStep st inp out =
     (if inOp inp = 0 then (outValue out = stValue st, Some st)
      else if inOp inp = 1 then
        if stVersion st = inVersion inp
        then (outErr out = OK \<or> outErr out = ErrMaybe,
              Some \<lparr>stValue = inValue inp, stVersion = stVersion st + 1\<rparr>)
        else (outErr out = ErrVersion \<or> outErr out = ErrMaybe, Some st)
      else (False, None))"

text \<open>The history of each key, in the order of the keys; a missing map entry reads as empty.\<close>

definition opsOf :: "(string \<rightharpoonup> KvInput list) \<Rightarrow> string \<Rightarrow> KvInput list" where
  "opsOf m k = (case m k of None \<Rightarrow> [] | Some l \<Rightarrow> l)"

fun groupOps :: "(string \<rightharpoonup> KvInput list) \<Rightarrow> KvInput list \<Rightarrow> (string \<rightharpoonup> KvInput list)" where
  "groupOps m [] = m"
| "groupOps m (v # vs) = groupOps (m(inKey v \<mapsto> opsOf m (inKey v) @ [v])) vs"

definition KvPartition :: "KvInput list \<Rightarrow> KvInput list list" where
  "KvPartition history =
     map (opsOf (groupOps Map.empty history)) (sort (remdups (map inKey history)))"

definition model_of :: "KVServer \<Rightarrow> string \<Rightarrow> KvState" where
  "model_of kv k = \<lparr>stValue = kv_content kv k, stVersion = kv_version kv k\<rparr>"

lemma opsOf_upd: "opsOf (m(x \<mapsto> l)) k = (if k = x then l else opsOf m k)"
  by (simp add: opsOf_def)

lemma groupOps_filter: "opsOf (groupOps m vs) k = opsOf m k @ filter (\<lambda>v. inKey v = k) vs"
  by (induction vs arbitrary: m) (auto simp: opsOf_upd)

section \<open>Properties\<close>

text \<open>
  C16. Every reply of the server is a step of the checker's model on the key's value and version,
  except the one case the model rejects: a Put with a non-zero version on a key that does not
  exist, which the server answers with ErrNoKey and the model requires to be ErrVersion.
\<close>

theorem server_follows_model:
  assumes "kv_Put kv a = (kv', e)"
  shows "(fst (KvStep (model_of kv (putKey a))
             \<lparr>inOp = 1, inKey = putKey a, inValue = putValue a, inVersion = putVersion a\<rparr>
             \<lparr>outValue = [], outVersion = 0, outErr = e\<rparr>) \<longleftrightarrow> e \<noteq> ErrNoKey) \<and>
    snd (KvStep (model_of kv (putKey a))
             \<lparr>inOp = 1, inKey = putKey a, inValue = putValue a, inVersion = putVersion a\<rparr>
             \<lparr>outValue = [], outVersion = 0, outErr = e\<rparr>) = Some (model_of kv' (putKey a)) \<and>
    (\<forall>k. k \<noteq> putKey a \<longrightarrow> model_of kv' k = model_of kv k) \<and>
    (\<forall>k. KvStep (model_of kv k) \<lparr>inOp = 0, inKey = k, inValue = [], inVersion = 0\<rparr>
       \<lparr>outValue = grValue (kv_Get kv \<lparr>getKey = k\<rparr>), outVersion = grVersion (kv_Get kv \<lparr>getKey = k\<rparr>),
        outErr = grErr (kv_Get kv \<lparr>getKey = k\<rparr>)\<rparr> = (True, Some (model_of kv k)))"
  using assms by (auto simp: kv_Put_def kv_Get_def KvStep_def model_of_def kv_content_def
      kv_version_def split: option.splits if_splits)

lemma server_follows_model_witness:
  "fst (KvStep (model_of MakeKVServer ''k'')
     \<lparr>inOp = 1, inKey = ''k'', inValue = ''v'', inVersion = 3\<rparr>
     \<lparr>outValue = [], outVersion = 0, outErr = snd (kv_Put MakeKVServer
        \<lparr>putKey = ''k'', putValue = ''v'', putVersion = 3\<rparr>)\<rparr>) = False"
proof -
  have "kv_Put MakeKVServer \<lparr>putKey = ''k'', putValue = ''v'', putVersion = 3\<rparr> = (MakeKVServer, ErrNoKey)"
    by (simp add: kv_Put_def MakeKVServer_def)
  from server_follows_model [OF this] this show ?thesis by simp
qed

text \<open>
  Partition is the history split by key: one sub-history per key that occurs, in the sorted
  order of the keys, each with its operations in their order.
\<close>

theorem partition_splits_history:
  "KvPartition h = map (\<lambda>k. filter (\<lambda>v. inKey v = k) h) (sort (remdups (map inKey h)))"
  by (simp add: KvPartition_def groupOps_filter) (simp add: opsOf_def)

text \<open>
  C15. A Put executes at most once: after one copy has succeeded, no later copy with the same key
  and version succeeds, whatever fewer than \<open>2^64 - 1\<close> other Puts come between; and the key is
  never reported missing again.
\<close>

theorem put_at_most_once:
  assumes "snd (kv_Put kv a) = OK" "length others < 2 ^ 64 - 1"
    and "putKey a' = putKey a" "putVersion a' = putVersion a"
  shows "snd (kv_Put (kv.puts (fst (kv_Put kv a)) others) a') = ErrVersion"
proof -
  let ?s = "kv.puts (fst (kv_Put kv a)) others"
  have no: "snd (kv_Put ?s a') \<noteq> OK" by (rule kv.no_second_success [OF assms(1,3,4,2)])
  have "kv_present ?s (putKey a')"
    using kv.stays_present kv.put_present [OF assms(1)] assms(3) by simp
  then show ?thesis using no kv.put_fails [OF no] kv.put_nokey by blast
qed

lemma put_at_most_once_witness:
  "snd (kv_Put (kv.puts (fst (kv_Put MakeKVServer \<lparr>putKey = ''k'', putValue = ''v'', putVersion = 0\<rparr>))
       [\<lparr>putKey = ''k'', putValue = ''w'', putVersion = 1\<rparr>])
     \<lparr>putKey = ''k'', putValue = ''v'', putVersion = 0\<rparr>) = ErrVersion"
  by (rule put_at_most_once) (simp_all add: kv_Put_def MakeKVServer_def)

end
