(* ===== verification/Persister.thy ===== *)
theory Persister
  imports Prelude
begin

text \<open>
  The stable storage of a server (src/src/tester1/persister.go). The two byte slices are kept
  as values of the types their encoders produce; \<open>None\<close> is the empty slice, which is
  what the code tests for. Every access clones the slice, so a reader never shares memory
  with the store: the pure values here have no aliasing either.
\<close>

record ('r, 's) Persister =
  raftstate :: "'r option"
  psnapshot :: "'s option"

definition MakePersister :: "('r, 's) Persister" where
  "MakePersister = \<lparr>raftstate = None, psnapshot = None\<rparr>"

definition Checkpoint :: "('r, 's) Persister \<Rightarrow> ('r, 's) Persister" where
  "Checkpoint ps = MakePersister\<lparr>raftstate := raftstate ps, psnapshot := psnapshot ps\<rparr>"

definition ReadRaftState :: "('r, 's) Persister \<Rightarrow> 'r option" where
  "ReadRaftState ps = raftstate ps"

definition RaftStateSize :: "('r \<Rightarrow> nat) \<Rightarrow> ('r, 's) Persister \<Rightarrow> nat" where
  "RaftStateSize len ps = (case raftstate ps of None \<Rightarrow> 0 | Some r \<Rightarrow> len r)"

definition Save :: "('r, 's) Persister \<Rightarrow> 'r option \<Rightarrow> 's option \<Rightarrow> ('r, 's) Persister" where
  "Save ps rs sn = ps\<lparr>raftstate := rs, psnapshot := sn\<rparr>"

definition ReadSnapshot :: "('r, 's) Persister \<Rightarrow> 's option" where
  "ReadSnapshot ps = psnapshot ps"

definition SnapshotSize :: "('s \<Rightarrow> nat) \<Rightarrow> ('r, 's) Persister \<Rightarrow> nat" where
  "SnapshotSize len ps = (case psnapshot ps of None \<Rightarrow> 0 | Some s \<Rightarrow> len s)"

lemma Save_read [simp]:
  "ReadRaftState (Save ps rs sn) = rs" "ReadSnapshot (Save ps rs sn) = sn"
  by (simp_all add: Save_def ReadRaftState_def ReadSnapshot_def)

lemma Checkpoint_eq [simp]: "Checkpoint ps = ps"
  by (cases ps) (simp add: Checkpoint_def MakePersister_def)

end
