(* ===== verification/Raft_Node.thy ===== *)
theory Raft_Node
  imports Prelude Persister
begin

text \<open>
  One Raft peer (src/src/raft1/raft.go): its state, its log access, its persistence, its RPC
  handlers, its reply handlers and the bodies of its background loops. Each method that holds
  \<open>rf.mu\<close> is one function; \<open>None\<close> is a Go index-out-of-range panic. What the
  methods read from outside (the clock, the random generator) is an argument. The condition
  variable and the heartbeat timers carry no state; the notification slots do.
\<close>

section \<open>Data\<close>

datatype serverState = Follower | Candidate | Leader

record 'c LogEntry =
  leTerm :: int
  leCommand :: "'c option"

text \<open>The five fields \<open>persist\<close> encodes, and what \<open>readPersist\<close> may find.\<close>

record 'c raftImage =
  imTerm :: int
  imVotedFor :: int
  imLog :: "'c LogEntry list"
  imLastIncludeIndex :: int
  imLastIncludeTerm :: int

datatype 'c raftBytes = Undecodable | Encoded "'c raftImage"

record ('c, 'b) raft =
  npeers :: nat
  persister :: "('c raftBytes, 'b) Persister"
  me :: nat
  currentTerm :: int
  votedFor :: int
  rstate :: serverState
  lastContact :: int
  electionTimeout :: int
  voteCount :: int
  rlog :: "'c LogEntry list"
  commitIndex :: int
  applyIndex :: int
  nextIndex :: "int list"
  matchIndex :: "int list"
  notify :: "bool list"
  lastIncludeIndex :: int
  lastIncludeTerm :: int
  rsnapshot :: "'b option"
  pendingSnapshot :: "'b option"
  pendingSnapshotIndex :: int
  pendingSnapshotTerm :: int

record ('c, 'b) ApplyMsg =
  CommandValid :: bool
  Command :: "'c option"
  CommandIndex :: int
  SnapshotValid :: bool
  SnapshotData :: "'b option"
  SnapshotTerm :: int
  SnapshotIndex :: int

record RequestVoteArgs =
  rvTerm :: int
  rvCandidateId :: int
  rvLastLogIndex :: int
  rvLastLogTerm :: int

record RequestVoteReply =
  rvrTerm :: int
  rvrVoteGranted :: bool

record 'c AppendEntriesArgs =
  aeTerm :: int
  aeLeaderId :: int
  aePrevLogIndex :: int
  aePrevLogTerm :: int
  aeEntries :: "'c LogEntry list"
  aeLeaderCommit :: int

record AppendEntriesReply =
  aerTerm :: int
  aerSuccess :: bool
  aerXTerm :: int
  aerXIndex :: int
  aerXLen :: int

record 'b InstallSnapshotArgs =
  isTerm :: int
  isLeaderId :: int
  isLastIncludeIndex :: int
  isLastIncludeTerm :: int
  isData :: "'b option"

record InstallSnapshotReply =
  isrTerm :: int
  isrSuccess :: bool

definition sentinel :: "'c LogEntry" where
  "sentinel = \<lparr>leTerm = 0, leCommand = None\<rparr>"

definition maxBatchSize :: int where
  "maxBatchSize = 64"

text \<open>\<open>rand.Intn(400)\<close> of an arbitrary random number, in milliseconds.\<close>

definition randomElectionTimeout :: "int \<Rightarrow> int" where
  "randomElectionTimeout rnd = 800 + rnd mod 400"

section \<open>Log access\<close>

definition logIdx :: "('c, 'b) raft \<Rightarrow> int \<Rightarrow> int" where
  "logIdx rf i = i - lastIncludeIndex rf"

definition lastIndex :: "('c, 'b) raft \<Rightarrow> int" where
  "lastIndex rf = int (length (rlog rf)) + lastIncludeIndex rf - 1"

definition lastTerm :: "('c, 'b) raft \<Rightarrow> int option" where
  "lastTerm rf = map_option leTerm (slice_get (rlog rf) (int (length (rlog rf)) - 1))"

definition entry :: "('c, 'b) raft \<Rightarrow> int \<Rightarrow> 'c LogEntry option" where
  "entry rf i = slice_get (rlog rf) (logIdx rf i)"

definition entries :: "('c, 'b) raft \<Rightarrow> int \<Rightarrow> int \<Rightarrow> 'c LogEntry list option" where
  "entries rf lo hi = slice_range (rlog rf) (logIdx rf lo) (logIdx rf hi)"

definition truncateFront :: "('c, 'b) raft \<Rightarrow> int \<Rightarrow> ('c, 'b) raft option" where
  "truncateFront rf lo =
     map_option (\<lambda>l. rf\<lparr>rlog := l\<rparr>) (slice_from (rlog rf) (logIdx rf lo))"

text \<open>A send on a channel of capacity one that never blocks: the slot ends up full.\<close>

definition signal :: "('c, 'b) raft \<Rightarrow> nat \<Rightarrow> ('c, 'b) raft" where
  "signal rf peer = rf\<lparr>notify := (notify rf)[peer := True]\<rparr>"

fun signalOthers :: "nat list \<Rightarrow> ('c, 'b) raft \<Rightarrow> ('c, 'b) raft" where
  "signalOthers [] rf = rf"
| "signalOthers (i # is) rf = signalOthers is (if i \<noteq> me rf then signal rf i else rf)"

definition GetState :: "('c, 'b) raft \<Rightarrow> int \<times> bool" where
  "GetState rf = (currentTerm rf, rstate rf = Leader)"

section \<open>Persistence\<close>

definition image_of :: "('c, 'b) raft \<Rightarrow> 'c raftImage" where
  "image_of rf =
     \<lparr>imTerm = currentTerm rf, imVotedFor = votedFor rf, imLog = rlog rf,
      imLastIncludeIndex = lastIncludeIndex rf, imLastIncludeTerm = lastIncludeTerm rf\<rparr>"

definition persist :: "('c, 'b) raft \<Rightarrow> ('c, 'b) raft" where
  "persist rf =
     rf\<lparr>persister := Save (persister rf) (Some (Encoded (image_of rf))) (rsnapshot rf)\<rparr>"

fun readPersist :: "('c, 'b) raft \<Rightarrow> 'c raftBytes option \<Rightarrow> ('c, 'b) raft" where
  "readPersist rf None = rf"
| "readPersist rf (Some Undecodable) = rf"
| "readPersist rf (Some (Encoded im)) =
     rf\<lparr>currentTerm := imTerm im, votedFor := imVotedFor im,
        rlog := (if imLog im = [] then [sentinel] else imLog im),
        lastIncludeIndex := imLastIncludeIndex im,
        lastIncludeTerm := imLastIncludeTerm im,
        commitIndex := imLastIncludeIndex im,
        applyIndex := imLastIncludeIndex im\<rparr>"

definition PersistBytes :: "('c raftBytes \<Rightarrow> nat) \<Rightarrow> ('c, 'b) raft \<Rightarrow> nat" where
  "PersistBytes len rf = RaftStateSize len (persister rf)"

definition rf_Snapshot :: "('c, 'b) raft \<Rightarrow> int \<Rightarrow> 'b option \<Rightarrow> ('c, 'b) raft option" where
  "rf_Snapshot rf index snap =
     (if index \<le> lastIncludeIndex rf then Some rf
      else if index > lastIndex rf \<or> index > applyIndex rf then Some rf
      else do {
        rf1 \<leftarrow> truncateFront rf index;
        e \<leftarrow> slice_get (rlog rf1) 0;
        Some (persist (rf1\<lparr>lastIncludeIndex := index, lastIncludeTerm := leTerm e,
                           rsnapshot := snap\<rparr>))
      })"

section \<open>RequestVote\<close>

text \<open>Adopting a newer term, the step every handler shares.\<close>

definition upToDate :: "int \<Rightarrow> int \<Rightarrow> int \<Rightarrow> int \<Rightarrow> bool" where
  "upToDate cTerm cIndex myTerm myIndex \<longleftrightarrow>
     cTerm > myTerm \<or> (cTerm = myTerm \<and> cIndex \<ge> myIndex)"

definition RequestVote ::
  "int \<Rightarrow> int \<Rightarrow> ('c, 'b) raft \<Rightarrow> RequestVoteArgs \<Rightarrow> (('c, 'b) raft \<times> RequestVoteReply) option"
where
  "RequestVote now rnd rf args =
     (if rvTerm args < currentTerm rf
      then Some (rf, \<lparr>rvrTerm = currentTerm rf, rvrVoteGranted = False\<rparr>)
      else
        let rf1 = (if rvTerm args > currentTerm rf
                   then persist (rf\<lparr>currentTerm := rvTerm args, votedFor := -1,
                                    rstate := Follower\<rparr>)
                   else rf)
        in do {
          lastLogTerm \<leftarrow> lastTerm rf1;
          if (votedFor rf1 = -1 \<or> votedFor rf1 = rvCandidateId args) \<and>
             upToDate (rvLastLogTerm args) (rvLastLogIndex args) lastLogTerm (lastIndex rf1)
          then Some (persist (rf1\<lparr>votedFor := rvCandidateId args, rstate := Follower,
                                  lastContact := now,
                                  electionTimeout := randomElectionTimeout rnd\<rparr>),
                     \<lparr>rvrTerm = currentTerm rf1, rvrVoteGranted = True\<rparr>)
          else Some (rf1, \<lparr>rvrTerm = currentTerm rf1, rvrVoteGranted = False\<rparr>)
        })"

section \<open>AppendEntries\<close>

text \<open>
  The follower's search for the first index of the conflicting term, stopping at the snapshot
  boundary.
\<close>

function firstOfTerm :: "('c, 'b) raft \<Rightarrow> int \<Rightarrow> int \<Rightarrow> int option" where
  "firstOfTerm rf xterm i =
     (if i > lastIncludeIndex rf then
        (case entry rf (i - 1) of
           None \<Rightarrow> None
         | Some e \<Rightarrow> if leTerm e = xterm then firstOfTerm rf xterm (i - 1) else Some i)
      else Some i)"
  by pat_completeness auto
termination
  by (relation "measure (\<lambda>(rf, xterm, i). nat (i - lastIncludeIndex rf))") auto

declare firstOfTerm.simps [simp del]

text \<open>
  The first contradiction between the local log and the entries from index \<open>i\<close> on;
  \<open>-1\<close> when there is none.
\<close>

fun findConflict :: "('c, 'b) raft \<Rightarrow> int \<Rightarrow> 'c LogEntry list \<Rightarrow> int option" where
  "findConflict rf i [] = Some (-1)"
| "findConflict rf i (e # es) =
     (if i > lastIndex rf then Some (-1)
      else case entry rf i of
             None \<Rightarrow> None
           | Some e' \<Rightarrow> if leTerm e' \<noteq> leTerm e then Some i else findConflict rf (i + 1) es)"

text \<open>
  Append and truncate: with a non-empty list of entries, compare from the end of the snapshot
  on, cut at the first conflict, append what is missing, persist. The loop that clears the
  cut-off elements of the backing array changes nothing the program can still reach.
\<close>

definition appendStage :: "('c, 'b) raft \<Rightarrow> 'c AppendEntriesArgs \<Rightarrow> ('c, 'b) raft option" where
  "appendStage rf args =
     (if aeEntries args = [] then Some rf
      else do {
        let k0 = max 0 (lastIncludeIndex rf - aePrevLogIndex args);
        conflict \<leftarrow> findConflict rf (aePrevLogIndex args + 1 + k0)
                       (drop (nat k0) (aeEntries args));
        rf1 \<leftarrow> (if conflict \<ge> 0
                 then map_option (\<lambda>l. rf\<lparr>rlog := l\<rparr>) (slice_to (rlog rf) (logIdx rf conflict))
                 else Some rf);
        rf2 \<leftarrow> (if lastIndex rf1 < aePrevLogIndex args + int (length (aeEntries args))
                 then map_option (\<lambda>es. rf1\<lparr>rlog := rlog rf1 @ es\<rparr>)
                        (slice_from (aeEntries args) (lastIndex rf1 - aePrevLogIndex args))
                 else Some rf1);
        Some (persist rf2)
      })"

definition commitStage :: "('c, 'b) raft \<Rightarrow> 'c AppendEntriesArgs \<Rightarrow> ('c, 'b) raft" where
  "commitStage rf args =
     (if aeLeaderCommit args > commitIndex rf
      then rf\<lparr>commitIndex :=
             max (commitIndex rf)
               (min (aeLeaderCommit args)
                    (aePrevLogIndex args + int (length (aeEntries args))))\<rparr>
      else rf)"

definition AppendEntries ::
  "int \<Rightarrow> ('c, 'b) raft \<Rightarrow> 'c AppendEntriesArgs \<Rightarrow> (('c, 'b) raft \<times> AppendEntriesReply) option"
where
  "AppendEntries now rf args =
     (let reply0 = \<lparr>aerTerm = currentTerm rf, aerSuccess = False, aerXTerm = -1, aerXIndex = -1,
                    aerXLen = lastIndex rf + 1\<rparr>
      in if aeTerm args < currentTerm rf then Some (rf, reply0)
      else
        let rf1 = (if aeTerm args > currentTerm rf
                   then persist (rf\<lparr>currentTerm := aeTerm args, votedFor := -1\<rparr>) else rf);
            rf2 = rf1\<lparr>rstate := Follower, lastContact := now\<rparr>;
            reply = reply0\<lparr>aerTerm := currentTerm rf2\<rparr>
        in if aePrevLogIndex args > lastIndex rf2 then Some (rf2, reply)
        else do {
          mismatch \<leftarrow> (if aePrevLogIndex args \<ge> lastIncludeIndex rf2
                      then map_option (\<lambda>e. leTerm e \<noteq> aePrevLogTerm args)
                             (entry rf2 (aePrevLogIndex args))
                      else Some False);
          if mismatch then do {
            e \<leftarrow> entry rf2 (aePrevLogIndex args);
            i \<leftarrow> firstOfTerm rf2 (leTerm e) (aePrevLogIndex args);
            Some (rf2, reply\<lparr>aerXTerm := leTerm e, aerXIndex := i\<rparr>)
          } else do {
            rf3 \<leftarrow> appendStage rf2 args;
            Some (commitStage rf3 args, reply\<lparr>aerSuccess := True\<rparr>)
          }
        })"

section \<open>The applier loop\<close>

text \<open>
  One turn of the loop: nothing when it would wait, the pending snapshot first, else the batch
  of commands up to the commit index. The messages are sent after the lock is released, by
  this one goroutine only.
\<close>

definition applier ::
  "('c, 'b) raft \<Rightarrow> (('c, 'b) raft \<times> ('c, 'b) ApplyMsg list) option" where
  "applier rf =
     (if applyIndex rf \<ge> commitIndex rf \<and> pendingSnapshot rf = None then Some (rf, [])
      else if pendingSnapshot rf \<noteq> None then
        Some (rf\<lparr>pendingSnapshot := None\<rparr>,
              [\<lparr>CommandValid = False, Command = None, CommandIndex = 0,
                SnapshotValid = True, SnapshotData = pendingSnapshot rf,
                SnapshotTerm = pendingSnapshotTerm rf,
                SnapshotIndex = pendingSnapshotIndex rf\<rparr>])
      else
        let lo = applyIndex rf + 1; hi = commitIndex rf
        in do {
          batch \<leftarrow> entries rf lo (hi + 1);
          Some (rf\<lparr>applyIndex := hi\<rparr>,
                map (\<lambda>(k, e). \<lparr>CommandValid = True, Command = leCommand e,
                                CommandIndex = lo + int k,
                                SnapshotValid = False, SnapshotData = None,
                                SnapshotTerm = 0, SnapshotIndex = 0\<rparr>)
                  (enumerate 0 batch))
        })"

section \<open>The replicator loop\<close>

datatype ('c, 'b) outgoing =
    NoSend
  | SendInstall "'b InstallSnapshotArgs"
  | SendAppend "'c AppendEntriesArgs"

definition replicator :: "('c, 'b) raft \<Rightarrow> nat \<Rightarrow> ('c, 'b) outgoing option" where
  "replicator rf peer =
     (if rstate rf \<noteq> Leader then Some NoSend
      else do {
        next \<leftarrow> slice_get (nextIndex rf) (int peer);
        if next \<le> lastIncludeIndex rf then
          Some (SendInstall
            \<lparr>isTerm = currentTerm rf, isLeaderId = int (me rf),
             isLastIncludeIndex = lastIncludeIndex rf,
             isLastIncludeTerm = lastIncludeTerm rf, isData = rsnapshot rf\<rparr>)
        else do {
          prev \<leftarrow> entry rf (next - 1);
          es \<leftarrow> (if lastIndex rf \<ge> next
                  then entries rf next (min (lastIndex rf + 1) (next + maxBatchSize))
                  else Some []);
          Some (SendAppend
            \<lparr>aeTerm = currentTerm rf, aeLeaderId = int (me rf), aePrevLogIndex = next - 1,
             aePrevLogTerm = leTerm prev, aeEntries = es, aeLeaderCommit = commitIndex rf\<rparr>)
        }
      })"

section \<open>InstallSnapshot\<close>

definition InstallSnapshot ::
  "int \<Rightarrow> ('c, 'b) raft \<Rightarrow> 'b InstallSnapshotArgs \<Rightarrow> (('c, 'b) raft \<times> InstallSnapshotReply) option"
where
  "InstallSnapshot now rf args =
     (if isTerm args < currentTerm rf
      then Some (rf, \<lparr>isrTerm = currentTerm rf, isrSuccess = False\<rparr>)
      else
        let rf1 = (if isTerm args > currentTerm rf
                   then persist (rf\<lparr>currentTerm := isTerm args, votedFor := -1\<rparr>) else rf);
            rf2 = rf1\<lparr>rstate := Follower, lastContact := now\<rparr>
        in if isLastIncludeIndex args \<le> lastIncludeIndex rf2 \<or>
              isLastIncludeIndex args \<le> commitIndex rf2
        then Some (rf2, \<lparr>isrTerm = currentTerm rf2, isrSuccess = True\<rparr>)
        else do {
          keep \<leftarrow> (if lastIndex rf2 \<ge> isLastIncludeIndex args
                   then map_option (\<lambda>e. leTerm e = isLastIncludeTerm args)
                          (entry rf2 (isLastIncludeIndex args))
                   else Some False);
          rf3 \<leftarrow> (if keep then truncateFront rf2 (isLastIncludeIndex args)
                   else Some (rf2\<lparr>rlog := [\<lparr>leTerm = isLastIncludeTerm args,
                                            leCommand = None\<rparr>]\<rparr>));
          let rf4 = rf3\<lparr>lastIncludeIndex := isLastIncludeIndex args,
                        lastIncludeTerm := isLastIncludeTerm args,
                        rsnapshot := isData args\<rparr>;
              rf5 = rf4\<lparr>applyIndex := max (applyIndex rf4) (lastIncludeIndex rf4),
                        commitIndex := max (commitIndex rf4) (lastIncludeIndex rf4),
                        pendingSnapshot := isData args,
                        pendingSnapshotIndex := isLastIncludeIndex args,
                        pendingSnapshotTerm := isLastIncludeTerm args\<rparr>
          in Some (persist rf5, \<lparr>isrTerm = currentTerm rf2, isrSuccess = True\<rparr>)
        })"

section \<open>Replies\<close>

definition advanceCommitIndex :: "('c, 'b) raft \<Rightarrow> ('c, 'b) raft option" where
  "advanceCommitIndex rf =
     (if rstate rf \<noteq> Leader then Some rf
      else do {
        m \<leftarrow> slice_set (matchIndex rf) (int (me rf)) (lastIndex rf);
        n \<leftarrow> slice_get (sort m) (int (length m) div 2);
        if n > commitIndex rf then do {
          e \<leftarrow> entry rf n;
          Some (if leTerm e = currentTerm rf then rf\<lparr>commitIndex := n\<rparr> else rf)
        } else Some rf
      })"

text \<open>The leader's search, from its last entry down, for an entry of the follower's term.\<close>

function lastOfTerm :: "('c, 'b) raft \<Rightarrow> int \<Rightarrow> int \<Rightarrow> int option" where
  "lastOfTerm rf xterm i =
     (if i > lastIncludeIndex rf then
        (case entry rf i of
           None \<Rightarrow> None
         | Some e \<Rightarrow> if leTerm e = xterm then Some i else lastOfTerm rf xterm (i - 1))
      else Some (-1))"
  by pat_completeness auto
termination
  by (relation "measure (\<lambda>(rf, xterm, i). nat (i - lastIncludeIndex rf))") auto

declare lastOfTerm.simps [simp del]

definition stepDown :: "('c, 'b) raft \<Rightarrow> int \<Rightarrow> ('c, 'b) raft" where
  "stepDown rf t = persist (rf\<lparr>currentTerm := t, votedFor := -1, rstate := Follower\<rparr>)"

definition setMatch :: "('c, 'b) raft \<Rightarrow> nat \<Rightarrow> int \<Rightarrow> ('c, 'b) raft option" where
  "setMatch rf peer matched =
     do {
       old \<leftarrow> slice_get (matchIndex rf) (int peer);
       m \<leftarrow> (if matched > old then slice_set (matchIndex rf) (int peer) matched
              else Some (matchIndex rf));
       now \<leftarrow> slice_get m (int peer);
       ni \<leftarrow> slice_set (nextIndex rf) (int peer) (now + 1);
       advanceCommitIndex (rf\<lparr>matchIndex := m, nextIndex := ni\<rparr>)
     }"

definition backUp :: "('c, 'b) raft \<Rightarrow> AppendEntriesReply \<Rightarrow> int option" where
  "backUp rf reply =
     (if aerXTerm reply = -1 then Some (aerXLen reply)
      else do {
        idx \<leftarrow> lastOfTerm rf (aerXTerm reply) (lastIndex rf);
        Some (if idx = -1 then aerXIndex reply else idx + 1)
      })"

definition clampNext :: "('c, 'b) raft \<Rightarrow> int \<Rightarrow> int" where
  "clampNext rf n =
     (let lo = max 1 (lastIncludeIndex rf); n1 = (if n < lo then lo else n)
      in if n1 > lastIndex rf + 1 then lastIndex rf + 1 else n1)"

definition handleAppendReply ::
  "('c, 'b) raft \<Rightarrow> nat \<Rightarrow> 'c AppendEntriesArgs \<Rightarrow> AppendEntriesReply \<Rightarrow> bool \<Rightarrow>
     (('c, 'b) raft \<times> bool) option" where
  "handleAppendReply rf peer args reply ok =
     (if rstate rf \<noteq> Leader \<or> currentTerm rf \<noteq> aeTerm args then Some (rf, False)
      else if \<not> ok then Some (rf, False)
      else if aerTerm reply > currentTerm rf then Some (stepDown rf (aerTerm reply), False)
      else if aerSuccess reply then do {
        rf1 \<leftarrow> setMatch rf peer (aePrevLogIndex args + int (length (aeEntries args)));
        ni \<leftarrow> slice_get (nextIndex rf1) (int peer);
        Some (rf1, ni \<le> lastIndex rf1)
      } else do {
        n \<leftarrow> backUp rf reply;
        ni \<leftarrow> slice_set (nextIndex rf) (int peer) (clampNext rf n);
        Some (rf\<lparr>nextIndex := ni\<rparr>, True)
      })"

definition handleInstallReply ::
  "('c, 'b) raft \<Rightarrow> nat \<Rightarrow> 'b InstallSnapshotArgs \<Rightarrow> InstallSnapshotReply \<Rightarrow> bool \<Rightarrow>
     (('c, 'b) raft \<times> bool) option" where
  "handleInstallReply rf peer args reply ok =
     (if rstate rf \<noteq> Leader \<or> currentTerm rf \<noteq> isTerm args then Some (rf, False)
      else if \<not> ok then Some (rf, False)
      else if isrTerm reply > currentTerm rf then Some (stepDown rf (isrTerm reply), False)
      else if \<not> isrSuccess reply then Some (rf, False)
      else do {
        rf1 \<leftarrow> setMatch rf peer (isLastIncludeIndex args);
        Some (rf1, True)
      })"

section \<open>Proposing, electing\<close>

definition Start :: "('c, 'b) raft \<Rightarrow> 'c \<Rightarrow> ('c, 'b) raft \<times> int \<times> int \<times> bool" where
  "Start rf command =
     (if rstate rf \<noteq> Leader then (rf, -1, currentTerm rf, False)
      else
        let index = lastIndex rf + 1;
            rf1 = persist (rf\<lparr>rlog := rlog rf @
                     [\<lparr>leTerm = currentTerm rf, leCommand = Some command\<rparr>]\<rparr>)
        in (signalOthers [0..<npeers rf1] rf1, index, currentTerm rf1, True))"

definition becomeLeader :: "('c, 'b) raft \<Rightarrow> ('c, 'b) raft option" where
  "becomeLeader rf =
     (let n = lastIndex rf
      in do {
        m \<leftarrow> slice_set (map (\<lambda>_. 0) [0..<npeers rf]) (int (me rf)) n;
        Some (signalOthers [0..<npeers rf]
          (rf\<lparr>rstate := Leader, nextIndex := map (\<lambda>_. n + 1) [0..<npeers rf],
              matchIndex := m\<rparr>))
      })"

text \<open>
  The part of \<open>startElection\<close> under the lock, with the request it sends to every
  other peer; \<open>None\<close> in the second component when it is already the leader.
\<close>

definition startElection ::
  "int \<Rightarrow> int \<Rightarrow> ('c, 'b) raft \<Rightarrow> (('c, 'b) raft \<times> RequestVoteArgs option) option" where
  "startElection now rnd rf =
     (if rstate rf = Leader then Some (rf, None)
      else
        let rf1 = rf\<lparr>rstate := Candidate, currentTerm := currentTerm rf + 1,
                     votedFor := int (me rf), voteCount := 1, lastContact := now,
                     electionTimeout := randomElectionTimeout rnd\<rparr>
        in do {
          lastLogTerm \<leftarrow> lastTerm rf1;
          Some (persist rf1,
                Some \<lparr>rvTerm = currentTerm rf1, rvCandidateId = int (me rf1),
                      rvLastLogIndex = lastIndex rf1, rvLastLogTerm = lastLogTerm\<rparr>)
        })"

text \<open>What the goroutine of one vote request does with the reply it got.\<close>

definition handleVoteReply ::
  "('c, 'b) raft \<Rightarrow> RequestVoteArgs \<Rightarrow> RequestVoteReply \<Rightarrow> ('c, 'b) raft option" where
  "handleVoteReply rf args reply =
     (if rvrTerm reply > currentTerm rf then Some (stepDown rf (rvrTerm reply))
      else if rstate rf \<noteq> Candidate \<or> currentTerm rf \<noteq> rvTerm args \<or>
              rvrTerm reply \<noteq> rvTerm args \<or> \<not> rvrVoteGranted reply
      then Some rf
      else if voteCount rf > int (npeers rf) div 2 then Some rf
      else
        let rf1 = rf\<lparr>voteCount := voteCount rf + 1\<rparr>
        in if voteCount rf1 > int (npeers rf1) div 2 then becomeLeader rf1 else Some rf1)"

text \<open>One turn of the ticker: whether it calls \<open>startElection\<close>.\<close>

definition ticker :: "int \<Rightarrow> ('c, 'b) raft \<Rightarrow> bool" where
  "ticker now rf \<longleftrightarrow> rstate rf \<noteq> Leader \<and> now - lastContact rf \<ge> electionTimeout rf"

section \<open>Creating a peer\<close>

definition MakeRaft ::
  "nat \<Rightarrow> nat \<Rightarrow> int \<Rightarrow> int \<Rightarrow> ('c raftBytes, 'b) Persister \<Rightarrow> ('c, 'b) raft" where
  "MakeRaft n self now rnd ps =
     readPersist
       \<lparr>npeers = n, persister = ps, me = self, currentTerm = 0, votedFor = -1,
        rstate = Follower, lastContact = now, electionTimeout = randomElectionTimeout rnd,
        voteCount = 0, rlog = [sentinel], commitIndex = 0, applyIndex = 0,
        nextIndex = map (\<lambda>_. 0) [0..<n], matchIndex = map (\<lambda>_. 0) [0..<n],
        notify = map (\<lambda>_. False) [0..<n],
        lastIncludeIndex = 0, lastIncludeTerm = 0, rsnapshot = ReadSnapshot ps,
        pendingSnapshot = None, pendingSnapshotIndex = 0, pendingSnapshotTerm = 0\<rparr>
       (ReadRaftState ps)"

end
