(* ===== verification/RSM.thy ===== *)
theory RSM
  imports KV_Server Raft_Node
begin

text \<open>
  The replicated state machine layer of one server (src/src/kvraft1/rsm/rsm.go) and the state
  machines it can carry. The state machine is the interface of the code: its three operations are
  arguments of the layer's functions, and the locale \<open>state_machine\<close> states the one law the
  layer relies on, that restoring a snapshot gives the state back. A Go channel of capacity one
  is an entry of \<open>chans\<close>, named by the request id it was made for.
\<close>

section \<open>The interface\<close>

locale state_machine =
  fixes doOp :: "'s \<Rightarrow> 'q \<Rightarrow> 's \<times> 'p"
    and snap :: "'s \<Rightarrow> 'b"
    and restore :: "'b \<Rightarrow> 's"
  assumes restore_snap: "restore (snap s) = s"

section \<open>State\<close>

record 'q Op =
  opMe :: nat
  opId :: nat
  opCommand :: 'q

record 'p opResult =
  resErr :: Err
  resRep :: "'p option"

record waiter =
  wCh :: nat
  wMe :: nat
  wId :: nat

record ('s, 'p) RSM =
  rsmMe :: nat
  maxraftstate :: int
  reqNum :: nat
  pending :: "(int \<times> waiter) list"
  down :: bool
  lastApplied :: int
  sm :: 's
  chans :: "nat \<Rightarrow> 'p opResult option"

definition newRSM :: "nat \<Rightarrow> int \<Rightarrow> 's \<Rightarrow> ('s, 'p) RSM" where
  "newRSM self maxrs s =
     \<lparr>rsmMe = self, maxraftstate = maxrs, reqNum = 0, pending = [], down = False,
      lastApplied = 0, sm = s, chans = (\<lambda>_. None)\<rparr>"

text \<open>The state machine is restored from the persister's snapshot before the reader starts.\<close>

definition MakeRSM :: "('b \<Rightarrow> 's) \<Rightarrow> nat \<Rightarrow> int \<Rightarrow> 's \<Rightarrow> ('r, 'b) Persister \<Rightarrow> ('s, 'p) RSM" where
  "MakeRSM restore self maxrs s ps =
     (case ReadSnapshot ps of
        None \<Rightarrow> newRSM self maxrs s
      | Some d \<Rightarrow> newRSM self maxrs (restore d))"

section \<open>The reader\<close>

definition wrongLeader :: "'p opResult" where
  "wrongLeader = \<lparr>resErr = ErrWrongLeader, resRep = None\<rparr>"

definition post :: "('s, 'p) RSM \<Rightarrow> waiter \<Rightarrow> 'p opResult \<Rightarrow> ('s, 'p) RSM" where
  "post r w res = r\<lparr>chans := (chans r)(wCh w := Some res)\<rparr>"

text \<open>Wake the waiters of a part of the pending table and drop them from it.\<close>

definition wake :: "('s, 'p) RSM \<Rightarrow> (int \<Rightarrow> bool) \<Rightarrow> ('s, 'p) RSM" where
  "wake r P =
     (fold (\<lambda>(i, w) r. post r w wrongLeader) (filter (\<lambda>(i, w). P i) (pending r)) r)
       \<lparr>pending := filter (\<lambda>(i, w). \<not> P i) (pending r)\<rparr>"

definition reader_closed :: "('s, 'p) RSM \<Rightarrow> ('s, 'p) RSM" where
  "reader_closed r = wake (r\<lparr>down := True\<rparr>) (\<lambda>_. True)"

definition applySnapshot :: "('b \<Rightarrow> 's) \<Rightarrow> ('s, 'p) RSM \<Rightarrow> int \<Rightarrow> 'b \<Rightarrow> ('s, 'p) RSM" where
  "applySnapshot restore r index data =
     (if index \<le> lastApplied r then r
      else wake (r\<lparr>sm := restore data, lastApplied := index\<rparr>) (\<lambda>i. i \<le> index))"

text \<open>
  A command: claim the waiter, execute, answer the waiter, and (the first half of
  \<open>maybeSnapshot\<close>) record the index.
\<close>

definition applyCommand ::
  "('s \<Rightarrow> 'q \<Rightarrow> 's \<times> 'p) \<Rightarrow> ('s, 'p) RSM \<Rightarrow> int \<Rightarrow> 'q Op \<Rightarrow> ('s, 'p) RSM" where
  "applyCommand doOp r index op =
     (let w = map_of (pending r) index;
          r1 = r\<lparr>pending := filter (\<lambda>(i, w). i \<noteq> index) (pending r)\<rparr>;
          (s', rep) = doOp (sm r1) (opCommand op);
          r2 = r1\<lparr>sm := s'\<rparr>;
          r3 = (case w of
                  None \<Rightarrow> r2
                | Some w \<Rightarrow>
                    if opMe op = wMe w \<and> opId op = wId w
                    then post r2 w \<lparr>resErr = OK, resRep = Some rep\<rparr>
                    else post r2 w wrongLeader)
      in r3\<lparr>lastApplied := index\<rparr>)"

text \<open>One message of the apply channel; the flag is whether \<open>maybeSnapshot\<close> follows.\<close>

definition reader ::
  "('s \<Rightarrow> 'q \<Rightarrow> 's \<times> 'p) \<Rightarrow> ('b \<Rightarrow> 's) \<Rightarrow> ('s, 'p) RSM \<Rightarrow> ('q Op, 'b) ApplyMsg \<Rightarrow> ('s, 'p) RSM \<times> bool"
where
  "reader doOp restore r m =
     (if SnapshotValid m then
        (case SnapshotData m of
           None \<Rightarrow> (r, False)
         | Some d \<Rightarrow> (applySnapshot restore r (SnapshotIndex m) d, False))
      else if \<not> CommandValid m then (r, False)
      else case Command m of
             None \<Rightarrow> (r, False)
           | Some op \<Rightarrow> (applyCommand doOp r (CommandIndex m) op, True))"

text \<open>The second half: what is handed to \<open>rf.Snapshot\<close>, if anything.\<close>

definition maybeSnapshot :: "('s \<Rightarrow> 'b) \<Rightarrow> ('s, 'p) RSM \<Rightarrow> nat \<Rightarrow> (int \<times> 'b) option" where
  "maybeSnapshot snap r persistBytes =
     (if maxraftstate r = -1 \<or> int persistBytes \<le> maxraftstate r then None
      else Some (lastApplied r, snap (sm r)))"

section \<open>Submit\<close>

text \<open>
  The critical section: \<open>Start\<close> on the raft peer and the registration at the index it got;
  \<open>None\<close> is the early return of ErrWrongLeader.
\<close>

definition submit_begin ::
  "('s, 'p) RSM \<Rightarrow> ('q Op, 'b) raft \<Rightarrow> 'q \<Rightarrow>
     ('s, 'p) RSM \<times> ('q Op, 'b) raft \<times> (nat \<times> int \<times> int \<times> 'q Op) option" where
  "submit_begin r rf req =
     (if down r then (r, rf, None)
      else
        let r1 = r\<lparr>reqNum := Suc (reqNum r)\<rparr>;
            op = \<lparr>opMe = rsmMe r1, opId = reqNum r1, opCommand = req\<rparr>;
            (rf1, index, term, isLeader) = Start rf op
        in if \<not> isLeader then (r1, rf1, None)
           else (r1\<lparr>pending := (index, \<lparr>wCh = reqNum r1, wMe = opMe op, wId = opId op\<rparr>) #
                                filter (\<lambda>(i, w). i \<noteq> index) (pending r1),
                    chans := (chans r1)(reqNum r1 := None)\<rparr>,
                 rf1, Some (reqNum r1, index, term, op)))"

definition stale :: "('s, 'p) RSM \<Rightarrow> ('c, 'b) raft \<Rightarrow> int \<Rightarrow> bool" where
  "stale r rf term = (down r \<or> (let (cur, isLeader) = GetState rf in \<not> isLeader \<or> cur \<noteq> term))"

definition discard :: "('s, 'p) RSM \<Rightarrow> int \<Rightarrow> nat \<Rightarrow> ('s, 'p) RSM" where
  "discard r index ch =
     (case map_of (pending r) index of
        Some w \<Rightarrow> if wCh w = ch then r\<lparr>pending := filter (\<lambda>(i, w). i \<noteq> index) (pending r)\<rparr> else r
      | None \<Rightarrow> r)"

text \<open>One turn of the waiting loop: the answer if there is one, and the channel drained.\<close>

definition submit_poll ::
  "('s, 'p) RSM \<Rightarrow> ('c, 'b) raft \<Rightarrow> nat \<Rightarrow> int \<Rightarrow> int \<Rightarrow> ('s, 'p) RSM \<times> 'p opResult option" where
  "submit_poll r rf ch index term =
     (case chans r ch of
        Some res \<Rightarrow> (r\<lparr>chans := (chans r)(ch := None)\<rparr>, Some res)
      | None \<Rightarrow> if stale r rf term then (discard r index ch, Some wrongLeader) else (r, None))"

section \<open>Waiters\<close>

text \<open>
  Each index has one waiter, each waiter its own channel, still empty; ids of waiters are ids
  this server has given out.
\<close>

definition waiters_ok :: "('s, 'p) RSM \<Rightarrow> bool" where
  "waiters_ok r \<longleftrightarrow>
     distinct (map fst (pending r)) \<and> distinct (map (wCh \<circ> snd) (pending r)) \<and>
     (\<forall>(i, w) \<in> set (pending r). wCh w = wId w \<and> wMe w = rsmMe r \<and> wId w \<le> reqNum r \<and>
        chans r (wCh w) = None)"

lemma waiters_okD:
  assumes "waiters_ok r"
  shows "distinct (map fst (pending r))" "distinct (map (wCh \<circ> snd) (pending r))"
    "(i, w) \<in> set (pending r) \<Longrightarrow> wCh w = wId w \<and> wMe w = rsmMe r \<and> wId w \<le> reqNum r \<and> chans r (wCh w) = None"
  using assms by (auto simp: waiters_ok_def)

lemma post_fields [simp]:
  "pending (post r w res) = pending r" "sm (post r w res) = sm r" "rsmMe (post r w res) = rsmMe r"
  "reqNum (post r w res) = reqNum r" "lastApplied (post r w res) = lastApplied r"
  "down (post r w res) = down r" "maxraftstate (post r w res) = maxraftstate r"
  by (simp_all add: post_def)

lemma fold_post_fields:
  "\<exists>cs. fold (\<lambda>(i, w) r. post r w res) l r = r\<lparr>chans := cs\<rparr> \<and>
     (\<forall>c. cs c = (if \<exists>x \<in> set l. wCh (snd x) = c then Some res else chans r c))"
proof (induction l arbitrary: r)
  case Nil
  show ?case by (intro exI [of _ "chans r"]) simp
next
  case (Cons x l)
  obtain i w where x: "x = (i, w)" by (cases x)
  obtain cs where cs: "fold (\<lambda>(i, w) r. post r w res) l (post r w res) = (post r w res)\<lparr>chans := cs\<rparr>"
    "\<forall>c. cs c = (if \<exists>x \<in> set l. wCh (snd x) = c then Some res else chans (post r w res) c)"
    using Cons.IH by blast
  have "fold (\<lambda>(i, w) r. post r w res) (x # l) r = r\<lparr>chans := cs\<rparr>"
    using cs(1) x by (simp add: post_def [of r w])
  moreover have "cs c = (if \<exists>y \<in> set (x # l). wCh (snd y) = c then Some res else chans r c)" for c
    using cs(2) x by (auto simp: post_def)
  ultimately show ?case by blast
qed

lemma wake_fields:
  "\<exists>cs. wake r P = r\<lparr>chans := cs, pending := filter (\<lambda>(i, w). \<not> P i) (pending r)\<rparr> \<and>
     (\<forall>c. cs c = (if \<exists>(i, w) \<in> set (pending r). P i \<and> wCh w = c then Some wrongLeader else chans r c))"
proof -
  obtain cs where "fold (\<lambda>(i, w) r. post r w wrongLeader) (filter (\<lambda>(i, w). P i) (pending r)) r =
      r\<lparr>chans := cs\<rparr>"
    "\<forall>c. cs c = (if \<exists>x \<in> set (filter (\<lambda>(i, w). P i) (pending r)). wCh (snd x) = c
        then Some wrongLeader else chans r c)"
    using fold_post_fields by blast
  then show ?thesis by (intro exI [of _ cs]) (auto simp: wake_def)
qed

lemma distinct_map_filter: "distinct (map f xs) \<Longrightarrow> distinct (map f (filter P xs))"
  by (induction xs) auto

text \<open>Every operation keeps it: no channel is ever sent to twice.\<close>

lemma waiters_new: "waiters_ok (newRSM self maxrs s)"
  by (simp add: waiters_ok_def newRSM_def)

lemma waiters_sub:
  assumes ok: "waiters_ok r" and r': "pending r' = filter P (pending r)" "rsmMe r' = rsmMe r"
      "reqNum r' = reqNum r"
    and cs: "\<And>i w. (i, w) \<in> set (pending r) \<Longrightarrow> P (i, w) \<Longrightarrow> chans r' (wCh w) = None"
  shows "waiters_ok r'"
  using ok cs unfolding waiters_ok_def r' by (auto simp: distinct_map_filter)

lemma same_channel:
  assumes ok: "waiters_ok r" and "(i, w) \<in> set (pending r)" "(j, v) \<in> set (pending r)" "wCh w = wCh v"
  shows "i = j \<and> w = v"
proof -
  have "inj_on (wCh \<circ> snd) (set (pending r))" using waiters_okD(2) [OF ok] by (simp add: distinct_map)
  from inj_onD [OF this, of "(i, w)" "(j, v)"] assms(2-4) show ?thesis by simp
qed

lemma waiters_wake:
  assumes ok: "waiters_ok r" shows "waiters_ok (wake r P)"
proof -
  obtain cs where cs: "wake r P = r\<lparr>chans := cs, pending := filter (\<lambda>(i, w). \<not> P i) (pending r)\<rparr>"
    "\<forall>c. cs c = (if \<exists>(i, w) \<in> set (pending r). P i \<and> wCh w = c then Some wrongLeader else chans r c)"
    using wake_fields by blast
  have "cs (wCh w) = None" if "(i, w) \<in> set (pending r)" "\<not> P i" for i w
    using cs(2) that waiters_okD(3) [OF ok that(1)] same_channel [OF ok] by fastforce
  then show ?thesis unfolding cs(1)
    by (intro waiters_sub [OF ok, where P = "\<lambda>(i, w). \<not> P i"]) auto
qed

lemma waiters_reader_closed: "waiters_ok r \<Longrightarrow> waiters_ok (reader_closed r)"
  unfolding reader_closed_def by (rule waiters_wake) (simp add: waiters_ok_def)

lemma waiters_applySnapshot: "waiters_ok r \<Longrightarrow> waiters_ok (applySnapshot restore r i d)"
proof -
  assume "waiters_ok r"
  then have "waiters_ok (r\<lparr>sm := restore d, lastApplied := i\<rparr>)" by (simp add: waiters_ok_def)
  then show ?thesis using \<open>waiters_ok r\<close> by (simp add: applySnapshot_def waiters_wake)
qed

text \<open>A snapshot taken on one server and applied on another brings its state over.\<close>

context state_machine begin

lemma applied_snapshot:
  assumes "maybeSnapshot snap r bytes = Some (i, d)" "lastApplied r' < i"
  shows "sm (applySnapshot restore r' i d) = sm r \<and> lastApplied (applySnapshot restore r' i d) = lastApplied r"
proof -
  have "i = lastApplied r" "d = snap (sm r)" using assms(1) by (auto simp: maybeSnapshot_def split: if_splits)
  moreover obtain cs where "wake (r'\<lparr>sm := restore d, lastApplied := i\<rparr>) (\<lambda>j. j \<le> i) =
      r'\<lparr>sm := restore d, lastApplied := i, chans := cs, pending := filter (\<lambda>(j, w). \<not> j \<le> i) (pending r')\<rparr>"
    using wake_fields [of "r'\<lparr>sm := restore d, lastApplied := i\<rparr>" "\<lambda>j. j \<le> i"] by auto
  ultimately show ?thesis using assms(2) restore_snap by (simp add: applySnapshot_def)
qed

end

lemma applyCommand_fields:
  assumes "doOp (sm r) (opCommand op) = (s', rep)"
  shows "\<exists>cs. applyCommand doOp r index op =
      r\<lparr>pending := filter (\<lambda>(i, w). i \<noteq> index) (pending r), sm := s', lastApplied := index, chans := cs\<rparr> \<and>
    (case map_of (pending r) index of
       None \<Rightarrow> cs = chans r
     | Some w \<Rightarrow> cs = (chans r)(wCh w \<mapsto>
         (if opMe op = wMe w \<and> opId op = wId w then \<lparr>resErr = OK, resRep = Some rep\<rparr>
          else wrongLeader)))"
  using assms by (cases "map_of (pending r) index") (auto simp: applyCommand_def post_def Let_def)

lemma waiters_applyCommand:
  assumes ok: "waiters_ok r" shows "waiters_ok (applyCommand doOp r index op)"
proof -
  obtain s' rep where d: "doOp (sm r) (opCommand op) = (s', rep)" by fastforce
  obtain cs where cs: "applyCommand doOp r index op =
      r\<lparr>pending := filter (\<lambda>(i, w). i \<noteq> index) (pending r), sm := s', lastApplied := index, chans := cs\<rparr>"
    "case map_of (pending r) index of
       None \<Rightarrow> cs = chans r
     | Some w \<Rightarrow> cs = (chans r)(wCh w \<mapsto>
         (if opMe op = wMe w \<and> opId op = wId w then \<lparr>resErr = OK, resRep = Some rep\<rparr>
          else wrongLeader))"
    using applyCommand_fields [of doOp r op s' rep index] d by blast
  have "cs (wCh v) = None" if v: "(j, v) \<in> set (pending r)" "j \<noteq> index" for j v
  proof (cases "map_of (pending r) index")
    case None
    then have "cs = chans r" using cs(2) by simp
    then show ?thesis using waiters_okD(3) [OF ok v(1)] by metis
  next
    case (Some w)
    then have "wCh w \<noteq> wCh v" using same_channel [OF ok map_of_SomeD [OF Some] v(1)] v(2) by auto
    then have "cs (wCh v) = chans r (wCh v)" using Some cs(2) by simp
    then show ?thesis using waiters_okD(3) [OF ok v(1)] by metis
  qed
  then show ?thesis unfolding cs(1)
    by (intro waiters_sub [OF ok, where P = "\<lambda>(i, w). i \<noteq> index"]) auto
qed

lemma waiters_reader: "waiters_ok r \<Longrightarrow> waiters_ok (fst (reader doOp restore r m))"
  by (auto simp: reader_def waiters_applySnapshot waiters_applyCommand split: option.splits)

lemma waiters_submit:
  assumes ok: "waiters_ok r" and s: "submit_begin r rf req = (r', rf', x)"
  shows "waiters_ok r'"
proof -
  let ?n = "Suc (reqNum r)"
  have new: "wCh w \<noteq> ?n" if "(i, w) \<in> set (pending r)" for i w
    using waiters_okD(3) [OF ok that] by simp
  have a: "waiters_ok (r\<lparr>reqNum := ?n\<rparr>)" using ok by (auto simp: waiters_ok_def)
  have b: "waiters_ok (r\<lparr>reqNum := ?n,
      pending := (index, \<lparr>wCh = ?n, wMe = rsmMe r, wId = ?n\<rparr>) # filter (\<lambda>(i, w). i \<noteq> index) (pending r),
      chans := (chans r)(?n := None)\<rparr>)" for index
    using a new by (fastforce simp: waiters_ok_def distinct_map_filter image_iff)
  show ?thesis using s ok a b
    by (auto simp: submit_begin_def Let_def split: if_splits prod.splits)
qed

lemma waiters_poll:
  assumes ok: "waiters_ok r" and s: "submit_poll r rf ch index term = (r', x)"
  shows "waiters_ok r'"
proof -
  have "waiters_ok (r\<lparr>chans := (chans r)(ch := None)\<rparr>)" using ok by (auto simp: waiters_ok_def)
  moreover have "waiters_ok (discard r index ch)"
    by (auto simp: discard_def ok split: option.splits
        intro!: waiters_sub [OF ok, where P = "\<lambda>(i, w). i \<noteq> index"] dest: waiters_okD(3) [OF ok])
  ultimately show ?thesis using s ok
    by (auto simp: submit_poll_def split: option.splits if_splits)
qed

section \<open>Properties of one layer\<close>

text \<open>
  When the apply channel closes or a snapshot covers its index, every waiter concerned gets an
  answer: nobody waits on an index that can no longer be applied.
\<close>

theorem waiters_are_woken:
  assumes "waiters_ok r" "(i, w) \<in> set (pending r)"
  shows "chans (reader_closed r) (wCh w) = Some wrongLeader \<and> pending (reader_closed r) = [] \<and>
    (lastApplied r < index \<and> i \<le> index \<longrightarrow>
       chans (applySnapshot restore r index d) (wCh w) = Some wrongLeader \<and>
       map_of (pending (applySnapshot restore r index d)) i = None)"
proof -
  obtain cs where 1: "reader_closed r = r\<lparr>down := True, chans := cs, pending := filter (\<lambda>(i, w). \<not> True) (pending r)\<rparr>"
    "\<forall>c. cs c = (if \<exists>(i, w) \<in> set (pending r). True \<and> wCh w = c then Some wrongLeader else chans r c)"
    using wake_fields [of "r\<lparr>down := True\<rparr>" "\<lambda>_. True"] by (auto simp: reader_closed_def)
  have "chans (reader_closed r) (wCh w) = Some wrongLeader \<and> pending (reader_closed r) = []"
    using 1 assms(2) by auto
  moreover have "chans (applySnapshot restore r index d) (wCh w) = Some wrongLeader \<and>
      map_of (pending (applySnapshot restore r index d)) i = None"
    if "lastApplied r < index" "i \<le> index"
  proof -
    let ?r = "r\<lparr>sm := restore d, lastApplied := index\<rparr>"
    obtain cs where 2: "wake ?r (\<lambda>i. i \<le> index) =
        ?r\<lparr>chans := cs, pending := filter (\<lambda>(i, w). \<not> i \<le> index) (pending ?r)\<rparr>"
      "\<forall>c. cs c = (if \<exists>(i, w) \<in> set (pending ?r). i \<le> index \<and> wCh w = c then Some wrongLeader else chans ?r c)"
      using wake_fields by blast
    show ?thesis using that 2 assms(2)
      by (auto simp: applySnapshot_def map_of_eq_None_iff)
  qed
  ultimately show ?thesis by blast
qed

text \<open>
  A waiter gets OK only when the command applied at its index carries its own server and id,
  with that command's result; any other command there is answered ErrWrongLeader. Either way the
  state machine executes the command exactly once and the waiter is gone.
\<close>

theorem reader_answers_waiter:
  assumes "map_of (pending r) index = Some w" "doOp (sm r) (opCommand op) = (s', rep)"
  shows "sm (applyCommand doOp r index op) = s' \<and>
    lastApplied (applyCommand doOp r index op) = index \<and>
    map_of (pending (applyCommand doOp r index op)) index = None \<and>
    chans (applyCommand doOp r index op) (wCh w) =
      Some (if opMe op = wMe w \<and> opId op = wId w then \<lparr>resErr = OK, resRep = Some rep\<rparr> else wrongLeader)"
proof -
  obtain cs where "applyCommand doOp r index op =
      r\<lparr>pending := filter (\<lambda>(i, w). i \<noteq> index) (pending r), sm := s', lastApplied := index, chans := cs\<rparr>"
    "case map_of (pending r) index of
       None \<Rightarrow> cs = chans r
     | Some w \<Rightarrow> cs = (chans r)(wCh w \<mapsto>
         (if opMe op = wMe w \<and> opId op = wId w then \<lparr>resErr = OK, resRep = Some rep\<rparr>
          else wrongLeader))"
    using applyCommand_fields [where doOp = doOp and r = r and op = op and index = index] assms(2) by blast
  then show ?thesis using assms(1) by (auto simp: map_of_eq_None_iff)
qed

section \<open>Witnesses\<close>

text \<open>A counter as the state machine, one waiter at index 1.\<close>

definition demoRSM :: "(nat, nat) RSM" where
  "demoRSM = (newRSM 0 (-1) 5)\<lparr>reqNum := 1, pending := [(1, \<lparr>wCh = 1, wMe = 0, wId = 1\<rparr>)]\<rparr>"

lemma waiters_are_woken_witness:
  "chans (reader_closed demoRSM) 1 = Some wrongLeader \<and>
   chans (applySnapshot id demoRSM 2 7) 1 = Some wrongLeader"
proof -
  have "waiters_ok demoRSM" "(1, \<lparr>wCh = 1, wMe = 0, wId = 1\<rparr>) \<in> set (pending demoRSM)" "lastApplied demoRSM = 0"
    by (simp_all add: waiters_ok_def demoRSM_def newRSM_def)
  from waiters_are_woken [OF this(1,2), of 2 id 7] this(3) show ?thesis by simp
qed

lemma reader_answers_waiter_witness:
  "chans (applyCommand (\<lambda>s k. (s + k, s)) demoRSM 1 \<lparr>opMe = 0, opId = 1, opCommand = 2\<rparr>) 1 =
     Some \<lparr>resErr = OK, resRep = Some 5\<rparr>"
  using reader_answers_waiter [of demoRSM 1 "\<lparr>wCh = 1, wMe = 0, wId = 1\<rparr>" "\<lambda>s k. (s + k, s)"
      "\<lparr>opMe = 0, opId = 1, opCommand = 2\<rparr>" 7 5]
  by (simp add: demoRSM_def newRSM_def)

end
