(* ===== verification/Raft_Protocol.thy ===== *)
theory Raft_Protocol
  imports Raft_Node
begin

text \<open>
  The abstract protocol the peers implement, and its safety. A state keeps what the code
  forgets: uncompacted logs, the log each candidate stood with, the log each voter had when it
  voted, the log of the leader of each term, and every vote and acknowledgement ever given.
  The locale \<open>raft_quorums\<close> is the contract between the two thresholds of the code (the
  votes that elect, the copies that commit); leader completeness and the agreement of
  committed prefixes are proved once inside it.
\<close>

section \<open>The protocol state and its steps\<close>

record 'c proto =
  pterm :: "nat \<Rightarrow> int"
  plog :: "nat \<Rightarrow> 'c LogEntry list"
  pvotes :: "(int \<times> nat \<times> nat) set"
  pstand :: "int \<Rightarrow> nat \<Rightarrow> 'c LogEntry list"
  pballot :: "int \<Rightarrow> nat \<Rightarrow> 'c LogEntry list"
  pleader :: "int \<Rightarrow> nat option"
  pelect :: "int \<Rightarrow> nat set"
  ptlog :: "int \<Rightarrow> 'c LogEntry list"
  packs :: "(int \<times> nat \<times> nat) set"

definition proto_init :: "'c proto" where
  "proto_init =
     \<lparr>pterm = (\<lambda>_. 0), plog = (\<lambda>_. [sentinel]), pvotes = {}, pstand = (\<lambda>_ _. []),
      pballot = (\<lambda>_ _. []), pleader = (\<lambda>_. None), pelect = (\<lambda>_. {}),
      ptlog = (\<lambda>_. []), packs = {}\<rparr>"

text \<open>The comparison of RequestVote on whole logs.\<close>

definition fresher :: "'c LogEntry list \<Rightarrow> 'c LogEntry list \<Rightarrow> bool" where
  "fresher X Y \<longleftrightarrow>
     upToDate (leTerm (last X)) (int (length X) - 1) (leTerm (last Y)) (int (length Y) - 1)"

text \<open>What a follower's log becomes when it accepts a leader's log up to index \<open>K\<close>.\<close>

definition adopt :: "'c LogEntry list \<Rightarrow> 'c LogEntry list \<Rightarrow> nat \<Rightarrow> 'c LogEntry list" where
  "adopt X Y K = (if take (Suc K) X = take (Suc K) Y then X else take (Suc K) Y)"

inductive proto_step :: "(nat set \<Rightarrow> bool) \<Rightarrow> 'c proto \<Rightarrow> 'c proto \<Rightarrow> bool"
  for elects :: "nat set \<Rightarrow> bool" where
  raise: "t > pterm a v \<Longrightarrow> proto_step elects a (a\<lparr>pterm := (pterm a)(v := t)\<rparr>)"
| stand: "t = pterm a p + 1 \<Longrightarrow>
     proto_step elects a
       (a\<lparr>pterm := (pterm a)(p := t), pvotes := insert (t, p, p) (pvotes a),
          pstand := (pstand a)(t := (pstand a t)(p := plog a p)),
          pballot := (pballot a)(t := (pballot a t)(p := plog a p))\<rparr>)"
| vote: "t = pterm a v \<Longrightarrow> (t, c, c) \<in> pvotes a \<Longrightarrow> (\<forall>c'. (t, v, c') \<notin> pvotes a) \<Longrightarrow>
     fresher (pstand a t c) (plog a v) \<Longrightarrow>
     proto_step elects a
       (a\<lparr>pvotes := insert (t, v, c) (pvotes a),
          pballot := (pballot a)(t := (pballot a t)(v := plog a v))\<rparr>)"
| win: "t = pterm a p \<Longrightarrow> (t, p, p) \<in> pvotes a \<Longrightarrow> pleader a t = None \<Longrightarrow>
     plog a p = pstand a t p \<Longrightarrow> elects Q \<Longrightarrow> (\<forall>v \<in> Q. (t, v, p) \<in> pvotes a) \<Longrightarrow>
     proto_step elects a
       (a\<lparr>pleader := (pleader a)(t := Some p), pelect := (pelect a)(t := Q),
          ptlog := (ptlog a)(t := plog a p)\<rparr>)"
| propose: "pleader a t = Some p \<Longrightarrow> pterm a p = t \<Longrightarrow> plog a p = ptlog a t \<Longrightarrow> leTerm e = t \<Longrightarrow>
     proto_step elects a
       (a\<lparr>plog := (plog a)(p := plog a p @ [e]), ptlog := (ptlog a)(t := ptlog a t @ [e])\<rparr>)"
| accept: "pleader a t \<noteq> None \<Longrightarrow> pterm a v = t \<Longrightarrow> K < length (ptlog a t) \<Longrightarrow>
     proto_step elects a
       (a\<lparr>plog := (plog a)(v := adopt (plog a v) (ptlog a t) K),
          packs := insert (t, v, K) (packs a)\<rparr>)"

section \<open>Adopting a prefix\<close>

lemma adopt_agrees: "take (Suc K) (adopt X Y K) = take (Suc K) Y"
  by (simp add: adopt_def)

lemma adopt_keeps: "take m X = take m Y \<Longrightarrow> take m (adopt X Y K) = take m X"
  by (metis adopt_def linorder_le_cases min.absorb1 take_eq_mono take_take)

lemma set_adopt: "set (adopt X Y K) \<subseteq> set X \<union> set Y"
  by (auto simp: adopt_def dest: in_set_takeD)

lemma fresher_refl: "fresher X X"
  by (simp add: fresher_def upToDate_def)

section \<open>The invariant\<close>

text \<open>
  A good log: it starts with the sentinel, and each of its entries sits where the leader of
  its term put it, with everything before it.
\<close>

definition good_log :: "'c proto \<Rightarrow> 'c LogEntry list \<Rightarrow> bool" where
  "good_log a X \<longleftrightarrow> X \<noteq> [] \<and> X ! 0 = sentinel \<and>
     (\<forall>i. 0 < i \<and> i < length X \<longrightarrow>
        pleader a (leTerm (X ! i)) \<noteq> None \<and>
        take (Suc i) X = take (Suc i) (ptlog a (leTerm (X ! i))))"

text \<open>
  An acknowledged prefix is still there, unless a leader of a later term up to \<open>T\<close>
  had something else.
\<close>

definition kept :: "'c proto \<Rightarrow> int \<Rightarrow> nat \<Rightarrow> int \<Rightarrow> 'c LogEntry list \<Rightarrow> bool" where
  "kept a t i T X \<longleftrightarrow> take (Suc i) X = take (Suc i) (ptlog a t) \<or>
     (\<exists>s. t < s \<and> s \<le> T \<and> pleader a s \<noteq> None \<and>
          take (Suc i) (ptlog a s) \<noteq> take (Suc i) (ptlog a t))"

definition logs_inv :: "'c proto \<Rightarrow> bool" where
  "logs_inv a \<longleftrightarrow>
     (\<forall>v. good_log a (plog a v) \<and> (\<forall>e \<in> set (plog a v). leTerm e \<le> pterm a v)) \<and>
     (\<forall>t p. pleader a t = Some p \<longrightarrow>
        1 \<le> t \<and> good_log a (ptlog a t) \<and> (\<forall>e \<in> set (ptlog a t). leTerm e \<le> t) \<and>
        take (length (pstand a t p)) (ptlog a t) = pstand a t p) \<and>
     (\<forall>v. 0 \<le> pterm a v)"

definition votes_inv :: "'c proto \<Rightarrow> bool" where
  "votes_inv a \<longleftrightarrow>
     (\<forall>t v c. (t, v, c) \<in> pvotes a \<longrightarrow>
        1 \<le> t \<and> t \<le> pterm a v \<and> (t, c, c) \<in> pvotes a \<and>
        good_log a (pballot a t v) \<and> fresher (pstand a t c) (pballot a t v) \<and>
        good_log a (pstand a t c) \<and> (\<forall>e \<in> set (pstand a t c). leTerm e < t)) \<and>
     (\<forall>t v c c'. (t, v, c) \<in> pvotes a \<longrightarrow> (t, v, c') \<in> pvotes a \<longrightarrow> c = c')"

definition elect_inv :: "(nat set \<Rightarrow> bool) \<Rightarrow> 'c proto \<Rightarrow> bool" where
  "elect_inv elects a \<longleftrightarrow>
     (\<forall>t p. pleader a t = Some p \<longrightarrow> (t, p, p) \<in> pvotes a \<and>
        elects (pelect a t) \<and> (\<forall>v \<in> pelect a t. (t, v, p) \<in> pvotes a))"

definition acks_inv :: "'c proto \<Rightarrow> bool" where
  "acks_inv a \<longleftrightarrow>
     (\<forall>t v m. (t, v, m) \<in> packs a \<longrightarrow>
        t \<le> pterm a v \<and> pleader a t \<noteq> None \<and> m < length (ptlog a t) \<and>
        (\<forall>i \<le> m. kept a t i (pterm a v) (plog a v)))"

definition ballots_inv :: "'c proto \<Rightarrow> bool" where
  "ballots_inv a \<longleftrightarrow>
     (\<forall>T v c t m i. (T, v, c) \<in> pvotes a \<longrightarrow> (t, v, m) \<in> packs a \<longrightarrow> t < T \<longrightarrow>
        pleader a T = None \<or> v \<in> pelect a T \<longrightarrow> i \<le> m \<longrightarrow> kept a t i (T - 1) (pballot a T v))"

definition proto_inv :: "(nat set \<Rightarrow> bool) \<Rightarrow> 'c proto \<Rightarrow> bool" where
  "proto_inv elects a \<longleftrightarrow>
     logs_inv a \<and> votes_inv a \<and> elect_inv elects a \<and> acks_inv a \<and> ballots_inv a"

lemmas proto_inv_defs = logs_inv_def votes_inv_def elect_inv_def acks_inv_def ballots_inv_def

section \<open>History only grows\<close>

definition extends :: "'c proto \<Rightarrow> 'c proto \<Rightarrow> bool" where
  "extends a a' \<longleftrightarrow>
     (\<forall>v. pterm a v \<le> pterm a' v) \<and> pvotes a \<subseteq> pvotes a' \<and> packs a \<subseteq> packs a' \<and>
     pleader a \<subseteq>\<^sub>m pleader a' \<and>
     (\<forall>t. pleader a t \<noteq> None \<longrightarrow>
        pelect a' t = pelect a t \<and>
        (\<exists>S. ptlog a' t = ptlog a t @ S \<and> (\<forall>e \<in> set S. leTerm e = t))) \<and>
     (\<forall>t c. (t, c, c) \<in> pvotes a \<longrightarrow> pstand a' t c = pstand a t c) \<and>
     (\<forall>t v c. (t, v, c) \<in> pvotes a \<longrightarrow> pballot a' t v = pballot a t v)"

lemma extends_refl: "extends a a"
  by (auto simp: extends_def)

lemma extends_leader: "extends a a' \<Longrightarrow> pleader a t = Some p \<Longrightarrow> pleader a' t = Some p"
  by (auto simp: extends_def map_le_def dom_def)

lemma extends_elected: "extends a a' \<Longrightarrow> pleader a t \<noteq> None \<Longrightarrow> pleader a' t \<noteq> None"
  using extends_leader by fastforce

lemma extends_tlog:
  assumes "extends a a'" "pleader a t \<noteq> None" "m \<le> length (ptlog a t)"
  shows "take m (ptlog a' t) = take m (ptlog a t)"
proof -
  obtain S where "ptlog a' t = ptlog a t @ S"
    using assms by (auto simp: extends_def)
  with assms(3) show ?thesis by simp
qed

lemma extends_tlog_length:
  assumes "extends a a'" "pleader a t \<noteq> None"
  shows "length (ptlog a t) \<le> length (ptlog a' t)"
proof -
  obtain S where "ptlog a' t = ptlog a t @ S"
    using assms by (auto simp: extends_def)
  then show ?thesis by simp
qed

lemma extends_tlog_nth:
  assumes "extends a a'" "pleader a t \<noteq> None" "i < length (ptlog a t)"
  shows "ptlog a' t ! i = ptlog a t ! i"
proof -
  obtain S where "ptlog a' t = ptlog a t @ S"
    using assms by (auto simp: extends_def)
  with assms(3) show ?thesis by (simp add: nth_append)
qed

lemma step_extends:
  assumes "proto_step elects a a'" "votes_inv a"
  shows "extends a a'"
  using assms
proof (cases rule: proto_step.cases)
  case (stand t p)
  then show ?thesis using assms(2)
    by (fastforce simp: extends_def votes_inv_def)
qed (fastforce simp: extends_def map_le_def)+

text \<open>
  A prefix that differs from a committed one keeps differing: what a later leader appends
  carries its own, larger term.
\<close>

lemma mismatch_extends:
  assumes ext: "extends a a'" and el: "pleader a t \<noteq> None" "pleader a s \<noteq> None"
    and len: "i < length (ptlog a t)" and terms: "\<forall>e \<in> set (ptlog a t). leTerm e \<le> t" and "t < s"
    and neq: "take (Suc i) (ptlog a s) \<noteq> take (Suc i) (ptlog a t)"
  shows "take (Suc i) (ptlog a' s) \<noteq> take (Suc i) (ptlog a' t)"
proof
  assume eq: "take (Suc i) (ptlog a' s) = take (Suc i) (ptlog a' t)"
  obtain S where S: "ptlog a' s = ptlog a s @ S" "\<forall>e \<in> set S. leTerm e = s"
    using ext el(2) by (auto simp: extends_def)
  have t: "take (Suc i) (ptlog a' t) = take (Suc i) (ptlog a t)"
    using extends_tlog [OF ext el(1)] len by simp
  let ?l = "length (ptlog a s)"
  have "?l \<le> i"
    using S(1) eq t neq by (cases "Suc i \<le> ?l") auto
  have "take (Suc i) (ptlog a' s) ! ?l = take (Suc i) (ptlog a t) ! ?l"
    using eq t by simp
  then have nth: "ptlog a' s ! ?l = ptlog a t ! ?l"
    using \<open>?l \<le> i\<close> by simp
  have "length (take (Suc i) (ptlog a' s)) = Suc i"
    using eq t len by simp
  with S \<open>?l \<le> i\<close> have "S \<noteq> []" by auto
  then have "leTerm (ptlog a' s ! ?l) = s"
    using S by (auto simp: nth_append)
  moreover have "leTerm (ptlog a t ! ?l) \<le> t"
    using terms len \<open>?l \<le> i\<close> by auto
  ultimately show False using nth \<open>t < s\<close> by simp
qed

lemma good_log_extends:
  assumes ext: "extends a a'" and good: "good_log a X"
  shows "good_log a' X"
  unfolding good_log_def
proof (intro conjI allI impI)
  show "X \<noteq> []" "X ! 0 = sentinel" using good by (auto simp: good_log_def)
next
  fix i assume i: "0 < i \<and> i < length X"
  let ?t = "leTerm (X ! i)"
  have el: "pleader a ?t \<noteq> None" and eq: "take (Suc i) X = take (Suc i) (ptlog a ?t)"
    using good i by (auto simp: good_log_def)
  show "pleader a' ?t \<noteq> None" by (rule extends_elected [OF ext el])
  have "Suc i \<le> length (ptlog a ?t)"
    using take_eq_length [OF eq] i by simp
  with eq show "take (Suc i) X = take (Suc i) (ptlog a' ?t)"
    using extends_tlog [OF ext el] by simp
qed

lemma kept_extends:
  assumes ext: "extends a a'" and el: "pleader a t \<noteq> None"
    and len: "i < length (ptlog a t)" and terms: "\<forall>e \<in> set (ptlog a t). leTerm e \<le> t"
    and k: "kept a t i T X" and T: "T \<le> T'"
  shows "kept a' t i T' X"
  using k unfolding kept_def
proof (elim disjE exE conjE)
  assume "take (Suc i) X = take (Suc i) (ptlog a t)"
  then show "take (Suc i) X = take (Suc i) (ptlog a' t) \<or> (\<exists>s. t < s \<and> s \<le> T' \<and> pleader a' s \<noteq> None \<and>
          take (Suc i) (ptlog a' s) \<noteq> take (Suc i) (ptlog a' t))"
    using extends_tlog [OF ext el] len by simp
next
  fix s assume s: "t < s" "s \<le> T" "pleader a s \<noteq> None"
    "take (Suc i) (ptlog a s) \<noteq> take (Suc i) (ptlog a t)"
  have "take (Suc i) (ptlog a' s) \<noteq> take (Suc i) (ptlog a' t)"
    by (rule mismatch_extends [OF ext el s(3) len terms s(1) s(4)])
  moreover have "pleader a' s \<noteq> None" by (rule extends_elected [OF ext s(3)])
  moreover have "s \<le> T'" using s(2) T by simp
  ultimately show "take (Suc i) X = take (Suc i) (ptlog a' t) \<or> (\<exists>s. t < s \<and> s \<le> T' \<and> pleader a' s \<noteq> None \<and>
          take (Suc i) (ptlog a' s) \<noteq> take (Suc i) (ptlog a' t))"
    using s(1) by blast
qed

section \<open>Every step keeps the invariant\<close>

lemma extends_votes:
  assumes "extends a a'"
  shows "pterm a v \<le> pterm a' v" "pvotes a \<subseteq> pvotes a'" "packs a \<subseteq> packs a'"
    "(t, c, c) \<in> pvotes a \<Longrightarrow> pstand a' t c = pstand a t c"
    "(t, v, c) \<in> pvotes a \<Longrightarrow> pballot a' t v = pballot a t v"
  using assms unfolding extends_def by blast+

lemma step_extends_inv: "proto_step elects a a' \<Longrightarrow> proto_inv elects a \<Longrightarrow> extends a a'"
  by (auto simp: proto_inv_def intro: step_extends)

lemma good_logI:
  "X \<noteq> [] \<Longrightarrow> X ! 0 = sentinel \<Longrightarrow>
   (\<And>i. 0 < i \<Longrightarrow> i < length X \<Longrightarrow> pleader a (leTerm (X ! i)) \<noteq> None) \<Longrightarrow>
   (\<And>i. 0 < i \<Longrightarrow> i < length X \<Longrightarrow>
        take (Suc i) X = take (Suc i) (ptlog a (leTerm (X ! i)))) \<Longrightarrow> good_log a X"
  by (simp add: good_log_def)

lemma good_logD:
  assumes "good_log a X"
  shows "X \<noteq> []" "X ! 0 = sentinel"
    "0 < i \<Longrightarrow> i < length X \<Longrightarrow> pleader a (leTerm (X ! i)) \<noteq> None"
    "0 < i \<Longrightarrow> i < length X \<Longrightarrow>
       take (Suc i) X = take (Suc i) (ptlog a (leTerm (X ! i)))"
  using assms by (simp_all add: good_log_def)

lemma good_log_take:
  assumes good: "good_log a X"
  shows "good_log a (take (Suc k) X)"
proof (rule good_logI)
  fix i assume i: "0 < i" "i < length (take (Suc k) X)"
  then show "pleader a (leTerm (take (Suc k) X ! i)) \<noteq> None"
    using good_logD(3) [OF good i(1)] by simp
  have "take (Suc i) (take (Suc k) X) = take (Suc i) X"
    using i by (simp add: min_absorb1)
  also have "\<dots> = take (Suc i) (ptlog a (leTerm (X ! i)))"
    using i by (intro good_logD(4) [OF good]) auto
  finally show "take (Suc i) (take (Suc k) X)
      = take (Suc i) (ptlog a (leTerm (take (Suc k) X ! i)))"
    using i by simp
qed (use good_logD(1,2) [OF good] in auto)

lemma good_log_snoc:
  assumes good: "good_log a X" and el: "pleader a (leTerm e) \<noteq> None"
    and "ptlog a (leTerm e) = X @ [e]"
  shows "good_log a (X @ [e])"
proof (rule good_logI)
  fix i assume i: "0 < i" "i < length (X @ [e])"
  show "pleader a (leTerm ((X @ [e]) ! i)) \<noteq> None"
    using good_logD(3) [OF good i(1)] i(2) el by (auto simp: nth_append less_Suc_eq)
  show "take (Suc i) (X @ [e]) = take (Suc i) (ptlog a (leTerm ((X @ [e]) ! i)))"
    using good_logD(4) [OF good i(1)] i(2) assms(3) by (auto simp: nth_append less_Suc_eq)
qed (use good_logD(1,2) [OF good] in \<open>auto simp: nth_append\<close>)

lemma good_log_adopt:
  assumes "good_log a X" "good_log a Y"
  shows "good_log a (adopt X Y K)"
  using assms by (simp add: adopt_def good_log_take)

lemma logs_invI:
  "(\<And>v. good_log a (plog a v)) \<Longrightarrow>
   (\<And>v e. e \<in> set (plog a v) \<Longrightarrow> leTerm e \<le> pterm a v) \<Longrightarrow>
   (\<And>t p. pleader a t = Some p \<Longrightarrow> 1 \<le> t) \<Longrightarrow>
   (\<And>t p. pleader a t = Some p \<Longrightarrow> good_log a (ptlog a t)) \<Longrightarrow>
   (\<And>t p e. pleader a t = Some p \<Longrightarrow> e \<in> set (ptlog a t) \<Longrightarrow> leTerm e \<le> t) \<Longrightarrow>
   (\<And>t p. pleader a t = Some p \<Longrightarrow>
       take (length (pstand a t p)) (ptlog a t) = pstand a t p) \<Longrightarrow>
   (\<And>v. 0 \<le> pterm a v) \<Longrightarrow> logs_inv a"
  by (simp add: logs_inv_def)

lemma logs_invD:
  assumes "logs_inv a"
  shows "good_log a (plog a v)" "e \<in> set (plog a v) \<Longrightarrow> leTerm e \<le> pterm a v"
    "pleader a t = Some p \<Longrightarrow> 1 \<le> t" "pleader a t = Some p \<Longrightarrow> good_log a (ptlog a t)"
    "pleader a t = Some p \<Longrightarrow> e \<in> set (ptlog a t) \<Longrightarrow> leTerm e \<le> t"
    "pleader a t = Some p \<Longrightarrow> take (length (pstand a t p)) (ptlog a t) = pstand a t p"
    "0 \<le> pterm a v"
  using assms by (simp_all add: logs_inv_def)

lemma votes_invD:
  assumes "votes_inv a" "(t, v, c) \<in> pvotes a"
  shows "1 \<le> t" "t \<le> pterm a v" "(t, c, c) \<in> pvotes a" "good_log a (pballot a t v)"
    "fresher (pstand a t c) (pballot a t v)" "good_log a (pstand a t c)"
    "e \<in> set (pstand a t c) \<Longrightarrow> leTerm e < t" "(t, v, c') \<in> pvotes a \<Longrightarrow> c' = c"
  using assms unfolding votes_inv_def by blast+

lemma elect_invD:
  assumes "elect_inv elects a" "pleader a t = Some p"
  shows "(t, p, p) \<in> pvotes a" "elects (pelect a t)" "v \<in> pelect a t \<Longrightarrow> (t, v, p) \<in> pvotes a"
  using assms by (auto simp: elect_inv_def)

lemma take_length_prefix: "take (length s) xs = s \<Longrightarrow> length s \<le> length xs"
  by (metis length_take min.cobounded1)

lemma logs_inv_step:
  assumes step: "proto_step elects a a'" and inv: "proto_inv elects a"
  shows "logs_inv a'"
proof -
  have ext: "extends a a'" by (rule step_extends_inv [OF step inv])
  have L: "logs_inv a" and V: "votes_inv a" and E: "elect_inv elects a"
    using inv by (auto simp: proto_inv_def)
  note good = good_log_extends [OF ext] and LD = logs_invD [OF L]
  show ?thesis using step
  proof (cases rule: proto_step.cases)
    case (raise t v)
    then have f: "plog a' = plog a" "pleader a' = pleader a" "ptlog a' = ptlog a"
      "pstand a' = pstand a" "pterm a' = (pterm a)(v := t)" by simp_all
    show ?thesis
    proof (rule logs_invI)
      show "e \<in> set (plog a' u) \<Longrightarrow> leTerm e \<le> pterm a' u" for u e
        using LD(2) [of e u] raise(2) by (auto simp: f)
      show "0 \<le> pterm a' u" for u
        using LD(7) [of u] raise(2) by (auto simp: f)
    qed (auto simp: f intro: good LD(1,3-6))
  next
    case (stand t p)
    then have f: "plog a' = plog a" "pleader a' = pleader a" "ptlog a' = ptlog a"
      "pterm a' = (pterm a)(p := t)" by simp_all
    show ?thesis
    proof (rule logs_invI)
      show "e \<in> set (plog a' u) \<Longrightarrow> leTerm e \<le> pterm a' u" for u e
        using LD(2) [of e u] stand(2) by (auto simp: f)
      show "0 \<le> pterm a' u" for u
        using LD(7) [of u] stand(2) by (auto simp: f)
      show "take (length (pstand a' t c)) (ptlog a' t) = pstand a' t c"
        if "pleader a' t = Some c" for t c
        using LD(6) [of t c] elect_invD(1) [OF E, of t c] ext that
        by (auto simp: f extends_def)
    qed (auto simp: f intro: good LD(1,3-5))
  next
    case (vote t v c)
    then have f: "plog a' = plog a" "pleader a' = pleader a" "ptlog a' = ptlog a"
      "pterm a' = pterm a" "pstand a' = pstand a" by simp_all
    show ?thesis
      by (rule logs_invI) (auto simp: f intro: good LD)
  next
    case (win t p Q)
    then have f: "plog a' = plog a" "pleader a' = (pleader a)(t := Some p)"
      "ptlog a' = (ptlog a)(t := plog a p)" "pterm a' = pterm a" "pstand a' = pstand a"
      by simp_all
    have "1 \<le> t" by (rule votes_invD(1) [OF V win(3)])
    then show ?thesis using win(2,5) good [OF LD(1) [of p]]
      by (intro logs_invI) (auto simp: f intro: good LD split: if_splits)
  next
    case (propose t p e)
    then have f: "plog a' = (plog a)(p := plog a p @ [e])" "pleader a' = pleader a"
      "ptlog a' = (ptlog a)(t := ptlog a t @ [e])" "pterm a' = pterm a" "pstand a' = pstand a"
      by simp_all
    have "good_log a' (ptlog a t @ [e])"
      using propose LD(4) [OF propose(2)] by (intro good_log_snoc good) auto
    then show ?thesis using propose(2-5) LD(6) [OF propose(2)]
        take_length_prefix [OF LD(6) [OF propose(2)]]
      by (intro logs_invI) (auto simp: f intro: good LD split: if_splits)
  next
    case (accept t v K)
    then have f: "plog a' = (plog a)(v := adopt (plog a v) (ptlog a t) K)"
      "pleader a' = pleader a" "ptlog a' = ptlog a" "pterm a' = pterm a" "pstand a' = pstand a"
      by simp_all
    obtain p where p: "pleader a t = Some p" using accept by auto
    have "good_log a' (adopt (plog a v) (ptlog a t) K)"
      by (intro good good_log_adopt LD(1) LD(4) [OF p])
    moreover have "leTerm e \<le> t" if "e \<in> set (adopt (plog a v) (ptlog a t) K)" for e
      using that LD(2) [of e v] LD(5) [OF p, of e] accept(3) set_adopt by fastforce
    ultimately show ?thesis using accept(3)
      by (intro logs_invI) (auto simp: f intro: good LD split: if_splits)
  qed
qed


lemma votes_invI:
  "(\<And>t v c. (t, v, c) \<in> pvotes a \<Longrightarrow>
      1 \<le> t \<and> t \<le> pterm a v \<and> (t, c, c) \<in> pvotes a \<and>
      good_log a (pballot a t v) \<and> fresher (pstand a t c) (pballot a t v)) \<Longrightarrow>
   (\<And>t c. (t, c, c) \<in> pvotes a \<Longrightarrow>
      good_log a (pstand a t c) \<and> (\<forall>e \<in> set (pstand a t c). leTerm e < t)) \<Longrightarrow>
   (\<And>t v c c'. (t, v, c) \<in> pvotes a \<Longrightarrow> (t, v, c') \<in> pvotes a \<Longrightarrow> c = c') \<Longrightarrow>
   votes_inv a"
  unfolding votes_inv_def by blast

text \<open>What a vote says is unchanged by any extension.\<close>

lemma votes_extends:
  assumes ext: "extends a a'" and V: "votes_inv a" and "(t, v, c) \<in> pvotes a"
  shows "1 \<le> t \<and> t \<le> pterm a' v \<and> (t, c, c) \<in> pvotes a' \<and>
      good_log a' (pballot a' t v) \<and> fresher (pstand a' t c) (pballot a' t v)"
    "good_log a' (pstand a' t c) \<and> (\<forall>e \<in> set (pstand a' t c). leTerm e < t)"
proof -
  note D = votes_invD [OF V assms(3)]
  have eq: "pballot a' t v = pballot a t v" "pstand a' t c = pstand a t c"
    using extends_votes(4,5) [OF ext] D(3) assms(3) by blast+
  have "pterm a v \<le> pterm a' v" "pvotes a \<subseteq> pvotes a'"
    using ext by (auto simp: extends_def)
  then show "1 \<le> t \<and> t \<le> pterm a' v \<and> (t, c, c) \<in> pvotes a' \<and>
      good_log a' (pballot a' t v) \<and> fresher (pstand a' t c) (pballot a' t v)"
    using D(1-5) by (auto simp: eq intro: good_log_extends [OF ext] order.trans)
  show "good_log a' (pstand a' t c) \<and> (\<forall>e \<in> set (pstand a' t c). leTerm e < t)"
    using D(6,7) by (auto simp: eq intro: good_log_extends [OF ext])
qed

lemma votes_inv_step:
  assumes step: "proto_step elects a a'" and inv: "proto_inv elects a"
  shows "votes_inv a'"
proof -
  have ext: "extends a a'" by (rule step_extends_inv [OF step inv])
  have V: "votes_inv a" and L: "logs_inv a" using inv by (auto simp: proto_inv_def)
  note old = votes_extends [OF ext V] and D = votes_invD [OF V] and LD = logs_invD [OF L]
  have same: "votes_inv a'" if "pvotes a' = pvotes a"
    by (rule votes_invI) (use that in \<open>auto dest: old D(8)\<close>)
  show ?thesis using step
  proof (cases rule: proto_step.cases)
    case (stand t p)
    then have f: "pvotes a' = insert (t, p, p) (pvotes a)" "pterm a' p = t"
      "pballot a' t p = plog a p" "pstand a' t p = plog a p" by simp_all
    have none: "(t, p, c) \<notin> pvotes a" for c using D(2) stand(2) by fastforce
    have t1: "1 \<le> t" using LD(7) [of p] stand(2) by simp
    have lt: "\<forall>e \<in> set (plog a p). leTerm e < t" using LD(2) stand(2) by fastforce
    have "good_log a' (plog a p)" by (rule good_log_extends [OF ext LD(1)])
    with t1 lt show ?thesis using none
      by (intro votes_invI) (auto simp: f fresher_refl dest: old D(8))
  next
    case (vote t v c)
    then have f: "pvotes a' = insert (t, v, c) (pvotes a)" "pterm a' v = t"
      "pballot a' t v = plog a v" by simp_all
    have old_c: "1 \<le> t" "good_log a' (pstand a' t c) \<and> (\<forall>e \<in> set (pstand a' t c). leTerm e < t)"
      using old [OF vote(3)] by auto
    have "pstand a' t c = pstand a t c" using vote by simp
    moreover have "good_log a' (plog a v)" by (rule good_log_extends [OF ext LD(1)])
    ultimately show ?thesis using old_c vote(3-5)
      by (intro votes_invI) (auto simp: f dest: old D(8))
  qed (rule same, simp)+
qed

lemma elect_inv_step:
  assumes step: "proto_step elects a a'" and inv: "proto_inv elects a"
  shows "elect_inv elects a'"
proof -
  have ext: "extends a a'" by (rule step_extends_inv [OF step inv])
  have E: "elect_inv elects a" using inv by (auto simp: proto_inv_def)
  have mono: "pvotes a \<subseteq> pvotes a'" using ext by (auto simp: extends_def)
  show ?thesis using step
    by (cases rule: proto_step.cases) (use E mono in \<open>auto simp: elect_inv_def split: if_splits\<close>)
qed

lemma acks_invD:
  assumes "acks_inv a" "(t, v, m) \<in> packs a"
  shows "t \<le> pterm a v" "pleader a t \<noteq> None" "m < length (ptlog a t)"
    "i \<le> m \<Longrightarrow> kept a t i (pterm a v) (plog a v)"
  using assms unfolding acks_inv_def by blast+

lemma acks_invI:
  "(\<And>t v m. (t, v, m) \<in> packs a \<Longrightarrow>
      t \<le> pterm a v \<and> pleader a t \<noteq> None \<and> m < length (ptlog a t)) \<Longrightarrow>
   (\<And>t v m i. (t, v, m) \<in> packs a \<Longrightarrow> i \<le> m \<Longrightarrow> kept a t i (pterm a v) (plog a v)) \<Longrightarrow>
   acks_inv a"
  unfolding acks_inv_def by blast

text \<open>A log that keeps the agreement with the leader of its own term keeps what it acknowledged.\<close>

lemma kept_adopt:
  assumes "kept a t i T X" "t \<le> T" "pleader a T \<noteq> None"
  shows "kept a t i T (adopt X (ptlog a T) K)"
proof (cases "take (Suc i) X = take (Suc i) (ptlog a t)")
  case eq: True
  show ?thesis
  proof (cases "take (Suc i) (ptlog a T) = take (Suc i) (ptlog a t)")
    case True
    then have "take (Suc i) (adopt X (ptlog a T) K) = take (Suc i) X"
      using eq by (intro adopt_keeps) simp
    with eq show ?thesis by (simp add: kept_def)
  next
    case False
    then have "t \<noteq> T" by auto
    with assms(2) have "t < T" by simp
    with False assms(3) show ?thesis unfolding kept_def by blast
  qed
next
  case False
  with assms(1) show ?thesis by (auto simp: kept_def)
qed

lemma kept_append:
  assumes "kept a t i T X" "i < length (ptlog a t)"
  shows "kept a t i T (X @ Y)"
proof (cases "take (Suc i) X = take (Suc i) (ptlog a t)")
  case True
  then have "Suc i \<le> length X" using take_eq_length [OF True [symmetric]] assms(2) by simp
  with True show ?thesis by (simp add: kept_def)
next
  case False
  with assms(1) show ?thesis by (auto simp: kept_def)
qed

lemma acks_inv_step:
  assumes step: "proto_step elects a a'" and inv: "proto_inv elects a"
  shows "acks_inv a'"
proof -
  have ext: "extends a a'" by (rule step_extends_inv [OF step inv])
  have A: "acks_inv a" and L: "logs_inv a" using inv by (auto simp: proto_inv_def)
  note D = acks_invD [OF A] and LD = logs_invD [OF L]
  have lift: "kept a' t i T' X" if "(t, v, m) \<in> packs a" "i \<le> m" "kept a t i T X" "T \<le> T'"
    for t v m i T T' X
    using D(2,3) [OF that(1)] that(2) LD(5)
    by (intro kept_extends [OF ext _ _ _ that(3,4)]) auto
  have base: "t \<le> pterm a' v \<and> pleader a' t \<noteq> None \<and> m < length (ptlog a' t)"
    if "(t, v, m) \<in> packs a" for t v m
  proof -
    have "pterm a v \<le> pterm a' v" using ext by (simp add: extends_def)
    then show ?thesis
      using D(1-3) [OF that] extends_elected [OF ext D(2) [OF that]]
        extends_tlog_length [OF ext D(2) [OF that]] by linarith
  qed
  have terms: "pterm a v \<le> pterm a' v" for v using ext by (simp add: extends_def)
  have same: "acks_inv a'" if "packs a' = packs a" "plog a' = plog a"
    by (rule acks_invI) (use that base in \<open>auto intro: lift D(4) terms\<close>)
  show ?thesis using step
  proof (cases rule: proto_step.cases)
    case (propose t p e)
    then have f: "packs a' = packs a" "plog a' = (plog a)(p := plog a p @ [e])" by simp_all
    show ?thesis
    proof (rule acks_invI)
      fix t v m i assume ack: "(t, v, m) \<in> packs a'" and i: "i \<le> m"
      then have "kept a t i (pterm a v) (plog a' v)"
        using D(3,4) [of t v m] by (auto simp: f intro!: kept_append)
      then show "kept a' t i (pterm a' v) (plog a' v)"
        using ack i by (auto simp: f intro: lift terms)
    qed (use base f in auto)
  next
    case (accept t v K)
    then have f: "packs a' = insert (t, v, K) (packs a)" "pterm a' = pterm a"
      "plog a' = (plog a)(v := adopt (plog a v) (ptlog a t) K)"
      "pleader a' = pleader a" "ptlog a' = ptlog a" by simp_all
    show ?thesis
    proof (rule acks_invI)
      fix t' v' m i assume ack: "(t', v', m) \<in> packs a'" and i: "i \<le> m"
      show "kept a' t' i (pterm a' v') (plog a' v')"
      proof (cases "(t', v', m) \<in> packs a")
        case True
        then have "kept a t' i (pterm a v') (plog a' v')"
          using D(1,4) [OF True] i accept(2,3) by (auto simp: f intro!: kept_adopt)
        then show ?thesis using True i by (auto simp: f intro: lift)
      next
        case False
        then have "t' = t" "v' = v" "m = K" using ack f by auto
        then show ?thesis
          using take_eq_mono [OF adopt_agrees, of "Suc i"] i by (auto simp: f kept_def)
      qed
    qed (use base f accept in auto)
  qed (rule same, simp, simp)+
qed

lemma ballots_invI:
  "(\<And>T v c t m i. (T, v, c) \<in> pvotes a \<Longrightarrow> (t, v, m) \<in> packs a \<Longrightarrow> t < T \<Longrightarrow>
        pleader a T = None \<or> v \<in> pelect a T \<Longrightarrow> i \<le> m \<Longrightarrow>
        kept a t i (T - 1) (pballot a T v)) \<Longrightarrow> ballots_inv a"
  unfolding ballots_inv_def by blast

lemma ballots_inv_step:
  assumes step: "proto_step elects a a'" and inv: "proto_inv elects a"
  shows "ballots_inv a'"
proof -
  have ext: "extends a a'" by (rule step_extends_inv [OF step inv])
  have A: "acks_inv a" and L: "logs_inv a" and V: "votes_inv a" and B: "ballots_inv a"
    and E: "elect_inv elects a" using inv by (auto simp: proto_inv_def)
  note D = acks_invD [OF A] and LD = logs_invD [OF L]
  have lift: "kept a' t i T' X" if "(t, v, m) \<in> packs a" "i \<le> m" "kept a t i T X" "T \<le> T'"
    for t v m i T T' X
    using D(2,3) [OF that(1)] that(2) LD(5)
    by (intro kept_extends [OF ext _ _ _ that(3,4)]) auto
  have old: "kept a' t i (T - 1) (pballot a' T v)"
    if v: "(T, v, c) \<in> pvotes a" "(t, v, m) \<in> packs a" "t < T" "i \<le> m"
      and el: "pleader a T = None \<or> v \<in> pelect a T" for T v c t m i
  proof -
    have "pballot a' T v = pballot a T v" by (rule extends_votes(5) [OF ext v(1)])
    moreover have "kept a t i (T - 1) (pballot a T v)"
      using B v el unfolding ballots_inv_def by blast
    ultimately show ?thesis using lift v(2,4) by simp
  qed
  have elect: "pleader a T = None \<or> v \<in> pelect a T"
    if "pleader a' T = None \<or> v \<in> pelect a' T" for T v
    using that extends_elected [OF ext, of T] ext unfolding extends_def by metis
  have same: "ballots_inv a'" if "pvotes a' = pvotes a" "packs a' = packs a"
    by (rule ballots_invI) (use that in \<open>auto dest!: elect intro: old\<close>)
  show ?thesis using step
  proof (cases rule: proto_step.cases)
    case (stand t p)
    then have f: "pvotes a' = insert (t, p, p) (pvotes a)" "packs a' = packs a"
      "pballot a' t p = plog a p" by simp_all
    have new: "kept a' t' i (t - 1) (plog a p)" if "(t', p, m) \<in> packs a" "i \<le> m" for t' m i
      using lift [OF that D(4) [OF that]] stand(2) by simp
    show ?thesis by (rule ballots_invI) (auto simp: f dest!: elect intro: old new)
  next
    case (vote t v c)
    then have f: "pvotes a' = insert (t, v, c) (pvotes a)" "packs a' = packs a"
      "pballot a' t v = plog a v" by simp_all
    have none: "pleader a t = None" if "pleader a t = None \<or> v \<in> pelect a t"
    proof (rule ccontr)
      assume "pleader a t \<noteq> None"
      then obtain p where "pleader a t = Some p" by auto
      with that have "(t, v, p) \<in> pvotes a" using elect_invD(3) [OF E] by auto
      then show False using vote(4) by blast
    qed
    have new: "kept a' t' i (t - 1) (plog a v)"
      if ack: "(t', v, m) \<in> packs a" "i \<le> m" "pleader a t = None \<or> v \<in> pelect a t" for t' m i
    proof -
      have "kept a t' i (pterm a v) (plog a v)" by (rule D(4) [OF ack(1,2)])
      then have "kept a t' i (t - 1) (plog a v)"
        using none [OF ack(3)] vote(2) unfolding kept_def by (smt (verit))
      then show ?thesis using lift [OF ack(1,2)] by blast
    qed
    show ?thesis by (rule ballots_invI) (auto simp: f dest!: elect intro: old new)
  next
    case (accept t v K)
    then have f: "packs a' = insert (t, v, K) (packs a)" "pvotes a' = pvotes a" by simp_all
    have "T \<le> t" if "(T, v, c) \<in> pvotes a" for T c
      using votes_invD(2) [OF V that] accept(3) by simp
    then show ?thesis
      by (intro ballots_invI) (fastforce simp: f dest!: elect intro: old)
  qed (rule same, simp, simp)+
qed

lemma proto_inv_step: "proto_step elects a a' \<Longrightarrow> proto_inv elects a \<Longrightarrow> proto_inv elects a'"
  by (simp add: proto_inv_def [of _ a'] logs_inv_step votes_inv_step elect_inv_step
      acks_inv_step ballots_inv_step)

lemma proto_inv_parts:
  assumes "proto_inv elects a"
  shows "logs_inv a" "votes_inv a" "elect_inv elects a" "acks_inv a" "ballots_inv a"
  using assms by (simp_all add: proto_inv_def)

lemma proto_inv_init: "proto_inv elects proto_init"
  by (auto simp: proto_inv_def proto_inv_defs proto_init_def good_log_def sentinel_def)

section \<open>Committed prefixes\<close>

text \<open>
  Index \<open>i\<close> is committed by term \<open>t\<close>: its leader put an entry of its own term there
  and a commit quorum acknowledged it or something after it.
\<close>

definition committed :: "(nat set \<Rightarrow> bool) \<Rightarrow> 'c proto \<Rightarrow> int \<Rightarrow> nat \<Rightarrow> bool" where
  "committed commits a t i \<longleftrightarrow>
     pleader a t \<noteq> None \<and> i < length (ptlog a t) \<and> leTerm (ptlog a t ! i) = t \<and>
     (\<exists>Q. commits Q \<and> (\<forall>q \<in> Q. \<exists>m \<ge> i. (t, q, m) \<in> packs a))"

definition settled :: "(nat set \<Rightarrow> bool) \<Rightarrow> 'c proto \<Rightarrow> int \<Rightarrow> 'c LogEntry list \<Rightarrow> bool" where
  "settled commits a T X \<longleftrightarrow>
     X = [sentinel] \<or>
     (\<exists>t i. t \<le> T \<and> committed commits a t i \<and> length X \<le> Suc i \<and>
            X = take (length X) (ptlog a t))"

lemma committed_extends:
  assumes ext: "extends a a'" and c: "committed commits a t i"
  shows "committed commits a' t i"
proof -
  have el: "pleader a t \<noteq> None" and i: "i < length (ptlog a t)"
    using c by (auto simp: committed_def)
  have "packs a \<subseteq> packs a'" using ext by (rule extends_votes)
  then show ?thesis
    using c extends_elected [OF ext el] extends_tlog_length [OF ext el]
      extends_tlog_nth [OF ext el i] i
    unfolding committed_def by (metis order_less_le_trans subsetD)
qed

lemma settled_extends:
  assumes ext: "extends a a'" and "settled commits a T X" "T \<le> T'"
  shows "settled commits a' T' X"
  using assms(2) unfolding settled_def
proof (elim disjE exE conjE)
  fix t i assume t: "t \<le> T" "committed commits a t i" "length X \<le> Suc i"
    "X = take (length X) (ptlog a t)"
  have "take (length X) (ptlog a' t) = take (length X) (ptlog a t)"
    using t by (intro extends_tlog [OF ext]) (auto simp: committed_def)
  then show "X = [sentinel] \<or> (\<exists>t i. t \<le> T' \<and> committed commits a' t i \<and> length X \<le> Suc i \<and>
            X = take (length X) (ptlog a' t))"
    using t committed_extends [OF ext t(2)] assms(3) by (metis order.trans)
qed simp

lemma settled_take: "settled commits a T X \<Longrightarrow> 0 < k \<Longrightarrow> settled commits a T (take k X)"
  unfolding settled_def
  by (elim disjE exE conjE, simp)
    (intro disjI2 exI conjI, assumption+, simp, metis length_take min.commute take_take)

lemma settled_terms: "settled commits a T X \<Longrightarrow> T \<le> T' \<Longrightarrow> settled commits a T' X"
  by (rule settled_extends [OF extends_refl])

locale raft_quorums =
  fixes elects commits :: "nat set \<Rightarrow> bool"
  assumes elect_commit: "elects P \<Longrightarrow> commits Q \<Longrightarrow> P \<inter> Q \<noteq> {}"
    and elect_elect: "elects P \<Longrightarrow> elects P' \<Longrightarrow> P \<inter> P' \<noteq> {}"
begin

text \<open>
  The voter that elected the later leader and acknowledged the committed entry, and the log
  it had when it voted.
\<close>

lemma quorum_voter:
  assumes inv: "proto_inv elects a" and c: "committed commits a t i"
    and p: "pleader a t' = Some p" and "t < t'"
    and earlier: "\<And>s. t < s \<Longrightarrow> s < t' \<Longrightarrow> pleader a s \<noteq> None \<Longrightarrow>
       take (Suc i) (ptlog a s) = take (Suc i) (ptlog a t)"
  obtains v where "(t', v, p) \<in> pvotes a"
    "take (Suc i) (pballot a t' v) = take (Suc i) (ptlog a t)"
proof -
  note I = proto_inv_parts [OF inv]
  obtain Q where Q: "commits Q" "\<forall>q \<in> Q. \<exists>m \<ge> i. (t, q, m) \<in> packs a"
    using c by (auto simp: committed_def)
  obtain v where v: "v \<in> pelect a t'" "v \<in> Q"
    using elect_commit [OF elect_invD(2) [OF I(3) p] Q(1)] by auto
  obtain m where m: "i \<le> m" "(t, v, m) \<in> packs a" using Q(2) v(2) by auto
  have vote: "(t', v, p) \<in> pvotes a" by (rule elect_invD(3) [OF I(3) p v(1)])
  have "kept a t i (t' - 1) (pballot a t' v)"
    using I(5) vote m v(1) \<open>t < t'\<close> unfolding ballots_inv_def by blast
  then have "take (Suc i) (pballot a t' v) = take (Suc i) (ptlog a t)"
    using earlier unfolding kept_def by (metis zle_diff1_eq)
  with vote that show thesis by blast
qed

lemma leader_completeness:
  assumes inv: "proto_inv elects a" and c: "committed commits a t i"
  shows "pleader a t' \<noteq> None \<Longrightarrow> t < t' \<Longrightarrow>
    take (Suc i) (ptlog a t') = take (Suc i) (ptlog a t)"
proof (induction "nat (t' - t)" arbitrary: t' rule: less_induct)
  case less
  note I = proto_inv_parts [OF inv]
  note LD = logs_invD [OF I(1)] and VD = votes_invD [OF I(2)]
  let ?C = "ptlog a t"
  have el: "pleader a t \<noteq> None" and i: "i < length ?C" and it: "leTerm (?C ! i) = t"
    using c by (auto simp: committed_def)
  have t1: "1 \<le> t" using LD(3) el by auto
  have earlier: "take (Suc i) (ptlog a s) = take (Suc i) ?C"
    if "t < s" "s < t'" "pleader a s \<noteq> None" for s
    using that less.hyps [of s] by auto
  obtain p where p: "pleader a t' = Some p" using less.prems(1) by auto
  obtain v where v: "(t', v, p) \<in> pvotes a"
    and Yi: "take (Suc i) (pballot a t' v) = take (Suc i) ?C"
    using quorum_voter [OF inv c p less.prems(2) earlier] by blast
  let ?X = "pstand a t' p" and ?Y = "pballot a t' v"
  have iY: "i < length ?Y" using take_eq_length [OF Yi [symmetric]] i by simp
  have Yit: "leTerm (?Y ! i) = t" using take_eq_nth [OF Yi] iY it by simp
  have i0: "0 < i"
    using good_logD(2) [OF VD(4) [OF v]] Yit t1 by (cases i) (auto simp: sentinel_def)
  let ?j = "length ?Y - 1" and ?k = "length ?X - 1"
  let ?tl = "leTerm (last ?Y)" and ?sx = "leTerm (last ?X)"
  have Yn: "?Y \<noteq> []" and Xn: "?X \<noteq> []"
    using good_logD(1) VD(4,6) [OF v] by auto
  have lastY: "last ?Y = ?Y ! ?j" and lastX: "last ?X = ?X ! ?k"
    using Xn Yn by (simp_all add: last_conv_nth)
  have jY: "0 < ?j" "?j < length ?Y" "Suc ?j = length ?Y" using iY i0 by auto
  have Yp: "pleader a ?tl \<noteq> None" "?Y = take (length ?Y) (ptlog a ?tl)"
    using good_logD(3,4) [OF VD(4) [OF v] jY(1,2)] jY(3) lastY by auto
  have "?Y ! i = ptlog a ?tl ! i" by (rule prefix_nth [OF Yp(2) iY])
  moreover have "i < length (ptlog a ?tl)"
    using prefix_length [OF Yp(2)] iY by simp
  ultimately have tl: "t \<le> ?tl" using LD(5) Yp(1) Yit by auto
  have fresh: "?sx > ?tl \<or> (?sx = ?tl \<and> length ?Y \<le> length ?X)"
    using VD(5) [OF v] by (auto simp: fresher_def upToDate_def)
  have k0: "0 < ?k"
  proof (rule ccontr)
    assume "\<not> 0 < ?k"
    then have "last ?X = sentinel" using lastX good_logD(2) [OF VD(6) [OF v]] by simp
    then show False using fresh tl t1 by (auto simp: sentinel_def)
  qed
  then have kX: "?k < length ?X" "Suc ?k = length ?X" by auto
  have Xp: "pleader a ?sx \<noteq> None" "?X = take (length ?X) (ptlog a ?sx)"
    using good_logD(3,4) [OF VD(6) [OF v] k0 kX(1)] kX(2) lastX by auto
  have Xi: "take (Suc i) ?X = take (Suc i) ?C"
  proof (cases "?sx = ?tl")
    case True
    with fresh have "length ?Y \<le> length ?X" by auto
    with iY have "take (Suc i) ?X = take (Suc i) (ptlog a ?sx)"
      by (intro prefix_take [OF Xp(2)]) simp
    moreover have "take (Suc i) ?Y = take (Suc i) (ptlog a ?tl)"
      using iY by (intro prefix_take [OF Yp(2)]) simp
    ultimately show ?thesis using Yi True by simp
  next
    case False
    with fresh tl have sx: "t < ?sx" by auto
    have "?sx < t'" by (rule VD(7) [OF v last_in_set [OF Xn]])
    then have eq: "take (Suc i) (ptlog a ?sx) = take (Suc i) ?C"
      using earlier sx Xp(1) by blast
    have "i \<le> ?k"
    proof (rule ccontr)
      assume "\<not> i \<le> ?k"
      moreover have "?X ! ?k = ptlog a ?sx ! ?k" by (rule prefix_nth [OF Xp(2) kX(1)])
      moreover have "?k < length (ptlog a ?sx)"
        using prefix_length [OF Xp(2)] kX(1) by simp
      ultimately have "?X ! ?k = ?C ! ?k" using take_eq_nth [OF eq, of ?k] by simp
      moreover have "leTerm (?C ! ?k) \<le> t"
        using LD(5) el i \<open>\<not> i \<le> ?k\<close> by auto
      ultimately show False using sx lastX by simp
    qed
    then have "take (Suc i) ?X = take (Suc i) (ptlog a ?sx)"
      using kX(2) by (intro prefix_take [OF Xp(2)]) simp
    with eq show ?thesis by simp
  qed
  then have "Suc i \<le> length ?X" using take_eq_length [OF Xi [symmetric]] i by simp
  moreover have "take (length ?X) (ptlog a t') = ?X" by (rule LD(6) [OF p])
  ultimately have "take (Suc i) (ptlog a t') = take (Suc i) ?X"
    by (metis min.absorb1 take_take)
  with Xi show ?case by simp
qed

lemma settled_leader:
  assumes inv: "proto_inv elects a" and X: "settled commits a T X"
    and el: "pleader a t' \<noteq> None" and "T \<le> t'"
  shows "take (length X) (ptlog a t') = X"
  using X unfolding settled_def
proof (elim disjE exE conjE)
  assume "X = [sentinel]"
  moreover have "good_log a (ptlog a t')"
    using logs_invD(4) [OF proto_inv_parts(1) [OF inv]] el by auto
  ultimately show ?thesis
    using good_logD(1,2) by (metis One_nat_def hd_conv_nth length_Cons list.size(3) take_Suc take0)
next
  fix t i assume t: "t \<le> T" "committed commits a t i" "length X \<le> Suc i"
    and X: "X = take (length X) (ptlog a t)"
  have "take (Suc i) (ptlog a t') = take (Suc i) (ptlog a t)"
    using leader_completeness [OF inv t(2) el] t(1) assms(4) by (cases "t = t'") auto
  then show ?thesis using X t(3) by (metis take_eq_mono)
qed

lemma settled_elected:
  "settled commits a T X \<Longrightarrow> X = [sentinel] \<or>
     (\<exists>t \<le> T. pleader a t \<noteq> None \<and> settled commits a t X)"
  unfolding settled_def by (fastforce simp: committed_def)

text \<open>Any two committed prefixes agree.\<close>

lemma settled_agree:
  assumes inv: "proto_inv elects a" and X: "settled commits a T X" and Y: "settled commits a T' Y"
    and le: "length X \<le> length Y"
  shows "take (length X) Y = X"
proof -
  have common: "take (length X) Y = X"
    if "take (length X) Z = X" "take (length Y) Z = Y" for Z
    using that le by (metis min.absorb1 take_take)
  show ?thesis
    using settled_elected [OF X]
  proof (elim disjE exE conjE)
    assume X1: "X = [sentinel]"
    show ?thesis using settled_elected [OF Y]
    proof (elim disjE exE conjE)
      fix t assume t: "pleader a t \<noteq> None" "settled commits a t Y"
      have "settled commits a t X" using X1 by (simp add: settled_def)
      then show ?thesis
        using settled_leader [OF inv _ t(1)] t(2) by (intro common [of "ptlog a t"]) auto
    qed (simp add: X1)
  next
    fix t assume t: "pleader a t \<noteq> None" "settled commits a t X"
    show ?thesis using settled_elected [OF Y]
    proof (elim disjE exE conjE)
      assume "Y = [sentinel]"
      then have "settled commits a t Y" by (simp add: settled_def)
      then show ?thesis
        using settled_leader [OF inv _ t(1)] t(2) by (intro common [of "ptlog a t"]) auto
    next
      fix t' assume t': "pleader a t' \<noteq> None" "settled commits a t' Y"
      define u where "u = max t t'"
      have u: "pleader a u \<noteq> None" "t \<le> u" "t' \<le> u"
        using t(1) t'(1) by (auto simp: u_def max_def)
      show ?thesis
        using settled_leader [OF inv t(2) u(1,2)] settled_leader [OF inv t'(2) u(1,3)]
        by (rule common)
    qed
  qed
qed

end

end
