(* ===== verification/Raft_Local.thy ===== *)
theory Raft_Local
  imports Raft_Protocol
begin

text \<open>
  A peer of the code against the uncompacted log it stands for: how its log access, its
  searches and its operations act on that log, and the local invariant they keep.
\<close>


section \<open>A peer and its uncompacted log\<close>

text \<open>
  \<open>holds rf F\<close>: the log of the peer is \<open>F\<close> with everything up to the snapshot index cut
  off; the entry at the snapshot index remains as the sentinel, of which only the term counts.
\<close>

definition holds :: "('c, 'b) raft \<Rightarrow> 'c LogEntry list \<Rightarrow> bool" where
  "holds rf F \<longleftrightarrow>
     0 \<le> lastIncludeIndex rf \<and> nat (lastIncludeIndex rf) < length F \<and> rlog rf \<noteq> [] \<and>
     leTerm (hd (rlog rf)) = leTerm (F ! nat (lastIncludeIndex rf)) \<and>
     tl (rlog rf) = drop (Suc (nat (lastIncludeIndex rf))) F \<and>
     lastIncludeTerm rf = leTerm (F ! nat (lastIncludeIndex rf))"

lemma holds_length: "holds rf F \<Longrightarrow> length (rlog rf) = length F - nat (lastIncludeIndex rf)"
proof -
  assume h: "holds rf F"
  have "length (tl (rlog rf)) = length F - Suc (nat (lastIncludeIndex rf))"
    using h by (simp add: holds_def)
  moreover have "nat (lastIncludeIndex rf) < length F" "0 < length (rlog rf)"
    using h by (simp_all add: holds_def)
  ultimately show ?thesis by (cases "rlog rf") auto
qed

lemma holds_lastIndex: "holds rf F \<Longrightarrow> lastIndex rf = int (length F) - 1"
  using holds_length by (fastforce simp: lastIndex_def holds_def)

lemma holds_lii: "holds rf F \<Longrightarrow> 0 \<le> lastIncludeIndex rf \<and> lastIncludeIndex rf < int (length F)"
  by (auto simp: holds_def)

lemma holds_nth:
  assumes h: "holds rf F" and k: "0 < k" "k < length (rlog rf)"
  shows "rlog rf ! k = F ! (nat (lastIncludeIndex rf) + k)"
proof -
  have "rlog rf ! k = tl (rlog rf) ! (k - 1)" using k by (simp add: nth_tl)
  also have "\<dots> = F ! (Suc (nat (lastIncludeIndex rf)) + (k - 1))"
    using h k holds_length [OF h] by (simp add: holds_def)
  finally show ?thesis using k by simp
qed

lemma holds_entry:
  assumes h: "holds rf F" and i: "lastIncludeIndex rf \<le> i" "i < int (length F)"
  obtains e where "entry rf i = Some e" "leTerm e = leTerm (F ! nat i)"
    "lastIncludeIndex rf < i \<Longrightarrow> e = F ! nat i"
proof -
  let ?k = "nat (logIdx rf i)"
  have k: "0 \<le> logIdx rf i" "?k < length (rlog rf)" "nat i = nat (lastIncludeIndex rf) + ?k"
    using i holds_length [OF h] holds_lii [OF h] by (auto simp: logIdx_def)
  have e: "entry rf i = Some (rlog rf ! ?k)"
    using k by (simp add: entry_def slice_get_def)
  show thesis
  proof (cases "lastIncludeIndex rf < i")
    case True
    then have "rlog rf ! ?k = F ! nat i"
      using holds_nth [OF h _ k(2)] k(3) by (simp add: logIdx_def)
    with e show ?thesis by (intro that [OF e]) auto
  next
    case False
    then have "i = lastIncludeIndex rf" "?k = 0" using i by (auto simp: logIdx_def)
    then have "leTerm (rlog rf ! ?k) = leTerm (F ! nat i)"
      using h by (auto simp: holds_def hd_conv_nth)
    then show ?thesis using False by (intro that [OF e]) auto
  qed
qed

lemma holds_lastTerm:
  assumes h: "holds rf F" shows "lastTerm rf = Some (leTerm (last F))"
proof -
  have "rlog rf \<noteq> []" "F \<noteq> []" using h by (auto simp: holds_def)
  then have "lastTerm rf = Some (leTerm (last (rlog rf)))"
    by (simp add: lastTerm_def slice_get_def last_conv_nth nat_minus_as_int Suc_le_eq)
  also have "leTerm (last (rlog rf)) = leTerm (last F)"
  proof (cases "tl (rlog rf) = []")
    case True
    then have "last (rlog rf) = hd (rlog rf)"
      using \<open>rlog rf \<noteq> []\<close> by (cases "rlog rf") auto
    moreover have "length F \<le> Suc (nat (lastIncludeIndex rf))"
      using True h by (simp add: holds_def)
    then have "length F - 1 = nat (lastIncludeIndex rf)"
      using h by (auto simp: holds_def)
    ultimately show ?thesis using h \<open>F \<noteq> []\<close> by (simp add: holds_def last_conv_nth)
  next
    case False
    then have "last (rlog rf) = last (tl (rlog rf))"
      by (metis last_tl)
    also have "\<dots> = last F"
      using False h by (auto simp: holds_def last_drop)
    finally show ?thesis by simp
  qed
  finally show ?thesis .
qed

lemma holds_entries:
  assumes h: "holds rf F" and i: "lastIncludeIndex rf < lo" "lo \<le> hi" "hi \<le> int (length F)"
  shows "entries rf lo hi = Some (take (nat hi - nat lo) (drop (nat lo) F))"
proof -
  let ?l = "nat (lastIncludeIndex rf)"
  have r: "rlog rf = hd (rlog rf) # drop (Suc ?l) F"
    using h by (metis holds_def list.collapse)
  have "entries rf lo hi = Some (take (nat hi - nat lo) (drop (nat (logIdx rf lo)) (rlog rf)))"
    using i holds_length [OF h] holds_lii [OF h]
    by (auto simp: entries_def slice_range_def logIdx_def nat_diff_distrib)
  also have "drop (nat (logIdx rf lo)) (rlog rf) = drop (nat lo) F"
  proof -
    have "nat (logIdx rf lo) = Suc (nat lo - Suc ?l)" "nat lo = Suc ?l + (nat lo - Suc ?l)"
      using i holds_lii [OF h] by (auto simp: logIdx_def)
    then show ?thesis by (subst r) (metis drop_Suc_Cons drop_drop add.commute)
  qed
  finally show ?thesis .
qed

lemma holds_truncateFront:
  assumes h: "holds rf F" and i: "lastIncludeIndex rf \<le> i" "i < int (length F)"
  obtains l where "truncateFront rf i = Some (rf\<lparr>rlog := l\<rparr>)" "l \<noteq> []"
    "leTerm (hd l) = leTerm (F ! nat i)" "tl l = drop (Suc (nat i)) F"
proof -
  let ?k = "nat (logIdx rf i)"
  have k: "0 \<le> logIdx rf i" "?k < length (rlog rf)" "nat i = nat (lastIncludeIndex rf) + ?k"
    using i holds_length [OF h] holds_lii [OF h] by (auto simp: logIdx_def)
  obtain e where e: "entry rf i = Some e" "leTerm e = leTerm (F ! nat i)"
    using holds_entry [OF h i] by blast
  have "truncateFront rf i = Some (rf\<lparr>rlog := drop ?k (rlog rf)\<rparr>)"
    using k by (simp add: truncateFront_def slice_from_def nat_le_iff less_imp_le)
  moreover have "drop ?k (rlog rf) \<noteq> []" using k by simp
  moreover have "hd (drop ?k (rlog rf)) = e"
    using e(1) k by (auto simp: entry_def slice_get_def hd_drop_conv_nth split: if_splits)
  moreover have "tl (drop ?k (rlog rf)) = drop (Suc (nat i)) F"
  proof -
    have "tl (drop ?k (rlog rf)) = drop ?k (tl (rlog rf))" by (rule tl_drop)
    also have "\<dots> = drop (Suc (nat i)) F" using h k(3) by (simp add: holds_def add.commute)
    finally show ?thesis .
  qed
  ultimately show thesis using that e(2) by blast
qed

lemma holds_append:
  "holds rf F \<Longrightarrow> holds (rf\<lparr>rlog := rlog rf @ es\<rparr>) (F @ es)"
  by (auto simp: holds_def nth_append)

lemma holds_cut:
  assumes h: "holds rf F" and c: "lastIncludeIndex rf < c" "c \<le> int (length F)"
  obtains l where "slice_to (rlog rf) (logIdx rf c) = Some l"
    "holds (rf\<lparr>rlog := l\<rparr>) (take (nat c) F)"
proof -
  let ?k = "nat (logIdx rf c)" and ?l = "nat (lastIncludeIndex rf)"
  have k: "0 < ?k" "?k \<le> length (rlog rf)" "nat c = ?l + ?k"
    using c holds_length [OF h] holds_lii [OF h] by (auto simp: logIdx_def)
  have s: "slice_to (rlog rf) (logIdx rf c) = Some (take ?k (rlog rf))"
    using k by (auto simp: slice_to_def)
  have "tl (take ?k (rlog rf)) = drop (Suc ?l) (take (nat c) F)"
  proof -
    have "tl (take ?k (rlog rf)) = take (?k - 1) (tl (rlog rf))"
      using k(1) by (simp add: tl_take)
    also have "\<dots> = drop (Suc ?l) (take (nat c) F)"
      using h k by (simp add: holds_def drop_take)
    finally show ?thesis .
  qed
  then have "holds (rf\<lparr>rlog := take ?k (rlog rf)\<rparr>) (take (nat c) F)"
    using h k by (auto simp: holds_def)
  with s that show thesis by blast
qed

lemma holds_cong:
  "holds rf F \<Longrightarrow> rlog rf' = rlog rf \<Longrightarrow> lastIncludeIndex rf' = lastIncludeIndex rf \<Longrightarrow>
   lastIncludeTerm rf' = lastIncludeTerm rf \<Longrightarrow> holds rf' F"
  by (simp add: holds_def)

section \<open>Searching the log\<close>

text \<open>Two logs match where equal terms at an index force equal prefixes.\<close>

definition matching :: "'c LogEntry list \<Rightarrow> 'c LogEntry list \<Rightarrow> bool" where
  "matching X Y \<longleftrightarrow> (\<forall>i. i < length X \<longrightarrow> i < length Y \<longrightarrow> leTerm (X ! i) = leTerm (Y ! i) \<longrightarrow>
     take (Suc i) X = take (Suc i) Y)"

lemma matchingD:
  "matching X Y \<Longrightarrow> i < length X \<Longrightarrow> i < length Y \<Longrightarrow> leTerm (X ! i) = leTerm (Y ! i) \<Longrightarrow>
   take (Suc i) X = take (Suc i) Y"
  by (simp add: matching_def)

lemma firstOfTerm_total:
  assumes h: "holds rf F"
  shows "lastIncludeIndex rf \<le> i \<Longrightarrow> i \<le> int (length F) \<Longrightarrow> \<exists>j. firstOfTerm rf x i = Some j"
proof (induction "nat (i - lastIncludeIndex rf)" arbitrary: i)
  case 0
  then show ?case by (simp add: firstOfTerm.simps)
next
  case (Suc k)
  then obtain e where "entry rf (i - 1) = Some e"
    using holds_entry [OF h, of "i - 1"] by fastforce
  then show ?case
    using Suc.hyps(1) [of "i - 1"] Suc.hyps(2) Suc.prems by (simp add: firstOfTerm.simps [of rf x i])
qed

lemma lastOfTerm_total:
  assumes h: "holds rf F"
  shows "i < int (length F) \<Longrightarrow> \<exists>j. lastOfTerm rf x i = Some j"
proof (induction "nat (i - lastIncludeIndex rf)" arbitrary: i)
  case 0
  then show ?case by (simp add: lastOfTerm.simps)
next
  case (Suc k)
  then obtain e where "entry rf i = Some e"
    using holds_entry [OF h, of i] by fastforce
  then show ?case
    using Suc.hyps(1) [of "i - 1"] Suc.hyps(2) Suc.prems by (simp add: lastOfTerm.simps [of rf x i])
qed

lemma findConflict_spec:
  assumes h: "holds rf F" and mt: "matching F Y"
  shows "lastIncludeIndex rf < i \<Longrightarrow> es = take (length es) (drop (nat i) Y) \<Longrightarrow>
    i \<le> int (length F) \<Longrightarrow> take (nat i) F = take (nat i) Y \<Longrightarrow>
    \<exists>c. findConflict rf i es = Some c \<and>
      (c = -1 \<and> take (min (nat i + length es) (length F)) F = take (min (nat i + length es) (length F)) Y \<or>
       i \<le> c \<and> c < i + int (length es) \<and> c < int (length F) \<and> take (nat c) F = take (nat c) Y \<and>
       leTerm (F ! nat c) \<noteq> leTerm (Y ! nat c))"
proof (induction es arbitrary: i)
  case Nil
  then show ?case by (simp add: min_absorb1 nat_le_iff)
next
  case (Cons e es)
  have i0: "0 \<le> i" using holds_lii [OF h] Cons.prems(1) by simp
  have ey: "e = Y ! nat i" "nat i < length Y" "es = take (length es) (drop (Suc (nat i)) Y)"
  proof -
    obtain y ys where y: "drop (nat i) Y = y # ys" using Cons.prems(2)
      by (cases "drop (nat i) Y") auto
    then show "nat i < length Y" by (metis drop_all list.distinct(1) not_less)
    then have "drop (nat i) Y = Y ! nat i # drop (Suc (nat i)) Y" by (simp add: Cons_nth_drop_Suc)
    then show "e = Y ! nat i" "es = take (length es) (drop (Suc (nat i)) Y)"
      using Cons.prems(2) by auto
  qed
  show ?case
  proof (cases "i > lastIndex rf")
    case True
    then have "int (length F) \<le> i" using holds_lastIndex [OF h] by simp
    then have "length F = nat i" using Cons.prems(3) by simp
    then show ?thesis using True Cons.prems(4) by (simp add: min_absorb2)
  next
    case False
    then have lt: "i < int (length F)" using holds_lastIndex [OF h] by simp
    obtain e' where e': "entry rf i = Some e'" "leTerm e' = leTerm (F ! nat i)"
      using holds_entry [OF h _ lt] Cons.prems(1) by (metis less_imp_le)
    show ?thesis
    proof (cases "leTerm (F ! nat i) = leTerm (Y ! nat i)")
      case True
      have "take (Suc (nat i)) F = take (Suc (nat i)) Y"
        using matchingD [OF mt _ ey(2) True] lt i0 by simp
      moreover have "nat (i + 1) = Suc (nat i)" using i0 by simp
      ultimately have "\<exists>c. findConflict rf (i + 1) es = Some c \<and>
        (c = -1 \<and> take (min (nat (i + 1) + length es) (length F)) F =
                   take (min (nat (i + 1) + length es) (length F)) Y \<or>
         i + 1 \<le> c \<and> c < i + 1 + int (length es) \<and> c < int (length F) \<and>
         take (nat c) F = take (nat c) Y \<and> leTerm (F ! nat c) \<noteq> leTerm (Y ! nat c))"
        using Cons.prems(1) ey(3) lt by (intro Cons.IH) simp_all
      then show ?thesis
        using False e' True ey(1) i0 by (fastforce simp: nat_add_distrib)
    next
      case neq: False
      then show ?thesis
        using False e' ey(1) lt Cons.prems(4) by (intro exI [of _ i]) auto
    qed
  qed
qed

section \<open>Durability\<close>

text \<open>What is on disk is what is in memory; a peer that never wrote holds the initial values.\<close>

definition durable :: "('c, 'b) raft \<Rightarrow> bool" where
  "durable rf \<longleftrightarrow> ReadSnapshot (persister rf) = rsnapshot rf \<and>
     (ReadRaftState (persister rf) = Some (Encoded (image_of rf)) \<or>
      ReadRaftState (persister rf) = None \<and> currentTerm rf = 0 \<and> votedFor rf = -1 \<and>
      rlog rf = [sentinel] \<and> lastIncludeIndex rf = 0 \<and> lastIncludeTerm rf = 0)"

lemma durable_persist: "durable (persist rf)"
  by (simp add: durable_def persist_def image_of_def)


lemma slice_tail:
  assumes "es = take (length es) (drop (Suc p) Y)" "p + length es < length Y" "p < g" "g \<le> p + length es"
  shows "take g Y @ drop (g - Suc p) es = take (Suc (p + length es)) Y"
proof -
  have "drop (g - Suc p) es = drop (g - Suc p) (take (length es) (drop (Suc p) Y))"
    using assms(1) by simp
  also have "\<dots> = take (Suc (p + length es) - g) (drop g Y)"
    using assms(3,4) by (simp add: drop_take Suc_diff_le Suc_diff_Suc add.commute)
  finally have d: "drop (g - Suc p) es = take (Suc (p + length es) - g) (drop g Y)" .
  have "take (Suc (p + length es)) Y = take (g + (Suc (p + length es) - g)) Y" using assms(4) by simp
  then show ?thesis unfolding d by (simp only: take_add)
qed

text \<open>The second half of the append stage, on a log already cut back to what agrees.\<close>

lemma append_rest:
  assumes h: "holds rf G" and pp: "aePrevLogIndex args = int p" and "p < length G"
    and es: "aeEntries args = take (length (aeEntries args)) (drop (Suc p) Y)"
    and k: "K = p + length (aeEntries args)" "K < length Y"
    and G: "length G \<le> K \<Longrightarrow> G = take (length G) Y"
  shows "\<exists>rf'. (if lastIndex rf < aePrevLogIndex args + int (length (aeEntries args))
      then map_option (\<lambda>es. rf\<lparr>rlog := rlog rf @ es\<rparr>)
             (slice_from (aeEntries args) (lastIndex rf - aePrevLogIndex args))
      else Some rf) = Some rf' \<and> (\<exists>l. rf' = rf\<lparr>rlog := l\<rparr>) \<and>
      holds rf' (if length G \<le> K then take (Suc K) Y else G)"
proof (cases "length G \<le> K")
  case True
  let ?es = "drop (length G - Suc p) (aeEntries args)"
  have n: "nat (lastIndex rf - aePrevLogIndex args) = length G - Suc p"
    using holds_lastIndex [OF h] pp by simp
  have "0 \<le> lastIndex rf - aePrevLogIndex args"
    "lastIndex rf - aePrevLogIndex args \<le> int (length (aeEntries args))"
    using holds_lastIndex [OF h] pp True assms(3) k(1) by simp_all
  then have "slice_from (aeEntries args) (lastIndex rf - aePrevLogIndex args) = Some ?es"
    by (simp only: slice_from_in n)
  moreover have "lastIndex rf < aePrevLogIndex args + int (length (aeEntries args))"
    using holds_lastIndex [OF h] pp True k(1) by simp
  moreover have "G @ ?es = take (Suc K) Y"
    using slice_tail [OF es, of "length G"] k assms(3) G [OF True] True by simp
  ultimately show ?thesis using holds_append [OF h, of ?es] True by auto
next
  case False
  then have "\<not> lastIndex rf < aePrevLogIndex args + int (length (aeEntries args))"
    using holds_lastIndex [OF h] pp k(1) by simp
  then show ?thesis using False h by (auto intro!: exI [of _ "rlog rf"])
qed

lemma appendStage_adopt:
  assumes h: "holds rf F" and mt: "matching F Y" and dur: "durable rf"
    and pp: "aePrevLogIndex args = int p" and pF: "p < length F"
    and k: "K = p + length (aeEntries args)" "K < length Y"
    and es: "aeEntries args = take (length (aeEntries args)) (drop (Suc p) Y)"
    and i: "i = Suc (max p (nat (lastIncludeIndex rf)))" and agree: "take i F = take i Y"
  obtains l ps where "appendStage rf args = Some (rf\<lparr>rlog := l, persister := ps\<rparr>)"
    "holds (rf\<lparr>rlog := l, persister := ps\<rparr>) (adopt F Y K)"
    "durable (rf\<lparr>rlog := l, persister := ps\<rparr>)"
proof (cases "aeEntries args = []")
  case True
  have "take (Suc K) F = take (Suc K) Y"
    using True by (intro take_eq_mono [OF agree]) (simp add: k i)
  then have "adopt F Y K = F" by (simp add: adopt_def)
  then show ?thesis
    using True h dur that [where l = "rlog rf" and ps = "persister rf"] by (simp add: appendStage_def)
next
  case False
  let ?l = "nat (lastIncludeIndex rf)"
  have l0: "lastIncludeIndex rf = int ?l" "?l < length F" using holds_lii [OF h] by auto
  let ?k0 = "nat (max 0 (lastIncludeIndex rf - aePrevLogIndex args))"
  define es' where "es' = drop ?k0 (aeEntries args)"
  have ii: "aePrevLogIndex args + 1 + max 0 (lastIncludeIndex rf - aePrevLogIndex args) = int i"
    using holds_lii [OF h] by (auto simp: i pp max_def)
  have k0: "?k0 = i - Suc p" using ii pp by (simp add: i)
  have es'2: "es' = take (length es') (drop i Y)"
  proof (cases "?k0 \<le> length (aeEntries args)")
    case True
    have "drop i Y = drop ?k0 (drop (Suc p) Y)" using k0 i by (simp add: add.commute)
    then show ?thesis unfolding es'_def using es True by (metis drop_take length_drop)
  qed (simp add: es'_def)
  have iF: "i \<le> length F" using pF l0 by (auto simp: i)
  have li: "i + length es' = max (Suc K) i"
    using k0 by (auto simp: es'_def k i max_def)
  have li_i: "lastIncludeIndex rf < int i" using l0(1) by (simp add: i)
  obtain c where c: "findConflict rf (int i) es' = Some c"
    "c = -1 \<and> take (min (i + length es') (length F)) F = take (min (i + length es') (length F)) Y \<or>
     int i \<le> c \<and> c < int (i + length es') \<and> c < int (length F) \<and>
     take (nat c) F = take (nat c) Y \<and> leTerm (F ! nat c) \<noteq> leTerm (Y ! nat c)"
    using findConflict_spec [OF h mt, of "int i" es'] li_i es'2 iF agree
    unfolding nat_int by auto
  define stage1 where "stage1 = (if c \<ge> 0
      then map_option (\<lambda>l. rf\<lparr>rlog := l\<rparr>) (slice_to (rlog rf) (logIdx rf c)) else Some rf)"
  define G where "G = (if c \<ge> 0 then take (nat c) F else F)"
  have s1: "\<exists>l1. stage1 = Some (rf\<lparr>rlog := l1\<rparr>) \<and> holds (rf\<lparr>rlog := l1\<rparr>) G"
  proof (cases "c \<ge> 0")
    case True
    then have "lastIncludeIndex rf < c" "c \<le> int (length F)" using c(2) l0 by (auto simp: i)
    with True show ?thesis using holds_cut [OF h] unfolding stage1_def G_def by fastforce
  next
    case False
    then show ?thesis using h unfolding stage1_def G_def by (auto intro!: exI [of _ "rlog rf"])
  qed
  have pG: "p < length G" using pF c(2) by (auto simp: G_def i)
  have GY: "G = take (length G) Y" if "length G \<le> K"
  proof (cases "c \<ge> 0")
    case True
    then have cF: "nat c \<le> length F" "take (nat c) F = take (nat c) Y" using c(2) by auto
    have "length G = nat c" using True cF(1) by (simp add: G_def)
    moreover have "G = take (nat c) F" using True by (simp add: G_def)
    ultimately show ?thesis using cF(2) by metis
  next
    case False
    then show ?thesis using c(2) that li by (auto simp: G_def min_absorb2)
  qed
  have res: "(if length G \<le> K then take (Suc K) Y else G) = adopt F Y K"
  proof (cases "c \<ge> 0")
    case True
    then have cc: "nat c \<le> K" "nat c < length F" "leTerm (F ! nat c) \<noteq> leTerm (Y ! nat c)"
      using c(2) li by auto
    then have "take (Suc K) F \<noteq> take (Suc K) Y" using take_eq_nth [of "Suc K" F Y "nat c"] by auto
    then show ?thesis using True cc by (simp add: adopt_def G_def)
  next
    case False
    then have "G = F" and t: "take (min (max (Suc K) i) (length F)) F = take (min (max (Suc K) i) (length F)) Y"
      using c(2) li by (auto simp: G_def)
    show ?thesis
    proof (cases "length F \<le> K")
      case True
      then have "take (Suc K) F \<noteq> take (Suc K) Y" using k(2)
        by (metis Suc_leI length_take min.absorb2 not_less_eq_eq take_eq_length)
      then show ?thesis using True \<open>G = F\<close> by (simp add: adopt_def)
    next
      case False
      then have "take (Suc K) F = take (Suc K) Y" by (intro take_eq_mono [OF t]) auto
      then show ?thesis using False \<open>G = F\<close> by (simp add: adopt_def)
    qed
  qed
  obtain l1 where l1: "stage1 = Some (rf\<lparr>rlog := l1\<rparr>)" "holds (rf\<lparr>rlog := l1\<rparr>) G" using s1 by blast
  obtain rf' l2 where r: "(if lastIndex (rf\<lparr>rlog := l1\<rparr>) < aePrevLogIndex args + int (length (aeEntries args))
      then map_option (\<lambda>es. (rf\<lparr>rlog := l1\<rparr>)\<lparr>rlog := rlog (rf\<lparr>rlog := l1\<rparr>) @ es\<rparr>)
             (slice_from (aeEntries args) (lastIndex (rf\<lparr>rlog := l1\<rparr>) - aePrevLogIndex args))
      else Some (rf\<lparr>rlog := l1\<rparr>)) = Some rf'" "rf' = rf\<lparr>rlog := l2\<rparr>" "holds rf' (adopt F Y K)"
    using append_rest [OF l1(2) pp pG es k GY] unfolding res by fastforce
  have "appendStage rf args = Some (persist rf')"
    using False c(1) l1(1) r(1) by (simp add: appendStage_def stage1_def es'_def ii Let_def)
  moreover have "holds (persist rf') (adopt F Y K)"
    by (rule holds_cong [OF r(3)]) (simp_all add: persist_def)
  ultimately show ?thesis
    using that [where l = l2 and ps = "Save (persister rf) (Some (Encoded (image_of rf'))) (rsnapshot rf)"] r(2)
      durable_persist [of rf'] by (simp add: persist_def)
qed

section \<open>The local invariant of a peer\<close>

definition leader_ok :: "nat \<Rightarrow> ('c, 'b) raft \<Rightarrow> nat \<Rightarrow> bool" where
  "leader_ok n rf len \<longleftrightarrow>
     length (nextIndex rf) = n \<and> length (matchIndex rf) = n \<and>
     (rstate rf = Leader \<longrightarrow> (\<forall>q < n. 1 \<le> nextIndex rf ! q \<and> nextIndex rf ! q \<le> int len \<and>
        0 \<le> matchIndex rf ! q \<and> matchIndex rf ! q < int len))"

definition pending_ok :: "('c, 'b) raft \<Rightarrow> 'c LogEntry list \<Rightarrow> bool" where
  "pending_ok rf F \<longleftrightarrow> (pendingSnapshot rf \<noteq> None \<longrightarrow>
     0 < pendingSnapshotIndex rf \<and> pendingSnapshotIndex rf = applyIndex rf \<and>
     pendingSnapshotTerm rf = leTerm (F ! nat (pendingSnapshotIndex rf)))"

definition node_ok :: "nat \<Rightarrow> nat \<Rightarrow> ('c, 'b) raft \<Rightarrow> 'c LogEntry list \<Rightarrow> bool" where
  "node_ok n p rf F \<longleftrightarrow>
     npeers rf = n \<and> me rf = p \<and> p < n \<and> 0 \<le> currentTerm rf \<and> holds rf F \<and> durable rf \<and>
     lastIncludeIndex rf \<le> applyIndex rf \<and> applyIndex rf \<le> commitIndex rf \<and>
     commitIndex rf < int (length F) \<and> (0 < lastIncludeIndex rf \<longrightarrow> rsnapshot rf \<noteq> None) \<and>
     leader_ok n rf (length F) \<and> pending_ok rf F"

lemma node_okD:
  assumes "node_ok n p rf F"
  shows "npeers rf = n" "me rf = p" "p < n" "0 \<le> currentTerm rf" "holds rf F" "durable rf"
    "lastIncludeIndex rf \<le> applyIndex rf" "applyIndex rf \<le> commitIndex rf"
    "commitIndex rf < int (length F)" "0 < lastIncludeIndex rf \<Longrightarrow> rsnapshot rf \<noteq> None"
    "leader_ok n rf (length F)" "pending_ok rf F"
    "0 \<le> lastIncludeIndex rf" "lastIndex rf = int (length F) - 1"
    "lastTerm rf = Some (leTerm (last F))" "0 \<le> commitIndex rf" "0 \<le> applyIndex rf"
proof -
  show h: "holds rf F" using assms by (simp add: node_ok_def)
  show "0 \<le> lastIncludeIndex rf" "lastIndex rf = int (length F) - 1"
    "lastTerm rf = Some (leTerm (last F))"
    using holds_lii [OF h] holds_lastIndex [OF h] holds_lastTerm [OF h] by simp_all
qed (use assms in \<open>auto simp: node_ok_def holds_def\<close>)

lemma node_okI:
  assumes "npeers rf = n" "me rf = p" "p < n" "0 \<le> currentTerm rf" "holds rf F" "durable rf"
    "lastIncludeIndex rf \<le> applyIndex rf" "applyIndex rf \<le> commitIndex rf"
    "commitIndex rf < int (length F)" "0 < lastIncludeIndex rf \<Longrightarrow> rsnapshot rf \<noteq> None"
    "leader_ok n rf (length F)" "pending_ok rf F"
  shows "node_ok n p rf F"
  using assms by (simp add: node_ok_def)

lemma persist_fields [simp]:
  "currentTerm (persist rf) = currentTerm rf" "votedFor (persist rf) = votedFor rf"
  "rstate (persist rf) = rstate rf" "rlog (persist rf) = rlog rf"
  "commitIndex (persist rf) = commitIndex rf" "applyIndex (persist rf) = applyIndex rf"
  "lastIncludeIndex (persist rf) = lastIncludeIndex rf"
  "lastIncludeTerm (persist rf) = lastIncludeTerm rf" "npeers (persist rf) = npeers rf"
  "me (persist rf) = me rf" "nextIndex (persist rf) = nextIndex rf"
  "matchIndex (persist rf) = matchIndex rf" "rsnapshot (persist rf) = rsnapshot rf"
  "pendingSnapshot (persist rf) = pendingSnapshot rf"
  "pendingSnapshotIndex (persist rf) = pendingSnapshotIndex rf"
  "pendingSnapshotTerm (persist rf) = pendingSnapshotTerm rf"
  "voteCount (persist rf) = voteCount rf" "lastIndex (persist rf) = lastIndex rf"
  "lastTerm (persist rf) = lastTerm rf"
  by (simp_all add: persist_def lastIndex_def lastTerm_def)

lemma holds_fields [simp]:
  "holds (persist rf) F = holds rf F" "holds (rf\<lparr>currentTerm := t\<rparr>) F = holds rf F"
  "holds (rf\<lparr>votedFor := v\<rparr>) F = holds rf F" "holds (rf\<lparr>rstate := st\<rparr>) F = holds rf F"
  "holds (rf\<lparr>lastContact := now\<rparr>) F = holds rf F"
  "holds (rf\<lparr>electionTimeout := now\<rparr>) F = holds rf F"
  "holds (rf\<lparr>voteCount := k\<rparr>) F = holds rf F" "holds (rf\<lparr>commitIndex := k\<rparr>) F = holds rf F"
  "holds (rf\<lparr>applyIndex := k\<rparr>) F = holds rf F" "holds (rf\<lparr>nextIndex := ks\<rparr>) F = holds rf F"
  "holds (rf\<lparr>matchIndex := ks\<rparr>) F = holds rf F" "holds (rf\<lparr>rsnapshot := sn\<rparr>) F = holds rf F"
  "holds (rf\<lparr>pendingSnapshot := sn\<rparr>) F = holds rf F" "holds (rf\<lparr>notify := bs\<rparr>) F = holds rf F"
  by (simp_all add: holds_def persist_def)

lemma durable_fields [simp]:
  "durable (persist rf)" "durable (rf\<lparr>rstate := st\<rparr>) = durable rf"
  "durable (rf\<lparr>lastContact := now\<rparr>) = durable rf"
  "durable (rf\<lparr>electionTimeout := now\<rparr>) = durable rf"
  "durable (rf\<lparr>voteCount := k\<rparr>) = durable rf" "durable (rf\<lparr>commitIndex := k\<rparr>) = durable rf"
  "durable (rf\<lparr>applyIndex := k\<rparr>) = durable rf" "durable (rf\<lparr>nextIndex := ks\<rparr>) = durable rf"
  "durable (rf\<lparr>matchIndex := ks\<rparr>) = durable rf" "durable (rf\<lparr>notify := bs\<rparr>) = durable rf"
  "durable (rf\<lparr>pendingSnapshot := sn\<rparr>) = durable rf"
  by (simp_all add: durable_def durable_persist image_of_def, simp_all add: persist_def image_of_def)

lemma signalOthers_fields:
  "\<exists>bs. signalOthers is rf = rf\<lparr>notify := bs\<rparr>"
proof (induction "is" arbitrary: rf)
  case Nil
  show ?case by (auto intro: exI [of _ "notify rf"])
next
  case (Cons i "is")
  obtain bs where "(if i \<noteq> me rf then signal rf i else rf) = rf\<lparr>notify := bs\<rparr>"
    by (cases "i \<noteq> me rf") (auto simp: signal_def intro: that [of "notify rf"])
  with Cons [of "rf\<lparr>notify := bs\<rparr>"] show ?case by auto
qed

text \<open>The changes every handler makes before it looks at the log.\<close>

lemma node_ok_raise:
  "node_ok n p rf F \<Longrightarrow> currentTerm rf < t \<Longrightarrow>
   node_ok n p (persist (rf\<lparr>currentTerm := t, votedFor := v\<rparr>)) F"
  by (auto simp: node_ok_def leader_ok_def pending_ok_def)

lemma node_ok_state:
  "node_ok n p rf F \<Longrightarrow> st \<noteq> Leader \<or> rstate rf = Leader \<Longrightarrow> node_ok n p (rf\<lparr>rstate := st\<rparr>) F"
  by (auto simp: node_ok_def leader_ok_def pending_ok_def)

lemma node_ok_timers [simp]:
  "node_ok n p (rf\<lparr>lastContact := now\<rparr>) F = node_ok n p rf F"
  "node_ok n p (rf\<lparr>electionTimeout := now\<rparr>) F = node_ok n p rf F"
  "node_ok n p (rf\<lparr>voteCount := k\<rparr>) F = node_ok n p rf F"
  "node_ok n p (rf\<lparr>notify := bs\<rparr>) F = node_ok n p rf F"
  by (simp_all add: node_ok_def leader_ok_def pending_ok_def)

lemma node_ok_persist: "node_ok n p rf F \<Longrightarrow> node_ok n p (persist rf) F"
  by (auto simp: node_ok_def leader_ok_def pending_ok_def)

lemma node_ok_next:
  "node_ok n p rf F \<Longrightarrow> leader_ok n (rf\<lparr>nextIndex := ni\<rparr>) (length F) \<Longrightarrow>
   node_ok n p (rf\<lparr>nextIndex := ni\<rparr>) F"
  by (auto simp: node_ok_def pending_ok_def)

lemma node_ok_commit:
  "node_ok n p rf F \<Longrightarrow> commitIndex rf \<le> c \<Longrightarrow> c < int (length F) \<Longrightarrow>
   node_ok n p (rf\<lparr>commitIndex := c\<rparr>) F"
  by (auto simp: node_ok_def leader_ok_def pending_ok_def)

section \<open>Each operation on the local invariant\<close>

text \<open>Nothing changed that votes, leadership or commitment depend on.\<close>

definition same_role :: "('c, 'b) raft \<Rightarrow> ('c, 'b) raft \<Rightarrow> bool" where
  "same_role rf rf' \<longleftrightarrow>
     currentTerm rf' = currentTerm rf \<and> votedFor rf' = votedFor rf \<and> rstate rf' = rstate rf \<and>
     voteCount rf' = voteCount rf \<and> commitIndex rf' = commitIndex rf \<and>
     matchIndex rf' = matchIndex rf"

lemma grant_ok:
  "node_ok n p rf F \<Longrightarrow>
   node_ok n p (persist (rf\<lparr>votedFor := c, rstate := Follower, lastContact := now,
     electionTimeout := d\<rparr>)) F"
  by (auto simp: node_ok_def leader_ok_def pending_ok_def)

lemma startElection_ok:
  assumes ok: "node_ok n p rf F" and "rstate rf \<noteq> Leader"
  shows "\<exists>rf'. startElection now rnd rf = Some (rf',
      Some \<lparr>rvTerm = currentTerm rf + 1, rvCandidateId = int p,
            rvLastLogIndex = int (length F) - 1, rvLastLogTerm = leTerm (last F)\<rparr>) \<and>
    node_ok n p rf' F \<and> currentTerm rf' = currentTerm rf + 1 \<and> votedFor rf' = int p \<and>
    rstate rf' = Candidate \<and> voteCount rf' = 1 \<and> commitIndex rf' = commitIndex rf"
proof -
  let ?rf = "rf\<lparr>rstate := Candidate, currentTerm := currentTerm rf + 1, votedFor := int (me rf),
    voteCount := 1, lastContact := now, electionTimeout := randomElectionTimeout rnd\<rparr>"
  note D = node_okD [OF ok]
  have "lastTerm ?rf = Some (leTerm (last F))" "lastIndex ?rf = int (length F) - 1"
    using D(14,15) by (simp_all add: lastTerm_def lastIndex_def)
  moreover have "node_ok n p (persist ?rf) F"
    using ok assms(2) by (auto simp: node_ok_def leader_ok_def pending_ok_def)
  ultimately show ?thesis using assms(2) D(2) by (simp add: startElection_def)
qed

lemma snapshot_ok:
  assumes ok: "node_ok n p rf F"
  shows "\<exists>rf'. rf_Snapshot rf index (Some d) = Some rf' \<and> node_ok n p rf' F \<and>
    same_role rf rf' \<and> applyIndex rf' = applyIndex rf \<and> pendingSnapshot rf' = pendingSnapshot rf"
proof (cases "index \<le> lastIncludeIndex rf \<or> index > lastIndex rf \<or> index > applyIndex rf")
  case True
  then have "rf_Snapshot rf index (Some d) = Some rf" by (auto simp: rf_Snapshot_def)
  then show ?thesis using ok by (simp add: same_role_def)
next
  case False
  note D = node_okD [OF ok]
  from False have i: "lastIncludeIndex rf \<le> index" "index < int (length F)" "index \<le> applyIndex rf"
    "0 < index" using D(13,14) by auto
  obtain l where l: "truncateFront rf index = Some (rf\<lparr>rlog := l\<rparr>)" "l \<noteq> []"
    "leTerm (hd l) = leTerm (F ! nat index)" "tl l = drop (Suc (nat index)) F"
    using holds_truncateFront [OF D(5) i(1,2)] by blast
  let ?rf = "rf\<lparr>rlog := l, lastIncludeIndex := index, lastIncludeTerm := leTerm (hd l),
    rsnapshot := Some d\<rparr>"
  have "rf_Snapshot rf index (Some d) = Some (persist ?rf)"
    using False l(1,2) by (simp add: rf_Snapshot_def slice_get_def hd_conv_nth)
  moreover have "holds ?rf F" using l i by (simp add: holds_def)
  then have "node_ok n p (persist ?rf) F"
    using ok i by (auto simp: node_ok_def leader_ok_def pending_ok_def)
  ultimately show ?thesis by (simp add: same_role_def)
qed

text \<open>What the replicator sends describes the leader's log.\<close>

lemma replicator_ok:
  assumes ok: "node_ok n p rf F" and q: "q < n"
  shows "case replicator rf q of
      None \<Rightarrow> False
    | Some NoSend \<Rightarrow> rstate rf \<noteq> Leader
    | Some (SendInstall args) \<Rightarrow> rstate rf = Leader \<and>
        isTerm args = currentTerm rf \<and> isLeaderId args = int p \<and>
        0 < isLastIncludeIndex args \<and> isLastIncludeIndex args \<le> commitIndex rf \<and>
        isLastIncludeTerm args = leTerm (F ! nat (isLastIncludeIndex args)) \<and>
        isData args \<noteq> None \<and> isLastIncludeIndex args = lastIncludeIndex rf \<and>
        isData args = rsnapshot rf
    | Some (SendAppend args) \<Rightarrow> rstate rf = Leader \<and>
        aeTerm args = currentTerm rf \<and> aeLeaderId args = int p \<and> 0 \<le> aePrevLogIndex args \<and>
        nat (aePrevLogIndex args) + length (aeEntries args) < length F \<and>
        aePrevLogTerm args = leTerm (F ! nat (aePrevLogIndex args)) \<and>
        aeEntries args = take (length (aeEntries args)) (drop (Suc (nat (aePrevLogIndex args))) F) \<and>
        aeLeaderCommit args = commitIndex rf"
proof (cases "rstate rf = Leader")
  case False
  then show ?thesis by (simp add: replicator_def)
next
  case True
  note D = node_okD [OF ok]
  let ?next = "nextIndex rf ! q"
  have nx: "slice_get (nextIndex rf) (int q) = Some ?next" "1 \<le> ?next" "?next \<le> int (length F)"
    using D(11) q True by (auto simp: leader_ok_def slice_get_def)
  show ?thesis
  proof (cases "?next \<le> lastIncludeIndex rf")
    case le: True
    moreover have "lastIncludeTerm rf = leTerm (F ! nat (lastIncludeIndex rf))"
      using D(5) by (simp add: holds_def)
    moreover have "0 < lastIncludeIndex rf" "lastIncludeIndex rf \<le> commitIndex rf"
      using le nx(2) D(7,8) by simp_all
    ultimately show ?thesis using True nx(1) D(2) D(10) by (simp add: replicator_def)
  next
    case False
    obtain e where e: "entry rf (?next - 1) = Some e" "leTerm e = leTerm (F ! nat (?next - 1))"
    proof -
      have "lastIncludeIndex rf \<le> ?next - 1" "?next - 1 < int (length F)"
        using False nx by simp_all
      then show ?thesis using holds_entry [OF D(5)] that by blast
    qed
    have s: "Suc (nat (?next - 1)) = nat ?next" using nx(2) by simp
    show ?thesis
    proof (cases "lastIndex rf \<ge> ?next")
      case in_log: True
      let ?hi = "min (lastIndex rf + 1) (?next + maxBatchSize)"
      have hi: "?next \<le> ?hi" "?hi \<le> int (length F)" using in_log D(14) by (auto simp: maxBatchSize_def)
      have es: "entries rf ?next ?hi = Some (take (nat ?hi - nat ?next) (drop (nat ?next) F))"
        using holds_entries [OF D(5) _ hi] False by simp
      define es where "es = take (nat ?hi - nat ?next) (drop (nat ?next) F)"
      have len: "length es = nat ?hi - nat ?next" unfolding es_def using hi nx(2) by simp
      then have k: "nat (?next - 1) + length es < length F" using hi nx(2) by linarith
      have es2: "es = take (length es) (drop (Suc (nat (?next - 1))) F)"
        unfolding len unfolding es_def s by simp
      have "replicator rf q = Some (SendAppend
          \<lparr>aeTerm = currentTerm rf, aeLeaderId = int p, aePrevLogIndex = ?next - 1,
           aePrevLogTerm = leTerm e, aeEntries = es, aeLeaderCommit = commitIndex rf\<rparr>)"
        using True False nx(1) e(1) es in_log D(2) unfolding es_def [symmetric]
        by (simp add: replicator_def)
      then show ?thesis using True k es2 e(2) nx(2) by simp
    next
      case out: False
      then show ?thesis using True False nx e D(2) by (simp add: replicator_def)
    qed
  qed
qed

lemma applier_ok:
  assumes ok: "node_ok n p rf F"
  shows "\<exists>rf' ms. applier rf = Some (rf', ms) \<and> node_ok n p rf' F \<and> same_role rf rf' \<and>
    (pendingSnapshot rf \<noteq> None \<longrightarrow> rf' = rf\<lparr>pendingSnapshot := None\<rparr> \<and>
       ms = [\<lparr>CommandValid = False, Command = None, CommandIndex = 0, SnapshotValid = True,
              SnapshotData = pendingSnapshot rf, SnapshotTerm = pendingSnapshotTerm rf,
              SnapshotIndex = pendingSnapshotIndex rf\<rparr>]) \<and>
    (pendingSnapshot rf = None \<longrightarrow> rf' = rf\<lparr>applyIndex := commitIndex rf\<rparr> \<and>
       ms = map (\<lambda>i. \<lparr>CommandValid = True, Command = leCommand (F ! i), CommandIndex = int i,
              SnapshotValid = False, SnapshotData = None, SnapshotTerm = 0, SnapshotIndex = 0\<rparr>)
            [nat (applyIndex rf + 1)..<nat (commitIndex rf + 1)])"
proof -
  note D = node_okD [OF ok]
  consider (snap) "pendingSnapshot rf \<noteq> None"
    | (idle) "pendingSnapshot rf = None" "applyIndex rf \<ge> commitIndex rf"
    | (batch) "pendingSnapshot rf = None" "applyIndex rf < commitIndex rf" by fastforce
  then show ?thesis
  proof cases
    case snap
    then obtain d where d: "pendingSnapshot rf = Some d" by auto
    have "node_ok n p (rf\<lparr>pendingSnapshot := None\<rparr>) F"
      using ok by (auto simp: node_ok_def leader_ok_def pending_ok_def)
    moreover have "applier rf = Some (rf\<lparr>pendingSnapshot := None\<rparr>,
        [\<lparr>CommandValid = False, Command = None, CommandIndex = 0, SnapshotValid = True,
          SnapshotData = pendingSnapshot rf, SnapshotTerm = pendingSnapshotTerm rf,
          SnapshotIndex = pendingSnapshotIndex rf\<rparr>])"
      using d by (simp add: applier_def)
    ultimately show ?thesis using d by (simp add: same_role_def)
  next
    case idle
    then have "applyIndex rf = commitIndex rf" using D(8) by simp
    then show ?thesis using ok idle by (simp add: applier_def same_role_def)
  next
    case batch
    let ?lo = "applyIndex rf + 1" and ?hi = "commitIndex rf + 1"
    let ?B = "take (nat ?hi - nat ?lo) (drop (nat ?lo) F)"
    have "entries rf ?lo ?hi = Some ?B"
      using batch D(7,9) by (intro holds_entries [OF D(5)]) auto
    moreover have "map (\<lambda>(k, e). \<lparr>CommandValid = True, Command = leCommand e,
          CommandIndex = ?lo + int k, SnapshotValid = False, SnapshotData = None :: 'b option,
          SnapshotTerm = 0, SnapshotIndex = 0\<rparr>) (enumerate 0 ?B) =
        map (\<lambda>i. \<lparr>CommandValid = True, Command = leCommand (F ! i), CommandIndex = int i,
          SnapshotValid = False, SnapshotData = None, SnapshotTerm = 0, SnapshotIndex = 0\<rparr>)
        [nat ?lo..<nat ?hi]"
      using batch D(9,17) by (intro nth_equalityI) (auto simp: nth_enumerate_eq)
    moreover have "node_ok n p (rf\<lparr>applyIndex := commitIndex rf\<rparr>) F"
      using ok batch by (auto simp: node_ok_def leader_ok_def pending_ok_def)
    ultimately show ?thesis using batch by (simp add: applier_def same_role_def Let_def)
  qed
qed

lemma Start_ok:
  assumes ok: "node_ok n p rf F" and l: "rstate rf = Leader"
  shows "\<exists>rf'. Start rf c = (rf', int (length F), currentTerm rf, True) \<and>
    node_ok n p rf' (F @ [\<lparr>leTerm = currentTerm rf, leCommand = Some c\<rparr>]) \<and> same_role rf rf'"
proof -
  note D = node_okD [OF ok]
  let ?e = "\<lparr>leTerm = currentTerm rf, leCommand = Some c\<rparr>"
  let ?rf = "persist (rf\<lparr>rlog := rlog rf @ [?e]\<rparr>)"
  obtain bs where bs: "signalOthers [0..<npeers ?rf] ?rf = ?rf\<lparr>notify := bs\<rparr>"
    using signalOthers_fields by blast
  have "holds (rf\<lparr>rlog := rlog rf @ [?e]\<rparr>) (F @ [?e])" by (rule holds_append [OF D(5)])
  then have "node_ok n p ?rf (F @ [?e])"
    using ok by (intro node_okI)
      (auto simp: node_ok_def leader_ok_def pending_ok_def nth_append)
  then show ?thesis
    using l bs D(14) by (simp add: Start_def Let_def same_role_def)
qed

lemma becomeLeader_ok:
  assumes ok: "node_ok n p rf F"
  shows "\<exists>rf'. becomeLeader rf = Some rf' \<and> node_ok n p rf' F \<and> rstate rf' = Leader \<and>
    currentTerm rf' = currentTerm rf \<and> votedFor rf' = votedFor rf \<and>
    commitIndex rf' = commitIndex rf \<and> (\<forall>q < n. q \<noteq> p \<longrightarrow> matchIndex rf' ! q = 0)"
proof -
  note D = node_okD [OF ok]
  have F: "Suc 0 \<le> length F" using D(5) by (auto simp: holds_def)
  let ?m = "(map (\<lambda>_. 0) [0..<npeers rf])[me rf := lastIndex rf] :: int list"
  let ?rf = "rf\<lparr>rstate := Leader, nextIndex := map (\<lambda>_. lastIndex rf + 1) [0..<npeers rf],
    matchIndex := ?m\<rparr>"
  obtain bs where bs: "signalOthers [0..<npeers rf] ?rf = ?rf\<lparr>notify := bs\<rparr>"
    using signalOthers_fields by blast
  have "becomeLeader rf = Some (?rf\<lparr>notify := bs\<rparr>)"
    using D(1-3) bs by (simp add: becomeLeader_def slice_set_def Let_def)
  moreover have "leader_ok n ?rf (length F)"
    using D(1,2,3,14) F by (auto simp: leader_ok_def nth_list_update)
  then have "node_ok n p ?rf F"
    using ok by (auto simp: node_ok_def pending_ok_def)
  ultimately show ?thesis using D(1,2) by simp
qed

text \<open>At least \<open>n - k\<close> values are as large as the one at position \<open>k\<close> of the sorted list.\<close>

lemma sorted_position_count:
  fixes m :: "int list"
  assumes "k < length m"
  shows "length m - k \<le> card {q. q < length m \<and> sort m ! k \<le> m ! q}"
proof -
  let ?P = "\<lambda>x. sort m ! k \<le> x"
  have "length m - k = length (drop k (sort m))" by simp
  also have "\<dots> = length (filter ?P (drop k (sort m)))"
  proof -
    have "\<forall>x \<in> set (drop k (sort m)). ?P x"
      using assms by (auto simp: in_set_conv_nth intro!: sorted_nth_mono)
    then show ?thesis by simp
  qed
  also have "\<dots> \<le> length (filter ?P (take k (sort m) @ drop k (sort m)))"
    by (simp only: filter_append length_append)
  also have "\<dots> = length (filter ?P m)"
    by (metis append_take_drop_id size_mset mset_filter mset_sort)
  also have "\<dots> = card {q. q < length m \<and> ?P (m ! q)}"
    by (simp add: length_filter_conv_card)
  finally show ?thesis .
qed

lemma advanceCommitIndex_ok:
  assumes ok: "node_ok n p rf F"
  shows "\<exists>c. advanceCommitIndex rf = Some (rf\<lparr>commitIndex := c\<rparr>) \<and>
    node_ok n p (rf\<lparr>commitIndex := c\<rparr>) F \<and>
    (c = commitIndex rf \<or> rstate rf = Leader \<and> commitIndex rf < c \<and> c < int (length F) \<and>
       leTerm (F ! nat c) = currentTerm rf \<and>
       n - n div 2 \<le> card {q. q < n \<and> (q = p \<or> c \<le> matchIndex rf ! q)})"
proof (cases "rstate rf = Leader")
  case False
  then show ?thesis using ok by (intro exI [of _ "commitIndex rf"]) (simp add: advanceCommitIndex_def)
next
  case True
  note D = node_okD [OF ok]
  have len: "length (matchIndex rf) = n" and mi: "\<forall>q < n. matchIndex rf ! q < int (length F)"
    using D(11) True by (auto simp: leader_ok_def)
  let ?m = "(matchIndex rf)[p := lastIndex rf]"
  define c where "c = sort ?m ! (n div 2)"
  have n2: "n div 2 < n" using D(3) by simp
  have "c \<in> set (sort ?m)" unfolding c_def using n2 len by (intro nth_mem) simp
  then obtain q where "q < n" "c = ?m ! q" using len by (auto simp: in_set_conv_nth)
  then have cF: "c < int (length F)"
    using mi D(14) len by (cases "q = p") auto
  have adv: "advanceCommitIndex rf = (if c > commitIndex rf then do {
          e \<leftarrow> entry rf c;
          Some (if leTerm e = currentTerm rf then rf\<lparr>commitIndex := c\<rparr> else rf)
        } else Some rf)"
  proof -
    have "slice_set (matchIndex rf) (int (me rf)) (lastIndex rf) = Some ?m"
      using D(2,3) len by (simp add: slice_set_def)
    moreover have "int (length ?m) div 2 = int (n div 2)" using len by (simp add: zdiv_int)
    then have "slice_get (sort ?m) (int (length ?m) div 2) = Some c"
      using n2 len by (simp add: slice_get_def c_def)
    ultimately show ?thesis using True by (simp add: advanceCommitIndex_def)
  qed
  show ?thesis
  proof (cases "c > commitIndex rf")
    case gt: True
    then obtain e where e: "entry rf c = Some e" "leTerm e = leTerm (F ! nat c)"
      using holds_entry [OF D(5) _ cF] D(7,8) by (metis less_imp_le order.trans)
    show ?thesis
    proof (cases "leTerm e = currentTerm rf")
      case eq: True
      have "n - n div 2 \<le> card {q. q < n \<and> c \<le> ?m ! q}"
        using sorted_position_count [of "n div 2" ?m] len n2 by (simp add: c_def)
      also have "\<dots> \<le> card {q. q < n \<and> (q = p \<or> c \<le> matchIndex rf ! q)}"
        proof (rule card_mono)
        show "{q. q < n \<and> c \<le> ?m ! q} \<subseteq> {q. q < n \<and> (q = p \<or> c \<le> matchIndex rf ! q)}"
        proof
          fix q assume "q \<in> {q. q < n \<and> c \<le> ?m ! q}"
          then show "q \<in> {q. q < n \<and> (q = p \<or> c \<le> matchIndex rf ! q)}"
            by (cases "q = p") auto
        qed
      qed simp
      finally have q: "n - n div 2 \<le> card {q. q < n \<and> (q = p \<or> c \<le> matchIndex rf ! q)}" .
      have "node_ok n p (rf\<lparr>commitIndex := c\<rparr>) F"
        using ok gt cF by (auto simp: node_ok_def leader_ok_def pending_ok_def)
      then show ?thesis using True gt cF eq e q adv by (intro exI [of _ c]) simp
    next
      case False
      then show ?thesis using e gt adv ok by (intro exI [of _ "commitIndex rf"]) simp
    qed
  next
    case False
    then show ?thesis using adv ok by (intro exI [of _ "commitIndex rf"]) simp
  qed
qed

lemma node_ok_adopt:
  assumes ok: "node_ok n p rf F" and st: "rstate rf \<noteq> Leader"
    and ci: "take (Suc (nat (commitIndex rf))) F = take (Suc (nat (commitIndex rf))) Y"
    and h: "holds (rf\<lparr>rlog := l, persister := ps\<rparr>) (adopt F Y K)"
    and d: "durable (rf\<lparr>rlog := l, persister := ps\<rparr>)"
  shows "node_ok n p (rf\<lparr>rlog := l, persister := ps\<rparr>) (adopt F Y K)"
proof -
  note D = node_okD [OF ok]
  let ?c = "nat (commitIndex rf)"
  have t: "take (Suc ?c) (adopt F Y K) = take (Suc ?c) F" by (rule adopt_keeps [OF ci])
  have len: "?c < length (adopt F Y K)"
    using take_eq_length [OF t [symmetric]] D(9,16) by linarith
  have "pending_ok (rf\<lparr>rlog := l, persister := ps\<rparr>) (adopt F Y K)"
  proof -
    have "adopt F Y K ! i = F ! i" if "i \<le> ?c" for i
      using take_eq_nth [OF t, of i] that len by simp
    moreover have "nat (applyIndex rf) \<le> ?c" using D(8) by simp
    ultimately show ?thesis using D(12) by (auto simp: pending_ok_def)
  qed
  then show ?thesis
    using ok h d st len by (auto simp: node_ok_def leader_ok_def)
qed

lemma append_ok:
  assumes ok: "node_ok n p rf F" and st: "rstate rf \<noteq> Leader" and mt: "matching F Y"
    and pp: "aePrevLogIndex args = int k" and kF: "k < length F"
    and K: "K = k + length (aeEntries args)" "K < length Y"
    and es: "aeEntries args = take (length (aeEntries args)) (drop (Suc k) Y)"
    and ci: "take (Suc (nat (commitIndex rf))) F = take (Suc (nat (commitIndex rf))) Y"
    and ag: "take (Suc k) F = take (Suc k) Y"
  shows "\<exists>rf'. appendStage rf args = Some rf' \<and> node_ok n p rf' (adopt F Y K) \<and> same_role rf rf'"
proof -
  note D = node_okD [OF ok]
  have "take (Suc (nat (lastIncludeIndex rf))) F = take (Suc (nat (lastIncludeIndex rf))) Y"
    using D(7,8) by (intro take_eq_mono [OF ci]) simp
  with ag have "take (Suc (max k (nat (lastIncludeIndex rf)))) F =
      take (Suc (max k (nat (lastIncludeIndex rf)))) Y"
    by (simp only: max_def split: if_split) simp
  then obtain l ps where "appendStage rf args = Some (rf\<lparr>rlog := l, persister := ps\<rparr>)"
    "holds (rf\<lparr>rlog := l, persister := ps\<rparr>) (adopt F Y K)"
    "durable (rf\<lparr>rlog := l, persister := ps\<rparr>)"
    using appendStage_adopt [OF D(5) mt D(6) pp kF K es refl] by blast
  moreover from this(2,3) have "node_ok n p (rf\<lparr>rlog := l, persister := ps\<rparr>) (adopt F Y K)"
    by (rule node_ok_adopt [OF ok st ci])
  moreover have "same_role rf (rf\<lparr>rlog := l, persister := ps\<rparr>)" by (simp add: same_role_def)
  ultimately show ?thesis by blast
qed

lemma commitStage_ok:
  assumes ok: "node_ok n p rf F"
    and K: "aePrevLogIndex args + int (length (aeEntries args)) < int (length F)"
  shows "node_ok n p (commitStage rf args) F \<and>
    commitStage rf args = rf\<lparr>commitIndex := max (commitIndex rf)
      (min (aeLeaderCommit args) (aePrevLogIndex args + int (length (aeEntries args))))\<rparr>"
proof
  show "commitStage rf args = rf\<lparr>commitIndex := max (commitIndex rf)
      (min (aeLeaderCommit args) (aePrevLogIndex args + int (length (aeEntries args))))\<rparr>"
  proof (cases "aeLeaderCommit args > commitIndex rf")
    case False
    then have "max (commitIndex rf)
        (min (aeLeaderCommit args) (aePrevLogIndex args + int (length (aeEntries args)))) = commitIndex rf"
      by simp
    with False show ?thesis by (simp add: commitStage_def)
  qed (simp add: commitStage_def)
  then show "node_ok n p (commitStage rf args) F"
    using node_okD(9) [OF ok] K by (simp only:) (intro node_ok_commit [OF ok], auto)
qed

text \<open>A request of a newer term is a request of the same term after the peer has moved to it.\<close>

lemma RequestVote_raise:
  "rvTerm args > currentTerm rf \<Longrightarrow> RequestVote now rnd rf args =
   RequestVote now rnd (stepDown rf (rvTerm args)) args"
  by (simp add: RequestVote_def stepDown_def)

lemma AppendEntries_raise:
  "aeTerm args > currentTerm rf \<Longrightarrow> AppendEntries now rf args =
   AppendEntries now (stepDown rf (aeTerm args)) args"
  by (simp add: AppendEntries_def stepDown_def lastIndex_def persist_def image_of_def)

lemma InstallSnapshot_raise:
  "isTerm args > currentTerm rf \<Longrightarrow> InstallSnapshot now rf args =
   InstallSnapshot now (stepDown rf (isTerm args)) args"
  by (simp add: InstallSnapshot_def stepDown_def persist_def image_of_def)

lemma InstallSnapshot_ok:
  assumes ok: "node_ok n p rf F" and mt: "matching F Y" and t: "isTerm args = currentTerm rf"
    and K: "isLastIncludeIndex args = int K" "K < length Y"
    and lt: "isLastIncludeTerm args = leTerm (Y ! K)" and dt: "isData args \<noteq> None"
    and ci: "take (Suc (nat (commitIndex rf))) F = take (Suc (nat (commitIndex rf))) Y"
  shows "\<exists>rf'. InstallSnapshot now rf args =
      Some (rf', \<lparr>isrTerm = currentTerm rf, isrSuccess = True\<rparr>) \<and>
    node_ok n p rf' (adopt F Y K) \<and> currentTerm rf' = currentTerm rf \<and>
    votedFor rf' = votedFor rf \<and> rstate rf' = Follower \<and>
    commitIndex rf' = max (commitIndex rf) (int K)"
proof -
  note D = node_okD [OF ok]
  let ?f = "rf\<lparr>rstate := Follower, lastContact := now\<rparr>"
  let ?reply = "\<lparr>isrTerm = currentTerm rf, isrSuccess = True\<rparr>"
  have f: "node_ok n p ?f F" using ok by (simp add: node_ok_state)
  show ?thesis
  proof (cases "int K \<le> commitIndex rf")
    case True
    then have "take (Suc K) F = take (Suc K) Y" by (intro take_eq_mono [OF ci]) simp
    then have "adopt F Y K = F" by (simp add: adopt_def)
    then show ?thesis
      using True t K(1) f by (intro exI [of _ ?f]) (simp add: InstallSnapshot_def)
  next
    case False
    then have cK: "commitIndex rf < int K" and lK: "lastIncludeIndex rf < int K" using D(7,8) by auto
    define keep where "keep \<longleftrightarrow> K < length F \<and> leTerm (F ! K) = leTerm (Y ! K)"
    have k1: "(if lastIndex ?f \<ge> int K
          then map_option (\<lambda>e. leTerm e = isLastIncludeTerm args) (entry ?f (int K))
          else Some False) = Some keep"
    proof (cases "K < length F")
      case True
      then obtain e where "entry rf (int K) = Some e" "leTerm e = leTerm (F ! K)"
        using holds_entry [OF D(5), of "int K"] lK
        by (metis less_imp_le nat_int of_nat_less_iff)
      then show ?thesis using True D(14) lt
        by (simp add: keep_def entry_def logIdx_def lastIndex_def)
    qed (use D(14) in \<open>simp add: keep_def lastIndex_def\<close>)
    define ro where "ro = (if keep then truncateFront ?f (int K)
       else Some (?f\<lparr>rlog := [\<lparr>leTerm = isLastIncludeTerm args, leCommand = None\<rparr>]\<rparr>))"
    define G where "G = adopt F Y K"
    have "\<exists>l. ro = Some (?f\<lparr>rlog := l\<rparr>) \<and>
        (\<not> keep \<longrightarrow> l = [\<lparr>leTerm = leTerm (Y ! K), leCommand = None\<rparr>]) \<and> l \<noteq> [] \<and> leTerm (hd l) = leTerm (Y ! K) \<and>
        tl l = drop (Suc K) G \<and> K < length G \<and> leTerm (G ! K) = leTerm (Y ! K)"
    proof (cases keep)
      case True
      then have "take (Suc K) F = take (Suc K) Y" using matchingD [OF mt] K(2) by (simp add: keep_def)
      then have "G = F" by (simp add: G_def adopt_def)
      have hf: "holds ?f F" using D(5) by simp
      obtain l where "truncateFront ?f (int K) = Some (?f\<lparr>rlog := l\<rparr>)" "l \<noteq> []"
          "leTerm (hd l) = leTerm (F ! nat (int K))" "tl l = drop (Suc (nat (int K))) F"
      proof -
        have "lastIncludeIndex ?f \<le> int K" "int K < int (length F)"
          using lK True by (simp_all add: keep_def)
        then show ?thesis using holds_truncateFront [OF hf] that by blast
      qed
      then show ?thesis using True \<open>G = F\<close>
        by (intro exI [of _ l]) (simp add: ro_def keep_def)
    next
      case False
      then have "take (Suc K) F \<noteq> take (Suc K) Y"
        using K(2) take_eq_nth [of "Suc K" F Y K] take_eq_length [of "Suc K" Y F]
        by (auto simp: keep_def)
      then have "G = take (Suc K) Y" by (simp add: G_def adopt_def)
      then show ?thesis using False lt K(2)
        by (intro exI [of _ "[\<lparr>leTerm = leTerm (Y ! K), leCommand = None\<rparr>]"]) (simp add: ro_def)
    qed
    then obtain l where l: "ro = Some (?f\<lparr>rlog := l\<rparr>)"
        and lk: "\<not> keep \<Longrightarrow> l = [\<lparr>leTerm = leTerm (Y ! K), leCommand = None\<rparr>]" and l': "l \<noteq> []" "leTerm (hd l) = leTerm (Y ! K)"
        "tl l = drop (Suc K) G" "K < length G" "leTerm (G ! K) = leTerm (Y ! K)" by blast
    note l = l l'
    let ?r = "persist (?f\<lparr>rlog := l, lastIncludeIndex := int K, lastIncludeTerm := leTerm (Y ! K),
       rsnapshot := isData args, applyIndex := int K, commitIndex := int K,
       pendingSnapshot := isData args, pendingSnapshotIndex := int K,
       pendingSnapshotTerm := leTerm (Y ! K)\<rparr>)"
    have mx: "max (applyIndex rf) (int K) = int K" "max (commitIndex rf) (int K) = int K"
      using cK D(8) by auto
    have nle: "(int K \<le> lastIncludeIndex rf) = False" "(int K \<le> commitIndex rf) = False"
      using cK lK by simp_all
    have "InstallSnapshot now rf args = Some (?r, ?reply)"
    proof (cases "int K \<le> lastIndex ?f")
      case True
      then obtain e where e: "entry ?f (int K) = Some e" "(leTerm e = isLastIncludeTerm args) = keep"
        using k1 by auto
      show ?thesis
      proof (cases keep)
        case k: True
        then have "truncateFront ?f (int K) = Some (?f\<lparr>rlog := l\<rparr>)" using l(1) by (simp add: ro_def)
        then show ?thesis using e k by (simp add: InstallSnapshot_def t True nle lt mx K(1))
      next
        case k: False
        then have "l = [\<lparr>leTerm = leTerm (Y ! K), leCommand = None\<rparr>]" by (rule lk)
        then show ?thesis using e k by (simp add: InstallSnapshot_def t True nle lt mx K(1))
      qed
    next
      case False
      then have "\<not> keep" using k1 by simp
      then have "l = [\<lparr>leTerm = leTerm (Y ! K), leCommand = None\<rparr>]" by (rule lk)
      then show ?thesis using False by (simp add: InstallSnapshot_def t nle lt mx K(1))
    qed
    have "holds (?f\<lparr>rlog := l, lastIncludeIndex := int K, lastIncludeTerm := leTerm (Y ! K)\<rparr>) G"
      using l by (simp add: holds_def)
    then have "holds ?r G" by (rule holds_cong) simp_all
    moreover have "leader_ok n ?r (length G)" "pending_ok ?r G"
      using D(11) l(5,6) cK D(16) by (simp_all add: leader_ok_def pending_ok_def)
    ultimately have "node_ok n p ?r G"
      using dt l(5) by (intro node_okI) (simp_all add: D(1-4))
    with \<open>InstallSnapshot now rf args = Some (?r, ?reply)\<close> show ?thesis using mx by (simp add: G_def)
  qed
qed

lemma setMatch_ok:
  assumes ok: "node_ok n p rf F" and l: "rstate rf = Leader" and q: "q < n"
    and k: "0 \<le> k" "k < int (length F)"
  shows "\<exists>c ni mi. setMatch rf q k =
      Some (rf\<lparr>matchIndex := mi, nextIndex := ni, commitIndex := c\<rparr>) \<and>
    mi = (matchIndex rf)[q := max (matchIndex rf ! q) k] \<and> length ni = n \<and>
    node_ok n p (rf\<lparr>matchIndex := mi, nextIndex := ni, commitIndex := c\<rparr>) F \<and>
    (c = commitIndex rf \<or> commitIndex rf < c \<and> c < int (length F) \<and>
       leTerm (F ! nat c) = currentTerm rf \<and>
       n - n div 2 \<le> card {r. r < n \<and> (r = p \<or> c \<le> mi ! r)})"
proof -
  note D = node_okD [OF ok]
  have len: "length (matchIndex rf) = n" "length (nextIndex rf) = n"
    using D(11) by (auto simp: leader_ok_def)
  let ?mi = "(matchIndex rf)[q := max (matchIndex rf ! q) k]"
  let ?ni = "(nextIndex rf)[q := max (matchIndex rf ! q) k + 1]"
  let ?rf = "rf\<lparr>matchIndex := ?mi, nextIndex := ?ni\<rparr>"
  have "1 \<le> nextIndex ?rf ! r \<and> nextIndex ?rf ! r \<le> int (length F) \<and>
      0 \<le> matchIndex ?rf ! r \<and> matchIndex ?rf ! r < int (length F)" if "r < n" for r
  proof (cases "r = q")
    case True
    have "0 \<le> matchIndex rf ! q" "matchIndex rf ! q < int (length F)"
      using D(11) l q by (simp_all add: leader_ok_def)
    then show ?thesis using True k len that by (simp add: max_def)
  qed (use D(11) l that in \<open>simp add: leader_ok_def\<close>)
  then have "leader_ok n ?rf (length F)" using len by (simp add: leader_ok_def)
  then have "node_ok n p ?rf F"
    using ok by (auto simp: node_ok_def pending_ok_def)
  from advanceCommitIndex_ok [OF this]
  obtain c where c: "advanceCommitIndex ?rf = Some (?rf\<lparr>commitIndex := c\<rparr>)"
    "node_ok n p (?rf\<lparr>commitIndex := c\<rparr>) F"
    and c': "c = commitIndex ?rf \<or> rstate ?rf = Leader \<and> commitIndex ?rf < c \<and>
       c < int (length F) \<and> leTerm (F ! nat c) = currentTerm ?rf \<and>
       n - n div 2 \<le> card {r. r < n \<and> (r = p \<or> c \<le> matchIndex ?rf ! r)}" by blast
  have c3: "c = commitIndex rf \<or> commitIndex rf < c \<and> c < int (length F) \<and>
       leTerm (F ! nat c) = currentTerm rf \<and>
       n - n div 2 \<le> card {r. r < n \<and> (r = p \<or> c \<le> ?mi ! r)}"
    using c' by simp blast
  have "(if k > matchIndex rf ! q then slice_set (matchIndex rf) (int q) k
         else Some (matchIndex rf)) = Some ?mi"
    using q len by (auto simp: slice_set_def max_def)
  moreover have "slice_get ?mi (int q) = Some (max (matchIndex rf ! q) k)"
    using q len by (simp add: slice_get_def)
  ultimately have "setMatch rf q k = Some (?rf\<lparr>commitIndex := c\<rparr>)"
    using q len c(1) by (simp add: setMatch_def slice_get_in slice_set_in)
  then show ?thesis using c(2) c3 len(2) by (intro exI [of _ c] exI [of _ ?ni] exI [of _ ?mi]) simp
qed

lemma stepDown_ok:
  "node_ok n p rf F \<Longrightarrow> currentTerm rf < t \<Longrightarrow> node_ok n p (stepDown rf t) F"
  by (auto simp: stepDown_def node_ok_def leader_ok_def pending_ok_def)

lemma backUp_total:
  assumes ok: "node_ok n p rf F" shows "\<exists>k. backUp rf reply = Some k"
proof -
  note D = node_okD [OF ok]
  obtain j where "lastOfTerm rf (aerXTerm reply) (lastIndex rf) = Some j"
    using lastOfTerm_total [OF D(5), of "lastIndex rf"] D(14) by auto
  then show ?thesis by (simp add: backUp_def)
qed

lemma retry_ok:
  assumes ok: "node_ok n p rf F" and l: "rstate rf = Leader" and q: "q < n"
  shows "\<exists>ni. slice_set (nextIndex rf) (int q) (clampNext rf k) = Some ni \<and>
    node_ok n p (rf\<lparr>nextIndex := ni\<rparr>) F"
proof -
  note D = node_okD [OF ok]
  have len: "length (nextIndex rf) = n" using D(11) by (auto simp: leader_ok_def)
  have "1 \<le> clampNext rf k \<and> clampNext rf k \<le> int (length F)"
    using D(14) holds_lii [OF D(5)] by (auto simp: clampNext_def Let_def)
  then have "leader_ok n (rf\<lparr>nextIndex := (nextIndex rf)[q := clampNext rf k]\<rparr>) (length F)"
    using D(11) q by (auto simp: leader_ok_def nth_list_update)
  from node_ok_next [OF ok this]
  have "node_ok n p (rf\<lparr>nextIndex := (nextIndex rf)[q := clampNext rf k]\<rparr>) F" .
  then show ?thesis using q len by (simp add: slice_set_def)
qed

text \<open>A peer made again from its own persister has lost its volatile state only.\<close>

lemma restart_ok:
  assumes ok: "node_ok n p rf F"
  shows "node_ok n p (MakeRaft n p now rnd (persister rf)) F \<and>
    currentTerm (MakeRaft n p now rnd (persister rf)) = currentTerm rf \<and>
    votedFor (MakeRaft n p now rnd (persister rf)) = votedFor rf \<and>
    rlog (MakeRaft n p now rnd (persister rf)) = rlog rf \<and>
    lastIncludeIndex (MakeRaft n p now rnd (persister rf)) = lastIncludeIndex rf \<and>
    rsnapshot (MakeRaft n p now rnd (persister rf)) = rsnapshot rf \<and>
    rstate (MakeRaft n p now rnd (persister rf)) = Follower \<and>
    commitIndex (MakeRaft n p now rnd (persister rf)) = lastIncludeIndex rf \<and>
    applyIndex (MakeRaft n p now rnd (persister rf)) = lastIncludeIndex rf \<and>
    pendingSnapshot (MakeRaft n p now rnd (persister rf)) = None"
proof -
  note D = node_okD [OF ok]
  have ne: "rlog rf \<noteq> []" using D(5) by (simp add: holds_def)
  have dur: "ReadSnapshot (persister rf) = rsnapshot rf" using D(6) by (simp add: durable_def)
  have lt: "lastIncludeTerm rf = leTerm (F ! nat (lastIncludeIndex rf))"
    using D(5) by (simp add: holds_def)
  consider (disk) "ReadRaftState (persister rf) = Some (Encoded (image_of rf))"
    | (new) "ReadRaftState (persister rf) = None" "currentTerm rf = 0" "votedFor rf = -1"
      "rlog rf = [sentinel]" "lastIncludeIndex rf = 0" "lastIncludeTerm rf = 0"
    using D(6) by (auto simp: durable_def)
  then have f: "let r = MakeRaft n p now rnd (persister rf) in
    persister r = persister rf \<and> npeers r = n \<and> me r = p \<and> currentTerm r = currentTerm rf \<and>
    votedFor r = votedFor rf \<and> rlog r = rlog rf \<and> lastIncludeIndex r = lastIncludeIndex rf \<and>
    lastIncludeTerm r = lastIncludeTerm rf \<and> rsnapshot r = rsnapshot rf \<and>
    rstate r = Follower \<and> commitIndex r = lastIncludeIndex rf \<and>
    applyIndex r = lastIncludeIndex rf \<and> pendingSnapshot r = None \<and>
    length (nextIndex r) = n \<and> length (matchIndex r) = n"
    using ne dur by cases (simp_all add: MakeRaft_def image_of_def)
  define r where "r = MakeRaft n p now rnd (persister rf)"
  note f = f [folded r_def, unfolded Let_def]
  have "holds r F" by (rule holds_cong [OF D(5)]) (use f in simp_all)
  moreover have "durable r" using D(6) f by (simp add: durable_def image_of_def)
  ultimately have "node_ok n p r F"
    using D(3,4,9,10) order.trans [OF D(7,8)]
    by (intro node_okI) (simp_all add: f leader_ok_def pending_ok_def)
  then show ?thesis by (simp add: f r_def [symmetric])
qed

lemma fresh_ok:
  assumes "p < n"
  shows "node_ok n p (MakeRaft n p now rnd MakePersister) [sentinel]"
  using assms by (auto simp: MakeRaft_def MakePersister_def ReadRaftState_def ReadSnapshot_def
      node_ok_def holds_def durable_def leader_ok_def pending_ok_def sentinel_def)

end
