(* ===== verification/Raft_Cluster.thy ===== *)
theory Raft_Cluster
  imports Raft_Node
begin

text \<open>
  A cluster of Raft peers and the asynchronous network between them. Each event is one atomic
  section of the code: a body under \<open>rf.mu\<close> of src/src/raft1/raft.go, with the messages
  the goroutine around it sends. The network is the list of every message ever sent: a message
  may be handled late, out of order, several times or never, which covers what the simulated
  network of src/src/labrpc does (delays, drops, reordering). A crash loses everything but the
  persister; a reply is handed to the goroutine that made the call.
\<close>

section \<open>State\<close>

datatype ('c, 'b) msg =
    VoteCall nat nat RequestVoteArgs
  | VoteReply nat nat RequestVoteArgs RequestVoteReply
  | AppendCall nat nat "'c AppendEntriesArgs"
  | AppendReply nat nat "'c AppendEntriesArgs" AppendEntriesReply
  | InstallCall nat nat "'b InstallSnapshotArgs"
  | InstallReply nat nat "'b InstallSnapshotArgs" InstallSnapshotReply

text \<open>
  Beside the peers and the network: the vote goroutines that have had their one reply, the
  messages each peer has sent on its apply channel since it was last made (and the snapshot
  index it was made with), every message ever applied, and every snapshot a service took.
\<close>

record ('c, 'b) cluster =
  csize :: nat
  node :: "nat \<Rightarrow> ('c, 'b) raft"
  net :: "('c, 'b) msg list"
  voteDone :: "(nat \<times> int \<times> nat) list"
  applyBase :: "nat \<Rightarrow> int"
  applyCh :: "nat \<Rightarrow> ('c, 'b) ApplyMsg list"
  history :: "(nat \<times> ('c, 'b) ApplyMsg) list"
  taken :: "(int \<times> 'b) list"

datatype ('c, 'b) event =
    Elect nat int int
  | DeliverVote nat int int
  | ReturnVote nat
  | Replicate nat nat
  | DeliverAppend nat int
  | ReturnAppend nat
  | DeliverInstall nat int
  | ReturnInstall nat
  | Propose nat 'c
  | Compact nat int 'b
  | Apply nat
  | Crash nat int int

definition cluster_init :: "nat \<Rightarrow> int \<Rightarrow> (nat \<Rightarrow> int) \<Rightarrow> ('c, 'b) cluster" where
  "cluster_init n now rnd =
     \<lparr>csize = n, node = (\<lambda>p. MakeRaft n p now (rnd p) MakePersister), net = [], voteDone = [],
      applyBase = (\<lambda>_. 0), applyCh = (\<lambda>_. []), history = [], taken = []\<rparr>"

section \<open>Steps\<close>

definition update :: "('c, 'b) cluster \<Rightarrow> nat \<Rightarrow> ('c, 'b) raft \<Rightarrow> ('c, 'b) msg list \<Rightarrow> ('c, 'b) cluster"
where
  "update s p rf ms = s\<lparr>node := (node s)(p := rf), net := net s @ ms\<rparr>"

definition message :: "('c, 'b) cluster \<Rightarrow> nat \<Rightarrow> ('c, 'b) msg option" where
  "message s k = (if k < length (net s) then Some (net s ! k) else None)"

definition elect :: "('c, 'b) cluster \<Rightarrow> nat \<Rightarrow> int \<Rightarrow> int \<Rightarrow> ('c, 'b) cluster option" where
  "elect s p now rnd =
     (if p < csize s \<and> ticker now (node s p) then do {
        (rf, call) \<leftarrow> startElection now rnd (node s p);
        Some (update s p rf (case call of
            None \<Rightarrow> []
          | Some args \<Rightarrow> map (\<lambda>q. VoteCall p q args) (filter (\<lambda>q. q \<noteq> p) [0..<csize s])))
      } else Some s)"

definition deliverVote :: "('c, 'b) cluster \<Rightarrow> nat \<Rightarrow> int \<Rightarrow> int \<Rightarrow> ('c, 'b) cluster option" where
  "deliverVote s k now rnd =
     (case message s k of
        Some (VoteCall p q args) \<Rightarrow> do {
          (rf, reply) \<leftarrow> RequestVote now rnd (node s q) args;
          Some (update s q rf [VoteReply p q args reply])
        }
      | _ \<Rightarrow> Some s)"

definition returnVote :: "('c, 'b) cluster \<Rightarrow> nat \<Rightarrow> ('c, 'b) cluster option" where
  "returnVote s k =
     (case message s k of
        Some (VoteReply p q args reply) \<Rightarrow>
          if (p, rvTerm args, q) \<in> set (voteDone s) then Some s
          else do {
            rf \<leftarrow> handleVoteReply (node s p) args reply;
            Some ((update s p rf [])\<lparr>voteDone := (p, rvTerm args, q) # voteDone s\<rparr>)
          }
      | _ \<Rightarrow> Some s)"

definition replicate_to :: "('c, 'b) cluster \<Rightarrow> nat \<Rightarrow> nat \<Rightarrow> ('c, 'b) cluster option" where
  "replicate_to s p q =
     (if p < csize s \<and> q < csize s \<and> p \<noteq> q then do {
        out \<leftarrow> replicator (node s p) q;
        Some (update s p (node s p) (case out of
            NoSend \<Rightarrow> []
          | SendAppend args \<Rightarrow> [AppendCall p q args]
          | SendInstall args \<Rightarrow> [InstallCall p q args]))
      } else Some s)"

definition deliverAppend :: "('c, 'b) cluster \<Rightarrow> nat \<Rightarrow> int \<Rightarrow> ('c, 'b) cluster option" where
  "deliverAppend s k now =
     (case message s k of
        Some (AppendCall p q args) \<Rightarrow> do {
          (rf, reply) \<leftarrow> AppendEntries now (node s q) args;
          Some (update s q rf [AppendReply p q args reply])
        }
      | _ \<Rightarrow> Some s)"

definition returnAppend :: "('c, 'b) cluster \<Rightarrow> nat \<Rightarrow> ('c, 'b) cluster option" where
  "returnAppend s k =
     (case message s k of
        Some (AppendReply p q args reply) \<Rightarrow> do {
          (rf, again) \<leftarrow> handleAppendReply (node s p) q args reply True;
          Some (update s p rf [])
        }
      | _ \<Rightarrow> Some s)"

definition deliverInstall :: "('c, 'b) cluster \<Rightarrow> nat \<Rightarrow> int \<Rightarrow> ('c, 'b) cluster option" where
  "deliverInstall s k now =
     (case message s k of
        Some (InstallCall p q args) \<Rightarrow> do {
          (rf, reply) \<leftarrow> InstallSnapshot now (node s q) args;
          Some (update s q rf [InstallReply p q args reply])
        }
      | _ \<Rightarrow> Some s)"

definition returnInstall :: "('c, 'b) cluster \<Rightarrow> nat \<Rightarrow> ('c, 'b) cluster option" where
  "returnInstall s k =
     (case message s k of
        Some (InstallReply p q args reply) \<Rightarrow> do {
          (rf, again) \<leftarrow> handleInstallReply (node s p) q args reply True;
          Some (update s p rf [])
        }
      | _ \<Rightarrow> Some s)"

definition propose_at :: "('c, 'b) cluster \<Rightarrow> nat \<Rightarrow> 'c \<Rightarrow> ('c, 'b) cluster option" where
  "propose_at s p c =
     (if p < csize s then Some (update s p (fst (Start (node s p) c)) []) else Some s)"

definition compact_at :: "('c, 'b) cluster \<Rightarrow> nat \<Rightarrow> int \<Rightarrow> 'b \<Rightarrow> ('c, 'b) cluster option" where
  "compact_at s p index d =
     (if p < csize s then do {
        rf \<leftarrow> rf_Snapshot (node s p) index (Some d);
        Some ((update s p rf [])\<lparr>taken := (index, d) # taken s\<rparr>)
      } else Some s)"

definition apply_at :: "('c, 'b) cluster \<Rightarrow> nat \<Rightarrow> ('c, 'b) cluster option" where
  "apply_at s p =
     (if p < csize s then do {
        (rf, ms) \<leftarrow> applier (node s p);
        Some ((update s p rf [])\<lparr>applyCh := (applyCh s)(p := applyCh s p @ ms),
                                history := history s @ map (Pair p) ms\<rparr>)
      } else Some s)"

definition crash_at :: "('c, 'b) cluster \<Rightarrow> nat \<Rightarrow> int \<Rightarrow> int \<Rightarrow> ('c, 'b) cluster option" where
  "crash_at s p now rnd =
     (if p < csize s then
        let rf = MakeRaft (csize s) p now rnd (persister (node s p))
        in Some ((update s p rf [])\<lparr>applyCh := (applyCh s)(p := []),
                                   applyBase := (applyBase s)(p := lastIncludeIndex rf)\<rparr>)
      else Some s)"

fun cluster_exec :: "('c, 'b) cluster \<Rightarrow> ('c, 'b) event \<Rightarrow> ('c, 'b) cluster option" where
  "cluster_exec s (Elect p now rnd) = elect s p now rnd"
| "cluster_exec s (DeliverVote k now rnd) = deliverVote s k now rnd"
| "cluster_exec s (ReturnVote k) = returnVote s k"
| "cluster_exec s (Replicate p q) = replicate_to s p q"
| "cluster_exec s (DeliverAppend k now) = deliverAppend s k now"
| "cluster_exec s (ReturnAppend k) = returnAppend s k"
| "cluster_exec s (DeliverInstall k now) = deliverInstall s k now"
| "cluster_exec s (ReturnInstall k) = returnInstall s k"
| "cluster_exec s (Propose p c) = propose_at s p c"
| "cluster_exec s (Compact p index d) = compact_at s p index d"
| "cluster_exec s (Apply p) = apply_at s p"
| "cluster_exec s (Crash p now rnd) = crash_at s p now rnd"

fun cluster_run :: "('c, 'b) cluster \<Rightarrow> ('c, 'b) event list \<Rightarrow> ('c, 'b) cluster option" where
  "cluster_run s [] = Some s"
| "cluster_run s (e # es) = do { s' \<leftarrow> cluster_exec s e; cluster_run s' es }"

lemma cluster_run_append:
  "cluster_run s (es @ fs) = do { s' \<leftarrow> cluster_run s es; cluster_run s' fs }"
  by (induction es arbitrary: s) (auto split: Option.bind_split)

end
