(* ===== verification/Raft_Refine.thy ===== *)
theory Raft_Refine
  imports Raft_Local Raft_Cluster
begin

text \<open>
  The cluster of the code refines the abstract protocol: each peer and each message is related
  to a protocol state (\<open>node_rel\<close>, \<open>msg_ok\<close>), and every handler is a sequence of protocol
  steps of one peer (\<open>acts\<close>) that re-establishes the relation and never panics.
\<close>


section \<open>The two quorums of the code\<close>

definition electQuorum :: "nat \<Rightarrow> nat set \<Rightarrow> bool" where
  "electQuorum n Q \<longleftrightarrow> Q \<subseteq> {..<n} \<and> n div 2 < card Q"

definition commitQuorum :: "nat \<Rightarrow> nat set \<Rightarrow> bool" where
  "commitQuorum n Q \<longleftrightarrow> Q \<subseteq> {..<n} \<and> n - n div 2 \<le> card Q"

lemma disjoint_cards:
  assumes "P \<subseteq> {..<n}" "Q \<subseteq> {..<n}" "P \<inter> Q = {}"
  shows "card P + card Q \<le> n"
proof -
  have fin: "finite P" "finite Q" using assms(1,2) finite_subset by blast+
  have "card P + card Q = card (P \<union> Q)" using card_Un_disjoint [OF fin assms(3)] by simp
  also have "\<dots> \<le> card {..<n}" using assms by (intro card_mono) auto
  finally show ?thesis by simp
qed

interpretation rq: raft_quorums "electQuorum n" "commitQuorum n" for n :: nat
proof
  fix P Q assume "electQuorum n P" "commitQuorum n Q"
  then show "P \<inter> Q \<noteq> {}" using disjoint_cards [of P n Q]
    by (auto simp: electQuorum_def commitQuorum_def)
next
  fix P P' assume "electQuorum n P" "electQuorum n P'"
  then show "P \<inter> P' \<noteq> {}" using disjoint_cards [of P n P']
    by (auto simp: electQuorum_def)
qed

section \<open>What one peer's steps leave alone\<close>

lemma extends_trans:
  assumes ab: "extends a b" and bc: "extends b c"
  shows "extends a c"
proof -
  have "pelect c t = pelect a t \<and> (\<exists>S. ptlog c t = ptlog a t @ S \<and> (\<forall>e \<in> set S. leTerm e = t))"
    if t: "pleader a t \<noteq> None" for t
  proof -
    have t': "pleader b t \<noteq> None" by (rule extends_elected [OF ab t])
    obtain S where S: "pelect b t = pelect a t" "ptlog b t = ptlog a t @ S" "\<forall>e \<in> set S. leTerm e = t"
      using ab t by (auto simp: extends_def)
    obtain S' where "pelect c t = pelect b t" "ptlog c t = ptlog b t @ S'" "\<forall>e \<in> set S'. leTerm e = t"
      using bc t' by (auto simp: extends_def)
    with S show ?thesis by auto
  qed
  moreover have "pterm a v \<le> pterm c v" for v
    using extends_votes(1) [OF ab, of v] extends_votes(1) [OF bc, of v] by simp
  moreover have "pvotes a \<subseteq> pvotes c" "packs a \<subseteq> packs c"
    using extends_votes(2,3) [OF ab] extends_votes(2,3) [OF bc] by auto
  moreover have "pleader a \<subseteq>\<^sub>m pleader c"
    using ab bc by (auto simp: extends_def intro: map_le_trans)
  moreover have "pstand c t u = pstand a t u" if "(t, u, u) \<in> pvotes a" for t u
    using that extends_votes(2,4) [OF ab] extends_votes(4) [OF bc] by (metis subsetD)
  moreover have "pballot c t v = pballot a t v" if "(t, v, u) \<in> pvotes a" for t v u
    using that extends_votes(2,5) [OF ab] extends_votes(5) [OF bc] by (metis subsetD)
  ultimately show ?thesis unfolding extends_def by blast
qed

definition acts :: "nat \<Rightarrow> nat \<Rightarrow> 'c proto \<Rightarrow> 'c proto \<Rightarrow> bool" where
  "acts n p a a' \<longleftrightarrow>
     proto_inv (electQuorum n) a' \<and> extends a a' \<and>
     (proto_step (electQuorum n))\<^sup>*\<^sup>* a a' \<and>
     (\<forall>u. u \<noteq> p \<longrightarrow> pterm a' u = pterm a u \<and> plog a' u = plog a u \<and>
        (\<forall>t c. (t, u, c) \<in> pvotes a' \<longrightarrow> (t, u, c) \<in> pvotes a)) \<and>
     (\<forall>t u. u \<noteq> p \<longrightarrow> pleader a t = Some u \<longrightarrow> ptlog a' t = ptlog a t) \<and>
     (\<forall>t u. u \<noteq> p \<longrightarrow> pleader a' t = Some u \<longrightarrow> pleader a t = Some u)"

lemma actsD:
  assumes "acts n p a a'"
  shows "proto_inv (electQuorum n) a'" "extends a a'"
    "u \<noteq> p \<Longrightarrow> pterm a' u = pterm a u" "u \<noteq> p \<Longrightarrow> plog a' u = plog a u"
    "u \<noteq> p \<Longrightarrow> (t, u, c) \<in> pvotes a' \<Longrightarrow> (t, u, c) \<in> pvotes a"
    "u \<noteq> p \<Longrightarrow> pleader a t = Some u \<Longrightarrow> ptlog a' t = ptlog a t"
    "u \<noteq> p \<Longrightarrow> pleader a' t = Some u \<Longrightarrow> pleader a t = Some u"
    "(proto_step (electQuorum n))\<^sup>*\<^sup>* a a'"
  using assms by (simp_all add: acts_def)

lemma acts_refl: "proto_inv (electQuorum n) a \<Longrightarrow> acts n p a a"
  by (simp add: acts_def extends_refl)

lemma acts_trans:
  assumes ab: "acts n p a b" and bc: "acts n p b c" shows "acts n p a c"
proof -
  note A = actsD [OF ab] and B = actsD [OF bc]
  have "extends a c" by (rule extends_trans [OF A(2) B(2)])
  moreover have "(proto_step (electQuorum n))\<^sup>*\<^sup>* a c" by (rule rtranclp_trans [OF A(8) B(8)])
  ultimately show ?thesis
    using A(3-7) B(1,3-7) extends_leader [OF A(2)] unfolding acts_def by metis
qed

lemma acts_step:
  assumes inv: "proto_inv (electQuorum n) a" and step: "proto_step (electQuorum n) a a'"
    and "\<And>u. u \<noteq> p \<Longrightarrow> pterm a' u = pterm a u \<and> plog a' u = plog a u"
    and "\<And>u t c. u \<noteq> p \<Longrightarrow> (t, u, c) \<in> pvotes a' \<Longrightarrow> (t, u, c) \<in> pvotes a"
    and "\<And>t u. u \<noteq> p \<Longrightarrow> pleader a t = Some u \<Longrightarrow> ptlog a' t = ptlog a t"
    and "\<And>t u. u \<noteq> p \<Longrightarrow> pleader a' t = Some u \<Longrightarrow> pleader a t = Some u"
  shows "acts n p a a'"
  using assms(3-6) proto_inv_step [OF step inv] step_extends_inv [OF step inv]
    r_into_rtranclp [of "proto_step (electQuorum n)", OF step]
  unfolding acts_def by blast

lemma acts_raise:
  assumes "proto_inv (electQuorum n) a" "t > pterm a p"
  shows "acts n p a (a\<lparr>pterm := (pterm a)(p := t)\<rparr>)"
  by (rule acts_step [OF assms(1) proto_step.raise]) (use assms in auto)

lemma acts_stand:
  assumes "proto_inv (electQuorum n) a" "t = pterm a p + 1"
  shows "acts n p a (a\<lparr>pterm := (pterm a)(p := t), pvotes := insert (t, p, p) (pvotes a),
          pstand := (pstand a)(t := (pstand a t)(p := plog a p)),
          pballot := (pballot a)(t := (pballot a t)(p := plog a p))\<rparr>)"
  by (rule acts_step [OF assms(1) proto_step.stand]) (use assms in auto)

lemma acts_vote:
  assumes "proto_inv (electQuorum n) a" "t = pterm a v" "(t, c, c) \<in> pvotes a"
    "\<forall>c'. (t, v, c') \<notin> pvotes a" "fresher (pstand a t c) (plog a v)"
  shows "acts n v a (a\<lparr>pvotes := insert (t, v, c) (pvotes a),
          pballot := (pballot a)(t := (pballot a t)(v := plog a v))\<rparr>)"
  by (rule acts_step [OF assms(1) proto_step.vote]) (use assms in auto)

lemma acts_win:
  assumes "proto_inv (electQuorum n) a" "t = pterm a p" "(t, p, p) \<in> pvotes a" "pleader a t = None"
    "plog a p = pstand a t p" "electQuorum n Q" "\<forall>v \<in> Q. (t, v, p) \<in> pvotes a"
  shows "acts n p a (a\<lparr>pleader := (pleader a)(t := Some p), pelect := (pelect a)(t := Q),
          ptlog := (ptlog a)(t := plog a p)\<rparr>)"
  by (rule acts_step [OF assms(1) proto_step.win]) (use assms in \<open>auto split: if_splits\<close>)

lemma acts_propose:
  assumes "proto_inv (electQuorum n) a" "pleader a t = Some p" "pterm a p = t"
    "plog a p = ptlog a t" "leTerm e = t"
  shows "acts n p a (a\<lparr>plog := (plog a)(p := plog a p @ [e]),
    ptlog := (ptlog a)(t := ptlog a t @ [e])\<rparr>)"
  by (rule acts_step [OF assms(1) proto_step.propose]) (use assms in auto)

lemma acts_accept:
  assumes "proto_inv (electQuorum n) a" "pleader a t \<noteq> None" "pterm a v = t"
    "K < length (ptlog a t)"
  shows "acts n v a (a\<lparr>plog := (plog a)(v := adopt (plog a v) (ptlog a t) K),
          packs := insert (t, v, K) (packs a)\<rparr>)"
  by (rule acts_step [OF assms(1) proto_step.accept]) (use assms in auto)

section \<open>A peer against the protocol\<close>

definition leads :: "nat \<Rightarrow> nat \<Rightarrow> ('c, 'b) raft \<Rightarrow> 'c proto \<Rightarrow> bool" where
  "leads n p rf a \<longleftrightarrow> (rstate rf = Leader \<longrightarrow>
     pleader a (currentTerm rf) = Some p \<and> plog a p = ptlog a (currentTerm rf) \<and>
     (\<forall>q < n. q \<noteq> p \<longrightarrow> matchIndex rf ! q = 0 \<or>
        (currentTerm rf, q, nat (matchIndex rf ! q)) \<in> packs a))"

definition stands :: "nat \<Rightarrow> nat \<Rightarrow> ('c, 'b) raft \<Rightarrow> (nat \<times> int \<times> nat) set \<Rightarrow> 'c proto \<Rightarrow> bool" where
  "stands n p rf done a \<longleftrightarrow> (rstate rf = Candidate \<longrightarrow>
     (currentTerm rf, p, p) \<in> pvotes a \<and> plog a p = pstand a (currentTerm rf) p \<and>
     pleader a (currentTerm rf) \<noteq> Some p \<and>
     (\<exists>Q. p \<in> Q \<and> Q \<subseteq> {..<n} \<and> int (card Q) = voteCount rf \<and>
        (\<forall>q \<in> Q. (currentTerm rf, q, p) \<in> pvotes a \<and> (q = p \<or> (p, currentTerm rf, q) \<in> done))))"

definition node_rel :: "nat \<Rightarrow> nat \<Rightarrow> ('c, 'b) raft \<Rightarrow> (nat \<times> int \<times> nat) set \<Rightarrow> 'c proto \<Rightarrow> bool" where
  "node_rel n p rf done a \<longleftrightarrow>
     node_ok n p rf (plog a p) \<and> pterm a p = currentTerm rf \<and>
     (\<forall>c. (currentTerm rf, p, c) \<in> pvotes a \<longleftrightarrow> votedFor rf = int c) \<and>
     leads n p rf a \<and> stands n p rf done a \<and>
     settled (commitQuorum n) a (currentTerm rf) (take (Suc (nat (commitIndex rf))) (plog a p))"

lemma node_relD:
  assumes "node_rel n p rf done a"
  shows "node_ok n p rf (plog a p)" "pterm a p = currentTerm rf"
    "(currentTerm rf, p, c) \<in> pvotes a \<longleftrightarrow> votedFor rf = int c" "leads n p rf a"
    "stands n p rf done a"
    "settled (commitQuorum n) a (currentTerm rf) (take (Suc (nat (commitIndex rf))) (plog a p))"
  using assms by (simp_all add: node_rel_def)

lemma node_relI:
  assumes "node_ok n p rf (plog a p)" "pterm a p = currentTerm rf"
    "\<And>c. (currentTerm rf, p, c) \<in> pvotes a \<longleftrightarrow> votedFor rf = int c" "leads n p rf a"
    "stands n p rf done a"
    "settled (commitQuorum n) a (currentTerm rf) (take (Suc (nat (commitIndex rf))) (plog a p))"
  shows "node_rel n p rf done a"
  using assms by (simp add: node_rel_def)

text \<open>The steps of another peer keep the relation.\<close>

lemma node_rel_other:
  assumes act: "acts n p a a'" and u: "u \<noteq> p" and sub: "done \<subseteq> done'"
    and rel: "node_rel n u rf done a"
  shows "node_rel n u rf done' a'"
proof (rule node_relI)
  note A = actsD [OF act] and R = node_relD [OF rel]
  show "node_ok n u rf (plog a' u)" "pterm a' u = currentTerm rf"
    using R(1,2) A(3,4) [OF u] by simp_all
  show "(currentTerm rf, u, c) \<in> pvotes a' \<longleftrightarrow> votedFor rf = int c" for c
    using A(5) [OF u] extends_votes(2) [OF A(2)] R(3) by blast
  show "leads n u rf a'"
    using R(4) A(4,6) [OF u] extends_leader [OF A(2)] extends_votes(3) [OF A(2)]
    by (auto simp: leads_def)
  show "stands n u rf done' a'"
    unfolding stands_def
  proof (intro impI conjI)
    assume c: "rstate rf = Candidate"
    note S = R(5) [unfolded stands_def, rule_format, OF c]
    show "(currentTerm rf, u, u) \<in> pvotes a'" "plog a' u = pstand a' (currentTerm rf) u"
      "pleader a' (currentTerm rf) \<noteq> Some u"
      using S A(4,7) [OF u] extends_votes(2,4) [OF A(2)] by auto
    obtain Q where "u \<in> Q" "Q \<subseteq> {..<n}" "int (card Q) = voteCount rf"
        "\<forall>q \<in> Q. (currentTerm rf, q, u) \<in> pvotes a \<and> (q = u \<or> (u, currentTerm rf, q) \<in> done)"
      using S by blast
    then show "\<exists>Q. u \<in> Q \<and> Q \<subseteq> {..<n} \<and> int (card Q) = voteCount rf \<and>
        (\<forall>q \<in> Q. (currentTerm rf, q, u) \<in> pvotes a' \<and> (q = u \<or> (u, currentTerm rf, q) \<in> done'))"
      using extends_votes(2) [OF A(2)] sub by (intro exI [of _ Q]) blast
  qed
  show "settled (commitQuorum n) a' (currentTerm rf) (take (Suc (nat (commitIndex rf))) (plog a' u))"
    using settled_extends [OF A(2) R(6)] A(4) [OF u] by simp
qed

text \<open>Only the six fields of \<open>same_role\<close> and the local invariant matter.\<close>

lemma node_rel_same:
  assumes "node_rel n p rf done a" "same_role rf rf'" "node_ok n p rf' (plog a p)"
  shows "node_rel n p rf' done a"
  using assms unfolding node_rel_def same_role_def leads_def stands_def by auto

section \<open>Messages against the protocol\<close>

fun msg_ok :: "nat \<Rightarrow> 'c proto \<Rightarrow> ('c, 'b) msg \<Rightarrow> bool" where
  "msg_ok n a (VoteCall p q args) \<longleftrightarrow>
     p < n \<and> q < n \<and> p \<noteq> q \<and> rvCandidateId args = int p \<and> (rvTerm args, p, p) \<in> pvotes a \<and>
     rvLastLogIndex args = int (length (pstand a (rvTerm args) p)) - 1 \<and>
     rvLastLogTerm args = leTerm (last (pstand a (rvTerm args) p))"
| "msg_ok n a (VoteReply p q args reply) \<longleftrightarrow>
     p < n \<and> q < n \<and> p \<noteq> q \<and> (rvrVoteGranted reply \<longrightarrow> (rvTerm args, q, p) \<in> pvotes a)"
| "msg_ok n a (AppendCall p q args) \<longleftrightarrow>
     p < n \<and> q < n \<and> p \<noteq> q \<and> pleader a (aeTerm args) = Some p \<and>
     0 \<le> aePrevLogIndex args \<and> 0 \<le> aeLeaderCommit args \<and>
     (let X = ptlog a (aeTerm args); k = nat (aePrevLogIndex args) in
        k + length (aeEntries args) < length X \<and> aePrevLogTerm args = leTerm (X ! k) \<and>
        aeEntries args = take (length (aeEntries args)) (drop (Suc k) X) \<and>
        nat (aeLeaderCommit args) < length X \<and>
        settled (commitQuorum n) a (aeTerm args) (take (Suc (nat (aeLeaderCommit args))) X))"
| "msg_ok n a (AppendReply p q args reply) \<longleftrightarrow>
     p < n \<and> q < n \<and> p \<noteq> q \<and> 0 \<le> aePrevLogIndex args \<and>
     (aerSuccess reply \<longrightarrow>
        (aeTerm args, q, nat (aePrevLogIndex args) + length (aeEntries args)) \<in> packs a)"
| "msg_ok n a (InstallCall p q args) \<longleftrightarrow>
     p < n \<and> q < n \<and> p \<noteq> q \<and> pleader a (isTerm args) = Some p \<and>
     0 < isLastIncludeIndex args \<and> isData args \<noteq> None \<and>
     (let X = ptlog a (isTerm args); k = nat (isLastIncludeIndex args) in
        k < length X \<and> isLastIncludeTerm args = leTerm (X ! k) \<and>
        settled (commitQuorum n) a (isTerm args) (take (Suc k) X))"
| "msg_ok n a (InstallReply p q args reply) \<longleftrightarrow>
     p < n \<and> q < n \<and> p \<noteq> q \<and> 0 \<le> isLastIncludeIndex args \<and>
     (isrSuccess reply \<longrightarrow> (isTerm args, q, nat (isLastIncludeIndex args)) \<in> packs a)"

lemma extends_slice:
  assumes ext: "extends a a'" and el: "pleader a t \<noteq> None" and len: "k + m < length (ptlog a t)"
  shows "take m (drop (Suc k) (ptlog a' t)) = take m (drop (Suc k) (ptlog a t))"
proof -
  have "take (Suc k + m) (ptlog a' t) = take (Suc k + m) (ptlog a t)"
    using len by (intro extends_tlog [OF ext el]) simp
  then show ?thesis by (metis add_diff_cancel_left' drop_take)
qed

lemma msg_ok_extends:
  assumes ext: "extends a a'" and ok: "msg_ok n a m"
  shows "msg_ok n a' m"
proof -
  note V = extends_votes [OF ext]
  show ?thesis
  proof (cases m)
    case (VoteCall p q args)
    then show ?thesis using ok V(2) V(4) [of "rvTerm args" p] by auto
  next
    case (AppendCall p q args)
    let ?t = "aeTerm args"
    have p: "pleader a ?t = Some p" using ok AppendCall by simp
    then have el: "pleader a ?t \<noteq> None" by simp
    have LC: "nat (aeLeaderCommit args) < length (ptlog a ?t)"
      "settled (commitQuorum n) a ?t (take (Suc (nat (aeLeaderCommit args))) (ptlog a ?t))"
      and sl: "nat (aePrevLogIndex args) + length (aeEntries args) < length (ptlog a ?t)"
      "aeEntries args = take (length (aeEntries args)) (drop (Suc (nat (aePrevLogIndex args))) (ptlog a ?t))"
      using ok AppendCall by (auto simp: Let_def)
    have "take (Suc (nat (aeLeaderCommit args))) (ptlog a' ?t) = take (Suc (nat (aeLeaderCommit args))) (ptlog a ?t)"
      using LC(1) by (intro extends_tlog [OF ext el]) simp
    then have "settled (commitQuorum n) a' ?t (take (Suc (nat (aeLeaderCommit args))) (ptlog a' ?t))"
      using settled_extends [OF ext LC(2) order_refl] by simp
    then show ?thesis
      using ok AppendCall extends_leader [OF ext p] extends_tlog_length [OF ext el]
        extends_slice [OF ext el sl(1)] extends_tlog_nth [OF ext el, of "nat (aePrevLogIndex args)"]
      by (auto simp: Let_def)
  next
    case (InstallCall p q args)
    let ?t = "isTerm args" and ?k = "nat (isLastIncludeIndex args)"
    have p: "pleader a ?t = Some p" using ok InstallCall by simp
    then have el: "pleader a ?t \<noteq> None" by simp
    have k: "?k < length (ptlog a ?t)" "settled (commitQuorum n) a ?t (take (Suc ?k) (ptlog a ?t))"
      using ok InstallCall by (auto simp: Let_def)
    have "take (Suc ?k) (ptlog a' ?t) = take (Suc ?k) (ptlog a ?t)"
      using k(1) by (intro extends_tlog [OF ext el]) simp
    then have "settled (commitQuorum n) a' ?t (take (Suc ?k) (ptlog a' ?t))"
      using settled_extends [OF ext k(2) order_refl] by simp
    then show ?thesis
      using ok InstallCall extends_leader [OF ext p] extends_tlog_length [OF ext el]
        extends_tlog_nth [OF ext el k(1)]
      by (auto simp: Let_def)
  qed (use ok V(2,3) in auto)
qed

section \<open>Each handler is a sequence of protocol steps\<close>

lemma stepDown_rel:
  assumes rel: "node_rel n p rf done a" and inv: "proto_inv (electQuorum n) a"
    and t: "currentTerm rf < t"
  shows "\<exists>a'. acts n p a a' \<and> node_rel n p (stepDown rf t) done a'"
proof -
  note R = node_relD [OF rel]
  let ?a = "a\<lparr>pterm := (pterm a)(p := t)\<rparr>"
  have act: "acts n p a ?a" using R(2) t by (intro acts_raise [OF inv]) simp
  have none: "(t, p, c) \<notin> pvotes a" for c
    using votes_invD(2) [OF proto_inv_parts(2) [OF inv], of t p c] R(2) t by auto
  have "settled (commitQuorum n) ?a t (take (Suc (nat (commitIndex rf))) (plog a p))"
    using settled_extends [OF actsD(2) [OF act] R(6)] t by simp
  then have "node_rel n p (stepDown rf t) done ?a"
    using stepDown_ok [OF R(1) t] none by (intro node_relI) (simp_all add: stepDown_def leads_def stands_def)
  with act show ?thesis by blast
qed

lemma RequestVote_same_term:
  assumes rel: "node_rel n q rf done a" and inv: "proto_inv (electQuorum n) a"
    and msg: "msg_ok n a (VoteCall p q args :: ('c, 'b) msg)" and t: "rvTerm args = currentTerm rf"
  shows "\<exists>rf' reply a'. RequestVote now rnd rf args = Some (rf', reply) \<and> acts n q a a' \<and>
    node_rel n q rf' done a' \<and> msg_ok n a' (VoteReply p q args reply :: ('c, 'b) msg)"
proof -
  note R = node_relD [OF rel] and M = msg [simplified]
  note D = node_okD [OF R(1)]
  let ?fresh = "upToDate (rvLastLogTerm args) (rvLastLogIndex args) (leTerm (last (plog a q)))
      (int (length (plog a q)) - 1)"
  let ?rf = "persist (rf\<lparr>votedFor := int p, rstate := Follower, lastContact := now,
      electionTimeout := randomElectionTimeout rnd\<rparr>)"
  show ?thesis
  proof (cases "(votedFor rf = -1 \<or> votedFor rf = int p) \<and> ?fresh")
    case False
    then have "RequestVote now rnd rf args =
        Some (rf, \<lparr>rvrTerm = currentTerm rf, rvrVoteGranted = False\<rparr>)"
      using t D(14,15) M by (auto simp: RequestVote_def)
    then show ?thesis using rel acts_refl [OF inv] M by fastforce
  next
    case True
    then have req: "RequestVote now rnd rf args =
        Some (?rf, \<lparr>rvrTerm = currentTerm rf, rvrVoteGranted = True\<rparr>)"
      using t D(14,15) M by (auto simp: RequestVote_def)
    have "\<exists>a'. acts n q a a' \<and> plog a' q = plog a q \<and> pterm a' q = pterm a q \<and>
        (\<forall>c. (currentTerm rf, q, c) \<in> pvotes a' \<longleftrightarrow> c = p)"
    proof (cases "votedFor rf = int p")
      case True
      then show ?thesis using acts_refl [OF inv] R(3) by (intro exI [of _ a]) auto
    next
      case False
      then have v: "votedFor rf = -1" using True by simp
      let ?a = "a\<lparr>pvotes := insert (rvTerm args, q, p) (pvotes a),
          pballot := (pballot a)(rvTerm args := (pballot a (rvTerm args))(q := plog a q))\<rparr>"
      have "\<forall>c. (rvTerm args, q, c) \<notin> pvotes a" using R(3) v t by simp
      moreover have "fresher (pstand a (rvTerm args) p) (plog a q)"
        using True M by (simp add: fresher_def)
      ultimately have "acts n q a ?a" using R(2) t M by (intro acts_vote [OF inv]) simp_all
      then show ?thesis using R(3) v t by (intro exI [of _ ?a]) auto
    qed
    then obtain a' where a': "acts n q a a'" "plog a' q = plog a q" "pterm a' q = pterm a q"
        "\<forall>c. (currentTerm rf, q, c) \<in> pvotes a' \<longleftrightarrow> c = p" by blast
    have "node_ok n q ?rf (plog a q)" by (rule grant_ok [OF R(1)])
    then have "node_rel n q ?rf done a'"
      using a'(2-4) R(2) settled_extends [OF actsD(2) [OF a'(1)] R(6)]
      by (intro node_relI) (auto simp: leads_def stands_def)
    then show ?thesis using req a'(1,4) M t by fastforce
  qed
qed

lemma RequestVote_rel:
  assumes rel: "node_rel n q rf done a" and inv: "proto_inv (electQuorum n) a"
    and msg: "msg_ok n a (VoteCall p q args :: ('c, 'b) msg)"
  shows "\<exists>rf' reply a'. RequestVote now rnd rf args = Some (rf', reply) \<and> acts n q a a' \<and>
    node_rel n q rf' done a' \<and> msg_ok n a' (VoteReply p q args reply :: ('c, 'b) msg)"
proof -
  consider "rvTerm args < currentTerm rf" | "rvTerm args = currentTerm rf"
    | "currentTerm rf < rvTerm args" by linarith
  then show ?thesis
  proof cases
    case 1
    then show ?thesis using rel acts_refl [OF inv] msg by (fastforce simp: RequestVote_def)
  next
    case 2
    then show ?thesis by (rule RequestVote_same_term [OF rel inv msg])
  next
    case 3
    obtain a1 where a1: "acts n q a a1" "node_rel n q (stepDown rf (rvTerm args)) done a1"
      using stepDown_rel [OF rel inv 3] by blast
    have "rvTerm args = currentTerm (stepDown rf (rvTerm args))" by (simp add: stepDown_def)
    from RequestVote_same_term [OF a1(2) actsD(1) [OF a1(1)]
        msg_ok_extends [OF actsD(2) [OF a1(1)] msg] this]
    show ?thesis using RequestVote_raise [OF 3] acts_trans [OF a1(1)] by metis
  qed
qed

lemma good_logs_match:
  assumes "good_log a X" "good_log a Y" shows "matching X Y"
  unfolding matching_def
proof (intro allI impI)
  fix i assume i: "i < length X" "i < length Y" "leTerm (X ! i) = leTerm (Y ! i)"
  show "take (Suc i) X = take (Suc i) Y"
  proof (cases "i = 0")
    case True
    then show ?thesis using good_logD(1,2) [OF assms(1)] good_logD(1,2) [OF assms(2)]
      by (cases X; cases Y) auto
  next
    case False
    then show ?thesis using good_logD(4) [OF assms(1), of i] good_logD(4) [OF assms(2), of i] i by simp
  qed
qed

text \<open>What a peer has committed, the leader of its term has.\<close>

lemma committed_agrees:
  assumes rel: "node_rel n q rf done a" and inv: "proto_inv (electQuorum n) a"
    and l: "pleader a (currentTerm rf) = Some p"
  shows "take (Suc (nat (commitIndex rf))) (plog a q) =
    take (Suc (nat (commitIndex rf))) (ptlog a (currentTerm rf))"
proof -
  note R = node_relD [OF rel]
  have "nat (commitIndex rf) < length (plog a q)" using node_okD(9,16) [OF R(1)] by simp
  then show ?thesis using rq.settled_leader [OF inv R(6), of "currentTerm rf"] l
    by (simp add: min_absorb2)
qed

text \<open>A follower that takes the leader's log up to \<open>K\<close> acknowledges it.\<close>

lemma accept_rel:
  assumes rel: "node_rel n q rf done a" and inv: "proto_inv (electQuorum n) a"
    and l: "pleader a (currentTerm rf) = Some p" and K: "K < length (ptlog a (currentTerm rf))"
    and ok: "node_ok n q rf' (adopt (plog a q) (ptlog a (currentTerm rf)) K)"
    and f: "currentTerm rf' = currentTerm rf" "votedFor rf' = votedFor rf" "rstate rf' = Follower"
    and c: "commitIndex rf' = max (commitIndex rf) (int (min C K))"
    and s: "settled (commitQuorum n) a (currentTerm rf) (take (Suc C) (ptlog a (currentTerm rf)))"
  shows "\<exists>a'. acts n q a a' \<and> node_rel n q rf' done a' \<and> (currentTerm rf, q, K) \<in> packs a'"
proof -
  note R = node_relD [OF rel]
  let ?t = "currentTerm rf" and ?F = "plog a q" and ?ci = "nat (commitIndex rf)"
  let ?Y = "ptlog a ?t"
  let ?G = "adopt ?F ?Y K"
  let ?a = "a\<lparr>plog := (plog a)(q := ?G), packs := insert (?t, q, K) (packs a)\<rparr>"
  have act: "acts n q a ?a" using l R(2) K by (intro acts_accept [OF inv]) simp_all
  have ci: "take (Suc ?ci) ?G = take (Suc ?ci) ?F"
    by (rule adopt_keeps [OF committed_agrees [OF rel inv l]])
  have "settled (commitQuorum n) a ?t (take (Suc (nat (commitIndex rf'))) ?G)"
  proof (cases "int (min C K) \<le> commitIndex rf")
    case True
    then show ?thesis using c ci R(6) by (simp add: max_def)
  next
    case False
    then have n: "nat (commitIndex rf') = min C K" using c by simp
    have "take (Suc (min C K)) ?G = take (Suc (min C K)) ?Y"
      by (rule take_eq_mono [OF adopt_agrees]) simp
    also have "\<dots> = take (Suc (min C K)) (take (Suc C) ?Y)" by simp
    finally show ?thesis using settled_take [OF s, of "Suc (min C K)"] n by simp
  qed
  then have "settled (commitQuorum n) ?a ?t (take (Suc (nat (commitIndex rf'))) ?G)"
    by (rule settled_extends [OF actsD(2) [OF act]]) simp
  then have "node_rel n q rf' done ?a"
    using ok R(2,3) f by (intro node_relI) (simp_all add: leads_def stands_def)
  with act show ?thesis by auto
qed

lemma follow_rel:
  "node_rel n p rf done a \<Longrightarrow> node_rel n p (rf\<lparr>rstate := Follower, lastContact := now\<rparr>) done a"
  by (auto simp: node_rel_def leads_def stands_def intro: node_ok_state)

lemma AppendEntries_same_term:
  assumes rel: "node_rel n q rf done a" and inv: "proto_inv (electQuorum n) a"
    and msg: "msg_ok n a (AppendCall p q args :: ('c, 'b) msg)" and t: "aeTerm args = currentTerm rf"
  shows "\<exists>rf' reply a'. AppendEntries now rf args = Some (rf', reply) \<and> acts n q a a' \<and>
    node_rel n q rf' done a' \<and> msg_ok n a' (AppendReply p q args reply :: ('c, 'b) msg)"
proof -
  let ?rf = "rf\<lparr>rstate := Follower, lastContact := now\<rparr>"
  define k where "k = nat (aePrevLogIndex args)"
  define F where "F = plog a q"
  define Y where "Y = ptlog a (currentTerm rf)"
  define K where "K = k + length (aeEntries args)"
  have rel2: "node_rel n q ?rf done a" by (rule follow_rel [OF rel])
  note R = node_relD [OF rel2]
  note D = node_okD [OF R(1) [folded F_def]]
  have M: "p < n" "q < n" "p \<noteq> q" "0 \<le> aePrevLogIndex args" and kk: "aePrevLogIndex args = int k"
    and l: "pleader a (currentTerm rf) = Some p" and LC: "0 \<le> aeLeaderCommit args"
    and Y: "K < length Y" "aePrevLogTerm args = leTerm (Y ! k)"
      "aeEntries args = take (length (aeEntries args)) (drop (Suc k) Y)"
    and sY: "settled (commitQuorum n) a (currentTerm rf) (take (Suc (nat (aeLeaderCommit args))) Y)"
    using msg t by (auto simp: Let_def k_def K_def Y_def)
  have stay: ?thesis if "AppendEntries now rf args = Some (?rf, reply)" "\<not> aerSuccess reply" for reply
    using that rel2 acts_refl [OF inv] M by fastforce
  let ?r0 = "\<lparr>aerTerm = currentTerm rf, aerSuccess = False, aerXTerm = -1, aerXIndex = -1,
     aerXLen = lastIndex rf + 1\<rparr>"
  show ?thesis
  proof (cases "k < length F")
    case False
    then have "AppendEntries now rf args = Some (?rf, ?r0)"
      using t D(14) kk by (simp add: AppendEntries_def lastIndex_def Let_def)
    then show ?thesis by (rule stay) simp
  next
    case True
    then have nle: "\<not> lastIndex ?rf < aePrevLogIndex args" using D(14) kk by simp
    have mt: "matching F Y" unfolding F_def Y_def
      using logs_invD(1,4) [OF proto_inv_parts(1) [OF inv]] l by (intro good_logs_match) auto
    have ci: "take (Suc (nat (commitIndex rf))) F = take (Suc (nat (commitIndex rf))) Y"
      unfolding F_def Y_def by (rule committed_agrees [OF rel inv l])
    define mm where "mm \<longleftrightarrow> int k \<ge> lastIncludeIndex rf \<and> leTerm (F ! k) \<noteq> leTerm (Y ! k)"
    have mis: "(if aePrevLogIndex args \<ge> lastIncludeIndex ?rf
        then map_option (\<lambda>e. leTerm e \<noteq> aePrevLogTerm args) (entry ?rf (aePrevLogIndex args))
        else Some False) = Some mm"
    proof (cases "int k \<ge> lastIncludeIndex rf")
      case ge: True
      then obtain e where "entry ?rf (int k) = Some e" "leTerm e = leTerm (F ! k)"
        using holds_entry [OF D(5), of "int k"] True by auto
      then show ?thesis using ge Y(2) kk by (simp add: mm_def)
    qed (simp add: kk mm_def)
    show ?thesis
    proof (cases mm)
      case mm: True
      then obtain e where e: "entry ?rf (int k) = Some e"
        using holds_entry [OF D(5), of "int k"] True by (auto simp: mm_def)
      obtain i where i: "firstOfTerm ?rf (leTerm e) (int k) = Some i"
        using firstOfTerm_total [OF D(5), of "int k"] True mm by (auto simp: mm_def)
      have "AppendEntries now rf args = Some (?rf, ?r0\<lparr>aerXTerm := leTerm e, aerXIndex := i\<rparr>)"
        using t nle mis mm e i kk by (simp add: AppendEntries_def lastIndex_def Let_def)
      then show ?thesis by (rule stay) simp
    next
      case no: False
      have ag: "take (Suc k) F = take (Suc k) Y"
      proof (cases "int k \<ge> lastIncludeIndex rf")
        case False
        then show ?thesis using D(7,8) by (intro take_eq_mono [OF ci]) simp
      next
        case ge: True
        then show ?thesis using no True Y(1) by (intro matchingD [OF mt]) (simp_all add: mm_def K_def)
      qed
      obtain rf1 where rf1: "appendStage ?rf args = Some rf1" "node_ok n q rf1 (adopt F Y K)"
          "same_role ?rf rf1"
        using append_ok [OF R(1) [folded F_def] _ mt kk True K_def Y(1,3) _ ag] ci by auto
      have len: "K < length (adopt F Y K)"
        using take_eq_length [OF adopt_agrees [symmetric], of K Y F] Y(1) by simp
      have "aePrevLogIndex args + int (length (aeEntries args)) < int (length (adopt F Y K))"
        using len kk by (simp add: K_def)
      note cs = conjunct1 [OF commitStage_ok [OF rf1(2) this]] conjunct2 [OF commitStage_ok [OF rf1(2) this]]
      have "AppendEntries now rf args = Some (commitStage rf1 args, ?r0\<lparr>aerSuccess := True\<rparr>)"
        using t nle mis no rf1(1) by (simp add: AppendEntries_def lastIndex_def Let_def)
      moreover have "\<exists>a'. acts n q a a' \<and> node_rel n q (commitStage rf1 args) done a' \<and>
          (currentTerm rf, q, K) \<in> packs a'"
      proof (rule accept_rel [OF rel inv l _ _ _ _ _ _ sY [unfolded Y_def]])
        show "K < length (ptlog a (currentTerm rf))" using Y(1) by (simp add: Y_def)
        show "node_ok n q (commitStage rf1 args) (adopt (plog a q) (ptlog a (currentTerm rf)) K)"
          using cs(1) by (simp add: F_def Y_def)
        show "commitIndex (commitStage rf1 args) =
            max (commitIndex rf) (int (min (nat (aeLeaderCommit args)) K))"
          using cs(2) rf1(3) LC kk by (simp add: same_role_def K_def)
      qed (use cs(2) rf1(3) in \<open>simp_all add: same_role_def\<close>)
      ultimately show ?thesis using M t by (fastforce simp: K_def k_def)
    qed
  qed
qed

lemma AppendEntries_rel:
  assumes rel: "node_rel n q rf done a" and inv: "proto_inv (electQuorum n) a"
    and msg: "msg_ok n a (AppendCall p q args :: ('c, 'b) msg)"
  shows "\<exists>rf' reply a'. AppendEntries now rf args = Some (rf', reply) \<and> acts n q a a' \<and>
    node_rel n q rf' done a' \<and> msg_ok n a' (AppendReply p q args reply :: ('c, 'b) msg)"
proof -
  consider "aeTerm args < currentTerm rf" | "aeTerm args = currentTerm rf"
    | "currentTerm rf < aeTerm args" by linarith
  then show ?thesis
  proof cases
    case 1
    then show ?thesis using rel acts_refl [OF inv] msg by (fastforce simp: AppendEntries_def)
  next
    case 2
    then show ?thesis by (rule AppendEntries_same_term [OF rel inv msg])
  next
    case 3
    obtain a1 where a1: "acts n q a a1" "node_rel n q (stepDown rf (aeTerm args)) done a1"
      using stepDown_rel [OF rel inv 3] by blast
    have "aeTerm args = currentTerm (stepDown rf (aeTerm args))" by (simp add: stepDown_def)
    from AppendEntries_same_term [OF a1(2) actsD(1) [OF a1(1)]
        msg_ok_extends [OF actsD(2) [OF a1(1)] msg] this]
    show ?thesis using AppendEntries_raise [OF 3] acts_trans [OF a1(1)] by metis
  qed
qed

lemma InstallSnapshot_same_term:
  assumes rel: "node_rel n q rf done a" and inv: "proto_inv (electQuorum n) a"
    and msg: "msg_ok n a (InstallCall p q args :: ('c, 'b) msg)" and t: "isTerm args = currentTerm rf"
  shows "\<exists>rf' reply a'. InstallSnapshot now rf args = Some (rf', reply) \<and> acts n q a a' \<and>
    node_rel n q rf' done a' \<and> msg_ok n a' (InstallReply p q args reply :: ('c, 'b) msg)"
proof -
  define K where "K = nat (isLastIncludeIndex args)"
  define Y where "Y = ptlog a (currentTerm rf)"
  note R = node_relD [OF rel]
  have M: "p < n" "q < n" "p \<noteq> q" "0 \<le> isLastIncludeIndex args" "isData args \<noteq> None"
    and kk: "isLastIncludeIndex args = int K"
    and l: "pleader a (currentTerm rf) = Some p"
    and Y: "K < length Y" "isLastIncludeTerm args = leTerm (Y ! K)"
    and sY: "settled (commitQuorum n) a (currentTerm rf) (take (Suc K) Y)"
    using msg t by (auto simp: Let_def K_def Y_def)
  have mt: "matching (plog a q) Y" unfolding Y_def
    using logs_invD(1,4) [OF proto_inv_parts(1) [OF inv]] l by (intro good_logs_match) auto
  have ci: "take (Suc (nat (commitIndex rf))) (plog a q) = take (Suc (nat (commitIndex rf))) Y"
    unfolding Y_def by (rule committed_agrees [OF rel inv l])
  obtain rf' where rf': "InstallSnapshot now rf args =
      Some (rf', \<lparr>isrTerm = currentTerm rf, isrSuccess = True\<rparr>)"
    "node_ok n q rf' (adopt (plog a q) Y K)" "currentTerm rf' = currentTerm rf"
    "votedFor rf' = votedFor rf" "rstate rf' = Follower"
    "commitIndex rf' = max (commitIndex rf) (int K)"
    using InstallSnapshot_ok [OF R(1) mt t kk Y M(5) ci] by blast
  have "\<exists>a'. acts n q a a' \<and> node_rel n q rf' done a' \<and> (currentTerm rf, q, K) \<in> packs a'"
    by (rule accept_rel [OF rel inv l _ _ _ _ _ _ sY [unfolded Y_def]])
      (use rf' Y(1) in \<open>simp_all add: Y_def\<close>)
  then show ?thesis using rf'(1) M t by (fastforce simp: K_def)
qed

lemma InstallSnapshot_rel:
  assumes rel: "node_rel n q rf done a" and inv: "proto_inv (electQuorum n) a"
    and msg: "msg_ok n a (InstallCall p q args :: ('c, 'b) msg)"
  shows "\<exists>rf' reply a'. InstallSnapshot now rf args = Some (rf', reply) \<and> acts n q a a' \<and>
    node_rel n q rf' done a' \<and> msg_ok n a' (InstallReply p q args reply :: ('c, 'b) msg)"
proof -
  consider "isTerm args < currentTerm rf" | "isTerm args = currentTerm rf"
    | "currentTerm rf < isTerm args" by linarith
  then show ?thesis
  proof cases
    case 1
    then show ?thesis using rel acts_refl [OF inv] msg by (fastforce simp: InstallSnapshot_def)
  next
    case 2
    then show ?thesis by (rule InstallSnapshot_same_term [OF rel inv msg])
  next
    case 3
    obtain a1 where a1: "acts n q a a1" "node_rel n q (stepDown rf (isTerm args)) done a1"
      using stepDown_rel [OF rel inv 3] by blast
    have "isTerm args = currentTerm (stepDown rf (isTerm args))" by (simp add: stepDown_def)
    from InstallSnapshot_same_term [OF a1(2) actsD(1) [OF a1(1)]
        msg_ok_extends [OF actsD(2) [OF a1(1)] msg] this]
    show ?thesis using InstallSnapshot_raise [OF 3] acts_trans [OF a1(1)] by metis
  qed
qed

text \<open>The leader takes an acknowledgement into its match index and may commit.\<close>

lemma commit_by_quorum:
  assumes rel: "node_rel n p rf done a" and inv: "proto_inv (electQuorum n) a"
    and l: "pleader a (currentTerm rf) = Some p" "plog a p = ptlog a (currentTerm rf)"
    and c: "0 < c" "c < int (length (plog a p))" "leTerm (plog a p ! nat c) = currentTerm rf"
    and q: "n - n div 2 \<le> card {r. r < n \<and> (r = p \<or> c \<le> mi r)}"
    and packs: "\<And>r. r < n \<Longrightarrow> r \<noteq> p \<Longrightarrow> mi r = 0 \<or> (currentTerm rf, r, nat (mi r)) \<in> packs a"
  shows "\<exists>a'. acts n p a a' \<and> plog a' = plog a \<and> pterm a' = pterm a \<and> pvotes a' = pvotes a \<and>
    ptlog a' = ptlog a \<and> pleader a' = pleader a \<and>
    settled (commitQuorum n) a' (currentTerm rf) (take (Suc (nat c)) (plog a p))"
proof -
  note R = node_relD [OF rel]
  let ?t = "currentTerm rf" and ?K = "length (plog a p) - 1"
  let ?a = "a\<lparr>plog := (plog a)(p := adopt (plog a p) (ptlog a ?t) ?K),
      packs := insert (?t, p, ?K) (packs a)\<rparr>"
  have K: "?K < length (ptlog a ?t)" using c(1,2) l(2) by auto
  have act: "acts n p a ?a" using l(1) R(2) K by (intro acts_accept [OF inv]) simp_all
  have same: "plog ?a = plog a" using l(2) by (auto simp: adopt_def)
  let ?Q = "{r. r < n \<and> (r = p \<or> c \<le> mi r)}"
  have "\<exists>m \<ge> nat c. (?t, r, m) \<in> packs ?a" if "r \<in> ?Q" for r
  proof (cases "r = p")
    case True
    then show ?thesis using c(1,2) by (intro exI [of _ ?K]) auto
  next
    case False
    then show ?thesis using that packs [of r] c(1) by (intro exI [of _ "nat (mi r)"]) auto
  qed
  moreover have "commitQuorum n ?Q" using q by (auto simp: commitQuorum_def)
  ultimately have "committed (commitQuorum n) ?a ?t (nat c)"
    using l c unfolding committed_def by (auto simp: nat_less_iff)
  then have "settled (commitQuorum n) ?a ?t (take (Suc (nat c)) (plog a p))"
    using c(1,2) l(2) unfolding settled_def
    by (intro disjI2 exI [of _ ?t] exI [of _ "nat c"]) (simp add: min_absorb2)
  then show ?thesis using act same by (intro exI [of _ ?a]) simp
qed

lemma setMatch_rel:
  assumes rel: "node_rel n p rf done a" and inv: "proto_inv (electQuorum n) a"
    and l: "rstate rf = Leader" and q: "q < n" "p \<noteq> q"
    and k: "0 \<le> k" "(currentTerm rf, q, nat k) \<in> packs a"
  shows "\<exists>rf' a'. setMatch rf q k = Some rf' \<and> acts n p a a' \<and> node_rel n p rf' done a' \<and>
    length (nextIndex rf') = n"
proof -
  note R = node_relD [OF rel]
  note L = R(4) [unfolded leads_def, rule_format, OF l]
  note D = node_okD [OF R(1)]
  have kl: "k < int (length (plog a p))"
    using acks_invD [OF proto_inv_parts(4) [OF inv] k(2)] L k(1) by (auto simp: nat_less_iff)
  obtain c ni mi where s: "setMatch rf q k =
      Some (rf\<lparr>matchIndex := mi, nextIndex := ni, commitIndex := c\<rparr>)"
    "mi = (matchIndex rf)[q := max (matchIndex rf ! q) k]" "length ni = n"
    "node_ok n p (rf\<lparr>matchIndex := mi, nextIndex := ni, commitIndex := c\<rparr>) (plog a p)"
    "c = commitIndex rf \<or> commitIndex rf < c \<and> c < int (length (plog a p)) \<and>
       leTerm (plog a p ! nat c) = currentTerm rf \<and>
       n - n div 2 \<le> card {r. r < n \<and> (r = p \<or> c \<le> mi ! r)}"
    using setMatch_ok [OF R(1) l q(1) k(1) kl] by blast
  let ?rf = "rf\<lparr>matchIndex := mi, nextIndex := ni, commitIndex := c\<rparr>"
  have len: "length (matchIndex rf) = n" using D(11) by (simp add: leader_ok_def)
  have mi: "mi ! r = 0 \<or> (currentTerm rf, r, nat (mi ! r)) \<in> packs a" if "r < n" "r \<noteq> p" for r
    using that L k(2) s(2) len by (cases "r = q") (auto simp: max_def)
  have "\<exists>a'. acts n p a a' \<and> plog a' = plog a \<and> pterm a' = pterm a \<and> pvotes a' = pvotes a \<and>
    ptlog a' = ptlog a \<and> pleader a' = pleader a \<and>
      settled (commitQuorum n) a' (currentTerm rf) (take (Suc (nat c)) (plog a p))"
  proof (cases "c = commitIndex rf")
    case True
    then show ?thesis using acts_refl [OF inv] R(6) by blast
  next
    case False
    then show ?thesis using s(5) D(16) L mi
      by (intro commit_by_quorum [OF rel inv, of _ "\<lambda>r. mi ! r"]) auto
  qed
  then obtain a' where a': "acts n p a a'" "plog a' = plog a" "pterm a' = pterm a"
      "pvotes a' = pvotes a" "ptlog a' = ptlog a" "pleader a' = pleader a"
      "settled (commitQuorum n) a' (currentTerm rf) (take (Suc (nat c)) (plog a p))" by blast
  have "leads n p ?rf a'"
    using L mi extends_votes(3) [OF actsD(2) [OF a'(1)]] a'(2,5,6) by (auto simp: leads_def)
  then have "node_rel n p ?rf done a'"
    using s(4) R(2,3) a'(2-4,7) l by (intro node_relI) (simp_all add: stands_def)
  then show ?thesis using s(1,3) a'(1) by (intro exI [of _ ?rf] exI [of _ a']) simp
qed

lemma handleAppendReply_rel:
  assumes rel: "node_rel n p rf done a" and inv: "proto_inv (electQuorum n) a"
    and msg: "msg_ok n a (AppendReply p q args reply :: ('c, 'b) msg)"
  shows "\<exists>rf' again a'. handleAppendReply rf q args reply True = Some (rf', again) \<and>
    acts n p a a' \<and> node_rel n p rf' done a'"
proof -
  note R = node_relD [OF rel] and M = msg [simplified]
  consider (idle) "rstate rf \<noteq> Leader \<or> currentTerm rf \<noteq> aeTerm args"
    | (down) "rstate rf = Leader" "currentTerm rf = aeTerm args" "aerTerm reply > currentTerm rf"
    | (ok) "rstate rf = Leader" "currentTerm rf = aeTerm args" "\<not> aerTerm reply > currentTerm rf"
        "aerSuccess reply"
    | (no) "rstate rf = Leader" "currentTerm rf = aeTerm args" "\<not> aerTerm reply > currentTerm rf"
        "\<not> aerSuccess reply" by blast
  then show ?thesis
  proof cases
    case idle
    then show ?thesis using rel acts_refl [OF inv] by (fastforce simp: handleAppendReply_def)
  next
    case down
    then show ?thesis using stepDown_rel [OF rel inv down(3)] by (auto simp: handleAppendReply_def)
  next
    case ok
    let ?k = "aePrevLogIndex args + int (length (aeEntries args))"
    have "nat ?k = nat (aePrevLogIndex args) + length (aeEntries args)" "0 \<le> ?k"
      using M by (auto simp: nat_add_distrib)
    then have "(currentTerm rf, q, nat ?k) \<in> packs a" using M ok by simp
    then obtain rf' a' where s: "setMatch rf q ?k = Some rf'" "acts n p a a'"
        "node_rel n p rf' done a'" "length (nextIndex rf') = n"
      using setMatch_rel [OF rel inv ok(1), of q ?k] M \<open>0 \<le> ?k\<close> by blast
    then show ?thesis using ok M by (auto simp: handleAppendReply_def slice_get_def)
  next
    case no
    obtain k where k: "backUp rf reply = Some k" using backUp_total [OF R(1)] by blast
    obtain ni where ni: "slice_set (nextIndex rf) (int q) (clampNext rf k) = Some ni"
        "node_ok n p (rf\<lparr>nextIndex := ni\<rparr>) (plog a p)"
      using retry_ok [OF R(1) no(1)] M by blast
    have "node_rel n p (rf\<lparr>nextIndex := ni\<rparr>) done a"
      by (rule node_rel_same [OF rel _ ni(2)]) (simp add: same_role_def)
    then show ?thesis using no k ni(1) acts_refl [OF inv] by (auto simp: handleAppendReply_def)
  qed
qed

lemma handleInstallReply_rel:
  assumes rel: "node_rel n p rf done a" and inv: "proto_inv (electQuorum n) a"
    and msg: "msg_ok n a (InstallReply p q args reply :: ('c, 'b) msg)"
  shows "\<exists>rf' again a'. handleInstallReply rf q args reply True = Some (rf', again) \<and>
    acts n p a a' \<and> node_rel n p rf' done a'"
proof -
  note M = msg [simplified]
  consider (idle) "rstate rf \<noteq> Leader \<or> currentTerm rf \<noteq> isTerm args \<or>
        \<not> isrTerm reply > currentTerm rf \<and> \<not> isrSuccess reply"
    | (down) "rstate rf = Leader" "currentTerm rf = isTerm args" "isrTerm reply > currentTerm rf"
    | (ok) "rstate rf = Leader" "currentTerm rf = isTerm args" "\<not> isrTerm reply > currentTerm rf"
        "isrSuccess reply" by blast
  then show ?thesis
  proof cases
    case idle
    then show ?thesis using rel acts_refl [OF inv]
      by (cases "rstate rf \<noteq> Leader \<or> currentTerm rf \<noteq> isTerm args")
        (fastforce simp: handleInstallReply_def)+
  next
    case down
    then show ?thesis using stepDown_rel [OF rel inv down(3)] by (auto simp: handleInstallReply_def)
  next
    case ok
    have "(currentTerm rf, q, nat (isLastIncludeIndex args)) \<in> packs a" using M ok by simp
    then obtain rf' a' where "setMatch rf q (isLastIncludeIndex args) = Some rf'" "acts n p a a'"
        "node_rel n p rf' done a'"
      using setMatch_rel [OF rel inv ok(1), of q "isLastIncludeIndex args"] M by blast
    then show ?thesis using ok by (auto simp: handleInstallReply_def)
  qed
qed

lemma Start_rel:
  assumes rel: "node_rel n p rf done a" and inv: "proto_inv (electQuorum n) a"
  shows "\<exists>a'. acts n p a a' \<and> node_rel n p (fst (Start rf c)) done a'"
proof (cases "rstate rf = Leader")
  case False
  then show ?thesis using rel acts_refl [OF inv] by (auto simp: Start_def)
next
  case True
  note R = node_relD [OF rel]
  note L = R(4) [unfolded leads_def, rule_format, OF True]
  let ?e = "\<lparr>leTerm = currentTerm rf, leCommand = Some c\<rparr>"
  let ?a = "a\<lparr>plog := (plog a)(p := plog a p @ [?e]),
    ptlog := (ptlog a)(currentTerm rf := ptlog a (currentTerm rf) @ [?e])\<rparr>"
  obtain rf' where s: "Start rf c = (rf', int (length (plog a p)), currentTerm rf, True)"
      "node_ok n p rf' (plog a p @ [?e])" "same_role rf rf'"
    using Start_ok [OF R(1) True] by blast
  have act: "acts n p a ?a" using L R(2) by (intro acts_propose [OF inv]) simp_all
  have "nat (commitIndex rf) < length (plog a p)" using node_okD(9,16) [OF R(1)] by simp
  then have "settled (commitQuorum n) ?a (currentTerm rf)
      (take (Suc (nat (commitIndex rf))) (plog a p @ [?e]))"
    using settled_extends [OF actsD(2) [OF act] R(6) order_refl] by simp
  then have "node_rel n p rf' done ?a"
    using s(2,3) R(2,3) L True
    by (intro node_relI) (simp_all add: leads_def stands_def same_role_def)
  then show ?thesis using act s(1) by (intro exI [of _ ?a]) simp
qed

lemma startElection_rel:
  assumes rel: "node_rel n p rf done a" and inv: "proto_inv (electQuorum n) a"
    and nl: "rstate rf \<noteq> Leader"
  shows "\<exists>rf' args a'. startElection now rnd rf = Some (rf', Some args) \<and> acts n p a a' \<and>
    node_rel n p rf' done a' \<and> (\<forall>q < n. q \<noteq> p \<longrightarrow> msg_ok n a' (VoteCall p q args :: ('c, 'b) msg))"
proof -
  note R = node_relD [OF rel]
  let ?t = "currentTerm rf + 1"
  let ?args = "\<lparr>rvTerm = ?t, rvCandidateId = int p, rvLastLogIndex = int (length (plog a p)) - 1,
     rvLastLogTerm = leTerm (last (plog a p))\<rparr>"
  let ?a = "a\<lparr>pterm := (pterm a)(p := ?t), pvotes := insert (?t, p, p) (pvotes a),
          pstand := (pstand a)(?t := (pstand a ?t)(p := plog a p)),
          pballot := (pballot a)(?t := (pballot a ?t)(p := plog a p))\<rparr>"
  obtain rf' where s: "startElection now rnd rf = Some (rf', Some ?args)"
      "node_ok n p rf' (plog a p)" "currentTerm rf' = ?t" "votedFor rf' = int p"
      "rstate rf' = Candidate" "voteCount rf' = 1" "commitIndex rf' = commitIndex rf"
    using startElection_ok [OF R(1) nl] by blast
  have act: "acts n p a ?a" using R(2) by (intro acts_stand [OF inv]) simp
  have none: "(?t, p, c) \<notin> pvotes a" for c
    using votes_invD(2) [OF proto_inv_parts(2) [OF inv], of ?t p c] R(2) by auto
  have nolead: "pleader a ?t \<noteq> Some p"
    using elect_invD(1) [OF proto_inv_parts(3) [OF inv], of ?t p] none by auto
  have pn: "p < n" by (rule node_okD(3) [OF R(1)])
  have "stands n p rf' done ?a"
    using s(3,6) nolead pn unfolding stands_def by (auto intro!: exI [of _ "{p}"])
  moreover have "settled (commitQuorum n) ?a ?t (take (Suc (nat (commitIndex rf))) (plog a p))"
    by (rule settled_extends [OF actsD(2) [OF act] R(6)]) simp
  ultimately have "node_rel n p rf' done ?a"
    using s(2-5,7) none by (intro node_relI) (auto simp: leads_def)
  moreover have "\<forall>q < n. q \<noteq> p \<longrightarrow> msg_ok n ?a (VoteCall p q ?args :: ('c, 'b) msg)"
    using pn by simp
  ultimately show ?thesis using s(1) act by blast
qed

text \<open>
  The candidate counts one reply per peer; the reply that completes a majority makes it the
  leader, once, because two majorities share a voter.
\<close>

lemma win_rel:
  assumes rel: "node_rel n p rf done a" and inv: "proto_inv (electQuorum n) a"
    and c: "rstate rf = Candidate" and Q: "electQuorum n Q" "\<forall>v \<in> Q. (currentTerm rf, v, p) \<in> pvotes a"
  shows "\<exists>rf' a'. becomeLeader rf = Some rf' \<and> acts n p a a' \<and> node_rel n p rf' done' a'"
proof -
  note R = node_relD [OF rel]
  note S = R(5) [unfolded stands_def, rule_format, OF c]
  let ?t = "currentTerm rf"
  let ?a = "a\<lparr>pleader := (pleader a)(?t := Some p), pelect := (pelect a)(?t := Q),
          ptlog := (ptlog a)(?t := plog a p)\<rparr>"
  have none: "pleader a ?t = None"
  proof (rule ccontr)
    assume "pleader a ?t \<noteq> None"
    then obtain p' where p': "pleader a ?t = Some p'" by auto
    note E = elect_invD [OF proto_inv_parts(3) [OF inv] p']
    obtain v where "v \<in> Q" "v \<in> pelect a ?t" using rq.elect_elect [OF Q(1) E(2)] by blast
    then have "p' = p"
      using votes_invD(8) [OF proto_inv_parts(2) [OF inv]] E(3) Q(2) by blast
    then show False using p' S by simp
  qed
  have act: "acts n p a ?a"
    using R(2) none S Q by (intro acts_win [OF inv]) simp_all
  obtain rf' where r: "becomeLeader rf = Some rf'" "node_ok n p rf' (plog a p)" "rstate rf' = Leader"
      "currentTerm rf' = ?t" "votedFor rf' = votedFor rf" "commitIndex rf' = commitIndex rf"
      "\<forall>q < n. q \<noteq> p \<longrightarrow> matchIndex rf' ! q = 0"
    using becomeLeader_ok [OF R(1)] by blast
  have "settled (commitQuorum n) ?a ?t (take (Suc (nat (commitIndex rf))) (plog a p))"
    by (rule settled_extends [OF actsD(2) [OF act] R(6)]) simp
  then have "node_rel n p rf' done' ?a"
    using r R(2,3) by (intro node_relI) (simp_all add: leads_def stands_def)
  then show ?thesis using r(1) act by blast
qed

lemma handleVoteReply_rel:
  assumes rel: "node_rel n p rf done a" and inv: "proto_inv (electQuorum n) a"
    and msg: "msg_ok n a (VoteReply p q args reply :: ('c, 'b) msg)"
    and new: "(p, rvTerm args, q) \<notin> done"
  shows "\<exists>rf' a'. handleVoteReply rf args reply = Some rf' \<and> acts n p a a' \<and>
    node_rel n p rf' (insert (p, rvTerm args, q) done) a'"
proof -
  note R = node_relD [OF rel] and M = msg [simplified]
  let ?done = "insert (p, rvTerm args, q) done"
  have mono: "node_rel n p rf' ?done a'" if "node_rel n p rf' done a'" for rf' a'
    using that unfolding node_rel_def stands_def by blast
  consider (down) "rvrTerm reply > currentTerm rf"
    | (idle) "\<not> rvrTerm reply > currentTerm rf" "rstate rf \<noteq> Candidate \<or> currentTerm rf \<noteq> rvTerm args \<or>
              rvrTerm reply \<noteq> rvTerm args \<or> \<not> rvrVoteGranted reply \<or>
              voteCount rf > int (npeers rf) div 2"
    | (count) "\<not> rvrTerm reply > currentTerm rf" "rstate rf = Candidate" "currentTerm rf = rvTerm args"
        "rvrTerm reply = rvTerm args" "rvrVoteGranted reply" "\<not> voteCount rf > int (npeers rf) div 2"
    by blast
  then show ?thesis
  proof cases
    case down
    then show ?thesis using stepDown_rel [OF rel inv down] mono by (auto simp: handleVoteReply_def)
  next
    case idle
    then have "handleVoteReply rf args reply = Some rf" by (auto simp: handleVoteReply_def)
    then show ?thesis using rel acts_refl [OF inv] mono by blast
  next
    case count
    let ?t = "currentTerm rf" and ?rf = "rf\<lparr>voteCount := voteCount rf + 1\<rparr>"
    note S = R(5) [unfolded stands_def, rule_format, OF count(2)]
    obtain Q where Q: "p \<in> Q" "Q \<subseteq> {..<n}" "int (card Q) = voteCount rf"
        "\<forall>r \<in> Q. (?t, r, p) \<in> pvotes a \<and> (r = p \<or> (p, ?t, r) \<in> done)" using S by blast
    have q: "q \<notin> Q" using Q(4) new count(3) M by auto
    let ?Q = "insert q Q"
    have "finite Q" using Q(2) finite_subset by blast
    then have Q': "p \<in> ?Q" "?Q \<subseteq> {..<n}" "int (card ?Q) = voteCount ?rf"
        "\<forall>r \<in> ?Q. (?t, r, p) \<in> pvotes a \<and> (r = p \<or> (p, ?t, r) \<in> ?done)"
      using Q M q count(3,5) by auto
    have rel1: "node_rel n p ?rf ?done a"
      using R S Q' count(2) by (intro node_relI) (auto simp: leads_def stands_def intro!: exI [of _ ?Q])
    show ?thesis
    proof (cases "voteCount ?rf > int (npeers ?rf) div 2")
      case False
      then have "handleVoteReply rf args reply = Some ?rf" using count by (simp add: handleVoteReply_def)
      then show ?thesis using rel1 acts_refl [OF inv] by blast
    next
      case True
      then have h: "handleVoteReply rf args reply = becomeLeader ?rf"
        using count by (simp add: handleVoteReply_def)
      have "int (n div 2) < int (card ?Q)"
        using True Q'(3) node_okD(1) [OF R(1)] by (simp add: zdiv_int)
      then have "electQuorum n ?Q" using Q'(2) by (simp add: electQuorum_def)
      then show ?thesis using win_rel [OF rel1 inv] count(2) Q'(4) h by fastforce
    qed
  qed
qed

text \<open>What the replicator sends is a true account of the leader's log.\<close>

lemma replicator_rel:
  assumes rel: "node_rel n p rf done a" and q: "q < n" "p \<noteq> q"
  shows "\<exists>out. replicator rf q = Some out \<and>
    (\<forall>args. out = SendAppend args \<longrightarrow> msg_ok n a (AppendCall p q args :: ('c, 'b) msg)) \<and>
    (\<forall>args. out = SendInstall args \<longrightarrow> msg_ok n a (InstallCall p q args :: ('c, 'b) msg) \<and>
       isLastIncludeIndex args = lastIncludeIndex rf \<and> isData args = rsnapshot rf)"
proof -
  note R = node_relD [OF rel]
  note D = node_okD [OF R(1)] and X = replicator_ok [OF R(1) q(1)]
  have L: "pleader a (currentTerm rf) = Some p \<and> plog a p = ptlog a (currentTerm rf)"
    if "rstate rf = Leader" using R(4) that by (simp add: leads_def)
  show ?thesis
  proof (cases "replicator rf q")
    case None
    then show ?thesis using X by simp
  next
    case (Some out)
    show ?thesis
    proof (cases out)
      case NoSend
      then show ?thesis using Some by simp
    next
      case (SendInstall args)
      have A: "rstate rf = Leader" "isTerm args = currentTerm rf" "0 < isLastIncludeIndex args"
        "isLastIncludeIndex args \<le> commitIndex rf" "isData args \<noteq> None"
        "isLastIncludeTerm args = leTerm (plog a p ! nat (isLastIncludeIndex args))"
        "isLastIncludeIndex args = lastIncludeIndex rf" "isData args = rsnapshot rf"
        using X Some SendInstall by auto
      let ?k = "nat (isLastIncludeIndex args)"
      have "take (Suc ?k) (take (Suc (nat (commitIndex rf))) (plog a p)) = take (Suc ?k) (plog a p)"
        using A(4) by (simp add: min_absorb1)
      then have "settled (commitQuorum n) a (currentTerm rf) (take (Suc ?k) (plog a p))"
        using settled_take [OF R(6), of "Suc ?k"] by simp
      moreover have "?k < length (plog a p)" using A(3,4) D(9) by simp
      ultimately have "msg_ok n a (InstallCall p q args :: ('c, 'b) msg)"
        using A(2-6) L [OF A(1)] D(3) q by (simp add: Let_def)
      then show ?thesis using Some SendInstall A(7,8) by simp
    next
      case (SendAppend args)
      have A: "rstate rf = Leader" "aeTerm args = currentTerm rf" "0 \<le> aePrevLogIndex args"
        "nat (aePrevLogIndex args) + length (aeEntries args) < length (plog a p)"
        "aePrevLogTerm args = leTerm (plog a p ! nat (aePrevLogIndex args))"
        "aeEntries args = take (length (aeEntries args)) (drop (Suc (nat (aePrevLogIndex args))) (plog a p))"
        "aeLeaderCommit args = commitIndex rf"
        using X Some SendAppend by simp_all
      have "msg_ok n a (AppendCall p q args :: ('c, 'b) msg)"
        using A L [OF A(1)] D(3,9,16) q R(6) by (simp add: Let_def nat_less_iff)
      then show ?thesis using Some SendAppend by simp
    qed
  qed
qed

lemma restart_rel:
  assumes rel: "node_rel n p rf done a"
  shows "node_rel n p (MakeRaft n p now rnd (persister rf)) done a"
proof -
  note R = node_relD [OF rel]
  note D = node_okD [OF R(1)]
  note M = restart_ok [OF R(1), of now rnd]
  let ?li = "nat (lastIncludeIndex rf)"
  have "take (Suc ?li) (take (Suc (nat (commitIndex rf))) (plog a p)) = take (Suc ?li) (plog a p)"
    using D(7,8) by (simp add: min_absorb1)
  then have "settled (commitQuorum n) a (currentTerm rf) (take (Suc ?li) (plog a p))"
    using settled_take [OF R(6), of "Suc ?li"] by simp
  then show ?thesis using M R(2,3) by (intro node_relI) (simp_all add: leads_def stands_def)
qed

lemma snapshot_rel:
  assumes rel: "node_rel n p rf done a"
  shows "\<exists>rf'. rf_Snapshot rf i (Some d) = Some rf' \<and> node_rel n p rf' done a"
  using snapshot_ok [OF node_relD(1) [OF rel]] node_rel_same [OF rel] by blast

section \<open>Messages that have been applied\<close>

text \<open>An applied command is the entry at its index of a committed prefix.\<close>

definition applied_ok :: "nat \<Rightarrow> 'c proto \<Rightarrow> ('c, 'b) ApplyMsg \<Rightarrow> bool" where
  "applied_ok n a m \<longleftrightarrow> (\<exists>T X i. settled (commitQuorum n) a T X \<and> 0 < i \<and> i < length X \<and>
     (CommandValid m \<longrightarrow> CommandIndex m = int i \<and> Command m = leCommand (X ! i)) \<and>
     (SnapshotValid m \<longrightarrow> SnapshotIndex m = int i \<and> SnapshotTerm m = leTerm (X ! i)))"

lemma applied_extends: "extends a a' \<Longrightarrow> applied_ok n a m \<Longrightarrow> applied_ok n a' m"
  unfolding applied_ok_def by (meson settled_extends order_refl)

lemma applier_rel:
  assumes rel: "node_rel n p rf done a"
  shows "\<exists>rf' ms. applier rf = Some (rf', ms) \<and> node_rel n p rf' done a \<and>
    (\<forall>m \<in> set ms. applied_ok n a m)"
proof -
  note R = node_relD [OF rel]
  note D = node_okD [OF R(1)]
  let ?X = "take (Suc (nat (commitIndex rf))) (plog a p)"
  have len: "length ?X = Suc (nat (commitIndex rf))" using D(9,16) by simp
  obtain rf' ms where f: "applier rf = Some (rf', ms)" "node_ok n p rf' (plog a p)" "same_role rf rf'"
    "pendingSnapshot rf \<noteq> None \<longrightarrow>
       ms = [\<lparr>CommandValid = False, Command = None, CommandIndex = 0, SnapshotValid = True,
              SnapshotData = pendingSnapshot rf, SnapshotTerm = pendingSnapshotTerm rf,
              SnapshotIndex = pendingSnapshotIndex rf\<rparr>]"
    "pendingSnapshot rf = None \<longrightarrow>
       ms = map (\<lambda>i. \<lparr>CommandValid = True, Command = leCommand (plog a p ! i), CommandIndex = int i,
              SnapshotValid = False, SnapshotData = None, SnapshotTerm = 0, SnapshotIndex = 0\<rparr>)
            [nat (applyIndex rf + 1)..<nat (commitIndex rf + 1)]"
    using applier_ok [OF R(1)] by (elim exE conjE) (rule that, assumption+, simp_all)
  have "applied_ok n a m" if m: "m \<in> set ms" for m
  proof (cases "pendingSnapshot rf = None")
    case True
    then obtain i where i: "nat (applyIndex rf + 1) \<le> i" "i < nat (commitIndex rf + 1)"
      "m = \<lparr>CommandValid = True, Command = leCommand (plog a p ! i), CommandIndex = int i,
            SnapshotValid = False, SnapshotData = None, SnapshotTerm = 0, SnapshotIndex = 0\<rparr>"
      using m f(5) by auto
    then have "0 < i" "i < length ?X" "?X ! i = plog a p ! i" using len D(17) by auto
    then show ?thesis using R(6) i(3) unfolding applied_ok_def
      by (intro exI [of _ "currentTerm rf"] exI [of _ ?X] exI [of _ i]) simp
  next
    case False
    let ?i = "nat (pendingSnapshotIndex rf)"
    have P: "0 < pendingSnapshotIndex rf" "pendingSnapshotIndex rf \<le> commitIndex rf"
      "pendingSnapshotTerm rf = leTerm (plog a p ! ?i)"
      using D(8,12) False by (auto simp: pending_ok_def)
    then have "0 < ?i" "?i < length ?X" "?X ! ?i = plog a p ! ?i" using len by auto
    then show ?thesis using R(6) P f(4) False m unfolding applied_ok_def
      by (intro exI [of _ "currentTerm rf"] exI [of _ ?X] exI [of _ ?i]) simp
  qed
  then show ?thesis using f(1) node_rel_same [OF rel f(3,2)] by blast
qed

section \<open>The cluster against the protocol\<close>

definition coupled :: "('c, 'b) cluster \<Rightarrow> 'c proto \<Rightarrow> bool" where
  "coupled s a \<longleftrightarrow>
     proto_inv (electQuorum (csize s)) a \<and>
     (\<forall>p < csize s. node_rel (csize s) p (node s p) (set (voteDone s)) a) \<and>
     (\<forall>m \<in> set (net s). msg_ok (csize s) a m) \<and>
     (\<forall>(p, m) \<in> set (history s). applied_ok (csize s) a m)"

lemma coupledD:
  assumes "coupled s a"
  shows "proto_inv (electQuorum (csize s)) a"
    "p < csize s \<Longrightarrow> node_rel (csize s) p (node s p) (set (voteDone s)) a"
    "m \<in> set (net s) \<Longrightarrow> msg_ok (csize s) a m"
    "(p, k) \<in> set (history s) \<Longrightarrow> applied_ok (csize s) a k"
  using assms by (auto simp: coupled_def)

text \<open>What one event of the cluster is to the protocol: a number of its steps.\<close>

definition evolves :: "nat \<Rightarrow> 'c proto \<Rightarrow> 'c proto \<Rightarrow> bool" where
  "evolves n a a' \<longleftrightarrow> extends a a' \<and> (proto_step (electQuorum n))\<^sup>*\<^sup>* a a'"

lemma evolves_refl [simp]: "evolves n a a"
  by (simp add: evolves_def extends_refl)

lemma evolves_trans: "evolves n a b \<Longrightarrow> evolves n b c \<Longrightarrow> evolves n a c"
  by (auto simp: evolves_def intro: extends_trans)

lemma update_csize [simp]: "csize (update s p rf ms) = csize s"
  by (simp add: update_def)

lemma exec_csize: "cluster_exec s e = Some s' \<Longrightarrow> csize s' = csize s"
  by (cases e) (auto simp: elect_def deliverVote_def returnVote_def replicate_to_def deliverAppend_def
      returnAppend_def deliverInstall_def returnInstall_def propose_at_def compact_at_def apply_at_def
      crash_at_def Let_def split: if_splits Option.bind_splits option.splits msg.splits)

text \<open>One peer acts: its new state, its messages and what it applies are related.\<close>

lemma coupled_act:
  assumes c: "coupled s a" and act: "acts (csize s) p a a'"
    and rel: "node_rel (csize s) p rf (set (voteDone s')) a'"
    and s': "csize s' = csize s" "node s' = (node s)(p := rf)" "net s' = net s @ ms"
      "set (voteDone s) \<subseteq> set (voteDone s')" "set (history s') \<subseteq> set (history s) \<union> H"
    and ms: "\<And>m. m \<in> set ms \<Longrightarrow> msg_ok (csize s) a' m"
    and H: "\<And>q k. (q, k) \<in> H \<Longrightarrow> applied_ok (csize s) a' k"
  shows "coupled s' a' \<and> evolves (csize s) a a'"
proof -
  note A = actsD [OF act] and C = coupledD [OF c]
  have "node_rel (csize s) q (node s' q) (set (voteDone s')) a'" if "q < csize s" for q
    using that rel s'(2) node_rel_other [OF act _ s'(4) C(2)] by (cases "q = p") auto
  moreover have "msg_ok (csize s) a' m" if "m \<in> set (net s')" for m
    using that s'(3) ms msg_ok_extends [OF A(2) C(3)] by auto
  moreover have "applied_ok (csize s) a' k" if "(q, k) \<in> set (history s')" for q k
    using that s'(5) H applied_extends [OF A(2) C(4)] by blast
  ultimately show ?thesis using A(1,2,8) s'(1) by (auto simp: coupled_def evolves_def)
qed

lemma coupled_update:
  assumes "coupled s a" "acts (csize s) p a a'"
    "node_rel (csize s) p rf (set (voteDone s)) a'" "\<And>m. m \<in> set ms \<Longrightarrow> msg_ok (csize s) a' m"
  shows "coupled (update s p rf ms) a' \<and> evolves (csize s) a a'"
  by (rule coupled_act [OF assms(1,2), where rf = rf and ms = ms and H = "{}"])
    (use assms(3,4) in \<open>simp_all add: update_def\<close>)

lemma message_in: "message s k = Some m \<Longrightarrow> m \<in> set (net s)"
  by (auto simp: message_def split: if_splits)

lemma coupled_refl: "coupled s a \<Longrightarrow> \<exists>s' a'. Some s = Some s' \<and> coupled s' a' \<and> evolves (csize s) a a'"
  by auto

lemma elect_coupled:
  assumes c: "coupled s a"
  shows "\<exists>s' a'. elect s p now rnd = Some s' \<and> coupled s' a' \<and> evolves (csize s) a a'"
proof (cases "p < csize s \<and> ticker now (node s p)")
  case False
  then show ?thesis using coupled_refl [OF c] by (auto simp: elect_def)
next
  case True
  note C = coupledD [OF c]
  have nl: "rstate (node s p) \<noteq> Leader" using True by (simp add: ticker_def)
  obtain rf args a' where r: "startElection now rnd (node s p) = Some (rf, Some args)"
      "acts (csize s) p a a'" "node_rel (csize s) p rf (set (voteDone s)) a'"
      "\<forall>q < csize s. q \<noteq> p \<longrightarrow> msg_ok (csize s) a' (VoteCall p q args :: ('a, 'b) msg)"
    using startElection_rel [OF C(2) C(1) nl] True by blast
  have "coupled (update s p rf (map (\<lambda>q. VoteCall p q args) (filter (\<lambda>q. q \<noteq> p) [0..<csize s]))) a' \<and>
      evolves (csize s) a a'"
    by (rule coupled_update [OF c r(2,3)]) (use r(4) in \<open>auto simp del: msg_ok.simps\<close>)
  then show ?thesis using True r(1) by (auto simp: elect_def)
qed

lemma deliverVote_coupled:
  assumes c: "coupled s a"
  shows "\<exists>s' a'. deliverVote s k now rnd = Some s' \<and> coupled s' a' \<and> evolves (csize s) a a'"
proof (cases "\<exists>p q args. message s k = Some (VoteCall p q args)")
  case False
  then have "deliverVote s k now rnd = Some s"
    by (auto simp: deliverVote_def split: option.splits msg.splits)
  then show ?thesis using coupled_refl [OF c] by simp
next
  case True
  then obtain p q args where m: "message s k = Some (VoteCall p q args)" by blast
  note C = coupledD [OF c]
  have ok: "msg_ok (csize s) a (VoteCall p q args :: ('a, 'b) msg)" by (rule C(3) [OF message_in [OF m]])
  then have q: "q < csize s" by simp
  obtain rf reply a' where r: "RequestVote now rnd (node s q) args = Some (rf, reply)"
      "acts (csize s) q a a'" "node_rel (csize s) q rf (set (voteDone s)) a'"
      "msg_ok (csize s) a' (VoteReply p q args reply :: ('a, 'b) msg)"
    using RequestVote_rel [OF C(2) [OF q] C(1) ok] by blast
  show ?thesis using m r coupled_update [OF c r(2,3), of "[VoteReply p q args reply]"]
    by (auto simp: deliverVote_def)
qed

lemma deliverAppend_coupled:
  assumes c: "coupled s a"
  shows "\<exists>s' a'. deliverAppend s k now = Some s' \<and> coupled s' a' \<and> evolves (csize s) a a'"
proof (cases "\<exists>p q args. message s k = Some (AppendCall p q args)")
  case False
  then have "deliverAppend s k now = Some s"
    by (auto simp: deliverAppend_def split: option.splits msg.splits)
  then show ?thesis using coupled_refl [OF c] by simp
next
  case True
  then obtain p q args where m: "message s k = Some (AppendCall p q args)" by blast
  note C = coupledD [OF c]
  have ok: "msg_ok (csize s) a (AppendCall p q args :: ('a, 'b) msg)" by (rule C(3) [OF message_in [OF m]])
  then have q: "q < csize s" by simp
  obtain rf reply a' where r: "AppendEntries now (node s q) args = Some (rf, reply)"
      "acts (csize s) q a a'" "node_rel (csize s) q rf (set (voteDone s)) a'"
      "msg_ok (csize s) a' (AppendReply p q args reply :: ('a, 'b) msg)"
    using AppendEntries_rel [OF C(2) [OF q] C(1) ok] by blast
  show ?thesis using m r coupled_update [OF c r(2,3), of "[AppendReply p q args reply]"]
    by (auto simp: deliverAppend_def)
qed

lemma deliverInstall_coupled:
  assumes c: "coupled s a"
  shows "\<exists>s' a'. deliverInstall s k now = Some s' \<and> coupled s' a' \<and> evolves (csize s) a a'"
proof (cases "\<exists>p q args. message s k = Some (InstallCall p q args)")
  case False
  then have "deliverInstall s k now = Some s"
    by (auto simp: deliverInstall_def split: option.splits msg.splits)
  then show ?thesis using coupled_refl [OF c] by simp
next
  case True
  then obtain p q args where m: "message s k = Some (InstallCall p q args)" by blast
  note C = coupledD [OF c]
  have ok: "msg_ok (csize s) a (InstallCall p q args :: ('a, 'b) msg)" by (rule C(3) [OF message_in [OF m]])
  then have q: "q < csize s" by simp
  obtain rf reply a' where r: "InstallSnapshot now (node s q) args = Some (rf, reply)"
      "acts (csize s) q a a'" "node_rel (csize s) q rf (set (voteDone s)) a'"
      "msg_ok (csize s) a' (InstallReply p q args reply :: ('a, 'b) msg)"
    using InstallSnapshot_rel [OF C(2) [OF q] C(1) ok] by blast
  show ?thesis using m r coupled_update [OF c r(2,3), of "[InstallReply p q args reply]"]
    by (auto simp: deliverInstall_def)
qed

lemma returnVote_coupled:
  assumes c: "coupled s a"
  shows "\<exists>s' a'. returnVote s k = Some s' \<and> coupled s' a' \<and> evolves (csize s) a a'"
proof (cases "\<exists>p q args reply. message s k = Some (VoteReply p q args reply) \<and>
    (p, rvTerm args, q) \<notin> set (voteDone s)")
  case False
  then have "returnVote s k = Some s"
    by (auto simp: returnVote_def split: option.splits msg.splits)
  then show ?thesis using coupled_refl [OF c] by simp
next
  case True
  then obtain p q args reply where m: "message s k = Some (VoteReply p q args reply)"
    and new: "(p, rvTerm args, q) \<notin> set (voteDone s)" by blast
  note C = coupledD [OF c]
  have ok: "msg_ok (csize s) a (VoteReply p q args reply :: ('a, 'b) msg)"
    by (rule C(3) [OF message_in [OF m]])
  then have p: "p < csize s" by simp
  obtain rf a' where r: "handleVoteReply (node s p) args reply = Some rf" "acts (csize s) p a a'"
      "node_rel (csize s) p rf (insert (p, rvTerm args, q) (set (voteDone s))) a'"
    using handleVoteReply_rel [OF C(2) [OF p] C(1) ok new] by blast
  let ?s = "(update s p rf [])\<lparr>voteDone := (p, rvTerm args, q) # voteDone s\<rparr>"
  have "coupled ?s a' \<and> evolves (csize s) a a'"
    by (rule coupled_act [OF c r(2), where rf = rf and ms = "[]" and H = "{}"])
      (use r(3) in \<open>auto simp: update_def\<close>)
  then show ?thesis using m r new by (auto simp: returnVote_def)
qed

lemma returnAppend_coupled:
  assumes c: "coupled s a"
  shows "\<exists>s' a'. returnAppend s k = Some s' \<and> coupled s' a' \<and> evolves (csize s) a a'"
proof (cases "\<exists>p q args reply. message s k = Some (AppendReply p q args reply)")
  case False
  then have "returnAppend s k = Some s"
    by (auto simp: returnAppend_def split: option.splits msg.splits)
  then show ?thesis using coupled_refl [OF c] by simp
next
  case True
  then obtain p q args reply where m: "message s k = Some (AppendReply p q args reply)" by blast
  note C = coupledD [OF c]
  have ok: "msg_ok (csize s) a (AppendReply p q args reply :: ('a, 'b) msg)"
    by (rule C(3) [OF message_in [OF m]])
  then have p: "p < csize s" by simp
  obtain rf again a' where r: "handleAppendReply (node s p) q args reply True = Some (rf, again)"
      "acts (csize s) p a a'" "node_rel (csize s) p rf (set (voteDone s)) a'"
    using handleAppendReply_rel [OF C(2) [OF p] C(1) ok] by blast
  show ?thesis using m r coupled_update [OF c r(2,3), of "[]"]
    by (auto simp: returnAppend_def)
qed

lemma returnInstall_coupled:
  assumes c: "coupled s a"
  shows "\<exists>s' a'. returnInstall s k = Some s' \<and> coupled s' a' \<and> evolves (csize s) a a'"
proof (cases "\<exists>p q args reply. message s k = Some (InstallReply p q args reply)")
  case False
  then have "returnInstall s k = Some s"
    by (auto simp: returnInstall_def split: option.splits msg.splits)
  then show ?thesis using coupled_refl [OF c] by simp
next
  case True
  then obtain p q args reply where m: "message s k = Some (InstallReply p q args reply)" by blast
  note C = coupledD [OF c]
  have ok: "msg_ok (csize s) a (InstallReply p q args reply :: ('a, 'b) msg)"
    by (rule C(3) [OF message_in [OF m]])
  then have p: "p < csize s" by simp
  obtain rf again a' where r: "handleInstallReply (node s p) q args reply True = Some (rf, again)"
      "acts (csize s) p a a'" "node_rel (csize s) p rf (set (voteDone s)) a'"
    using handleInstallReply_rel [OF C(2) [OF p] C(1) ok] by blast
  show ?thesis using m r coupled_update [OF c r(2,3), of "[]"]
    by (auto simp: returnInstall_def)
qed

lemma replicate_coupled:
  assumes c: "coupled s a"
  shows "\<exists>s' a'. replicate_to s p q = Some s' \<and> coupled s' a' \<and> evolves (csize s) a a'"
proof (cases "p < csize s \<and> q < csize s \<and> p \<noteq> q")
  case False
  then show ?thesis using coupled_refl [OF c] by (auto simp: replicate_to_def)
next
  case True
  note C = coupledD [OF c]
  have rel: "node_rel (csize s) p (node s p) (set (voteDone s)) a" using C(2) True by simp
  obtain out where out: "replicator (node s p) q = Some out"
      "\<forall>args. out = SendAppend args \<longrightarrow> msg_ok (csize s) a (AppendCall p q args :: ('a, 'b) msg)"
      "\<forall>args. out = SendInstall args \<longrightarrow> msg_ok (csize s) a (InstallCall p q args :: ('a, 'b) msg)"
    using replicator_rel [OF rel] True by blast
  show ?thesis using True out coupled_update [OF c acts_refl [OF C(1)] rel,
      of "case out of NoSend \<Rightarrow> [] | SendAppend args \<Rightarrow> [AppendCall p q args]
          | SendInstall args \<Rightarrow> [InstallCall p q args]"]
    by (fastforce simp: replicate_to_def split: outgoing.splits)
qed

lemma propose_coupled:
  assumes c: "coupled s a"
  shows "\<exists>s' a'. propose_at s p x = Some s' \<and> coupled s' a' \<and> evolves (csize s) a a'"
proof (cases "p < csize s")
  case False
  then show ?thesis using coupled_refl [OF c] by (simp add: propose_at_def)
next
  case True
  note C = coupledD [OF c]
  obtain a' where a': "acts (csize s) p a a'"
      "node_rel (csize s) p (fst (Start (node s p) x)) (set (voteDone s)) a'"
    using Start_rel [OF C(2) [OF True] C(1)] by blast
  show ?thesis using True coupled_update [OF c a', of "[]"] by (auto simp: propose_at_def)
qed

lemma compact_coupled:
  assumes c: "coupled s a"
  shows "\<exists>s' a'. compact_at s p i d = Some s' \<and> coupled s' a' \<and> evolves (csize s) a a'"
proof (cases "p < csize s")
  case False
  then show ?thesis using coupled_refl [OF c] by (simp add: compact_at_def)
next
  case True
  note C = coupledD [OF c]
  obtain rf where rf: "rf_Snapshot (node s p) i (Some d) = Some rf"
      "node_rel (csize s) p rf (set (voteDone s)) a"
    using snapshot_rel [OF C(2) [OF True]] by blast
  have "coupled ((update s p rf [])\<lparr>taken := (i, d) # taken s\<rparr>) a \<and> evolves (csize s) a a"
    by (rule coupled_act [OF c acts_refl [OF C(1)], where rf = rf and ms = "[]" and H = "{}"])
      (use rf(2) in \<open>auto simp: update_def\<close>)
  then show ?thesis using True rf by (auto simp: compact_at_def)
qed

lemma apply_coupled:
  assumes c: "coupled s a"
  shows "\<exists>s' a'. apply_at s p = Some s' \<and> coupled s' a' \<and> evolves (csize s) a a'"
proof (cases "p < csize s")
  case False
  then show ?thesis using coupled_refl [OF c] by (simp add: apply_at_def)
next
  case True
  note C = coupledD [OF c]
  obtain rf ms where rf: "applier (node s p) = Some (rf, ms)"
      "node_rel (csize s) p rf (set (voteDone s)) a" "\<forall>m \<in> set ms. applied_ok (csize s) a m"
    using applier_rel [OF C(2) [OF True]] by blast
  let ?s = "(update s p rf [])\<lparr>applyCh := (applyCh s)(p := applyCh s p @ ms),
     history := history s @ map (Pair p) ms\<rparr>"
  have "coupled ?s a \<and> evolves (csize s) a a"
    by (rule coupled_act [OF c acts_refl [OF C(1)], where rf = rf and ms = "[]"
          and H = "set (map (Pair p) ms)"])
      (use rf(2,3) in \<open>auto simp: update_def\<close>)
  then show ?thesis using True rf by (auto simp: apply_at_def)
qed

lemma crash_coupled:
  assumes c: "coupled s a"
  shows "\<exists>s' a'. crash_at s p now rnd = Some s' \<and> coupled s' a' \<and> evolves (csize s) a a'"
proof (cases "p < csize s")
  case False
  then show ?thesis using coupled_refl [OF c] by (simp add: crash_at_def)
next
  case True
  note C = coupledD [OF c]
  let ?rf = "MakeRaft (csize s) p now rnd (persister (node s p))"
  have rel: "node_rel (csize s) p ?rf (set (voteDone s)) a" by (rule restart_rel [OF C(2) [OF True]])
  let ?s = "(update s p ?rf [])\<lparr>applyCh := (applyCh s)(p := []),
     applyBase := (applyBase s)(p := lastIncludeIndex ?rf)\<rparr>"
  have "coupled ?s a \<and> evolves (csize s) a a"
    by (rule coupled_act [OF c acts_refl [OF C(1)], where rf = ?rf and ms = "[]" and H = "{}"])
      (use rel in \<open>auto simp: update_def\<close>)
  then show ?thesis using True by (auto simp: crash_at_def Let_def)
qed

text \<open>Every event is possible without a panic, and keeps the relation.\<close>

lemma exec_coupled:
  "coupled s a \<Longrightarrow> \<exists>s' a'. cluster_exec s e = Some s' \<and> coupled s' a' \<and> evolves (csize s) a a'"
  by (cases e; simp only: cluster_exec.simps; elim elect_coupled deliverVote_coupled
      returnVote_coupled replicate_coupled deliverAppend_coupled returnAppend_coupled
      deliverInstall_coupled returnInstall_coupled propose_coupled compact_coupled
      apply_coupled crash_coupled)

lemma run_coupled:
  "coupled s a \<Longrightarrow> \<exists>s' a'. cluster_run s es = Some s' \<and> coupled s' a' \<and> evolves (csize s) a a'"
proof (induction es arbitrary: s a)
  case Nil
  then show ?case by auto
next
  case (Cons e es)
  obtain s1 a1 where 1: "cluster_exec s e = Some s1" "coupled s1 a1" "evolves (csize s) a a1"
    using exec_coupled [OF Cons.prems] by blast
  then show ?case
    using Cons.IH [OF 1(2)] evolves_trans [OF 1(3)] exec_csize [OF 1(1)] by fastforce
qed

lemma init_coupled: "coupled (cluster_init n now rnd) proto_init"
proof -
  have "node_rel n p (MakeRaft n p now (rnd p) MakePersister) {} proto_init" if "p < n" for p
    using fresh_ok [OF that, of now "rnd p"]
    by (intro node_relI) (simp_all add: proto_init_def MakeRaft_def MakePersister_def
        ReadRaftState_def leads_def stands_def settled_def)
  then show ?thesis using proto_inv_init by (auto simp: coupled_def cluster_init_def)
qed

end
