(* ===== verification/Raft_Service.thy ===== *)
theory Raft_Service
  imports Raft_Refine
begin

text \<open>
  What the service above a peer sees: its apply channel is a stream without gaps, and a
  snapshot it is handed was taken by a service at that index.
\<close>


section \<open>What the service sees\<close>

text \<open>
  The stream of one peer since it was last made: commands one after another from the base,
  snapshots forward. \<open>delivered\<close> is the index it has reached, \<open>None\<close> at a gap.
\<close>

fun delivered :: "int \<Rightarrow> ('c, 'b) ApplyMsg list \<Rightarrow> int option" where
  "delivered b [] = Some b"
| "delivered b (m # ms) =
     (if CommandValid m \<and> \<not> SnapshotValid m \<and> CommandIndex m = b + 1 then delivered (b + 1) ms
      else if SnapshotValid m \<and> \<not> CommandValid m \<and> b < SnapshotIndex m
      then delivered (SnapshotIndex m) ms
      else None)"

lemma delivered_append:
  "delivered b (xs @ ys) = do { k \<leftarrow> delivered b xs; delivered k ys }"
  by (induction xs arbitrary: b) auto

lemma delivered_batch:
  "lo \<le> hi \<Longrightarrow> 0 \<le> lo \<Longrightarrow> delivered lo (map (\<lambda>i. \<lparr>CommandValid = True, Command = f i, CommandIndex = int i,
      SnapshotValid = False, SnapshotData = None, SnapshotTerm = 0, SnapshotIndex = 0\<rparr>)
    [nat (lo + 1)..<nat (hi + 1)]) = Some hi"
proof (induction "nat (hi - lo)" arbitrary: lo)
  case 0
  then show ?case by simp
next
  case (Suc k)
  then have "[nat (lo + 1)..<nat (hi + 1)] = nat (lo + 1) # [nat (lo + 1 + 1)..<nat (hi + 1)]"
    by (subst upt_conv_Cons) (auto simp: nat_add_distrib)
  moreover have "k = nat (hi - (lo + 1))" "lo + 1 \<le> hi" "0 \<le> lo + 1"
    using Suc.hyps(2) Suc.prems by linarith+
  note Suc.hyps(1) [OF this]
  ultimately show ?case using Suc.prems by simp
qed

text \<open>The fields the applier reads, and the snapshot they come with.\<close>

definition same_stream :: "('c, 'b) raft \<Rightarrow> ('c, 'b) raft \<Rightarrow> bool" where
  "same_stream rf rf' \<longleftrightarrow>
     applyIndex rf' = applyIndex rf \<and> pendingSnapshot rf' = pendingSnapshot rf \<and>
     pendingSnapshotIndex rf' = pendingSnapshotIndex rf \<and>
     lastIncludeIndex rf' = lastIncludeIndex rf \<and> rsnapshot rf' = rsnapshot rf"

lemma same_stream_refl [simp]: "same_stream rf rf"
  by (simp add: same_stream_def)

lemma persist_stream [simp]: "same_stream rf (persist rf') = same_stream rf rf'"
  by (simp add: same_stream_def persist_def)

lemma field_stream [simp]:
  "same_stream rf (rf'\<lparr>currentTerm := t\<rparr>) = same_stream rf rf'"
  "same_stream rf (rf'\<lparr>votedFor := v\<rparr>) = same_stream rf rf'"
  "same_stream rf (rf'\<lparr>rstate := st\<rparr>) = same_stream rf rf'"
  "same_stream rf (rf'\<lparr>lastContact := now\<rparr>) = same_stream rf rf'"
  "same_stream rf (rf'\<lparr>electionTimeout := d\<rparr>) = same_stream rf rf'"
  "same_stream rf (rf'\<lparr>voteCount := k\<rparr>) = same_stream rf rf'"
  "same_stream rf (rf'\<lparr>commitIndex := i\<rparr>) = same_stream rf rf'"
  "same_stream rf (rf'\<lparr>rlog := l\<rparr>) = same_stream rf rf'"
  "same_stream rf (rf'\<lparr>nextIndex := ni\<rparr>) = same_stream rf rf'"
  "same_stream rf (rf'\<lparr>matchIndex := mi\<rparr>) = same_stream rf rf'"
  "same_stream rf (rf'\<lparr>notify := bs\<rparr>) = same_stream rf rf'"
  by (simp_all add: same_stream_def)

lemma signalOthers_stream [simp]: "same_stream rf (signalOthers ps rf') = same_stream rf rf'"
  using signalOthers_fields [of ps rf'] by auto

lemma startElection_stream: "startElection now rnd rf = Some (rf', x) \<Longrightarrow> same_stream rf rf'"
  by (auto simp: startElection_def Let_def split: if_splits Option.bind_splits)

lemma RequestVote_stream: "RequestVote now rnd rf args = Some (rf', r) \<Longrightarrow> same_stream rf rf'"
  by (auto simp: RequestVote_def Let_def split: if_splits Option.bind_splits)

lemma appendStage_stream: "appendStage rf args = Some rf' \<Longrightarrow> same_stream rf rf'"
  by (auto simp: appendStage_def Let_def split: if_splits Option.bind_splits)

lemma AppendEntries_stream: "AppendEntries now rf args = Some (rf', r) \<Longrightarrow> same_stream rf rf'"
  by (auto simp: AppendEntries_def Let_def commitStage_def split: if_splits Option.bind_splits
      dest!: appendStage_stream simp: same_stream_def)

lemma advance_stream: "advanceCommitIndex rf = Some rf' \<Longrightarrow> same_stream rf rf'"
  by (auto simp: advanceCommitIndex_def split: if_splits Option.bind_splits)

lemma setMatch_stream: "setMatch rf q k = Some rf' \<Longrightarrow> same_stream rf rf'"
  by (auto simp: setMatch_def same_stream_def split: if_splits Option.bind_splits dest!: advance_stream)

lemma handleAppendReply_stream:
  "handleAppendReply rf q args reply ok = Some (rf', b) \<Longrightarrow> same_stream rf rf'"
  by (auto simp: handleAppendReply_def stepDown_def split: if_splits Option.bind_splits
      dest!: setMatch_stream)

lemma handleInstallReply_stream:
  "handleInstallReply rf q args reply ok = Some (rf', b) \<Longrightarrow> same_stream rf rf'"
  by (auto simp: handleInstallReply_def stepDown_def split: if_splits Option.bind_splits
      dest!: setMatch_stream)

lemma handleVoteReply_stream: "handleVoteReply rf args reply = Some rf' \<Longrightarrow> same_stream rf rf'"
  by (auto simp: handleVoteReply_def stepDown_def becomeLeader_def Let_def
      split: if_splits Option.bind_splits)

lemma Start_stream: "same_stream rf (fst (Start rf c))"
  by (simp add: Start_def Let_def)

text \<open>The only two that touch them beside the applier: a new snapshot, the peer's own or the leader's.\<close>

lemma snapshot_stream:
  "rf_Snapshot rf i (Some d) = Some rf' \<Longrightarrow>
     applyIndex rf' = applyIndex rf \<and> pendingSnapshot rf' = pendingSnapshot rf \<and>
     pendingSnapshotIndex rf' = pendingSnapshotIndex rf \<and>
     (lastIncludeIndex rf' = lastIncludeIndex rf \<and> rsnapshot rf' = rsnapshot rf \<or>
      lastIncludeIndex rf < i \<and> lastIncludeIndex rf' = i \<and> rsnapshot rf' = Some d)"
  by (auto simp: rf_Snapshot_def truncateFront_def persist_def split: if_splits Option.bind_splits)

lemma install_stream:
  assumes ex: "InstallSnapshot now rf args = Some (rf', r)" and ac: "applyIndex rf \<le> commitIndex rf"
  shows "same_stream rf rf' \<or>
     applyIndex rf < isLastIncludeIndex args \<and> applyIndex rf' = isLastIncludeIndex args \<and>
     pendingSnapshot rf' = isData args \<and> pendingSnapshotIndex rf' = isLastIncludeIndex args \<and>
     lastIncludeIndex rf' = isLastIncludeIndex args \<and> rsnapshot rf' = isData args"
proof (cases "isTerm args < currentTerm rf \<or> isLastIncludeIndex args \<le> lastIncludeIndex rf \<or>
    isLastIncludeIndex args \<le> commitIndex rf")
  case True
  then have "same_stream rf rf'"
    using ex by (auto simp: InstallSnapshot_def Let_def split: if_splits)
  then show ?thesis ..
next
  case False
  then have new: "\<not> isTerm args < currentTerm rf" "\<not> isLastIncludeIndex args \<le> lastIncludeIndex rf"
    "\<not> isLastIncludeIndex args \<le> commitIndex rf" by auto
  have mx: "max (applyIndex rf) (isLastIncludeIndex args) = isLastIncludeIndex args"
    using new(3) ac by simp
  have "applyIndex rf' = isLastIncludeIndex args \<and>
     pendingSnapshot rf' = isData args \<and> pendingSnapshotIndex rf' = isLastIncludeIndex args \<and>
     lastIncludeIndex rf' = isLastIncludeIndex args \<and> rsnapshot rf' = isData args"
    using ex by (auto simp: InstallSnapshot_def new Let_def truncateFront_def mx
        split: Option.bind_splits if_splits)
  then show ?thesis using new(3) ac by simp
qed

section \<open>The invariant\<close>

definition stream_ok :: "('c, 'b) cluster \<Rightarrow> nat \<Rightarrow> bool" where
  "stream_ok s p \<longleftrightarrow> (\<exists>k. delivered (applyBase s p) (applyCh s p) = Some k \<and>
     (pendingSnapshot (node s p) = None \<longrightarrow> k = applyIndex (node s p)) \<and>
     (pendingSnapshot (node s p) \<noteq> None \<longrightarrow> k < applyIndex (node s p) \<and>
        pendingSnapshotIndex (node s p) = applyIndex (node s p)))"

definition snapshots_ok :: "(int \<times> 'b) list \<Rightarrow> ('c, 'b) raft \<Rightarrow> bool" where
  "snapshots_ok tk rf \<longleftrightarrow>
     0 \<le> lastIncludeIndex rf \<and> (lastIncludeIndex rf = 0 \<longrightarrow> rsnapshot rf = None) \<and>
     (0 < lastIncludeIndex rf \<longrightarrow>
        (\<exists>d. rsnapshot rf = Some d \<and> (lastIncludeIndex rf, d) \<in> set tk)) \<and>
     (\<forall>d. pendingSnapshot rf = Some d \<longrightarrow> (pendingSnapshotIndex rf, d) \<in> set tk)"

fun carries_ok :: "(int \<times> 'b) list \<Rightarrow> ('c, 'b) msg \<Rightarrow> bool" where
  "carries_ok tk (InstallCall p q args) \<longleftrightarrow>
     (\<exists>d. isData args = Some d \<and> (isLastIncludeIndex args, d) \<in> set tk)"
| "carries_ok tk m \<longleftrightarrow> True"

definition shows_ok :: "(int \<times> 'b) list \<Rightarrow> ('c, 'b) ApplyMsg \<Rightarrow> bool" where
  "shows_ok tk m \<longleftrightarrow> (SnapshotValid m \<longrightarrow>
     (\<exists>d. SnapshotData m = Some d \<and> (SnapshotIndex m, d) \<in> set tk))"

definition served :: "('c, 'b) cluster \<Rightarrow> bool" where
  "served s \<longleftrightarrow>
     (\<forall>p < csize s. stream_ok s p \<and> snapshots_ok (taken s) (node s p)) \<and>
     (\<forall>m \<in> set (net s). carries_ok (taken s) m) \<and>
     (\<forall>(p, m) \<in> set (history s). shows_ok (taken s) m)"

lemma servedD:
  assumes "served s"
  shows "p < csize s \<Longrightarrow> stream_ok s p" "p < csize s \<Longrightarrow> snapshots_ok (taken s) (node s p)"
    "m \<in> set (net s) \<Longrightarrow> carries_ok (taken s) m" "(q, k) \<in> set (history s) \<Longrightarrow> shows_ok (taken s) k"
  using assms by (auto simp: served_def)

lemma served_update:
  assumes sv: "served s" and st: "same_stream (node s p) rf" and ms: "\<forall>m \<in> set ms. carries_ok (taken s) m"
  shows "served (update s p rf ms)"
  using sv st ms unfolding served_def update_def stream_ok_def snapshots_ok_def same_stream_def
  by (auto simp: fun_upd_def)

lemma taken_mono:
  "snapshots_ok tk rf \<Longrightarrow> snapshots_ok (x # tk) rf" "carries_ok tk m \<Longrightarrow> carries_ok (x # tk) m"
  "shows_ok tk am \<Longrightarrow> shows_ok (x # tk) am"
  by (auto simp: snapshots_ok_def shows_ok_def) (cases m; auto)

lemma stream_ok_cong:
  "stream_ok s p \<Longrightarrow> applyBase s' p = applyBase s p \<Longrightarrow> applyCh s' p = applyCh s p \<Longrightarrow>
   applyIndex (node s' p) = applyIndex (node s p) \<Longrightarrow>
   pendingSnapshot (node s' p) = pendingSnapshot (node s p) \<Longrightarrow>
   pendingSnapshotIndex (node s' p) = pendingSnapshotIndex (node s p) \<Longrightarrow> stream_ok s' p"
  by (simp add: stream_ok_def)

lemma elect_served: "served s \<Longrightarrow> elect s p now rnd = Some s' \<Longrightarrow> served s'"
  by (auto simp: elect_def split: if_splits Option.bind_splits option.splits
      intro!: served_update dest: startElection_stream)

lemma deliverVote_served: "served s \<Longrightarrow> deliverVote s k now rnd = Some s' \<Longrightarrow> served s'"
  by (auto simp: deliverVote_def split: option.splits msg.splits Option.bind_splits
      intro!: served_update dest: RequestVote_stream)

lemma deliverAppend_served: "served s \<Longrightarrow> deliverAppend s k now = Some s' \<Longrightarrow> served s'"
  by (auto simp: deliverAppend_def split: option.splits msg.splits Option.bind_splits
      intro!: served_update dest: AppendEntries_stream)

lemma returnVote_served:
  assumes sv: "served s" and ex: "returnVote s k = Some s'" shows "served s'"
proof -
  have d: "served (x\<lparr>voteDone := ds\<rparr>) = served x" for x :: "('c, 'd) cluster" and ds
    by (simp add: served_def stream_ok_def)
  show ?thesis using sv ex
    by (auto simp: returnVote_def d split: option.splits msg.splits Option.bind_splits if_splits
        intro!: served_update dest: handleVoteReply_stream)
qed

lemma returnAppend_served: "served s \<Longrightarrow> returnAppend s k = Some s' \<Longrightarrow> served s'"
  by (auto simp: returnAppend_def split: option.splits msg.splits Option.bind_splits
      intro!: served_update dest: handleAppendReply_stream)

lemma returnInstall_served: "served s \<Longrightarrow> returnInstall s k = Some s' \<Longrightarrow> served s'"
  by (auto simp: returnInstall_def split: option.splits msg.splits Option.bind_splits
      intro!: served_update dest: handleInstallReply_stream)

lemma propose_served: "served s \<Longrightarrow> propose_at s p c = Some s' \<Longrightarrow> served s'"
  by (auto simp: propose_at_def split: if_splits intro!: served_update Start_stream)

lemma replicate_served:
  assumes sv: "served s" and c: "coupled s a" and ex: "replicate_to s p q = Some s'"
  shows "served s'"
proof (cases "p < csize s \<and> q < csize s \<and> p \<noteq> q")
  case False
  then show ?thesis using sv ex by (auto simp: replicate_to_def)
next
  case True
  then have rel: "node_rel (csize s) p (node s p) (set (voteDone s)) a" by (intro coupledD(2) [OF c]) simp
  obtain out where out: "replicator (node s p) q = Some out"
      "\<forall>args. out = SendInstall args \<longrightarrow> msg_ok (csize s) a (InstallCall p q args :: ('a, 'b) msg) \<and>
       isLastIncludeIndex args = lastIncludeIndex (node s p) \<and> isData args = rsnapshot (node s p)"
    using replicator_rel [OF rel] True by blast
  have snap: "snapshots_ok (taken s) (node s p)" using servedD(2) [OF sv] True by simp
  have "\<forall>m \<in> set (case out of NoSend \<Rightarrow> [] | SendAppend args \<Rightarrow> [AppendCall p q args]
          | SendInstall args \<Rightarrow> [InstallCall p q args]). carries_ok (taken s) m"
    using snap out(2) by (cases out) (auto simp: snapshots_ok_def)
  then show ?thesis using True ex out(1) served_update [OF sv, of p "node s p"]
    by (auto simp: replicate_to_def)
qed

text \<open>Only peer \<open>p\<close> changes what its service sees.\<close>

lemma served_change:
  assumes sv: "served s" and s': "csize s' = csize s" "node s' = (node s)(p := rf)"
    "taken s' = taken s" "net s' = net s @ ms"
    "\<And>q. q \<noteq> p \<Longrightarrow> applyBase s' q = applyBase s q \<and> applyCh s' q = applyCh s q"
    "set (history s') \<subseteq> set (history s) \<union> H"
    and ms: "\<forall>m \<in> set ms. carries_ok (taken s) m" and H: "\<forall>(q, m) \<in> H. shows_ok (taken s) m"
    and p: "stream_ok s' p" "snapshots_ok (taken s) rf"
  shows "served s'"
  unfolding served_def
proof (intro conjI allI impI ballI)
  fix q assume q: "q < csize s'"
  show "stream_ok s' q"
    using p(1) s'(1,2,5) servedD(1) [OF sv, of q] q by (cases "q = p") (auto intro: stream_ok_cong)
  show "snapshots_ok (taken s') (node s' q)"
    using p(2) s'(1,2,3) servedD(2) [OF sv, of q] q by (cases "q = p") auto
next
  show "m \<in> set (net s') \<Longrightarrow> carries_ok (taken s') m" for m
    using s'(3,4) ms servedD(3) [OF sv, of m] by auto
  show "x \<in> set (history s') \<Longrightarrow> case x of (q, m) \<Rightarrow> shows_ok (taken s') m" for x
    using s'(3,6) H servedD(4) [OF sv] by (cases x) fastforce
qed

lemma deliverInstall_served:
  assumes sv: "served s" and c: "coupled s a" and ex: "deliverInstall s k now = Some s'"
  shows "served s'"
proof (cases "\<exists>p q args. message s k = Some (InstallCall p q args)")
  case False
  then show ?thesis using sv ex by (auto simp: deliverInstall_def split: option.splits msg.splits)
next
  case True
  then obtain p q args where m: "message s k = Some (InstallCall p q args)" by blast
  have "msg_ok (csize s) a (InstallCall p q args :: ('a, 'b) msg)" by (rule coupledD(3) [OF c message_in [OF m]])
  then have q: "q < csize s" and pos: "0 < isLastIncludeIndex args" by auto
  obtain rf r where r: "InstallSnapshot now (node s q) args = Some (rf, r)"
      "s' = update s q rf [InstallReply p q args r]"
    using ex m by (auto simp: deliverInstall_def split: Option.bind_splits)
  obtain d where d: "isData args = Some d" "(isLastIncludeIndex args, d) \<in> set (taken s)"
    using servedD(3) [OF sv message_in [OF m]] by auto
  note D = node_okD [OF node_relD(1) [OF coupledD(2) [OF c q]]]
  consider (same) "same_stream (node s q) rf"
    | (new) "applyIndex (node s q) < isLastIncludeIndex args" "applyIndex rf = isLastIncludeIndex args"
      "pendingSnapshot rf = Some d" "pendingSnapshotIndex rf = isLastIncludeIndex args"
      "lastIncludeIndex rf = isLastIncludeIndex args" "rsnapshot rf = Some d"
    using install_stream [OF r(1) D(8)] d(1) by auto
  then show ?thesis
  proof cases
    case same
    then show ?thesis unfolding r(2) by (intro served_update [OF sv]) simp_all
  next
    case new
    show ?thesis
    proof (rule served_change [OF sv, where p = q and rf = rf and H = "{}"])
      show "stream_ok s' q" using servedD(1) [OF sv q] new r(2)
        by (auto simp: stream_ok_def update_def)
      show "snapshots_ok (taken s) rf" using new d(2) pos by (simp add: snapshots_ok_def)
    qed (use r(2) in \<open>auto simp: update_def\<close>)
  qed
qed

lemma compact_served:
  assumes sv: "served s" and ex: "compact_at s p i d = Some s'"
  shows "served s'"
proof (cases "p < csize s")
  case False
  then show ?thesis using sv ex by (simp add: compact_at_def)
next
  case True
  let ?s = "s\<lparr>taken := (i, d) # taken s\<rparr>"
  obtain rf where r: "rf_Snapshot (node s p) i (Some d) = Some rf"
      "s' = (update s p rf [])\<lparr>taken := (i, d) # taken s\<rparr>"
    using ex True by (auto simp: compact_at_def split: Option.bind_splits)
  note S = snapshot_stream [OF r(1)]
  have sv': "served ?s" using sv taken_mono by (fastforce simp: served_def stream_ok_def)
  show ?thesis
  proof (rule served_change [OF sv', where p = p and rf = rf and H = "{}" and ms = "[]"])
    show "stream_ok s' p" using servedD(1) [OF sv True] S r(2) by (auto simp: stream_ok_def update_def)
    show "snapshots_ok (taken ?s) rf"
      using servedD(2) [OF sv True] S by (auto simp: snapshots_ok_def)
  qed (use r(2) in \<open>auto simp: update_def\<close>)
qed

lemma apply_served:
  assumes sv: "served s" and c: "coupled s a" and ex: "apply_at s p = Some s'"
  shows "served s'"
proof (cases "p < csize s")
  case False
  then show ?thesis using sv ex by (simp add: apply_at_def)
next
  case True
  note N = node_relD(1) [OF coupledD(2) [OF c True]]
  note D = node_okD [OF N]
  obtain rf ms where r: "applier (node s p) = Some (rf, ms)"
      "s' = (update s p rf [])\<lparr>applyCh := (applyCh s)(p := applyCh s p @ ms),
         history := history s @ map (Pair p) ms\<rparr>"
    using ex True by (auto simp: apply_at_def split: Option.bind_splits)
  obtain k where k: "delivered (applyBase s p) (applyCh s p) = Some k"
     "pendingSnapshot (node s p) = None \<Longrightarrow> k = applyIndex (node s p)"
     "pendingSnapshot (node s p) \<noteq> None \<Longrightarrow> k < applyIndex (node s p) \<and>
        pendingSnapshotIndex (node s p) = applyIndex (node s p)"
    using servedD(1) [OF sv True] by (auto simp: stream_ok_def)
  note Z = servedD(2) [OF sv True]
  have "\<exists>k'. delivered k ms = Some k' \<and> pendingSnapshot rf = None \<and> k' = applyIndex rf \<and>
      snapshots_ok (taken s) rf \<and> (\<forall>m \<in> set ms. shows_ok (taken s) m)"
  proof (cases "pendingSnapshot (node s p)")
    case None
    then have f: "rf = (node s p)\<lparr>applyIndex := commitIndex (node s p)\<rparr>"
       "ms = map (\<lambda>i. \<lparr>CommandValid = True, Command = leCommand (plog a p ! i), CommandIndex = int i,
              SnapshotValid = False, SnapshotData = None, SnapshotTerm = 0, SnapshotIndex = 0\<rparr>)
            [nat (applyIndex (node s p) + 1)..<nat (commitIndex (node s p) + 1)]"
      using applier_ok [OF N] r(1) by auto
    have "delivered k ms = Some (commitIndex (node s p))"
      unfolding f(2) k(2) [OF None] by (rule delivered_batch [OF D(8,17)])
    then show ?thesis using None f Z by (auto simp: snapshots_ok_def shows_ok_def)
  next
    case (Some d)
    then have f: "rf = (node s p)\<lparr>pendingSnapshot := None\<rparr>"
       "ms = [\<lparr>CommandValid = False, Command = None, CommandIndex = 0, SnapshotValid = True,
              SnapshotData = pendingSnapshot (node s p), SnapshotTerm = pendingSnapshotTerm (node s p),
              SnapshotIndex = pendingSnapshotIndex (node s p)\<rparr>]"
      using applier_ok [OF N] r(1) by auto
    then show ?thesis using Some k(3) Z by (simp add: snapshots_ok_def shows_ok_def)
  qed
  then obtain k' where k': "delivered k ms = Some k'" "pendingSnapshot rf = None" "k' = applyIndex rf"
      "snapshots_ok (taken s) rf" "\<forall>m \<in> set ms. shows_ok (taken s) m" by blast
  show ?thesis
  proof (rule served_change [OF sv, where p = p and rf = rf and H = "set (map (Pair p) ms)" and ms = "[]"])
    show "stream_ok s' p" using k(1) k' r(2) by (simp add: stream_ok_def update_def delivered_append)
  qed (use r(2) k' in \<open>auto simp: update_def\<close>)
qed

lemma crash_served:
  assumes sv: "served s" and c: "coupled s a" and ex: "crash_at s p now rnd = Some s'"
  shows "served s'"
proof (cases "p < csize s")
  case False
  then show ?thesis using sv ex by (simp add: crash_at_def)
next
  case True
  let ?rf = "MakeRaft (csize s) p now rnd (persister (node s p))"
  note R = restart_ok [OF node_relD(1) [OF coupledD(2) [OF c True]], of now rnd]
  have s': "s' = (update s p ?rf [])\<lparr>applyCh := (applyCh s)(p := []),
     applyBase := (applyBase s)(p := lastIncludeIndex ?rf)\<rparr>"
    using ex True by (simp add: crash_at_def Let_def)
  show ?thesis
  proof (rule served_change [OF sv, where p = p and rf = ?rf and H = "{}" and ms = "[]"])
    show "stream_ok s' p" using R s' by (simp add: stream_ok_def update_def)
    show "snapshots_ok (taken s) ?rf"
      using R servedD(2) [OF sv True] by (simp add: snapshots_ok_def)
  qed (use s' in \<open>auto simp: update_def\<close>)
qed

lemma exec_served:
  assumes "served s" "coupled s a" "cluster_exec s e = Some s'"
  shows "served s'"
  using assms by (cases e) (auto intro: elect_served deliverVote_served returnVote_served
      replicate_served deliverAppend_served returnAppend_served deliverInstall_served
      returnInstall_served propose_served compact_served apply_served crash_served)

lemma run_served: "served s \<Longrightarrow> coupled s a \<Longrightarrow> cluster_run s es = Some s' \<Longrightarrow> served s'"
proof (induction es arbitrary: s a)
  case (Cons e es)
  obtain s1 a1 where 1: "cluster_exec s e = Some s1" "coupled s1 a1"
    using exec_coupled [OF Cons.prems(2)] by blast
  then show ?case using Cons exec_served [OF Cons.prems(1,2) 1(1)] by auto
qed simp

lemma init_served: "served (cluster_init n now rnd)"
  by (simp add: served_def cluster_init_def stream_ok_def snapshots_ok_def MakeRaft_def
      MakePersister_def ReadRaftState_def ReadSnapshot_def)

end
