(* ===== verification/Raft_Safety.thy ===== *)
theory Raft_Safety
  imports Raft_Service
begin

text \<open>
  The guarantees of a Raft cluster, for every number of peers and every sequence of events from
  the initial state: stated on the states of the code, proved through the relation with the
  abstract protocol. The two runs at the end evaluate the model: an election, replication,
  commitment and compaction (\<open>demo_run\<close>), then a second leader that brings an empty follower
  up to date with a snapshot (\<open>demo_more\<close>).
\<close>

section \<open>Runs\<close>

lemma run_csize: "cluster_run s es = Some s' \<Longrightarrow> csize s' = csize s"
  by (induction es arbitrary: s) (auto split: Option.bind_splits dest: exec_csize)

lemma reachable:
  assumes "cluster_run (cluster_init n now rnd) es = Some s"
  obtains a where "coupled s a" "csize s = n"
  using run_coupled [OF init_coupled [of n now rnd], of es] run_csize [OF assms] assms
  by (auto simp: cluster_init_def)

text \<open>Two points of one run and the protocol states they stand for.\<close>

lemma reachable_pair:
  assumes "cluster_run (cluster_init n now rnd) es = Some s" "cluster_run s fs = Some s'"
  obtains a a' where "coupled s a" "coupled s' a'" "extends a a'" "csize s = n" "csize s' = n"
proof -
  obtain a where a: "coupled s a" "csize s = n" by (rule reachable [OF assms(1)])
  obtain a' where "coupled s' a'" "extends a a'"
    using run_coupled [OF a(1), of fs] assms(2) by (auto simp: evolves_def)
  then show thesis using that a run_csize [OF assms(2)] by simp
qed

lemma rel_entry:
  assumes "node_rel n p rf done a" "lastIncludeIndex rf \<le> i" "i \<le> lastIndex rf"
  obtains e where "entry rf i = Some e" "leTerm e = leTerm (plog a p ! nat i)" "0 \<le> i"
    "nat i < length (plog a p)" "lastIncludeIndex rf < i \<Longrightarrow> e = plog a p ! nat i"
proof -
  note D = node_okD [OF node_relD(1) [OF assms(1)]]
  have i: "i < int (length (plog a p))" "0 \<le> i" using assms D(13,14) by auto
  then show thesis using holds_entry [OF D(5) assms(2) i(1)] that by (metis nat_less_iff)
qed

section \<open>Two concrete runs\<close>

definition demo_run :: "(nat, nat) event list" where
  "demo_run =
     [Elect 0 10000 5, DeliverVote 0 10 5, ReturnVote 2, Propose 0 7, Propose 0 8, Replicate 0 1,
      DeliverAppend 3 20, ReturnAppend 4, Replicate 0 1, DeliverAppend 5 30, Apply 0, Apply 1,
      Compact 0 2 99]"

definition demo_more :: "(nat, nat) event list" where
  "demo_more =
     [Elect 1 20000 3, DeliverVote 8 40 3, ReturnVote 9, Propose 1 9, Compact 1 1 50,
      Replicate 1 2, DeliverAppend 10 50, ReturnAppend 11, Replicate 1 2, DeliverInstall 12 60,
      ReturnInstall 13, Apply 2, Replicate 1 2, DeliverAppend 14 70, ReturnAppend 15, Apply 1,
      Crash 0 80 1]"

definition demo_state :: "(nat, nat) cluster" where
  "demo_state = the (cluster_run (cluster_init 3 0 (\<lambda>_. 0)) demo_run)"

definition demo_end :: "(nat, nat) cluster" where
  "demo_end = the (cluster_run demo_state demo_more)"

lemma demo_first: "cluster_run (cluster_init 3 0 (\<lambda>_. 0)) demo_run = Some demo_state"
  using run_coupled [OF init_coupled [of 3 0 "\<lambda>_. 0"], of demo_run]
  by (auto simp: demo_state_def)

lemma demo_second: "cluster_run demo_state demo_more = Some demo_end"
proof -
  obtain a where "coupled demo_state a" by (rule reachable [OF demo_first])
  from run_coupled [OF this, of demo_more] show ?thesis by (auto simp: demo_end_def)
qed

lemma demo_both:
  "cluster_run (cluster_init 3 0 (\<lambda>_. 0)) (demo_run @ demo_more) = Some demo_end"
  by (simp add: cluster_run_append demo_first demo_second)

section \<open>Guarantees\<close>

text \<open>
  C13. No sequence of elections, votes, appends, installs, proposals, compactions, deliveries, lost or repeated messages and crashes makes a peer panic: every slice access of every handler stays in bounds (the leader's own search back, the follower's truncation, the entries past a snapshot).
\<close>

theorem raft_never_panics:
  "cluster_run (cluster_init n now rnd) es \<noteq> None"
  using run_coupled [OF init_coupled] by fastforce

text \<open>
  C5. At most one leader per term, over the whole life of the cluster: if a peer leads a term at one point of a run and a peer leads the same term at that point or later, they are the same peer.
\<close>

theorem election_safety:
  assumes "cluster_run (cluster_init n now rnd) es = Some s" "cluster_run s fs = Some s'"
    and "p < n" "q < n" "rstate (node s p) = Leader" "rstate (node s' q) = Leader"
    and "currentTerm (node s p) = currentTerm (node s' q)"
  shows "p = q"
proof -
  obtain a a' where c: "coupled s a" "coupled s' a'" "extends a a'" "csize s = n" "csize s' = n"
    by (rule reachable_pair [OF assms(1,2)])
  have "leads n p (node s p) a" "leads n q (node s' q) a'"
    using coupledD(2) [OF c(1)] coupledD(2) [OF c(2)] c(4,5) assms(3,4) node_relD(4) by metis+
  then have "pleader a (currentTerm (node s p)) = Some p"
    "pleader a' (currentTerm (node s' q)) = Some q"
    using assms(5,6) by (simp_all add: leads_def)
  then show ?thesis using extends_leader [OF c(3)] assms(7) by fastforce
qed

text \<open>
  C6. Whatever two peers apply at the same index, at any time and over any restarts, is the same command; snapshots delivered at the same index have the same term.
\<close>

theorem state_machine_safety:
  assumes "cluster_run (cluster_init n now rnd) es = Some s"
    and "(p, m) \<in> set (history s)" "(q, m') \<in> set (history s)"
  shows "(CommandValid m \<longrightarrow> CommandValid m' \<longrightarrow> CommandIndex m = CommandIndex m' \<longrightarrow>
      Command m = Command m') \<and>
    (SnapshotValid m \<longrightarrow> SnapshotValid m' \<longrightarrow> SnapshotIndex m = SnapshotIndex m' \<longrightarrow>
      SnapshotTerm m = SnapshotTerm m')"
proof -
  obtain a where c: "coupled s a" by (rule reachable [OF assms(1)])
  note C = coupledD [OF c]
  obtain T X i where X: "settled (commitQuorum (csize s)) a T X" "0 < i" "i < length X"
     "CommandValid m \<longrightarrow> CommandIndex m = int i \<and> Command m = leCommand (X ! i)"
     "SnapshotValid m \<longrightarrow> SnapshotIndex m = int i \<and> SnapshotTerm m = leTerm (X ! i)"
    using C(4) [OF assms(2)] by (auto simp: applied_ok_def)
  obtain T' Y j where Y: "settled (commitQuorum (csize s)) a T' Y" "0 < j" "j < length Y"
     "CommandValid m' \<longrightarrow> CommandIndex m' = int j \<and> Command m' = leCommand (Y ! j)"
     "SnapshotValid m' \<longrightarrow> SnapshotIndex m' = int j \<and> SnapshotTerm m' = leTerm (Y ! j)"
    using C(4) [OF assms(3)] by (auto simp: applied_ok_def)
  have eq: "X ! i = Y ! i" if "i = j"
  proof (cases "length X \<le> length Y")
    case True
    then show ?thesis using rq.settled_agree [OF C(1) X(1) Y(1)] X(3) by (metis nth_take)
  next
    case False
    then show ?thesis using rq.settled_agree [OF C(1) Y(1) X(1)] Y(3) that
      by (metis nat_le_linear nth_take)
  qed
  show ?thesis using X(4,5) Y(4,5) eq by auto
qed

text \<open>
  C11. If two peers hold an entry of the same term at the same index, their logs agree on every earlier index that both still hold.
\<close>

theorem log_matching:
  assumes "cluster_run (cluster_init n now rnd) es = Some s" "p < n" "q < n"
    and "lastIncludeIndex (node s p) \<le> i" "i \<le> lastIndex (node s p)"
    and "lastIncludeIndex (node s q) \<le> i" "i \<le> lastIndex (node s q)"
    and "map_option leTerm (entry (node s p) i) = map_option leTerm (entry (node s q) i)"
    and "lastIncludeIndex (node s p) < j" "lastIncludeIndex (node s q) < j" "j \<le> i"
  shows "entry (node s p) j = entry (node s q) j"
proof -
  obtain a where c: "coupled s a" and n: "csize s = n" by (rule reachable [OF assms(1)])
  note C = coupledD [OF c, unfolded n]
  note P = C(2) [OF assms(2)] and Q = C(2) [OF assms(3)]
  have L: "good_log a (plog a p)" "good_log a (plog a q)"
    using logs_invD(1) [OF proto_inv_parts(1) [OF C(1)]] by auto
  obtain e e' where e: "entry (node s p) i = Some e" "leTerm e = leTerm (plog a p ! nat i)"
      "entry (node s q) i = Some e'" "leTerm e' = leTerm (plog a q ! nat i)"
      "nat i < length (plog a p)" "nat i < length (plog a q)"
    using rel_entry [OF P assms(4,5)] rel_entry [OF Q assms(6,7)] by metis
  have pre: "take (Suc (nat i)) (plog a p) = take (Suc (nat i)) (plog a q)"
    using e assms(8) by (intro matchingD [OF good_logs_match [OF L]]) simp_all
  have jp: "lastIncludeIndex (node s p) \<le> j" "j \<le> lastIndex (node s p)"
    and jq: "lastIncludeIndex (node s q) \<le> j" "j \<le> lastIndex (node s q)" using assms by auto
  obtain f f' where f: "entry (node s p) j = Some f" "f = plog a p ! nat j" "nat j < length (plog a p)"
      "entry (node s q) j = Some f'" "f' = plog a q ! nat j"
    using rel_entry [OF P jp] rel_entry [OF Q jq] assms(9,10) by metis
  then show ?thesis using take_eq_nth [OF pre, of "nat j"] assms(11) by simp
qed

text \<open>
  C9. Leader completeness: what a peer has committed is in the log of every later leader of the same or a higher term, unless both have compacted it into a snapshot.
\<close>

theorem leader_has_committed:
  assumes "cluster_run (cluster_init n now rnd) es = Some s" "cluster_run s fs = Some s'"
    and "p < n" "q < n" "rstate (node s' q) = Leader"
    and "currentTerm (node s p) \<le> currentTerm (node s' q)" "i \<le> commitIndex (node s p)"
  shows "i \<le> lastIndex (node s' q) \<and>
    (lastIncludeIndex (node s p) < i \<longrightarrow> lastIncludeIndex (node s' q) < i \<longrightarrow>
       entry (node s' q) i = entry (node s p) i)"
proof -
  obtain a a' where c: "coupled s a" "coupled s' a'" "extends a a'" "csize s = n" "csize s' = n"
    by (rule reachable_pair [OF assms(1,2)])
  note C = coupledD [OF c(1), unfolded c(4)] and C' = coupledD [OF c(2), unfolded c(5)]
  note P = C(2) [OF assms(3)] and Q = C'(2) [OF assms(4)]
  note R = node_relD [OF P] and R' = node_relD [OF Q]
  note D = node_okD [OF R(1)] and D' = node_okD [OF R'(1)]
  let ?X = "take (Suc (nat (commitIndex (node s p)))) (plog a p)"
  have len: "length ?X = Suc (nat (commitIndex (node s p)))" using D(9,16) by simp
  have L: "pleader a' (currentTerm (node s' q)) = Some q"
      "plog a' q = ptlog a' (currentTerm (node s' q))"
    using R'(4) assms(5) by (simp_all add: leads_def)
  have "settled (commitQuorum n) a' (currentTerm (node s p)) ?X"
    by (rule settled_extends [OF c(3) R(6)]) simp
  then have pre: "take (length ?X) (plog a' q) = ?X"
    using rq.settled_leader [OF C'(1) _ _ assms(6), of ?X] L by (metis option.distinct(1))
  then have "length ?X \<le> length (plog a' q)" by (rule take_length_prefix)
  then have il: "i \<le> lastIndex (node s' q)" using len assms(7) D(16) D'(14) by simp
  moreover have "entry (node s' q) i = entry (node s p) i"
    if l: "lastIncludeIndex (node s p) < i" "lastIncludeIndex (node s' q) < i"
  proof -
    have ip: "i \<le> lastIndex (node s p)" using assms(7) D(9,14) by simp
    obtain e where e: "entry (node s p) i = Some e" "e = plog a p ! nat i"
      using rel_entry [OF P _ ip] l by (metis less_imp_le)
    obtain e' where e': "entry (node s' q) i = Some e'" "e' = plog a' q ! nat i"
      using rel_entry [OF Q _ il] l by (metis less_imp_le)
    have "nat i < length ?X" unfolding len using assms(7) D(13,16) l by auto
    then have "?X ! nat i = plog a' q ! nat i" using pre by (metis nth_take)
    moreover have "?X ! nat i = plog a p ! nat i" using \<open>nat i < length ?X\<close> by simp
    ultimately show ?thesis using e e' by simp
  qed
  ultimately show ?thesis by blast
qed

text \<open>
  A crash loses only volatile state: a peer made again from its persister has the term, the vote, the log, the snapshot index and the snapshot it had, and is a follower.
\<close>

theorem crash_is_durable:
  assumes "cluster_run (cluster_init n now rnd) es = Some s" "p < n"
    and "crash_at s p now' rnd' = Some s'"
  shows "currentTerm (node s' p) = currentTerm (node s p) \<and> votedFor (node s' p) = votedFor (node s p) \<and>
    rlog (node s' p) = rlog (node s p) \<and> lastIncludeIndex (node s' p) = lastIncludeIndex (node s p) \<and>
    rsnapshot (node s' p) = rsnapshot (node s p) \<and> rstate (node s' p) = Follower"
proof -
  obtain a where c: "coupled s a" and n: "csize s = n" by (rule reachable [OF assms(1)])
  show ?thesis
    using restart_ok [OF node_relD(1) [OF coupledD(2) [OF c, unfolded n, OF assms(2)]]] assms(2,3) n
    by (auto simp: crash_at_def update_def Let_def)
qed

text \<open>
  Terms never go back and a vote is never changed within its term, through any number of crashes.
\<close>

theorem one_vote_per_term:
  assumes "cluster_run (cluster_init n now rnd) es = Some s" "cluster_run s fs = Some s'" "p < n"
  shows "currentTerm (node s p) \<le> currentTerm (node s' p) \<and>
    (currentTerm (node s' p) = currentTerm (node s p) \<longrightarrow> votedFor (node s p) = int v \<longrightarrow>
       votedFor (node s' p) = int v)"
proof -
  obtain a a' where c: "coupled s a" "coupled s' a'" "extends a a'" "csize s = n" "csize s' = n"
    by (rule reachable_pair [OF assms(1,2)])
  note R = node_relD [OF coupledD(2) [OF c(1), unfolded c(4), OF assms(3)]]
  note R' = node_relD [OF coupledD(2) [OF c(2), unfolded c(5), OF assms(3)]]
  show ?thesis using extends_votes(1,2) [OF c(3)] R(2,3) R'(2,3) by (metis subsetD)
qed


text \<open>
  C12. The cluster refines the abstract protocol: every event of a cluster that stands for a
  protocol state is possible without a panic and leads to a cluster that stands for a state some
  protocol steps later.
\<close>

theorem raft_refines_protocol:
  assumes "coupled s a"
  shows "\<exists>s' a'. cluster_exec s e = Some s' \<and> coupled s' a' \<and>
    (proto_step (electQuorum (csize s)))\<^sup>*\<^sup>* a a'"
  using exec_coupled [OF assms, of e] by (auto simp: evolves_def)

text \<open>
  The apply channel of a peer is a stream without gaps from the snapshot it restarted with:
  each command has the next index, each snapshot moves forward, and once no snapshot is waiting
  the stream has reached exactly the apply index.
\<close>

theorem apply_stream_contiguous:
  assumes "cluster_run (cluster_init n now rnd) es = Some s" "p < n"
  shows "\<exists>k. delivered (applyBase s p) (applyCh s p) = Some k \<and> k \<le> commitIndex (node s p) \<and>
    (pendingSnapshot (node s p) = None \<longrightarrow> k = applyIndex (node s p))"
proof -
  obtain a where c: "coupled s a" and n: "csize s = n" by (rule reachable [OF assms(1)])
  have "served s" by (rule run_served [OF init_served init_coupled assms(1)])
  from servedD(1) [OF this, of p] node_okD(8) [OF node_relD(1) [OF coupledD(2) [OF c, of p]]]
  show ?thesis using n assms(2) by (fastforce simp: stream_ok_def)
qed

text \<open>
  A snapshot a peer delivers at an index carries exactly the data some service handed to
  Snapshot for that index.
\<close>

theorem delivered_snapshot_was_taken:
  assumes "cluster_run (cluster_init n now rnd) es = Some s" "(p, m) \<in> set (history s)"
    and "SnapshotValid m"
  shows "\<exists>d. SnapshotData m = Some d \<and> (SnapshotIndex m, d) \<in> set (taken s)"
proof -
  have "served s" by (rule run_served [OF init_served init_coupled assms(1)])
  from servedD(4) [OF this assms(2)] assms(3) show ?thesis by (simp add: shows_ok_def)
qed

text \<open>A peer without others never receives a vote reply, and its own vote is not counted.\<close>

lemma alone_exec:
  assumes "csize s = 1" "net s = []" "rstate (node s 0) \<noteq> Leader" "cluster_exec s e = Some s'"
  shows "csize s' = 1 \<and> net s' = [] \<and> rstate (node s' 0) \<noteq> Leader"
proof -
  have M: "message s k = None" for k using assms(2) by (simp add: message_def)
  have R: "rstate (readPersist rf x) = rstate rf" for rf :: "('a, 'b) raft" and x
    by (cases "(rf, x)" rule: readPersist.cases) auto
  have P: "rstate (MakeRaft n p now rnd ps) = Follower"
    for n p now rnd and ps :: "('a raftBytes, 'b) Persister"
    by (simp add: MakeRaft_def R)
  show ?thesis using assms
    by (cases e) (auto simp: M P elect_def deliverVote_def returnVote_def replicate_to_def
        deliverAppend_def returnAppend_def deliverInstall_def returnInstall_def propose_at_def
        compact_at_def apply_at_def crash_at_def update_def startElection_def Start_def
        rf_Snapshot_def truncateFront_def applier_def Let_def
        split: if_splits Option.bind_splits option.splits)
qed

text \<open>
  A cluster of one peer never has a leader: the vote count is compared with the majority only
  when a reply arrives, and a single peer sends no request.
\<close>

theorem single_peer_never_leads:
  assumes "cluster_run (cluster_init 1 now rnd) es = Some s"
  shows "rstate (node s 0) \<noteq> Leader"
proof -
  have "csize s = 1 \<and> net s = [] \<and> rstate (node s 0) \<noteq> Leader"
    if "cluster_run s0 es = Some s" "csize s0 = 1" "net s0 = []" "rstate (node s0 0) \<noteq> Leader" for s0
    using that
  proof (induction es arbitrary: s0)
    case (Cons e es)
    obtain s1 where 1: "cluster_exec s0 e = Some s1" "cluster_run s1 es = Some s"
      using Cons.prems(1) by (auto split: Option.bind_splits)
    from Cons.IH [OF 1(2)] alone_exec [OF Cons.prems(2-4) 1(1)] show ?case by blast
  qed simp
  from this [OF assms] show ?thesis
    by (simp add: cluster_init_def MakeRaft_def MakePersister_def ReadRaftState_def)
qed

section \<open>The guarantees on the two runs\<close>

lemma election_safety_witness:
  "rstate (node demo_state 0) = Leader \<and> rstate (node demo_end 1) = Leader \<and>
   currentTerm (node demo_state 0) \<noteq> currentTerm (node demo_end 1) \<and> (1::nat) = 1"
proof -
  have "rstate (node demo_state 0) = Leader" "rstate (node demo_end 1) = Leader"
    "currentTerm (node demo_state 0) \<noteq> currentTerm (node demo_end 1)" by code_simp+
  moreover have "(1::nat) = 1"
    by (rule election_safety [OF demo_both, of "[]" demo_end]) (use calculation in simp_all)
  ultimately show ?thesis by simp
qed

lemma state_machine_safety_witness:
  "\<exists>m m'. (0, m) \<in> set (history demo_end) \<and> (1, m') \<in> set (history demo_end) \<and>
     CommandIndex m = 2 \<and> CommandIndex m' = 2 \<and> Command m = Command m'"
proof -
  let ?m = "history demo_end ! 1" and ?m' = "history demo_end ! 3"
  have h: "length (history demo_end) = 6" "fst ?m = 0" "fst ?m' = 1"
    "CommandValid (snd ?m)" "CommandValid (snd ?m')"
    "CommandIndex (snd ?m) = 2" "CommandIndex (snd ?m') = 2" by code_simp+
  then have "?m \<in> set (history demo_end)" "?m' \<in> set (history demo_end)" by simp_all
  then have i: "(0, snd ?m) \<in> set (history demo_end)" "(1, snd ?m') \<in> set (history demo_end)"
    using h(2,3) by (metis prod.collapse)+
  have "Command (snd ?m) = Command (snd ?m')"
    using state_machine_safety [OF demo_both i] h by simp
  with i h show ?thesis by blast
qed

lemma log_matching_witness:
  "entry (node demo_end 1) 2 = entry (node demo_end 2) 2 \<and> entry (node demo_end 1) 2 \<noteq> None"
proof
  have h: "lastIncludeIndex (node demo_end 1) = 1" "lastIncludeIndex (node demo_end 2) = 1"
    "lastIndex (node demo_end 1) = 3" "lastIndex (node demo_end 2) = 3"
    "map_option leTerm (entry (node demo_end 1) 3) = map_option leTerm (entry (node demo_end 2) 3)"
    by code_simp+
  show "entry (node demo_end 1) 2 = entry (node demo_end 2) 2"
    by (rule log_matching [OF demo_both, of _ _ 3]) (use h in simp_all)
  show "entry (node demo_end 1) 2 \<noteq> None" by code_simp
qed

lemma leader_has_committed_witness:
  "commitIndex (node demo_state 1) = 2 \<and> entry (node demo_end 1) 2 = entry (node demo_state 1) 2"
proof
  have h: "rstate (node demo_end 1) = Leader" "currentTerm (node demo_state 1) = 1"
    "currentTerm (node demo_end 1) = 2" "lastIncludeIndex (node demo_state 1) = 0"
    "lastIncludeIndex (node demo_end 1) = 1" by code_simp+
  show c: "commitIndex (node demo_state 1) = 2" by code_simp
  show "entry (node demo_end 1) 2 = entry (node demo_state 1) 2"
    using leader_has_committed [OF demo_first demo_second, of 1 1 2] h c by simp
qed

lemma crash_is_durable_witness:
  "votedFor (node (the (crash_at demo_state 0 5 1)) 0) = 0 \<and>
   lastIncludeIndex (node (the (crash_at demo_state 0 5 1)) 0) = 2"
proof -
  have h: "votedFor (node demo_state 0) = 0" "lastIncludeIndex (node demo_state 0) = 2"
    "csize demo_state = 3" by code_simp+
  then have "crash_at demo_state 0 5 1 = Some (the (crash_at demo_state 0 5 1))"
    by (simp add: crash_at_def Let_def)
  from crash_is_durable [OF demo_first _ this] show ?thesis using h by simp
qed

lemma one_vote_per_term_witness:
  "currentTerm (node demo_state 0) = currentTerm (node demo_end 0) \<and> votedFor (node demo_end 0) = int 0"
proof -
  have h: "currentTerm (node demo_state 0) = 1" "currentTerm (node demo_end 0) = 1"
    "votedFor (node demo_state 0) = int 0" by code_simp+
  show ?thesis using one_vote_per_term [OF demo_first demo_second, of 0 0] h by simp
qed

lemma raft_refines_protocol_witness:
  "\<exists>s' a'. cluster_exec (cluster_init 3 0 (\<lambda>_. 0)) (Elect 0 10000 5) = Some s' \<and> coupled s' a' \<and>
     (proto_step (electQuorum 3))\<^sup>*\<^sup>* proto_init a'"
  using raft_refines_protocol [OF init_coupled [of 3 0 "\<lambda>_. 0"], of "Elect 0 10000 5"]
  by (simp add: cluster_init_def)

lemma apply_stream_contiguous_witness:
  "\<exists>k. delivered 0 (applyCh demo_end 2) = Some k \<and> k = applyIndex (node demo_end 2) \<and> k = 1"
proof -
  have h: "applyBase demo_end 2 = 0" "pendingSnapshot (node demo_end 2) = None"
    "applyIndex (node demo_end 2) = 1" by code_simp+
  show ?thesis using apply_stream_contiguous [OF demo_both, of 2] h by auto
qed

lemma delivered_snapshot_was_taken_witness:
  "(1, 50) \<in> set (taken demo_end) \<and> SnapshotIndex (snd (history demo_end ! 4)) = 1"
proof -
  let ?m = "history demo_end ! 4"
  have h: "length (history demo_end) = 6" "SnapshotValid (snd ?m)" "SnapshotIndex (snd ?m) = 1"
    "SnapshotData (snd ?m) = Some 50" by code_simp+
  have "?m \<in> set (history demo_end)" using h(1) by simp
  then have "(fst ?m, snd ?m) \<in> set (history demo_end)" by simp
  from delivered_snapshot_was_taken [OF demo_both this h(2)] h show ?thesis by simp
qed

lemma single_peer_never_leads_witness:
  "cluster_run (cluster_init 1 0 (\<lambda>_. 0)) [Elect 0 10000 5, Elect 0 20000 5] \<noteq>
     (None :: (nat, nat) cluster option) \<and>
   rstate (node (the (cluster_run (cluster_init 1 0 (\<lambda>_. 0) :: (nat, nat) cluster)
     [Elect 0 10000 5, Elect 0 20000 5])) 0) \<noteq> Leader"
proof
  show r: "cluster_run (cluster_init 1 0 (\<lambda>_. 0)) [Elect 0 10000 5, Elect 0 20000 5] \<noteq>
     (None :: (nat, nat) cluster option)"
    using run_coupled [OF init_coupled [of 1 0 "\<lambda>_. 0"], of "[Elect 0 10000 5, Elect 0 20000 5]"] by auto
  then obtain s :: "(nat, nat) cluster"
    where s: "cluster_run (cluster_init 1 0 (\<lambda>_. 0)) [Elect 0 10000 5, Elect 0 20000 5] = Some s" by blast
  from single_peer_never_leads [OF s] s
  show "rstate (node (the (cluster_run (cluster_init 1 0 (\<lambda>_. 0) :: (nat, nat) cluster)
     [Elect 0 10000 5, Elect 0 20000 5])) 0) \<noteq> Leader" by simp
qed

end
