(* ===== verification/Raft_Commands.thy ===== *)
theory Raft_Commands
  imports Raft_Safety
begin

text \<open>
  No peer invents a command: whatever the entries of all logs, messages and applied messages of a
  cluster carry was proposed before. One lemma per handler of src/src/raft1/raft.go.
\<close>

section \<open>Every command in a log was submitted\<close>

definition issued_log :: "'c set \<Rightarrow> 'c LogEntry list \<Rightarrow> bool" where
  "issued_log I l \<longleftrightarrow> (\<forall>e \<in> set l. \<forall>c. leCommand e = Some c \<longrightarrow> c \<in> I)"

lemma issued_log_sub: "issued_log I l \<Longrightarrow> set l' \<subseteq> set l \<Longrightarrow> issued_log I l'"
  by (auto simp: issued_log_def)

lemma issued_log_append [simp]: "issued_log I (l @ l') \<longleftrightarrow> issued_log I l \<and> issued_log I l'"
  by (auto simp: issued_log_def)

lemma issued_log_simps [simp]:
  "issued_log I []" "issued_log I (e # l) \<longleftrightarrow> (\<forall>c. leCommand e = Some c \<longrightarrow> c \<in> I) \<and> issued_log I l"
  by (auto simp: issued_log_def)

lemma slice_sets:
  "slice_from l i = Some l' \<Longrightarrow> set l' \<subseteq> set l" "slice_to l i = Some l' \<Longrightarrow> set l' \<subseteq> set l"
  "slice_range l i j = Some l' \<Longrightarrow> set l' \<subseteq> set l"
  by (auto simp: slice_from_def slice_to_def slice_range_def split: if_splits
      dest: in_set_takeD in_set_dropD)

lemma slice_issued:
  "slice_from l i = Some l' \<Longrightarrow> issued_log I l \<Longrightarrow> issued_log I l'"
  "slice_to l i = Some l' \<Longrightarrow> issued_log I l \<Longrightarrow> issued_log I l'"
  "slice_range l i j = Some l' \<Longrightarrow> issued_log I l \<Longrightarrow> issued_log I l'"
  using slice_sets issued_log_sub by metis+

lemma signalOthers_rlog [simp]: "rlog (signalOthers ps rf) = rlog rf"
  by (induction ps rf rule: signalOthers.induct) (simp_all add: signal_def)

lemma persist_rlog [simp]: "rlog (persist rf) = rlog rf"
  by (simp add: persist_def)

lemma startElection_log: "startElection now rnd rf = Some (rf', x) \<Longrightarrow> rlog rf' = rlog rf"
  by (auto simp: startElection_def Let_def split: if_splits Option.bind_splits)

lemma RequestVote_log: "RequestVote now rnd rf args = Some (rf', r) \<Longrightarrow> rlog rf' = rlog rf"
  by (auto simp: RequestVote_def Let_def split: if_splits Option.bind_splits)

lemma appendStage_log:
  "appendStage rf args = Some rf' \<Longrightarrow> issued_log I (rlog rf) \<Longrightarrow> issued_log I (aeEntries args) \<Longrightarrow>
     issued_log I (rlog rf')"
  by (auto simp: appendStage_def Let_def split: if_splits Option.bind_splits dest: slice_issued)

lemma AppendEntries_log:
  "AppendEntries now rf args = Some (rf', r) \<Longrightarrow> issued_log I (rlog rf) \<Longrightarrow> issued_log I (aeEntries args) \<Longrightarrow>
     issued_log I (rlog rf')"
  by (auto simp: AppendEntries_def Let_def commitStage_def split: if_splits Option.bind_splits
      dest!: appendStage_log)

lemma InstallSnapshot_log:
  "InstallSnapshot now rf args = Some (rf', r) \<Longrightarrow> issued_log I (rlog rf) \<Longrightarrow> issued_log I (rlog rf')"
  by (auto simp: InstallSnapshot_def Let_def truncateFront_def
      split: if_splits Option.bind_splits dest: slice_issued)

lemma advance_log: "advanceCommitIndex rf = Some rf' \<Longrightarrow> rlog rf' = rlog rf"
  by (auto simp: advanceCommitIndex_def split: if_splits Option.bind_splits)

lemma setMatch_log: "setMatch rf q k = Some rf' \<Longrightarrow> rlog rf' = rlog rf"
  by (auto simp: setMatch_def split: if_splits Option.bind_splits dest!: advance_log)

lemma handleAppendReply_log: "handleAppendReply rf q args reply ok = Some (rf', b) \<Longrightarrow> rlog rf' = rlog rf"
  by (auto simp: handleAppendReply_def stepDown_def split: if_splits Option.bind_splits dest!: setMatch_log)

lemma handleInstallReply_log: "handleInstallReply rf q args reply ok = Some (rf', b) \<Longrightarrow> rlog rf' = rlog rf"
  by (auto simp: handleInstallReply_def stepDown_def split: if_splits Option.bind_splits dest!: setMatch_log)

lemma handleVoteReply_log: "handleVoteReply rf args reply = Some rf' \<Longrightarrow> rlog rf' = rlog rf"
  by (auto simp: handleVoteReply_def stepDown_def becomeLeader_def Let_def
      split: if_splits Option.bind_splits)

lemma rf_Snapshot_log: "rf_Snapshot rf i d = Some rf' \<Longrightarrow> issued_log I (rlog rf) \<Longrightarrow> issued_log I (rlog rf')"
  by (auto simp: rf_Snapshot_def truncateFront_def split: if_splits Option.bind_splits dest: slice_issued)

lemma replicator_log:
  "replicator rf q = Some (SendAppend args) \<Longrightarrow> issued_log I (rlog rf) \<Longrightarrow> issued_log I (aeEntries args)"
  by (auto simp: replicator_def entries_def split: if_splits Option.bind_splits dest: slice_issued)

lemma map_over_zip: "map (\<lambda>x. f (snd x)) (zip [0..<length l] l) = map f l"
  by (rule nth_equalityI) simp_all

lemma applier_log:
  assumes "applier rf = Some (rf', ms)" "issued_log I (rlog rf)"
  shows "rlog rf' = rlog rf \<and> (\<forall>m \<in> set ms. \<forall>c. Command m = Some c \<longrightarrow> c \<in> I)"
proof (cases "pendingSnapshot rf = None \<and> applyIndex rf < commitIndex rf")
  case False
  then show ?thesis using assms by (auto simp: applier_def split: if_splits)
next
  case True
  then obtain batch where b: "slice_range (rlog rf) (logIdx rf (applyIndex rf + 1))
      (logIdx rf (commitIndex rf + 1)) = Some batch" "rlog rf' = rlog rf"
    "map Command ms = map leCommand batch"
    using assms(1) by (auto simp: applier_def entries_def Let_def case_prod_unfold comp_def
        enumerate_eq_zip map_over_zip split: Option.bind_splits)
  have "issued_log I batch" by (rule slice_issued(3) [OF b(1) assms(2)])
  moreover have "Command m \<in> leCommand ` set batch" if "m \<in> set ms" for m
    using b(3) that by (metis image_eqI list.set_map)
  ultimately show ?thesis using b(2) unfolding issued_log_def by (metis imageE)
qed

fun msg_issued :: "'c set \<Rightarrow> ('c, 'b) msg \<Rightarrow> bool" where
  "msg_issued I (AppendCall p q args) = issued_log I (aeEntries args)"
| "msg_issued I m = True"

definition logs_ok :: "'c set \<Rightarrow> ('c, 'b) cluster \<Rightarrow> bool" where
  "logs_ok I s \<longleftrightarrow> (\<forall>p. issued_log I (rlog (node s p))) \<and> (\<forall>m \<in> set (net s). msg_issued I m) \<and>
     (\<forall>(p, m) \<in> set (history s). \<forall>c. Command m = Some c \<longrightarrow> c \<in> I)"


lemma logs_okD:
  assumes "logs_ok I s"
  shows "issued_log I (rlog (node s p))" "m \<in> set (net s) \<Longrightarrow> msg_issued I m"
    "(q, k) \<in> set (history s) \<Longrightarrow> Command k = Some c \<Longrightarrow> c \<in> I"
  using assms by (auto simp: logs_ok_def)

lemma logs_ok_mono: "logs_ok I s \<Longrightarrow> I \<subseteq> J \<Longrightarrow> logs_ok J s"
  unfolding logs_ok_def issued_log_def
proof (intro conjI allI ballI, goal_cases)
  case (2 m)
  then have "msg_issued I m" "I \<subseteq> J" by auto
  then show ?case by (cases m) (auto simp: issued_log_def)
qed blast+

lemma logs_update:
  "logs_ok I s \<Longrightarrow> issued_log I (rlog rf) \<Longrightarrow> (\<And>m. m \<in> set ms \<Longrightarrow> msg_issued I m) \<Longrightarrow>
     logs_ok I (update s p rf ms)"
  unfolding logs_ok_def update_def by auto

lemma logs_fields:
  "node s' = node s \<Longrightarrow> net s' = net s \<Longrightarrow> history s' = history s \<Longrightarrow> logs_ok I s' = logs_ok I s"
  by (simp add: logs_ok_def)

lemma logs_message:
  "message s k = Some (AppendCall p q args) \<Longrightarrow> logs_ok I s \<Longrightarrow> issued_log I (aeEntries args)"
  using message_in logs_okD(2) by fastforce

text \<open>The events of the cluster that the service above a peer does not cause.\<close>

fun network :: "('c, 'b) event \<Rightarrow> bool" where
  "network (Propose p c) = False"
| "network (Compact p i d) = False"
| "network (Crash p now rnd) = False"
| "network e = True"

lemma network_logs:
  assumes lg: "logs_ok I s" and nw: "network e" and ex: "cluster_exec s e = Some s'"
  shows "logs_ok I s'"
proof -
  note L = logs_okD [OF lg]
  show ?thesis
  proof (cases e)
    case (Elect p now rnd)
    then show ?thesis using ex L lg
      by (auto simp: elect_def split: if_splits Option.bind_splits option.splits
          intro!: logs_update dest!: startElection_log)
  next
    case (DeliverVote k now rnd)
    then show ?thesis using ex L lg
      by (auto simp: deliverVote_def split: option.splits msg.splits Option.bind_splits
          intro!: logs_update dest!: RequestVote_log)
  next
    case (ReturnVote k)
    then show ?thesis using ex L lg
      by (auto simp: returnVote_def logs_fields [of "_\<lparr>voteDone := _\<rparr>"]
          split: option.splits msg.splits Option.bind_splits if_splits
          intro!: logs_update dest!: handleVoteReply_log)
  next
    case (Replicate p q)
    then show ?thesis using ex L lg
      by (auto simp: replicate_to_def split: if_splits Option.bind_splits outgoing.splits
          intro!: logs_update dest!: replicator_log)
  next
    case (DeliverAppend k now)
    then show ?thesis using ex L lg
      by (auto simp: deliverAppend_def split: option.splits msg.splits Option.bind_splits
          intro!: logs_update dest: logs_message AppendEntries_log [OF _ L(1)])
  next
    case (ReturnAppend k)
    then show ?thesis using ex L lg
      by (auto simp: returnAppend_def split: option.splits msg.splits Option.bind_splits
          intro!: logs_update dest!: handleAppendReply_log)
  next
    case (DeliverInstall k now)
    then show ?thesis using ex L lg
      by (auto simp: deliverInstall_def split: option.splits msg.splits Option.bind_splits
          intro!: logs_update dest!: InstallSnapshot_log)
  next
    case (ReturnInstall k)
    then show ?thesis using ex L lg
      by (auto simp: returnInstall_def split: option.splits msg.splits Option.bind_splits
          intro!: logs_update dest!: handleInstallReply_log)
  next
    case (Apply p)
    show ?thesis
    proof (cases "p < csize s")
      case False
      then show ?thesis using ex Apply lg by (simp add: apply_at_def)
    next
      case True
      then obtain rf ms where r: "applier (node s p) = Some (rf, ms)"
          "s' = (update s p rf [])\<lparr>applyCh := (applyCh s)(p := applyCh s p @ ms),
             history := history s @ map (Pair p) ms\<rparr>"
        using ex Apply by (auto simp: apply_at_def split: Option.bind_splits)
      have a: "rlog rf = rlog (node s p)" "\<forall>m \<in> set ms. \<forall>c. Command m = Some c \<longrightarrow> c \<in> I"
        using applier_log [OF r(1) L(1)] by auto
      have "logs_ok I (update s p rf [])" using a(1) L(1) by (intro logs_update [OF lg]) simp_all
      then show ?thesis using a(2) r(2) by (auto simp: logs_ok_def update_def)
    qed
  qed (use nw in auto)
qed

end
