(* ===== verification/RSM_System.thy ===== *)
theory RSM_System
  imports RSM Raft_Commands
begin

text \<open>
  The replicated service as a whole: on every server the layer of \<open>RSM\<close> over its Raft peer
  (src/src/kvraft1/rsm/rsm.go over src/src/raft1/raft.go), with the servers' Raft peers joined by
  the cluster of \<open>Raft_Cluster\<close>. The reader goroutine of a server lags behind its apply channel,
  calls of Submit wait while everything else goes on, and a server may crash and come back with
  what its persister holds. The properties say that all of this behaves like one log of commands
  executed in order.
\<close>

section \<open>The system\<close>

text \<open>What a service hands to the layer: its initial state and the three operations.\<close>

record ('s, 'q, 'p, 'b) service =
  svInit :: 's
  svDo :: "'s \<Rightarrow> 'q \<Rightarrow> 's \<times> 'p"
  svSnap :: "'s \<Rightarrow> 'b"
  svRestore :: "'b \<Rightarrow> 's"

text \<open>A Submit call that waits: the local variables of its loop.\<close>

record 'q call =
  cSrv :: nat
  cCh :: nat
  cIndex :: int
  cTerm :: int
  cOp :: "'q Op"

text \<open>
  \<open>rpos\<close> counts the messages of the apply channel the reader has taken, \<open>rdue\<close> says it is about
  to run the second half of \<open>maybeSnapshot\<close>, \<open>lives\<close> how often the server was restarted.
\<close>

record ('s, 'q, 'p, 'b) rsmsys =
  raftc :: "('q Op, 'b) cluster"
  rsm :: "nat \<Rightarrow> ('s, 'p) RSM"
  rpos :: "nat \<Rightarrow> nat"
  rdue :: "nat \<Rightarrow> bool"
  lives :: "nat \<Rightarrow> nat"
  issued :: "'q Op list"
  calls :: "'q call list"
  answers :: "('q call \<times> 'p opResult) list"

datatype ('q, 'b) sysevent =
    Net "('q Op, 'b) event"
  | Submit nat 'q
  | Read nat
  | Shrink nat nat
  | Poll nat
  | Restart nat int int

definition set_rsm :: "('s, 'q, 'p, 'b) rsmsys \<Rightarrow> nat \<Rightarrow> ('s, 'p) RSM \<Rightarrow> ('s, 'q, 'p, 'b) rsmsys" where
  "set_rsm s p r = s\<lparr>rsm := (rsm s)(p := r)\<rparr>"

definition sys_submit :: "('s, 'q, 'p, 'b) rsmsys \<Rightarrow> nat \<Rightarrow> 'q \<Rightarrow> ('s, 'q, 'p, 'b) rsmsys" where
  "sys_submit s p req =
     (let (r, rf, x) = submit_begin (rsm s p) (node (raftc s) p) req;
          s1 = (set_rsm s p r)\<lparr>raftc := update (raftc s) p rf []\<rparr>
      in case x of
           None \<Rightarrow> s1
         | Some (ch, index, term, op) \<Rightarrow>
             s1\<lparr>issued := op # issued s,
                calls := calls s @ [\<lparr>cSrv = p, cCh = ch, cIndex = index, cTerm = term, cOp = op\<rparr>]\<rparr>)"

definition sys_read ::
  "('s, 'q, 'p, 'b) service \<Rightarrow> ('s, 'q, 'p, 'b) rsmsys \<Rightarrow> nat \<Rightarrow> ('s, 'q, 'p, 'b) rsmsys" where
  "sys_read sv s p =
     (if rdue s p \<or> rpos s p \<ge> length (applyCh (raftc s) p) then s
      else let (r, again) = reader (svDo sv) (svRestore sv) (rsm s p) (applyCh (raftc s) p ! rpos s p)
           in (set_rsm s p r)\<lparr>rpos := (rpos s)(p := Suc (rpos s p)), rdue := (rdue s)(p := again)\<rparr>)"

definition sys_shrink ::
  "('s, 'q, 'p, 'b) service \<Rightarrow> ('s, 'q, 'p, 'b) rsmsys \<Rightarrow> nat \<Rightarrow> nat \<Rightarrow> ('s, 'q, 'p, 'b) rsmsys option"
where
  "sys_shrink sv s p bytes =
     (if \<not> rdue s p then Some s
      else case maybeSnapshot (svSnap sv) (rsm s p) bytes of
             None \<Rightarrow> Some (s\<lparr>rdue := (rdue s)(p := False)\<rparr>)
           | Some (i, d) \<Rightarrow> do {
               c \<leftarrow> compact_at (raftc s) p i d;
               Some (s\<lparr>rdue := (rdue s)(p := False), raftc := c\<rparr>)
             })"

definition sys_poll :: "('s, 'q, 'p, 'b) rsmsys \<Rightarrow> nat \<Rightarrow> ('s, 'q, 'p, 'b) rsmsys" where
  "sys_poll s k =
     (if k \<ge> length (calls s) then s
      else let c = calls s ! k; p = cSrv c;
               (r, res) = submit_poll (rsm s p) (node (raftc s) p) (cCh c) (cIndex c) (cTerm c);
               s1 = set_rsm s p r
           in case res of
                None \<Rightarrow> s1
              | Some a \<Rightarrow> s1\<lparr>calls := take k (calls s) @ drop (Suc k) (calls s),
                             answers := (c, a) # answers s\<rparr>)"

definition sys_restart ::
  "('s, 'q, 'p, 'b) service \<Rightarrow> ('s, 'q, 'p, 'b) rsmsys \<Rightarrow> nat \<Rightarrow> int \<Rightarrow> int \<Rightarrow>
     ('s, 'q, 'p, 'b) rsmsys option" where
  "sys_restart sv s p now rnd =
     do {
       c \<leftarrow> crash_at (raftc s) p now rnd;
       let r = MakeRSM (svRestore sv) p (maxraftstate (rsm s p)) (svInit sv) (persister (node (raftc s) p));
       Some ((set_rsm s p r)
         \<lparr>raftc := c, rpos := (rpos s)(p := 0), rdue := (rdue s)(p := False),
          lives := (lives s)(p := Suc (lives s p)), calls := filter (\<lambda>c. cSrv c \<noteq> p) (calls s)\<rparr>)
     }"

fun sys_exec ::
  "('s, 'q, 'p, 'b) service \<Rightarrow> ('s, 'q, 'p, 'b) rsmsys \<Rightarrow> ('q, 'b) sysevent \<Rightarrow>
     ('s, 'q, 'p, 'b) rsmsys option" where
  "sys_exec sv s (Net e) =
     (if network e then do { c \<leftarrow> cluster_exec (raftc s) e; Some (s\<lparr>raftc := c\<rparr>) } else Some s)"
| "sys_exec sv s (Submit p req) = Some (if p < csize (raftc s) then sys_submit s p req else s)"
| "sys_exec sv s (Read p) = Some (if p < csize (raftc s) then sys_read sv s p else s)"
| "sys_exec sv s (Shrink p bytes) = (if p < csize (raftc s) then sys_shrink sv s p bytes else Some s)"
| "sys_exec sv s (Poll k) = Some (sys_poll s k)"
| "sys_exec sv s (Restart p now rnd) =
     (if p < csize (raftc s) then sys_restart sv s p now rnd else Some s)"

fun sys_run ::
  "('s, 'q, 'p, 'b) service \<Rightarrow> ('s, 'q, 'p, 'b) rsmsys \<Rightarrow> ('q, 'b) sysevent list \<Rightarrow>
     ('s, 'q, 'p, 'b) rsmsys option" where
  "sys_run sv s [] = Some s"
| "sys_run sv s (e # es) = do { s' \<leftarrow> sys_exec sv s e; sys_run sv s' es }"

definition sys_init ::
  "('s, 'q, 'p, 'b) service \<Rightarrow> nat \<Rightarrow> int \<Rightarrow> (nat \<Rightarrow> int) \<Rightarrow> (nat \<Rightarrow> int) \<Rightarrow> ('s, 'q, 'p, 'b) rsmsys" where
  "sys_init sv n now rnd maxrs =
     \<lparr>raftc = cluster_init n now rnd,
      rsm = (\<lambda>p. MakeRSM (svRestore sv) p (maxrs p) (svInit sv)
               (MakePersister :: ('q Op raftBytes, 'b) Persister)),
      rpos = (\<lambda>_. 0), rdue = (\<lambda>_. False), lives = (\<lambda>_. 0), issued = [], calls = [], answers = []\<rparr>"

section \<open>The specification: one log\<close>

text \<open>The state after a prefix of the log; an entry without a command (the sentinel kind) is skipped.\<close>

fun svc_exec :: "('s, 'q, 'p, 'b) service \<Rightarrow> 's \<Rightarrow> 'q Op option list \<Rightarrow> 's" where
  "svc_exec sv st [] = st"
| "svc_exec sv st (None # l) = svc_exec sv st l"
| "svc_exec sv st (Some op # l) = svc_exec sv (fst (svDo sv st (opCommand op))) l"

definition svc_state :: "('s, 'q, 'p, 'b) service \<Rightarrow> 'q Op option list \<Rightarrow> 's" where
  "svc_state sv l = svc_exec sv (svInit sv) l"

lemma svc_exec_append: "svc_exec sv st (l @ m) = svc_exec sv (svc_exec sv st l) m"
  by (induction sv st l rule: svc_exec.induct) simp_all

lemma svc_state_snoc:
  "svc_state sv [] = svInit sv" "svc_state sv (l @ [None]) = svc_state sv l"
  "svc_state sv (l @ [Some op]) = fst (svDo sv (svc_state sv l) (opCommand op))"
  by (simp_all add: svc_state_def svc_exec_append)

section \<open>Committed prefixes\<close>

text \<open>The commands of a settled prefix, without the sentinel.\<close>

definition ledger :: "nat \<Rightarrow> 'c proto \<Rightarrow> 'c option list \<Rightarrow> bool" where
  "ledger n a l \<longleftrightarrow> (\<exists>T X. settled (commitQuorum n) a T X \<and> X \<noteq> [] \<and> l = map leCommand (tl X))"

lemma ledger_nil: "ledger n a []"
  unfolding ledger_def by (intro exI [of _ 0] exI [of _ "[sentinel]"]) (simp add: settled_def)

lemma ledger_take: "ledger n a l \<Longrightarrow> ledger n a (take k l)"
  unfolding ledger_def
proof (elim exE conjE)
  fix T X assume x: "settled (commitQuorum n) a T X" "X \<noteq> []" "l = map leCommand (tl X)"
  have "take k l = map leCommand (tl (take (Suc k) X))"
    using x(2,3) by (cases X) (auto simp: take_map)
  then show "\<exists>T X. settled (commitQuorum n) a T X \<and> X \<noteq> [] \<and> take k l = map leCommand (tl X)"
    using settled_take [OF x(1), of "Suc k"] x(2) by (metis take_eq_Nil nat.distinct(1) zero_less_Suc)
qed

lemma ledger_extends: "extends a a' \<Longrightarrow> ledger n a l \<Longrightarrow> ledger n a' l"
  unfolding ledger_def by (elim exE conjE) (intro exI conjI, rule settled_extends, assumption+, rule order_refl)

lemma ledger_agree:
  assumes inv: "proto_inv (electQuorum n) a" and l: "ledger n a l" and m: "ledger n a m"
    and le: "length l \<le> length m"
  shows "take (length l) m = l"
proof -
  obtain T X where X: "settled (commitQuorum n) a T X" "X \<noteq> []" "l = map leCommand (tl X)"
    using l by (auto simp: ledger_def)
  obtain T' Y where Y: "settled (commitQuorum n) a T' Y" "Y \<noteq> []" "m = map leCommand (tl Y)"
    using m by (auto simp: ledger_def)
  obtain x xs y ys where c: "X = x # xs" "Y = y # ys" using X(2) Y(2) by (meson list.exhaust)
  have len: "length X \<le> length Y" using le X(3) Y(3) c by simp
  have "take (length X) Y = X" by (rule rq.settled_agree [OF inv X(1) Y(1) len])
  then have "take (length xs) ys = xs" using c by simp
  then show ?thesis using X(3) Y(3) c by (simp add: take_map)
qed


lemma applied_ledger:
  assumes "applied_ok n a m"
  shows "CommandValid m \<Longrightarrow> \<exists>l. ledger n a (l @ [Command m]) \<and> CommandIndex m = int (length l) + 1"
proof -
  obtain T X i where X: "settled (commitQuorum n) a T X" "0 < i" "i < length X"
     "CommandValid m \<longrightarrow> CommandIndex m = int i \<and> Command m = leCommand (X ! i)"
    using assms by (auto simp: applied_ok_def)
  assume "CommandValid m"
  then have m: "CommandIndex m = int i" "Command m = leCommand (X ! i)" using X(4) by auto
  have "X \<noteq> []" using X(3) by auto
  then have l: "ledger n a (map leCommand (tl X))" unfolding ledger_def using X(1) by blast
  have "take i (map leCommand (tl X)) = take (i - 1) (map leCommand (tl X)) @ [Command m]"
    using X(2,3) m(2) take_Suc_conv_app_nth [of "i - 1" "map leCommand (tl X)"] by (simp add: nth_tl)
  then have "ledger n a (take (i - 1) (map leCommand (tl X)) @ [Command m])"
    using ledger_take [OF l, of i] by simp
  moreover have "int (length (take (i - 1) (map leCommand (tl X)))) + 1 = int i" using X(2,3) by simp
  ultimately show "\<exists>l. ledger n a (l @ [Command m]) \<and> CommandIndex m = int (length l) + 1"
    using m(1) by metis
qed

text \<open>
  A state that is the one of the log at an index, with all commands up to there among the
  submitted ones.
\<close>

definition known :: "'c list \<Rightarrow> 'c option list \<Rightarrow> bool" where
  "known I l \<longleftrightarrow> set l \<subseteq> insert None (Some ` set I)"

definition at_ledger ::
  "nat \<Rightarrow> 'q Op proto \<Rightarrow> ('s, 'q, 'p, 'b) service \<Rightarrow> 'q Op list \<Rightarrow> int \<Rightarrow> 's \<Rightarrow> bool" where
  "at_ledger n a sv I k st \<longleftrightarrow> (\<exists>l. ledger n a l \<and> known I l \<and> k = int (length l) \<and> st = svc_state sv l)"

lemma known_mono: "known I l \<Longrightarrow> set I \<subseteq> set J \<Longrightarrow> known J l"
  unfolding known_def by blast

lemma at_ledger_mono:
  "at_ledger n a sv I k st \<Longrightarrow> extends a a' \<Longrightarrow> set I \<subseteq> set J \<Longrightarrow> at_ledger n a' sv J k st"
  unfolding at_ledger_def using ledger_extends known_mono by blast

lemma at_ledger_init: "at_ledger n a sv I 0 (svInit sv)"
  unfolding at_ledger_def by (intro exI [of _ "[]"]) (simp add: ledger_nil known_def svc_state_snoc)

text \<open>The result a submitted command got.\<close>

definition answered ::
  "nat \<Rightarrow> 'q Op proto \<Rightarrow> ('s, 'q, 'p, 'b) service \<Rightarrow> 'q Op list \<Rightarrow> int \<Rightarrow> nat \<Rightarrow> nat \<Rightarrow> 'p option \<Rightarrow> bool"
where
  "answered n a sv I index p ch rep \<longleftrightarrow> (\<exists>l op. ledger n a (l @ [Some op]) \<and> known I (l @ [Some op]) \<and>
     index = int (length l) + 1 \<and> opMe op = p \<and> opId op = ch \<and>
     rep = Some (snd (svDo sv (svc_state sv l) (opCommand op))))"

lemma answered_mono:
  "answered n a sv I k p ch rep \<Longrightarrow> extends a a' \<Longrightarrow> set I \<subseteq> set J \<Longrightarrow> answered n a' sv J k p ch rep"
  unfolding answered_def using ledger_extends known_mono by blast

text \<open>One command further.\<close>

lemma at_ledger_step:
  assumes inv: "proto_inv (electQuorum n) a" and at: "at_ledger n a sv I k st"
    and m: "applied_ok n a m" "CommandValid m" "CommandIndex m = k + 1" "known I [Command m]"
  shows "case Command m of
      None \<Rightarrow> at_ledger n a sv I (k + 1) st
    | Some op \<Rightarrow> at_ledger n a sv I (k + 1) (fst (svDo sv st (opCommand op))) \<and>
        answered n a sv I (k + 1) (opMe op) (opId op) (Some (snd (svDo sv st (opCommand op))))"
proof -
  obtain l where l: "ledger n a l" "known I l" "k = int (length l)" "st = svc_state sv l"
    using at by (auto simp: at_ledger_def)
  obtain l' where l': "ledger n a (l' @ [Command m])" "CommandIndex m = int (length l') + 1"
    using applied_ledger [OF m(1,2)] by blast
  have len: "length l' = length l" using l'(2) m(3) l(3) by simp
  have "take (length l) (l' @ [Command m]) = l"
    using ledger_agree [OF inv l(1) l'(1)] len by simp
  then have "l' = l" using len by simp
  then have L: "ledger n a (l @ [Command m])" using l'(1) by simp
  have K: "known I (l @ [Command m])" using l(2) m(4) by (auto simp: known_def)
  have at': "at_ledger n a sv I (k + 1) (svc_state sv (l @ [Command m]))"
    unfolding at_ledger_def using L K l(3) by (intro exI [of _ "l @ [Command m]"]) simp
  show ?thesis
  proof (cases "Command m")
    case None
    then show ?thesis using at' l(4) by (simp add: svc_state_snoc)
  next
    case (Some op)
    have "answered n a sv I (k + 1) (opMe op) (opId op) (Some (snd (svDo sv st (opCommand op))))"
      unfolding answered_def using L K l(3,4) Some by (intro exI [of _ l] exI [of _ op]) simp
    then show ?thesis using at' l(4) Some by (simp add: svc_state_snoc)
  qed
qed

lemma at_ledger_unique:
  assumes inv: "proto_inv (electQuorum n) a" and "at_ledger n a sv I k st" "at_ledger n a sv J k st'"
  shows "st = st'"
proof -
  obtain l where l: "ledger n a l" "k = int (length l)" "st = svc_state sv l"
    using assms(2) by (auto simp: at_ledger_def)
  obtain m where m: "ledger n a m" "k = int (length m)" "st' = svc_state sv m"
    using assms(3) by (auto simp: at_ledger_def)
  have "take (length l) m = l" using l m by (intro ledger_agree [OF inv]) simp_all
  then show ?thesis using l m by simp
qed

end
