(* ===== verification/RSM_Invariant.thy ===== *)
theory RSM_Invariant
  imports RSM_System
begin

text \<open>
  The invariant of the replicated service: every server's state machine is at a prefix of the
  committed log, as far as its reader has come, every snapshot in the system is the state of a
  prefix, and every waiting or answered call is related to the command at its index.
\<close>

section \<open>The invariant\<close>

definition peer_ok ::
  "'q Op proto \<Rightarrow> ('s, 'q, 'p, 'b) service \<Rightarrow> ('s, 'q, 'p, 'b) rsmsys \<Rightarrow> nat \<Rightarrow> bool" where
  "peer_ok a sv s p \<longleftrightarrow>
     rpos s p \<le> length (applyCh (raftc s) p) \<and>
     (\<exists>k. delivered (applyBase (raftc s) p) (take (rpos s p) (applyCh (raftc s) p)) = Some k \<and>
        at_ledger (csize (raftc s)) a sv (issued s) k (sm (rsm s p)) \<and> lastApplied (rsm s p) \<le> k \<and>
        (rdue s p \<longrightarrow> lastApplied (rsm s p) = k)) \<and>
     waiters_ok (rsm s p) \<and> rsmMe (rsm s p) = p"

definition call_ok ::
  "'q Op proto \<Rightarrow> ('s, 'q, 'p, 'b) service \<Rightarrow> ('s, 'q, 'p, 'b) rsmsys \<Rightarrow> 'q call \<Rightarrow> bool" where
  "call_ok a sv s c \<longleftrightarrow>
     cSrv c < csize (raftc s) \<and> opMe (cOp c) = cSrv c \<and> opId (cOp c) = cCh c \<and> cOp c \<in> set (issued s) \<and>
     cCh c \<le> reqNum (rsm s (cSrv c)) \<and>
     (\<forall>(i, w) \<in> set (pending (rsm s (cSrv c))). wCh w = cCh c \<longrightarrow> i = cIndex c) \<and>
     (\<forall>res. chans (rsm s (cSrv c)) (cCh c) = Some res \<longrightarrow> resErr res = OK \<longrightarrow>
        answered (csize (raftc s)) a sv (issued s) (cIndex c) (cSrv c) (cCh c) (resRep res))"

definition answer_ok ::
  "'q Op proto \<Rightarrow> ('s, 'q, 'p, 'b) service \<Rightarrow> ('s, 'q, 'p, 'b) rsmsys \<Rightarrow> 'q call \<Rightarrow> 'p opResult \<Rightarrow> bool"
where
  "answer_ok a sv s c res \<longleftrightarrow>
     opMe (cOp c) = cSrv c \<and> opId (cOp c) = cCh c \<and> cOp c \<in> set (issued s) \<and>
     (resErr res = OK \<longrightarrow>
        answered (csize (raftc s)) a sv (issued s) (cIndex c) (cSrv c) (cCh c) (resRep res))"

definition taken_ok ::
  "'q Op proto \<Rightarrow> ('s, 'q, 'p, 'b) service \<Rightarrow> 'q Op list \<Rightarrow> ('q Op, 'b) cluster \<Rightarrow> bool" where
  "taken_ok a sv I c \<longleftrightarrow> (\<forall>(i, d) \<in> set (taken c). at_ledger (csize c) a sv I i (svRestore sv d))"

definition sent_ok :: "('c, 'b) cluster \<Rightarrow> bool" where
  "sent_ok c \<longleftrightarrow> (\<forall>p. \<forall>m \<in> set (applyCh c p). (p, m) \<in> set (history c))"

definition ids_ok :: "('s, 'q, 'p, 'b) rsmsys \<Rightarrow> bool" where
  "ids_ok s \<longleftrightarrow> (\<forall>p. lives s p = 0 \<longrightarrow>
     (\<forall>op \<in> set (issued s). opMe op = p \<longrightarrow> opId op \<le> reqNum (rsm s p) \<and>
        (\<forall>op' \<in> set (issued s). opMe op' = p \<longrightarrow> opId op' = opId op \<longrightarrow> op' = op)))"

definition sys_inv :: "('s, 'q, 'p, 'b) service \<Rightarrow> ('s, 'q, 'p, 'b) rsmsys \<Rightarrow> 'q Op proto \<Rightarrow> bool" where
  "sys_inv sv s a \<longleftrightarrow>
     coupled (raftc s) a \<and> served (raftc s) \<and> sent_ok (raftc s) \<and>
     logs_ok (set (issued s)) (raftc s) \<and> taken_ok a sv (issued s) (raftc s) \<and>
     (\<forall>p < csize (raftc s). peer_ok a sv s p) \<and> (\<forall>c \<in> set (calls s). call_ok a sv s c) \<and>
     (\<forall>(c, res) \<in> set (answers s). answer_ok a sv s c res) \<and> ids_ok s"

lemma sys_invD:
  assumes "sys_inv sv s a"
  shows "coupled (raftc s) a" "served (raftc s)" "sent_ok (raftc s)" "logs_ok (set (issued s)) (raftc s)"
    "taken_ok a sv (issued s) (raftc s)" "p < csize (raftc s) \<Longrightarrow> peer_ok a sv s p"
    "c \<in> set (calls s) \<Longrightarrow> call_ok a sv s c" "(c, res) \<in> set (answers s) \<Longrightarrow> answer_ok a sv s c res"
    "ids_ok s"
  using assms by (auto simp: sys_inv_def)

lemma sys_invI:
  assumes "coupled (raftc s) a" "served (raftc s)" "sent_ok (raftc s)" "logs_ok (set (issued s)) (raftc s)"
    "taken_ok a sv (issued s) (raftc s)" "\<And>p. p < csize (raftc s) \<Longrightarrow> peer_ok a sv s p"
    "\<And>c. c \<in> set (calls s) \<Longrightarrow> call_ok a sv s c"
    "\<And>c res. (c, res) \<in> set (answers s) \<Longrightarrow> answer_ok a sv s c res" "ids_ok s"
  shows "sys_inv sv s a"
  using assms by (auto simp: sys_inv_def)

subsection \<open>What a step leaves alone\<close>

lemma peer_ok_mono:
  assumes "peer_ok a sv s p" "extends a a'" "csize (raftc s') = csize (raftc s)" "rsm s' p = rsm s p"
    "rpos s' p = rpos s p" "rdue s' p \<longrightarrow> rdue s p" "applyBase (raftc s') p = applyBase (raftc s) p"
    "applyCh (raftc s') p = applyCh (raftc s) p @ ms" "set (issued s) \<subseteq> set (issued s')"
  shows "peer_ok a' sv s' p"
  using assms at_ledger_mono [OF _ assms(2,9)] unfolding peer_ok_def by fastforce

lemma call_ok_mono:
  assumes "call_ok a sv s c" "extends a a'" "csize (raftc s') = csize (raftc s)"
    "rsm s' (cSrv c) = rsm s (cSrv c)" "set (issued s) \<subseteq> set (issued s')"
  shows "call_ok a' sv s' c"
  using assms answered_mono [OF _ assms(2,5)] unfolding call_ok_def by auto

lemma answer_ok_mono:
  assumes "answer_ok a sv s c res" "extends a a'" "csize (raftc s') = csize (raftc s)"
    "set (issued s) \<subseteq> set (issued s')"
  shows "answer_ok a' sv s' c res"
  using assms answered_mono [OF _ assms(2,4)] unfolding answer_ok_def by auto

lemma taken_ok_mono:
  assumes "taken_ok a sv I c" "extends a a'" "csize c' = csize c" "set I \<subseteq> set J" "taken c' = taken c"
  shows "taken_ok a' sv J c'"
  using assms at_ledger_mono [OF _ assms(2,4)] unfolding taken_ok_def by fastforce

lemma ids_ok_same:
  assumes "ids_ok s" "issued s' = issued s" "\<And>p. reqNum (rsm s p) \<le> reqNum (rsm s' p) \<or> lives s' p \<noteq> 0"
    "\<And>p. lives s p \<le> lives s' p"
  shows "ids_ok s'"
  using assms unfolding ids_ok_def by (metis le_zero_eq order_trans)

lemma ids_ok_issue:
  assumes ok: "ids_ok s" and s': "issued s' = op # issued s" "lives s' = lives s" "opMe op = p"
      "opId op = Suc (reqNum (rsm s p))" "reqNum (rsm s' p) = Suc (reqNum (rsm s p))"
      "\<And>q. q \<noteq> p \<Longrightarrow> rsm s' q = rsm s q"
  shows "ids_ok s'"
proof -
  have old: "opId o1 \<le> reqNum (rsm s q)" if "lives s q = 0" "o1 \<in> set (issued s)" "opMe o1 = q" for q o1
    using ok that by (auto simp: ids_ok_def)
  have uniq: "o2 = o1" if "lives s q = 0" "o1 \<in> set (issued s)" "o2 \<in> set (issued s)" "opMe o1 = q"
      "opMe o2 = q" "opId o2 = opId o1" for q o1 o2
    using ok that by (auto simp: ids_ok_def)
  have new: "opId o1 \<noteq> opId op" if "lives s p = 0" "o1 \<in> set (issued s)" "opMe o1 = p" for o1
    using old [OF that] s'(4) by simp
  have le: "opId o1 \<le> reqNum (rsm s' q)" if "lives s q = 0" "o1 \<in> set (issued s')" "opMe o1 = q" for q o1
    using that s' old [of q o1] by (cases "q = p") fastforce+
  have un: "o2 = o1" if "lives s q = 0" "o1 \<in> set (issued s')" "o2 \<in> set (issued s')" "opMe o1 = q"
      "opMe o2 = q" "opId o2 = opId o1" for q o1 o2
    using that s'(1,3) uniq [of q o1 o2] new by (metis set_ConsD)
  show ?thesis unfolding ids_ok_def s'(2) using le un by blast
qed

text \<open>Events of the cluster.\<close>

lemma network_frame:
  assumes "network e" "cluster_exec s e = Some s'"
  shows "taken s' = taken s" "applyBase s' = applyBase s" "\<exists>ms. applyCh s' p = applyCh s p @ ms"
    "sent_ok s \<Longrightarrow> sent_ok s'"
proof -
  have "taken s' = taken s \<and> applyBase s' = applyBase s \<and> (\<exists>ms. applyCh s' p = applyCh s p @ ms) \<and>
      (sent_ok s \<longrightarrow> sent_ok s')"
  proof (cases "\<exists>q. e = Apply q")
    case True
    then obtain q where "e = Apply q" by blast
    then show ?thesis using assms(2)
      by (auto simp: apply_at_def update_def sent_ok_def split: if_splits Option.bind_splits)
  next
    case False
    then have "taken s' = taken s \<and> applyBase s' = applyBase s \<and> applyCh s' = applyCh s \<and> history s' = history s"
      using assms by (cases e) (auto simp: update_def elect_def deliverVote_def returnVote_def replicate_to_def
          deliverAppend_def returnAppend_def deliverInstall_def returnInstall_def
          split: if_splits Option.bind_splits option.splits msg.splits)
    then show ?thesis by (simp add: sent_ok_def)
  qed
  then show "taken s' = taken s" "applyBase s' = applyBase s" "\<exists>ms. applyCh s' p = applyCh s p @ ms"
    "sent_ok s \<Longrightarrow> sent_ok s'" by auto
qed

lemma net_inv:
  assumes inv: "sys_inv sv s a" and nw: "network e"
  shows "\<exists>c a'. cluster_exec (raftc s) e = Some c \<and> sys_inv sv (s\<lparr>raftc := c\<rparr>) a' \<and> extends a a'"
proof -
  note S = sys_invD [OF inv]
  obtain c a' where c: "cluster_exec (raftc s) e = Some c" "coupled c a'" "extends a a'"
    using exec_coupled [OF S(1), of e] by (auto simp: evolves_def)
  note F = network_frame [OF nw c(1)] exec_csize [OF c(1)]
  have "sys_inv sv (s\<lparr>raftc := c\<rparr>) a'"
  proof (rule sys_invI, simp_all)
    show "coupled c a'" "served c" "sent_ok c" "logs_ok (set (issued s)) c"
      using c exec_served [OF S(2,1) c(1)] F(4) [OF S(3)] network_logs [OF S(4) nw c(1)] by auto
    show "taken_ok a' sv (issued s) c" by (rule taken_ok_mono [OF S(5) c(3) F(5) _ F(1)]) simp
    show "peer_ok a' sv (s\<lparr>raftc := c\<rparr>) p" if "p < csize c" for p
    proof -
      obtain ms where "applyCh c p = applyCh (raftc s) p @ ms" using F(3) by blast
      then show ?thesis using S(6) [of p] that F(2,5)
        by (intro peer_ok_mono [OF _ c(3), where s = s and ms = ms]) auto
    qed
    show "call_ok a' sv (s\<lparr>raftc := c\<rparr>) x" if "x \<in> set (calls s)" for x
      using F(5) by (intro call_ok_mono [OF S(7) [OF that] c(3)]) simp_all
    show "answer_ok a' sv (s\<lparr>raftc := c\<rparr>) x res" if "(x, res) \<in> set (answers s)" for x res
      using F(5) by (intro answer_ok_mono [OF S(8) [OF that] c(3)]) simp_all
    show "ids_ok (s\<lparr>raftc := c\<rparr>)" using S(9) by (rule ids_ok_same) simp_all
  qed
  then show ?thesis using c(1,3) by blast
qed

subsection \<open>The reader\<close>

lemma wake_same:
  "\<exists>cs. wake r P = r\<lparr>chans := cs, pending := filter (\<lambda>(i, w). \<not> P i) (pending r)\<rparr> \<and>
     (\<forall>c. cs c = chans r c \<or> cs c = Some wrongLeader)"
  using wake_fields [of r P] by metis

lemma applySnapshot_effect:
  assumes "lastApplied r < i"
  shows "sm (applySnapshot restore r i d) = restore d" "lastApplied (applySnapshot restore r i d) = i"
    "reqNum (applySnapshot restore r i d) = reqNum r" "rsmMe (applySnapshot restore r i d) = rsmMe r"
    "set (pending (applySnapshot restore r i d)) \<subseteq> set (pending r)"
    "chans (applySnapshot restore r i d) ch = Some res \<Longrightarrow> resErr res = OK \<Longrightarrow> chans r ch = Some res"
proof -
  obtain cs where w: "applySnapshot restore r i d =
      r\<lparr>sm := restore d, lastApplied := i, chans := cs, pending := filter (\<lambda>(j, w). \<not> j \<le> i) (pending r)\<rparr>"
    "\<forall>c. cs c = chans r c \<or> cs c = Some wrongLeader"
    using wake_same [of "r\<lparr>sm := restore d, lastApplied := i\<rparr>" "\<lambda>j. j \<le> i"] assms
    by (auto simp: applySnapshot_def)
  show "sm (applySnapshot restore r i d) = restore d" "lastApplied (applySnapshot restore r i d) = i"
    "reqNum (applySnapshot restore r i d) = reqNum r" "rsmMe (applySnapshot restore r i d) = rsmMe r"
    "set (pending (applySnapshot restore r i d)) \<subseteq> set (pending r)"
    by (auto simp: w(1))
  show "chans (applySnapshot restore r i d) ch = Some res \<Longrightarrow> resErr res = OK \<Longrightarrow> chans r ch = Some res"
    using w(2) [rule_format, of ch] by (auto simp: w(1) wrongLeader_def)
qed

lemma applyCommand_effect:
  assumes do: "doOp (sm r) (opCommand op) = (s', rep)"
  shows "sm (applyCommand doOp r index op) = s'" "lastApplied (applyCommand doOp r index op) = index"
    "reqNum (applyCommand doOp r index op) = reqNum r" "rsmMe (applyCommand doOp r index op) = rsmMe r"
    "set (pending (applyCommand doOp r index op)) \<subseteq> set (pending r)"
    "chans (applyCommand doOp r index op) ch = Some res \<Longrightarrow> resErr res = OK \<Longrightarrow> chans r ch = Some res \<or>
       (\<exists>w. (index, w) \<in> set (pending r) \<and> wCh w = ch \<and> opMe op = wMe w \<and> opId op = wId w \<and>
          resRep res = Some rep)"
proof -
  obtain cs where f: "applyCommand doOp r index op =
      r\<lparr>pending := filter (\<lambda>(i, w). i \<noteq> index) (pending r), sm := s', lastApplied := index, chans := cs\<rparr>"
    "case map_of (pending r) index of
       None \<Rightarrow> cs = chans r
     | Some w \<Rightarrow> cs = (chans r)(wCh w \<mapsto>
         (if opMe op = wMe w \<and> opId op = wId w then \<lparr>resErr = OK, resRep = Some rep\<rparr>
          else wrongLeader))"
    using applyCommand_fields [where doOp = doOp and r = r and op = op and index = index] do by blast
  show "sm (applyCommand doOp r index op) = s'" "lastApplied (applyCommand doOp r index op) = index"
    "reqNum (applyCommand doOp r index op) = reqNum r" "rsmMe (applyCommand doOp r index op) = rsmMe r"
    "set (pending (applyCommand doOp r index op)) \<subseteq> set (pending r)"
    by (auto simp: f(1))
  assume c: "chans (applyCommand doOp r index op) ch = Some res" "resErr res = OK"
  show "chans r ch = Some res \<or> (\<exists>w. (index, w) \<in> set (pending r) \<and> wCh w = ch \<and>
      opMe op = wMe w \<and> opId op = wId w \<and> resRep res = Some rep)"
  proof (cases "map_of (pending r) index")
    case None
    then show ?thesis using c f by simp
  next
    case (Some w)
    then have cs: "cs = (chans r)(wCh w \<mapsto>
         (if opMe op = wMe w \<and> opId op = wId w then \<lparr>resErr = OK, resRep = Some rep\<rparr> else wrongLeader))"
      using f(2) by simp
    have "cs ch = Some res" using c(1) f(1) by simp
    then show ?thesis using c(2) map_of_SomeD [OF Some] unfolding cs
      by (auto simp: wrongLeader_def split: if_splits)
  qed
qed

text \<open>One message of a gapless stream, at a state of the log.\<close>

lemma delivered_next:
  assumes "delivered b (xs @ m # ys) \<noteq> None" "delivered b xs = Some k"
  shows "CommandValid m \<and> \<not> SnapshotValid m \<and> CommandIndex m = k + 1 \<and> delivered b (xs @ [m]) = Some (k + 1) \<or>
    SnapshotValid m \<and> \<not> CommandValid m \<and> k < SnapshotIndex m \<and>
      delivered b (xs @ [m]) = Some (SnapshotIndex m)"
  using assms by (auto simp: delivered_append split: if_splits)

text \<open>
  The reader of server \<open>p\<close> takes the next message: its state is the log's state at its new
  position, and an OK it posts is the log's result at that index.
\<close>

lemma reader_step:
  assumes inv: "sys_inv sv s a" and p: "p < csize (raftc s)" and more: "rpos s p < length (applyCh (raftc s) p)"
    and due: "\<not> rdue s p"
    and rd: "reader (svDo sv) (svRestore sv) (rsm s p) (applyCh (raftc s) p ! rpos s p) = (r, again)"
  shows "\<exists>k. delivered (applyBase (raftc s) p) (take (Suc (rpos s p)) (applyCh (raftc s) p)) = Some k \<and>
      at_ledger (csize (raftc s)) a sv (issued s) k (sm r) \<and> lastApplied r \<le> k \<and> (again \<longrightarrow> lastApplied r = k)"
    "reqNum r = reqNum (rsm s p)" "rsmMe r = p" "set (pending r) \<subseteq> set (pending (rsm s p))"
    "chans r ch = Some res \<Longrightarrow> resErr res = OK \<Longrightarrow> chans (rsm s p) ch = Some res \<or>
       (\<exists>i w. (i, w) \<in> set (pending (rsm s p)) \<and> wCh w = ch \<and>
          answered (csize (raftc s)) a sv (issued s) i p ch (resRep res))"
proof -
  let ?n = "csize (raftc s)" and ?ch = "applyCh (raftc s) p" and ?b = "applyBase (raftc s) p"
  let ?m = "?ch ! rpos s p"
  note S = sys_invD [OF inv]
  obtain k where k: "delivered ?b (take (rpos s p) ?ch) = Some k"
      "at_ledger ?n a sv (issued s) k (sm (rsm s p))" "lastApplied (rsm s p) \<le> k"
    and W: "waiters_ok (rsm s p)" and me: "rsmMe (rsm s p) = p"
    using S(6) [OF p] by (auto simp: peer_ok_def)
  have split: "?ch = take (rpos s p) ?ch @ ?m # drop (Suc (rpos s p)) ?ch"
    using more by (simp add: id_take_nth_drop [symmetric])
  have tk: "take (Suc (rpos s p)) ?ch = take (rpos s p) ?ch @ [?m]" using more by (rule take_Suc_conv_app_nth)
  have "delivered ?b ?ch \<noteq> None" using servedD(1) [OF S(2) p] by (auto simp: stream_ok_def)
  then have nx: "CommandValid ?m \<and> \<not> SnapshotValid ?m \<and> CommandIndex ?m = k + 1 \<and>
        delivered ?b (take (Suc (rpos s p)) ?ch) = Some (k + 1) \<or>
      SnapshotValid ?m \<and> \<not> CommandValid ?m \<and> k < SnapshotIndex ?m \<and>
        delivered ?b (take (Suc (rpos s p)) ?ch) = Some (SnapshotIndex ?m)"
    using delivered_next [OF _ k(1), of ?m "drop (Suc (rpos s p)) ?ch"] split tk by metis
  have hist: "(p, ?m) \<in> set (history (raftc s))" using S(3) more by (simp add: sent_ok_def)
  have res: "(\<exists>k. delivered ?b (take (Suc (rpos s p)) ?ch) = Some k \<and> at_ledger ?n a sv (issued s) k (sm r) \<and>
        lastApplied r \<le> k \<and> (again \<longrightarrow> lastApplied r = k)) \<and>
      reqNum r = reqNum (rsm s p) \<and> rsmMe r = p \<and> set (pending r) \<subseteq> set (pending (rsm s p)) \<and>
      (\<forall>ch res. chans r ch = Some res \<longrightarrow> resErr res = OK \<longrightarrow> chans (rsm s p) ch = Some res \<or>
       (\<exists>i w. (i, w) \<in> set (pending (rsm s p)) \<and> wCh w = ch \<and> answered ?n a sv (issued s) i p ch (resRep res)))"
    using nx
  proof (elim disjE conjE)
    assume m: "SnapshotValid ?m" "k < SnapshotIndex ?m"
      "delivered ?b (take (Suc (rpos s p)) ?ch) = Some (SnapshotIndex ?m)"
    obtain d where d: "SnapshotData ?m = Some d" "(SnapshotIndex ?m, d) \<in> set (taken (raftc s))"
      using servedD(4) [OF S(2) hist] m(1) by (auto simp: shows_ok_def)
    have at: "at_ledger ?n a sv (issued s) (SnapshotIndex ?m) (svRestore sv d)"
      using S(5) d(2) by (auto simp: taken_ok_def)
    have r: "r = applySnapshot (svRestore sv) (rsm s p) (SnapshotIndex ?m) d" "again = False"
      using rd m(1) d(1) by (auto simp: reader_def)
    have new: "lastApplied (rsm s p) < SnapshotIndex ?m" using k(3) m(2) by simp
    note E = applySnapshot_effect [OF new, of "svRestore sv" d, folded r(1)]
    have "lastApplied r \<le> SnapshotIndex ?m" "at_ledger ?n a sv (issued s) (SnapshotIndex ?m) (sm r)"
      using E(1,2) at by simp_all
    then show ?thesis using E(3,5,6) m(3) E(4) [unfolded me] r(2) by blast
  next
    assume m: "CommandValid ?m" "\<not> SnapshotValid ?m" "CommandIndex ?m = k + 1"
      "delivered ?b (take (Suc (rpos s p)) ?ch) = Some (k + 1)"
    have ap: "applied_ok ?n a ?m" by (rule coupledD(4) [OF S(1) hist])
    have kn: "known (issued s) [Command ?m]"
      using logs_okD(3) [OF S(4) hist] by (cases "Command ?m") (auto simp: known_def)
    note A = at_ledger_step [OF coupledD(1) [OF S(1)] k(2) ap m(1,3) kn]
    show ?thesis
    proof (cases "Command ?m")
      case None
      then have "r = rsm s p" "again = False" using rd m(1,2) by (auto simp: reader_def)
      then show ?thesis using A None m(4) k(3) me by auto
    next
      case (Some op)
      obtain s' rep where do: "svDo sv (sm (rsm s p)) (opCommand op) = (s', rep)" by fastforce
      have r: "r = applyCommand (svDo sv) (rsm s p) (k + 1) op" using rd m(1-3) Some by (auto simp: reader_def)
      have "at_ledger ?n a sv (issued s) (k + 1) s'"
        "answered ?n a sv (issued s) (k + 1) (opMe op) (opId op) (Some rep)"
        using A Some do by simp_all
      moreover have "wMe w = p \<and> wId w = wCh w" if "(i, w) \<in> set (pending (rsm s p))" for i w
        using waiters_okD(3) [OF W that] me by simp
      moreover note E = applyCommand_effect [where doOp = "svDo sv" and r = "rsm s p" and op = op and index = "k + 1",
          OF do, folded r]
      have "lastApplied r \<le> k + 1" "at_ledger ?n a sv (issued s) (k + 1) (sm r)" "lastApplied r = k + 1"
        using E(1,2) calculation(1) by simp_all
      moreover have "\<exists>i w. (i, w) \<in> set (pending (rsm s p)) \<and> wCh w = ch \<and> answered ?n a sv (issued s) i p ch (resRep res)"
        if "(k + 1, w) \<in> set (pending (rsm s p))" "wCh w = ch" "opMe op = wMe w" "opId op = wId w"
          "resRep res = Some rep" for ch res w
        using that calculation(2,3) by metis
      ultimately show ?thesis using E(3,5) E(4) [unfolded me] E(6) m(4) by blast
    qed
  qed
  then show "\<exists>k. delivered ?b (take (Suc (rpos s p)) ?ch) = Some k \<and>
      at_ledger ?n a sv (issued s) k (sm r) \<and> lastApplied r \<le> k \<and> (again \<longrightarrow> lastApplied r = k)"
    "reqNum r = reqNum (rsm s p)" "rsmMe r = p" "set (pending r) \<subseteq> set (pending (rsm s p))"
    by blast+
  show "chans r ch = Some res \<Longrightarrow> resErr res = OK \<Longrightarrow> chans (rsm s p) ch = Some res \<or>
       (\<exists>i w. (i, w) \<in> set (pending (rsm s p)) \<and> wCh w = ch \<and>
          answered ?n a sv (issued s) i p ch (resRep res))"
    using res by blast
qed

subsection \<open>Every event keeps the invariant\<close>

lemma set_rsm_fields [simp]:
  "raftc (set_rsm s p r) = raftc s" "rsm (set_rsm s p r) = (rsm s)(p := r)" "rpos (set_rsm s p r) = rpos s"
  "rdue (set_rsm s p r) = rdue s" "lives (set_rsm s p r) = lives s" "issued (set_rsm s p r) = issued s"
  "calls (set_rsm s p r) = calls s" "answers (set_rsm s p r) = answers s"
  by (simp_all add: set_rsm_def)

lemma read_inv:
  assumes inv: "sys_inv sv s a" and p: "p < csize (raftc s)"
  shows "sys_inv sv (sys_read sv s p) a"
proof (cases "rdue s p \<or> rpos s p \<ge> length (applyCh (raftc s) p)")
  case True
  then show ?thesis using inv by (simp add: sys_read_def)
next
  case False
  then have more: "rpos s p < length (applyCh (raftc s) p)" and due: "\<not> rdue s p" by auto
  obtain r again where rd: "reader (svDo sv) (svRestore sv) (rsm s p) (applyCh (raftc s) p ! rpos s p) = (r, again)"
    by fastforce
  let ?s = "(set_rsm s p r)\<lparr>rpos := (rpos s)(p := Suc (rpos s p)), rdue := (rdue s)(p := again)\<rparr>"
  have s': "sys_read sv s p = ?s" using False rd by (simp add: sys_read_def)
  note S = sys_invD [OF inv] and E = reader_step [OF inv p more due rd]
  have W: "waiters_ok r" using S(6) [OF p] waiters_reader [of "rsm s p"] rd by (metis fst_conv peer_ok_def)
  show ?thesis unfolding s'
  proof (rule sys_invI, simp_all add: S(1-5))
    show "peer_ok a sv ?s q" if "q < csize (raftc s)" for q
    proof (cases "q = p")
      case True
      then show ?thesis using E(1,3) W more by (simp add: peer_ok_def)
    next
      case False
      then show ?thesis by (intro peer_ok_mono [OF S(6) [OF that] extends_refl, where ms = "[]"]) auto
    qed
    show "call_ok a sv ?s c" if c: "c \<in> set (calls s)" for c
    proof (cases "cSrv c = p")
      case True
      note C = S(7) [OF c, unfolded call_ok_def]
      have "answered (csize (raftc s)) a sv (issued s) (cIndex c) p (cCh c) (resRep res)"
        if "chans r (cCh c) = Some res" "resErr res = OK" for res
        using E(5) [OF that] that(2) C True by fastforce
      then show ?thesis using C True E(2,4) by (auto simp: call_ok_def)
    next
      case False
      then show ?thesis by (intro call_ok_mono [OF S(7) [OF c] extends_refl]) auto
    qed
    show "answer_ok a sv ?s c res" if "(c, res) \<in> set (answers s)" for c res
      by (intro answer_ok_mono [OF S(8) [OF that] extends_refl]) auto
    show "ids_ok ?s" by (rule ids_ok_same [OF S(9)]) (use E(2) in auto)
  qed
qed

lemma submit_effect:
  assumes "submit_begin r rf req = (r', rf', x)"
  shows "x = None \<Longrightarrow> rf' = rf \<and> (r' = r \<or> r' = r\<lparr>reqNum := Suc (reqNum r)\<rparr>)"
    "x = Some (ch, index, term, op) \<Longrightarrow> rf' = fst (Start rf op) \<and> ch = Suc (reqNum r) \<and>
       op = \<lparr>opMe = rsmMe r, opId = Suc (reqNum r), opCommand = req\<rparr> \<and>
       r' = r\<lparr>reqNum := Suc (reqNum r),
          pending := (index, \<lparr>wCh = Suc (reqNum r), wMe = rsmMe r, wId = Suc (reqNum r)\<rparr>) #
            filter (\<lambda>(i, w). i \<noteq> index) (pending r),
          chans := (chans r)(Suc (reqNum r) := None)\<rparr>"
  using assms by (auto simp: submit_begin_def Let_def Start_def split: if_splits prod.splits)

lemma Start_log: "issued_log I (rlog rf) \<Longrightarrow> c \<in> I \<Longrightarrow> issued_log I (rlog (fst (Start rf c)))"
  by (simp add: Start_def Let_def)

lemma update_same: "update s p (node s p) [] = s"
  by (simp add: update_def)

lemma submit_inv:
  assumes inv: "sys_inv sv s a" and p: "p < csize (raftc s)"
  shows "\<exists>a'. sys_inv sv (sys_submit s p req) a' \<and> extends a a'"
proof -
  note S = sys_invD [OF inv]
  obtain r rf x where sb: "submit_begin (rsm s p) (node (raftc s) p) req = (r, rf, x)" by (metis prod_cases3)
  note E = submit_effect [OF sb]
  have P: "peer_ok a sv s p" by (rule S(6) [OF p])
  then have me: "rsmMe (rsm s p) = p" and W: "waiters_ok r"
    using waiters_submit [OF _ sb] by (auto simp: peer_ok_def)
  show ?thesis
  proof (cases x)
    case None
    let ?s = "set_rsm s p r"
    have s': "sys_submit s p req = ?s"
      using sb E(1) [OF None] None update_same [of "raftc s" p] by (simp add: sys_submit_def Let_def set_rsm_def)
    have r: "sm r = sm (rsm s p)" "lastApplied r = lastApplied (rsm s p)" "rsmMe r = p"
      "pending r = pending (rsm s p)" "chans r = chans (rsm s p)" "reqNum (rsm s p) \<le> reqNum r"
      using E(1) [OF None] me by auto
    have "sys_inv sv ?s a"
    proof (rule sys_invI, simp_all add: S(1-5))
      show "peer_ok a sv ?s q" if "q < csize (raftc s)" for q
        using S(6) [OF that] r W by (cases "q = p") (simp_all add: peer_ok_def)
      show "call_ok a sv ?s c" if "c \<in> set (calls s)" for c
        using S(7) [OF that] r by (cases "cSrv c = p") (simp_all add: call_ok_def)
      show "answer_ok a sv ?s c res" if "(c, res) \<in> set (answers s)" for c res
        using S(8) [OF that] by (simp add: answer_ok_def)
      show "ids_ok ?s" by (rule ids_ok_same [OF S(9)]) (use r(6) in auto)
    qed
    then show ?thesis using s' extends_refl by auto
  next
    case (Some y)
    obtain ch index tm op where y: "x = Some (ch, index, tm, op)" using Some by (cases y) auto
    note F = E(2) [OF y]
    have op: "op = \<lparr>opMe = p, opId = ch, opCommand = req\<rparr>" "ch = Suc (reqNum (rsm s p))" using F me by auto
    let ?c = "update (raftc s) p rf []" and ?I = "op # issued s"
    let ?call = "\<lparr>cSrv = p, cCh = ch, cIndex = index, cTerm = tm, cOp = op\<rparr>"
    let ?s = "(set_rsm s p r)\<lparr>raftc := ?c, issued := ?I, calls := calls s @ [?call]\<rparr>"
    have s': "sys_submit s p req = ?s" using sb y by (simp add: sys_submit_def Let_def set_rsm_def)
    have pr: "propose_at (raftc s) p op = Some ?c" using p F by (simp add: propose_at_def)
    then obtain a' where a': "coupled ?c a'" "extends a a'"
      using propose_coupled [OF S(1), of p op] by (auto simp: evolves_def)
    have fields: "csize ?c = csize (raftc s)" "applyBase ?c = applyBase (raftc s)"
      "applyCh ?c = applyCh (raftc s)" "taken ?c = taken (raftc s)" "history ?c = history (raftc s)"
      by (simp_all add: update_def)
    have r: "sm r = sm (rsm s p)" "lastApplied r = lastApplied (rsm s p)" "rsmMe r = p" "reqNum r = ch"
      "set (pending r) \<subseteq> insert (index, \<lparr>wCh = ch, wMe = p, wId = ch\<rparr>) (set (pending (rsm s p)))"
      "chans r = (chans (rsm s p))(ch := None)"
      using F me by auto
    have old: "wCh w < ch" if "(i, w) \<in> set (pending (rsm s p))" for i w
      using P op(2) waiters_okD(3) [OF _ that] by (auto simp: peer_ok_def)
    have pend: "i = index \<and> wCh w = ch \<or> (i, w) \<in> set (pending (rsm s p)) \<and> wCh w < ch"
      if "(i, w) \<in> set (pending r)" for i w
      using subsetD [OF r(5) that] old by auto
    have logs: "logs_ok (set ?I) ?c"
    proof (rule logs_update)
      show lg: "logs_ok (set ?I) (raftc s)" by (rule logs_ok_mono [OF S(4)]) auto
      show "issued_log (set ?I) (rlog rf)" using Start_log [OF logs_okD(1) [OF lg]] F by auto
    qed simp
    have mono: "at_ledger n a sv (issued s) k st \<Longrightarrow> at_ledger n a' sv ?I k st" for n k st
      by (erule at_ledger_mono [OF _ a'(2)]) auto
    have sf: "raftc ?s = ?c" "issued ?s = ?I" "calls ?s = calls s @ [?call]" "answers ?s = answers s"
      by simp_all
    have "sys_inv sv ?s a'"
    proof (rule sys_invI, unfold sf)
      show "coupled ?c a'" "served ?c" "sent_ok ?c" "logs_ok (set ?I) ?c"
        using a' logs propose_served [OF S(2) pr] S(3) fields by (simp_all add: sent_ok_def)
      show "taken_ok a' sv ?I ?c" by (rule taken_ok_mono [OF S(5) a'(2)]) (use fields in auto)
      show "peer_ok a' sv ?s q" if "q < csize ?c" for q
      proof (cases "q = p")
        case True
        then show ?thesis using P r W mono fields by (auto simp: peer_ok_def)
      next
        case False
        then show ?thesis using that fields
          by (intro peer_ok_mono [OF S(6) [of q] a'(2), where ms = "[]"]) auto
      qed
      show "call_ok a' sv ?s c" if "c \<in> set (calls s @ [?call])" for c
      proof (cases "c \<in> set (calls s) \<and> cSrv c \<noteq> p")
        case True
        then show ?thesis using fields by (intro call_ok_mono [OF S(7) a'(2)]) auto
      next
        case False
        show ?thesis
        proof (cases "c = ?call")
          case True
          then show ?thesis using r(4,6) pend fields p op(1) by (fastforce simp: call_ok_def)
        next
          case False2: False
          then have c: "c \<in> set (calls s)" "cSrv c = p" using that False by auto
          note C = S(7) [OF c(1), unfolded call_ok_def]
          have "cCh c < ch" using C c(2) op(2) by simp
          then show ?thesis using C c(2) r(4,6) pend fields answered_mono [OF _ a'(2) set_subset_Cons]
            by (fastforce simp: call_ok_def)
        qed
      qed
      show "answer_ok a' sv ?s c res" if "(c, res) \<in> set (answers s)" for c res
        using fields by (intro answer_ok_mono [OF S(8) [OF that] a'(2)]) auto
      show "ids_ok ?s" by (rule ids_ok_issue [OF S(9), where op = op and p = p]) (use r(4) op in auto)
    qed
    then show ?thesis using s' a'(2) by auto
  qed
qed

lemma shrink_inv:
  assumes inv: "sys_inv sv s a" and p: "p < csize (raftc s)"
    and law: "state_machine (svSnap sv) (svRestore sv)"
  shows "\<exists>s' a'. sys_shrink sv s p bytes = Some s' \<and> sys_inv sv s' a' \<and> extends a a'"
proof -
  note S = sys_invD [OF inv]
  have idle: "sys_inv sv (s\<lparr>rdue := (rdue s)(p := False)\<rparr>) a"
  proof (rule sys_invI, simp_all add: S(1-5))
    show "peer_ok a sv (s\<lparr>rdue := (rdue s)(p := False)\<rparr>) q" if "q < csize (raftc s)" for q
      by (rule peer_ok_mono [OF S(6) [OF that] extends_refl, where ms = "[]"]) auto
    show "call_ok a sv (s\<lparr>rdue := (rdue s)(p := False)\<rparr>) c" if "c \<in> set (calls s)" for c
      by (rule call_ok_mono [OF S(7) [OF that] extends_refl]) auto
    show "answer_ok a sv (s\<lparr>rdue := (rdue s)(p := False)\<rparr>) c res" if "(c, res) \<in> set (answers s)" for c res
      by (rule answer_ok_mono [OF S(8) [OF that] extends_refl]) auto
    show "ids_ok (s\<lparr>rdue := (rdue s)(p := False)\<rparr>)" by (rule ids_ok_same [OF S(9)]) auto
  qed
  consider (skip) "\<not> rdue s p" | (no) "rdue s p" "maybeSnapshot (svSnap sv) (rsm s p) bytes = None"
    | (yes) "rdue s p" "maybeSnapshot (svSnap sv) (rsm s p) bytes =
        Some (lastApplied (rsm s p), svSnap sv (sm (rsm s p)))"
    by (cases "maybeSnapshot (svSnap sv) (rsm s p) bytes")
      (fastforce simp: maybeSnapshot_def split: if_splits)+
  then show ?thesis
  proof cases
    case skip
    then show ?thesis using inv extends_refl by (auto simp: sys_shrink_def)
  next
    case no
    then show ?thesis using idle extends_refl by (auto simp: sys_shrink_def)
  next
    case yes
    let ?i = "lastApplied (rsm s p)" and ?d = "svSnap sv (sm (rsm s p))"
    let ?s0 = "s\<lparr>rdue := (rdue s)(p := False)\<rparr>"
    note Z = sys_invD [OF idle]
    obtain c a' where c: "compact_at (raftc s) p ?i ?d = Some c" "coupled c a'" "extends a a'"
      using compact_coupled [OF S(1), of p ?i ?d] by (auto simp: evolves_def)
    obtain rf where rf: "rf_Snapshot (node (raftc s) p) ?i (Some ?d) = Some rf"
        "c = (update (raftc s) p rf [])\<lparr>taken := (?i, ?d) # taken (raftc s)\<rparr>"
      using c(1) p by (auto simp: compact_at_def split: Option.bind_splits)
    have fields: "csize c = csize (raftc s)" "applyBase c = applyBase (raftc s)"
      "applyCh c = applyCh (raftc s)" "history c = history (raftc s)"
      "taken c = (?i, ?d) # taken (raftc s)"
      by (simp_all add: rf(2) update_def)
    have at: "at_ledger (csize (raftc s)) a sv (issued s) ?i (sm (rsm s p))"
      using S(6) [OF p] yes(1) by (auto simp: peer_ok_def)
    have "sys_inv sv (?s0\<lparr>raftc := c\<rparr>) a'"
    proof (rule sys_invI, simp_all)
      show "coupled c a'" "served c" "sent_ok c" using c compact_served [OF S(2) c(1)] S(3) fields
        by (simp_all add: sent_ok_def)
      have "logs_ok (set (issued s)) (update (raftc s) p rf [])"
        using rf_Snapshot_log [OF rf(1)] logs_okD(1) [OF S(4)] by (intro logs_update [OF S(4)]) auto
      then show "logs_ok (set (issued s)) c" by (simp add: rf(2) logs_ok_def)
      have "at_ledger (csize c) a' sv (issued s) i (svRestore sv d)" if "(i, d) \<in> set (taken c)" for i d
        using that fields at S(5) state_machine.restore_snap [OF law] at_ledger_mono [OF _ c(3) subset_refl]
        by (fastforce simp: taken_ok_def)
      then show "taken_ok a' sv (issued s) c" by (auto simp: taken_ok_def)
      show "peer_ok a' sv (?s0\<lparr>raftc := c\<rparr>) q" if "q < csize c" for q
        by (rule peer_ok_mono [OF Z(6) [of q] c(3), where ms = "[]"]) (use that fields in auto)
      show "call_ok a' sv (?s0\<lparr>raftc := c\<rparr>) x" if "x \<in> set (calls s)" for x
        by (rule call_ok_mono [OF Z(7) [of x] c(3)]) (use that fields in auto)
      show "answer_ok a' sv (?s0\<lparr>raftc := c\<rparr>) x res" if "(x, res) \<in> set (answers s)" for x res
        by (rule answer_ok_mono [OF Z(8) [of x] c(3)]) (use that fields in auto)
      show "ids_ok (?s0\<lparr>raftc := c\<rparr>)" by (rule ids_ok_same [OF S(9)]) auto
    qed
    then show ?thesis using yes c(1,3) by (auto simp: sys_shrink_def)
  qed
qed

lemma submit_poll_effect:
  assumes "submit_poll r rf ch index tm = (r', res)"
  shows "sm r' = sm r" "lastApplied r' = lastApplied r" "reqNum r' = reqNum r" "rsmMe r' = rsmMe r"
    "set (pending r') \<subseteq> set (pending r)" "chans r' c = Some x \<Longrightarrow> chans r c = Some x"
    "res = Some x \<Longrightarrow> resErr x = OK \<Longrightarrow> chans r ch = Some x"
  using assms by (auto simp: submit_poll_def discard_def wrongLeader_def
      split: option.splits if_splits)

lemma poll_inv:
  assumes inv: "sys_inv sv s a" shows "sys_inv sv (sys_poll s k) a"
proof (cases "k < length (calls s)")
  case False
  then show ?thesis using inv by (simp add: sys_poll_def)
next
  case True
  let ?c = "calls s ! k"
  note S = sys_invD [OF inv]
  have cin: "?c \<in> set (calls s)" using True by simp
  note C = S(7) [OF cin, unfolded call_ok_def]
  obtain r res where po: "submit_poll (rsm s (cSrv ?c)) (node (raftc s) (cSrv ?c)) (cCh ?c) (cIndex ?c)
      (cTerm ?c) = (r, res)" by fastforce
  let ?p = "cSrv ?c"
  note E = submit_poll_effect [OF po]
  have W: "waiters_ok r" using S(6) [of ?p] C waiters_poll [OF _ po] by (auto simp: peer_ok_def)
  have core: "sys_inv sv (set_rsm s ?p r) a"
  proof (rule sys_invI, simp_all add: S(1-5))
    show "peer_ok a sv (set_rsm s ?p r) q" if "q < csize (raftc s)" for q
      using S(6) [OF that] E(1,2,4) W by (cases "q = ?p") (simp_all add: peer_ok_def)
    show "call_ok a sv (set_rsm s ?p r) c" if "c \<in> set (calls s)" for c
    proof (cases "cSrv c = ?p")
      case True
      note K = S(7) [OF that, unfolded call_ok_def]
      show ?thesis using K True E(3) subsetD [OF E(5)] E(6) by (auto simp: call_ok_def)
    next
      case False
      then show ?thesis by (intro call_ok_mono [OF S(7) [OF that] extends_refl]) auto
    qed
    show "answer_ok a sv (set_rsm s ?p r) c x" if "(c, x) \<in> set (answers s)" for c x
      by (rule answer_ok_mono [OF S(8) [OF that] extends_refl]) auto
    show "ids_ok (set_rsm s ?p r)" by (rule ids_ok_same [OF S(9)]) (use E(3) in auto)
  qed
  show ?thesis
  proof (cases res)
    case None
    then show ?thesis using core po True by (simp add: sys_poll_def Let_def)
  next
    case (Some x)
    have "answer_ok a sv s ?c x" using C E(7) [OF Some] by (auto simp: answer_ok_def)
    then have ans: "answer_ok a sv (set_rsm s ?p r) ?c x"
      by (rule answer_ok_mono [OF _ extends_refl]) auto
    let ?s = "(set_rsm s ?p r)\<lparr>calls := take k (calls s) @ drop (Suc k) (calls s),
        answers := (?c, x) # answers s\<rparr>"
    note K = sys_invD [OF core]
    have "sys_inv sv ?s a"
    proof (rule sys_invI, simp_all add: S(1-5))
      show "peer_ok a sv ?s q" if "q < csize (raftc s)" for q
        by (rule peer_ok_mono [OF K(6) [of q] extends_refl, where ms = "[]"]) (use that in auto)
      show "call_ok a sv ?s c" if "c \<in> set (take k (calls s)) \<or> c \<in> set (drop (Suc k) (calls s))" for c
        by (rule call_ok_mono [OF K(7) [of c] extends_refl]) (use that in \<open>auto dest: in_set_takeD in_set_dropD\<close>)
      show "answer_ok a sv ?s c y" if "c = ?c \<and> y = x \<or> (c, y) \<in> set (answers s)" for c y
        by (rule answer_ok_mono [OF _ extends_refl, of _ _ "set_rsm s ?p r"]) (use that K(8) ans in auto)
      show "ids_ok ?s" by (rule ids_ok_same [OF K(9)]) auto
    qed
    then show ?thesis using po True Some by (simp add: sys_poll_def Let_def)
  qed
qed

lemma restart_inv:
  fixes s :: "('s, 'q, 'p, 'b) rsmsys"
  assumes inv: "sys_inv sv s a" and p: "p < csize (raftc s)"
  shows "\<exists>s' a'. sys_restart sv s p now rnd = Some s' \<and> sys_inv sv s' a' \<and> extends a a'"
proof -
  note S = sys_invD [OF inv]
  let ?rf = "MakeRaft (csize (raftc s)) p now rnd (persister (node (raftc s) p))"
  let ?r = "MakeRSM (svRestore sv) p (maxraftstate (rsm s p)) (svInit sv) (persister (node (raftc s) p)) :: ('s, 'p) RSM"
  note N = node_relD(1) [OF coupledD(2) [OF S(1) p]]
  note R = restart_ok [OF N, of now rnd]
  obtain c a' where c: "crash_at (raftc s) p now rnd = Some c" "coupled c a'" "extends a a'"
    using crash_coupled [OF S(1), of p now rnd] by (auto simp: evolves_def)
  have cd: "c = (update (raftc s) p ?rf [])\<lparr>applyCh := (applyCh (raftc s))(p := []),
     applyBase := (applyBase (raftc s))(p := lastIncludeIndex ?rf)\<rparr>"
    using c(1) p by (simp add: crash_at_def Let_def)
  have fields: "csize c = csize (raftc s)" "history c = history (raftc s)" "taken c = taken (raftc s)"
    "applyCh c = (applyCh (raftc s))(p := [])" "net c = net (raftc s)"
    "applyBase c = (applyBase (raftc s))(p := lastIncludeIndex (node (raftc s) p))"
    "node c = (node (raftc s))(p := ?rf)"
    using R by (simp_all add: cd update_def)
  have Z: "snapshots_ok (taken (raftc s)) (node (raftc s) p)" by (rule servedD(2) [OF S(2) p])
  have disk: "ReadSnapshot (persister (node (raftc s) p)) = rsnapshot (node (raftc s) p)"
    using node_okD(6) [OF N] by (simp add: durable_def)
  have at: "at_ledger (csize (raftc s)) a sv (issued s) (lastIncludeIndex (node (raftc s) p)) (sm ?r)"
  proof (cases "lastIncludeIndex (node (raftc s) p) = 0")
    case True
    then have "rsnapshot (node (raftc s) p) = None" using Z by (simp add: snapshots_ok_def)
    then show ?thesis using True at_ledger_init by (simp add: MakeRSM_def disk newRSM_def)
  next
    case False
    then obtain d where d: "rsnapshot (node (raftc s) p) = Some d"
        "(lastIncludeIndex (node (raftc s) p), d) \<in> set (taken (raftc s))"
      using Z by (auto simp: snapshots_ok_def)
    then show ?thesis using S(5) by (auto simp: MakeRSM_def disk newRSM_def taken_ok_def)
  qed
  have r: "lastApplied ?r = 0" "rsmMe ?r = p" "waiters_ok ?r" "0 \<le> lastIncludeIndex (node (raftc s) p)"
    using Z waiters_new by (auto simp: MakeRSM_def newRSM_def snapshots_ok_def waiters_ok_def split: option.splits)
  let ?s = "(set_rsm s p ?r)
         \<lparr>raftc := c, rpos := (rpos s)(p := 0), rdue := (rdue s)(p := False),
          lives := (lives s)(p := Suc (lives s p)), calls := filter (\<lambda>c. cSrv c \<noteq> p) (calls s)\<rparr>"
  have "sys_inv sv ?s a'"
  proof (rule sys_invI, simp_all)
    show "coupled c a'" "served c" "sent_ok c" "taken_ok a' sv (issued s) c"
      using c crash_served [OF S(2,1) c(1)] S(3) fields taken_ok_mono [OF S(5) c(3) fields(1) subset_refl fields(3)]
      by (simp_all add: sent_ok_def)
    show "logs_ok (set (issued s)) c" using S(4) R by (simp add: logs_ok_def fields)
    show "peer_ok a' sv ?s q" if "q < csize c" for q
    proof (cases "q = p")
      case True
      then show ?thesis using at_ledger_mono [OF at c(3) subset_refl] r fields by (simp add: peer_ok_def)
    next
      case False
      then show ?thesis using that fields by (intro peer_ok_mono [OF S(6) c(3), where ms = "[]"]) auto
    qed
    show "call_ok a' sv ?s x" if "x \<in> set (calls s) \<and> cSrv x \<noteq> p" for x
      using that fields by (intro call_ok_mono [OF S(7) c(3)]) auto
    show "answer_ok a' sv ?s x res" if "(x, res) \<in> set (answers s)" for x res
      using that fields by (intro answer_ok_mono [OF S(8) c(3)]) auto
    show "ids_ok ?s" by (rule ids_ok_same [OF S(9)]) auto
  qed
  then show ?thesis using c(1,3) by (auto simp: sys_restart_def Let_def)
qed

lemma sys_exec_inv:
  assumes "sys_inv sv s a" "state_machine (svSnap sv) (svRestore sv)"
  shows "\<exists>s' a'. sys_exec sv s e = Some s' \<and> sys_inv sv s' a' \<and> extends a a'"
proof (cases e)
  case (Net ev)
  then show ?thesis using net_inv [OF assms(1), of ev] assms(1) extends_refl by fastforce
next
  case (Submit p q)
  then show ?thesis using submit_inv [OF assms(1), of p q] assms(1) extends_refl by auto
next
  case (Read p)
  then show ?thesis using read_inv [OF assms(1), of p] assms(1) extends_refl by auto
next
  case (Shrink p b)
  then show ?thesis using shrink_inv [OF assms(1) _ assms(2), of p b] assms(1) extends_refl by auto
next
  case (Poll k)
  then show ?thesis using poll_inv [OF assms(1), of k] extends_refl by auto
next
  case (Restart p now rnd)
  then show ?thesis using restart_inv [OF assms(1), of p now rnd] assms(1) extends_refl by auto
qed

lemma sys_run_inv:
  "sys_inv sv s a \<Longrightarrow> state_machine (svSnap sv) (svRestore sv) \<Longrightarrow>
     \<exists>s' a'. sys_run sv s es = Some s' \<and> sys_inv sv s' a' \<and> extends a a'"
proof (induction es arbitrary: s a)
  case Nil
  then show ?case using extends_refl by auto
next
  case (Cons e es)
  obtain s1 a1 where 1: "sys_exec sv s e = Some s1" "sys_inv sv s1 a1" "extends a a1"
    using sys_exec_inv [OF Cons.prems] by blast
  then show ?case using Cons.IH [OF 1(2) Cons.prems(2)] extends_trans [OF 1(3)] by fastforce
qed

lemma sys_init_inv: "sys_inv sv (sys_init sv n now rnd maxrs) proto_init"
proof (rule sys_invI, simp_all add: sys_init_def init_coupled init_served ids_ok_def)
  show "sent_ok (cluster_init n now rnd)" "logs_ok {} (cluster_init n now rnd)"
    "taken_ok proto_init sv [] (cluster_init n now rnd)"
    by (simp_all add: sent_ok_def logs_ok_def taken_ok_def cluster_init_def MakeRaft_def MakePersister_def
        ReadRaftState_def sentinel_def)
  fix p
  show "peer_ok proto_init sv
     \<lparr>raftc = cluster_init n now rnd,
      rsm = \<lambda>p. MakeRSM (svRestore sv) p (maxrs p) (svInit sv) (MakePersister :: ('b Op raftBytes, 'd) Persister),
      rpos = \<lambda>_. 0, rdue = \<lambda>_. False, lives = \<lambda>_. 0, issued = [], calls = [], answers = []\<rparr> p"
    by (simp add: peer_ok_def cluster_init_def MakeRSM_def ReadSnapshot_def MakePersister_def newRSM_def
        at_ledger_init waiters_new [unfolded newRSM_def])
qed

end
