(* ===== verification/RSM_Safety.thy ===== *)
theory RSM_Safety
  imports RSM_Invariant
begin

text \<open>
  What the invariant gives a client of Submit: one log explains everything the servers and the
  callers have seen. The runs at the end are two small ones, and one in which request ids repeat
  after a restart.
\<close>

section \<open>One log explains everything\<close>

text \<open>
  \<open>explains sv s L\<close>: every applied command is the one of \<open>L\<close> at its index; the state of every
  server is that of a prefix of \<open>L\<close>, as long as the messages its reader has taken; every OK
  answer is the result of the command of \<open>L\<close> at its index, run on the state of the prefix before
  it, and that command carries the caller's server and id, and is the caller's own if that
  server has not restarted. All these commands were submitted.
\<close>

definition explains ::
  "('s, 'q, 'p, 'b) service \<Rightarrow> ('s, 'q, 'p, 'b) rsmsys \<Rightarrow> 'q Op option list \<Rightarrow> bool" where
  "explains sv s L \<longleftrightarrow>
     (\<forall>(q, m) \<in> set (history (raftc s)). CommandValid m \<longrightarrow> 0 < CommandIndex m \<and>
        nat (CommandIndex m) \<le> length L \<and> Command m = L ! (nat (CommandIndex m) - 1)) \<and>
     (\<forall>p < csize (raftc s). \<exists>k \<le> length L.
        delivered (applyBase (raftc s) p) (take (rpos s p) (applyCh (raftc s) p)) = Some (int k) \<and>
        sm (rsm s p) = svc_state sv (take k L) \<and> known (issued s) (take k L)) \<and>
     (\<forall>(c, res) \<in> set (answers s). resErr res = OK \<longrightarrow> 0 < cIndex c \<and> nat (cIndex c) \<le> length L \<and>
        known (issued s) (take (nat (cIndex c)) L) \<and> cOp c \<in> set (issued s) \<and>
        (\<exists>op. L ! (nat (cIndex c) - 1) = Some op \<and> opMe op = cSrv c \<and> opId op = cCh c \<and>
           resRep res = Some (snd (svDo sv (svc_state sv (take (nat (cIndex c) - 1) L)) (opCommand op))) \<and>
           (lives s (cSrv c) = 0 \<longrightarrow> op = cOp c)))"

text \<open>The indices a log has to reach to explain a state.\<close>

definition reached :: "('s, 'q, 'p, 'b) rsmsys \<Rightarrow> nat set" where
  "reached s =
     {nat (CommandIndex m) |q m. (q, m) \<in> set (history (raftc s)) \<and> CommandValid m} \<union>
     {nat (the (delivered (applyBase (raftc s) p) (take (rpos s p) (applyCh (raftc s) p)))) |p.
        p < csize (raftc s)} \<union>
     {nat (cIndex c) |c res. (c, res) \<in> set (answers s) \<and> resErr res = OK}"

lemma reached_finite: "finite (reached s)"
proof -
  have "reached s \<subseteq> (\<lambda>(q, m). nat (CommandIndex m)) ` set (history (raftc s)) \<union>
     (\<lambda>p. nat (the (delivered (applyBase (raftc s) p) (take (rpos s p) (applyCh (raftc s) p))))) ` {..<csize (raftc s)} \<union>
     (\<lambda>(c, res). nat (cIndex c)) ` set (answers s)"
    unfolding reached_def by force
  then show ?thesis by (rule finite_subset) simp
qed

lemma reached_ledger:
  assumes inv: "sys_inv sv s a" and i: "i \<in> reached s"
  shows "\<exists>l. ledger (csize (raftc s)) a l \<and> i \<le> length l"
proof -
  note S = sys_invD [OF inv]
  from i consider (msg) q m where "(q, m) \<in> set (history (raftc s))" "CommandValid m" "i = nat (CommandIndex m)"
    | (pos) p where "p < csize (raftc s)"
      "i = nat (the (delivered (applyBase (raftc s) p) (take (rpos s p) (applyCh (raftc s) p))))"
    | (ans) c res where "(c, res) \<in> set (answers s)" "resErr res = OK" "i = nat (cIndex c)"
    unfolding reached_def by blast
  then show ?thesis
  proof cases
    case msg
    obtain l where "ledger (csize (raftc s)) a (l @ [Command m])" "CommandIndex m = int (length l) + 1"
      using applied_ledger [OF coupledD(4) [OF S(1) msg(1)] msg(2)] by blast
    then show ?thesis using msg(3) by (intro exI [of _ "l @ [Command m]"]) simp
  next
    case pos
    then show ?thesis using S(6) [OF pos(1)] by (auto simp: peer_ok_def at_ledger_def)
  next
    case ans
    then obtain l op where "ledger (csize (raftc s)) a (l @ [Some op])" "cIndex c = int (length l) + 1"
      using S(8) [OF ans(1)] by (auto simp: answer_ok_def answered_def)
    then show ?thesis using ans(3) by (intro exI [of _ "l @ [Some op]"]) simp
  qed
qed

lemma long_ledger:
  "finite N \<Longrightarrow> (\<And>i. i \<in> N \<Longrightarrow> \<exists>l. ledger n a l \<and> i \<le> length l) \<Longrightarrow>
     \<exists>L. ledger n a L \<and> (\<forall>i \<in> N. i \<le> length L)"
proof (induction N rule: finite_induct)
  case empty
  show ?case using ledger_nil by blast
next
  case (insert i N)
  obtain L l where "ledger n a L" "\<forall>j \<in> N. j \<le> length L" "ledger n a l" "i \<le> length l"
    using insert.IH insert.prems by blast
  then show ?case by (cases "length L \<le> length l") (auto intro: order_trans exI [of _ l] exI [of _ L])
qed

lemma nat_int_plus1: "nat (int k + 1) = Suc k"
  by simp

lemma ledger_explains:
  assumes inv: "sys_inv sv s a" and L: "ledger (csize (raftc s)) a L" "\<forall>i \<in> reached s. i \<le> length L"
  shows "explains sv s L"
proof -
  note S = sys_invD [OF inv] and I = coupledD(1) [OF sys_invD(1) [OF inv]]
  let ?n = "csize (raftc s)"
  have pre: "take (length l) L = l" if "ledger ?n a l" "length l \<le> length L" for l
    by (rule ledger_agree [OF I that(1) L(1) that(2)])
  have msg: "0 < CommandIndex m \<and> nat (CommandIndex m) \<le> length L \<and> Command m = L ! (nat (CommandIndex m) - 1)"
    if m: "(q, m) \<in> set (history (raftc s))" "CommandValid m" for q m
  proof -
    obtain l where l: "ledger ?n a (l @ [Command m])" "CommandIndex m = int (length l) + 1"
      using applied_ledger [OF coupledD(4) [OF S(1) m(1)] m(2)] by blast
    have "nat (CommandIndex m) \<in> reached s" using m unfolding reached_def by blast
    then have le: "length (l @ [Command m]) \<le> length L" using L(2) l(2) by fastforce
    have "L ! length l = Command m" using pre [OF l(1) le] le by (metis length_append_singleton lessI nth_append_length nth_take)
    then show ?thesis using l(2) le by (simp only: nat_int_plus1) simp
  qed
  have pos: "\<exists>k \<le> length L. delivered (applyBase (raftc s) p) (take (rpos s p) (applyCh (raftc s) p)) = Some (int k) \<and>
      sm (rsm s p) = svc_state sv (take k L) \<and> known (issued s) (take k L)" if p: "p < ?n" for p
  proof -
    obtain l where l: "delivered (applyBase (raftc s) p) (take (rpos s p) (applyCh (raftc s) p)) = Some (int (length l))"
        "ledger ?n a l" "known (issued s) l" "sm (rsm s p) = svc_state sv l"
      using S(6) [OF p] by (auto simp: peer_ok_def at_ledger_def)
    have "nat (int (length l)) \<in> reached s" using p l(1) unfolding reached_def by force
    then have le: "length l \<le> length L" using L(2) by fastforce
    then show ?thesis using l pre [OF l(2) le] by (intro exI [of _ "length l"]) simp
  qed
  have ans: "0 < cIndex c \<and> nat (cIndex c) \<le> length L \<and>
        known (issued s) (take (nat (cIndex c)) L) \<and> cOp c \<in> set (issued s) \<and>
        (\<exists>op. L ! (nat (cIndex c) - 1) = Some op \<and> opMe op = cSrv c \<and> opId op = cCh c \<and>
           resRep res = Some (snd (svDo sv (svc_state sv (take (nat (cIndex c) - 1) L)) (opCommand op))) \<and>
           (lives s (cSrv c) = 0 \<longrightarrow> op = cOp c))" if c: "(c, res) \<in> set (answers s)" "resErr res = OK" for c res
  proof -
    note A = S(8) [OF c(1), unfolded answer_ok_def]
    obtain l op where l: "ledger ?n a (l @ [Some op])" "known (issued s) (l @ [Some op])"
        "cIndex c = int (length l) + 1" "opMe op = cSrv c" "opId op = cCh c"
        "resRep res = Some (snd (svDo sv (svc_state sv l) (opCommand op)))"
      using A c(2) by (auto simp: answered_def)
    have "nat (cIndex c) \<in> reached s" using c unfolding reached_def by blast
    then have le: "length (l @ [Some op]) \<le> length L" using L(2) l(3) by fastforce
    note P = pre [OF l(1) le]
    have at: "L ! length l = Some op" using P le by (metis length_append_singleton lessI nth_append_length nth_take)
    have tk: "take (length l) L = l" using P by (metis append_eq_conv_conj butlast_snoc butlast_take le length_append_singleton diff_Suc_1)
    have "op \<in> set (issued s)" using l(2) by (auto simp: known_def)
    then have "lives s (cSrv c) = 0 \<longrightarrow> op = cOp c" using S(9) A l(4,5) unfolding ids_ok_def by metis
    then show ?thesis using at tk P l le A by (simp add: nat_int_plus1)
  qed
  show ?thesis unfolding explains_def using msg pos ans by blast
qed

text \<open>Two points of one run, two logs, the first a prefix of the second.\<close>

lemma explained_pair:
  assumes inv: "sys_inv sv s a" and inv': "sys_inv sv s' a'" and ext: "extends a a'"
    and n: "csize (raftc s') = csize (raftc s)"
  shows "\<exists>L L'. explains sv s L \<and> explains sv s' L' \<and> take (length L) L' = L"
proof -
  let ?n = "csize (raftc s)"
  obtain L where L: "ledger ?n a L" "\<forall>i \<in> reached s. i \<le> length L"
    using long_ledger [OF reached_finite reached_ledger [OF inv]] by blast
  have L2: "ledger ?n a' L" by (rule ledger_extends [OF ext L(1)])
  obtain L' where L': "ledger ?n a' L'" "\<forall>i \<in> insert (length L) (reached s'). i \<le> length L'"
    using long_ledger [of "insert (length L) (reached s')" ?n a'] reached_finite reached_ledger [OF inv'] L2 n
    by (metis finite_insert insert_iff order_refl)
  have "take (length L) L' = L" using ledger_agree [OF _ L2 L'(1)] coupledD(1) [OF sys_invD(1) [OF inv']] L'(2) n by simp
  moreover have "explains sv s L" by (rule ledger_explains [OF inv L])
  moreover have "explains sv s' L'" using ledger_explains [OF inv'] L' n by simp
  ultimately show ?thesis by blast
qed

section \<open>Properties\<close>

lemma sys_reachable:
  assumes "state_machine (svSnap sv) (svRestore sv)" "sys_run sv (sys_init sv n now rnd maxrs) es = Some s"
  obtains a where "sys_inv sv s a" "csize (raftc s) = n"
proof -
  have size: "sys_run sv s es = Some s' \<Longrightarrow> sys_inv sv s a \<Longrightarrow> csize (raftc s') = csize (raftc s)" for s s' a es
    using assms(1)
  proof (induction es arbitrary: s a)
    case (Cons e es)
    obtain s1 a1 where 1: "sys_exec sv s e = Some s1" "sys_inv sv s1 a1"
      using sys_exec_inv [OF Cons.prems(2,3)] by blast
    have "csize (raftc s1) = csize (raftc s)" using 1(1)
      by (cases e) (auto simp: sys_submit_def sys_read_def sys_shrink_def sys_poll_def sys_restart_def
          set_rsm_def compact_at_def crash_at_def Let_def
          split: if_splits Option.bind_splits option.splits prod.splits dest: exec_csize)
    then show ?case using Cons.IH [OF _ 1(2) Cons.prems(3)] Cons.prems(1) 1(1) by simp
  qed simp
  obtain a where "sys_inv sv s a"
    using sys_run_inv [OF sys_init_inv assms(1), of n now rnd maxrs es] assms(2) by auto
  moreover have "csize (raftc s) = n"
    using size [OF assms(2) sys_init_inv] by (simp add: sys_init_def cluster_init_def)
  ultimately show thesis by (rule that)
qed

lemma sys_reachable_pair:
  assumes "state_machine (svSnap sv) (svRestore sv)" "sys_run sv (sys_init sv n now rnd maxrs) es = Some s"
    "sys_run sv s fs = Some s'"
  obtains L L' where "explains sv s L" "explains sv s' L'" "take (length L) L' = L"
proof -
  obtain a where a: "sys_inv sv s a" "csize (raftc s) = n" by (rule sys_reachable [OF assms(1,2)])
  obtain a' where a': "sys_inv sv s' a'" "extends a a'"
    using sys_run_inv [OF a(1) assms(1), of fs] assms(3) by auto
  have run: "sys_run sv t (es @ fs) = do { t' \<leftarrow> sys_run sv t es; sys_run sv t' fs }" for t
    by (induction es arbitrary: t) (auto split: Option.bind_split)
  have "csize (raftc s') = n"
    by (rule sys_reachable [OF assms(1), of n now rnd maxrs "es @ fs" s']) (use assms(2,3) run in auto)
  then show thesis using explained_pair [OF a(1) a'] a(2) that by auto
qed

lemma explainsD:
  assumes "explains sv s L"
  shows "p < csize (raftc s) \<Longrightarrow> \<exists>k \<le> length L.
      delivered (applyBase (raftc s) p) (take (rpos s p) (applyCh (raftc s) p)) = Some (int k) \<and>
      sm (rsm s p) = svc_state sv (take k L)"
    "(c, res) \<in> set (answers s) \<Longrightarrow> resErr res = OK \<Longrightarrow> 0 < cIndex c \<and> nat (cIndex c) \<le> length L \<and>
      known (issued s) (take (nat (cIndex c)) L) \<and>
      (lives s (cSrv c) = 0 \<longrightarrow> L ! (nat (cIndex c) - 1) = Some (cOp c))"
proof -
  show "p < csize (raftc s) \<Longrightarrow> \<exists>k \<le> length L.
      delivered (applyBase (raftc s) p) (take (rpos s p) (applyCh (raftc s) p)) = Some (int k) \<and>
      sm (rsm s p) = svc_state sv (take k L)"
    using assms unfolding explains_def by blast
  assume "(c, res) \<in> set (answers s)" "resErr res = OK"
  then show "0 < cIndex c \<and> nat (cIndex c) \<le> length L \<and> known (issued s) (take (nat (cIndex c)) L) \<and>
      (lives s (cSrv c) = 0 \<longrightarrow> L ! (nat (cIndex c) - 1) = Some (cOp c))"
    using assms unfolding explains_def by fast
qed

lemma explains_answer:
  assumes L: "explains sv s L" and c: "(c, res) \<in> set (answers s)" "resErr res = OK"
  obtains op where "L ! (nat (cIndex c) - 1) = Some op" "lives s (cSrv c) = 0 \<longrightarrow> op = cOp c"
    "resRep res = Some (snd (svDo sv (svc_state sv (take (nat (cIndex c) - 1) L)) (opCommand op)))"
proof -
  note A = L [unfolded explains_def, THEN conjunct2, THEN conjunct2]
  from bspec [OF A c(1)] show thesis using that c(2) by auto
qed

text \<open>The command an OK answer belongs to, behind the log before it.\<close>

lemma answer_explained:
  assumes L: "explains sv s L" and c: "(c, res) \<in> set (answers s)" "resErr res = OK"
  obtains l op where "cIndex c = int (length l) + 1" "l @ [Some op] = take (nat (cIndex c)) L" "known (issued s) (l @ [Some op])"
    "opMe op = cSrv c" "opId op = cCh c" "resRep res = Some (snd (svDo sv (svc_state sv l) (opCommand op)))"
    "lives s (cSrv c) = 0 \<longrightarrow> op = cOp c"
proof -
  note A = bspec [OF L [unfolded explains_def, THEN conjunct2, THEN conjunct2] c(1), unfolded prod.case, THEN mp, OF c(2)]
  let ?i = "nat (cIndex c) - 1"
  obtain op where op: "L ! ?i = Some op" "opMe op = cSrv c" "opId op = cCh c" "lives s (cSrv c) = 0 \<longrightarrow> op = cOp c"
    "resRep res = Some (snd (svDo sv (svc_state sv (take ?i L)) (opCommand op)))"
    using A by auto
  have i: "?i < length L" "Suc ?i = nat (cIndex c)" "cIndex c = int ?i + 1" using A by auto
  have t: "take ?i L @ [Some op] = take (nat (cIndex c)) L"
    using take_Suc_conv_app_nth [OF i(1)] unfolding op(1) i(2) by (rule sym)
  show thesis by (rule that [of "take ?i L" op]) (use op i t A in auto)
qed

text \<open>
  C2. The replicated service behaves as one log: for any two points of any run (elections, lost,
  late and repeated messages, crashes, snapshots, lagging readers) there are two logs, the first
  a prefix of the second, that explain every applied command, every server's state and every OK
  answer of Submit at these points.
\<close>

theorem rsm_one_log:
  assumes "state_machine (svSnap sv) (svRestore sv)"
    and "sys_run sv (sys_init sv n now rnd maxrs) es = Some s" "sys_run sv s fs = Some s'"
  shows "\<exists>L L'. explains sv s L \<and> explains sv s' L' \<and> take (length L) L' = L"
  using sys_reachable_pair [OF assms] by metis


text \<open>
  Replicas agree: two servers whose readers have reached the same index of their streams
  hold the same state, whether they got there by commands or by snapshots.
\<close>

theorem replicas_agree:
  assumes "state_machine (svSnap sv) (svRestore sv)"
    and "sys_run sv (sys_init sv n now rnd maxrs) es = Some s" "p < n" "q < n"
    and "delivered (applyBase (raftc s) p) (take (rpos s p) (applyCh (raftc s) p)) =
      delivered (applyBase (raftc s) q) (take (rpos s q) (applyCh (raftc s) q))"
  shows "sm (rsm s p) = sm (rsm s q)"
proof -
  obtain a where a: "sys_inv sv s a" "csize (raftc s) = n" by (rule sys_reachable [OF assms(1,2)])
  obtain L L' where "explains sv s L" "explains sv s L'" "take (length L) L' = L"
    by (rule sys_reachable_pair [OF assms(1,2), of "[]" s]) simp
  then show ?thesis using explainsD(1) [of sv s L p] explainsD(1) [of sv s L q] a(2) assms(3-5)
    by fastforce
qed

section \<open>Two concrete runs\<close>

text \<open>A service that remembers and returns the last command.\<close>

definition echo :: "(nat, nat, nat, nat) service" where
  "echo = \<lparr>svInit = 0, svDo = (\<lambda>s q. (q, q)), svSnap = (\<lambda>s. s), svRestore = (\<lambda>b. b)\<rparr>"

lemma echo_law: "state_machine (svSnap echo) (svRestore echo)"
  by unfold_locales (simp add: echo_def)

definition first_run :: "(nat, nat) sysevent list" where
  "first_run =
     [Net (Elect 0 10000 0), Net (DeliverVote 0 0 0), Net (ReturnVote 2), Submit 0 7,
      Net (Replicate 0 1), Net (DeliverAppend 3 0), Net (ReturnAppend 4), Net (Apply 0), Read 0, Poll 0]"

definition second_run :: "(nat, nat) sysevent list" where
  "second_run =
     [Submit 0 8, Net (Replicate 0 1), Net (DeliverAppend 5 0), Net (ReturnAppend 6), Net (Apply 0),
      Net (Apply 1), Shrink 0 5, Read 0, Read 1, Poll 0]"

definition first_state :: "(nat, nat, nat, nat) rsmsys" where
  "first_state = the (sys_run echo (sys_init echo 3 0 (\<lambda>_. 0) (\<lambda>_. 1)) first_run)"

definition second_state :: "(nat, nat, nat, nat) rsmsys" where
  "second_state = the (sys_run echo first_state second_run)"

lemma first_ok: "sys_run echo (sys_init echo 3 0 (\<lambda>_. 0) (\<lambda>_. 1)) first_run = Some first_state"
  using sys_run_inv [OF sys_init_inv echo_law, of 3 0 "\<lambda>_. 0" "\<lambda>_. 1" first_run]
  by (auto simp: first_state_def)

lemma second_ok: "sys_run echo first_state second_run = Some second_state"
proof -
  obtain a where "sys_inv echo first_state a" by (rule sys_reachable [OF echo_law first_ok])
  from sys_run_inv [OF this echo_law, of second_run] show ?thesis by (auto simp: second_state_def)
qed





lemma rsm_one_log_witness:
  "\<exists>L L'. explains echo first_state L \<and> explains echo second_state L' \<and> take (length L) L' = L"
  by (rule rsm_one_log [OF echo_law first_ok second_ok])


lemma replicas_agree_witness: "sm (rsm first_state 1) = sm (rsm first_state 2)"
proof (rule replicas_agree [OF echo_law first_ok])
  show "delivered (applyBase (raftc first_state) 1) (take (rpos first_state 1) (applyCh (raftc first_state) 1)) =
      delivered (applyBase (raftc first_state) 2) (take (rpos first_state 2) (applyCh (raftc first_state) 2))"
    by code_simp
qed simp_all

section \<open>Request ids after a restart\<close>

text \<open>
  Five servers. Server 0 submits \<open>x\<close> as its request 1 at index 2 and loses that entry; it
  restarts, submits \<open>y\<close>, again as its request 1 and again at index 2; then the leader that still
  has the old entry commits it.
\<close>

definition reuse_run :: "'q \<Rightarrow> 'q \<Rightarrow> 'q \<Rightarrow> ('q, 'b) sysevent list" where
  "reuse_run w x y =
     [Net (Elect 1 10000 0), Net (DeliverVote 1 0 0), Net (DeliverVote 2 0 0), Net (ReturnVote 4),
      Net (ReturnVote 5), Submit 1 w, Net (Replicate 1 0), Net (DeliverAppend 6 0),
      Net (Elect 0 20000 0), Net (DeliverVote 9 0 0), Net (DeliverVote 10 0 0), Net (ReturnVote 12),
      Net (ReturnVote 13), Submit 0 x, Net (Replicate 0 1), Net (DeliverAppend 14 0),
      Net (Elect 2 30000 0), Net (DeliverVote 18 0 0), Net (DeliverVote 19 0 0), Net (ReturnVote 20),
      Net (ReturnVote 21), Submit 2 w, Net (Replicate 2 0), Net (DeliverAppend 22 0),
      Restart 0 0 0, Net (Elect 0 40000 0), Net (DeliverVote 26 0 0), Net (DeliverVote 27 0 0),
      Net (ReturnVote 28), Net (ReturnVote 29), Submit 0 y,
      Net (Elect 1 50000 0), Net (Elect 1 60000 0), Net (Elect 1 70000 0), Net (DeliverVote 40 0 0),
      Net (DeliverVote 41 0 0), Net (ReturnVote 42), Net (ReturnVote 43), Submit 1 w,
      Net (Replicate 1 3), Net (DeliverAppend 44 0), Net (ReturnAppend 45), Net (Replicate 1 3),
      Net (DeliverAppend 46 0), Net (ReturnAppend 47), Net (Replicate 1 4), Net (DeliverAppend 48 0),
      Net (ReturnAppend 49), Net (Replicate 1 4), Net (DeliverAppend 50 0), Net (ReturnAppend 51),
      Net (Replicate 1 0), Net (DeliverAppend 52 0), Net (ReturnAppend 53), Net (Replicate 1 0),
      Net (DeliverAppend 54 0), Net (ReturnAppend 55), Net (Replicate 1 0), Net (DeliverAppend 56 0),
      Net (Apply 0), Read 0, Shrink 0 0, Read 0, Poll 2]"

text \<open>The call for \<open>y\<close> and the answer it gets, for a service given by what it does and what it says.\<close>

definition reuse_call :: "'q \<Rightarrow> 'q call" where
  "reuse_call y = \<lparr>cSrv = 0, cCh = 1, cIndex = 2, cTerm = 4, cOp = \<lparr>opMe = 0, opId = 1, opCommand = y\<rparr>\<rparr>"

abbreviation made_of :: "'s \<Rightarrow> ('s \<Rightarrow> 'q \<Rightarrow> 's) \<Rightarrow> ('s \<Rightarrow> 'q \<Rightarrow> 'p) \<Rightarrow> ('s \<Rightarrow> 'b) \<Rightarrow> ('b \<Rightarrow> 's) \<Rightarrow> ('s, 'q, 'p, 'b) service" where
  "made_of ini does says snap rest \<equiv>
     \<lparr>svInit = ini, svDo = (\<lambda>s q. (does s q, says s q)), svSnap = snap, svRestore = rest\<rparr>"

text \<open>The run is evaluated for every service and all commands, with a predicate around the result.\<close>

lemma reuse_evaluated:
  assumes "Q (Some [(\<lparr>cSrv = 0, cCh = 1, cIndex = 2, cTerm = 4, cOp = \<lparr>opMe = 0, opId = 1, opCommand = y\<rparr>\<rparr>,
      \<lparr>resErr = OK, resRep = Some (says (does ini w) x)\<rparr>)])"
  shows "Q (map_option answers (sys_run (made_of ini does says snap rest)
      (sys_init (made_of ini does says snap rest) 5 0 (\<lambda>_. 0) (\<lambda>_. -1)) (reuse_run w x y)))"
  by code_simp (use assms in simp)

lemma reuse_answers:
  "map_option answers (sys_run sv (sys_init sv 5 0 (\<lambda>_. 0) (\<lambda>_. -1)) (reuse_run w x y)) =
     Some [(reuse_call y, \<lparr>resErr = OK, resRep = Some (snd (svDo sv (svc_state sv [Some \<lparr>opMe = 1, opId = 1, opCommand = w\<rparr>]) x))\<rparr>)]"
proof -
  have sv: "made_of (svInit sv) (\<lambda>s q. fst (svDo sv s q)) (\<lambda>s q. snd (svDo sv s q)) (svSnap sv) (svRestore sv) = sv" by simp
  have st: "svc_state sv [Some \<lparr>opMe = 1, opId = 1, opCommand = w\<rparr>] = fst (svDo sv (svInit sv) w)" by (simp add: svc_state_def)
  show ?thesis unfolding st reuse_call_def
    by (rule reuse_evaluated [where ini = "svInit sv" and does = "\<lambda>s q. fst (svDo sv s q)" and says = "\<lambda>s q. snd (svDo sv s q)"
          and snap = "svSnap sv" and rest = "svRestore sv" and w = w and x = x and y = y
          and Q = "\<lambda>z. z = Some [(\<lparr>cSrv = 0, cCh = 1, cIndex = 2, cTerm = 4, cOp = \<lparr>opMe = 0, opId = 1, opCommand = y\<rparr>\<rparr>,
            \<lparr>resErr = OK, resRep = Some (snd (svDo sv (fst (svDo sv (svInit sv) w)) x))\<rparr>)]", unfolded sv]) (rule refl)
qed

text \<open>
  C14. Request ids identify answers within one life of a server, and not beyond. For every service
  and in every run, an OK answer is the result, at its index, of a submitted command with the
  caller's server and request id, and it is the caller's own command if that server was never
  restarted. And for every service and any two commands \<open>x\<close> and \<open>y\<close> there is a run with one
  restart in which Submit of \<open>y\<close> returns OK with the result of \<open>x\<close>, whose id was the same.
\<close>

theorem restart_reuses_ids:
  fixes sv :: "('s, 'q, 'p, 'b) service"
  assumes "state_machine (svSnap sv) (svRestore sv)"
  shows "(\<forall>n now rnd maxrs es s. sys_run sv (sys_init sv n now rnd maxrs) es = Some s \<longrightarrow>
      (\<forall>(c, res) \<in> set (answers s). resErr res = OK \<longrightarrow>
         (\<exists>l op. cIndex c = int (length l) + 1 \<and> known (issued s) (l @ [Some op]) \<and> opMe op = cSrv c \<and> opId op = cCh c \<and>
            resRep res = Some (snd (svDo sv (svc_state sv l) (opCommand op))) \<and> (lives s (cSrv c) = 0 \<longrightarrow> op = cOp c)))) \<and>
    (\<forall>w x y. \<exists>es s c. sys_run sv (sys_init sv 5 0 (\<lambda>_. 0) (\<lambda>_. -1)) es = Some s \<and> opCommand (cOp c) = y \<and>
       answers s = [(c, \<lparr>resErr = OK, resRep = Some (snd (svDo sv (svc_state sv [Some \<lparr>opMe = 1, opId = 1, opCommand = w\<rparr>]) x))\<rparr>)])"
proof (intro conjI allI impI)
  fix n now rnd maxrs es s
  assume run: "sys_run sv (sys_init sv n now rnd maxrs) es = Some s"
  obtain L L' where L: "explains sv s L" "explains sv s L'" "take (length L) L' = L"
    by (rule sys_reachable_pair [OF assms run, of "[]" s]) simp
  show "\<forall>(c, res) \<in> set (answers s). resErr res = OK \<longrightarrow>
      (\<exists>l op. cIndex c = int (length l) + 1 \<and> known (issued s) (l @ [Some op]) \<and> opMe op = cSrv c \<and> opId op = cCh c \<and>
         resRep res = Some (snd (svDo sv (svc_state sv l) (opCommand op))) \<and> (lives s (cSrv c) = 0 \<longrightarrow> op = cOp c))"
  proof (intro ballI case_prodI2 impI)
    fix a c res
    assume a: "a \<in> set (answers s)" "a = (c, res)" "resErr res = OK"
    obtain l op where "cIndex c = int (length l) + 1" "known (issued s) (l @ [Some op])" "opMe op = cSrv c" "opId op = cCh c"
      "resRep res = Some (snd (svDo sv (svc_state sv l) (opCommand op)))" "lives s (cSrv c) = 0 \<longrightarrow> op = cOp c"
      by (rule answer_explained [OF L(1) a(1) [unfolded a(2)] a(3)])
    then show "\<exists>l op. cIndex c = int (length l) + 1 \<and> known (issued s) (l @ [Some op]) \<and> opMe op = cSrv c \<and> opId op = cCh c \<and>
        resRep res = Some (snd (svDo sv (svc_state sv l) (opCommand op))) \<and> (lives s (cSrv c) = 0 \<longrightarrow> op = cOp c)"
      by (intro exI conjI)
  qed
next
  fix w x y :: 'q
  show "\<exists>es s c. sys_run sv (sys_init sv 5 0 (\<lambda>_. 0) (\<lambda>_. -1)) es = Some s \<and> opCommand (cOp c) = y \<and>
       answers s = [(c, \<lparr>resErr = OK, resRep = Some (snd (svDo sv (svc_state sv [Some \<lparr>opMe = 1, opId = 1, opCommand = w\<rparr>]) x))\<rparr>)]"
  proof -
    obtain s where "sys_run sv (sys_init sv 5 0 (\<lambda>_. 0) (\<lambda>_. -1)) (reuse_run w x y) = Some s"
      "answers s = [(reuse_call y, \<lparr>resErr = OK, resRep = Some (snd (svDo sv (svc_state sv [Some \<lparr>opMe = 1, opId = 1, opCommand = w\<rparr>]) x))\<rparr>)]"
      using reuse_answers [of sv w x y] unfolding map_option_eq_Some by blast
    moreover have "opCommand (cOp (reuse_call y)) = y" by (simp add: reuse_call_def)
    ultimately show ?thesis by (iprover intro: exI conjI)
  qed
qed

lemma restart_reuses_ids_witness:
  "\<exists>es s c. sys_run echo (sys_init echo 5 0 (\<lambda>_. 0) (\<lambda>_. -1)) es = Some s \<and> opCommand (cOp c) = 20 \<and>
     answers s = [(c, \<lparr>resErr = OK, resRep = Some 10\<rparr>)]"
  using restart_reuses_ids [OF echo_law, THEN conjunct2, THEN spec [of _ 1], THEN spec [of _ 10], THEN spec [of _ 20]]
  by (simp add: echo_def svc_state_def)

end
