(* ===== verification/KV_Clerk.thy ===== *)
theory KV_Clerk
  imports KV_Server
begin

text \<open>
  The clerk of the unreplicated server (src/src/kvsrv1/client.go): its two retry loops, against an
  unreliable network and other clients. One attempt of a loop is one \<open>clnt.Call\<close>: the Puts
  of other clients the server executes before it, and its fate. A loop that is still retrying
  when the attempts run out has no result yet (\<open>None\<close>).
\<close>

section \<open>The loops\<close>

datatype fate = RequestLost | ReplyLost | Replied

type_synonym attempt = "PutArgs list \<times> fate"

text \<open>The server after other clients' Puts.\<close>

fun others :: "('s \<Rightarrow> PutArgs \<Rightarrow> 's \<times> Err) \<Rightarrow> 's \<Rightarrow> PutArgs list \<Rightarrow> 's" where
  "others put s [] = s"
| "others put s (o1 # os) = others put (fst (put s o1)) os"

text \<open>
  Put: the answer of the clerk, the store, and the replies the server gave to the copies of the
  request that reached it, in order.
\<close>

fun clerk_Put :: "('s \<Rightarrow> PutArgs \<Rightarrow> 's \<times> Err) \<Rightarrow> 's \<Rightarrow> PutArgs \<Rightarrow> bool \<Rightarrow> attempt list \<Rightarrow>
    (Err \<times> 's \<times> Err list) option" where
  "clerk_Put put s a resent [] = None"
| "clerk_Put put s a resent ((os, f) # rest) =
     (let s1 = others put s os
      in case f of
           RequestLost \<Rightarrow> clerk_Put put s1 a True rest
         | ReplyLost \<Rightarrow>
             map_option (\<lambda>(e, s', log). (e, s', snd (put s1 a) # log))
               (clerk_Put put (fst (put s1 a)) a True rest)
         | Replied \<Rightarrow>
             let (s2, e) = put s1 a
             in Some (if e = ErrVersion \<and> resent then ErrMaybe else e, s2, [e]))"

fun clerk_Get :: "('s \<Rightarrow> PutArgs \<Rightarrow> 's \<times> Err) \<Rightarrow> ('s \<Rightarrow> GetArgs \<Rightarrow> GetReply) \<Rightarrow> 's \<Rightarrow> GetArgs \<Rightarrow>
    attempt list \<Rightarrow> ((string \<times> Tversion \<times> Err) \<times> 's) option" where
  "clerk_Get put get s a [] = None"
| "clerk_Get put get s a ((os, f) # rest) =
     (let s1 = others put s os
      in case f of
           Replied \<Rightarrow> Some ((grValue (get s1 a), grVersion (get s1 a), grErr (get s1 a)), s1)
         | _ \<Rightarrow> clerk_Get put get s1 a rest)"

text \<open>All the Puts of a script of attempts, copies of the request included.\<close>

fun load :: "attempt list \<Rightarrow> nat" where
  "load [] = 0"
| "load ((os, f) # rest) = Suc (length os) + load rest"

section \<open>The contract, for any versioned store\<close>

context versioned_store begin

lemma others_puts: "others put s os = puts s os"
  by (induction os arbitrary: s) simp_all

text \<open>
  The request is out of date: its version has been passed by at most \<open>j\<close> successful Puts, and
  the key exists.
\<close>

definition passed :: "'s \<Rightarrow> PutArgs \<Rightarrow> nat \<Rightarrow> bool" where
  "passed s a j \<longleftrightarrow> present s (putKey a) \<and>
     (\<exists>i. 0 < i \<and> i \<le> j \<and> version s (putKey a) = putVersion a + of_nat i)"

lemma passed_puts:
  assumes "passed s a j" shows "passed (puts s os) a (j + length os)"
proof -
  obtain i where i: "0 < i" "i \<le> j" "version s (putKey a) = putVersion a + of_nat i"
    using assms by (auto simp: passed_def)
  obtain k where "k \<le> length os" "version (puts s os) (putKey a) = version s (putKey a) + of_nat k"
    using version_counts by blast
  then show ?thesis using i assms stays_present
    by (auto simp: passed_def intro!: exI [of _ "i + k"])
qed

lemma passed_reply:
  assumes p: "passed s a j" and j: "j < 2 ^ 64" shows "put s a = (s, ErrVersion)"
proof -
  obtain i where i: "0 < i" "i \<le> j" "version s (putKey a) = putVersion a + of_nat i"
    using p by (auto simp: passed_def)
  then have "version s (putKey a) \<noteq> putVersion a"
    using word_of_nat_nonzero [of i] j by simp
  then have "snd (put s a) \<noteq> OK" using put_ok by metis
  moreover have "snd (put s a) \<noteq> ErrNoKey" using put_nokey p by (auto simp: passed_def)
  ultimately show ?thesis using put_fails [of s a] by (metis prod.collapse)
qed

lemma passed_after_success:
  assumes "snd (put s a) = OK" shows "passed (fst (put s a)) a 1"
proof -
  have "version (fst (put s a)) (putKey a) = putVersion a + 1"
    using put_version [OF assms] put_ok [of s a] assms by simp
  moreover have "present (fst (put s a)) (putKey a)" using put_present [OF assms] by simp
  ultimately show ?thesis by (auto simp: passed_def intro!: exI [of _ 1])
qed

lemma clerk_passed:
  "clerk_Put put s a resent at = Some (e, s', log) \<Longrightarrow> passed s a j \<Longrightarrow> j + load at < 2 ^ 64 \<Longrightarrow>
   set log \<subseteq> {ErrVersion} \<and> (resent \<longrightarrow> e = ErrMaybe)"
proof (induction at arbitrary: s resent e s' log j)
  case (Cons x at)
  obtain os f where x: "x = (os, f)" by (cases x)
  let ?s1 = "puts s os"
  have p: "passed ?s1 a (j + length os)" by (rule passed_puts [OF Cons.prems(2)])
  have len: "(j + length os) + load at < 2 ^ 64" "j + length os < 2 ^ 64"
    using Cons.prems(3) x by auto
  have r: "put ?s1 a = (?s1, ErrVersion)" by (rule passed_reply [OF p len(2)])
  show ?case
  proof (cases f)
    case Replied
    then show ?thesis using Cons.prems(1) x r by (auto simp: others_puts)
  next
    case RequestLost
    then show ?thesis using Cons.prems(1) x Cons.IH [OF _ p len(1)] by (auto simp: others_puts)
  next
    case ReplyLost
    then obtain log' where "clerk_Put put ?s1 a True at = Some (e, s', log')" "log = ErrVersion # log'"
      using Cons.prems(1) x r by (auto simp: others_puts Let_def)
    then show ?thesis using Cons.IH [OF _ p len(1)] by auto
  qed
qed simp

lemma clerk_log: "clerk_Put put s a resent at = Some (e, s', log) \<Longrightarrow> log \<noteq> []"
  by (induction put s a resent at arbitrary: log rule: clerk_Put.induct)
    (auto simp: Let_def split: fate.splits prod.splits)

lemma clerk_contract:
  "clerk_Put put s a resent at = Some (e, s', log) \<Longrightarrow> load at < 2 ^ 64 - 1 \<Longrightarrow>
   length (filter (\<lambda>x. x = OK) log) \<le> 1 \<and> (e = OK \<longrightarrow> OK \<in> set log) \<and>
   (e = ErrNoKey \<longrightarrow> OK \<notin> set log) \<and> (e = ErrVersion \<longrightarrow> \<not> resent \<and> OK \<notin> set log) \<and>
   e \<in> {OK, ErrNoKey, ErrVersion, ErrMaybe} \<and> (e = ErrMaybe \<longrightarrow> last log = ErrVersion)"
proof (induction at arbitrary: s resent e s' log)
  case (Cons x at)
  obtain os f where x: "x = (os, f)" by (cases x)
  let ?s1 = "puts s os"
  have len: "load at < 2 ^ 64 - 1" using Cons.prems(2) x by auto
  have r: "snd (put ?s1 a) \<in> {OK, ErrNoKey, ErrVersion}" using put_fails [of ?s1 a] by blast
  show ?case
  proof (cases f)
    case Replied
    then show ?thesis using Cons.prems(1) x r by (auto simp: others_puts split: prod.splits if_splits)
  next
    case RequestLost
    then show ?thesis using Cons.prems(1) x Cons.IH [OF _ len] by (fastforce simp: others_puts)
  next
    case ReplyLost
    then obtain log' where l: "clerk_Put put (fst (put ?s1 a)) a True at = Some (e, s', log')"
        "log = snd (put ?s1 a) # log'"
      using Cons.prems(1) x by (auto simp: others_puts Let_def)
    have ne: "log' \<noteq> []" using clerk_log l(1) by blast
    show ?thesis
    proof (cases "snd (put ?s1 a) = OK")
      case True
      have "set log' \<subseteq> {ErrVersion} \<and> e = ErrMaybe"
        using clerk_passed [OF l(1) passed_after_success [OF True]] len by auto
      moreover from this have "filter (\<lambda>x. x = OK) log' = []" by (auto simp: filter_empty_conv)
      moreover have "last log' = ErrVersion" using \<open>set log' \<subseteq> {ErrVersion} \<and> e = ErrMaybe\<close> ne
        by (metis last_in_set singletonD subsetD)
      ultimately show ?thesis using l(2) True ne by simp
    next
      case False
      then show ?thesis using Cons.IH [OF l(1) len] l(2) ne by auto
    qed
  qed
qed simp

lemma clerk_returns: "clerk_Put put s a resent at \<noteq> None \<longleftrightarrow> (\<exists>os. (os, Replied) \<in> set at)"
  by (induction put s a resent at rule: clerk_Put.induct)
    (auto simp: Let_def split: fate.splits prod.splits)

end

section \<open>The contract on the server of the code\<close>

text \<open>
  C17. What a clerk's answer to Put means, whatever is lost and whatever other clients do (fewer
  than \<open>2^64 - 1\<close> Puts in all): no copy succeeds twice; OK says one did; ErrNoKey and ErrVersion
  say none did, and ErrVersion is only the answer to a first request; every other outcome is
  ErrMaybe.
\<close>

theorem clerk_put_answer:
  assumes "clerk_Put kv_Put kv a False at = Some (e, kv', log)" "load at < 2 ^ 64 - 1"
  shows "length (filter (\<lambda>x. x = OK) log) \<le> 1 \<and> (e = OK \<longrightarrow> OK \<in> set log) \<and>
    (e = ErrNoKey \<or> e = ErrVersion \<longrightarrow> OK \<notin> set log) \<and>
    e \<in> {OK, ErrNoKey, ErrVersion, ErrMaybe} \<and> (e = ErrMaybe \<longrightarrow> last log = ErrVersion)"
  using kv.clerk_contract [OF assms] by auto

definition demo_put :: PutArgs where
  "demo_put = \<lparr>putKey = ''k'', putValue = ''v'', putVersion = 0\<rparr>"

lemma clerk_put_answer_witness:
  "\<exists>kv'. clerk_Put kv_Put MakeKVServer demo_put False [([], RequestLost), ([], ReplyLost), ([], Replied)]
     = Some (ErrMaybe, kv', [OK, ErrVersion]) \<and> length (filter (\<lambda>x. x = OK) [OK, ErrVersion]) \<le> 1"
proof -
  have r: "\<exists>kv'. clerk_Put kv_Put MakeKVServer demo_put False [([], RequestLost), ([], ReplyLost), ([], Replied)]
     = Some (ErrMaybe, kv', [OK, ErrVersion])"
    by (simp add: demo_put_def kv_Put_def MakeKVServer_def Let_def)
  then obtain kv' where "clerk_Put kv_Put MakeKVServer demo_put False
      [([], RequestLost), ([], ReplyLost), ([], Replied)] = Some (ErrMaybe, kv', [OK, ErrVersion])" by blast
  from clerk_put_answer [OF this] r show ?thesis by simp
qed

text \<open>
  ErrMaybe is really undecided: from the same store and for the same request, one run that
  ends in it performed the Put and another did not.
\<close>

theorem clerk_put_maybe_undecided:
  "(\<exists>at kv' log. clerk_Put kv_Put MakeKVServer demo_put False at = Some (ErrMaybe, kv', log) \<and>
      OK \<in> set log) \<and>
   (\<exists>at kv' log. clerk_Put kv_Put MakeKVServer demo_put False at = Some (ErrMaybe, kv', log) \<and>
      OK \<notin> set log)"
proof
  show "\<exists>at kv' log. clerk_Put kv_Put MakeKVServer demo_put False at = Some (ErrMaybe, kv', log) \<and>
      OK \<in> set log"
    by (rule exI [of _ "[([], ReplyLost), ([], Replied)]"])
      (simp add: demo_put_def kv_Put_def MakeKVServer_def Let_def)
  show "\<exists>at kv' log. clerk_Put kv_Put MakeKVServer demo_put False at = Some (ErrMaybe, kv', log) \<and>
      OK \<notin> set log"
    by (rule exI [of _ "[([], RequestLost), ([\<lparr>putKey = ''k'', putValue = ''w'', putVersion = 0\<rparr>], Replied)]"])
      (simp add: demo_put_def kv_Put_def MakeKVServer_def Let_def)
qed

lemma clerk_Get_first_reply:
  "clerk_Get put get s a at = Some (r, s') \<Longrightarrow>
     r = (grValue (get s' a), grVersion (get s' a), grErr (get s' a))"
  by (induction put get s a at rule: clerk_Get.induct) (auto simp: Let_def split: fate.splits)

lemma clerk_Get_returns:
  "clerk_Get put get s a at \<noteq> None \<longleftrightarrow> (\<exists>os. (os, Replied) \<in> set at)"
  by (induction put get s a at rule: clerk_Get.induct) (auto simp: Let_def split: fate.splits)

text \<open>
  Both loops return as soon as one attempt is answered and only then, and a Get answers with
  the content and version the key has at that moment: version 0 and no value exactly when the
  key does not exist, which is the version that creates it.
\<close>

theorem clerk_loops_return:
  "(clerk_Put kv_Put kv a False at \<noteq> None \<longleftrightarrow> (\<exists>os. (os, Replied) \<in> set at)) \<and>
   (clerk_Get kv_Put kv_Get kv g at \<noteq> None \<longleftrightarrow> (\<exists>os. (os, Replied) \<in> set at)) \<and>
   (\<forall>r kv'. clerk_Get kv_Put kv_Get kv g at = Some (r, kv') \<longrightarrow>
      r = (kv_content kv' (getKey g), kv_version kv' (getKey g),
           if kv_present kv' (getKey g) then OK else ErrNoKey))"
  using kv.clerk_returns clerk_Get_returns clerk_Get_first_reply [of kv_Put kv_Get kv g at]
  by (fastforce simp: kv_Get_reply)

lemma clerk_loops_return_witness:
  "clerk_Get kv_Put kv_Get MakeKVServer \<lparr>getKey = ''k''\<rparr> [([demo_put], ReplyLost), ([], Replied)] \<noteq> None"
  using clerk_loops_return [of MakeKVServer demo_put "[([demo_put], ReplyLost), ([], Replied)]"
      "\<lparr>getKey = ''k''\<rparr>"] by auto

end
