(* ===== verification/KV_Raft.thy ===== *)
theory KV_Raft
  imports RSM_Safety KV_Clerk
begin

text \<open>
  The replicated key/value server (src/src/kvraft1/server.go), the counter the layer is tested
  with (src/src/kvraft1/rsm/server.go), both as services of the replicated state machine layer,
  and the clerk that looks for the leader (src/src/kvraft1/client.go). A snapshot is the value
  that was encoded: decoding what was encoded gives the value back, in the standard library's
  gob.
\<close>

section \<open>The key/value server\<close>

text \<open>The dynamic type of a request and of a reply; \<open>RNil\<close> is the nil of an unknown request.\<close>

datatype kvReq = KGet GetArgs | KPut PutArgs | KOther
datatype kvRep = RGet GetReply | RPut Err | RNil

record KVRaft =
  kvr_m :: "string \<rightharpoonup> kvnode"

definition StartKVRaft :: KVRaft where
  "StartKVRaft = \<lparr>kvr_m = Map.empty\<rparr>"

fun kvr_DoOp :: "KVRaft \<Rightarrow> kvReq \<Rightarrow> KVRaft \<times> kvRep" where
  "kvr_DoOp kv (KGet op) =
     (case kvr_m kv (getKey op) of
        None \<Rightarrow> (kv, RGet \<lparr>grValue = [], grVersion = 0, grErr = ErrNoKey\<rparr>)
      | Some n \<Rightarrow> (kv, RGet \<lparr>grValue = nodeValue n, grVersion = nodeVersion n, grErr = OK\<rparr>))"
| "kvr_DoOp kv (KPut op) =
     (case kvr_m kv (putKey op) of
        None \<Rightarrow>
          if putVersion op \<noteq> 0 then (kv, RPut ErrNoKey)
          else (kv\<lparr>kvr_m := (kvr_m kv)(putKey op \<mapsto>
                  \<lparr>nodeValue = putValue op, nodeVersion = 1\<rparr>)\<rparr>, RPut OK)
      | Some n \<Rightarrow>
          if putVersion op \<noteq> nodeVersion n then (kv, RPut ErrVersion)
          else (kv\<lparr>kvr_m := (kvr_m kv)(putKey op \<mapsto>
                  \<lparr>nodeValue = putValue op, nodeVersion = nodeVersion n + 1\<rparr>)\<rparr>, RPut OK))"
| "kvr_DoOp kv KOther = (kv, RNil)"

definition kvr_Snapshot :: "KVRaft \<Rightarrow> (string \<rightharpoonup> kvnode)" where
  "kvr_Snapshot kv = kvr_m kv"

definition kvr_Restore :: "(string \<rightharpoonup> kvnode) \<Rightarrow> KVRaft" where
  "kvr_Restore m = \<lparr>kvr_m = m\<rparr>"

text \<open>The RPC handlers, after Submit has returned; \<open>None\<close> is a failed type assertion.\<close>

definition kvr_Get :: "kvRep opResult \<Rightarrow> GetReply option" where
  "kvr_Get r =
     (if resErr r \<noteq> OK then Some \<lparr>grValue = [], grVersion = 0, grErr = resErr r\<rparr>
      else case resRep r of Some (RGet rep) \<Rightarrow> Some rep | _ \<Rightarrow> None)"

definition kvr_Put :: "kvRep opResult \<Rightarrow> Err option" where
  "kvr_Put r =
     (if resErr r \<noteq> OK then Some (resErr r)
      else case resRep r of Some (RPut e) \<Rightarrow> Some e | _ \<Rightarrow> None)"

interpretation kvsm: state_machine kvr_DoOp kvr_Snapshot kvr_Restore
  by unfold_locales (simp add: kvr_Snapshot_def kvr_Restore_def)

definition kvService :: "(KVRaft, kvReq, kvRep, string \<rightharpoonup> kvnode) service" where
  "kvService = \<lparr>svInit = StartKVRaft, svDo = kvr_DoOp, svSnap = kvr_Snapshot, svRestore = kvr_Restore\<rparr>"

section \<open>The counter\<close>

datatype ctrReq = Inc | Null | Dec
datatype ctrRep = IncRep int | NullRep

record rsmSrv =
  counter :: int

text \<open>No reply is the fatal exit on any other request.\<close>

fun ctr_DoOp :: "rsmSrv \<Rightarrow> ctrReq \<Rightarrow> rsmSrv \<times> ctrRep option" where
  "ctr_DoOp rs Inc = (rs\<lparr>counter := counter rs + 1\<rparr>, Some (IncRep (counter rs + 1)))"
| "ctr_DoOp rs Null = (rs, Some NullRep)"
| "ctr_DoOp rs Dec = (rs, None)"

definition ctr_Snapshot :: "rsmSrv \<Rightarrow> int" where
  "ctr_Snapshot rs = counter rs"

definition ctr_Restore :: "int \<Rightarrow> rsmSrv" where
  "ctr_Restore d = \<lparr>counter = d\<rparr>"

interpretation ctrsm: state_machine ctr_DoOp ctr_Snapshot ctr_Restore
  by unfold_locales (simp add: ctr_Snapshot_def ctr_Restore_def)

section \<open>The server against the unreplicated one\<close>

text \<open>What the unreplicated server of \<open>KV_Server\<close> does with the same request.\<close>

definition as_single :: "KVRaft \<Rightarrow> KVServer" where
  "as_single kv = \<lparr>kv_m = kvr_m kv\<rparr>"

fun single_DoOp :: "KVServer \<Rightarrow> kvReq \<Rightarrow> KVServer \<times> kvRep" where
  "single_DoOp kv (KGet a) = (kv, RGet (kv_Get kv a))"
| "single_DoOp kv (KPut a) = (let (kv', e) = kv_Put kv a in (kv', RPut e))"
| "single_DoOp kv KOther = (kv, RNil)"

lemma DoOp_refines:
  "single_DoOp (as_single kv) req = (as_single (fst (kvr_DoOp kv req)), snd (kvr_DoOp kv req))"
  by (cases req) (auto simp: as_single_def kv_Get_def kv_Put_def split: option.splits)

fun single_log :: "KVServer \<Rightarrow> kvReq Op option list \<Rightarrow> KVServer" where
  "single_log kv [] = kv"
| "single_log kv (None # l) = single_log kv l"
| "single_log kv (Some op # l) = single_log (fst (single_DoOp kv (opCommand op))) l"

lemma state_refines: "as_single (svc_exec kvService kv l) = single_log (as_single kv) l"
  by (induction kvService kv l rule: svc_exec.induct) (simp_all add: kvService_def DoOp_refines)

lemma kvService_law: "state_machine (svSnap kvService) (svRestore kvService)"
  using kvsm.state_machine_axioms by (simp add: kvService_def)

text \<open>
  C4. The replicated key/value service is one unreplicated server: some log of commands gives
  every server's table, and every OK answer of Submit, when the server of kvsrv1 runs it; the
  command at the answer's index is the caller's own unless its server restarted.
\<close>

theorem kvraft_is_one_server:
  assumes "sys_run kvService (sys_init kvService n now rnd maxrs) es = Some s"
  shows "\<exists>L. (\<forall>p < n. \<exists>k \<le> length L. kvr_m (sm (rsm s p)) = kv_m (single_log MakeKVServer (take k L))) \<and>
    (\<forall>(c, res) \<in> set (answers s). resErr res = OK \<longrightarrow>
       (\<exists>op. L ! (nat (cIndex c) - 1) = Some op \<and> (lives s (cSrv c) = 0 \<longrightarrow> op = cOp c) \<and>
          resRep res = Some (snd (single_DoOp (single_log MakeKVServer (take (nat (cIndex c) - 1) L))
            (opCommand op)))))"
proof -
  have init: "as_single (svInit kvService) = MakeKVServer"
    by (simp add: kvService_def as_single_def StartKVRaft_def MakeKVServer_def)
  have st: "as_single (svc_state kvService l) = single_log MakeKVServer l" for l
    by (simp add: svc_state_def state_refines init)
  have rep: "snd (svDo kvService (svc_state kvService l) q) = snd (single_DoOp (single_log MakeKVServer l) q)" for l q
    using DoOp_refines [of "svc_state kvService l" q] st [of l] by (simp add: kvService_def)
  obtain a where n: "csize (raftc s) = n" by (rule sys_reachable [OF kvService_law assms])
  obtain L L' where L: "explains kvService s L" "explains kvService s L'" "take (length L) L' = L"
    by (rule sys_reachable_pair [OF kvService_law assms, of "[]" s]) simp
  have "\<exists>k \<le> length L. kvr_m (sm (rsm s p)) = kv_m (single_log MakeKVServer (take k L))" if p: "p < n" for p
  proof -
    obtain k where "k \<le> length L" "sm (rsm s p) = svc_state kvService (take k L)"
      using explainsD(1) [OF L(1), of p] p n by auto
    then show ?thesis by (intro exI [of _ k]) (simp add: as_single_def flip: st)
  qed
  moreover have "\<exists>op. L ! (nat (cIndex c) - 1) = Some op \<and> (lives s (cSrv c) = 0 \<longrightarrow> op = cOp c) \<and>
          resRep res = Some (snd (single_DoOp (single_log MakeKVServer (take (nat (cIndex c) - 1) L))
            (opCommand op)))" if "(c, res) \<in> set (answers s)" "resErr res = OK" for c res
    by (rule explains_answer [OF L(1) that]) (auto simp: rep)
  ultimately show ?thesis by blast
qed


section \<open>The clerk\<close>

text \<open>
  One call of the loop happens among other commands of the replicated log: those of other
  clients, and copies of this request that an earlier call left in the log and that take effect
  only now. The call itself may fail, or find a server that is not the leader (after or without
  its command taking effect), or be answered.
\<close>

datatype background = Foreign PutArgs | Late
datatype outcome = NoAnswer bool | NotLeader bool | Answer

type_synonym turn = "background list \<times> outcome"

text \<open>The store after the background, and the replies to the late copies.\<close>

fun happens :: "('s \<Rightarrow> PutArgs \<Rightarrow> 's \<times> Err) \<Rightarrow> 's \<Rightarrow> PutArgs \<Rightarrow> bool \<Rightarrow> background list \<Rightarrow> 's \<times> Err list" where
  "happens put s a resent [] = (s, [])"
| "happens put s a resent (Foreign x # bs) = happens put (fst (put s x)) a resent bs"
| "happens put s a resent (Late # bs) =
     (if resent then (let (s', l) = happens put (fst (put s a)) a resent bs in (s', snd (put s a) # l))
      else happens put s a resent bs)"

text \<open>The store after one call, the replies to copies of the request, and what the clerk sees.\<close>

definition one_call :: "('s \<Rightarrow> PutArgs \<Rightarrow> 's \<times> Err) \<Rightarrow> 's \<Rightarrow> PutArgs \<Rightarrow> outcome \<Rightarrow> 's \<times> Err list \<times> Err option" where
  "one_call put s a f =
     (let done = (fst (put s a), [snd (put s a)]); skipped = (s, [])
      in case f of
           NoAnswer ex \<Rightarrow> (let (s', l) = (if ex then done else skipped) in (s', l, None))
         | NotLeader ex \<Rightarrow> (let (s', l) = (if ex then done else skipped) in (s', l, Some ErrWrongLeader))
         | Answer \<Rightarrow> (fst (put s a), [snd (put s a)], Some (snd (put s a))))"

record ck_result =
  ckErr :: Err
  ckLeader :: nat
  ckAsked :: "nat list"
  ckLog :: "Err list"

text \<open>
  Put of the clerk with \<open>n\<close> servers, \<open>i\<close> the counter of the inner loop: its answer and new leader,
  the servers it asked, the replies to all copies, and the store. It has no result while it is
  still going round.
\<close>

fun ck_Put :: "('s \<Rightarrow> PutArgs \<Rightarrow> 's \<times> Err) \<Rightarrow> 's \<Rightarrow> PutArgs \<Rightarrow> nat \<Rightarrow> nat \<Rightarrow> nat \<Rightarrow> bool \<Rightarrow> turn list \<Rightarrow>
    (ck_result \<times> 's) option" where
  "ck_Put put s a n leader i resent [] = None"
| "ck_Put put s a n leader i resent ((bs, f) # rest) =
     (if n = 0 then None
      else
        let srv = (leader + i) mod n;
            (s1, l1) = happens put s a resent bs;
            (s2, l2, reply) = one_call put s1 a f
        in if reply = Some ErrVersion then
             Some (\<lparr>ckErr = (if resent then ErrMaybe else ErrVersion), ckLeader = srv, ckAsked = [srv],
                    ckLog = l1 @ l2\<rparr>, s2)
           else if reply = Some OK then
             Some (\<lparr>ckErr = OK, ckLeader = srv, ckAsked = [srv], ckLog = l1 @ l2\<rparr>, s2)
           else if reply = Some ErrNoKey then
             Some (\<lparr>ckErr = ErrNoKey, ckLeader = srv, ckAsked = [srv], ckLog = l1 @ l2\<rparr>, s2)
           else
             map_option (\<lambda>(r, s'). (r\<lparr>ckAsked := srv # ckAsked r, ckLog := l1 @ l2 @ ckLog r\<rparr>, s'))
               (ck_Put put s2 a n leader (if i + 1 < n then i + 1 else 0) True rest))"

fun turns :: "turn list \<Rightarrow> nat" where
  "turns [] = 0"
| "turns ((bs, f) # rest) = Suc (length bs) + turns rest"

text \<open>One turn: a final answer, or on to the next server.\<close>

lemma ck_turn:
  assumes "ck_Put put s a n leader i resent ((bs, f) # ts) = Some (r, s')"
    and "happens put s a resent bs = (s1, l1)" "one_call put s1 a f = (s2, l2, reply)"
  shows "0 < n \<and>
    ((\<exists>e \<in> {OK, ErrNoKey, ErrVersion}. reply = Some e \<and> s' = s2 \<and>
        r = \<lparr>ckErr = (if e = ErrVersion \<and> resent then ErrMaybe else e), ckLeader = (leader + i) mod n,
             ckAsked = [(leader + i) mod n], ckLog = l1 @ l2\<rparr>) \<or>
     (\<forall>e \<in> {OK, ErrNoKey, ErrVersion}. reply \<noteq> Some e) \<and>
     (\<exists>r'. ck_Put put s2 a n leader (if i + 1 < n then i + 1 else 0) True ts = Some (r', s') \<and>
        r = r'\<lparr>ckAsked := (leader + i) mod n # ckAsked r', ckLog := l1 @ l2 @ ckLog r'\<rparr>))"
  using assms by (auto simp: Let_def split: if_splits)

section \<open>The clerk's contract, for any versioned store\<close>

context versioned_store begin

lemma passed_put:
  assumes "passed s a j" shows "passed (fst (put s x)) a (Suc j)"
  using passed_puts [OF assms, of "[x]"] by simp

lemma passed_mono: "passed s a j \<Longrightarrow> j \<le> k \<Longrightarrow> passed s a k"
  by (auto simp: passed_def intro: order_trans)

lemma happens_passed:
  "happens put s a resent bs = (s', l) \<Longrightarrow> passed s a j \<Longrightarrow> j + length bs < 2 ^ 64 \<Longrightarrow>
     passed s' a (j + length bs) \<and> set l \<subseteq> {ErrVersion}"
proof (induction bs arbitrary: s s' l j)
  case (Cons b bs)
  have r: "put s a = (s, ErrVersion)" by (rule passed_reply [OF Cons.prems(2)]) (use Cons.prems(3) in simp)
  have len: "Suc j + length bs < 2 ^ 64" using Cons.prems(3) by simp
  show ?case
  proof (cases b)
    case (Foreign x)
    then show ?thesis using Cons.IH [OF _ passed_put [OF Cons.prems(2)] len] Cons.prems(1) by simp
  next
    case Late
    obtain s1 l1 where h: "happens put s a resent bs = (s1, l1)" by fastforce
    have "passed s a (Suc j)" by (rule passed_mono [OF Cons.prems(2)]) simp
    then show ?thesis using Cons.IH [OF h _ len] h Late Cons.prems(1) r
      by (auto split: if_splits)
  qed
qed simp

lemma happens_once:
  "happens put s a resent bs = (s', l) \<Longrightarrow> length bs < 2 ^ 64 - 1 \<Longrightarrow>
     OK \<notin> set l \<or> length (filter (\<lambda>x. x = OK) l) = 1 \<and> passed s' a (Suc (length bs))"
proof (induction bs arbitrary: s s' l)
  case (Cons b bs)
  have len: "length bs < 2 ^ 64 - 1" using Cons.prems(2) by simp
  show ?case
  proof (cases b)
    case (Foreign x)
    then show ?thesis using Cons.IH [OF _ len] Cons.prems(1) passed_mono by fastforce
  next
    case Late
    show ?thesis
    proof (cases resent)
      case False
      then show ?thesis using Late Cons.IH [OF _ len] Cons.prems(1) passed_mono by fastforce
    next
      case True
      obtain s1 l1 where h: "happens put (fst (put s a)) a resent bs = (s1, l1)" by fastforce
      have sl: "s' = s1" "l = snd (put s a) # l1" using Cons.prems(1) Late True h by auto
      show ?thesis
      proof (cases "snd (put s a) = OK")
        case ok: True
        have "1 + length bs < 2 ^ 64" using Cons.prems(2) by simp
        from happens_passed [OF h passed_after_success [OF ok] this]
        have "passed s1 a (Suc (length bs))" "set l1 \<subseteq> {ErrVersion}" by simp_all
        moreover from this have "filter (\<lambda>x. x = OK) l1 = []" by (auto simp: filter_empty_conv)
        ultimately show ?thesis using sl ok passed_mono by auto
      next
        case False
        then show ?thesis using Cons.IH [OF h len] sl passed_mono by fastforce
      qed
    qed
  qed
qed simp

lemma one_call_cases:
  assumes "one_call put s a f = (s', l, reply)"
  shows "(s' = s \<and> l = [] \<or> s' = fst (put s a) \<and> l = [snd (put s a)]) \<and>
    (reply = None \<or> reply = Some ErrWrongLeader \<or> reply = Some (snd (put s a)) \<and> l = [snd (put s a)])"
  using assms by (cases f) (auto simp: one_call_def Let_def split: if_splits)

lemma ck_passed:
  "ck_Put put s a n leader i resent ts = Some (r, s') \<Longrightarrow> passed s a j \<Longrightarrow> j + turns ts < 2 ^ 64 \<Longrightarrow>
     set (ckLog r) \<subseteq> {ErrVersion} \<and> ckLog r \<noteq> [] \<and> (resent \<longrightarrow> ckErr r = ErrMaybe)"
proof (induction ts arbitrary: s i resent r j)
  case (Cons t ts)
  obtain bs f where t: "t = (bs, f)" by (cases t)
  obtain s1 l1 where h: "happens put s a resent bs = (s1, l1)" by fastforce
  obtain s2 l2 reply where c: "one_call put s1 a f = (s2, l2, reply)" by (metis prod_cases3)
  have P: "passed s1 a (j + length bs) \<and> set l1 \<subseteq> {ErrVersion}"
    by (rule happens_passed [OF h Cons.prems(2)]) (use Cons.prems(3) t in simp)
  then have e: "put s1 a = (s1, ErrVersion)" by (intro passed_reply) (use Cons.prems(3) t in auto)
  note C = one_call_cases [OF c, unfolded e]
  have s2: "s2 = s1" "set l2 \<subseteq> {ErrVersion}" using C by auto
  from ck_turn [OF Cons.prems(1) [unfolded t] h c] show ?case
  proof (elim conjE disjE bexE exE)
    fix e assume "reply = Some e" "e \<in> {OK, ErrNoKey, ErrVersion}"
      and r: "r = \<lparr>ckErr = (if e = ErrVersion \<and> resent then ErrMaybe else e), ckLeader = (leader + i) mod n,
             ckAsked = [(leader + i) mod n], ckLog = l1 @ l2\<rparr>"
    then have "e = ErrVersion" "l2 = [ErrVersion]" using C by auto
    then show ?thesis using r P by simp
  next
    fix r' assume r': "ck_Put put s2 a n leader (if i + 1 < n then i + 1 else 0) True ts = Some (r', s')"
        "r = r'\<lparr>ckAsked := (leader + i) mod n # ckAsked r', ckLog := l1 @ l2 @ ckLog r'\<rparr>"
    have "passed s2 a (j + length bs)" "j + length bs + turns ts < 2 ^ 64" using P s2 Cons.prems(3) t by auto
    from Cons.IH [OF r'(1) this] show ?thesis using r'(2) P s2 by auto
  qed
qed simp

text \<open>In one call and the background before it a copy succeeds once at most, and all later ones fail.\<close>

lemma turn_settled:
  assumes h: "happens put s a resent bs = (s1, l1)" and c: "one_call put s1 a f = (s2, l2, reply)"
    and len: "length bs < 2 ^ 64 - 1"
  shows "OK \<notin> set (l1 @ l2) \<or> length (filter (\<lambda>x. x = OK) (l1 @ l2)) = 1 \<and>
      passed s2 a (Suc (length bs)) \<and> (OK \<in> set l1 \<longrightarrow> snd (put s1 a) = ErrVersion)"
proof (cases "OK \<in> set l1")
  case True
  then have P: "length (filter (\<lambda>x. x = OK) l1) = 1" "passed s1 a (Suc (length bs))"
    using happens_once [OF h len] by auto
  have "put s1 a = (s1, ErrVersion)" by (rule passed_reply [OF P(2)]) (use len in auto)
  then show ?thesis using one_call_cases [OF c] P True by auto
next
  case False
  then have no: "filter (\<lambda>x. x = OK) l1 = []" by (auto simp: filter_empty_conv)
  show ?thesis
  proof (cases "OK \<in> set l2")
    case True
    then have ok: "l2 = [OK]" "s2 = fst (put s1 a)" "snd (put s1 a) = OK" using one_call_cases [OF c] by auto
    have "passed s2 a (Suc (length bs))"
      using passed_mono [OF passed_after_success [OF ok(3)], of "Suc (length bs)"] ok(2) by simp
    then show ?thesis using ok no False by simp
  next
    case False2: False
    then show ?thesis using False by simp
  qed
qed

text \<open>
  What an answer says of all copies of the request, late ones included: at most one succeeded,
  one did for OK, none for ErrNoKey and ErrVersion, and ErrVersion only answers the first call.
\<close>

lemma ck_contract:
  "ck_Put put s a n leader i resent ts = Some (r, s') \<Longrightarrow> turns ts < 2 ^ 64 - 1 \<Longrightarrow>
   length (filter (\<lambda>x. x = OK) (ckLog r)) \<le> 1 \<and> (ckErr r = OK \<longrightarrow> OK \<in> set (ckLog r)) \<and>
   (ckErr r = ErrNoKey \<longrightarrow> OK \<notin> set (ckLog r)) \<and>
   (ckErr r = ErrVersion \<longrightarrow> \<not> resent \<and> OK \<notin> set (ckLog r)) \<and>
   ckErr r \<in> {OK, ErrNoKey, ErrVersion, ErrMaybe}"
proof (induction ts arbitrary: s i resent r)
  case (Cons t ts)
  obtain bs f where t: "t = (bs, f)" by (cases t)
  obtain s1 l1 where h: "happens put s a resent bs = (s1, l1)" by fastforce
  obtain s2 l2 reply where c: "one_call put s1 a f = (s2, l2, reply)" by (metis prod_cases3)
  note C = one_call_cases [OF c]
  have len: "length bs < 2 ^ 64 - 1" "turns ts < 2 ^ 64 - 1" using Cons.prems(2) t by auto
  have fresh: "l1 = []" if "\<not> resent"
    using h that by (induction put s a resent bs arbitrary: s1 l1 rule: happens.induct) (auto split: prod.splits)
  note settled = turn_settled [OF h c len(1)]
  from ck_turn [OF Cons.prems(1) [unfolded t] h c] show ?case
  proof (elim conjE disjE bexE exE)
    fix e assume e: "reply = Some e" "e \<in> {OK, ErrNoKey, ErrVersion}"
      and r: "r = \<lparr>ckErr = (if e = ErrVersion \<and> resent then ErrMaybe else e), ckLeader = (leader + i) mod n,
             ckAsked = [(leader + i) mod n], ckLog = l1 @ l2\<rparr>"
    then have l2: "l2 = [e]" "snd (put s1 a) = e" using C by auto
    have "length (filter (\<lambda>x. x = OK) (l1 @ l2)) \<le> 1"
    proof (cases "OK \<in> set (l1 @ l2)")
      case True
      then show ?thesis using settled by simp
    next
      case False
      then have "filter (\<lambda>x. x = OK) (l1 @ l2) = []" unfolding filter_empty_conv by blast
      then show ?thesis by simp
    qed
    then show ?thesis using settled e l2 r fresh by auto
  next
    fix r' assume r': "ck_Put put s2 a n leader (if i + 1 < n then i + 1 else 0) True ts = Some (r', s')"
        "r = r'\<lparr>ckAsked := (leader + i) mod n # ckAsked r', ckLog := l1 @ l2 @ ckLog r'\<rparr>"
    show ?thesis
    proof (cases "OK \<in> set (l1 @ l2)")
      case False
      then have "filter (\<lambda>x. x = OK) (l1 @ l2) = []" by (auto simp: filter_empty_conv)
      then show ?thesis using Cons.IH [OF r'(1) len(2)] r'(2) False by auto
    next
      case True
      then have P: "length (filter (\<lambda>x. x = OK) (l1 @ l2)) = 1" "passed s2 a (Suc (length bs))"
        using settled by auto
      have "Suc (length bs) + turns ts < 2 ^ 64" using Cons.prems(2) t by simp
      from ck_passed [OF r'(1) P(2) this] have Q: "set (ckLog r') \<subseteq> {ErrVersion}" "ckErr r' = ErrMaybe" by auto
      then have "filter (\<lambda>x. x = OK) (ckLog r') = []" by (auto simp: filter_empty_conv)
      then show ?thesis using r'(2) P(1) Q(2) by simp
    qed
  qed
qed simp

end

lemma ck_round_robin:
  "ck_Put put s a n leader i resent ts = Some (r, s') \<Longrightarrow> i < n \<Longrightarrow>
     ckAsked r = map (\<lambda>k. (leader + i + k) mod n) [0..<length (ckAsked r)] \<and>
     ckAsked r \<noteq> [] \<and> ckLeader r = last (ckAsked r)"
proof (induction ts arbitrary: s i resent r)
  case (Cons t ts)
  obtain bs f where t: "t = (bs, f)" by (cases t)
  obtain s1 l1 where h: "happens put s a resent bs = (s1, l1)" by fastforce
  obtain s2 l2 reply where c: "one_call put s1 a f = (s2, l2, reply)" by (metis prod_cases3)
  from ck_turn [OF Cons.prems(1) [unfolded t] h c] show ?case
  proof (elim conjE disjE bexE exE)
    fix e assume "r = \<lparr>ckErr = (if e = ErrVersion \<and> resent then ErrMaybe else e), ckLeader = (leader + i) mod n,
             ckAsked = [(leader + i) mod n], ckLog = l1 @ l2\<rparr>"
    then show ?thesis by simp
  next
    fix r' assume r': "ck_Put put s2 a n leader (if i + 1 < n then i + 1 else 0) True ts = Some (r', s')"
        "r = r'\<lparr>ckAsked := (leader + i) mod n # ckAsked r', ckLog := l1 @ l2 @ ckLog r'\<rparr>"
    let ?j = "if i + 1 < n then i + 1 else 0"
    have j: "(leader + ?j + k) mod n = (leader + i + Suc k) mod n" for k
    proof (cases "i + 1 < n")
      case False
      then have "n = Suc i" using Cons.prems(2) by simp
      then have eq: "leader + i + Suc k = (leader + k) + n" by simp
      show ?thesis using False by (simp only: eq mod_add_self2) simp
    qed simp
    have I: "ckAsked r' = map (\<lambda>k. (leader + ?j + k) mod n) [0..<length (ckAsked r')]"
      "ckAsked r' \<noteq> [] \<and> ckLeader r' = last (ckAsked r')"
      using Cons.IH [OF r'(1)] Cons.prems(2) by auto
    have "map (\<lambda>k. (leader + i + k) mod n) [0..<Suc (length (ckAsked r'))] =
        (leader + i) mod n # map (\<lambda>k. (leader + i + Suc k) mod n) [0..<length (ckAsked r')]"
      by (simp add: upt_conv_Cons map_Suc_upt [symmetric] comp_def del: upt_Suc)
    also have "\<dots> = (leader + i) mod n # ckAsked r'" using I(1) unfolding j by simp
    finally show ?thesis using r'(2) I(2) by simp
  qed
qed simp

text \<open>Get goes round the same way; it changes nothing, so only its answer matters.\<close>

fun ck_Get :: "('s \<Rightarrow> PutArgs \<Rightarrow> 's \<times> Err) \<Rightarrow> ('s \<Rightarrow> GetArgs \<Rightarrow> GetReply) \<Rightarrow> 's \<Rightarrow> GetArgs \<Rightarrow> nat \<Rightarrow> nat \<Rightarrow>
    nat \<Rightarrow> (PutArgs list \<times> outcome) list \<Rightarrow> (GetReply \<times> nat \<times> 's) option" where
  "ck_Get put get s a n leader i [] = None"
| "ck_Get put get s a n leader i ((os, f) # rest) =
     (if n = 0 then None
      else
        let srv = (leader + i) mod n;
            s1 = others put s os;
            reply = (case f of
                NoAnswer ex \<Rightarrow> None
              | NotLeader ex \<Rightarrow> Some \<lparr>grValue = [], grVersion = 0, grErr = ErrWrongLeader\<rparr>
              | Answer \<Rightarrow> Some (get s1 a))
        in case reply of
             Some r \<Rightarrow>
               if grErr r = OK \<or> grErr r = ErrNoKey then Some (r, srv, s1)
               else ck_Get put get s1 a n leader (if i + 1 < n then i + 1 else 0) rest
           | None \<Rightarrow> ck_Get put get s1 a n leader (if i + 1 < n then i + 1 else 0) rest)"

context versioned_store begin

lemma ck_returns:
  "0 < n \<Longrightarrow> ck_Put put s a n leader i resent ts \<noteq> None \<longleftrightarrow> (\<exists>bs. (bs, Answer) \<in> set ts)"
proof (induction ts arbitrary: s i resent)
  case (Cons t ts)
  obtain bs f where t: "t = (bs, f)" by (cases t)
  obtain s1 l1 where h: "happens put s a resent bs = (s1, l1)" by fastforce
  obtain s2 l2 reply where c: "one_call put s1 a f = (s2, l2, reply)" by (metis prod_cases3)
  have e: "snd (put s1 a) \<in> {OK, ErrNoKey, ErrVersion}" using put_fails [of s1 a] by auto
  show ?case
  proof (cases f)
    case Answer
    then have "reply = Some (snd (put s1 a))" using c by (simp add: one_call_def Let_def)
    then show ?thesis using t h c e Cons.prems Answer by (auto simp: Let_def)
  next
    case (NoAnswer ex)
    then have "reply = None" using c by (auto simp: one_call_def Let_def split: if_splits)
    then show ?thesis using t h c Cons NoAnswer by (auto simp: Let_def)
  next
    case (NotLeader ex)
    then have "reply = Some ErrWrongLeader" using c by (auto simp: one_call_def Let_def split: if_splits)
    then show ?thesis using t h c Cons NotLeader by (auto simp: Let_def)
  qed
qed simp

end

section \<open>The contract on the replicated server\<close>

definition kvr_put :: "KVRaft \<Rightarrow> PutArgs \<Rightarrow> KVRaft \<times> Err" where
  "kvr_put kv a =
     (let (kv', rep) = kvr_DoOp kv (KPut a)
      in (kv', the (kvr_Put \<lparr>resErr = OK, resRep = Some rep\<rparr>)))"

definition kvr_version :: "KVRaft \<Rightarrow> string \<Rightarrow> Tversion" where
  "kvr_version kv k = kv_version (as_single kv) k"

definition kvr_content :: "KVRaft \<Rightarrow> string \<Rightarrow> string" where
  "kvr_content kv k = kv_content (as_single kv) k"

definition kvr_present :: "KVRaft \<Rightarrow> string \<Rightarrow> bool" where
  "kvr_present kv k = kv_present (as_single kv) k"

lemma kvr_put_single:
  "as_single (fst (kvr_put kv a)) = fst (kv_Put (as_single kv) a) \<and> snd (kvr_put kv a) = snd (kv_Put (as_single kv) a)"
  by (auto simp: kvr_put_def kvr_Put_def as_single_def kv_Put_def split: option.splits)

lemma as_single_inject: "as_single x = as_single y \<Longrightarrow> x = y"
  by (cases x; cases y) (simp add: as_single_def)

interpretation kvr: versioned_store kvr_version kvr_content kvr_present kvr_put
proof unfold_locales
  fix s a
  note P = kvr_put_single [of s a]
  show "(snd (kvr_put s a) = OK) = (putVersion a = kvr_version s (putKey a))"
    using P kv.put_ok [of "as_single s" a] by (simp add: kvr_version_def)
  show "snd (kvr_put s a) \<noteq> OK \<Longrightarrow>
      fst (kvr_put s a) = s \<and> (snd (kvr_put s a) = ErrNoKey \<or> snd (kvr_put s a) = ErrVersion)"
    using P kv.put_fails [of "as_single s" a] as_single_inject by metis
  show "snd (kvr_put s a) = ErrNoKey \<Longrightarrow> \<not> kvr_present s (putKey a)"
    using P kv.put_nokey [of "as_single s" a] by (simp add: kvr_present_def)
  show "snd (kvr_put s a) = OK \<Longrightarrow>
      kvr_version (fst (kvr_put s a)) = (kvr_version s)(putKey a := kvr_version s (putKey a) + 1)"
    using P kv.put_version [of "as_single s" a] by (simp add: kvr_version_def fun_eq_iff)
  show "snd (kvr_put s a) = OK \<Longrightarrow>
      kvr_content (fst (kvr_put s a)) = (kvr_content s)(putKey a := putValue a)"
    using P kv.put_content [of "as_single s" a] by (simp add: kvr_content_def fun_eq_iff)
  show "snd (kvr_put s a) = OK \<Longrightarrow>
      kvr_present (fst (kvr_put s a)) = (kvr_present s)(putKey a := True)"
    using P kv.put_present [of "as_single s" a] by (simp add: kvr_present_def fun_eq_iff)
qed

text \<open>
  What the clerk's answer to Put says, whatever servers fail, lose leadership before or after
  the command takes effect, or commit an abandoned copy late (fewer than \<open>2^64 - 1\<close> commands): no
  two copies succeed; OK says one did; ErrNoKey and ErrVersion say none has, and ErrVersion is
  only the answer to the first call.
\<close>

theorem raft_clerk_put_answer:
  assumes "ck_Put kvr_put kv a n leader 0 False ts = Some (r, kv')" "turns ts < 2 ^ 64 - 1"
  shows "length (filter (\<lambda>x. x = OK) (ckLog r)) \<le> 1 \<and> (ckErr r = OK \<longrightarrow> OK \<in> set (ckLog r)) \<and>
    (ckErr r = ErrNoKey \<or> ckErr r = ErrVersion \<longrightarrow> OK \<notin> set (ckLog r)) \<and>
    ckErr r \<in> {OK, ErrNoKey, ErrVersion, ErrMaybe}"
  using kvr.ck_contract [OF assms] by auto

text \<open>
  The clerk asks the servers in turn, starting with the one it believes to lead and going round
  as often as it takes; it returns as soon as one gives a definite answer and only then, and
  remembers that one.
\<close>

theorem raft_clerk_goes_round:
  assumes "0 < n"
  shows "(ck_Put kvr_put kv a n leader 0 False ts \<noteq> None \<longleftrightarrow> (\<exists>bs. (bs, Answer) \<in> set ts)) \<and>
    (\<forall>r kv'. ck_Put kvr_put kv a n leader 0 False ts = Some (r, kv') \<longrightarrow>
       ckAsked r = map (\<lambda>k. (leader + k) mod n) [0..<length (ckAsked r)] \<and> ckLeader r = last (ckAsked r))"
  using kvr.ck_returns [OF assms, of kv a leader 0 False ts] ck_round_robin [of kvr_put kv a n leader 0 False ts] assms
  by auto

text \<open>
  A snapshot carries the whole table: taken on one server and applied on another that is
  behind, it makes that server's table and index those of the first.
\<close>

theorem kv_snapshot_transfers:
  assumes "maybeSnapshot kvr_Snapshot r bytes = Some (i, d)" "lastApplied r' < i"
  shows "sm (applySnapshot kvr_Restore r' i d) = sm r \<and> lastApplied (applySnapshot kvr_Restore r' i d) = lastApplied r"
  by (rule kvsm.applied_snapshot [OF assms])

section \<open>Witnesses\<close>

lemma raft_clerk_put_answer_witness:
  "\<exists>r kv'. ck_Put kvr_put StartKVRaft demo_put 3 1 0 False
      [([], NotLeader False), ([], NotLeader True), ([Late], NoAnswer False), ([], Answer)] = Some (r, kv') \<and>
     ckErr r = ErrMaybe \<and> ckAsked r = [1, 2, 0, 1] \<and> length (filter (\<lambda>x. x = OK) (ckLog r)) \<le> 1"
proof -
  let ?ts = "[([], NotLeader False), ([], NotLeader True), ([Late], NoAnswer False), ([], Answer)]"
  obtain r kv' where r: "ck_Put kvr_put StartKVRaft demo_put 3 1 0 False ?ts = Some (r, kv')"
      "ckErr r = ErrMaybe" "ckAsked r = [1, 2, 0, 1]"
    by (simp add: demo_put_def kvr_put_def kvr_Put_def StartKVRaft_def Let_def one_call_def)
  from raft_clerk_put_answer [OF r(1)] r show ?thesis by auto
qed

lemma raft_clerk_goes_round_witness:
  "ck_Put kvr_put StartKVRaft demo_put 3 1 0 False [([], NotLeader False), ([], Answer)] \<noteq> None"
  using raft_clerk_goes_round [of 3 StartKVRaft demo_put 1 "[([], NotLeader False), ([], Answer)]"] by simp

lemma kv_snapshot_transfers_witness:
  "sm (applySnapshot kvr_Restore ((newRSM 1 (-1) StartKVRaft) :: (KVRaft, kvRep) RSM) 4
     (Map.empty(''k'' \<mapsto> \<lparr>nodeValue = ''v'', nodeVersion = 2\<rparr>))) =
   kvr_Restore (Map.empty(''k'' \<mapsto> \<lparr>nodeValue = ''v'', nodeVersion = 2\<rparr>))"
proof -
  let ?m = "Map.empty(''k'' \<mapsto> \<lparr>nodeValue = ''v'', nodeVersion = 2\<rparr>)"
  let ?r = "(newRSM 0 10 (kvr_Restore ?m))\<lparr>lastApplied := 4\<rparr> :: (KVRaft, kvRep) RSM"
  have "maybeSnapshot kvr_Snapshot ?r 20 = Some (4, ?m)"
    by (simp add: maybeSnapshot_def newRSM_def kvr_Snapshot_def kvr_Restore_def)
  from kv_snapshot_transfers [OF this, of "newRSM 1 (-1) StartKVRaft :: (KVRaft, kvRep) RSM"] show ?thesis by (simp add: newRSM_def)
qed

definition kv_run :: "(kvReq, string \<rightharpoonup> kvnode) sysevent list" where
  "kv_run =
     [Net (Elect 0 10000 0), Net (DeliverVote 0 0 0), Net (ReturnVote 2), Submit 0 (KPut demo_put),
      Net (Replicate 0 1), Net (DeliverAppend 3 0), Net (ReturnAppend 4), Net (Apply 0), Read 0, Poll 0]"

lemma kvraft_is_one_server_witness:
  "\<exists>s. sys_run kvService (sys_init kvService 3 0 (\<lambda>_. 0) (\<lambda>_. -1)) kv_run = Some s \<and>
     (\<exists>L. \<forall>p < 3. \<exists>k \<le> length L. kvr_m (sm (rsm s p)) = kv_m (single_log MakeKVServer (take k L)))"
proof -
  obtain s where s: "sys_run kvService (sys_init kvService 3 0 (\<lambda>_. 0) (\<lambda>_. -1)) kv_run = Some s"
    using sys_run_inv [OF sys_init_inv kvService_law, of 3 0 "\<lambda>_. 0" "\<lambda>_. -1" kv_run] by auto
  from kvraft_is_one_server [OF s] show ?thesis using s by blast
qed

end
