(* ===== verification/Lock.thy ===== *)
theory Lock
  imports KV_Clerk
begin

text \<open>
  The distributed lock on a versioned store (src/src/kvsrv1/lock/lock.go). Any number of clients
  run Acquire and Release on one lock name, interleaved with Puts to other keys; each clerk call
  takes effect at one point between its call and its return (\<open>KV_Clerk\<close>), and its answer may be
  ErrMaybe whenever the clerk may give it. The client's own code between two clerk calls is one
  function from what it has just been told to what it does next.
\<close>

section \<open>One client\<close>

record Lock =
  lkName :: string
  lkId :: string
  lkVersion :: Tversion

definition MakeLock :: "string \<Rightarrow> string \<Rightarrow> Lock" where
  "MakeLock name rid = \<lparr>lkName = name, lkId = rid, lkVersion = 0\<rparr>"

text \<open>
  Where a client is: before or after each clerk call of Acquire (\<open>Looking\<close>, \<open>Looked\<close>,
  \<open>Trying\<close>, \<open>Tried\<close>), in its critical section, or in Release. \<open>Trying v w\<close> puts at version
  \<open>v\<close> and records \<open>w\<close> on success.
\<close>

datatype pc =
    Idle
  | Looking
  | Looked string Tversion Err
  | Trying Tversion Tversion
  | Tried Tversion Err
  | Holding
  | Releasing Tversion
  | ReleaseReply Err
  | Verifying
  | Verified string Tversion Err

definition acquire_looked :: "Lock \<Rightarrow> string \<Rightarrow> Tversion \<Rightarrow> Err \<Rightarrow> Lock \<times> pc" where
  "acquire_looked lk val ver err =
     (case err of
        ErrNoKey \<Rightarrow> (lk, Trying 0 1)
      | OK \<Rightarrow>
          if val = lkId lk then (lk\<lparr>lkVersion := ver\<rparr>, Holding)
          else if val \<noteq> [] then (lk, Looking)
          else (lk, Trying ver (ver + 1))
      | _ \<Rightarrow> (lk, Looking))"

definition acquire_tried :: "Lock \<Rightarrow> Tversion \<Rightarrow> Err \<Rightarrow> Lock \<times> pc" where
  "acquire_tried lk new err =
     (case err of OK \<Rightarrow> (lk\<lparr>lkVersion := new\<rparr>, Holding) | _ \<Rightarrow> (lk, Looking))"

definition release_replied :: "Err \<Rightarrow> pc" where
  "release_replied err = (if err \<noteq> OK then Verifying else Idle)"

definition release_verified :: "Lock \<Rightarrow> string \<Rightarrow> Tversion \<Rightarrow> Err \<Rightarrow> pc" where
  "release_verified lk val ver gerr =
     (if gerr = ErrNoKey \<or> val \<noteq> lkId lk then Idle else Releasing ver)"

section \<open>All clients\<close>

record locksys =
  lockKV :: KVServer
  lockOf :: "nat \<Rightarrow> Lock"
  pcOf :: "nat \<Rightarrow> pc"

text \<open>The answer of a clerk's Put: ErrMaybe instead of OK or ErrVersion after a resend.\<close>

definition clerk_answer :: "bool \<Rightarrow> Err \<Rightarrow> Err" where
  "clerk_answer maybe e = (if maybe \<and> e \<noteq> ErrNoKey then ErrMaybe else e)"

definition locate :: "locksys \<Rightarrow> nat \<Rightarrow> Lock \<times> pc \<Rightarrow> locksys" where
  "locate s c r = s\<lparr>lockOf := (lockOf s)(c := fst r), pcOf := (pcOf s)(c := snd r)\<rparr>"

definition putAs :: "locksys \<Rightarrow> nat \<Rightarrow> string \<Rightarrow> Tversion \<Rightarrow> KVServer \<times> Err" where
  "putAs s c val v =
     kv_Put (lockKV s) \<lparr>putKey = lkName (lockOf s c), putValue = val, putVersion = v\<rparr>"

definition getAs :: "locksys \<Rightarrow> nat \<Rightarrow> GetReply" where
  "getAs s c = kv_Get (lockKV s) \<lparr>getKey = lkName (lockOf s c)\<rparr>"

definition lock_client_step :: "locksys \<Rightarrow> nat \<Rightarrow> bool \<Rightarrow> locksys" where
  "lock_client_step s c maybe =
     (let lk = lockOf s c in
      case pcOf s c of
        Idle \<Rightarrow> locate s c (lk, Looking)
      | Looking \<Rightarrow> (let r = getAs s c in locate s c (lk, Looked (grValue r) (grVersion r) (grErr r)))
      | Looked val ver err \<Rightarrow> locate s c (acquire_looked lk val ver err)
      | Trying v new \<Rightarrow>
          (let (kv, e) = putAs s c (lkId lk) v
           in locate (s\<lparr>lockKV := kv\<rparr>) c (lk, Tried new (clerk_answer maybe e)))
      | Tried new err \<Rightarrow> locate s c (acquire_tried lk new err)
      | Holding \<Rightarrow> locate s c (lk, Releasing (lkVersion lk))
      | Releasing v \<Rightarrow>
          (let (kv, e) = putAs s c [] v
           in locate (s\<lparr>lockKV := kv\<rparr>) c (lk, ReleaseReply (clerk_answer maybe e)))
      | ReleaseReply err \<Rightarrow> locate s c (lk, release_replied err)
      | Verifying \<Rightarrow> (let r = getAs s c in locate s c (lk, Verified (grValue r) (grVersion r) (grErr r)))
      | Verified val ver gerr \<Rightarrow> locate s c (lk, release_verified lk val ver gerr))"

text \<open>A step of a client (with whether its clerk had to resend), or another client's Put to another key.\<close>

datatype lock_event = Step nat bool | OtherPut PutArgs

fun lock_exec :: "string \<Rightarrow> locksys \<Rightarrow> lock_event list \<Rightarrow> locksys" where
  "lock_exec name s [] = s"
| "lock_exec name s (Step c maybe # es) = lock_exec name (lock_client_step s c maybe) es"
| "lock_exec name s (OtherPut a # es) =
     lock_exec name (if putKey a = name then s else s\<lparr>lockKV := fst (kv_Put (lockKV s) a)\<rparr>) es"

definition lock_start :: "string \<Rightarrow> (nat \<Rightarrow> string) \<Rightarrow> locksys" where
  "lock_start name rid =
     \<lparr>lockKV = MakeKVServer, lockOf = (\<lambda>c. MakeLock name (rid c)), pcOf = (\<lambda>_. Idle)\<rparr>"

section \<open>The invariant\<close>

text \<open>What a client's position says about the version \<open>V\<close> and the content \<open>C\<close> of the lock key.\<close>

fun pc_ok :: "string \<Rightarrow> Tversion \<Rightarrow> pc \<Rightarrow> Tversion \<Rightarrow> string \<Rightarrow> bool" where
  "pc_ok me held Idle V C \<longleftrightarrow> C \<noteq> me"
| "pc_ok me held Looking V C \<longleftrightarrow> True"
| "pc_ok me held (Looked val ver err) V C \<longleftrightarrow>
     unat ver \<le> unat V \<and> (err = OK \<or> err = ErrNoKey) \<and> (err = ErrNoKey \<longrightarrow> ver = 0 \<and> val = []) \<and>
     (err = OK \<and> val = me \<longrightarrow> C = me \<and> V = ver) \<and> (ver = V \<and> val = [] \<longrightarrow> C = [])"
| "pc_ok me held (Trying v new) V C \<longleftrightarrow> new = v + 1 \<and> unat v \<le> unat V \<and> (v = V \<longrightarrow> C = [])"
| "pc_ok me held (Tried new err) V C \<longleftrightarrow> (err = OK \<longrightarrow> C = me \<and> V = new)"
| "pc_ok me held Holding V C \<longleftrightarrow> C = me \<and> V = held"
| "pc_ok me held (Releasing v) V C \<longleftrightarrow> C = me \<and> V = v"
| "pc_ok me held (ReleaseReply err) V C \<longleftrightarrow> C \<noteq> me"
| "pc_ok me held Verifying V C \<longleftrightarrow> C \<noteq> me"
| "pc_ok me held (Verified val ver gerr) V C \<longleftrightarrow> C \<noteq> me \<and> (gerr = ErrNoKey \<or> val \<noteq> me)"

definition lock_inv :: "string \<Rightarrow> (nat \<Rightarrow> string) \<Rightarrow> nat \<Rightarrow> locksys \<Rightarrow> bool" where
  "lock_inv name rid k s \<longleftrightarrow>
     unat (kv_version (lockKV s) name) \<le> k \<and>
     (\<forall>c. lkName (lockOf s c) = name \<and> lkId (lockOf s c) = rid c \<and>
        pc_ok (rid c) (lkVersion (lockOf s c)) (pcOf s c)
          (kv_version (lockKV s) name) (kv_content (lockKV s) name))"

text \<open>A successful Put by another client, from a free lock or from its own, bumps the version.\<close>

lemma pc_ok_other:
  assumes ok: "pc_ok me held q V C" and "C = [] \<or> C = you" "you \<noteq> me" "me \<noteq> []" "C' = [] \<or> C' = you"
    and V: "V' = V + 1" "unat V + 1 < 2 ^ 64"
  shows "pc_ok me held q V' C'"
proof -
  have "unat V' = unat V + 1" using V by (simp add: unat_word_ariths)
  then have "unat v \<le> unat V \<Longrightarrow> v \<noteq> V'" "unat v \<le> unat V \<Longrightarrow> unat v \<le> unat V'" for v by auto
  then show ?thesis using assms by (cases q) auto
qed

lemma lock_invD:
  assumes "lock_inv name rid k s"
  shows "unat (kv_version (lockKV s) name) \<le> k" "lkName (lockOf s c) = name" "lkId (lockOf s c) = rid c"
    "pc_ok (rid c) (lkVersion (lockOf s c)) (pcOf s c)
       (kv_version (lockKV s) name) (kv_content (lockKV s) name)"
  using assms by (simp_all add: lock_inv_def)

text \<open>A step that leaves the store alone.\<close>

lemma locate_inv:
  assumes inv: "lock_inv name rid k s" and "lkName lk = name" "lkId lk = rid c"
    and "pc_ok (rid c) (lkVersion lk) q (kv_version (lockKV s) name) (kv_content (lockKV s) name)"
  shows "lock_inv name rid (Suc k) (locate s c (lk, q))"
  using assms unfolding lock_inv_def locate_def by (auto intro: le_SucI)

text \<open>A step whose Put reaches the store.\<close>

lemma put_inv:
  assumes inv: "lock_inv name rid k s" and k: "Suc k < 2 ^ 64"
    and rids: "inj rid" "\<And>c. rid c \<noteq> []"
    and p: "putAs s c val v = (kv, e)"
    and free: "v = kv_version (lockKV s) name \<Longrightarrow>
       kv_content (lockKV s) name = [] \<and> val = rid c \<or> kv_content (lockKV s) name = rid c \<and> val = []"
    and next_pc: "\<And>V C. (e = OK \<Longrightarrow> V = v + 1 \<and> C = val \<and> kv_version (lockKV s) name = v) \<Longrightarrow>
       (e \<noteq> OK \<Longrightarrow> v \<noteq> kv_version (lockKV s) name \<and> V = kv_version (lockKV s) name \<and>
         C = kv_content (lockKV s) name) \<Longrightarrow>
       pc_ok (rid c) (lkVersion (lockOf s c)) q V C"
  shows "lock_inv name rid (Suc k) (locate (s\<lparr>lockKV := kv\<rparr>) c (lockOf s c, q))"
proof -
  note I = lock_invD [OF inv]
  let ?a = "\<lparr>putKey = name, putValue = val, putVersion = v\<rparr>"
  let ?V = "kv_version (lockKV s) name" and ?C = "kv_content (lockKV s) name"
  have e: "kv = fst (kv_Put (lockKV s) ?a)" "e = snd (kv_Put (lockKV s) ?a)"
    using p I(2) [of c] by (simp_all add: putAs_def)
  show ?thesis
  proof (cases "e = OK")
    case False
    then have same: "kv = lockKV s" "v \<noteq> ?V"
      using kv.put_fails [of "lockKV s" ?a] kv.put_ok [of "lockKV s" ?a] e by auto
    have "pc_ok (rid c) (lkVersion (lockOf s c)) q ?V ?C"
      by (rule next_pc) (use False same in auto)
    moreover have "s\<lparr>lockKV := kv\<rparr> = s" using same by simp
    ultimately show ?thesis using locate_inv [OF inv I(2) I(3)] by simp
  next
    case True
    then have v: "v = ?V" using kv.put_ok [of "lockKV s" ?a] e by simp
    have V': "kv_version kv name = ?V + 1" "kv_content kv name = val"
      using kv.put_version [of "lockKV s" ?a] kv.put_content [of "lockKV s" ?a] True e v by simp_all
    have small: "unat ?V + 1 < 2 ^ 64" using I(1) k by simp
    then have "unat (?V + 1) = unat ?V + 1" by (simp add: unat_word_ariths)
    then have count: "unat (kv_version kv name) \<le> Suc k" using I(1) V'(1) by simp
    have "pc_ok (rid c) (lkVersion (lockOf s c)) q (kv_version kv name) (kv_content kv name)"
      unfolding V' by (rule next_pc) (use True v in auto)
    moreover have "pc_ok (rid d) (lkVersion (lockOf s d)) (pcOf s d) (kv_version kv name) (kv_content kv name)"
      if "d \<noteq> c" for d
      using pc_ok_other [OF I(4) [of d], of "rid c" "kv_content kv name"] that free [OF v] V' small
        rids(2) [of d] injD [OF rids(1), of c d] by auto
    ultimately show ?thesis
      using count I(2,3) unfolding lock_inv_def locate_def by simp
  qed
qed

lemma get_reply:
  assumes "lkName (lockOf s c) = name"
  shows "grValue (getAs s c) = kv_content (lockKV s) name \<and> grVersion (getAs s c) = kv_version (lockKV s) name \<and>
    (grErr (getAs s c) = OK \<or> grErr (getAs s c) = ErrNoKey \<and> kv_version (lockKV s) name = 0 \<and>
       kv_content (lockKV s) name = [])"
  using assms by (auto simp: getAs_def kv_Get_reply kv_content_def kv_version_def kv_present_def)

lemma answer_OK: "clerk_answer maybe e = OK \<Longrightarrow> e = OK"
  by (auto simp: clerk_answer_def split: if_splits)

lemma looked_ok:
  assumes "pc_ok (lkId lk0) held (Looked val ver err) V C" "lkId lk0 \<noteq> []"
    and "acquire_looked lk0 val ver err = (lk, q)"
  shows "lkName lk = lkName lk0 \<and> lkId lk = lkId lk0 \<and> pc_ok (lkId lk0) (lkVersion lk) q V C"
  using assms by (cases err) (auto simp: acquire_looked_def split: if_splits)

lemma lock_step_inv:
  assumes inv: "lock_inv name rid k s" and k: "Suc k < 2 ^ 64"
    and rids: "inj rid" "\<And>c. rid c \<noteq> []"
  shows "lock_inv name rid (Suc k) (lock_client_step s c maybe)"
proof -
  note I = lock_invD [OF inv]
  note P = I(4) [of c] and N = I(2) [of c] and ME = I(3) [of c]
  note stay = locate_inv [OF inv, of _ c]
  show ?thesis
  proof (cases "pcOf s c")
    case Idle
    then show ?thesis using stay [of "lockOf s c" Looking] N ME by (simp add: lock_client_step_def Let_def)
  next
    case Looking
    then show ?thesis
      using stay [of "lockOf s c" "Looked (grValue (getAs s c)) (grVersion (getAs s c)) (grErr (getAs s c))"]
        get_reply [OF N] N ME by (auto simp: lock_client_step_def Let_def)
  next
    case (Looked val ver err)
    obtain lk q where r: "acquire_looked (lockOf s c) val ver err = (lk, q)"
      by (cases "acquire_looked (lockOf s c) val ver err")
    from looked_ok [OF _ _ r] P Looked ME rids(2) [of c]
    show ?thesis using stay [of lk q] N r by (auto simp: lock_client_step_def Let_def)
  next
    case (Trying v new)
    obtain kv e where p: "putAs s c (rid c) v = (kv, e)" by (cases "putAs s c (rid c) v")
    have "lock_inv name rid (Suc k)
        (locate (s\<lparr>lockKV := kv\<rparr>) c (lockOf s c, Tried new (clerk_answer maybe e)))"
      by (rule put_inv [OF inv k rids p]) (use P Trying answer_OK in auto)
    then show ?thesis using Trying p ME by (simp add: lock_client_step_def Let_def)
  next
    case (Tried new err)
    then show ?thesis
      using P stay [of "lockOf s c" Looking] stay [of "(lockOf s c)\<lparr>lkVersion := new\<rparr>" Holding] N ME
      by (auto simp: lock_client_step_def acquire_tried_def Let_def split: Err.splits)
  next
    case Holding
    then show ?thesis using P stay [of "lockOf s c" "Releasing (lkVersion (lockOf s c))"] N ME
      by (simp add: lock_client_step_def Let_def)
  next
    case (Releasing v)
    obtain kv e where p: "putAs s c [] v = (kv, e)" by (cases "putAs s c [] v")
    have "lock_inv name rid (Suc k)
        (locate (s\<lparr>lockKV := kv\<rparr>) c (lockOf s c, ReleaseReply (clerk_answer maybe e)))"
      by (rule put_inv [OF inv k rids p]) (use P Releasing rids(2) [of c] in auto)
    then show ?thesis using Releasing p by (simp add: lock_client_step_def Let_def)
  next
    case (ReleaseReply err)
    then show ?thesis
      using P stay [of "lockOf s c" "release_replied err"] N ME
      by (auto simp: lock_client_step_def Let_def release_replied_def)
  next
    case Verifying
    then show ?thesis
      using P stay [of "lockOf s c" "Verified (grValue (getAs s c)) (grVersion (getAs s c)) (grErr (getAs s c))"]
        get_reply [OF N] N ME by (auto simp: lock_client_step_def Let_def)
  next
    case (Verified val ver gerr)
    then show ?thesis using P stay [of "lockOf s c" Idle] N ME
      by (auto simp: lock_client_step_def Let_def release_verified_def)
  qed
qed

lemma other_inv:
  assumes inv: "lock_inv name rid k s" and "putKey a \<noteq> name"
  shows "lock_inv name rid k (s\<lparr>lockKV := fst (kv_Put (lockKV s) a)\<rparr>)"
proof -
  have "kv_version (fst (kv_Put (lockKV s) a)) name = kv_version (lockKV s) name"
    "kv_content (fst (kv_Put (lockKV s) a)) name = kv_content (lockKV s) name"
    using kv.put_fails [of "lockKV s" a] kv.put_version [of "lockKV s" a]
      kv.put_content [of "lockKV s" a] assms(2)
    by (cases "snd (kv_Put (lockKV s) a) = OK"; simp)+
  then show ?thesis using inv by (simp add: lock_inv_def)
qed

lemma lock_inv_mono: "lock_inv name rid k s \<Longrightarrow> k \<le> k' \<Longrightarrow> lock_inv name rid k' s"
  by (auto simp: lock_inv_def)

lemma lock_run_inv:
  assumes "inj rid" "\<And>c. rid c \<noteq> []"
  shows "lock_inv name rid k s \<Longrightarrow> k + length es < 2 ^ 64 \<Longrightarrow>
    lock_inv name rid (k + length es) (lock_exec name s es)"
proof (induction name s es arbitrary: k rule: lock_exec.induct)
  case (2 name s c maybe es)
  have "lock_inv name rid (Suc k) (lock_client_step s c maybe)"
    using lock_step_inv [OF 2(2) _ assms] 2(3) by simp
  from 2(1) [OF this] 2(3) show ?case by simp
next
  case (3 name s a es)
  have "lock_inv name rid (Suc k) (if putKey a = name then s else s\<lparr>lockKV := fst (kv_Put (lockKV s) a)\<rparr>)"
    using 3(2) other_inv lock_inv_mono [of name rid k _ "Suc k"] by simp
  from 3(1) [OF this] 3(3) show ?case by simp
qed simp

lemma start_inv:
  assumes "\<And>c. rid c \<noteq> []"
  shows "lock_inv name rid 0 (lock_start name rid)"
  using assms [symmetric]
  by (simp add: lock_inv_def lock_start_def MakeLock_def MakeKVServer_def kv_version_def kv_content_def)

section \<open>Properties\<close>

text \<open>
  C18. Mutual exclusion: with distinct, non-empty client ids, at most one client is between the
  return of Acquire and the call of Release, for every interleaving of fewer than \<open>2^64\<close> steps and
  whichever replies are lost; and the holder knows the version Release needs.
\<close>

theorem lock_mutual_exclusion:
  assumes "inj rid" "\<And>c. rid c \<noteq> []" "length es < 2 ^ 64"
    and "pcOf (lock_exec name (lock_start name rid) es) c = Holding"
  shows "(pcOf (lock_exec name (lock_start name rid) es) d = Holding \<longrightarrow> c = d) \<and>
    kv_content (lockKV (lock_exec name (lock_start name rid) es)) name = rid c \<and>
    kv_version (lockKV (lock_exec name (lock_start name rid) es)) name =
      lkVersion (lockOf (lock_exec name (lock_start name rid) es) c)"
proof -
  have "lock_inv name rid (0 + length es) (lock_exec name (lock_start name rid) es)"
    by (rule lock_run_inv [OF assms(1,2) start_inv]) (use assms(2,3) in auto)
  note P = lock_invD(4) [OF this]
  show ?thesis using P [of c] P [of d] assms(1,4) by (auto dest: injD)
qed

definition demo_ids :: "nat \<Rightarrow> string" where
  "demo_ids c = replicate (Suc c) (CHR ''x'')"

definition demo_locking :: "lock_event list" where
  "demo_locking =
     [Step 0 False, Step 1 False, Step 0 False, Step 1 False, Step 0 False, Step 1 False,
      Step 0 True, Step 1 False, Step 0 False, Step 0 False, Step 0 False]"

lemma lock_mutual_exclusion_witness:
  "pcOf (lock_exec ''l'' (lock_start ''l'' demo_ids) demo_locking) 0 = Holding \<and>
   kv_content (lockKV (lock_exec ''l'' (lock_start ''l'' demo_ids) demo_locking)) ''l'' = demo_ids 0"
proof -
  have "inj demo_ids" by (rule injI) (simp add: demo_ids_def del: replicate.simps)
  moreover have "demo_ids c \<noteq> []" for c by (simp add: demo_ids_def)
  moreover have h: "pcOf (lock_exec ''l'' (lock_start ''l'' demo_ids) demo_locking) 0 = Holding"
    by code_simp
  moreover have "length demo_locking < 2 ^ 64" by (simp add: demo_locking_def)
  ultimately show ?thesis using lock_mutual_exclusion by blast
qed

text \<open>
  Release does release: whenever a client has returned from Release (or never acquired), the
  lock key does not hold its id.
\<close>

theorem lock_released:
  assumes "inj rid" "\<And>c. rid c \<noteq> []" "length es < 2 ^ 64"
    and "pcOf (lock_exec name (lock_start name rid) es) c = Idle"
  shows "kv_content (lockKV (lock_exec name (lock_start name rid) es)) name \<noteq> rid c"
proof -
  have "lock_inv name rid (0 + length es) (lock_exec name (lock_start name rid) es)"
    by (rule lock_run_inv [OF assms(1,2) start_inv]) (use assms(2,3) in auto)
  from lock_invD(4) [OF this, of c] assms(4) show ?thesis by simp
qed

lemma lock_released_witness:
  "pcOf (lock_exec ''l'' (lock_start ''l'' demo_ids)
     (demo_locking @ [Step 0 False, Step 0 True, Step 0 False, Step 0 False, Step 0 False])) 0 = Idle \<and>
   kv_content (lockKV (lock_exec ''l'' (lock_start ''l'' demo_ids)
     (demo_locking @ [Step 0 False, Step 0 True, Step 0 False, Step 0 False, Step 0 False]))) ''l''
     \<noteq> demo_ids 0"
proof -
  have "inj demo_ids" by (rule injI) (simp add: demo_ids_def del: replicate.simps)
  moreover have "demo_ids c \<noteq> []" for c by (simp add: demo_ids_def)
  moreover have "pcOf (lock_exec ''l'' (lock_start ''l'' demo_ids)
     (demo_locking @ [Step 0 False, Step 0 True, Step 0 False, Step 0 False, Step 0 False])) 0 = Idle"
    by code_simp
  moreover have "length (demo_locking @ [Step 0 False, Step 0 True, Step 0 False, Step 0 False,
      Step 0 False]) < 2 ^ 64" by (simp add: demo_locking_def)
  ultimately show ?thesis using lock_released by blast
qed

end
