(* ===== verification/Shard_Config.thy ===== *)
theory Shard_Config
  imports Prelude "HOL-Library.Word" "HOL-Library.AList"
begin

text \<open>
  Configurations of the sharded service (src/src/shardkv1/shardcfg/shardcfg.go): which group owns
  each of the twelve shards. A Go map is an association list with distinct keys; where the code
  ranges over a map, the order of the list is the order Go happens to choose, so a theorem about
  every list is one about every order. A fatal exit is \<open>None\<close>.
\<close>

section \<open>Data\<close>

type_synonym Tshid = nat
type_synonym Tnum = int
type_synonym Tgid = int

definition NShards :: nat where
  "NShards = 12"

definition NumFirst :: Tnum where
  "NumFirst = 1"

definition Gid1 :: Tgid where
  "Gid1 = 1"

record ShardConfig =
  Num :: Tnum
  Shards :: "Tgid list"
  Groups :: "(Tgid \<times> string list) list"

text \<open>The shard of a key.\<close>

definition Key2Shard :: "string \<Rightarrow> Tshid" where
  "Key2Shard key = unat (fnv32a key) mod NShards"

definition MakeShardConfig :: ShardConfig where
  "MakeShardConfig = \<lparr>Num = 0, Shards = replicate NShards 0, Groups = []\<rparr>"

text \<open>The loops over the groups of \<open>Copy\<close>: the copy has its own list.\<close>

definition CopyConfig :: "ShardConfig \<Rightarrow> ShardConfig" where
  "CopyConfig cfg =
     fold (\<lambda>(k, srvs) c. c\<lparr>Groups := AList.update k srvs (Groups c)\<rparr>) (Groups cfg)
       (MakeShardConfig\<lparr>Num := Num cfg, Shards := Shards cfg\<rparr>)"

section \<open>Balancing\<close>

definition shard_counts :: "Tgid list \<Rightarrow> Tgid \<Rightarrow> int" where
  "shard_counts ss = fold (\<lambda>g m. m(g := m g + 1)) ss (\<lambda>_. 0)"

text \<open>The most and the least loaded group, as (mg, mn, lg, ln); the first of each in gid order.\<close>

definition analyze_step :: "(Tgid \<Rightarrow> int) \<Rightarrow> Tgid \<Rightarrow> Tgid \<times> int \<times> Tgid \<times> int \<Rightarrow> Tgid \<times> int \<times> Tgid \<times> int" where
  "analyze_step counts g acc =
     (case acc of (mg, mn, lg, ln) \<Rightarrow>
        let (lg', ln') = (if counts g < ln then (g, counts g) else (lg, ln));
            (mg', mn') = (if counts g > mn then (g, counts g) else (mg, mn))
        in (mg', mn', lg', ln'))"

definition analyze :: "ShardConfig \<Rightarrow> Tgid \<times> int \<times> Tgid \<times> int" where
  "analyze c =
     fold (analyze_step (shard_counts (Shards c))) (sort (map fst (Groups c))) (-1, -1, -1, 257)"

definition least :: "ShardConfig \<Rightarrow> Tgid" where
  "least c = (case analyze c of (_, _, lg, _) \<Rightarrow> lg)"

text \<open>The second loop of Rebalance, over the shards of the array as it was before the loop.\<close>

definition assign_shard :: "Tshid \<Rightarrow> ShardConfig \<Rightarrow> ShardConfig" where
  "assign_shard s c =
     (if map_of (Groups c) (Shards c ! s) = None then c\<lparr>Shards := (Shards c)[s := least c]\<rparr> else c)"

definition assign_all :: "ShardConfig \<Rightarrow> ShardConfig" where
  "assign_all c = fold assign_shard [0..<length (Shards c)] c"

text \<open>The inner loop of the third: the first shard of \<open>mg\<close> goes to \<open>lg\<close>.\<close>

fun move_first :: "Tgid \<Rightarrow> Tgid \<Rightarrow> Tgid list \<Rightarrow> Tgid list" where
  "move_first mg lg [] = []"
| "move_first mg lg (g # gs) = (if g = mg then lg # gs else g # move_first mg lg gs)"

lemma shard_counts_eq: "shard_counts ss g = int (count_list ss g)"
proof -
  have "fold (\<lambda>g m. m(g := m g + 1)) ss m g = m g + int (count_list ss g)" for m
    by (induction ss arbitrary: m) auto
  then show ?thesis by (simp add: shard_counts_def)
qed

text \<open>What the scan finds.\<close>

lemma analyze_fold:
  "fold (analyze_step f) gs (mg, mn, lg, ln) = (mg', mn', lg', ln') \<Longrightarrow>
   (\<forall>g \<in> set gs. ln' \<le> f g \<and> f g \<le> mn') \<and> ln' \<le> ln \<and> mn \<le> mn' \<and>
   ((lg', ln') = (lg, ln) \<or> lg' \<in> set gs \<and> f lg' = ln' \<and> ln' < ln) \<and>
   ((mg', mn') = (mg, mn) \<or> mg' \<in> set gs \<and> f mg' = mn' \<and> mn < mn')"
proof (induction gs arbitrary: mg mn lg ln)
  case (Cons g gs)
  obtain mg1 mn1 lg1 ln1 where s: "analyze_step f g (mg, mn, lg, ln) = (mg1, mn1, lg1, ln1)"
    by (metis prod_cases4)
  have one: "ln1 \<le> f g \<and> f g \<le> mn1 \<and> ln1 \<le> ln \<and> mn \<le> mn1 \<and>
     ((lg1, ln1) = (lg, ln) \<or> lg1 = g \<and> f g = ln1 \<and> ln1 < ln) \<and>
     ((mg1, mn1) = (mg, mn) \<or> mg1 = g \<and> f g = mn1 \<and> mn < mn1)"
    using s by (auto simp: analyze_step_def Let_def split: if_splits)
  have "fold (analyze_step f) gs (mg1, mn1, lg1, ln1) = (mg', mn', lg', ln')"
    using Cons.prems s by simp
  from Cons.IH [OF this] one show ?case by auto
qed simp

lemma analyze_finds:
  assumes "Groups c \<noteq> []" "length (Shards c) \<le> 256" "analyze c = (mg, mn, lg, ln)"
  shows "lg \<in> fst ` set (Groups c)" "mg \<in> fst ` set (Groups c)"
    "ln = int (count_list (Shards c) lg)" "mn = int (count_list (Shards c) mg)"
    "\<And>g. g \<in> fst ` set (Groups c) \<Longrightarrow> ln \<le> int (count_list (Shards c) g) \<and> int (count_list (Shards c) g) \<le> mn"
proof -
  let ?f = "shard_counts (Shards c)"
  have f: "fold (analyze_step ?f) (sort (map fst (Groups c))) (-1, -1, -1, 257) = (mg, mn, lg, ln)"
    using assms(3) by (simp add: analyze_def)
  note a = analyze_fold [OF f, simplified shard_counts_eq set_sort set_map]
  obtain g0 where g0: "g0 \<in> fst ` set (Groups c)" using assms(1) by (cases "Groups c") auto
  have "int (count_list (Shards c) g0) \<le> 256" using count_le_length [of "Shards c" g0] assms(2) by simp
  then have "ln \<noteq> 257" "mn \<noteq> -1" using a g0 by force+
  then show "lg \<in> fst ` set (Groups c)" "mg \<in> fst ` set (Groups c)"
    "ln = int (count_list (Shards c) lg)" "mn = int (count_list (Shards c) mg)"
    "\<And>g. g \<in> fst ` set (Groups c) \<Longrightarrow> ln \<le> int (count_list (Shards c) g) \<and> int (count_list (Shards c) g) \<le> mn"
    using a by auto
qed
section \<open>The balancing loop\<close>

text \<open>The third loop of Rebalance may run for ever on an ill-formed configuration.\<close>

partial_function (option) balance :: "ShardConfig \<Rightarrow> ShardConfig option" where
  "balance c =
     (case analyze c of (mg, mn, lg, ln) \<Rightarrow>
        if mn < ln + 2 then Some c
        else balance (c\<lparr>Shards := move_first mg lg (Shards c)\<rparr>))"

definition Rebalance :: "ShardConfig \<Rightarrow> ShardConfig option" where
  "Rebalance c =
     (if length (Groups c) < 1 then Some (c\<lparr>Shards := map (\<lambda>_. 0) (Shards c)\<rparr>)
      else balance (assign_all c))"

definition gids :: "ShardConfig \<Rightarrow> Tgid set" where
  "gids c = fst ` set (Groups c)"

definition spread :: "ShardConfig \<Rightarrow> nat" where
  "spread c = (\<Sum>g \<in> gids c. (count_list (Shards c) g)\<^sup>2)"

lemma move_first_count:
  "mg \<in> set ss \<Longrightarrow> lg \<noteq> mg \<Longrightarrow>
   count_list (move_first mg lg ss) g =
     (if g = mg then count_list ss g - 1 else if g = lg then Suc (count_list ss g) else count_list ss g)"
  by (induction ss) auto

lemma move_first_length [simp]: "length (move_first mg lg ss) = length ss"
  by (induction ss) simp_all

lemma move_first_set: "set (move_first mg lg ss) \<subseteq> insert lg (set ss)"
  by (induction ss) auto

lemma spread_decreases:
  assumes "mg \<in> gids c" "lg \<in> gids c"
    and n: "count_list (Shards c) mg \<ge> count_list (Shards c) lg + 2"
  shows "spread (c\<lparr>Shards := move_first mg lg (Shards c)\<rparr>) < spread c"
proof -
  let ?f = "count_list (Shards c)" and ?f' = "count_list (move_first mg lg (Shards c))"
  have ne: "lg \<noteq> mg" using n by auto
  have "mg \<in> set (Shards c)" using n by (metis add_leE count_notin not_one_le_zero one_add_one)
  note f' = move_first_count [OF this ne]
  have fin: "finite (gids c)" by (simp add: gids_def)
  let ?R = "gids c - {mg} - {lg}"
  have split: "(\<Sum>g \<in> gids c. h g) = h mg + (h lg + sum h ?R)" for h :: "Tgid \<Rightarrow> nat"
    using assms(1,2) ne fin by (simp add: sum.remove [of _ mg] sum.remove [of _ lg])
  obtain k where k: "?f mg = ?f lg + 2 + k" using n le_Suc_ex by blast
  have "(?f' mg)\<^sup>2 + (?f' lg)\<^sup>2 < (?f mg)\<^sup>2 + (?f lg)\<^sup>2"
    using ne by (simp add: f' k power2_eq_square algebra_simps)
  moreover have "sum (\<lambda>g. (?f' g)\<^sup>2) ?R = sum (\<lambda>g. (?f g)\<^sup>2) ?R" by (rule sum.cong) (auto simp: f')
  moreover have "gids (c\<lparr>Shards := move_first mg lg (Shards c)\<rparr>) = gids c" by (simp add: gids_def)
  ultimately show ?thesis using split [of "\<lambda>g. (?f g)\<^sup>2"] split [of "\<lambda>g. (?f' g)\<^sup>2"]
    by (simp add: spread_def)
qed

definition balanced :: "ShardConfig \<Rightarrow> bool" where
  "balanced c \<longleftrightarrow> (\<forall>g \<in> gids c. \<forall>h \<in> gids c.
     count_list (Shards c) g \<le> count_list (Shards c) h + 1)"

definition assigned :: "ShardConfig \<Rightarrow> bool" where
  "assigned c \<longleftrightarrow> set (Shards c) \<subseteq> gids c"

text \<open>One turn of the loop: finished and balanced, or one shard closer.\<close>

lemma balance_turn:
  assumes "Groups c \<noteq> []" "length (Shards c) \<le> 256"
  obtains (stop) "balanced c" "balance c = Some c"
    | (move) mg lg where "mg \<in> gids c" "lg \<in> gids c" "\<not> balanced c"
        "balance c = balance (c\<lparr>Shards := move_first mg lg (Shards c)\<rparr>)"
        "spread (c\<lparr>Shards := move_first mg lg (Shards c)\<rparr>) < spread c"
        "\<And>d :: ShardConfig. Shards d = Shards c \<Longrightarrow> sort (map fst (Groups d)) = sort (map fst (Groups c)) \<Longrightarrow>
           balance d = balance (d\<lparr>Shards := move_first mg lg (Shards d)\<rparr>)"
proof -
  obtain mg mn lg ln where a: "analyze c = (mg, mn, lg, ln)" by (metis prod_cases4)
  note f = analyze_finds [OF assms a, folded gids_def]
  show thesis
  proof (cases "mn < ln + 2")
    case True
    have "balanced c" unfolding balanced_def
    proof (intro ballI)
      fix g h assume "g \<in> gids c" "h \<in> gids c"
      then show "count_list (Shards c) g \<le> count_list (Shards c) h + 1"
        using f(5) [of g] f(5) [of h] True by linarith
    qed
    then show thesis using True a by (intro stop) (simp_all add: balance.simps)
  next
    case False
    then have n: "count_list (Shards c) mg \<ge> count_list (Shards c) lg + 2" using f(3,4) by linarith
    show thesis
    proof (rule move [OF f(2,1)])
      show "\<not> balanced c" using n f(1,2) unfolding balanced_def
        by (metis add.commute add_le_cancel_right not_less_eq_eq one_add_one order_trans plus_1_eq_Suc)
      show "balance c = balance (c\<lparr>Shards := move_first mg lg (Shards c)\<rparr>)"
        using False a by (subst balance.simps) simp
      show "spread (c\<lparr>Shards := move_first mg lg (Shards c)\<rparr>) < spread c"
        by (rule spread_decreases [OF f(2,1) n])
    next
      fix d :: ShardConfig assume "Shards d = Shards c" "sort (map fst (Groups d)) = sort (map fst (Groups c))"
      then have "analyze d = (mg, mn, lg, ln)" using a by (simp add: analyze_def)
      then show "balance d = balance (d\<lparr>Shards := move_first mg lg (Shards d)\<rparr>)"
        using False by (subst balance.simps) simp
    qed
  qed
qed

text \<open>The loop returns, balanced, and only moves shards between the configuration's groups.\<close>

lemma balance_returns:
  "Groups c \<noteq> [] \<Longrightarrow> length (Shards c) \<le> 256 \<Longrightarrow>
   \<exists>ss. balance c = Some (c\<lparr>Shards := ss\<rparr>) \<and> length ss = length (Shards c) \<and>
     set ss \<subseteq> set (Shards c) \<union> gids c \<and> balanced (c\<lparr>Shards := ss\<rparr>)"
proof (induction c rule: measure_induct_rule [of spread])
  case (less c)
  from less.prems show ?case
  proof (cases rule: balance_turn)
    case stop
    then show ?thesis by (intro exI [of _ "Shards c"]) simp
  next
    case (move mg lg)
    let ?c = "c\<lparr>Shards := move_first mg lg (Shards c)\<rparr>"
    have g: "gids ?c = gids c" by (simp add: gids_def)
    obtain ss where ss: "balance ?c = Some (?c\<lparr>Shards := ss\<rparr>)" "length ss = length (Shards ?c)"
        "set ss \<subseteq> set (Shards ?c) \<union> gids ?c" "balanced (?c\<lparr>Shards := ss\<rparr>)"
      using less.IH [OF move(5)] less.prems by auto
    then have "set ss \<subseteq> set (Shards c) \<union> gids c"
      using g move(2) move_first_set [of mg lg "Shards c"] by auto
    then show ?thesis using ss move(4) by (intro exI [of _ ss]) simp
  qed
qed

text \<open>Two configurations with the same group ids are balanced alike.\<close>

lemma balance_order:
  "Groups c \<noteq> [] \<Longrightarrow> length (Shards c) \<le> 256 \<Longrightarrow> Shards d = Shards c \<Longrightarrow>
   sort (map fst (Groups d)) = sort (map fst (Groups c)) \<Longrightarrow>
   map_option Shards (balance d) = map_option Shards (balance c)"
proof (induction c arbitrary: d rule: measure_induct_rule [of spread])
  case (less c)
  have g: "gids d = gids c" using less.prems(4) by (metis gids_def set_map set_sort)
  have d: "Groups d \<noteq> []" "length (Shards d) \<le> 256"
    using less.prems by (metis length_map length_sort list.size(3) length_0_conv, simp)
  from less.prems(1,2) show ?case
  proof (cases rule: balance_turn)
    case stop
    then have b: "balanced d" using g less.prems(3) by (simp add: balanced_def)
    have "balance d = Some d" by (rule balance_turn [OF d]) (use b in simp_all)
    then show ?thesis using stop less.prems(3) by simp
  next
    case (move mg lg)
    have "map_option Shards (balance (d\<lparr>Shards := move_first mg lg (Shards d)\<rparr>)) =
        map_option Shards (balance (c\<lparr>Shards := move_first mg lg (Shards c)\<rparr>))"
      by (rule less.IH [OF move(5)]) (use less.prems in simp_all)
    then show ?thesis using move(4) move(6) [OF less.prems(3,4)] by simp
  qed
qed
lemma map_of_gids: "map_of (Groups c) g = None \<longleftrightarrow> g \<notin> gids c"
  by (simp add: gids_def map_of_eq_None_iff)

lemma assign_upto:
  assumes "Groups c \<noteq> []" "length (Shards c) \<le> 256" "k \<le> length (Shards c)"
  shows "\<exists>ss. fold assign_shard [0..<k] c = c\<lparr>Shards := ss\<rparr> \<and> length ss = length (Shards c) \<and>
    (\<forall>i < k. ss ! i \<in> gids c) \<and> (\<forall>i < length ss. Shards c ! i \<in> gids c \<longrightarrow> ss ! i = Shards c ! i)"
  using assms(3)
proof (induction k)
  case 0
  then show ?case by (intro exI [of _ "Shards c"]) simp
next
  case (Suc k)
  then obtain ss where ss: "fold assign_shard [0..<k] c = c\<lparr>Shards := ss\<rparr>" "length ss = length (Shards c)"
      "\<forall>i < k. ss ! i \<in> gids c" "\<forall>i < length ss. Shards c ! i \<in> gids c \<longrightarrow> ss ! i = Shards c ! i"
    by auto
  let ?c = "c\<lparr>Shards := ss\<rparr>"
  have g: "gids ?c = gids c" by (simp add: gids_def)
  obtain mg mn lg ln where a: "analyze ?c = (mg, mn, lg, ln)" by (metis prod_cases4)
  have lg: "least ?c \<in> gids c"
    using analyze_finds(1) [of ?c, OF _ _ a] assms(1,2) ss(2) a by (simp add: least_def gids_def)
  have k: "k < length ss" using Suc.prems ss(2) by simp
  show ?case
  proof (cases "ss ! k \<in> gids c")
    case True
    then have "fold assign_shard [0..<Suc k] c = ?c"
      using ss(1) map_of_gids [of ?c] by (simp add: assign_shard_def g)
    then show ?thesis using ss True by (intro exI [of _ ss]) (auto simp: less_Suc_eq)
  next
    case False
    then have "fold assign_shard [0..<Suc k] c = c\<lparr>Shards := ss[k := least ?c]\<rparr>"
      using ss(1) map_of_gids [of ?c] by (simp add: assign_shard_def g)
    moreover have "Shards c ! k \<notin> gids c" using ss(4) k False by metis
    ultimately show ?thesis using ss k lg
      by (intro exI [of _ "ss[k := least ?c]"]) (auto simp: less_Suc_eq nth_list_update)
  qed
qed

lemma assign_all_works:
  assumes "Groups c \<noteq> []" "length (Shards c) \<le> 256"
  shows "\<exists>ss. assign_all c = c\<lparr>Shards := ss\<rparr> \<and> length ss = length (Shards c) \<and> set ss \<subseteq> gids c \<and>
    (\<forall>i < length ss. Shards c ! i \<in> gids c \<longrightarrow> ss ! i = Shards c ! i)"
proof -
  obtain ss where "assign_all c = c\<lparr>Shards := ss\<rparr>" "length ss = length (Shards c)"
      "\<forall>i < length ss. ss ! i \<in> gids c" "\<forall>i < length ss. Shards c ! i \<in> gids c \<longrightarrow> ss ! i = Shards c ! i"
    using assign_upto [OF assms order_refl] by (auto simp: assign_all_def)
  then show ?thesis by (intro exI [of _ ss]) (auto simp: set_conv_nth)
qed

lemma Rebalance_works:
  assumes "Groups c \<noteq> []" "length (Shards c) \<le> 256"
  shows "\<exists>ss. Rebalance c = Some (c\<lparr>Shards := ss\<rparr>) \<and> length ss = length (Shards c) \<and>
     assigned (c\<lparr>Shards := ss\<rparr>) \<and> balanced (c\<lparr>Shards := ss\<rparr>)"
proof -
  obtain ss where ss: "assign_all c = c\<lparr>Shards := ss\<rparr>" "length ss = length (Shards c)" "set ss \<subseteq> gids c"
    using assign_all_works [OF assms] by blast
  have g: "gids (c\<lparr>Shards := x\<rparr>) = gids c" for x by (simp add: gids_def)
  obtain ss' where "balance (c\<lparr>Shards := ss\<rparr>) = Some (c\<lparr>Shards := ss'\<rparr>)" "length ss' = length ss"
      "set ss' \<subseteq> set ss \<union> gids c" "balanced (c\<lparr>Shards := ss'\<rparr>)"
    using balance_returns [of "c\<lparr>Shards := ss\<rparr>"] assms ss(2) by (auto simp: g)
  moreover have "Rebalance c = balance (c\<lparr>Shards := ss\<rparr>)" using assms(1) ss(1)
    by (simp add: Rebalance_def Suc_le_eq)
  ultimately show ?thesis using ss g by (intro exI [of _ ss']) (auto simp: assigned_def)
qed

section \<open>Changing the groups\<close>

text \<open>
  The loop of Join over the new groups: whether it went through, whether anything changed. The
  log.Fatalf of a server that is already in a group is \<open>None\<close>.
\<close>

fun join_loop :: "(Tgid \<times> string list) list \<Rightarrow> bool \<Rightarrow> ShardConfig \<Rightarrow> (bool \<times> bool \<times> ShardConfig) option" where
  "join_loop [] changed c = Some (True, changed, c)"
| "join_loop ((gid, srvs) # rest) changed c =
     (if map_of (Groups c) gid \<noteq> None then Some (False, changed, c)
      else if list_ex (\<lambda>(xgid, xsrvs). list_ex (\<lambda>s1. s1 \<in> set srvs) xsrvs) (Groups c) then None
      else join_loop rest True (c\<lparr>Groups := AList.update gid srvs (Groups c)\<rparr>))"

definition JoinGroups :: "ShardConfig \<Rightarrow> (Tgid \<times> string list) list \<Rightarrow> (bool \<times> ShardConfig) option" where
  "JoinGroups c servers =
     (case join_loop servers False c of
        None \<Rightarrow> None
      | Some (through, changed, c') \<Rightarrow>
          if \<not> through then Some (False, c')
          else if \<not> changed then None
          else Some (True, c'\<lparr>Num := Num c' + 1\<rparr>))"

fun leave_loop :: "Tgid list \<Rightarrow> bool \<Rightarrow> ShardConfig \<Rightarrow> bool \<times> bool \<times> ShardConfig" where
  "leave_loop [] changed c = (True, changed, c)"
| "leave_loop (gid # rest) changed c =
     (if map_of (Groups c) gid = None then (False, changed, c)
      else leave_loop rest True (c\<lparr>Groups := AList.delete gid (Groups c)\<rparr>))"

definition LeaveGroups :: "ShardConfig \<Rightarrow> Tgid list \<Rightarrow> (bool \<times> ShardConfig) option" where
  "LeaveGroups c gs =
     (case leave_loop gs False c of
        (through, changed, c') \<Rightarrow>
          if \<not> through then Some (False, c')
          else if \<not> changed then None
          else Some (True, c'\<lparr>Num := Num c' + 1\<rparr>))"

text \<open>\<open>None\<close> is also a Rebalance that does not return.\<close>

definition JoinBalance :: "ShardConfig \<Rightarrow> (Tgid \<times> string list) list \<Rightarrow> (bool \<times> ShardConfig) option" where
  "JoinBalance c servers =
     (case JoinGroups c servers of
        None \<Rightarrow> None
      | Some (ok, c') \<Rightarrow> if \<not> ok then Some (False, c') else map_option (Pair True) (Rebalance c'))"

definition LeaveBalance :: "ShardConfig \<Rightarrow> Tgid list \<Rightarrow> (bool \<times> ShardConfig) option" where
  "LeaveBalance c gs =
     (case LeaveGroups c gs of
        None \<Rightarrow> None
      | Some (ok, c') \<Rightarrow> if \<not> ok then Some (False, c') else map_option (Pair True) (Rebalance c'))"

section \<open>Reading a configuration\<close>

definition GidServers :: "ShardConfig \<Rightarrow> Tshid \<Rightarrow> (Tgid \<times> string list \<times> bool) option" where
  "GidServers cfg sh =
     map_option (\<lambda>gid. case map_of (Groups cfg) gid of
         None \<Rightarrow> (gid, [], False) | Some srvs \<Rightarrow> (gid, srvs, True))
       (slice_get (Shards cfg) (int sh))"

definition IsMember :: "ShardConfig \<Rightarrow> Tgid \<Rightarrow> bool" where
  "IsMember cfg gid = list_ex (\<lambda>g. g = gid) (Shards cfg)"

text \<open>\<open>False\<close> is any of the calls of \<open>fatalf\<close>.\<close>

definition CheckConfig :: "ShardConfig \<Rightarrow> Tgid list \<Rightarrow> bool" where
  "CheckConfig cfg groups \<longleftrightarrow>
     length (Groups cfg) = length groups \<and>
     list_all (\<lambda>g. map_of (Groups cfg) g \<noteq> None) groups \<and>
     (groups \<noteq> [] \<longrightarrow> list_all (\<lambda>g. map_of (Groups cfg) g \<noteq> None) (Shards cfg)) \<and>
     (let counts = shard_counts (Shards cfg);
          (mn, mx) = fold (\<lambda>(g, _) (mn, mx).
             (if counts g < mn then counts g else mn, if counts g > mx then counts g else mx))
             (Groups cfg) (257, 0)
      in \<not> mx > mn + 1)"

section \<open>Well-formed configurations\<close>

definition servers_disjoint :: "ShardConfig \<Rightarrow> bool" where
  "servers_disjoint c \<longleftrightarrow> (\<forall>(g, ss) \<in> set (Groups c). \<forall>(h, ts) \<in> set (Groups c).
     g \<noteq> h \<longrightarrow> set ss \<inter> set ts = {})"

definition wf_config :: "ShardConfig \<Rightarrow> bool" where
  "wf_config c \<longleftrightarrow> length (Shards c) = NShards \<and> distinct (map fst (Groups c)) \<and> servers_disjoint c \<and>
     (if Groups c = [] then set (Shards c) \<subseteq> {0} else assigned c \<and> balanced c)"

lemma update_new: "k \<notin> fst ` set al \<Longrightarrow> AList.update k v al = al @ [(k, v)]"
  by (induction al) auto

lemma join_loop_frame:
  "join_loop servers ch c = Some (th, ch', c') \<Longrightarrow> distinct (map fst (Groups c)) \<Longrightarrow> servers_disjoint c \<Longrightarrow>
   Shards c' = Shards c \<and> Num c' = Num c \<and> distinct (map fst (Groups c')) \<and> servers_disjoint c' \<and>
   gids c \<subseteq> gids c' \<and> (ch' \<longleftrightarrow> ch \<or> Groups c' \<noteq> Groups c) \<and>
   (th \<longrightarrow> gids c' = gids c \<union> fst ` set servers)"
proof (induction servers ch c rule: join_loop.induct)
  case (2 gid srvs rest changed c)
  show ?case
  proof (cases "map_of (Groups c) gid")
    case None
    let ?c = "c\<lparr>Groups := AList.update gid srvs (Groups c)\<rparr>"
    have new: "gid \<notin> fst ` set (Groups c)" using None by (simp add: map_of_eq_None_iff)
    have up: "AList.update gid srvs (Groups c) = Groups c @ [(gid, srvs)]"
      by (rule update_new [OF new])
    have free: "\<not> list_ex (\<lambda>(xgid, xsrvs). list_ex (\<lambda>s1. s1 \<in> set srvs) xsrvs) (Groups c)"
      using 2(2) None by (auto split: if_splits)
    then have "servers_disjoint ?c"
      using 2(4) up by (fastforce simp: servers_disjoint_def list_ex_iff)
    moreover have "distinct (map fst (Groups ?c))" using 2(3) new up by auto
    moreover have "join_loop rest True ?c = Some (th, ch', c')" using 2(2) None free by auto
    ultimately have "Shards c' = Shards c \<and> Num c' = Num c \<and> distinct (map fst (Groups c')) \<and>
        servers_disjoint c' \<and> gids ?c \<subseteq> gids c' \<and> ch' \<and> (th \<longrightarrow> gids c' = gids ?c \<union> fst ` set rest)"
      using 2(1) None free by auto
    moreover have "gids ?c = insert gid (gids c)" using up by (auto simp: gids_def)
    ultimately show ?thesis using new by (auto simp: gids_def)
  qed (use 2(2,3,4) in auto)
qed auto

lemma leave_loop_frame:
  "leave_loop gs ch c = (th, ch', c') \<Longrightarrow> distinct (map fst (Groups c)) \<Longrightarrow> servers_disjoint c \<Longrightarrow>
   Shards c' = Shards c \<and> Num c' = Num c \<and> distinct (map fst (Groups c')) \<and> servers_disjoint c' \<and>
   gids c' \<subseteq> gids c \<and> (th \<longrightarrow> gids c' = gids c - set gs)"
proof (induction gs ch c rule: leave_loop.induct)
  case (2 gid rest changed c)
  show ?case
  proof (cases "map_of (Groups c) gid")
    case (Some srvs)
    let ?c = "c\<lparr>Groups := AList.delete gid (Groups c)\<rparr>"
    have "servers_disjoint ?c" using 2(4) by (fastforce simp: servers_disjoint_def AList.delete_eq)
    moreover have "distinct (map fst (Groups ?c))" using 2(3) by (simp add: distinct_delete)
    moreover have "leave_loop rest True ?c = (th, ch', c')" using 2(2) Some by simp
    moreover have "gids ?c = gids c - {gid}" by (auto simp: gids_def AList.delete_eq)
    ultimately show ?thesis using 2(1) Some by auto
  qed (use 2(2,3,4) in auto)
qed auto
lemma check_fold:
  "fold (\<lambda>(g, _) (mn, mx). (if f g < mn then f g else mn, if f g > mx then f g else mx)) gs (a, b) = (mn, mx) \<Longrightarrow>
   b \<le> U \<Longrightarrow> L \<le> a \<Longrightarrow> \<forall>g \<in> fst ` set gs. L \<le> f g \<and> f g \<le> (U :: int) \<Longrightarrow> L \<le> mn \<and> mx \<le> U"
proof (induction gs arbitrary: a b)
  case (Cons x gs)
  obtain g y where x: "x = (g, y)" by (cases x)
  define a' b' where ab: "a' = (if f g < a then f g else a)" "b' = (if f g > b then f g else b)"
  have "fold (\<lambda>(g, _) (mn, mx). (if f g < mn then f g else mn, if f g > mx then f g else mx)) gs (a', b') = (mn, mx)"
    using Cons.prems(1) unfolding ab x fold_simps comp_def prod.case .
  moreover have "b' \<le> U" "L \<le> a'" using Cons.prems(2-4) x ab by simp_all
  moreover have "\<forall>g \<in> fst ` set gs. L \<le> f g \<and> f g \<le> U" using Cons.prems(4) by simp
  ultimately show ?case by (rule Cons.IH)
qed simp

lemma finite_gids [simp]: "finite (gids c)"
  by (simp add: gids_def)

lemma gids_nonempty: "gids c = {} \<longleftrightarrow> Groups c = []"
  by (simp add: gids_def)

lemma balanced_passes:
  assumes "distinct (map fst (Groups c))" "length (Shards c) \<le> 256" "Groups c \<noteq> []" "assigned c" "balanced c"
    and gs: "distinct gs" "set gs = gids c"
  shows "CheckConfig c gs"
proof -
  have len: "length (Groups c) = length gs"
    using assms(1) gs by (metis distinct_card gids_def length_map set_map)
  obtain mn mx where f: "fold (\<lambda>(g, _) (mn, mx). (if shard_counts (Shards c) g < mn then shard_counts (Shards c) g else mn,
      if shard_counts (Shards c) g > mx then shard_counts (Shards c) g else mx)) (Groups c) (257, 0) = (mn, mx)"
    by (rule prod.exhaust)
  obtain g where g: "g \<in> gids c" "\<forall>h \<in> gids c. count_list (Shards c) g \<le> count_list (Shards c) h"
    using ex_is_arg_min_if_finite [OF finite_gids [of c], of "count_list (Shards c)"] assms(3)
    by (auto simp: gids_nonempty is_arg_min_linorder)
  have "int (count_list (Shards c) g) \<le> 257"
    using count_le_length [of "Shards c" g] assms(2) by linarith
  moreover have "count_list (Shards c) h \<le> count_list (Shards c) g + 1" if "h \<in> gids c" for h
    using assms(5) that g(1) by (auto simp: balanced_def)
  ultimately have "int (count_list (Shards c) g) \<le> mn \<and> mx \<le> int (count_list (Shards c) g) + 1"
    using g by (intro check_fold [OF f]) (force simp: shard_counts_eq gids_def)+
  then have "mx \<le> mn + 1" by linarith
  then show ?thesis
    using len f gs assms(4) map_of_gids [of c]
    by (auto simp: CheckConfig_def Let_def list_all_iff assigned_def)
qed

lemma Rebalance_wf:
  assumes "length (Shards c) = NShards" "distinct (map fst (Groups c))" "servers_disjoint c"
  shows "\<exists>c'. Rebalance c = Some c' \<and> wf_config c' \<and> Num c' = Num c \<and> Groups c' = Groups c"
proof (cases "Groups c = []")
  case True
  then show ?thesis using assms by (auto simp: Rebalance_def wf_config_def servers_disjoint_def)
next
  case False
  then obtain ss where "Rebalance c = Some (c\<lparr>Shards := ss\<rparr>)" "length ss = length (Shards c)"
      "assigned (c\<lparr>Shards := ss\<rparr>)" "balanced (c\<lparr>Shards := ss\<rparr>)"
    using Rebalance_works [of c] assms by (auto simp: NShards_def)
  then show ?thesis using assms False by (auto simp: wf_config_def servers_disjoint_def)
qed

lemma wf_check:
  assumes "wf_config c" "gids c \<noteq> {}" shows "CheckConfig c (sorted_list_of_set (gids c))"
  using assms by (intro balanced_passes) (auto simp: wf_config_def NShards_def gids_def split: if_splits)

lemma Rebalance_renumbered:
  assumes "length (Shards d) = NShards" "distinct (map fst (Groups d))" "servers_disjoint d"
  obtains d' where "Rebalance (d\<lparr>Num := k\<rparr>) = Some d'" "wf_config d'" "Num d' = k" "gids d' = gids d"
proof -
  obtain d' where "Rebalance (d\<lparr>Num := k\<rparr>) = Some d'" "wf_config d'" "Num d' = k" "Groups d' = Groups d"
    using Rebalance_wf [of "d\<lparr>Num := k\<rparr>"] assms by (auto simp: servers_disjoint_def)
  then show thesis using that [of d'] by (simp add: gids_def)
qed

lemma JoinBalance_works:
  assumes wf: "wf_config c" and J: "JoinBalance c servers = Some (ok, c1)"
  shows "if ok then wf_config c1 \<and> Num c1 = Num c + 1 \<and> gids c1 = gids c \<union> fst ` set servers \<and> gids c1 \<noteq> {}
     else Shards c1 = Shards c \<and> Num c1 = Num c"
proof -
  obtain th ch c' where l: "join_loop servers False c = Some (th, ch, c')"
    using J by (auto simp: JoinBalance_def JoinGroups_def split: option.splits)
  have f: "Shards c' = Shards c \<and> Num c' = Num c \<and> distinct (map fst (Groups c')) \<and> servers_disjoint c' \<and>
      gids c \<subseteq> gids c' \<and> (ch \<longleftrightarrow> False \<or> Groups c' \<noteq> Groups c) \<and> (th \<longrightarrow> gids c' = gids c \<union> fst ` set servers)"
    by (rule join_loop_frame [OF l]) (use wf in \<open>simp_all add: wf_config_def\<close>)
  show ?thesis
  proof (cases th)
    case True
    have len: "length (Shards c') = NShards" using f wf by (simp add: wf_config_def)
    obtain d where d: "Rebalance (c'\<lparr>Num := Num c' + 1\<rparr>) = Some d" "wf_config d" "Num d = Num c' + 1" "gids d = gids c'"
      by (rule Rebalance_renumbered [of c' "Num c' + 1"]) (use f len in simp_all)
    have ch ok "c1 = d" using J l True d(1) by (auto simp: JoinBalance_def JoinGroups_def split: if_splits)
    moreover have "gids c' \<noteq> {}" using f \<open>ch\<close> gids_nonempty [of c] gids_nonempty [of c'] by auto
    ultimately show ?thesis using f True d by simp
  qed (use J l f in \<open>auto simp: JoinBalance_def JoinGroups_def\<close>)
qed

lemma LeaveBalance_works:
  assumes wf: "wf_config c" and L: "LeaveBalance c gs = Some (ok, c1)"
  shows "if ok then wf_config c1 \<and> Num c1 = Num c + 1 \<and> gids c1 = gids c - set gs
     else Shards c1 = Shards c \<and> Num c1 = Num c"
proof -
  obtain th ch c' where l: "leave_loop gs False c = (th, ch, c')" by (metis prod_cases3)
  have f: "Shards c' = Shards c \<and> Num c' = Num c \<and> distinct (map fst (Groups c')) \<and> servers_disjoint c' \<and>
      gids c' \<subseteq> gids c \<and> (th \<longrightarrow> gids c' = gids c - set gs)"
    by (rule leave_loop_frame [OF l]) (use wf in \<open>simp_all add: wf_config_def\<close>)
  show ?thesis
  proof (cases th)
    case True
    have len: "length (Shards c') = NShards" using f wf by (simp add: wf_config_def)
    obtain d where d: "Rebalance (c'\<lparr>Num := Num c' + 1\<rparr>) = Some d" "wf_config d" "Num d = Num c' + 1" "gids d = gids c'"
      by (rule Rebalance_renumbered [of c' "Num c' + 1"]) (use f len in simp_all)
    have ok "c1 = d" using L l True d(1) by (auto simp: LeaveBalance_def LeaveGroups_def split: if_splits)
    then show ?thesis using f True d by simp
  qed (use L l f in \<open>auto simp: LeaveBalance_def LeaveGroups_def\<close>)
qed

text \<open>The order of the groups does not matter.\<close>

lemma same_keys:
  assumes "mset (Groups d) = mset (Groups c)"
  shows "sort (map fst (Groups d)) = sort (map fst (Groups c))" "gids d = gids c"
proof -
  have "mset (map fst (Groups d)) = mset (map fst (Groups c))" using assms by simp
  then show "sort (map fst (Groups d)) = sort (map fst (Groups c))" by (intro properties_for_sort) simp_all
  show "gids d = gids c" using assms by (metis gids_def set_mset_mset)
qed

lemma assign_fold_same:
  "Shards d = Shards c \<Longrightarrow> sort (map fst (Groups d)) = sort (map fst (Groups c)) \<Longrightarrow> gids d = gids c \<Longrightarrow>
   fold assign_shard idx d = d\<lparr>Shards := Shards (fold assign_shard idx c)\<rparr>"
proof (induction idx arbitrary: c d)
  case (Cons i idx)
  have "analyze d = analyze c" using Cons.prems by (simp add: analyze_def)
  then have s: "assign_shard i d = d\<lparr>Shards := Shards (assign_shard i c)\<rparr>"
    using Cons.prems(1,3) map_of_gids [of c] map_of_gids [of d] by (simp add: assign_shard_def least_def)
  have c: "Groups (assign_shard i c) = Groups c" by (simp add: assign_shard_def)
  then show ?case using Cons.IH [of "assign_shard i d" "assign_shard i c"] Cons.prems s by (simp add: gids_def)
qed simp

lemma assign_all_same:
  assumes "Shards d = Shards c" "sort (map fst (Groups d)) = sort (map fst (Groups c))" "gids d = gids c"
  shows "assign_all d = d\<lparr>Shards := Shards (assign_all c)\<rparr>"
  unfolding assign_all_def assms(1) by (rule assign_fold_same [OF assms])

lemma balanced_stops:
  assumes "Groups c \<noteq> []" "length (Shards c) \<le> 256" "balanced c" shows "balance c = Some c"
  by (rule balance_turn [OF assms(1,2)]) (use assms(3) in simp_all)

section \<open>Properties\<close>

text \<open>
  C21. Every change of the groups that goes through leaves a well-formed configuration that passes
  the checker: the number is one higher, the groups are the old ones and the joined ones (without
  the left ones), every shard belongs to a group, and no group has two shards more than another.
  A refused change leaves the number and the shards alone.
\<close>

theorem config_changes_check:
  assumes "wf_config c"
    and "JoinBalance c servers = Some (ok, c') \<and> new = gids c \<union> fst ` set servers \<or>
         LeaveBalance c gs = Some (ok, c') \<and> new = gids c - set gs"
  shows "if ok then wf_config c' \<and> Num c' = Num c + 1 \<and> gids c' = new \<and>
           (new \<noteq> {} \<longrightarrow> CheckConfig c' (sorted_list_of_set new))
         else Shards c' = Shards c \<and> Num c' = Num c"
  using assms(2)
proof
  assume "JoinBalance c servers = Some (ok, c') \<and> new = gids c \<union> fst ` set servers"
  then show ?thesis using JoinBalance_works [OF assms(1), of servers ok c'] wf_check [of c'] by (auto split: if_splits)
next
  assume "LeaveBalance c gs = Some (ok, c') \<and> new = gids c - set gs"
  then show ?thesis using LeaveBalance_works [OF assms(1), of gs ok c'] wf_check [of c'] by (auto split: if_splits)
qed
definition demo_config :: ShardConfig where
  "demo_config = \<lparr>Num = 1, Shards = replicate NShards Gid1, Groups = [(Gid1, [''s''])]\<rparr>"

lemma demo_config_wf: "wf_config demo_config"
  by (simp add: wf_config_def demo_config_def servers_disjoint_def assigned_def balanced_def gids_def NShards_def)

lemma config_changes_check_witness:
  "\<exists>c'. JoinBalance demo_config [(2, [''t''])] = Some (True, c') \<and> CheckConfig c' [1, 2]"
proof -
  have j: "JoinGroups demo_config [(2, [''t''])] = Some (True,
      demo_config\<lparr>Groups := [(Gid1, [''s'']), (2, [''t''])], Num := 2\<rparr>)" (is "_ = Some (True, ?c)")
    by (simp add: JoinGroups_def demo_config_def Gid1_def)
  have "\<exists>c'. Rebalance ?c = Some c'"
    using Rebalance_wf [of ?c] by (simp add: demo_config_def servers_disjoint_def NShards_def Gid1_def) blast
  then obtain c' where c': "JoinBalance demo_config [(2, [''t''])] = Some (True, c')"
    using j by (auto simp: JoinBalance_def)
  have "if True then wf_config c' \<and> Num c' = Num demo_config + 1 \<and> gids c' = {1, 2} \<and>
           ({1, 2 :: Tgid} \<noteq> {} \<longrightarrow> CheckConfig c' (sorted_list_of_set {1, 2}))
         else Shards c' = Shards demo_config \<and> Num c' = Num demo_config"
    by (rule config_changes_check [OF demo_config_wf, of "[(2, [''t''])]" True c' "{1, 2}" "[]"])
      (use c' in \<open>auto simp: gids_def demo_config_def Gid1_def\<close>)
  then show ?thesis using c' by simp
qed

text \<open>
  C22. Rebalance always returns on the twelve shards, and its result does not depend on the order
  in which Go's maps are visited, so every process that computes it gets the same configuration;
  a configuration that is already well formed is not changed at all.
\<close>

theorem rebalance_deterministic:
  assumes "length (Shards c) = NShards" "Shards d = Shards c" "mset (Groups d) = mset (Groups c)"
  shows "\<exists>ss. Rebalance c = Some (c\<lparr>Shards := ss\<rparr>) \<and> Rebalance d = Some (d\<lparr>Shards := ss\<rparr>) \<and>
    (wf_config c \<longrightarrow> ss = Shards c)"
proof (cases "Groups c = []")
  case True
  then show ?thesis using assms
    by (auto simp: Rebalance_def wf_config_def intro!: exI [of _ "map (\<lambda>_. 0) (Shards c)"] map_idI)
next
  case False
  note same = same_keys [OF assms(3)]
  have d: "Groups d \<noteq> []" using False assms(3) by auto
  have r: "Rebalance c = balance (assign_all c)" "Rebalance d = balance (assign_all d)"
    using False d by (simp_all add: Rebalance_def Suc_le_eq)
  obtain ss where c1: "assign_all c = c\<lparr>Shards := ss\<rparr>" "length ss = NShards"
      "\<forall>i < length ss. Shards c ! i \<in> gids c \<longrightarrow> ss ! i = Shards c ! i"
    using assign_all_works [OF False] assms(1) by (auto simp: NShards_def)
  have d1: "assign_all d = d\<lparr>Shards := ss\<rparr>"
    using assign_all_same [OF assms(2) same] c1(1) by simp
  obtain ss' where c2: "Rebalance c = Some (c\<lparr>Shards := ss'\<rparr>)"
    using Rebalance_works [OF False] assms(1) by (auto simp: NShards_def)
  obtain ss'' where d2: "Rebalance d = Some (d\<lparr>Shards := ss''\<rparr>)"
    using Rebalance_works [OF d] assms(1,2) by (auto simp: NShards_def)
  have "map_option Shards (Rebalance d) = map_option Shards (Rebalance c)"
    unfolding r c1(1) d1 by (rule balance_order) (use False c1(2) same in \<open>simp_all add: NShards_def\<close>)
  then have "ss'' = ss'" using c2 d2 by simp
  moreover have "ss' = Shards c" if "wf_config c"
  proof -
    have "ss = Shards c" using that c1 False assms(1)
      by (intro nth_equalityI) (auto simp: wf_config_def assigned_def subset_iff)
    then have "balance (assign_all c) = Some c"
      using c1(1) that False assms(1) balanced_stops [of c] by (simp add: wf_config_def NShards_def)
    then show ?thesis using r c2 by (metis ShardConfig.select_convs(2) ShardConfig.surjective
        ShardConfig.update_convs(2) option.inject)
  qed
  ultimately show ?thesis using c2 d2 by auto
qed

lemma rebalance_deterministic_witness:
  "\<exists>ss. Rebalance (demo_config\<lparr>Groups := [(1, []), (2, [])]\<rparr>) = Some (demo_config\<lparr>Groups := [(1, []), (2, [])], Shards := ss\<rparr>) \<and>
     Rebalance (demo_config\<lparr>Groups := [(2, []), (1, [])]\<rparr>) = Some (demo_config\<lparr>Groups := [(2, []), (1, [])], Shards := ss\<rparr>)"
  using rebalance_deterministic [of "demo_config\<lparr>Groups := [(1, []), (2, [])]\<rparr>" "demo_config\<lparr>Groups := [(2, []), (1, [])]\<rparr>"]
  by (auto simp: demo_config_def)

text \<open>
  Every key has a shard inside the array, whatever the 32-bit hash wraps to, and in a
  well-formed configuration with a group that shard has a group with its servers, so a client
  that looks up a key never panics and finds somebody to ask.
\<close>

theorem key_has_group:
  "Key2Shard key < NShards \<and>
   (wf_config c \<and> Groups c \<noteq> [] \<longrightarrow>
      (\<exists>gid srvs. GidServers c (Key2Shard key) = Some (gid, srvs, True) \<and>
         map_of (Groups c) gid = Some srvs \<and> IsMember c gid))"
proof -
  have k: "Key2Shard key < NShards" by (simp add: Key2Shard_def NShards_def)
  have "\<exists>gid srvs. GidServers c (Key2Shard key) = Some (gid, srvs, True) \<and>
         map_of (Groups c) gid = Some srvs \<and> IsMember c gid" if "wf_config c" "Groups c \<noteq> []"
  proof -
    let ?g = "Shards c ! Key2Shard key"
    have len: "length (Shards c) = NShards" and a: "assigned c" using that by (auto simp: wf_config_def)
    have mem: "?g \<in> set (Shards c)" using k len by simp
    then obtain srvs where "map_of (Groups c) ?g = Some srvs"
      using a map_of_gids [of c ?g] by (auto simp: assigned_def)
    then show ?thesis using k len mem
      by (auto simp: GidServers_def slice_get_in IsMember_def list_ex_iff)
  qed
  then show ?thesis using k by blast
qed

lemma key_has_group_witness: "Key2Shard ''a'' = 4 \<and> GidServers demo_config (Key2Shard ''a'') = Some (1, [''s''], True)"
proof -
  obtain gid srvs where "GidServers demo_config (Key2Shard ''a'') = Some (gid, srvs, True)"
      "map_of (Groups demo_config) gid = Some srvs"
    using key_has_group [of "''a''" demo_config] demo_config_wf by (auto simp: demo_config_def)
  moreover have "Key2Shard ''a'' = 4" by (simp add: Key2Shard_def fnv32a_def NShards_def)
  ultimately show ?thesis by (auto simp: demo_config_def Gid1_def split: if_splits)
qed

end
