(* ===== verification/Shard_Group.thy ===== *)
theory Shard_Group
  imports KV_Raft Shard_Config
begin

text \<open>
  One group of the sharded service: the state machine its replicas run, the commands of clients
  and of the controller, and the RPC handlers (src/src/shardkv1/shardgrp/server.go with the types
  of src/src/shardkv1/shardgrp/shardrpc/shardrpc.go). The replicas are the replicated state machine
  of \<open>RSM\<close>, so a group is one state machine to everybody outside it. The bytes of a frozen shard
  are the table they encode, \<open>None\<close> for no bytes at all; decoding gives back what was encoded, in
  the standard library's gob.
\<close>

section \<open>Commands and replies\<close>

text \<open>The two errors that sharding adds to those of the key/value server.\<close>

datatype shErr = Rpc Err | ErrStale | ErrUnreachable

type_synonym table = "string \<rightharpoonup> kvnode"
type_synonym shardBytes = "table option"

record FreezeShardArgs =
  fzShard :: Tshid
  fzNum :: Tnum

record FreezeShardReply =
  frState :: shardBytes
  frNum :: Tnum
  frErr :: shErr

record InstallShardArgs =
  inShard :: Tshid
  inState :: shardBytes
  inNum :: Tnum

record DeleteShardArgs =
  dlShard :: Tshid
  dlNum :: Tnum

datatype shReq = ShGet GetArgs | ShPut PutArgs | ShFreeze FreezeShardArgs
  | ShInstall InstallShardArgs | ShDelete DeleteShardArgs | ShOther

datatype shRep = SrGet GetReply | SrPut Err | SrFreeze FreezeShardReply
  | SrInstall shErr | SrDelete shErr | SrNil

section \<open>The state machine\<close>

record shardState =
  shShards :: "table list"
  shServed :: "bool list"
  shNum :: "Tnum list"

definition sg_init :: "Tgid \<Rightarrow> shardState" where
  "sg_init gid =
     \<lparr>shShards = replicate NShards Map.empty,
      shServed = replicate NShards (gid = Gid1),
      shNum = replicate NShards 0\<rparr>"

definition encodeShard :: "shardState \<Rightarrow> Tshid \<Rightarrow> shardBytes" where
  "encodeShard st s = Some (shShards st ! s)"

definition sg_get :: "shardState \<Rightarrow> GetArgs \<Rightarrow> GetReply" where
  "sg_get st op =
     (let s = Key2Shard (getKey op) in
      if \<not> shServed st ! s then \<lparr>grValue = [], grVersion = 0, grErr = ErrWrongGroup\<rparr>
      else case (shShards st ! s) (getKey op) of
             None \<Rightarrow> \<lparr>grValue = [], grVersion = 0, grErr = ErrNoKey\<rparr>
           | Some n \<Rightarrow> \<lparr>grValue = nodeValue n, grVersion = nodeVersion n, grErr = OK\<rparr>)"

definition sg_put :: "shardState \<Rightarrow> PutArgs \<Rightarrow> shardState \<times> Err" where
  "sg_put st op =
     (let s = Key2Shard (putKey op) in
      if \<not> shServed st ! s then (st, ErrWrongGroup)
      else
        let m = shShards st ! s in
        case m (putKey op) of
          None \<Rightarrow>
            if putVersion op \<noteq> 0 then (st, ErrNoKey)
            else (st\<lparr>shShards := (shShards st)[s := m(putKey op \<mapsto>
                    \<lparr>nodeValue = putValue op, nodeVersion = 1\<rparr>)]\<rparr>, OK)
        | Some n \<Rightarrow>
            if putVersion op \<noteq> nodeVersion n then (st, ErrVersion)
            else (st\<lparr>shShards := (shShards st)[s := m(putKey op \<mapsto>
                    \<lparr>nodeValue = putValue op, nodeVersion = nodeVersion n + 1\<rparr>)]\<rparr>, OK))"

definition sg_freeze :: "shardState \<Rightarrow> FreezeShardArgs \<Rightarrow> shardState \<times> FreezeShardReply" where
  "sg_freeze st op =
     (let s = fzShard op in
      if fzNum op < shNum st ! s then
        (st, \<lparr>frState = None, frNum = shNum st ! s, frErr = ErrStale\<rparr>)
      else
        let st' = st\<lparr>shNum := (shNum st)[s := fzNum op], shServed := (shServed st)[s := False]\<rparr>
        in (st', \<lparr>frState = encodeShard st' s, frNum = fzNum op, frErr = Rpc OK\<rparr>))"

definition sg_install :: "shardState \<Rightarrow> InstallShardArgs \<Rightarrow> shardState \<times> shErr" where
  "sg_install st op =
     (let s = inShard op in
      if inNum op < shNum st ! s then (st, ErrStale)
      else if inNum op = shNum st ! s \<and> shServed st ! s then (st, Rpc OK)
      else
        let m = (case inState op of None \<Rightarrow> Map.empty | Some m \<Rightarrow> m)
        in (st\<lparr>shShards := (shShards st)[s := m], shServed := (shServed st)[s := True],
               shNum := (shNum st)[s := inNum op]\<rparr>, Rpc OK))"

definition sg_delete :: "shardState \<Rightarrow> DeleteShardArgs \<Rightarrow> shardState \<times> shErr" where
  "sg_delete st op =
     (let s = dlShard op in
      if dlNum op < shNum st ! s then (st, ErrStale)
      else (st\<lparr>shNum := (shNum st)[s := dlNum op], shServed := (shServed st)[s := False],
               shShards := (shShards st)[s := Map.empty]\<rparr>, Rpc OK))"

text \<open>DoOp; no reply is the panic of an index outside the arrays.\<close>

fun sg_DoOp :: "shardState \<Rightarrow> shReq \<Rightarrow> shardState \<times> shRep option" where
  "sg_DoOp st (ShGet op) = (st, Some (SrGet (sg_get st op)))"
| "sg_DoOp st (ShPut op) = (let (st', e) = sg_put st op in (st', Some (SrPut e)))"
| "sg_DoOp st (ShFreeze op) =
     (if fzShard op \<ge> NShards then (st, None)
      else let (st', r) = sg_freeze st op in (st', Some (SrFreeze r)))"
| "sg_DoOp st (ShInstall op) =
     (if inShard op \<ge> NShards then (st, None)
      else let (st', e) = sg_install st op in (st', Some (SrInstall e)))"
| "sg_DoOp st (ShDelete op) =
     (if dlShard op \<ge> NShards then (st, None)
      else let (st', e) = sg_delete st op in (st', Some (SrDelete e)))"
| "sg_DoOp st ShOther = (st, Some SrNil)"

definition sg_Snapshot :: "shardState \<Rightarrow> shardState" where
  "sg_Snapshot st = st"

definition sg_Restore :: "shardState \<Rightarrow> shardState" where
  "sg_Restore d = d"

interpretation sgsm: state_machine sg_DoOp sg_Snapshot sg_Restore
  by unfold_locales (simp add: sg_Snapshot_def sg_Restore_def)

definition sgService :: "Tgid \<Rightarrow> (shardState, shReq, shRep option, shardState) service" where
  "sgService gid =
     \<lparr>svInit = sg_init gid, svDo = sg_DoOp, svSnap = sg_Snapshot, svRestore = sg_Restore\<rparr>"

section \<open>The RPC handlers, after Submit has returned\<close>

text \<open>\<open>None\<close> is a failed type assertion.\<close>

definition sg_Get :: "shRep option opResult \<Rightarrow> GetReply option" where
  "sg_Get r =
     (if resErr r \<noteq> OK then Some \<lparr>grValue = [], grVersion = 0, grErr = resErr r\<rparr>
      else case resRep r of Some (Some (SrGet rep)) \<Rightarrow> Some rep | _ \<Rightarrow> None)"

definition sg_Put :: "shRep option opResult \<Rightarrow> Err option" where
  "sg_Put r =
     (if resErr r \<noteq> OK then Some (resErr r)
      else case resRep r of Some (Some (SrPut e)) \<Rightarrow> Some e | _ \<Rightarrow> None)"

definition sg_FreezeShard :: "shRep option opResult \<Rightarrow> FreezeShardReply option" where
  "sg_FreezeShard r =
     (if resErr r \<noteq> OK then Some \<lparr>frState = None, frNum = 0, frErr = Rpc (resErr r)\<rparr>
      else case resRep r of Some (Some (SrFreeze rep)) \<Rightarrow> Some rep | _ \<Rightarrow> None)"

definition sg_InstallShard :: "shRep option opResult \<Rightarrow> shErr option" where
  "sg_InstallShard r =
     (if resErr r \<noteq> OK then Some (Rpc (resErr r))
      else case resRep r of Some (Some (SrInstall e)) \<Rightarrow> Some e | _ \<Rightarrow> None)"

definition sg_DeleteShard :: "shRep option opResult \<Rightarrow> shErr option" where
  "sg_DeleteShard r =
     (if resErr r \<noteq> OK then Some (Rpc (resErr r))
      else case resRep r of Some (Some (SrDelete e)) \<Rightarrow> Some e | _ \<Rightarrow> None)"

section \<open>Well-formed groups\<close>

definition group_wf :: "shardState \<Rightarrow> bool" where
  "group_wf st \<longleftrightarrow> length (shShards st) = NShards \<and> length (shServed st) = NShards \<and>
     length (shNum st) = NShards \<and> (\<forall>s < NShards. \<forall>k \<in> dom (shShards st ! s). Key2Shard k = s)"

text \<open>The commands a controller and clients send: in range, and a shard carries its own keys.\<close>

fun req_wf :: "shReq \<Rightarrow> bool" where
  "req_wf (ShGet op) = True"
| "req_wf (ShPut op) = True"
| "req_wf (ShFreeze op) = (fzShard op < NShards)"
| "req_wf (ShInstall op) = (inShard op < NShards \<and>
     (case inState op of None \<Rightarrow> True | Some m \<Rightarrow> \<forall>k \<in> dom m. Key2Shard k = inShard op))"
| "req_wf (ShDelete op) = (dlShard op < NShards)"
| "req_wf ShOther = False"

lemma Key2Shard_less [simp]: "Key2Shard k < NShards"
  by (simp add: Key2Shard_def NShards_def)

lemmas sg_ops = sg_get_def sg_put_def sg_freeze_def sg_install_def sg_delete_def encodeShard_def Let_def

lemma sg_init_wf: "group_wf (sg_init gid)"
  by (simp add: group_wf_def sg_init_def)

definition tables_ok :: "table list \<Rightarrow> bool" where
  "tables_ok ms \<longleftrightarrow> (\<forall>s < length ms. \<forall>k \<in> dom (ms ! s). Key2Shard k = s)"

lemma group_wf_tables:
  "group_wf st \<longleftrightarrow> length (shShards st) = NShards \<and> length (shServed st) = NShards \<and>
     length (shNum st) = NShards \<and> tables_ok (shShards st)"
  by (simp add: group_wf_def tables_ok_def cong: conj_cong)

lemma tables_ok_update:
  "tables_ok ms \<Longrightarrow> \<forall>k \<in> dom m. Key2Shard k = i \<Longrightarrow> tables_ok (ms[i := m])"
  by (cases "i < length ms") (simp_all add: tables_ok_def nth_list_update)

lemma tables_ok_put:
  assumes "tables_ok ms" "length ms = NShards"
  shows "tables_ok (ms[Key2Shard k := (ms ! Key2Shard k)(k \<mapsto> n)])"
  using assms by (intro tables_ok_update) (auto simp: tables_ok_def)

lemma put_wf: "group_wf st \<Longrightarrow> group_wf (fst (sg_put st op))"
  by (simp add: group_wf_tables sg_ops tables_ok_put split: option.split)

lemma freeze_wf: "group_wf st \<Longrightarrow> group_wf (fst (sg_freeze st op))"
  by (simp add: group_wf_tables sg_ops)

lemma install_wf:
  "group_wf st \<Longrightarrow> (case inState op of None \<Rightarrow> True | Some m \<Rightarrow> \<forall>k \<in> dom m. Key2Shard k = inShard op) \<Longrightarrow>
   group_wf (fst (sg_install st op))"
  by (cases "inState op") (simp_all add: group_wf_tables sg_ops tables_ok_update)

lemma delete_wf: "group_wf st \<Longrightarrow> group_wf (fst (sg_delete st op))"
  by (simp add: group_wf_tables sg_ops tables_ok_update)

lemma DoOp_wf: "group_wf st \<Longrightarrow> req_wf q \<Longrightarrow> group_wf (fst (sg_DoOp st q)) \<and> snd (sg_DoOp st q) \<noteq> None"
  by (cases q) (simp_all add: put_wf freeze_wf install_wf delete_wf case_prod_beta Let_def)
section \<open>Sequences of commands\<close>

fun sg_exec :: "shardState \<Rightarrow> shReq list \<Rightarrow> shardState" where
  "sg_exec st [] = st"
| "sg_exec st (q # qs) = sg_exec (fst (sg_DoOp st q)) qs"

fun is_client :: "shReq \<Rightarrow> bool" where
  "is_client (ShGet op) = True"
| "is_client (ShPut op) = True"
| "is_client _ = False"

text \<open>The shard and the number of a controller's command.\<close>

fun cmdShard :: "shReq \<Rightarrow> Tshid" where
  "cmdShard (ShFreeze op) = fzShard op"
| "cmdShard (ShInstall op) = inShard op"
| "cmdShard (ShDelete op) = dlShard op"
| "cmdShard _ = 0"

fun cmdNum :: "shReq \<Rightarrow> Tnum" where
  "cmdNum (ShFreeze op) = fzNum op"
| "cmdNum (ShInstall op) = inNum op"
| "cmdNum (ShDelete op) = dlNum op"
| "cmdNum _ = 0"

fun repErr :: "shRep \<Rightarrow> shErr" where
  "repErr (SrGet r) = Rpc (grErr r)"
| "repErr (SrPut e) = Rpc e"
| "repErr (SrFreeze r) = frErr r"
| "repErr (SrInstall e) = e"
| "repErr (SrDelete e) = e"
| "repErr SrNil = Rpc OK"

lemma put_frame:
  "shNum (fst (sg_put st op)) = shNum st" "shServed (fst (sg_put st op)) = shServed st"
  by (simp_all add: sg_ops split: option.split)

lemma put_unserved:
  assumes "\<not> shServed st ! s" shows "shShards (fst (sg_put st op)) ! s = shShards st ! s"
proof (cases "Key2Shard (putKey op) = s")
  case True
  then show ?thesis using assms by (simp add: sg_put_def Let_def)
next
  case False
  then show ?thesis by (simp add: sg_put_def Let_def split: option.split)
qed

lemma client_frame:
  assumes "is_client q"
  shows "shNum (fst (sg_DoOp st q)) = shNum st" "shServed (fst (sg_DoOp st q)) = shServed st"
    "\<not> shServed st ! s \<Longrightarrow> shShards (fst (sg_DoOp st q)) ! s = shShards st ! s"
  using assms by (cases q; simp add: put_frame put_unserved case_prod_beta)+

lemma clients_frame:
  assumes "list_all is_client qs"
  shows "shNum (sg_exec st qs) = shNum st \<and> shServed (sg_exec st qs) = shServed st \<and>
    (\<not> shServed st ! s \<longrightarrow> shShards (sg_exec st qs) ! s = shShards st ! s)"
  using assms by (induction qs arbitrary: st) (simp_all add: client_frame)

lemma some_update:
  "xs ! i \<le> n \<Longrightarrow> \<exists>i' n'. xs[i := n] = xs[i' := n'] \<and> xs ! i' \<le> (n' :: int)"
  by blast

lemma DoOp_Num:
  "shNum (fst (sg_DoOp st q)) = shNum st \<or>
   (\<exists>i n. shNum (fst (sg_DoOp st q)) = (shNum st)[i := n] \<and> shNum st ! i \<le> n)"
proof (cases q)
  case (ShGet op) then show ?thesis by simp
next
  case (ShPut op) then show ?thesis using client_frame(1) [of q] by simp
next
  case (ShFreeze op) then show ?thesis using some_update by (simp add: sg_ops case_prod_beta not_less)
next
  case (ShInstall op) then show ?thesis using some_update by (simp add: sg_ops case_prod_beta not_less)
next
  case (ShDelete op) then show ?thesis using some_update by (simp add: sg_ops case_prod_beta not_less)
qed simp

lemma Num_monotone: "shNum st ! s \<le> shNum (fst (sg_DoOp st q)) ! s"
proof -
  have "shNum st ! i \<le> n \<Longrightarrow> shNum st ! s \<le> (shNum st)[i := n] ! s" for i n
    by (cases "i < length (shNum st)"; cases "i = s") (simp_all add: list_update_beyond)
  then show ?thesis using DoOp_Num [of st q] by auto
qed

lemma exec_wf:
  "group_wf st \<Longrightarrow> list_all req_wf qs \<Longrightarrow>
   group_wf (sg_exec st qs) \<and> (\<forall>s < NShards. shNum st ! s \<le> shNum (sg_exec st qs) ! s)"
proof (induction qs arbitrary: st)
  case (Cons q qs)
  have "group_wf (fst (sg_DoOp st q))" using DoOp_wf Cons.prems by simp
  then show ?case using Cons.IH [of "fst (sg_DoOp st q)"] Cons.prems Num_monotone [of st _ q]
    by (force intro: order_trans)
qed simp

lemma exec_append: "sg_exec st (qs @ qs') = sg_exec (sg_exec st qs) qs'"
  by (induction qs arbitrary: st) simp_all

lemma same_update: "xs ! i = x \<Longrightarrow> xs[i := x] = xs"
  by (metis list_update_id)

section \<open>Properties\<close>

text \<open>
  C23. Whatever well-formed commands a group executes after its creation, its three arrays keep
  their twelve entries, every key is stored under its own shard, no command panics, and the
  configuration number a shard has seen never goes back.
\<close>

theorem shard_group_type:
  assumes "list_all req_wf qs" "list_all req_wf qs'"
  shows "group_wf (sg_exec (sg_init gid) qs) \<and>
    (\<forall>q. req_wf q \<longrightarrow> snd (sg_DoOp (sg_exec (sg_init gid) qs) q) \<noteq> None) \<and>
    (\<forall>s < NShards. shNum (sg_exec (sg_init gid) qs) ! s \<le> shNum (sg_exec (sg_init gid) (qs @ qs')) ! s)"
  using exec_wf [OF sg_init_wf assms(1), of gid] exec_wf [OF _ assms(2), of "sg_exec (sg_init gid) qs"] DoOp_wf
  by (simp add: exec_append)

definition demo_freeze :: shReq where
  "demo_freeze = ShFreeze \<lparr>fzShard = 4, fzNum = 2\<rparr>"

lemma shard_group_type_witness:
  "group_wf (sg_exec (sg_init 1) [demo_freeze]) \<and> snd (sg_DoOp (sg_exec (sg_init 1) [demo_freeze]) demo_freeze) \<noteq> None"
proof -
  have "req_wf demo_freeze" by (simp add: demo_freeze_def NShards_def)
  then show ?thesis using shard_group_type [of "[demo_freeze]" "[]" 1] by (simp del: sg_exec.simps)
qed

text \<open>
  C24. The controller's commands may be repeated: once a Freeze, Install or Delete was executed,
  a second copy, even after any client traffic, changes nothing and gets the same reply. A
  command is refused with ErrStale exactly when its number is lower than one the shard has seen,
  and then changes nothing.
\<close>

theorem shard_commands_replay:
  assumes wf: "group_wf st" and q: "\<not> is_client q" "req_wf q" and x: "sg_DoOp st q = (st', Some r)"
    and cs: "list_all is_client cs"
  shows "sg_DoOp (sg_exec st' cs) q = (sg_exec st' cs, Some r) \<and>
    (repErr r = ErrStale \<longleftrightarrow> cmdNum q < shNum st ! cmdShard q) \<and>
    (repErr r = ErrStale \<longrightarrow> st' = st)"
proof -
  let ?s = "cmdShard q"
  have f: "shNum (sg_exec st' cs) = shNum st'" "shServed (sg_exec st' cs) = shServed st'"
    "\<not> shServed st' ! ?s \<Longrightarrow> shShards (sg_exec st' cs) ! ?s = shShards st' ! ?s"
    using clients_frame [OF cs] by blast+
  have len: "length (shNum st) = NShards" "length (shServed st) = NShards" "length (shShards st) = NShards"
    using wf by (auto simp: group_wf_def)
  show ?thesis
  proof (cases q)
    case (ShFreeze op)
    then show ?thesis using x f len q
      by (auto simp: sg_ops same_update split: if_splits prod.splits)
  next
    case (ShInstall op)
    then show ?thesis using x f len q
      by (auto simp: sg_ops same_update split: if_splits prod.splits)
  next
    case (ShDelete op)
    then show ?thesis using x f len q
      by (auto simp: sg_ops same_update split: if_splits prod.splits)
  qed (use q in auto)
qed

lemma shard_commands_replay_witness:
  "sg_DoOp (sg_exec (fst (sg_DoOp (sg_init 1) demo_freeze)) [ShPut demo_put]) demo_freeze =
     (sg_exec (fst (sg_DoOp (sg_init 1) demo_freeze)) [ShPut demo_put],
      Some (SrFreeze \<lparr>frState = Some Map.empty, frNum = 2, frErr = Rpc OK\<rparr>))"
proof -
  have "sg_DoOp (sg_init 1) demo_freeze = (fst (sg_DoOp (sg_init 1) demo_freeze),
      Some (SrFreeze \<lparr>frState = Some Map.empty, frNum = 2, frErr = Rpc OK\<rparr>))"
    by (simp add: demo_freeze_def sg_init_def sg_ops NShards_def)
  from shard_commands_replay [OF sg_init_wf _ _ this, of "[ShPut demo_put]"]
  show ?thesis by (simp add: demo_freeze_def NShards_def)
qed

text \<open>
  C25. Moving a shard keeps its data: after the source has frozen it and the destination has
  installed what it got, the destination answers every Get of the shard as the source did before,
  value and version, while the source refuses, and the other shards of both groups are untouched.
\<close>

theorem shard_transfer:
  assumes src: "group_wf src" "shServed src ! s" "shNum src ! s \<le> n" and s: "s < NShards"
    and dst: "group_wf dst" "shNum dst ! s < n"
    and fz: "sg_freeze src \<lparr>fzShard = s, fzNum = n\<rparr> = (src', r)"
    and ins: "sg_install dst \<lparr>inShard = s, inState = frState r, inNum = n\<rparr> = (dst', e)"
  shows "frErr r = Rpc OK \<and> e = Rpc OK \<and>
    (\<forall>k. Key2Shard k = s \<longrightarrow> sg_get dst' \<lparr>getKey = k\<rparr> = sg_get src \<lparr>getKey = k\<rparr> \<and>
       grErr (sg_get src' \<lparr>getKey = k\<rparr>) = ErrWrongGroup) \<and>
    (\<forall>k. Key2Shard k \<noteq> s \<longrightarrow> sg_get dst' \<lparr>getKey = k\<rparr> = sg_get dst \<lparr>getKey = k\<rparr> \<and>
       sg_get src' \<lparr>getKey = k\<rparr> = sg_get src \<lparr>getKey = k\<rparr>)"
proof -
  have len: "length (shNum src) = NShards" "length (shServed src) = NShards" "length (shShards src) = NShards"
    "length (shNum dst) = NShards" "length (shServed dst) = NShards" "length (shShards dst) = NShards"
    using src(1) dst(1) by (auto simp: group_wf_def)
  have r: "r = \<lparr>frState = Some (shShards src ! s), frNum = n, frErr = Rpc OK\<rparr>"
      "src' = src\<lparr>shNum := (shNum src)[s := n], shServed := (shServed src)[s := False]\<rparr>"
    using fz src(3) by (auto simp: sg_ops split: if_splits)
  have d: "e = Rpc OK" "dst' = dst\<lparr>shShards := (shShards dst)[s := shShards src ! s],
      shServed := (shServed dst)[s := True], shNum := (shNum dst)[s := n]\<rparr>"
    using ins dst(2) r(1) by (auto simp: sg_ops split: if_splits)
  show ?thesis using r d len s src(2)
    by (auto simp: sg_get_def Let_def)
qed

lemma shard_transfer_witness:
  "\<exists>src' r dst'. sg_freeze (sg_init 1) \<lparr>fzShard = 4, fzNum = 2\<rparr> = (src', r) \<and>
     sg_install (sg_init 2) \<lparr>inShard = 4, inState = frState r, inNum = 2\<rparr> = (dst', Rpc OK) \<and>
     grErr (sg_get src' \<lparr>getKey = ''a''\<rparr>) = ErrWrongGroup"
proof -
  obtain src' r where f: "sg_freeze (sg_init 1) \<lparr>fzShard = 4, fzNum = 2\<rparr> = (src', r)" by (rule prod.exhaust)
  obtain dst' e where i: "sg_install (sg_init 2) \<lparr>inShard = 4, inState = frState r, inNum = 2\<rparr> = (dst', e)"
    by (rule prod.exhaust)
  have "Key2Shard ''a'' = 4" by (simp add: Key2Shard_def fnv32a_def NShards_def)
  moreover note shard_transfer [OF sg_init_wf _ _ _ sg_init_wf _ f i]
  ultimately show ?thesis using f i by (simp add: sg_init_def Gid1_def NShards_def)
qed

end
