(* ===== verification/Shard_Ctrler.thy ===== *)
theory Shard_Ctrler
  imports Shard_Group
begin

text \<open>
  The controller of the sharded service (src/src/shardkv1/shardctrler/shardctrler.go) as programs:
  a program is the tree of its calls, to the groups (Freeze, Install, Delete through the group's
  clerk) and to the key/value server that holds the configurations. What a call does and answers
  is left to \<open>Shard_System\<close>. A loop has fuel for the number of its turns, and \<open>Halt\<close> is a
  controller that is still running when it is over; a controller may be killed anywhere, so
  nothing is lost by that.

  JSON is the standard library's: \<open>json\<close> is an encoding and a decoding function, and the only
  thing the code relies on is that decoding an encoded configuration gives it back. A group is
  addressed by its gid; its servers never change.
\<close>

section \<open>JSON\<close>

record json =
  marshal :: "ShardConfig \<Rightarrow> string"
  unmarshal :: "string \<Rightarrow> ShardConfig"

definition json_ok :: "json \<Rightarrow> bool" where
  "json_ok J \<longleftrightarrow> (\<forall>c. unmarshal J (marshal J c) = c)"

definition cfgString :: "json \<Rightarrow> ShardConfig \<Rightarrow> string" where
  "cfgString J cfg = marshal J cfg"

definition FromString :: "json \<Rightarrow> string \<Rightarrow> ShardConfig" where
  "FromString J s = unmarshal J s"

section \<open>Programs\<close>

datatype 'a prog =
    Ret 'a
  | Halt
  | AskFreeze Tgid FreezeShardArgs "shardBytes \<times> shErr \<Rightarrow> 'a prog"
  | AskInstall Tgid InstallShardArgs "shErr \<Rightarrow> 'a prog"
  | AskDelete Tgid DeleteShardArgs "shErr \<Rightarrow> 'a prog"
  | AskGet string "string \<times> Tversion \<times> Err \<Rightarrow> 'a prog"
  | AskPut PutArgs "Err \<Rightarrow> 'a prog"

primrec andThen :: "'a prog \<Rightarrow> ('a \<Rightarrow> 'b prog) \<Rightarrow> 'b prog" where
  "andThen (Ret x) f = f x"
| "andThen Halt f = Halt"
| "andThen (AskFreeze g a k) f = AskFreeze g a (\<lambda>r. andThen (k r) f)"
| "andThen (AskInstall g a k) f = AskInstall g a (\<lambda>r. andThen (k r) f)"
| "andThen (AskDelete g a k) f = AskDelete g a (\<lambda>r. andThen (k r) f)"
| "andThen (AskGet key k) f = AskGet key (\<lambda>r. andThen (k r) f)"
| "andThen (AskPut a k) f = AskPut a (\<lambda>r. andThen (k r) f)"

section \<open>The stored configurations\<close>

definition configKey :: string where
  "configKey = ''config''"

definition configNextKey :: string where
  "configNextKey = ''config_next''"

definition InitConfig :: "json \<Rightarrow> ShardConfig \<Rightarrow> unit prog" where
  "InitConfig J cfg =
     AskPut \<lparr>putKey = configKey, putValue = cfgString J cfg, putVersion = 0\<rparr> (\<lambda>_. Ret ())"

definition readConfig :: "json \<Rightarrow> (ShardConfig \<times> Tversion) option prog" where
  "readConfig J =
     AskGet configKey (\<lambda>(s, ver, err). if err \<noteq> OK then Ret None else Ret (Some (FromString J s, ver)))"

definition readConfigNext :: "json \<Rightarrow> (ShardConfig \<times> Tversion) option prog" where
  "readConfigNext J =
     AskGet configNextKey (\<lambda>(s, ver, err). if err \<noteq> OK then Ret None else Ret (Some (FromString J s, ver)))"

definition Query :: "json \<Rightarrow> ShardConfig prog" where
  "Query J =
     andThen (readConfig J) (\<lambda>r. case r of None \<Rightarrow> Ret MakeShardConfig | Some (cfg, _) \<Rightarrow> Ret cfg)"

definition claimLanded :: "json \<Rightarrow> ShardConfig \<Rightarrow> bool prog" where
  "claimLanded J new =
     AskGet configNextKey (\<lambda>(s, _, err). Ret (err = OK \<and> s = cfgString J new))"

definition claim :: "json \<Rightarrow> ShardConfig \<Rightarrow> bool prog" where
  "claim J new =
     andThen (readConfigNext J) (\<lambda>r.
       if (case r of None \<Rightarrow> False | Some (nxt, _) \<Rightarrow> Num nxt \<ge> Num new) then Ret False
       else
         let ver = (case r of None \<Rightarrow> 0 | Some (_, ver) \<Rightarrow> ver) in
         AskPut \<lparr>putKey = configNextKey, putValue = cfgString J new, putVersion = ver\<rparr> (\<lambda>err.
           if err = OK then Ret True
           else if err = ErrMaybe then claimLanded J new
           else Ret False))"

section \<open>Moving the shards\<close>

text \<open>The loop of moveTo over the shards that are left; True is "moved, or superseded".\<close>

fun move_shards :: "ShardConfig \<Rightarrow> ShardConfig \<Rightarrow> Tshid list \<Rightarrow> bool prog" where
  "move_shards old new [] = Ret True"
| "move_shards old new (s # ss) =
     (let src = Shards old ! s; dst = Shards new ! s in
      if src = dst then move_shards old new ss
      else
        let srcOK = (map_of (Groups old) src \<noteq> None);
            dstOK = (map_of (Groups new) dst \<noteq> None);
            delete =
              (if srcOK then
                 AskDelete src \<lparr>dlShard = s, dlNum = Num new\<rparr> (\<lambda>err.
                   if err = ErrStale then Ret True
                   else if err = ErrUnreachable then Ret False
                   else move_shards old new ss)
               else move_shards old new ss);
            install = (\<lambda>state.
              if dstOK then
                AskInstall dst \<lparr>inShard = s, inState = state, inNum = Num new\<rparr> (\<lambda>err.
                  if err = ErrStale then Ret True
                  else if err = ErrUnreachable then Ret False
                  else delete)
              else delete)
        in if srcOK then
             AskFreeze src \<lparr>fzShard = s, fzNum = Num new\<rparr> (\<lambda>(state, err).
               if err = ErrStale then Ret True
               else if err = ErrUnreachable then Ret False
               else install state)
           else install None)"

definition moveTo :: "ShardConfig \<Rightarrow> ShardConfig \<Rightarrow> bool prog" where
  "moveTo old new = move_shards old new [0..<NShards]"

fun moveUntilDone :: "json \<Rightarrow> nat \<Rightarrow> ShardConfig \<Rightarrow> ShardConfig \<Rightarrow> bool prog" where
  "moveUntilDone J 0 cur new = Halt"
| "moveUntilDone J (Suc fuel) cur new =
     andThen (moveTo cur new) (\<lambda>ok.
       if ok then Ret True
       else andThen (readConfig J) (\<lambda>r.
         if (case r of None \<Rightarrow> False | Some (cur2, _) \<Rightarrow> Num cur2 \<ge> Num new) then Ret False
         else moveUntilDone J fuel cur new))"

fun publish :: "json \<Rightarrow> nat \<Rightarrow> ShardConfig \<Rightarrow> unit prog" where
  "publish J 0 new = Halt"
| "publish J (Suc fuel) new =
     andThen (readConfig J) (\<lambda>r.
       case r of
         None \<Rightarrow> Ret ()
       | Some (cur, ver) \<Rightarrow>
           if Num cur \<ge> Num new then Ret ()
           else AskPut \<lparr>putKey = configKey, putValue = cfgString J new, putVersion = ver\<rparr> (\<lambda>err.
             if err = OK then Ret () else publish J fuel new))"

section \<open>The operations of the controller\<close>

definition finish :: "json \<Rightarrow> nat \<Rightarrow> ShardConfig \<Rightarrow> ShardConfig \<Rightarrow> unit prog" where
  "finish J fuel cur new =
     andThen (moveUntilDone J fuel cur new) (\<lambda>ok. if ok then publish J fuel new else Ret ())"

definition InitController :: "json \<Rightarrow> nat \<Rightarrow> unit prog" where
  "InitController J fuel =
     andThen (readConfig J) (\<lambda>r.
       case r of
         None \<Rightarrow> Ret ()
       | Some (cur, _) \<Rightarrow>
           andThen (readConfigNext J) (\<lambda>r.
             case r of
               None \<Rightarrow> Ret ()
             | Some (nxt, _) \<Rightarrow> if Num nxt \<le> Num cur then Ret () else finish J fuel cur nxt))"

definition ChangeConfigTo :: "json \<Rightarrow> nat \<Rightarrow> ShardConfig \<Rightarrow> unit prog" where
  "ChangeConfigTo J fuel new =
     andThen (readConfig J) (\<lambda>r.
       case r of
         None \<Rightarrow> Ret ()
       | Some (cur, _) \<Rightarrow>
           if Num new \<le> Num cur then Ret ()
           else andThen (claim J new) (\<lambda>ok.
             if \<not> ok then Ret ()
             else andThen (readConfig J) (\<lambda>r.
               case r of
                 None \<Rightarrow> Ret ()
               | Some (cur, _) \<Rightarrow> if Num new \<le> Num cur then Ret () else finish J fuel cur new)))"

lemma andThen_assoc: "andThen (andThen p f) g = andThen p (\<lambda>x. andThen (f x) g)"
  by (induction p) simp_all

text \<open>Reading is one Get and a decision.\<close>

definition found :: "json \<Rightarrow> string \<times> Tversion \<times> Err \<Rightarrow> (ShardConfig \<times> Tversion) option" where
  "found J r = (case r of (s, ver, err) \<Rightarrow> if err \<noteq> OK then None else Some (FromString J s, ver))"

lemma readConfig_then: "andThen (readConfig J) f = AskGet configKey (\<lambda>r. f (found J r))"
  by (auto simp: readConfig_def found_def fun_eq_iff)

lemma readConfigNext_then: "andThen (readConfigNext J) f = AskGet configNextKey (\<lambda>r. f (found J r))"
  by (auto simp: readConfigNext_def found_def fun_eq_iff)

end
