(* ===== verification/Shard_Move.thy ===== *)
theory Shard_Move
  imports Shard_Group
begin

text \<open>
  The hand-over of the shards between the groups, without the controllers: \<open>P\<close> is the published
  configuration, \<open>N\<close> the one somebody claimed, \<open>G\<close> the groups and \<open>T\<close> the store the clients
  believe in. A shard is idle at its owner, frozen at its old owner, or moved to its new one;
  each command that may still be on its way is harmless in each of these phases.
\<close>

section \<open>Phases of a shard\<close>

type_synonym groups = "Tgid \<Rightarrow> shardState"

definition cfg_ok :: "ShardConfig \<Rightarrow> bool" where
  "cfg_ok c \<longleftrightarrow> length (Shards c) = NShards \<and> assigned c"

abbreviation serves :: "groups \<Rightarrow> Tgid \<Rightarrow> Tshid \<Rightarrow> bool" where
  "serves G g s \<equiv> shServed (G g) ! s"

abbreviation seen :: "groups \<Rightarrow> Tgid \<Rightarrow> Tshid \<Rightarrow> Tnum" where
  "seen G g s \<equiv> shNum (G g) ! s"

abbreviation held :: "groups \<Rightarrow> Tgid \<Rightarrow> Tshid \<Rightarrow> table" where
  "held G g s \<equiv> shShards (G g) ! s"

definition part_of :: "KVServer \<Rightarrow> Tshid \<Rightarrow> table" where
  "part_of T s = kv_m T |` {k. Key2Shard k = s}"

definition inflight :: "ShardConfig \<Rightarrow> ShardConfig option \<Rightarrow> Tshid \<Rightarrow> bool" where
  "inflight P N s \<longleftrightarrow>
     (case N of None \<Rightarrow> False | Some n \<Rightarrow> Num n = Num P + 1 \<and> Shards n ! s \<noteq> Shards P ! s)"

definition idle :: "groups \<Rightarrow> ShardConfig \<Rightarrow> KVServer \<Rightarrow> Tshid \<Rightarrow> bool" where
  "idle G P T s \<longleftrightarrow>
     serves G (Shards P ! s) s \<and> held G (Shards P ! s) s = part_of T s \<and>
     (\<forall>g. g \<noteq> Shards P ! s \<longrightarrow> \<not> serves G g s) \<and> (\<forall>g. seen G g s \<le> Num P)"

definition frozen :: "groups \<Rightarrow> ShardConfig \<Rightarrow> KVServer \<Rightarrow> Tshid \<Rightarrow> bool" where
  "frozen G P T s \<longleftrightarrow>
     (\<forall>g. \<not> serves G g s) \<and> held G (Shards P ! s) s = part_of T s \<and> seen G (Shards P ! s) s = Num P + 1 \<and>
     (\<forall>g. g \<noteq> Shards P ! s \<longrightarrow> seen G g s \<le> Num P)"

definition moved :: "groups \<Rightarrow> ShardConfig \<Rightarrow> ShardConfig option \<Rightarrow> KVServer \<Rightarrow> Tshid \<Rightarrow> bool" where
  "moved G P N T s \<longleftrightarrow>
     (\<exists>n. N = Some n \<and> serves G (Shards n ! s) s \<and> held G (Shards n ! s) s = part_of T s \<and>
        seen G (Shards n ! s) s = Num P + 1 \<and> (\<forall>g. g \<noteq> Shards n ! s \<longrightarrow> \<not> serves G g s)) \<and>
     seen G (Shards P ! s) s = Num P + 1 \<and> (\<forall>g. seen G g s \<le> Num P + 1)"

definition shard_ok :: "groups \<Rightarrow> ShardConfig \<Rightarrow> ShardConfig option \<Rightarrow> KVServer \<Rightarrow> Tshid \<Rightarrow> bool" where
  "shard_ok G P N T s \<longleftrightarrow> idle G P T s \<or> inflight P N s \<and> (frozen G P T s \<or> moved G P N T s)"

text \<open>A group that is past a configuration, as the old or as the new owner.\<close>

definition past_src :: "groups \<Rightarrow> Tgid \<Rightarrow> Tshid \<Rightarrow> Tnum \<Rightarrow> bool" where
  "past_src G g s m \<longleftrightarrow> m < seen G g s \<or> m = seen G g s \<and> \<not> serves G g s"

definition past_dst :: "groups \<Rightarrow> Tgid \<Rightarrow> Tshid \<Rightarrow> Tnum \<Rightarrow> bool" where
  "past_dst G g s m \<longleftrightarrow> m < seen G g s \<or> m = seen G g s \<and> serves G g s"

text \<open>Commands that may arrive now.\<close>

definition new_owner :: "ShardConfig option \<Rightarrow> Tshid \<Rightarrow> Tgid" where
  "new_owner N s = (case N of None \<Rightarrow> 0 | Some n \<Rightarrow> Shards n ! s)"

fun call_ok :: "groups \<Rightarrow> ShardConfig \<Rightarrow> ShardConfig option \<Rightarrow> KVServer \<Rightarrow> Tgid \<Rightarrow> shReq \<Rightarrow> bool" where
  "call_ok G P N T g (ShFreeze a) \<longleftrightarrow> fzShard a < NShards \<and>
     (fzNum a = Num P + 1 \<and> inflight P N (fzShard a) \<and> g = Shards P ! fzShard a \<or>
      fzNum a \<le> Num P \<and> past_src G g (fzShard a) (fzNum a))"
| "call_ok G P N T g (ShInstall a) \<longleftrightarrow> inShard a < NShards \<and>
     (inNum a = Num P + 1 \<and> inflight P N (inShard a) \<and> g = new_owner N (inShard a) \<and>
        (moved G P N T (inShard a) \<or>
         frozen G P T (inShard a) \<and> inState a = Some (part_of T (inShard a))) \<or>
      inNum a \<le> Num P \<and> past_dst G g (inShard a) (inNum a))"
| "call_ok G P N T g (ShDelete a) \<longleftrightarrow> dlShard a < NShards \<and>
     (dlNum a = Num P + 1 \<and> inflight P N (dlShard a) \<and> g = Shards P ! dlShard a \<and>
        moved G P N T (dlShard a) \<or>
      dlNum a \<le> Num P \<and> past_src G g (dlShard a) (dlNum a))"
| "call_ok G P N T g _ \<longleftrightarrow> False"

definition exec_at :: "groups \<Rightarrow> Tgid \<Rightarrow> shReq \<Rightarrow> groups" where
  "exec_at G g q = G(g := fst (sg_DoOp (G g) q))"

section \<open>One command\<close>

lemma exec_other: "g' \<noteq> g \<Longrightarrow> exec_at G g q g' = G g'"
  by (simp add: exec_at_def)

text \<open>What a controller's command does to its own shard, and that it leaves the others alone.\<close>

lemma freeze_effect:
  assumes "group_wf (G g)" "fzShard a < NShards"
  shows "seen (exec_at G g (ShFreeze a)) g (fzShard a) = max (fzNum a) (seen G g (fzShard a))"
    "serves (exec_at G g (ShFreeze a)) g (fzShard a) \<longleftrightarrow> serves G g (fzShard a) \<and> fzNum a < seen G g (fzShard a)"
    "held (exec_at G g (ShFreeze a)) g' s = held G g' s"
    "s \<noteq> fzShard a \<Longrightarrow> seen (exec_at G g (ShFreeze a)) g' s = seen G g' s"
    "s \<noteq> fzShard a \<Longrightarrow> serves (exec_at G g (ShFreeze a)) g' s = serves G g' s"
  using assms by (auto simp: exec_at_def sg_freeze_def group_wf_def Let_def max_def)

lemma install_effect:
  assumes "group_wf (G g)" "inShard a < NShards"
  defines "s0 \<equiv> inShard a"
  defines "installs \<equiv> inNum a > seen G g s0 \<or> inNum a = seen G g s0 \<and> \<not> serves G g s0"
  shows "seen (exec_at G g (ShInstall a)) g s0 = max (inNum a) (seen G g s0)"
    "serves (exec_at G g (ShInstall a)) g s0 \<longleftrightarrow> serves G g s0 \<or> installs"
    "held (exec_at G g (ShInstall a)) g s0 =
       (if installs then (case inState a of None \<Rightarrow> Map.empty | Some m \<Rightarrow> m) else held G g s0)"
    "s \<noteq> s0 \<Longrightarrow> held (exec_at G g (ShInstall a)) g' s = held G g' s"
    "s \<noteq> s0 \<Longrightarrow> seen (exec_at G g (ShInstall a)) g' s = seen G g' s"
    "s \<noteq> s0 \<Longrightarrow> serves (exec_at G g (ShInstall a)) g' s = serves G g' s"
  using assms by (auto simp: exec_at_def sg_install_def group_wf_def Let_def max_def)

lemma delete_effect:
  assumes "group_wf (G g)" "dlShard a < NShards"
  shows "seen (exec_at G g (ShDelete a)) g (dlShard a) = max (dlNum a) (seen G g (dlShard a))"
    "serves (exec_at G g (ShDelete a)) g (dlShard a) \<longleftrightarrow> serves G g (dlShard a) \<and> dlNum a < seen G g (dlShard a)"
    "held (exec_at G g (ShDelete a)) g (dlShard a) =
       (if dlNum a < seen G g (dlShard a) then held G g (dlShard a) else Map.empty)"
    "s \<noteq> dlShard a \<Longrightarrow> held (exec_at G g (ShDelete a)) g' s = held G g' s"
    "s \<noteq> dlShard a \<Longrightarrow> seen (exec_at G g (ShDelete a)) g' s = seen G g' s"
    "s \<noteq> dlShard a \<Longrightarrow> serves (exec_at G g (ShDelete a)) g' s = serves G g' s"
  using assms by (auto simp: exec_at_def sg_delete_def group_wf_def Let_def max_def)
section \<open>The phases under a command\<close>

text \<open>
  What a step may do to a shard, in the groups and in the clients' store: nothing goes backwards,
  and the store does not change under a frozen shard.
\<close>

definition advances ::
  "groups \<Rightarrow> KVServer \<Rightarrow> groups \<Rightarrow> KVServer \<Rightarrow> ShardConfig \<Rightarrow> ShardConfig option \<Rightarrow> Tshid \<Rightarrow> bool" where
  "advances G T G' T' P N s \<longleftrightarrow>
     shard_ok G' P N T' s \<and>
     (\<forall>g m. past_src G g s m \<longrightarrow> past_src G' g s m) \<and> (\<forall>g m. past_dst G g s m \<longrightarrow> past_dst G' g s m) \<and>
     (frozen G P T s \<longrightarrow> part_of T' s = part_of T s \<and> (frozen G' P T' s \<or> moved G' P N T' s)) \<and>
     (moved G P N T s \<longrightarrow> moved G' P N T' s)"

lemma same_shard:
  assumes "\<And>g. seen G' g s = seen G g s" "\<And>g. serves G' g s = serves G g s" "\<And>g. held G' g s = held G g s"
    and "part_of T' s = part_of T s" "shard_ok G P N T s"
  shows "advances G T G' T' P N s"
  using assms by (simp add: advances_def shard_ok_def idle_def frozen_def moved_def past_src_def past_dst_def)

lemma inflightD:
  assumes "inflight P N s"
  obtains n where "N = Some n" "Num n = Num P + 1" "new_owner N s = Shards n ! s" "Shards n ! s \<noteq> Shards P ! s"
  using assms by (auto simp: inflight_def new_owner_def split: option.splits)

lemma phases_exclusive:
  "idle G P T s \<Longrightarrow> \<not> frozen G P T s" "idle G P T s \<Longrightarrow> \<not> moved G P N T s"
  "frozen G P T s \<Longrightarrow> \<not> moved G P N T s"
proof -
  show "\<not> frozen G P T s" if "idle G P T s" using that by (auto simp: idle_def frozen_def)
  show "\<not> moved G P N T s" if "idle G P T s"
  proof -
    have "seen G (Shards P ! s) s \<le> Num P" using that by (simp add: idle_def)
    then show ?thesis by (auto simp: moved_def)
  qed
  show "\<not> moved G P N T s" if "frozen G P T s" using that by (auto simp: frozen_def moved_def)
qed

lemma freeze_step:
  assumes wf: "group_wf (G g)" and ok: "shard_ok G P N T s" and c: "call_ok G P N T g (ShFreeze a)"
  shows "advances G T (exec_at G g (ShFreeze a)) T P N s"
proof (cases "s = fzShard a")
  case False
  then show ?thesis using freeze_effect(3-5) [where G = G and g = g and a = a, OF wf] c ok by (intro same_shard) auto
next
  case True
  have lt: "fzShard a < NShards" using c by simp
  define H where "H = exec_at G g (ShFreeze a)"
  note e = freeze_effect(1-3) [where G = G and g = g and a = a, OF wf lt, folded H_def] and o = exec_other [where G = G and g = g and q = "ShFreeze a", folded H_def]
  have seen: "seen H g' s = (if g' = g then max (fzNum a) (seen G g s) else seen G g' s)" for g'
    using e(1) o True by (cases "g' = g") (simp_all)
  have serves: "serves H g' s \<longleftrightarrow> serves G g' s \<and> (g' = g \<longrightarrow> fzNum a < seen G g s)" for g'
    using e(2) o True by (cases "g' = g") auto
  have held: "held H g' s = held G g' s" for g' using e(3) .
  from c True consider (cur) "fzNum a = Num P + 1" "inflight P N s" "g = Shards P ! s"
    | (old) "fzNum a \<le> Num P" "past_src G g s (fzNum a)" by auto
  then have "advances G T H T P N s"
  proof cases
    case cur
    from cur(2) obtain n where n: "N = Some n" "Shards n ! s \<noteq> Shards P ! s" by (auto elim: inflightD)
    from ok consider "idle G P T s" | "frozen G P T s" | "moved G P N T s" by (auto simp: shard_ok_def)
    then show ?thesis
    proof cases
      case 1
      have le: "seen G g s \<le> Num P" using 1 by (simp add: idle_def)
      then have serves': "serves H g' s \<longleftrightarrow> serves G g' s \<and> g' \<noteq> g" for g' using serves [of g'] cur(1) by auto
      have "seen H g s = Num P + 1" using seen [of g] cur(1) le by simp
      then have "frozen H P T s" using 1 cur by (auto simp: idle_def frozen_def seen serves' held)
      moreover have "\<not> frozen G P T s" "\<not> moved G P N T s" using 1 phases_exclusive(1,2) by blast+
      moreover have "past_src H g' s m" if "past_src G g' s m" for g' m
        using that cur(1) le by (auto simp: past_src_def seen serves')
      moreover have "past_dst H g' s m" if "past_dst G g' s m" for g' m
        using that cur(1) le by (auto simp: past_dst_def seen serves')
      ultimately show ?thesis using cur(2) by (auto simp: advances_def shard_ok_def)
    next
      case 2
      then show ?thesis using cur ok by (intro same_shard) (auto simp: frozen_def seen serves held)
    next
      case 3
      then show ?thesis using cur ok n by (intro same_shard) (auto simp: moved_def seen serves held)
    qed
  next
    case old
    then show ?thesis using ok by (intro same_shard) (auto simp: past_src_def seen serves held)
  qed
  then show ?thesis by (simp add: H_def)
qed

lemma install_step:
  assumes wf: "group_wf (G g)" and ok: "shard_ok G P N T s" and c: "call_ok G P N T g (ShInstall a)"
  shows "advances G T (exec_at G g (ShInstall a)) T P N s"
proof (cases "s = inShard a")
  case False
  then show ?thesis using install_effect(4-6) [where G = G and g = g and a = a, OF wf] c ok by (intro same_shard) auto
next
  case True
  have lt: "inShard a < NShards" using c by simp
  define H where "H = exec_at G g (ShInstall a)"
  define ins where "ins \<longleftrightarrow> inNum a > seen G g s \<or> inNum a = seen G g s \<and> \<not> serves G g s"
  note e = install_effect(1-3) [where G = G and g = g and a = a, OF wf lt, folded H_def] and o = exec_other [where G = G and g = g and q = "ShInstall a", folded H_def]
  have seen: "seen H g' s = (if g' = g then max (inNum a) (seen G g s) else seen G g' s)" for g'
    using e(1) o True by (cases "g' = g") (simp_all)
  have serves: "serves H g' s \<longleftrightarrow> serves G g' s \<or> g' = g \<and> ins" for g'
    using e(2) o True by (cases "g' = g") (auto simp: ins_def)
  have held: "held H g' s = (if g' = g \<and> ins then (case inState a of None \<Rightarrow> Map.empty | Some m \<Rightarrow> m) else held G g' s)" for g'
    using e(3) o True by (cases "g' = g") (auto simp: ins_def)
  from c True consider (moved) "inflight P N s" "inNum a = Num P + 1" "g = new_owner N s" "moved G P N T s"
    | (frozen) "inflight P N s" "inNum a = Num P + 1" "g = new_owner N s" "frozen G P T s" "inState a = Some (part_of T s)"
    | (old) "past_dst G g s (inNum a)" by auto
  then have "advances G T H T P N s"
  proof cases
    case moved
    then obtain n where "N = Some n" "g = Shards n ! s" by (auto elim: inflightD)
    then have "serves G g s" "seen G g s = inNum a" using moved(2,4) by (auto simp: moved_def)
    then show ?thesis by (intro same_shard ok) (simp_all add: ins_def seen serves held)
  next
    case frozen
    obtain n where n: "N = Some n" "g = Shards n ! s" "Shards n ! s \<noteq> Shards P ! s"
      using frozen(1,3) by (auto elim: inflightD)
    have le: "seen G g s \<le> Num P" using frozen(4) n by (simp add: frozen_def)
    then have ins: ins using frozen(2) by (simp add: ins_def)
    have "seen G g' s \<le> Num P + 1" for g'
      using frozen(4) by (cases "g' = Shards P ! s") (auto simp: frozen_def intro: order_trans)
    then have "moved H P N T s"
      using frozen n le ins by (auto simp: moved_def frozen_def seen serves held intro: order_trans)
    moreover have "\<not> moved G P N T s" using frozen(4) by (auto simp: moved_def frozen_def)
    moreover have "past_src H g' s m" if "past_src G g' s m" for g' m
      using that frozen le by (auto simp: past_src_def seen serves)
    moreover have "past_dst H g' s m" if "past_dst G g' s m" for g' m
      using that frozen le by (auto simp: past_dst_def seen serves)
    ultimately show ?thesis using frozen(1) by (auto simp: advances_def shard_ok_def)
  next
    case old
    then have "\<not> ins" by (auto simp: ins_def past_dst_def)
    then show ?thesis using ok old by (intro same_shard) (auto simp: past_dst_def seen serves held)
  qed
  then show ?thesis by (simp add: H_def)
qed

lemma delete_step:
  assumes wf: "group_wf (G g)" and ok: "shard_ok G P N T s" and c: "call_ok G P N T g (ShDelete a)"
  shows "advances G T (exec_at G g (ShDelete a)) T P N s"
proof (cases "s = dlShard a")
  case False
  then show ?thesis using delete_effect(4-6) [where G = G and g = g and a = a, OF wf] c ok by (intro same_shard) auto
next
  case True
  have lt: "dlShard a < NShards" using c by simp
  define H where "H = exec_at G g (ShDelete a)"
  note e = delete_effect(1-3) [where G = G and g = g and a = a, OF wf lt, folded H_def] and o = exec_other [where G = G and g = g and q = "ShDelete a", folded H_def]
  from c True have past: "past_src G g s (dlNum a)"
    by (auto simp: past_src_def moved_def inflight_def)
  have seen: "seen H g' s = seen G g' s" for g'
    using past e(1) o True by (cases "g' = g") (auto simp: past_src_def)
  have serves: "serves H g' s \<longleftrightarrow> serves G g' s" for g'
    using e(2) o True past by (cases "g' = g") (auto simp: past_src_def)
  have held: "held H g' s = held G g' s \<or> g' = g \<and> \<not> serves G g s \<and> dlNum a = seen G g s" for g'
    using e(3) o True past by (cases "g' = g") (auto simp: past_src_def)
  have fr: "frozen H P T s" if "frozen G P T s"
  proof -
    have "\<not> moved G P N T s" using that by (auto simp: moved_def frozen_def)
    then have "dlNum a \<le> Num P" using c True by auto
    then have "held H (Shards P ! s) s = held G (Shards P ! s) s"
      using that held [of "Shards P ! s"] by (auto simp: frozen_def)
    then show ?thesis using that by (simp add: frozen_def seen serves)
  qed
  have mv: "moved H P N T s" if m: "moved G P N T s"
  proof -
    obtain n where n: "N = Some n" "serves G (Shards n ! s) s" using m by (auto simp: moved_def)
    have "held H (Shards n ! s) s = held G (Shards n ! s) s" using held [of "Shards n ! s"] n(2) by auto
    then show ?thesis using m n by (auto simp: moved_def seen serves)
  qed
  have id: "idle H P T s" if "idle G P T s"
    using that held [of "Shards P ! s"] by (auto simp: idle_def seen serves)
  show ?thesis unfolding H_def [symmetric] using fr mv id ok
    by (auto simp: advances_def shard_ok_def past_src_def past_dst_def seen serves)
qed

lemma command_step:
  assumes "group_wf (G g)" "shard_ok G P N T s" "call_ok G P N T g q"
  shows "advances G T (exec_at G g q) T P N s"
  using assms freeze_step install_step delete_step by (cases q) auto

text \<open>So every other command on its way stays harmless.\<close>

lemma call_ok_stable:
  assumes c: "call_ok G P N T g q" and a: "\<And>s. s < NShards \<Longrightarrow> advances G T G' T' P N s"
  shows "call_ok G' P N T' g q"
  using c by (cases q) (use a in \<open>fastforce simp: advances_def\<close>)+
section \<open>The phases under a client\<close>

lemma put_simulates:
  assumes "shServed st ! Key2Shard (putKey op)" "group_wf st"
    and "shShards st ! Key2Shard (putKey op) = part_of T (Key2Shard (putKey op))"
  shows "snd (sg_put st op) = snd (kv_Put T op)"
    "shShards (fst (sg_put st op)) ! Key2Shard (putKey op) = part_of (fst (kv_Put T op)) (Key2Shard (putKey op))"
  using assms
  by (auto simp: sg_put_def kv_Put_def part_of_def Let_def group_wf_def restrict_map_def fun_eq_iff split: option.split)

lemma put_other_shard:
  "s \<noteq> Key2Shard (putKey op) \<Longrightarrow> shShards (fst (sg_put st op)) ! s = shShards st ! s"
  "s \<noteq> Key2Shard (putKey op) \<Longrightarrow> part_of (fst (kv_Put T op)) s = part_of T s"
  by (auto simp: sg_put_def kv_Put_def part_of_def Let_def restrict_map_def fun_eq_iff split: option.split)

lemma get_simulates:
  assumes "shServed st ! Key2Shard (getKey op)"
    and "shShards st ! Key2Shard (getKey op) = part_of T (Key2Shard (getKey op))"
  shows "sg_get st op = kv_Get T op"
  using assms by (auto simp: sg_get_def kv_Get_def part_of_def Let_def split: option.split)

lemma served_holds:
  assumes "shard_ok G P N T s" "serves G g s"
  shows "held G g s = part_of T s" "\<And>g'. serves G g' s \<Longrightarrow> g' = g" "\<not> frozen G P T s"
proof -
  show nf: "\<not> frozen G P T s" using assms(2) by (auto simp: frozen_def)
  obtain g0 where "held G g0 s = part_of T s" "\<forall>g. g \<noteq> g0 \<longrightarrow> \<not> serves G g s"
    using assms(1) nf by (auto simp: shard_ok_def idle_def moved_def)
  then show "held G g s = part_of T s" "\<And>g'. serves G g' s \<Longrightarrow> g' = g" using assms(2) by metis+
qed

text \<open>
  A client's Put at any group: refused, when the group does not serve the shard, or executed as
  the one store would execute it.
\<close>

lemma put_step:
  assumes wf: "group_wf (G g)" and ok: "shard_ok G P N T (Key2Shard (putKey op))"
    and sv: "serves G g (Key2Shard (putKey op))" and oks: "shard_ok G P N T s"
  shows "advances G T (exec_at G g (ShPut op)) (fst (kv_Put T op)) P N s"
proof -
  let ?s0 = "Key2Shard (putKey op)"
  define H where "H = exec_at G g (ShPut op)"
  have Hg: "H g = fst (sg_put (G g) op)" by (simp add: H_def exec_at_def case_prod_beta)
  have Ho: "g' \<noteq> g \<Longrightarrow> H g' = G g'" for g' by (simp add: H_def exec_at_def)
  have seen: "seen H g' s = seen G g' s" for g' by (cases "g' = g") (simp_all add: Hg Ho put_frame)
  have serves: "serves H g' s = serves G g' s" for g' by (cases "g' = g") (simp_all add: Hg Ho put_frame)
  note h = served_holds [OF ok sv]
  have "advances G T H (fst (kv_Put T op)) P N s"
  proof (cases "s = ?s0")
    case False
    have "held H g' s = held G g' s" for g'
      using put_other_shard(1) [OF False] by (cases "g' = g") (simp_all add: Hg Ho)
    then show ?thesis by (intro same_shard seen serves oks put_other_shard(2) [OF False])
  next
    case True
    have new: "held H g s = part_of (fst (kv_Put T op)) s"
      using put_simulates(2) [OF sv wf h(1)] True by (simp add: Hg)
    have id: "idle H P (fst (kv_Put T op)) s" if "idle G P T s"
    proof -
      have "g = Shards P ! s" using that sv True by (auto simp: idle_def)
      then show ?thesis using that new by (simp add: idle_def seen serves)
    qed
    have mv: "moved H P N (fst (kv_Put T op)) s" if m: "moved G P N T s"
    proof -
      obtain n where "N = Some n" "g = Shards n ! s" using m sv True by (auto simp: moved_def)
      then show ?thesis using m new by (auto simp: moved_def seen serves)
    qed
    have "\<not> frozen G P T s" using h(3) True by simp
    then show ?thesis using id mv oks
      by (auto simp: advances_def shard_ok_def past_src_def past_dst_def seen serves)
  qed
  then show ?thesis by (simp add: H_def)
qed

lemma refused_put: "\<not> serves G g (Key2Shard (putKey op)) \<Longrightarrow> sg_put (G g) op = (G g, ErrWrongGroup)"
  by (simp add: sg_put_def Let_def)

lemma refused_get: "\<not> serves G g (Key2Shard (getKey op)) \<Longrightarrow> grErr (sg_get (G g) op) = ErrWrongGroup"
  by (simp add: sg_get_def Let_def)

section \<open>The phases under a new configuration\<close>

text \<open>Claiming the next configuration moves nothing: only shards at rest can be in flight then.\<close>

lemma claim_step:
  assumes "\<not> inflight P N s" "shard_ok G P N T s"
  shows "shard_ok G P N' T s" "\<not> frozen G P T s" "\<not> moved G P N T s"
  using assms phases_exclusive by (auto simp: shard_ok_def)

text \<open>Publishing is possible when every shard in flight was moved, and leaves all at rest.\<close>

lemma publish_step:
  assumes ok: "shard_ok G P (Some n) T s" and n: "Num n = Num P + 1"
    and all: "inflight P (Some n) s \<Longrightarrow> moved G P (Some n) T s"
  shows "idle G n T s"
    "Shards P ! s \<noteq> Shards n ! s \<Longrightarrow> past_src G (Shards P ! s) s (Num n) \<and> past_dst G (Shards n ! s) s (Num n)"
proof -
  have le: "\<forall>g. seen G g s \<le> Num P + 1 \<Longrightarrow> seen G g s \<le> Num n" for g using n by simp
  show "idle G n T s"
  proof (cases "Shards n ! s = Shards P ! s")
    case True
    then have "idle G P T s" using ok by (auto simp: shard_ok_def inflight_def)
    then show ?thesis using True n by (auto simp: idle_def intro: order_trans)
  next
    case False
    then have "moved G P (Some n) T s" using all n by (auto simp: inflight_def)
    then show ?thesis using n by (auto simp: moved_def idle_def)
  qed
  show "past_src G (Shards P ! s) s (Num n) \<and> past_dst G (Shards n ! s) s (Num n)"
    if ne: "Shards P ! s \<noteq> Shards n ! s"
  proof -
    have "moved G P (Some n) T s" using all n ne by (auto simp: inflight_def)
    then show ?thesis using n ne by (auto simp: moved_def past_src_def past_dst_def)
  qed
qed

lemma publish_calls:
  assumes c: "call_ok G P (Some n) T g q" and n: "Num n = Num P + 1"
    and ps: "\<And>s. s < NShards \<Longrightarrow> Shards P ! s \<noteq> Shards n ! s \<Longrightarrow>
      past_src G (Shards P ! s) s (Num n) \<and> past_dst G (Shards n ! s) s (Num n)"
  shows "call_ok G n N' T g q"
  using c n ps by (cases q) (auto simp: inflight_def new_owner_def)

lemma claim_calls:
  assumes "call_ok G P N T g q" "\<And>s. s < NShards \<Longrightarrow> \<not> inflight P N s"
  shows "call_ok G P N' T g q"
  using assms by (cases q) auto

end
