(* ===== verification/Shard_System.thy ===== *)
theory Shard_System
  imports Shard_Ctrler Shard_Move
begin

text \<open>
  The sharded service as a whole: the key/value server with the configurations, the groups, any
  number of controllers that run their programs side by side, an asynchronous network that may
  execute a request again at any later time, and clients that may ask any group. A group executes
  one command at a time (its replicas are the replicated service of \<open>RSM_System\<close>), so one turn
  of a controller is one call: the command of the answering copy and the reply. Controllers may
  be killed or cut off anywhere: they just have no more turns.

  Two ghost fields are only read by theorems: the replies the clients got, and whether a
  recovering controller read the two configurations with a publication in between (\<open>raced\<close>).
\<close>

section \<open>State\<close>

datatype command = Recover | ChangeTo ShardConfig

datatype stage = Working | FirstRead | SecondRead Tnum

datatype shOutcome = Answered | Failed

record shsys =
  store :: KVServer
  grp :: groups
  procs :: "nat \<Rightarrow> unit prog"
  stages :: "nat \<Rightarrow> stage"
  sentG :: "(Tgid \<times> shReq) list"
  sentK :: "PutArgs list"
  history :: "(shReq \<times> shRep) list"
  raced :: bool

text \<open>
  The events: a new process of the controller, a turn of one (its call is answered or fails), its
  request on the network, an old request executed again, and a client at a group. The fuel of a
  process bounds the turns of its loops; every fuel is allowed.
\<close>

datatype shEvent = Begin nat command nat | Turn nat shOutcome | Send nat
  | LateG Tgid shReq | LateK PutArgs | Client Tgid shReq

definition published :: "json \<Rightarrow> KVServer \<Rightarrow> ShardConfig" where
  "published J kv = FromString J (kv_content kv configKey)"

definition claimed :: "json \<Rightarrow> KVServer \<Rightarrow> ShardConfig option" where
  "claimed J kv =
     (if kv_present kv configNextKey then Some (FromString J (kv_content kv configNextKey)) else None)"

definition lookup_key :: "KVServer \<Rightarrow> string \<Rightarrow> string \<times> Tversion \<times> Err" where
  "lookup_key kv key =
     (let r = kv_Get kv \<lparr>getKey = key\<rparr> in (grValue r, grVersion r, grErr r))"

section \<open>Steps\<close>

text \<open>
  Whoever asks for a change has looked at the current configuration before (the numbers only
  grow), and gives every shard to one of the new groups.
\<close>

definition may_begin :: "json \<Rightarrow> KVServer \<Rightarrow> command \<Rightarrow> bool" where
  "may_begin J kv cmd =
     (case cmd of
        Recover \<Rightarrow> True
      | ChangeTo new \<Rightarrow> cfg_ok new \<and> Num new \<le> Num (published J kv) + 1)"

definition begin_proc :: "json \<Rightarrow> shsys \<Rightarrow> nat \<Rightarrow> command \<Rightarrow> nat \<Rightarrow> shsys" where
  "begin_proc J st i cmd fuel =
     (if \<not> may_begin J (store st) cmd then st
      else case cmd of
             Recover \<Rightarrow> st\<lparr>procs := (procs st)(i := InitController J fuel), stages := (stages st)(i := FirstRead)\<rparr>
           | ChangeTo new \<Rightarrow> st\<lparr>procs := (procs st)(i := ChangeConfigTo J fuel new), stages := (stages st)(i := Working)\<rparr>)"

text \<open>One call of a controller against the groups and the server: what changes and what comes next.\<close>

definition turn_call :: "shOutcome \<Rightarrow> KVServer \<times> groups \<Rightarrow> unit prog \<Rightarrow> (KVServer \<times> groups) \<times> unit prog" where
  "turn_call out env p =
     (case env of (kv, G) \<Rightarrow>
      case p of
        Ret x \<Rightarrow> (env, p)
      | Halt \<Rightarrow> (env, p)
      | AskFreeze g a k \<Rightarrow>
          if out = Failed then (env, k (None, ErrUnreachable))
          else ((kv, exec_at G g (ShFreeze a)),
                case snd (sg_DoOp (G g) (ShFreeze a)) of
                  Some (SrFreeze r) \<Rightarrow> k (frState r, frErr r) | _ \<Rightarrow> Halt)
      | AskInstall g a k \<Rightarrow>
          if out = Failed then (env, k ErrUnreachable)
          else ((kv, exec_at G g (ShInstall a)),
                case snd (sg_DoOp (G g) (ShInstall a)) of Some (SrInstall e) \<Rightarrow> k e | _ \<Rightarrow> Halt)
      | AskDelete g a k \<Rightarrow>
          if out = Failed then (env, k ErrUnreachable)
          else ((kv, exec_at G g (ShDelete a)),
                case snd (sg_DoOp (G g) (ShDelete a)) of Some (SrDelete e) \<Rightarrow> k e | _ \<Rightarrow> Halt)
      | AskGet key k \<Rightarrow> (env, k (lookup_key kv key))
      | AskPut a k \<Rightarrow>
          (let (kv', e) = kv_Put kv a
           in ((kv', G), k (if e = ErrVersion \<and> out = Failed then ErrMaybe else e))))"

text \<open>The ghost of a recovering controller: which configuration it read, and whether that was stale.\<close>

definition next_stage :: "json \<Rightarrow> KVServer \<Rightarrow> stage \<Rightarrow> stage" where
  "next_stage J kv stg =
     (case stg of
        FirstRead \<Rightarrow> SecondRead (Num (published J kv))
      | SecondRead n \<Rightarrow> Working
      | Working \<Rightarrow> Working)"

definition stale_read :: "json \<Rightarrow> KVServer \<Rightarrow> stage \<Rightarrow> bool" where
  "stale_read J kv stg = (case stg of SecondRead n \<Rightarrow> Num (published J kv) \<noteq> n | _ \<Rightarrow> False)"

definition turn_proc :: "json \<Rightarrow> shsys \<Rightarrow> nat \<Rightarrow> shOutcome \<Rightarrow> shsys" where
  "turn_proc J st i out =
     (let ((kv', G'), p') = turn_call out (store st, grp st) (procs st i)
      in st\<lparr>store := kv', grp := G', procs := (procs st)(i := p'),
            stages := (stages st)(i := next_stage J (store st) (stages st i)),
            raced := (raced st \<or> stale_read J (store st) (stages st i))\<rparr>)"

text \<open>The request of a pending call is on its way, and may be executed without an answer.\<close>

definition send_proc :: "shsys \<Rightarrow> nat \<Rightarrow> shsys" where
  "send_proc st i =
     (case procs st i of
        AskFreeze g a k \<Rightarrow> st\<lparr>sentG := (g, ShFreeze a) # sentG st\<rparr>
      | AskInstall g a k \<Rightarrow> st\<lparr>sentG := (g, ShInstall a) # sentG st\<rparr>
      | AskDelete g a k \<Rightarrow> st\<lparr>sentG := (g, ShDelete a) # sentG st\<rparr>
      | AskPut a k \<Rightarrow> st\<lparr>sentK := a # sentK st\<rparr>
      | _ \<Rightarrow> st)"

definition client_call :: "shsys \<Rightarrow> Tgid \<Rightarrow> shReq \<Rightarrow> shsys" where
  "client_call st g q =
     (if \<not> is_client q then st
      else st\<lparr>grp := exec_at (grp st) g q,
              history := history st @ (case snd (sg_DoOp (grp st g) q) of None \<Rightarrow> [] | Some r \<Rightarrow> [(q, r)])\<rparr>)"

fun sh_step :: "json \<Rightarrow> shsys \<Rightarrow> shEvent \<Rightarrow> shsys" where
  "sh_step J st (Begin i cmd fuel) = begin_proc J st i cmd fuel"
| "sh_step J st (Turn i out) = turn_proc J st i out"
| "sh_step J st (Send i) = send_proc st i"
| "sh_step J st (LateG g q) =
     (if List.member (sentG st) (g, q) then st\<lparr>grp := exec_at (grp st) g q\<rparr> else st)"
| "sh_step J st (LateK a) =
     (if List.member (sentK st) a then st\<lparr>store := fst (kv_Put (store st) a)\<rparr> else st)"
| "sh_step J st (Client g q) = client_call st g q"

text \<open>The beginning: InitConfig has stored the first configuration, in which the first group owns all.\<close>

definition first_config :: "Tnum \<Rightarrow> (Tgid \<times> string list) list \<Rightarrow> ShardConfig" where
  "first_config n gs = \<lparr>Num = n, Shards = replicate NShards Gid1, Groups = gs\<rparr>"

definition sh_init :: "json \<Rightarrow> ShardConfig \<Rightarrow> shsys" where
  "sh_init J c =
     (let a = \<lparr>putKey = configKey, putValue = cfgString J c, putVersion = 0\<rparr>
      in \<lparr>store = fst (kv_Put MakeKVServer a), grp = sg_init, procs = (\<lambda>_. Halt), stages = (\<lambda>_. Working),
          sentG = [], sentK = [a], history = [], raced = False\<rparr>)"

definition sh_run :: "json \<Rightarrow> shsys \<Rightarrow> shEvent list \<Rightarrow> shsys" where
  "sh_run J st es = foldl (sh_step J) st es"

section \<open>What the clients may believe\<close>

text \<open>
  The replies of a history are those of one server that executes the commands in that order,
  apart from refusals, which did nothing.
\<close>

fun one_server :: "KVServer \<Rightarrow> (shReq \<times> shRep) list \<Rightarrow> bool" where
  "one_server T [] = True"
| "one_server T ((ShGet a, SrGet r) # h) =
     (if grErr r = ErrWrongGroup then one_server T h else r = kv_Get T a \<and> one_server T h)"
| "one_server T ((ShPut a, SrPut e) # h) =
     (if e = ErrWrongGroup then one_server T h
      else e = snd (kv_Put T a) \<and> one_server (fst (kv_Put T a)) h)"
| "one_server T _ = False"

fun final_server :: "KVServer \<Rightarrow> (shReq \<times> shRep) list \<Rightarrow> KVServer" where
  "final_server T [] = T"
| "final_server T ((ShPut a, SrPut e) # h) =
     (if e = ErrWrongGroup then final_server T h else final_server (fst (kv_Put T a)) h)"
| "final_server T (_ # h) = final_server T h"

lemma one_server_append:
  "one_server T (h @ h') \<longleftrightarrow> one_server T h \<and> one_server (final_server T h) h'"
  by (induction T h rule: one_server.induct) auto

lemma final_server_append: "final_server T (h @ h') = final_server (final_server T h) h'"
  by (induction T h rule: final_server.induct) auto

end
