(* ===== verification/Shard_Safety.thy ===== *)
theory Shard_Safety
  imports Shard_System
begin

text \<open>
  The sharded service is one server. A view is what the whole system looks like to a controller;
  a fact is something a controller may rely on because no step of anybody falsifies it; and
  \<open>wp\<close> says that a program, from a view on, only makes calls that are harmless and ends in its
  postcondition, whatever the others do between its calls.
\<close>

section \<open>Views and facts\<close>

record view =
  vkv :: KVServer
  vG :: groups
  vT :: KVServer
  vclock :: nat

abbreviation vP :: "json \<Rightarrow> view \<Rightarrow> ShardConfig" where
  "vP J v \<equiv> published J (vkv v)"

abbreviation vN :: "json \<Rightarrow> view \<Rightarrow> ShardConfig option" where
  "vN J v \<equiv> claimed J (vkv v)"

abbreviation vmoved :: "json \<Rightarrow> view \<Rightarrow> Tshid \<Rightarrow> bool" where
  "vmoved J v s \<equiv> moved (vG v) (vP J v) (vN J v) (vT v) s"

datatype fact = Call Tgid shReq | Store PutArgs | Known ShardConfig | Wanted ShardConfig
  | Claimed ShardConfig | Moving ShardConfig ShardConfig "Tshid list" | Publishable ShardConfig

definition all_moved :: "json \<Rightarrow> view \<Rightarrow> ShardConfig \<Rightarrow> bool" where
  "all_moved J v new \<longleftrightarrow> Num new = Num (vP J v) + 1 \<and> vN J v = Some new \<and>
     (\<forall>s < NShards. Shards (vP J v) ! s \<noteq> Shards new ! s \<longrightarrow> vmoved J v s)"

definition unclaimed :: "json \<Rightarrow> view \<Rightarrow> ShardConfig \<Rightarrow> bool" where
  "unclaimed J v new \<longleftrightarrow> cfg_ok new \<and> Num new \<le> Num (vP J v) + 1 \<and>
     (\<forall>n. vN J v = Some n \<longrightarrow> Num n < Num new)"

definition all_past :: "groups \<Rightarrow> ShardConfig \<Rightarrow> ShardConfig \<Rightarrow> bool" where
  "all_past G old new \<longleftrightarrow> (\<forall>s < NShards. Shards old ! s \<noteq> Shards new ! s \<longrightarrow>
     past_src G (Shards old ! s) s (Num new) \<and> past_dst G (Shards new ! s) s (Num new))"

fun holds :: "json \<Rightarrow> view \<Rightarrow> fact \<Rightarrow> bool" where
  "holds J v (Call g q) \<longleftrightarrow> call_ok (vG v) (vP J v) (vN J v) (vT v) g q"
| "holds J v (Store a) \<longleftrightarrow>
     (\<exists>new. putValue a = cfgString J new \<and>
        (putKey a = configKey \<and>
           (unat (putVersion a) < unat (kv_version (vkv v) configKey) \<or>
            putVersion a = kv_version (vkv v) configKey \<and> all_moved J v new) \<or>
         putKey a = configNextKey \<and>
           (unat (putVersion a) < unat (kv_version (vkv v) configNextKey) \<or>
            putVersion a = kv_version (vkv v) configNextKey \<and> unclaimed J v new)))"
| "holds J v (Known c) \<longleftrightarrow> Num c \<le> Num (vP J v) \<and> (Num c = Num (vP J v) \<longrightarrow> c = vP J v)"
| "holds J v (Wanted new) \<longleftrightarrow> cfg_ok new \<and> Num new \<le> Num (vP J v) + 1"
| "holds J v (Claimed new) \<longleftrightarrow> Num new \<le> Num (vP J v) \<or> Num new = Num (vP J v) + 1 \<and> vN J v = Some new"
| "holds J v (Moving old new ss) \<longleftrightarrow> cfg_ok old \<and> cfg_ok new \<and>
     (Num new = Num (vP J v) + 1 \<and> vN J v = Some new \<and> old = vP J v \<and>
        (\<forall>s < NShards. s \<notin> set ss \<and> Shards old ! s \<noteq> Shards new ! s \<longrightarrow> vmoved J v s) \<or>
      Num new \<le> Num (vP J v) \<and> all_past (vG v) old new)"
| "holds J v (Publishable new) \<longleftrightarrow> Num new \<le> Num (vP J v) \<or> all_moved J v new"

definition rely :: "json \<Rightarrow> view \<Rightarrow> view \<Rightarrow> bool" where
  "rely J v v' \<longleftrightarrow> (\<forall>f. holds J v f \<longrightarrow> holds J v' f)"

lemma rely_refl [simp]: "rely J v v" by (simp add: rely_def)

lemma rely_trans [trans]: "rely J v v' \<Longrightarrow> rely J v' v'' \<Longrightarrow> rely J v v''" by (simp add: rely_def)

lemma relyD: "rely J v v' \<Longrightarrow> holds J v f \<Longrightarrow> holds J v' f" by (simp add: rely_def)

section \<open>The invariant of a view\<close>

definition vinv :: "json \<Rightarrow> view \<Rightarrow> bool" where
  "vinv J v \<longleftrightarrow> (\<forall>g. group_wf (vG v g)) \<and> cfg_ok (vP J v) \<and> kv_present (vkv v) configKey \<and>
     (\<forall>n. vN J v = Some n \<longrightarrow> cfg_ok n \<and> Num n \<le> Num (vP J v) + 1) \<and>
     (\<forall>s < NShards. shard_ok (vG v) (vP J v) (vN J v) (vT v) s) \<and>
     unat (kv_version (vkv v) configKey) \<le> vclock v \<and> unat (kv_version (vkv v) configNextKey) \<le> vclock v \<and>
     vclock v < 2 ^ 64 - 1"

lemma vinvD:
  assumes "vinv J v"
  shows "group_wf (vG v g)" "cfg_ok (vP J v)" "kv_present (vkv v) configKey"
    "vN J v = Some n \<Longrightarrow> cfg_ok n \<and> Num n \<le> Num (vP J v) + 1"
    "s < NShards \<Longrightarrow> shard_ok (vG v) (vP J v) (vN J v) (vT v) s"
    "unat (kv_version (vkv v) configKey) \<le> vclock v" "unat (kv_version (vkv v) configNextKey) \<le> vclock v"
    "vclock v < 2 ^ 64 - 1"
  using assms by (auto simp: vinv_def)

section \<open>The steps of a view\<close>

definition tick :: "view \<Rightarrow> view" where
  "tick v = v\<lparr>vclock := Suc (vclock v)\<rparr>"

definition may_tick :: "view \<Rightarrow> bool" where
  "may_tick v \<longleftrightarrow> Suc (vclock v) < 2 ^ 64 - 1"

lemma tick_simps [simp]:
  "vkv (tick v) = vkv v" "vG (tick v) = vG v" "vT (tick v) = vT v" "vclock (tick v) = Suc (vclock v)"
  by (simp_all add: tick_def)

lemma rely_groups:
  assumes "vkv v' = vkv v"
    and a: "\<And>s. s < NShards \<Longrightarrow> advances (vG v) (vT v) (vG v') (vT v') (vP J v) (vN J v) s"
  shows "rely J v v'"
proof -
  have mv: "s < NShards \<Longrightarrow> vmoved J v s \<Longrightarrow> vmoved J v' s" for s using a assms(1) by (simp add: advances_def)
  have am: "all_moved J v new \<Longrightarrow> all_moved J v' new" for new using mv assms(1) by (auto simp: all_moved_def)
  have ap: "all_past (vG v) old new \<Longrightarrow> all_past (vG v') old new" for old new
    using a by (auto simp: all_past_def advances_def)
  have "holds J v' f" if "holds J v f" for f
  proof (cases f)
    case (Call g q)
    then show ?thesis using that assms(1) call_ok_stable [OF _ a] by simp
  next
    case (Store b)
    then show ?thesis using that assms(1) am by (auto simp: unclaimed_def)
  next
    case (Moving old new ss)
    then show ?thesis using that assms(1) mv ap by auto
  next
    case (Publishable new)
    then show ?thesis using that assms(1) am by auto
  qed (use that assms(1) in simp_all)
  then show ?thesis by (simp add: rely_def)
qed

lemma rely_tick: "rely J v (tick v)"
proof -
  have "holds J v f \<longleftrightarrow> holds J (tick v) f" for f
    by (cases f) (simp_all add: all_moved_def unclaimed_def all_past_def)
  then show ?thesis by (simp add: rely_def)
qed

lemma vinv_groups:
  assumes "vinv J v" "vkv v' = vkv v" "vclock v' = vclock v" "\<And>g. group_wf (vG v' g)"
    and a: "\<And>s. s < NShards \<Longrightarrow> advances (vG v) (vT v) (vG v') (vT v') (vP J v) (vN J v) s"
  shows "vinv J v'"
  using assms by (auto simp: vinv_def advances_def)

lemma vinv_tick: "vinv J v \<Longrightarrow> may_tick v \<Longrightarrow> vinv J (tick v)"
  by (auto simp: vinv_def may_tick_def)

text \<open>A controller's command.\<close>

definition after_cmd :: "view \<Rightarrow> Tgid \<Rightarrow> shReq \<Rightarrow> view" where
  "after_cmd v g q = v\<lparr>vG := exec_at (vG v) g q\<rparr>"

lemma after_cmd_simps [simp]:
  "vkv (after_cmd v g q) = vkv v" "vT (after_cmd v g q) = vT v" "vclock (after_cmd v g q) = vclock v"
  "vG (after_cmd v g q) = exec_at (vG v) g q"
  by (simp_all add: after_cmd_def)
lemma install_noop:
  assumes "past_dst G g (inShard a) (inNum a)" shows "fst (sg_install (G g) a) = G g"
  using assms by (auto simp: past_dst_def sg_install_def Let_def)

lemma command_wf:
  assumes wf: "\<And>g. group_wf (G g)" and c: "call_ok G P N T g q"
  shows "group_wf (exec_at G g q g')"
proof (cases "g' = g")
  case True
  have "group_wf (fst (sg_DoOp (G g) q))"
  proof (cases q)
    case (ShInstall a)
    from c ShInstall consider "past_dst G g (inShard a) (inNum a)"
      | "inState a = Some (part_of T (inShard a))" "inShard a < NShards"
      by (auto simp: past_dst_def moved_def new_owner_def inflight_def split: option.splits)
    then show ?thesis
    proof cases
      case 1
      then show ?thesis using install_noop [OF 1] wf ShInstall by (simp add: case_prod_beta)
    next
      case 2
      then have "req_wf q" using ShInstall by (auto simp: part_of_def restrict_map_def split: if_splits)
      then show ?thesis using DoOp_wf wf by blast
    qed
  next
    case (ShFreeze a)
    then have "req_wf q" using c by simp
    then show ?thesis using DoOp_wf wf by blast
  next
    case (ShDelete a)
    then have "req_wf q" using c by simp
    then show ?thesis using DoOp_wf wf by blast
  qed (use c in auto)
  then show ?thesis using True by (simp add: exec_at_def)
qed (simp add: exec_other wf)

lemma cmd_view:
  assumes v: "vinv J v" and c: "holds J v (Call g q)"
  shows "vinv J (after_cmd v g q)" "rely J v (after_cmd v g q)"
proof -
  have a: "advances (vG v) (vT v) (exec_at (vG v) g q) (vT v) (vP J v) (vN J v) s" if "s < NShards" for s
    using vinvD(1,5) [OF v] that c by (intro command_step) auto
  have wf: "group_wf (exec_at (vG v) g q g')" for g'
    using vinvD(1) [OF v] c by (auto intro!: command_wf)
  show "vinv J (after_cmd v g q)" by (rule vinv_groups [OF v]) (simp_all add: a wf)
  show "rely J v (after_cmd v g q)" by (rule rely_groups) (simp_all add: a)
qed

text \<open>A client's command, with the store the clients believe in.\<close>

definition after_client :: "view \<Rightarrow> Tgid \<Rightarrow> shReq \<Rightarrow> view" where
  "after_client v g q =
     v\<lparr>vG := exec_at (vG v) g q,
       vT := (case snd (sg_DoOp (vG v g) q) of None \<Rightarrow> vT v | Some r \<Rightarrow> final_server (vT v) [(q, r)])\<rparr>"

lemma client_view:
  assumes v: "vinv J v" and q: "is_client q"
  shows "vinv J (after_client v g q)" "rely J v (after_client v g q)"
    "\<exists>r. snd (sg_DoOp (vG v g) q) = Some r \<and> one_server (vT v) [(q, r)]"
proof -
  let ?v = "after_client v g q"
  have ok: "shard_ok (vG v) (vP J v) (vN J v) (vT v) s" if "s < NShards" for s using vinvD(5) [OF v that] .
  have wf: "group_wf (vG v g')" for g' using vinvD(1) [OF v] .
  have triv: "advances (vG v) (vT v) (vG v) (vT v) (vP J v) (vN J v) s" if "s < NShards" for s
    using ok [OF that] by (intro same_shard) simp_all
  have "(\<forall>s < NShards. advances (vG v) (vT v) (vG ?v) (vT ?v) (vP J v) (vN J v) s) \<and>
    (\<exists>r. snd (sg_DoOp (vG v g) q) = Some r \<and> one_server (vT v) [(q, r)]) \<and> (\<forall>g'. group_wf (vG ?v g'))"
  proof (cases q)
    case (ShGet a)
    have same: "exec_at (vG v) g q = vG v" using ShGet by (simp add: exec_at_def)
    have "one_server (vT v) [(ShGet a, SrGet (sg_get (vG v g) a))]"
    proof (cases "serves (vG v) g (Key2Shard (getKey a))")
      case True
      then have "sg_get (vG v g) a = kv_Get (vT v) a"
        using served_holds(1) [OF ok True] by (intro get_simulates) simp_all
      then show ?thesis by simp
    next
      case False
      then show ?thesis using refused_get by simp
    qed
    then show ?thesis using same triv wf ShGet by (simp add: after_client_def)
  next
    case (ShPut a)
    let ?s = "Key2Shard (putKey a)"
    show ?thesis
    proof (cases "serves (vG v) g ?s")
      case True
      have r: "snd (sg_put (vG v g) a) = snd (kv_Put (vT v) a)"
        using served_holds(1) [OF ok True] by (intro put_simulates(1) [OF True wf]) simp_all
      have ne: "snd (kv_Put (vT v) a) \<noteq> ErrWrongGroup"
        by (auto simp: kv_Put_def split: option.split)
      have T: "vT ?v = fst (kv_Put (vT v) a)" using ShPut r ne by (simp add: after_client_def case_prod_beta)
      have "advances (vG v) (vT v) (vG ?v) (vT ?v) (vP J v) (vN J v) s" if "s < NShards" for s
        unfolding T using put_step [of "vG v" g "vP J v" "vN J v" "vT v" a s] wf ok that True ShPut
        by (simp add: after_client_def)
      moreover have "group_wf (vG ?v g')" for g'
        using put_wf [OF wf] wf ShPut by (simp add: after_client_def exec_at_def case_prod_beta)
      ultimately show ?thesis using r ne ShPut by (simp add: case_prod_beta)
    next
      case False
      have r: "sg_put (vG v g) a = (vG v g, ErrWrongGroup)" by (rule refused_put) (rule False)
      then have "exec_at (vG v) g q = vG v" "vT ?v = vT v"
        using ShPut by (simp_all add: exec_at_def after_client_def)
      then show ?thesis using triv wf ShPut r by (simp add: after_client_def)
    qed
  qed (use q in auto)
  note all = this
  have same: "vkv ?v = vkv v" "vclock ?v = vclock v" by (simp_all add: after_client_def)
  show "vinv J ?v" by (rule vinv_groups [OF v same]) (use all in auto)
  show "rely J v ?v" by (rule rely_groups [OF same(1)]) (use all in auto)
  show "\<exists>r. snd (sg_DoOp (vG v g) q) = Some r \<and> one_server (vT v) [(q, r)]" using all by blast
qed

section \<open>The configurations change\<close>

definition after_put :: "view \<Rightarrow> PutArgs \<Rightarrow> view" where
  "after_put v a = tick (v\<lparr>vkv := fst (kv_Put (vkv v) a)\<rparr>)"

lemma after_put_simps [simp]:
  "vkv (after_put v a) = fst (kv_Put (vkv v) a)" "vG (after_put v a) = vG v" "vT (after_put v a) = vT v"
  "vclock (after_put v a) = Suc (vclock v)"
  by (simp_all add: after_put_def)

lemma put_failed:
  assumes "snd (kv_Put kv a) \<noteq> OK" shows "fst (kv_Put kv a) = kv"
  using kv.put_fails [OF assms] by simp

lemma keys_differ [simp]: "configKey \<noteq> configNextKey" "configNextKey \<noteq> configKey"
  by (simp_all add: configKey_def configNextKey_def)

lemma unat_plus: "unat (x :: Tversion) < 2 ^ 64 - 1 \<Longrightarrow> unat (x + 1) = Suc (unat x)"
  by (simp add: unat_word_ariths)
text \<open>A successful Put of one of the two keys, on the store.\<close>

lemma stored:
  assumes "snd (kv_Put kv a) = OK"
  shows "published J (fst (kv_Put kv a)) =
      (if putKey a = configKey then FromString J (putValue a) else published J kv)"
    "claimed J (fst (kv_Put kv a)) =
      (if putKey a = configNextKey then Some (FromString J (putValue a)) else claimed J kv)"
    "kv_version (fst (kv_Put kv a)) k = (if k = putKey a then kv_version kv k + 1 else kv_version kv k)"
    "kv_present (fst (kv_Put kv a)) k \<longleftrightarrow> k = putKey a \<or> kv_present kv k"
  using kv.put_version [OF assms] kv.put_content [OF assms] kv.put_present [OF assms]
  by (auto simp: published_def claimed_def)

lemma inflightI:
  "Num new = Num P + 1 \<Longrightarrow> N = Some new \<Longrightarrow> inflight P N s \<longleftrightarrow> Shards P ! s \<noteq> Shards new ! s"
  by (auto simp: inflight_def)

lemma publish_view:
  assumes J: "json_ok J" and v: "vinv J v" and t: "may_tick v" and k: "putKey a = configKey"
    and a: "putValue a = cfgString J new" "all_moved J v new" and ok: "snd (kv_Put (vkv v) a) = OK"
  shows "vinv J (after_put v a)" "rely J v (after_put v a)"
proof -
  let ?v = "after_put v a"
  let ?P = "vP J v" and ?G = "vG v" and ?T = "vT v"
  have P': "vP J ?v = new" and N': "vN J ?v = Some new" and n: "Num new = Num ?P + 1" and N: "vN J v = Some new"
    using J stored(1,2) [OF ok, of J] k a by (auto simp: all_moved_def json_ok_def FromString_def cfgString_def)
  have ver: "unat (kv_version (vkv ?v) configKey) = Suc (unat (kv_version (vkv v) configKey))"
      "kv_version (vkv ?v) configNextKey = kv_version (vkv v) configNextKey"
    using stored(3) [OF ok] k vinvD(6,8) [OF v] by (simp_all add: unat_plus)
  have mv: "moved ?G ?P (Some new) ?T s" if "s < NShards" "inflight ?P (Some new) s" for s
    using a(2) that inflightI [OF n refl, of s] N by (auto simp: all_moved_def)
  have sh: "shard_ok ?G ?P (Some new) ?T s" if "s < NShards" for s using vinvD(5) [OF v that] N by simp
  note p = publish_step [OF sh n mv]
  have past: "all_past ?G ?P new" using p(2) by (simp add: all_past_def)
  have "shard_ok ?G new (Some new) ?T s" if "s < NShards" for s using p(1) [OF that that] by (simp add: shard_ok_def)
  then show "vinv J ?v"
    using v t P' N' N ver stored(4) [OF ok] by (auto simp: vinv_def may_tick_def)
  have "holds J ?v f" if f: "holds J v f" for f
  proof (cases f)
    case (Call g q)
    then show ?thesis using f P' N' N publish_calls [OF _ n, of ?G ?T g q "Some new"] p(2) by auto
  next
    case (Store b)
    then show ?thesis using f P' N' N ver n a(2) by (fastforce simp: unclaimed_def)
  next
    case (Moving old c ss)
    then show ?thesis using f P' N' N n past by auto
  next
    case (Publishable c)
    then show ?thesis using f P' n by (auto simp: all_moved_def)
  qed (use f P' n in auto)
  then show "rely J v ?v" by (simp add: rely_def)
qed

lemma claim_view:
  assumes J: "json_ok J" and v: "vinv J v" and t: "may_tick v" and k: "putKey a = configNextKey"
    and a: "putValue a = cfgString J new" "unclaimed J v new" and ok: "snd (kv_Put (vkv v) a) = OK"
  shows "vinv J (after_put v a)" "rely J v (after_put v a)" "holds J (after_put v a) (Claimed new)"
proof -
  let ?v = "after_put v a"
  let ?P = "vP J v" and ?G = "vG v" and ?T = "vT v"
  have P': "vP J ?v = ?P" and N': "vN J ?v = Some new"
    using J stored(1,2) [OF ok, of J] k a by (auto simp: json_ok_def FromString_def cfgString_def)
  have no: "Num new \<le> Num ?P + 1" "cfg_ok new" "vN J v = Some c \<Longrightarrow> Num c \<noteq> Num ?P + 1" for c
    using a(2) by (auto simp: unclaimed_def)
  have ver: "unat (kv_version (vkv ?v) configNextKey) = Suc (unat (kv_version (vkv v) configNextKey))"
      "kv_version (vkv ?v) configKey = kv_version (vkv v) configKey"
    using stored(3) [OF ok] k vinvD(7,8) [OF v] by (simp_all add: unat_plus)
  have nf: "\<not> inflight ?P (vN J v) s" for s using no(3) by (auto simp: inflight_def split: option.splits)
  have nm: "\<not> all_moved J v c" for c using no(3) by (auto simp: all_moved_def)
  have "shard_ok ?G ?P (Some new) ?T s" if "s < NShards" for s
    by (rule claim_step(1) [OF nf vinvD(5) [OF v that]])
  then show "vinv J ?v"
    using v t P' N' no ver stored(4) [OF ok] by (auto simp: vinv_def may_tick_def)
  have "holds J ?v f" if f: "holds J v f" for f
  proof (cases f)
    case (Call g q)
    then show ?thesis using f P' N' claim_calls [OF _ nf] by auto
  next
    case (Store b)
    then show ?thesis using f P' ver nm by fastforce
  next
    case (Claimed c)
    then show ?thesis using f P' no(3) by auto
  next
    case (Moving old c ss)
    then show ?thesis using f P' no(3) by auto
  next
    case (Publishable c)
    then show ?thesis using f P' nm by auto
  qed (use f P' in auto)
  then show "rely J v ?v" by (simp add: rely_def)
  show "holds J ?v (Claimed new)" using P' N' no(1) by auto
qed

lemma failed_view:
  assumes "vinv J v" "may_tick v" "snd (kv_Put (vkv v) a) \<noteq> OK"
  shows "vinv J (after_put v a)" "rely J v (after_put v a)"
  using vinv_tick [OF assms(1,2)] rely_tick [of J v] put_failed [OF assms(3)] by (simp_all add: after_put_def)

lemma put_view:
  assumes J: "json_ok J" and v: "vinv J v" and t: "may_tick v" and h: "holds J v (Store a)"
  shows "vinv J (after_put v a)" "rely J v (after_put v a)"
proof -
  have "vinv J (after_put v a) \<and> rely J v (after_put v a)"
  proof (cases "snd (kv_Put (vkv v) a) = OK")
    case True
    then have "putVersion a = kv_version (vkv v) (putKey a)" using kv.put_ok by blast
    then obtain new where "putValue a = cfgString J new"
        "putKey a = configKey \<and> all_moved J v new \<or> putKey a = configNextKey \<and> unclaimed J v new"
      using h by auto
    then show ?thesis using publish_view [OF J v t] claim_view [OF J v t] True by blast
  qed (use failed_view [OF v t] in blast)
  then show "vinv J (after_put v a)" "rely J v (after_put v a)" by blast+
qed
section \<open>What a program may do\<close>

definition later :: "json \<Rightarrow> view \<Rightarrow> view \<Rightarrow> bool" where
  "later J v v' \<longleftrightarrow> rely J v v' \<and> vinv J v' \<and> may_tick v'"

text \<open>The answers a call may get when it is made in view \<open>v\<close>.\<close>

definition put_answers :: "view \<Rightarrow> PutArgs \<Rightarrow> Err \<Rightarrow> bool" where
  "put_answers v a e \<longleftrightarrow> e = snd (kv_Put (vkv v) a) \<or> snd (kv_Put (vkv v) a) = ErrVersion \<and> e = ErrMaybe"

primrec wp :: "json \<Rightarrow> ('a \<Rightarrow> view \<Rightarrow> bool) \<Rightarrow> 'a prog \<Rightarrow> view \<Rightarrow> bool" where
  "wp J Q (Ret x) = (\<lambda>v. Q x v)"
| "wp J Q Halt = (\<lambda>v. True)"
| "wp J Q (AskFreeze g a k) = (\<lambda>v. holds J v (Call g (ShFreeze a)) \<and>
     (\<forall>v'. later J v v' \<longrightarrow> wp J Q (k (None, ErrUnreachable)) (tick v') \<and>
        (let r = snd (sg_freeze (vG v' g) a)
         in wp J Q (k (frState r, frErr r)) (tick (after_cmd v' g (ShFreeze a))))))"
| "wp J Q (AskInstall g a k) = (\<lambda>v. holds J v (Call g (ShInstall a)) \<and>
     (\<forall>v'. later J v v' \<longrightarrow> wp J Q (k ErrUnreachable) (tick v') \<and>
        wp J Q (k (snd (sg_install (vG v' g) a))) (tick (after_cmd v' g (ShInstall a)))))"
| "wp J Q (AskDelete g a k) = (\<lambda>v. holds J v (Call g (ShDelete a)) \<and>
     (\<forall>v'. later J v v' \<longrightarrow> wp J Q (k ErrUnreachable) (tick v') \<and>
        wp J Q (k (snd (sg_delete (vG v' g) a))) (tick (after_cmd v' g (ShDelete a)))))"
| "wp J Q (AskGet key k) = (\<lambda>v. \<forall>v'. later J v v' \<longrightarrow> wp J Q (k (lookup_key (vkv v') key)) (tick v'))"
| "wp J Q (AskPut a k) = (\<lambda>v. holds J v (Store a) \<and>
     (\<forall>v'. later J v v' \<longrightarrow> (\<forall>e. put_answers v' a e \<longrightarrow> wp J Q (k e) (after_put v' a))))"

lemma later_trans: "rely J v v' \<Longrightarrow> later J v' v'' \<Longrightarrow> later J v v''"
  by (auto simp: later_def intro: rely_trans)

text \<open>Nobody else can spoil it.\<close>

lemma wp_stable:
  assumes "wp J Q p v" "rely J v v'" "\<And>x. Q x v \<Longrightarrow> Q x v'"
  shows "wp J Q p v'"
  using assms later_trans [OF assms(2)] relyD [OF assms(2)] by (cases p) (auto simp del: holds.simps)

lemma wp_andThen: "wp J (\<lambda>x. wp J Q (f x)) p v \<Longrightarrow> wp J Q (andThen p f) v"
  by (induction p arbitrary: v) (simp_all add: Let_def del: holds.simps)

lemma wp_conseq: "wp J Q p v \<Longrightarrow> (\<And>x v. Q x v \<Longrightarrow> Q' x v) \<Longrightarrow> wp J Q' p v"
  by (induction p arbitrary: v) (simp_all add: Let_def del: holds.simps)

lemma later_cmd:
  assumes "later J v v'" "holds J v (Call g q)"
  shows "rely J v (tick (after_cmd v' g q))" "vinv J (after_cmd v' g q)" "rely J v (tick v')" "vinv J v'"
proof -
  have v': "rely J v v'" "vinv J v'" using assms(1) by (auto simp: later_def)
  have c: "holds J v' (Call g q)" by (rule relyD [OF v'(1) assms(2)])
  show "rely J v (tick (after_cmd v' g q))"
    using v'(1) cmd_view(2) [OF v'(2) c] rely_tick by (blast intro: rely_trans)
  show "vinv J (after_cmd v' g q)" by (rule cmd_view(1) [OF v'(2) c])
  show "rely J v (tick v')" using v'(1) rely_tick by (blast intro: rely_trans)
  show "vinv J v'" by (rule v'(2))
qed

lemma later_put:
  assumes "json_ok J" "later J v v'" "holds J v (Store a)"
  shows "rely J v (after_put v' a)" "vinv J (after_put v' a)"
proof -
  have v': "rely J v v'" "vinv J v'" "may_tick v'" using assms(2) by (auto simp: later_def)
  have c: "holds J v' (Store a)" by (rule relyD [OF v'(1) assms(3)])
  show "rely J v (after_put v' a)" using v'(1) put_view(2) [OF assms(1) v'(2,3) c] by (rule rely_trans)
  show "vinv J (after_put v' a)" by (rule put_view(1) [OF assms(1) v'(2,3) c])
qed

text \<open>What reading the two keys gives.\<close>

lemma found_config:
  assumes "kv_present (vkv v) configKey"
  shows "found J (lookup_key (vkv v) configKey) = Some (vP J v, kv_version (vkv v) configKey)"
  using assms by (simp add: found_def lookup_key_def kv_Get_reply published_def)

lemma found_next:
  "found J (lookup_key (vkv v) configNextKey) = map_option (\<lambda>n. (n, kv_version (vkv v) configNextKey)) (vN J v)"
  by (simp add: found_def lookup_key_def kv_Get_reply claimed_def)

lemma absent_version: "\<not> kv_present kv k \<Longrightarrow> kv_version kv k = 0"
  by (simp add: kv_present_def kv_version_def)

section \<open>Moving and publishing\<close>

lemma seen_bound:
  assumes v: "vinv J v" and s: "s < NShards" shows "seen (vG v) g s \<le> Num (vP J v) + 1"
proof -
  have "shard_ok (vG v) (vP J v) (vN J v) (vT v) s" by (rule vinvD(5) [OF v s])
  then consider "idle (vG v) (vP J v) (vT v) s" | "frozen (vG v) (vP J v) (vT v) s" | "vmoved J v s"
    by (auto simp: shard_ok_def)
  then show ?thesis
  proof cases
    case 1
    then have "seen (vG v) g s \<le> Num (vP J v)" by (simp add: idle_def)
    then show ?thesis by simp
  next
    case 2
    then show ?thesis by (cases "g = Shards (vP J v) ! s") (auto simp: frozen_def intro: order_trans)
  next
    case 3
    then show ?thesis by (simp add: moved_def)
  qed
qed

text \<open>A group refuses a command as stale only when the configuration it is for was published.\<close>

lemma stale_published:
  assumes v: "vinv J v" and s: "s < NShards" and n: "Num new < seen (vG v) g s"
  shows "holds J v (Publishable new)"
  using seen_bound [OF v s, of g] n by simp

lemma Moving_all: "holds J v (Moving old new ss) \<Longrightarrow> holds J v (Moving old new [0..<NShards])"
  by auto

lemma Moving_skip: "holds J v (Moving old new (s # ss)) \<Longrightarrow> Shards old ! s = Shards new ! s \<Longrightarrow> holds J v (Moving old new ss)"
  by auto

lemma Moving_done: "holds J v (Moving old new []) \<Longrightarrow> holds J v (Publishable new)"
  by (auto simp: all_moved_def)
declare holds.simps [simp del]

definition freeze_of :: "ShardConfig \<Rightarrow> Tshid \<Rightarrow> shReq" where
  "freeze_of new s = ShFreeze \<lparr>fzShard = s, fzNum = Num new\<rparr>"

definition install_of :: "ShardConfig \<Rightarrow> Tshid \<Rightarrow> shardBytes \<Rightarrow> shReq" where
  "install_of new s b = ShInstall \<lparr>inShard = s, inState = b, inNum = Num new\<rparr>"

definition delete_of :: "ShardConfig \<Rightarrow> Tshid \<Rightarrow> shReq" where
  "delete_of new s = ShDelete \<lparr>dlShard = s, dlNum = Num new\<rparr>"

lemmas cmd_of = freeze_of_def install_of_def delete_of_def

text \<open>The two situations of a controller that moves shards: its configuration is the claimed one or old.\<close>

lemma MovingD:
  assumes "holds J v (Moving old new ss)"
  obtains (current) "Num new = Num (vP J v) + 1" "vN J v = Some new" "old = vP J v"
      "\<And>s. s < NShards \<Longrightarrow> s \<notin> set ss \<Longrightarrow> Shards old ! s \<noteq> Shards new ! s \<Longrightarrow> vmoved J v s"
    | (past) "Num new \<le> Num (vP J v)" "all_past (vG v) old new"
  using assms by (auto simp: holds.simps)

lemma freeze_call:
  assumes M: "holds J v (Moving old new ss)" and s: "s < NShards" "Shards old ! s \<noteq> Shards new ! s"
  shows "holds J v (Call (Shards old ! s) (freeze_of new s))"
  using M
proof (cases rule: MovingD)
  case current
  then show ?thesis using s inflightI [OF current(1,2), of s] by (simp add: holds.simps cmd_of)
next
  case past
  then show ?thesis using s by (simp add: holds.simps cmd_of all_past_def)
qed

lemma install_call:
  assumes M: "holds J v (Moving old new ss)" and s: "s < NShards" "Shards old ! s \<noteq> Shards new ! s"
    and v: "vinv J v" and n: "Num new \<le> seen (vG v) (Shards old ! s) s"
    and b: "b = Some (held (vG v) (Shards old ! s) s)"
  shows "holds J v (Call (Shards new ! s) (install_of new s b))"
  using M
proof (cases rule: MovingD)
  case current
  have f: "inflight (vP J v) (vN J v) s" using inflightI [OF current(1,2), of s] s(2) current(3) by simp
  have "\<not> idle (vG v) (vP J v) (vT v) s"
  proof
    assume "idle (vG v) (vP J v) (vT v) s"
    then have "seen (vG v) (Shards old ! s) s \<le> Num (vP J v)" by (simp add: idle_def)
    then show False using n current(1) by simp
  qed
  then have "vmoved J v s \<or> frozen (vG v) (vP J v) (vT v) s \<and> b = Some (part_of (vT v) s)"
    using vinvD(5) [OF v s(1)] b current(3) by (auto simp: shard_ok_def frozen_def)
  then show ?thesis using s(1) f current by (auto simp: holds.simps cmd_of new_owner_def)
next
  case past
  then show ?thesis using s by (simp add: holds.simps cmd_of all_past_def)
qed

lemma delete_call:
  assumes M: "holds J v (Moving old new ss)" and s: "s < NShards" "Shards old ! s \<noteq> Shards new ! s"
    and v: "vinv J v" and n: "Num new \<le> seen (vG v) (Shards new ! s) s"
  shows "holds J v (Call (Shards old ! s) (delete_of new s))"
  using M
proof (cases rule: MovingD)
  case current
  have f: "inflight (vP J v) (vN J v) s" using inflightI [OF current(1,2), of s] s(2) current(3) by simp
  have "\<not> seen (vG v) (Shards new ! s) s \<le> Num (vP J v)" using n current(1) by simp
  moreover have "idle (vG v) (vP J v) (vT v) s \<or> frozen (vG v) (vP J v) (vT v) s \<Longrightarrow>
      seen (vG v) (Shards new ! s) s \<le> Num (vP J v)"
    using s(2) current(3) by (metis frozen_def idle_def)
  ultimately have "vmoved J v s" using vinvD(5) [OF v s(1)] by (auto simp: shard_ok_def)
  then show ?thesis using s(1) f current by (auto simp: holds.simps cmd_of)
next
  case past
  then show ?thesis using s by (simp add: holds.simps cmd_of all_past_def)
qed

lemma deleted_moving:
  assumes M: "holds J v (Moving old new (s # ss))"
    and d: "holds J v (Call (Shards old ! s) (delete_of new s))"
  shows "holds J v (Moving old new ss)"
  using M
proof (cases rule: MovingD)
  case current
  then have "vmoved J v s" using d by (auto simp: holds.simps cmd_of)
  then show ?thesis using M current by (auto simp: holds.simps)
next
  case past
  then show ?thesis using M by (auto simp: holds.simps)
qed

lemma freeze_reply:
  "snd (sg_freeze st \<lparr>fzShard = s, fzNum = n\<rparr>) =
     (if n < shNum st ! s then \<lparr>frState = None, frNum = shNum st ! s, frErr = ErrStale\<rparr>
      else \<lparr>frState = Some (shShards st ! s), frNum = n, frErr = Rpc OK\<rparr>)"
  by (simp add: sg_freeze_def encodeShard_def Let_def)

lemma install_reply:
  "snd (sg_install st \<lparr>inShard = s, inState = b, inNum = n\<rparr>) = (if n < shNum st ! s then ErrStale else Rpc OK)"
  by (simp add: sg_install_def Let_def)

lemma delete_reply:
  "snd (sg_delete st \<lparr>dlShard = s, dlNum = n\<rparr>) = (if n < shNum st ! s then ErrStale else Rpc OK)"
  by (simp add: sg_delete_def Let_def)

text \<open>The two groups of a move exist.\<close>

lemma Moving_groups:
  assumes "holds J v (Moving old new ss)" "s < NShards"
  shows "map_of (Groups old) (Shards old ! s) \<noteq> None" "map_of (Groups new) (Shards new ! s) \<noteq> None"
  using assms map_of_gids [of old "Shards old ! s"] map_of_gids [of new "Shards new ! s"]
  by (auto simp: holds.simps cfg_ok_def assigned_def subset_iff)

definition moved_post :: "json \<Rightarrow> ShardConfig \<Rightarrow> ShardConfig \<Rightarrow> bool \<Rightarrow> view \<Rightarrow> bool" where
  "moved_post J old new ok v \<longleftrightarrow>
     holds J v (Moving old new [0..<NShards]) \<and> (ok \<longrightarrow> holds J v (Publishable new))"

lemma moved_post_stale:
  assumes "holds J v (Moving old new ss)" "vinv J v" "s < NShards" "Num new < seen (vG v) g s" "rely J v v'"
  shows "moved_post J old new True v'"
  using Moving_all [OF assms(1)] stale_published [OF assms(2-4)] relyD [OF assms(5)]
  by (simp add: moved_post_def)
lemma moved_post_fail: "holds J v (Moving old new ss) \<Longrightarrow> rely J v v' \<Longrightarrow> moved_post J old new False v'"
  using Moving_all relyD by (simp add: moved_post_def)

text \<open>The three calls for one shard, the last first.\<close>

lemma wp_delete:
  assumes M: "holds J v (Moving old new (s # ss))" and s: "s < NShards"
    and c: "holds J v (Call (Shards old ! s) (delete_of new s))"
    and rest: "\<And>v. holds J v (Moving old new ss) \<Longrightarrow> wp J (moved_post J old new) p v"
  shows "wp J (moved_post J old new)
     (AskDelete (Shards old ! s) \<lparr>dlShard = s, dlNum = Num new\<rparr> (\<lambda>err.
        if err = ErrStale then Ret True else if err = ErrUnreachable then Ret False else p)) v"
proof -
  have "moved_post J old new False (tick v') \<and>
      (if Num new < seen (vG v') (Shards old ! s) s then moved_post J old new True (tick (after_cmd v' (Shards old ! s) (delete_of new s)))
       else wp J (moved_post J old new) p (tick (after_cmd v' (Shards old ! s) (delete_of new s))))"
    if l: "later J v v'" for v'
  proof -
    note r = later_cmd [OF l c]
    let ?w = "tick (after_cmd v' (Shards old ! s) (delete_of new s))"
    have v': "rely J v v'" "vinv J v'" using l by (auto simp: later_def)
    have "rely J v' ?w" using cmd_view(2) [OF v'(2) relyD [OF v'(1) c]] rely_tick by (rule rely_trans)
    then show ?thesis
      using moved_post_fail [OF M r(3)] moved_post_stale [OF relyD [OF v'(1) M] v'(2) s]
        rest [OF relyD [OF r(1) deleted_moving [OF M c]]] by simp
  qed
  then show ?thesis using c by (simp add: delete_reply flip: delete_of_def)
qed

lemma wp_install:
  assumes M: "holds J v (Moving old new (s # ss))" and s: "s < NShards" "Shards old ! s \<noteq> Shards new ! s"
    and c: "holds J v (Call (Shards new ! s) (install_of new s b))"
    and rest: "\<And>v. holds J v (Moving old new (s # ss)) \<Longrightarrow>
      holds J v (Call (Shards old ! s) (delete_of new s)) \<Longrightarrow> wp J (moved_post J old new) p v"
  shows "wp J (moved_post J old new)
     (AskInstall (Shards new ! s) \<lparr>inShard = s, inState = b, inNum = Num new\<rparr> (\<lambda>err.
        if err = ErrStale then Ret True else if err = ErrUnreachable then Ret False else p)) v"
proof -
  have "moved_post J old new False (tick v') \<and>
      (if Num new < seen (vG v') (Shards new ! s) s then moved_post J old new True (tick (after_cmd v' (Shards new ! s) (install_of new s b)))
       else wp J (moved_post J old new) p (tick (after_cmd v' (Shards new ! s) (install_of new s b))))"
    if l: "later J v v'" for v'
  proof -
    note r = later_cmd [OF l c]
    let ?x = "after_cmd v' (Shards new ! s) (install_of new s b)"
    have v': "rely J v v'" "vinv J v'" using l by (auto simp: later_def)
    have x: "rely J v' ?x" by (rule cmd_view(2) [OF v'(2) relyD [OF v'(1) c]])
    have "seen (vG ?x) (Shards new ! s) s = max (Num new) (seen (vG v') (Shards new ! s) s)"
      using install_effect(1) [of "vG v'" "Shards new ! s" "\<lparr>inShard = s, inState = b, inNum = Num new\<rparr>"]
        vinvD(1) [OF v'(2)] s(1) by (simp add: install_of_def)
    then have "holds J ?x (Call (Shards old ! s) (delete_of new s))"
      by (intro delete_call [OF relyD [OF x relyD [OF v'(1) M]] s r(2)]) simp
    then have "wp J (moved_post J old new) p (tick ?x)"
      by (intro rest relyD [OF r(1) M] relyD [OF rely_tick])
    then show ?thesis
      using moved_post_fail [OF M r(3)] moved_post_stale [OF relyD [OF v'(1) M] v'(2) s(1)] rely_trans [OF x rely_tick]
      by simp
  qed
  then show ?thesis using c by (simp add: install_reply flip: install_of_def)
qed

lemma wp_freeze:
  assumes M: "holds J v (Moving old new (s # ss))" and s: "s < NShards" "Shards old ! s \<noteq> Shards new ! s"
    and rest: "\<And>v b. holds J v (Moving old new (s # ss)) \<Longrightarrow>
      holds J v (Call (Shards new ! s) (install_of new s b)) \<Longrightarrow> wp J (moved_post J old new) (p b) v"
  shows "wp J (moved_post J old new)
     (AskFreeze (Shards old ! s) \<lparr>fzShard = s, fzNum = Num new\<rparr> (\<lambda>(state, err).
        if err = ErrStale then Ret True else if err = ErrUnreachable then Ret False else p state)) v"
proof -
  note c = freeze_call [OF M s]
  have "moved_post J old new False (tick v') \<and>
      (if Num new < seen (vG v') (Shards old ! s) s then moved_post J old new True (tick (after_cmd v' (Shards old ! s) (freeze_of new s)))
       else wp J (moved_post J old new) (p (Some (held (vG v') (Shards old ! s) s))) (tick (after_cmd v' (Shards old ! s) (freeze_of new s))))"
    if l: "later J v v'" for v'
  proof -
    note r = later_cmd [OF l c]
    let ?x = "after_cmd v' (Shards old ! s) (freeze_of new s)" and ?b = "Some (held (vG v') (Shards old ! s) s)"
    have v': "rely J v v'" "vinv J v'" using l by (auto simp: later_def)
    have x: "rely J v' ?x" by (rule cmd_view(2) [OF v'(2) relyD [OF v'(1) c]])
    note e = freeze_effect [of "vG v'" "Shards old ! s" "\<lparr>fzShard = s, fzNum = Num new\<rparr>", OF vinvD(1) [OF v'(2)]]
    have "seen (vG ?x) (Shards old ! s) s = max (Num new) (seen (vG v') (Shards old ! s) s)"
        "held (vG ?x) (Shards old ! s) s = held (vG v') (Shards old ! s) s"
      using e(1,3) s(1) by (simp_all add: freeze_of_def)
    then have "holds J ?x (Call (Shards new ! s) (install_of new s ?b))"
      by (intro install_call [OF relyD [OF x relyD [OF v'(1) M]] s r(2)]) simp_all
    then have "wp J (moved_post J old new) (p ?b) (tick ?x)"
      by (intro rest relyD [OF r(1) M] relyD [OF rely_tick])
    then show ?thesis
      using moved_post_fail [OF M r(3)] moved_post_stale [OF relyD [OF v'(1) M] v'(2) s(1)] rely_trans [OF x rely_tick]
      by simp
  qed
  then show ?thesis using c by (simp add: freeze_reply Let_def flip: freeze_of_def)
qed

lemma wp_move_shards:
  "holds J v (Moving old new ss) \<Longrightarrow> set ss \<subseteq> {..<NShards} \<Longrightarrow>
   wp J (moved_post J old new) (move_shards old new ss) v"
proof (induction ss arbitrary: v)
  case Nil
  then show ?case using Moving_all Moving_done by (simp add: moved_post_def)
next
  case (Cons s ss)
  have s: "s < NShards" "set ss \<subseteq> {..<NShards}" using Cons.prems(2) by auto
  show ?case
  proof (cases "Shards old ! s = Shards new ! s")
    case True
    then show ?thesis using Cons.IH [OF Moving_skip [OF Cons.prems(1) True] s(2)] by simp
  next
    case False
    have "wp J (moved_post J old new) (move_shards old new ss) v" if "holds J v (Moving old new ss)" for v
      by (rule Cons.IH [OF that s(2)])
    note rest = this
    have "move_shards old new (s # ss) =
      AskFreeze (Shards old ! s) \<lparr>fzShard = s, fzNum = Num new\<rparr> (\<lambda>(state, err).
        if err = ErrStale then Ret True else if err = ErrUnreachable then Ret False else
      AskInstall (Shards new ! s) \<lparr>inShard = s, inState = state, inNum = Num new\<rparr> (\<lambda>err.
        if err = ErrStale then Ret True else if err = ErrUnreachable then Ret False else
      AskDelete (Shards old ! s) \<lparr>dlShard = s, dlNum = Num new\<rparr> (\<lambda>err.
        if err = ErrStale then Ret True else if err = ErrUnreachable then Ret False else
      move_shards old new ss)))"
      using False Moving_groups [OF Cons.prems(1) s(1)] unfolding move_shards.simps Let_def
      by (simp only: if_True if_False not_False_eq_True simp_thms)
    then show ?thesis
      by (simp only:) (intro wp_freeze [OF Cons.prems(1) s(1) False] wp_install [OF _ s(1) False]
        wp_delete [OF _ s(1)] rest)
  qed
qed
section \<open>The operations of the controller\<close>

lemma cfgString_inject: "json_ok J \<Longrightarrow> cfgString J c = cfgString J d \<longleftrightarrow> c = d"
  by (metis cfgString_def json_ok_def)

lemma laterD:
  assumes "later J v v'" shows "vinv J v'" "rely J v (tick v')" "kv_present (vkv v') configKey"
    "holds J v f \<Longrightarrow> holds J v' f" "holds J v f \<Longrightarrow> holds J (tick v') f"
  using assms vinvD(3) [of J v'] rely_tick [of J v']
  by (auto simp: later_def dest: relyD intro: rely_trans)

lemma wp_moveUntilDone:
  "holds J v (Moving old new [0..<NShards]) \<Longrightarrow>
   wp J (\<lambda>ok v. ok \<longrightarrow> holds J v (Publishable new)) (moveUntilDone J fuel old new) v"
proof (induction fuel arbitrary: v)
  case (Suc fuel)
  have "wp J (moved_post J old new) (moveTo old new) v"
    unfolding moveTo_def by (rule wp_move_shards [OF Suc.prems]) auto
  then have "wp J (\<lambda>ok. wp J (\<lambda>ok v. ok \<longrightarrow> holds J v (Publishable new))
      (if ok then Ret True
       else andThen (readConfig J) (\<lambda>r.
         if (case r of None \<Rightarrow> False | Some (cur2, _) \<Rightarrow> Num cur2 \<ge> Num new) then Ret False
         else moveUntilDone J fuel old new))) (moveTo old new) v"
  proof (rule wp_conseq)
    fix ok v assume p: "moved_post J old new ok v"
    have "wp J (\<lambda>ok v. ok \<longrightarrow> holds J v (Publishable new)) (moveUntilDone J fuel old new) (tick v')"
      if "later J v v'" for v'
      using p by (intro Suc.IH laterD(5) [OF that]) (simp add: moved_post_def)
    then show "wp J (\<lambda>ok v. ok \<longrightarrow> holds J v (Publishable new))
      (if ok then Ret True
       else andThen (readConfig J) (\<lambda>r.
         if (case r of None \<Rightarrow> False | Some (cur2, _) \<Rightarrow> Num cur2 \<ge> Num new) then Ret False
         else moveUntilDone J fuel old new)) v"
      using p by (auto simp: readConfig_then found_config laterD moved_post_def)
  qed
  then show ?case by (simp only: moveUntilDone.simps) (rule wp_andThen)
qed simp

lemma wp_publish:
  assumes J: "json_ok J"
  shows "holds J v (Publishable new) \<Longrightarrow> wp J (\<lambda>_ _. True) (publish J fuel new) v"
proof (induction fuel arbitrary: v)
  case (Suc fuel)
  let ?a = "\<lambda>ver. \<lparr>putKey = configKey, putValue = cfgString J new, putVersion = ver\<rparr>"
  have "holds J (tick v') (Store (?a (kv_version (vkv v') configKey)))"
    if l: "later J v v'" and n: "\<not> Num new \<le> Num (vP J v')" for v'
  proof -
    have "holds J v' (Publishable new)" by (rule laterD(4) [OF l Suc.prems])
    then have "holds J v' (Store (?a (kv_version (vkv v') configKey)))" using n by (auto simp: holds.simps)
    then show ?thesis by (rule relyD [OF rely_tick])
  qed
  moreover have "wp J (\<lambda>_ _. True) (publish J fuel new) (after_put v'' a)"
    if l: "later J v v'" and l': "later J (tick v') v''" and a: "holds J (tick v') (Store a)" for v' v'' a
    by (rule Suc.IH) (rule relyD [OF later_put(1) [OF J l' a] laterD(5) [OF l Suc.prems]])
  ultimately show ?case
    by (auto simp: readConfig_then found_config laterD)
qed simp

lemma wp_claim:
  assumes J: "json_ok J" and w: "holds J v (Wanted new)"
  shows "wp J (\<lambda>ok v. ok \<longrightarrow> holds J v (Claimed new)) (claim J new) v"
proof -
  let ?Q = "\<lambda>ok v. ok \<longrightarrow> holds J v (Claimed new)"
  let ?a = "\<lambda>ver. \<lparr>putKey = configNextKey, putValue = cfgString J new, putVersion = ver\<rparr>"
  have landed: "wp J ?Q (claimLanded J new) v" if "holds J v (Wanted new)" for v
  proof -
    have "holds J v' (Claimed new)"
      if "later J v v'" and r: "lookup_key (vkv v') configNextKey = (cfgString J new, ver, OK)" for v' ver
    proof -
      have "vN J v' = Some new" using found_next [of J v'] r J
        by (cases "vN J v'") (auto simp: found_def cfgString_def FromString_def json_ok_def)
      then show ?thesis using laterD(4) [OF that(1) \<open>holds J v (Wanted new)\<close>] by (auto simp: holds.simps)
    qed
    then show ?thesis by (auto simp: claimLanded_def intro: relyD [OF rely_tick] split: prod.splits)
  qed
  have ask: "wp J ?Q (AskPut (?a (kv_version (vkv v') configNextKey)) (\<lambda>err.
       if err = OK then Ret True else if err = ErrMaybe then claimLanded J new else Ret False)) (tick v')"
    if l: "later J v v'" and n: "\<forall>n. vN J v' = Some n \<longrightarrow> Num n < Num new" for v'
  proof -
    let ?b = "?a (kv_version (vkv v') configNextKey)"
    have "holds J v' (Wanted new)" by (rule laterD(4) [OF l w])
    then have "holds J v' (Store ?b)" using n by (auto simp: holds.simps unclaimed_def)
    then have b: "holds J (tick v') (Store ?b)" by (rule relyD [OF rely_tick])
    have "holds J (after_put v'' ?b) (Claimed new)"
      if l': "later J (tick v') v''" and ok: "snd (kv_Put (vkv v'') ?b) = OK" for v''
    proof -
      have "holds J v'' (Store ?b)" using l' b by (auto simp: later_def dest: relyD)
      moreover have "kv_version (vkv v'') configNextKey = kv_version (vkv v') configNextKey"
        using kv.put_ok [of "vkv v''" ?b] ok by simp
      ultimately have "unclaimed J v'' new"
        by (auto simp: holds.simps cfgString_inject [OF J])
      then show ?thesis using l' ok J by (intro claim_view(3)) (auto simp: later_def)
    qed
    moreover have "wp J ?Q (claimLanded J new) (after_put v'' ?b)" if "later J (tick v') v''" for v''
      by (rule landed) (rule relyD [OF later_put(1) [OF J that b] laterD(5) [OF l w]])
    ultimately show ?thesis using b by (auto simp: put_answers_def)
  qed
  show ?thesis unfolding claim_def readConfigNext_then wp.simps
  proof (intro allI impI)
    fix v' assume l: "later J v v'"
    show "wp J ?Q (if case found J (lookup_key (vkv v') configNextKey) of None \<Rightarrow> False | Some (nxt, _) \<Rightarrow> Num new \<le> Num nxt
        then Ret False
        else let ver = case found J (lookup_key (vkv v') configNextKey) of None \<Rightarrow> 0 | Some (_, ver) \<Rightarrow> ver
             in AskPut (?a ver) (\<lambda>err. if err = OK then Ret True else if err = ErrMaybe then claimLanded J new else Ret False))
        (tick v')"
    proof (cases "vN J v'")
      case None
      then have "kv_version (vkv v') configNextKey = 0"
        by (intro absent_version) (simp add: claimed_def split: if_splits)
      then show ?thesis using ask [OF l] None by (simp add: found_next del: wp.simps(7))
    next
      case (Some n)
      then show ?thesis using ask [OF l]
        by (cases "Num new \<le> Num n") (simp_all add: found_next del: wp.simps(7))
    qed
  qed
qed
lemma wp_finish:
  assumes J: "json_ok J" and M: "holds J v (Moving old new [0..<NShards])"
  shows "wp J (\<lambda>_ _. True) (finish J fuel old new) v"
  unfolding finish_def
proof (rule wp_andThen, rule wp_conseq [OF wp_moveUntilDone [OF M]])
  fix ok v assume "ok \<longrightarrow> holds J v (Publishable new)"
  then show "wp J (\<lambda>_ _. True) (if ok then publish J fuel new else Ret ()) v"
    using wp_publish [OF J] by simp
qed

lemma Moving_start:
  assumes "vinv J v" "vN J v = Some new" "Num new = Num (vP J v) + 1"
  shows "holds J v (Moving (vP J v) new [0..<NShards])"
  using assms vinvD(2,4) [OF assms(1)] by (simp add: holds.simps)

lemma wp_ChangeConfigTo:
  assumes J: "json_ok J" and w: "holds J v (Wanted new)"
  shows "wp J (\<lambda>_ _. True) (ChangeConfigTo J fuel new) v"
proof -
  let ?go = "\<lambda>ok. if \<not> ok then Ret ()
     else andThen (readConfig J) (\<lambda>r. case r of
         None \<Rightarrow> Ret ()
       | Some (cur, _) \<Rightarrow> if Num new \<le> Num cur then Ret () else finish J fuel cur new)"
  have go: "wp J (\<lambda>_ _. True) (?go ok) v" if c: "ok \<longrightarrow> holds J v (Claimed new)" for ok v
  proof -
    have "wp J (\<lambda>_ _. True) (finish J fuel (vP J v') new) (tick v')"
      if l: "later J v v'" and ok "\<not> Num new \<le> Num (vP J v')" for v'
    proof -
      have "holds J v' (Claimed new)" using laterD(4) [OF l] c that(2) by blast
      then have "vN J v' = Some new" "Num new = Num (vP J v') + 1" using that(3) by (auto simp: holds.simps)
      then show ?thesis by (intro wp_finish [OF J] relyD [OF rely_tick] Moving_start laterD(1) [OF l])
    qed
    then show ?thesis by (auto simp: readConfig_then found_config laterD)
  qed
  have "wp J (\<lambda>_ _. True) (andThen (claim J new) ?go) (tick v')" if l: "later J v v'" for v'
    by (rule wp_andThen, rule wp_conseq [OF wp_claim [OF J laterD(5) [OF l w]]], rule go)
  then show ?thesis by (auto simp: ChangeConfigTo_def readConfig_then found_config laterD)
qed

text \<open>A recovering controller after its first read.\<close>

definition recover_second :: "json \<Rightarrow> nat \<Rightarrow> ShardConfig \<Rightarrow> unit prog" where
  "recover_second J fuel cur =
     andThen (readConfigNext J) (\<lambda>r.
       case r of
         None \<Rightarrow> Ret ()
       | Some (nxt, _) \<Rightarrow> if Num nxt \<le> Num cur then Ret () else finish J fuel cur nxt)"

lemma InitController_reads:
  "InitController J fuel = AskGet configKey (\<lambda>r.
     case found J r of None \<Rightarrow> Ret () | Some (cur, _) \<Rightarrow> recover_second J fuel cur)"
  unfolding InitController_def readConfig_then recover_second_def ..

lemma recover_reads:
  assumes J: "json_ok J" and v: "vinv J v" and k: "holds J v (Known cur)" and n: "Num (vP J v) = Num cur"
  shows "wp J (\<lambda>_ _. True) (case found J (lookup_key (vkv v) configNextKey) of
       None \<Rightarrow> Ret ()
     | Some (nxt, _) \<Rightarrow> if Num nxt \<le> Num cur then Ret () else finish J fuel cur nxt) (tick v)"
proof (cases "vN J v")
  case (Some nxt)
  have cur: "cur = vP J v" using k n by (simp add: holds.simps)
  have "wp J (\<lambda>_ _. True) (finish J fuel cur nxt) (tick v)" if "\<not> Num nxt \<le> Num cur"
  proof -
    have "Num nxt = Num (vP J v) + 1" using vinvD(4) [OF v Some] that n by simp
    then show ?thesis unfolding cur by (intro wp_finish [OF J] relyD [OF rely_tick] Moving_start [OF v Some])
  qed
  then show ?thesis using Some by (simp add: found_next)
qed (simp add: found_next)

section \<open>The invariant of the system\<close>

definition view_of :: "shsys \<Rightarrow> nat \<Rightarrow> view" where
  "view_of st k = \<lparr>vkv = store st, vG = grp st, vT = final_server MakeKVServer (history st), vclock = k\<rparr>"

definition proc_ok :: "json \<Rightarrow> stage \<Rightarrow> unit prog \<Rightarrow> view \<Rightarrow> bool" where
  "proc_ok J stg p v \<longleftrightarrow>
     (case stg of
        Working \<Rightarrow> wp J (\<lambda>_ _. True) p v
      | FirstRead \<Rightarrow> \<exists>fuel. p = InitController J fuel
      | SecondRead n \<Rightarrow> \<exists>fuel cur. Num cur = n \<and> holds J v (Known cur) \<and> p = recover_second J fuel cur)"

definition sh_inv :: "json \<Rightarrow> fact set \<Rightarrow> shsys \<Rightarrow> nat \<Rightarrow> bool" where
  "sh_inv J F st k \<longleftrightarrow> vinv J (view_of st k) \<and> (\<forall>i. proc_ok J (stages st i) (procs st i) (view_of st k)) \<and>
     (\<forall>(g, q) \<in> set (sentG st). holds J (view_of st k) (Call g q)) \<and>
     (\<forall>a \<in> set (sentK st). holds J (view_of st k) (Store a)) \<and>
     one_server MakeKVServer (history st) \<and> (\<forall>f \<in> F. holds J (view_of st k) f)"

text \<open>(The facts \<open>F\<close> are any that hold somewhere and are followed through the run.)\<close>

lemma proc_ok_stable: "proc_ok J stg p v \<Longrightarrow> rely J v v' \<Longrightarrow> proc_ok J stg p v'"
  by (auto simp: proc_ok_def split: stage.splits intro: wp_stable dest: relyD)

text \<open>A turn of a program that behaves.\<close>

lemma turn_call_view:
  assumes J: "json_ok J" and v: "vinv J v" and t: "may_tick v" and p: "wp J (\<lambda>_ _. True) p v"
    and c: "turn_call out (vkv v, vG v) p = ((kv', G'), p')"
  shows "\<exists>v'. vkv v' = kv' \<and> vG v' = G' \<and> vT v' = vT v \<and> vclock v' = Suc (vclock v) \<and>
    vinv J v' \<and> rely J v v' \<and> wp J (\<lambda>_ _. True) p' v'"
proof -
  have l: "later J v v" using v t by (simp add: later_def)
  note tk = vinv_tick [OF v t] rely_tick [of J v]
  have cmd: "vinv J (tick (after_cmd v g q))" "rely J v (tick (after_cmd v g q))" if "holds J v (Call g q)" for g q
  proof -
    show "vinv J (tick (after_cmd v g q))"
      using vinv_tick [OF cmd_view(1) [OF v that]] t by (simp add: may_tick_def)
    show "rely J v (tick (after_cmd v g q))" using cmd_view(2) [OF v that] rely_tick by (rule rely_trans)
  qed
  show ?thesis
  proof (cases p)
    case (AskFreeze g a k)
    have h: "holds J v (Call g (ShFreeze a))" "fzShard a < NShards" using p AskFreeze by (auto simp: holds.simps)
    show ?thesis
    proof (cases out)
      case Answered
      then show ?thesis using c p AskFreeze h cmd [OF h(1)] l
        by (intro exI [of _ "tick (after_cmd v g (ShFreeze a))"])
          (auto simp: turn_call_def case_prod_beta Let_def)
    next
      case Failed
      then show ?thesis using c p AskFreeze tk l by (intro exI [of _ "tick v"]) (auto simp: turn_call_def)
    qed
  next
    case (AskInstall g a k)
    have h: "holds J v (Call g (ShInstall a))" "inShard a < NShards" using p AskInstall by (auto simp: holds.simps)
    show ?thesis
    proof (cases out)
      case Answered
      then show ?thesis using c p AskInstall h cmd [OF h(1)] l
        by (intro exI [of _ "tick (after_cmd v g (ShInstall a))"])
          (auto simp: turn_call_def case_prod_beta Let_def)
    next
      case Failed
      then show ?thesis using c p AskInstall tk l by (intro exI [of _ "tick v"]) (auto simp: turn_call_def)
    qed
  next
    case (AskDelete g a k)
    have h: "holds J v (Call g (ShDelete a))" "dlShard a < NShards" using p AskDelete by (auto simp: holds.simps)
    show ?thesis
    proof (cases out)
      case Answered
      then show ?thesis using c p AskDelete h cmd [OF h(1)] l
        by (intro exI [of _ "tick (after_cmd v g (ShDelete a))"])
          (auto simp: turn_call_def case_prod_beta Let_def)
    next
      case Failed
      then show ?thesis using c p AskDelete tk l by (intro exI [of _ "tick v"]) (auto simp: turn_call_def)
    qed
  next
    case (AskGet key k)
    then show ?thesis using c p tk l by (intro exI [of _ "tick v"]) (auto simp: turn_call_def)
  next
    case (AskPut a k)
    have h: "holds J v (Store a)" using p AskPut by simp
    show ?thesis using c p AskPut put_view [OF J v t h] l
      by (intro exI [of _ "after_put v a"])
        (auto simp: turn_call_def put_answers_def case_prod_beta Let_def)
  next
    case (Ret x)
    then show ?thesis using c tk by (intro exI [of _ "tick v"]) (auto simp: turn_call_def)
  next
    case Halt
    then show ?thesis using c tk by (intro exI [of _ "tick v"]) (auto simp: turn_call_def)
  qed
qed
text \<open>One event: the view moves on, and what is new is in order.\<close>

lemma sh_invI:
  assumes i: "sh_inv J F st k" and v: "vinv J (view_of st' (Suc k))" and r: "rely J (view_of st k) (view_of st' (Suc k))"
    and p: "\<And>j. stages st' j = stages st j \<and> procs st' j = procs st j \<or>
      proc_ok J (stages st' j) (procs st' j) (view_of st' (Suc k))"
    and g: "\<And>g q. (g, q) \<in> set (sentG st') \<Longrightarrow> (g, q) \<in> set (sentG st) \<or> holds J (view_of st k) (Call g q)"
    and s: "\<And>a. a \<in> set (sentK st') \<Longrightarrow> a \<in> set (sentK st) \<or> holds J (view_of st k) (Store a)"
    and h: "one_server MakeKVServer (history st')"
  shows "sh_inv J F st' (Suc k)"
  unfolding sh_inv_def
proof (intro conjI allI v h)
  show "proc_ok J (stages st' j) (procs st' j) (view_of st' (Suc k))" for j
    using p [of j] i proc_ok_stable [OF _ r] by (auto simp: sh_inv_def)
  show "\<forall>(g, q) \<in> set (sentG st'). holds J (view_of st' (Suc k)) (Call g q)"
    using g i relyD [OF r] by (fastforce simp: sh_inv_def)
  show "\<forall>a \<in> set (sentK st'). holds J (view_of st' (Suc k)) (Store a)"
    using s i relyD [OF r] by (fastforce simp: sh_inv_def)
  show "\<forall>f \<in> F. holds J (view_of st' (Suc k)) f" using i relyD [OF r] by (simp add: sh_inv_def)
qed

lemma view_of_simps [simp]:
  "vkv (view_of st k) = store st" "vG (view_of st k) = grp st" "vclock (view_of st k) = k"
  "vT (view_of st k) = final_server MakeKVServer (history st)"
  by (simp_all add: view_of_def)

lemma view_eqI:
  "store st = vkv v \<Longrightarrow> grp st = vG v \<Longrightarrow> final_server MakeKVServer (history st) = vT v \<Longrightarrow> vclock v = k \<Longrightarrow>
   view_of st k = v"
  by (simp add: view_of_def)

lemma proc_of: "sh_inv J F st k \<Longrightarrow> proc_ok J (stages st j) (procs st j) (view_of st k)"
  by (simp add: sh_inv_def)

lemma idle_invI:
  assumes i: "sh_inv J F st k" and k: "Suc k < 2 ^ 64 - 1" and e: "view_of st' (Suc k) = tick (view_of st k)"
    and p: "\<And>j. stages st' j = stages st j \<and> procs st' j = procs st j \<or>
      proc_ok J (stages st' j) (procs st' j) (tick (view_of st k))"
    and g: "\<And>g q. (g, q) \<in> set (sentG st') \<Longrightarrow> (g, q) \<in> set (sentG st) \<or> holds J (view_of st k) (Call g q)"
    and s: "\<And>a. a \<in> set (sentK st') \<Longrightarrow> a \<in> set (sentK st) \<or> holds J (view_of st k) (Store a)"
    and h: "history st' = history st"
  shows "sh_inv J F st' (Suc k)"
proof (rule sh_invI [OF i])
  have "vinv J (view_of st k)" "may_tick (view_of st k)" using i k by (simp_all add: sh_inv_def may_tick_def)
  then show "vinv J (view_of st' (Suc k))" "rely J (view_of st k) (view_of st' (Suc k))"
    using vinv_tick rely_tick e by simp_all
  show "one_server MakeKVServer (history st')" using i h by (simp add: sh_inv_def)
qed (use p g s e in simp_all)

lemma turn_inv:
  assumes J: "json_ok J" and i: "sh_inv J F st k" and k: "Suc k < 2 ^ 64 - 1"
    and nr: "\<not> raced (turn_proc J st j out)"
  shows "sh_inv J F (turn_proc J st j out) (Suc k)"
proof -
  let ?v = "view_of st k" and ?st = "turn_proc J st j out"
  have v: "vinv J ?v" and t: "may_tick ?v" using i k by (simp_all add: sh_inv_def may_tick_def)
  have one: "one_server MakeKVServer (history st)" using i by (simp add: sh_inv_def)
  obtain kv' G' p' where c: "turn_call out (vkv ?v, vG ?v) (procs st j) = ((kv', G'), p')" by (metis prod.collapse)
  have st: "?st = st\<lparr>store := kv', grp := G', procs := (procs st)(j := p'),
      stages := (stages st)(j := next_stage J (store st) (stages st j)),
      raced := (raced st \<or> stale_read J (store st) (stages st j))\<rparr>"
    using c by (simp add: turn_proc_def)
  have "\<exists>v'. vkv v' = kv' \<and> vG v' = G' \<and> vT v' = vT ?v \<and> vclock v' = Suc (vclock ?v) \<and>
    vinv J v' \<and> rely J ?v v' \<and> proc_ok J (next_stage J (store st) (stages st j)) p' v'"
  proof (cases "stages st j")
    case Working
    then have "wp J (\<lambda>_ _. True) (procs st j) ?v" using proc_of [OF i, of j] by (simp add: proc_ok_def)
    from turn_call_view [OF J v t this c] Working show ?thesis by (simp add: proc_ok_def next_stage_def)
  next
    case FirstRead
    then obtain fuel where p: "procs st j = InitController J fuel"
      using proc_of [OF i, of j] by (auto simp: proc_ok_def)
    have "p' = recover_second J fuel (vP J ?v)" "kv' = vkv ?v" "G' = vG ?v"
      using c found_config [OF vinvD(3) [OF v], of J]
      unfolding p InitController_reads by (auto simp: turn_call_def)
    moreover have "holds J (tick ?v) (Known (vP J ?v))" by (simp add: holds.simps)
    ultimately show ?thesis using FirstRead vinv_tick [OF v t] rely_tick [of J ?v]
      by (intro exI [of _ "tick ?v"]) (auto simp: proc_ok_def next_stage_def)
  next
    case (SecondRead n)
    then obtain fuel cur where p: "procs st j = recover_second J fuel cur" "Num cur = n" "holds J ?v (Known cur)"
      using proc_of [OF i, of j] by (auto simp: proc_ok_def)
    have n: "Num (vP J ?v) = Num cur" using nr st SecondRead p(2) by (simp add: stale_read_def)
    have "p' = (case found J (lookup_key (vkv ?v) configNextKey) of
       None \<Rightarrow> Ret ()
     | Some (nxt, _) \<Rightarrow> if Num nxt \<le> Num cur then Ret () else finish J fuel cur nxt)" "kv' = vkv ?v" "G' = vG ?v"
      using c unfolding p(1) recover_second_def readConfigNext_then by (auto simp: turn_call_def)
    then show ?thesis using recover_reads [OF J v p(3) n, of fuel] SecondRead vinv_tick [OF v t] rely_tick [of J ?v]
      by (intro exI [of _ "tick ?v"]) (auto simp: proc_ok_def next_stage_def)
  qed
  then obtain v' where v': "vkv v' = kv'" "vG v' = G'" "vT v' = vT ?v" "vclock v' = Suc k"
      "vinv J v'" "rely J ?v v'" "proc_ok J (next_stage J (store st) (stages st j)) p' v'" by auto
  have e: "view_of ?st (Suc k) = v'" using v' st by (intro view_eqI) simp_all
  have "stages ?st j' = stages st j' \<and> procs ?st j' = procs st j' \<or>
      proc_ok J (stages ?st j') (procs ?st j') (view_of ?st (Suc k))" for j'
    unfolding e using st v'(7) by (cases "j' = j") simp_all
  moreover have "vinv J (view_of ?st (Suc k))" "rely J ?v (view_of ?st (Suc k))" unfolding e by (fact v')+
  ultimately show ?thesis by (intro sh_invI [OF i]) (use one st in auto)
qed

lemma begin_inv:
  assumes J: "json_ok J" and i: "sh_inv J F st k" and k: "Suc k < 2 ^ 64 - 1"
  shows "sh_inv J F (begin_proc J st j cmd fuel) (Suc k)"
proof -
  let ?v = "view_of st k" and ?st = "begin_proc J st j cmd fuel"
  have e: "view_of ?st (Suc k) = tick ?v"
    by (intro view_eqI) (simp_all add: begin_proc_def split: command.split)
  have w: "wp J (\<lambda>_ _. True) (ChangeConfigTo J fuel new) (tick ?v)" if "may_begin J (store st) (ChangeTo new)" for new
    using that by (intro wp_ChangeConfigTo [OF J]) (simp add: may_begin_def holds.simps)
  show ?thesis
    by (rule idle_invI [OF i k e]) (use w in \<open>auto simp: begin_proc_def proc_ok_def split: command.splits if_splits\<close>)
qed

lemma send_inv:
  assumes i: "sh_inv J F st k" and k: "Suc k < 2 ^ 64 - 1" and stg: "stages st j = Working \<or> send_proc st j = st"
  shows "sh_inv J F (send_proc st j) (Suc k)"
proof -
  let ?v = "view_of st k" and ?st = "send_proc st j"
  have e: "view_of ?st (Suc k) = tick ?v"
    by (intro view_eqI) (simp_all add: send_proc_def split: prog.split)
  have w: "wp J (\<lambda>_ _. True) (procs st j) ?v" if "stages st j = Working"
    using proc_of [OF i, of j] that by (simp add: proc_ok_def)
  show ?thesis
  proof (cases "stages st j = Working")
    case True
    then show ?thesis
      by (intro idle_invI [OF i k e]) (use w in \<open>auto simp: send_proc_def split: prog.splits\<close>)
  next
    case False
    then have "?st = st" using stg by blast
    then show ?thesis using idle_invI [OF i k e] by simp
  qed
qed
lemma send_reading:
  assumes "sh_inv J F st k" "stages st j \<noteq> Working" shows "send_proc st j = st"
  using proc_of [OF assms(1), of j] assms(2)
  by (cases "stages st j")
    (auto simp: proc_ok_def send_proc_def InitController_reads recover_second_def readConfigNext_then)

lemma client_inv:
  assumes i: "sh_inv J F st k" and k: "Suc k < 2 ^ 64 - 1"
  shows "sh_inv J F (client_call st g q) (Suc k)"
proof (cases "is_client q")
  case True
  let ?v = "view_of st k" and ?st = "client_call st g q"
  have v: "vinv J ?v" and t: "may_tick ?v" and one: "one_server MakeKVServer (history st)"
    using i k by (simp_all add: sh_inv_def may_tick_def)
  note c = client_view [OF v True, of g]
  obtain r where r: "snd (sg_DoOp (grp st g) q) = Some r" "one_server (vT ?v) [(q, r)]"
    using c(3) by auto
  have st: "?st = st\<lparr>grp := exec_at (grp st) g q, history := history st @ [(q, r)]\<rparr>"
    using True r(1) by (simp add: client_call_def)
  have e: "view_of ?st (Suc k) = tick (after_client ?v g q)"
    using st r(1) by (intro view_eqI) (simp_all add: after_client_def final_server_append)
  have "vinv J (view_of ?st (Suc k))" "rely J ?v (view_of ?st (Suc k))"
    unfolding e using vinv_tick [OF c(1)] t rely_trans [OF c(2) rely_tick]
    by (simp_all add: may_tick_def after_client_def)
  then show ?thesis
    by (rule sh_invI [OF i]) (use st r(2) one in \<open>auto simp: one_server_append\<close>)
next
  case False
  then show ?thesis using i k by (intro idle_invI [OF i k]) (simp_all add: client_call_def view_of_def tick_def)
qed

lemma late_inv:
  assumes i: "sh_inv J F st k" and k: "Suc k < 2 ^ 64 - 1" and q: "(g, q) \<in> set (sentG st)"
  shows "sh_inv J F (st\<lparr>grp := exec_at (grp st) g q\<rparr>) (Suc k)"
proof -
  let ?v = "view_of st k" and ?st = "st\<lparr>grp := exec_at (grp st) g q\<rparr>"
  have v: "vinv J ?v" "may_tick ?v" using i k by (simp_all add: sh_inv_def may_tick_def)
  have c: "holds J ?v (Call g q)" using i q by (auto simp: sh_inv_def)
  note cv = cmd_view [OF v(1) c]
  have e: "view_of ?st (Suc k) = tick (after_cmd ?v g q)" by (intro view_eqI) simp_all
  have "vinv J (view_of ?st (Suc k))" "rely J ?v (view_of ?st (Suc k))"
    unfolding e using vinv_tick [OF cv(1)] v(2) rely_trans [OF cv(2) rely_tick] by (simp_all add: may_tick_def)
  then show ?thesis by (rule sh_invI [OF i]) (use i in \<open>auto simp: sh_inv_def\<close>)
qed

lemma late_put_inv:
  assumes J: "json_ok J" and i: "sh_inv J F st k" and k: "Suc k < 2 ^ 64 - 1" and a: "a \<in> set (sentK st)"
  shows "sh_inv J F (st\<lparr>store := fst (kv_Put (store st) a)\<rparr>) (Suc k)"
proof -
  let ?v = "view_of st k" and ?st = "st\<lparr>store := fst (kv_Put (store st) a)\<rparr>"
  have v: "vinv J ?v" "may_tick ?v" using i k by (simp_all add: sh_inv_def may_tick_def)
  have h: "holds J ?v (Store a)" using i a by (auto simp: sh_inv_def)
  have e: "view_of ?st (Suc k) = after_put ?v a" by (intro view_eqI) simp_all
  have "vinv J (view_of ?st (Suc k))" "rely J ?v (view_of ?st (Suc k))"
    unfolding e using put_view [OF J v h] by simp_all
  then show ?thesis by (rule sh_invI [OF i]) (use i in \<open>auto simp: sh_inv_def\<close>)
qed

lemma raced_mono: "raced st \<Longrightarrow> raced (sh_step J st e)"
  by (cases e) (auto simp: begin_proc_def turn_proc_def send_proc_def client_call_def case_prod_beta
      split: command.split prog.split)

lemma step_inv:
  assumes J: "json_ok J" and i: "sh_inv J F st k" and k: "Suc k < 2 ^ 64 - 1" and nr: "\<not> raced (sh_step J st e)"
  shows "sh_inv J F (sh_step J st e) (Suc k)"
proof (cases e)
  case (LateG g q)
  then show ?thesis using late_inv [OF i k] idle_invI [OF i k, of st]
    by (auto simp: view_of_def tick_def)
next
  case (LateK a)
  then show ?thesis using late_put_inv [OF J i k] idle_invI [OF i k, of st]
    by (auto simp: view_of_def tick_def)
next
  case (Send j)
  then show ?thesis using send_inv [OF i k, of j] send_reading [OF i, of j] by auto
qed (use begin_inv [OF J i k] turn_inv [OF J i k] client_inv [OF i k] nr in auto)

text \<open>The first configuration: every shard at the first group, nothing claimed.\<close>

definition start_ok :: "ShardConfig \<Rightarrow> bool" where
  "start_ok c \<longleftrightarrow> Shards c = replicate NShards Gid1 \<and> Gid1 \<in> gids c \<and> 0 \<le> Num c"

lemma init_inv:
  assumes J: "json_ok J" and c: "start_ok c" shows "sh_inv J {} (sh_init J c) 1"
proof -
  let ?st = "sh_init J c"
  let ?a = "\<lparr>putKey = configKey, putValue = cfgString J c, putVersion = 0\<rparr>"
  have ok: "snd (kv_Put MakeKVServer ?a) = OK" by (simp add: kv_Put_def MakeKVServer_def)
  have s: "store ?st = fst (kv_Put MakeKVServer ?a)" by (simp add: sh_init_def Let_def)
  have P: "vP J (view_of ?st 1) = c" using stored(1) [OF ok, of J] s J
    by (simp add: json_ok_def FromString_def cfgString_def)
  have N: "vN J (view_of ?st 1) = None" using stored(2) [OF ok, of J] s
    by (simp add: claimed_def kv_present_def MakeKVServer_def)
  have ver: "kv_version (store ?st) configKey = 1" "kv_version (store ?st) configNextKey = 0" "kv_present (store ?st) configKey"
    using stored(3,4) [OF ok] s by (simp_all add: kv_version_def MakeKVServer_def)
  have cfg: "cfg_ok c" using c by (auto simp: start_ok_def cfg_ok_def assigned_def)
  have "idle sg_init c MakeKVServer t" if "t < NShards" for t
    using that c by (simp add: idle_def start_ok_def sg_init_def part_of_def MakeKVServer_def)
  then have "vinv J (view_of ?st 1)"
    using P N ver cfg sg_init_wf by (auto simp: vinv_def shard_ok_def sh_init_def Let_def)
  moreover have "holds J (view_of ?st 1) (Store ?a)" using ver by (auto simp: holds.simps)
  ultimately show ?thesis by (simp add: sh_inv_def proc_ok_def) (simp add: sh_init_def proc_ok_def Let_def)
qed

lemma run_inv:
  assumes J: "json_ok J"
  shows "sh_inv J F st k \<Longrightarrow> k + length es < 2 ^ 64 - 1 \<Longrightarrow> \<not> raced (sh_run J st es) \<Longrightarrow>
    sh_inv J F (sh_run J st es) (k + length es)"
proof (induction es arbitrary: st k)
  case (Cons e es)
  have mono: "raced st \<Longrightarrow> raced (sh_run J st es)" for st
    by (induction es arbitrary: st) (simp_all add: sh_run_def raced_mono)
  have "sh_inv J F (sh_step J st e) (Suc k)"
    using Cons.prems mono [of "sh_step J st e"] by (intro step_inv [OF J]) (auto simp: sh_run_def)
  from Cons.IH [OF this] Cons.prems show ?case by (simp add: sh_run_def)
qed (simp add: sh_run_def)

end
