(* ===== verification/Shard_Configs.thy ===== *)
theory Shard_Configs
  imports Shard_Safety
begin

text \<open>
  The two stored configurations (src/src/shardkv1/shardctrler/shardctrler.go), whatever the groups
  do and whatever a recovering controller has read: this part of the service needs no assumption
  about races. It is the argument of \<open>Shard_Safety\<close> on the key/value server alone: facts about the
  store that no step of anybody falsifies, and programs that only store what such facts allow.
\<close>

section \<open>Facts about the store\<close>

definition new_claim :: "json \<Rightarrow> KVServer \<Rightarrow> ShardConfig \<Rightarrow> bool" where
  "new_claim J kv new \<longleftrightarrow> cfg_ok new \<and> Num new \<le> Num (published J kv) + 1 \<and>
     (\<forall>n. claimed J kv = Some n \<longrightarrow> Num n < Num new)"

definition next_one :: "json \<Rightarrow> KVServer \<Rightarrow> ShardConfig \<Rightarrow> bool" where
  "next_one J kv new \<longleftrightarrow> Num new = Num (published J kv) + 1 \<and> claimed J kv = Some new"

datatype cfact = Past ShardConfig | Asked ShardConfig | Ours ShardConfig | Stores PutArgs

fun true_in :: "json \<Rightarrow> KVServer \<Rightarrow> cfact \<Rightarrow> bool" where
  "true_in J kv (Past c) \<longleftrightarrow> Num c \<le> Num (published J kv) \<and> (Num c = Num (published J kv) \<longrightarrow> c = published J kv)"
| "true_in J kv (Asked new) \<longleftrightarrow> cfg_ok new \<and> Num new \<le> Num (published J kv) + 1"
| "true_in J kv (Ours new) \<longleftrightarrow> Num new \<le> Num (published J kv) \<or> next_one J kv new"
| "true_in J kv (Stores a) \<longleftrightarrow>
     (\<exists>new. putValue a = cfgString J new \<and>
        (putKey a = configKey \<and>
           (unat (putVersion a) < unat (kv_version kv configKey) \<or> putVersion a = kv_version kv configKey \<and> next_one J kv new) \<or>
         putKey a = configNextKey \<and>
           (unat (putVersion a) < unat (kv_version kv configNextKey) \<or>
            putVersion a = kv_version kv configNextKey \<and> new_claim J kv new)))"

definition keeps :: "json \<Rightarrow> KVServer \<Rightarrow> KVServer \<Rightarrow> bool" where
  "keeps J kv kv' \<longleftrightarrow> (\<forall>f. true_in J kv f \<longrightarrow> true_in J kv' f)"

lemma keepsI [intro]: "(\<And>f. true_in J kv f \<Longrightarrow> true_in J kv' f) \<Longrightarrow> keeps J kv kv'" by (simp add: keeps_def)

lemma keepsD: "keeps J kv kv' \<Longrightarrow> true_in J kv f \<Longrightarrow> true_in J kv' f" by (simp add: keeps_def)

lemma keeps_refl [simp]: "keeps J kv kv" by (simp add: keeps_def)

lemma keeps_trans [trans]: "keeps J kv kv' \<Longrightarrow> keeps J kv' kv'' \<Longrightarrow> keeps J kv kv''" by (simp add: keeps_def)

text \<open>What always holds, and that no version is at its end.\<close>

definition sound :: "json \<Rightarrow> KVServer \<Rightarrow> bool" where
  "sound J kv \<longleftrightarrow> cfg_ok (published J kv) \<and> kv_present kv configKey \<and>
     (\<forall>n. claimed J kv = Some n \<longrightarrow> cfg_ok n \<and> Num n \<le> Num (published J kv) + 1)"

definition roomy :: "KVServer \<Rightarrow> bool" where
  "roomy kv \<longleftrightarrow> unat (kv_version kv configKey) < 2 ^ 64 - 1 \<and> unat (kv_version kv configNextKey) < 2 ^ 64 - 1"

section \<open>Storing\<close>

abbreviation after_store :: "KVServer \<Rightarrow> PutArgs \<Rightarrow> KVServer" where
  "after_store kv a \<equiv> fst (kv_Put kv a)"

lemma published_step:
  assumes J: "json_ok J" and s: "sound J kv" "roomy kv" and k: "putKey a = configKey"
    and a: "putValue a = cfgString J new" "next_one J kv new" and ok: "snd (kv_Put kv a) = OK"
  shows "sound J (after_store kv a)" "keeps J kv (after_store kv a)"
proof -
  have P: "published J (after_store kv a) = new" and N: "claimed J (after_store kv a) = Some new"
    and n: "Num new = Num (published J kv) + 1" "claimed J kv = Some new"
    using J stored(1,2) [OF ok, of J] k a by (auto simp: next_one_def json_ok_def FromString_def cfgString_def)
  have ver: "unat (kv_version (after_store kv a) configKey) = Suc (unat (kv_version kv configKey))"
      "kv_version (after_store kv a) configNextKey = kv_version kv configNextKey"
    using stored(3) [OF ok] k s(2) by (simp_all add: unat_plus roomy_def)
  show "sound J (after_store kv a)" using s(1) P N n stored(4) [OF ok] by (simp add: sound_def)
  show "keeps J kv (after_store kv a)"
  proof
    fix f assume f: "true_in J kv f"
    show "true_in J (after_store kv a) f"
    proof (cases f)
      case (Stores b)
      then show ?thesis using f P N ver n by (fastforce simp: new_claim_def next_one_def)
    qed (use f P N n in \<open>auto simp: next_one_def\<close>)
  qed
qed

lemma claimed_step:
  assumes J: "json_ok J" and s: "sound J kv" "roomy kv" and k: "putKey a = configNextKey"
    and a: "putValue a = cfgString J new" "new_claim J kv new" and ok: "snd (kv_Put kv a) = OK"
  shows "sound J (after_store kv a)" "keeps J kv (after_store kv a)" "true_in J (after_store kv a) (Ours new)"
proof -
  have P: "published J (after_store kv a) = published J kv" and N: "claimed J (after_store kv a) = Some new"
    using J stored(1,2) [OF ok, of J] k a by (auto simp: json_ok_def FromString_def cfgString_def)
  have no: "cfg_ok new" "Num new \<le> Num (published J kv) + 1" "\<not> next_one J kv c" for c
    using a(2) by (auto simp: new_claim_def next_one_def)
  have ver: "unat (kv_version (after_store kv a) configNextKey) = Suc (unat (kv_version kv configNextKey))"
      "kv_version (after_store kv a) configKey = kv_version kv configKey"
    using stored(3) [OF ok] k s(2) by (simp_all add: unat_plus roomy_def)
  show "sound J (after_store kv a)" using s(1) P N no stored(4) [OF ok] by (simp add: sound_def)
  show "keeps J kv (after_store kv a)"
  proof
    fix f assume f: "true_in J kv f"
    show "true_in J (after_store kv a) f"
    proof (cases f)
      case (Stores b)
      then show ?thesis using f P ver no(3) by fastforce
    qed (use f P no(3) in auto)
  qed
  show "true_in J (after_store kv a) (Ours new)" using P N no(2) by (auto simp: next_one_def)
qed

lemma store_step:
  assumes J: "json_ok J" and s: "sound J kv" "roomy kv" and a: "true_in J kv (Stores a)"
  shows "sound J (after_store kv a)" "keeps J kv (after_store kv a)"
proof -
  have "sound J (after_store kv a) \<and> keeps J kv (after_store kv a)"
  proof (cases "snd (kv_Put kv a) = OK")
    case True
    then have "putVersion a = kv_version kv (putKey a)" using kv.put_ok by blast
    then obtain new where "putValue a = cfgString J new"
        "putKey a = configKey \<and> next_one J kv new \<or> putKey a = configNextKey \<and> new_claim J kv new"
      using a by auto
    then show ?thesis using published_step [OF J s] claimed_step [OF J s] True by blast
  qed (use put_failed s(1) in simp)
  then show "sound J (after_store kv a)" "keeps J kv (after_store kv a)" by blast+
qed

declare true_in.simps [simp del]

section \<open>Programs\<close>

text \<open>The store at a later time, and the programs that only store what they may, whatever the groups answer.\<close>

definition comes :: "json \<Rightarrow> KVServer \<Rightarrow> KVServer \<Rightarrow> bool" where
  "comes J kv kv' \<longleftrightarrow> keeps J kv kv' \<and> sound J kv' \<and> roomy kv'"

primrec cwp :: "json \<Rightarrow> ('a \<Rightarrow> KVServer \<Rightarrow> bool) \<Rightarrow> 'a prog \<Rightarrow> KVServer \<Rightarrow> bool" where
  "cwp J Q (Ret x) = (\<lambda>kv. Q x kv)"
| "cwp J Q Halt = (\<lambda>kv. True)"
| "cwp J Q (AskFreeze g a k) = (\<lambda>kv. \<forall>kv' r. comes J kv kv' \<longrightarrow> cwp J Q (k r) kv')"
| "cwp J Q (AskInstall g a k) = (\<lambda>kv. \<forall>kv' r. comes J kv kv' \<longrightarrow> cwp J Q (k r) kv')"
| "cwp J Q (AskDelete g a k) = (\<lambda>kv. \<forall>kv' r. comes J kv kv' \<longrightarrow> cwp J Q (k r) kv')"
| "cwp J Q (AskGet key k) = (\<lambda>kv. \<forall>kv'. comes J kv kv' \<longrightarrow> cwp J Q (k (lookup_key kv' key)) kv')"
| "cwp J Q (AskPut a k) = (\<lambda>kv. true_in J kv (Stores a) \<and>
     (\<forall>kv' e. comes J kv kv' \<longrightarrow> e = OK \<longrightarrow> snd (kv_Put kv' a) = OK \<longrightarrow> cwp J Q (k e) (after_store kv' a)) \<and>
     (\<forall>kv' e. comes J kv kv' \<longrightarrow> e \<noteq> OK \<longrightarrow> cwp J Q (k e) (after_store kv' a)))"

lemma comes_trans: "keeps J kv kv' \<Longrightarrow> comes J kv' kv'' \<Longrightarrow> comes J kv kv''"
  by (auto simp: comes_def intro: keeps_trans)

lemma comesD: "comes J kv kv' \<Longrightarrow> true_in J kv f \<Longrightarrow> true_in J kv' f" "comes J kv kv' \<Longrightarrow> kv_present kv' configKey"
  by (auto simp: comes_def sound_def dest: keepsD)

lemma cwp_stable: "cwp J Q p kv \<Longrightarrow> keeps J kv kv' \<Longrightarrow> (\<And>x. Q x kv \<Longrightarrow> Q x kv') \<Longrightarrow> cwp J Q p kv'"
  using comes_trans [of J kv kv'] keepsD [of J kv kv'] by (cases p) auto

lemma cwp_andThen: "cwp J (\<lambda>x. cwp J Q (f x)) p kv \<Longrightarrow> cwp J Q (andThen p f) kv"
  by (induction p arbitrary: kv) simp_all

lemma cwp_conseq: "cwp J Q p kv \<Longrightarrow> (\<And>x kv. Q x kv \<Longrightarrow> Q' x kv) \<Longrightarrow> cwp J Q' p kv"
  by (induction p arbitrary: kv) simp_all

lemma stored_fact:
  assumes "json_ok J" "true_in J kv (Stores a)" "true_in J kv f" "comes J kv kv'"
  shows "true_in J (after_store kv' a) f"
  using store_step(2) [OF assms(1), of kv' a] comesD(1) [OF assms(4)] assms(2-4)
  by (auto simp: comes_def dest: keepsD)

text \<open>What reading the two keys gives.\<close>

lemma found_published:
  "kv_present kv configKey \<Longrightarrow> found J (lookup_key kv configKey) = Some (published J kv, kv_version kv configKey)"
  by (simp add: found_def lookup_key_def kv_Get_reply published_def)

lemma found_claimed:
  "found J (lookup_key kv configNextKey) = map_option (\<lambda>n. (n, kv_version kv configNextKey)) (claimed J kv)"
  by (simp add: found_def lookup_key_def kv_Get_reply claimed_def)

text \<open>Moving shards only asks the groups; what is known of the store stays.\<close>

lemma cwp_move_shards: "true_in J kv f \<Longrightarrow> cwp J (\<lambda>_ kv. true_in J kv f) (move_shards old new ss) kv"
  by (induction ss arbitrary: kv) (auto simp: Let_def comesD(1))

lemma cwp_moveUntilDone: "true_in J kv f \<Longrightarrow> cwp J (\<lambda>_ kv. true_in J kv f) (moveUntilDone J fuel old new) kv"
proof (induction fuel arbitrary: kv)
  case (Suc fuel)
  have "cwp J (\<lambda>_ kv. true_in J kv f)
      (if ok then Ret True
       else andThen (readConfig J) (\<lambda>r.
         if (case r of None \<Rightarrow> False | Some (cur2, _) \<Rightarrow> Num cur2 \<ge> Num new) then Ret False
         else moveUntilDone J fuel old new)) kv" if "true_in J kv f" for ok kv
    using that Suc.IH by (auto simp: readConfig_then found_published comesD)
  then show ?case unfolding moveUntilDone.simps moveTo_def
    by (intro cwp_andThen cwp_conseq [OF cwp_move_shards [OF Suc.prems]])
qed simp

lemma cwp_publish:
  assumes J: "json_ok J"
  shows "true_in J kv (Ours new) \<Longrightarrow> cwp J (\<lambda>_ _. True) (publish J fuel new) kv"
proof (induction fuel arbitrary: kv)
  case (Suc fuel)
  let ?a = "\<lambda>ver. \<lparr>putKey = configKey, putValue = cfgString J new, putVersion = ver\<rparr>"
  have "true_in J kv' (Stores (?a (kv_version kv' configKey)))"
    if "comes J kv kv'" "\<not> Num new \<le> Num (published J kv')" for kv'
    using comesD(1) [OF that(1) Suc.prems] that(2) by (auto simp: true_in.simps)
  moreover have "cwp J (\<lambda>_ _. True) (publish J fuel new) (after_store kv'' a)"
    if "comes J kv kv'" "comes J kv' kv''" "true_in J kv' (Stores a)" for kv' kv'' a
    using stored_fact [OF J that(3) comesD(1) [OF that(1) Suc.prems] that(2)] by (rule Suc.IH)
  ultimately show ?case by (auto simp: readConfig_then found_published comesD)
qed simp

lemma cwp_finish:
  assumes J: "json_ok J" and o: "true_in J kv (Ours new)"
  shows "cwp J (\<lambda>_ _. True) (finish J fuel old new) kv"
  unfolding finish_def
  by (intro cwp_andThen cwp_conseq [OF cwp_moveUntilDone [OF o]]) (simp add: cwp_publish [OF J])

lemma cwp_claimLanded:
  assumes J: "json_ok J" and w: "true_in J kv (Asked new)"
  shows "cwp J (\<lambda>ok kv. ok \<longrightarrow> true_in J kv (Ours new)) (claimLanded J new) kv"
proof -
  have "true_in J kv' (Ours new)"
    if c: "comes J kv kv'" and r: "lookup_key kv' configNextKey = (cfgString J new, ver, OK)" for kv' ver
  proof -
    have "claimed J kv' = Some new" using found_claimed [of J kv'] r J
      by (cases "claimed J kv'") (auto simp: found_def cfgString_def FromString_def json_ok_def)
    then show ?thesis using comesD(1) [OF c w] by (auto simp: true_in.simps next_one_def)
  qed
  then show ?thesis by (auto simp: claimLanded_def split: prod.splits)
qed

lemma cwp_claim_put:
  assumes J: "json_ok J" and w: "true_in J kv (Asked new)" and n: "\<forall>n. claimed J kv = Some n \<longrightarrow> Num n < Num new"
  shows "cwp J (\<lambda>ok kv. ok \<longrightarrow> true_in J kv (Ours new))
    (AskPut \<lparr>putKey = configNextKey, putValue = cfgString J new, putVersion = kv_version kv configNextKey\<rparr> (\<lambda>err.
       if err = OK then Ret True else if err = ErrMaybe then claimLanded J new else Ret False)) kv"
proof -
  let ?a = "\<lparr>putKey = configNextKey, putValue = cfgString J new, putVersion = kv_version kv configNextKey\<rparr>"
  have b: "true_in J kv (Stores ?a)" using w n by (auto simp: true_in.simps new_claim_def)
  have "true_in J (after_store kv' ?a) (Ours new)" if c: "comes J kv kv'" and ok: "snd (kv_Put kv' ?a) = OK" for kv'
  proof -
    have "kv_version kv' configNextKey = kv_version kv configNextKey" using kv.put_ok [of kv' ?a] ok by simp
    then have "new_claim J kv' new" using comesD(1) [OF c b] by (auto simp: true_in.simps cfgString_inject [OF J])
    then show ?thesis using c ok by (intro claimed_step(3) [OF J]) (auto simp: comes_def)
  qed
  moreover have "true_in J (after_store kv' ?a) (Asked new)" if "comes J kv kv'" for kv' by (rule stored_fact [OF J b w that])
  ultimately show ?thesis using b cwp_claimLanded [OF J] by auto
qed

lemma cwp_claim:
  assumes J: "json_ok J" and w: "true_in J kv (Asked new)"
  shows "cwp J (\<lambda>ok kv. ok \<longrightarrow> true_in J kv (Ours new)) (claim J new) kv"
  unfolding claim_def readConfigNext_then cwp.simps
proof (intro allI impI)
  fix kv' assume c: "comes J kv kv'"
  note put = cwp_claim_put [OF J comesD(1) [OF c w]]
  show "cwp J (\<lambda>ok kv. ok \<longrightarrow> true_in J kv (Ours new))
     (if case found J (lookup_key kv' configNextKey) of None \<Rightarrow> False | Some (nxt, _) \<Rightarrow> Num new \<le> Num nxt then Ret False
      else let ver = case found J (lookup_key kv' configNextKey) of None \<Rightarrow> 0 | Some (_, ver) \<Rightarrow> ver
           in AskPut \<lparr>putKey = configNextKey, putValue = cfgString J new, putVersion = ver\<rparr> (\<lambda>err.
                if err = OK then Ret True else if err = ErrMaybe then claimLanded J new else Ret False)) kv'"
  proof (cases "claimed J kv'")
    case None
    then have "kv_version kv' configNextKey = 0" by (intro absent_version) (simp add: claimed_def split: if_splits)
    then show ?thesis using put None by (simp add: found_claimed del: cwp.simps(7))
  next
    case (Some n)
    then show ?thesis using put by (cases "Num new \<le> Num n") (simp_all add: found_claimed del: cwp.simps(7))
  qed
qed

lemma cwp_ChangeConfigTo:
  assumes J: "json_ok J" and w: "true_in J kv (Asked new)"
  shows "cwp J (\<lambda>_ _. True) (ChangeConfigTo J fuel new) kv"
proof -
  let ?go = "\<lambda>ok. if \<not> ok then Ret ()
     else andThen (readConfig J) (\<lambda>r. case r of
         None \<Rightarrow> Ret ()
       | Some (cur, _) \<Rightarrow> if Num new \<le> Num cur then Ret () else finish J fuel cur new)"
  have "cwp J (\<lambda>_ _. True) (?go ok) kv" if "ok \<longrightarrow> true_in J kv (Ours new)" for ok kv
    using that by (auto simp: readConfig_then found_published comesD intro!: cwp_finish [OF J])
  then have "cwp J (\<lambda>_ _. True) (andThen (claim J new) ?go) kv'" if "comes J kv kv'" for kv'
    by (intro cwp_andThen cwp_conseq [OF cwp_claim [OF J comesD(1) [OF that w]]])
  then show ?thesis by (auto simp: ChangeConfigTo_def readConfig_then found_published comesD)
qed

text \<open>A recovering controller: the claim it reads is published or the next one, when it reads it.\<close>

lemma cwp_InitController:
  assumes J: "json_ok J" shows "cwp J (\<lambda>_ _. True) (InitController J fuel) kv"
proof -
  have "true_in J kv (Ours n)" if "sound J kv" "claimed J kv = Some n" for kv n
    using that by (auto simp: true_in.simps sound_def next_one_def)
  then show ?thesis
    by (auto simp: InitController_def readConfig_then readConfigNext_then found_published found_claimed comesD comes_def
        intro!: cwp_finish [OF J] split: option.splits)
qed

section \<open>The system\<close>

definition cfg_inv :: "json \<Rightarrow> cfact set \<Rightarrow> shsys \<Rightarrow> nat \<Rightarrow> bool" where
  "cfg_inv J F st k \<longleftrightarrow> sound J (store st) \<and>
     unat (kv_version (store st) configKey) \<le> k \<and> unat (kv_version (store st) configNextKey) \<le> k \<and>
     (\<forall>i. cwp J (\<lambda>_ _. True) (procs st i) (store st)) \<and>
     (\<forall>a \<in> set (sentK st). true_in J (store st) (Stores a)) \<and> (\<forall>f \<in> F. true_in J (store st) f)"

text \<open>A step of the store, and nothing else that matters but one process.\<close>

lemma cfg_invI:
  assumes i: "cfg_inv J F st k" and kv: "sound J (store st')" "keeps J (store st) (store st')"
    and v: "\<And>key. unat (kv_version (store st') key) \<le> Suc (unat (kv_version (store st) key))"
    and p: "\<And>j. procs st' j = procs st j \<or> cwp J (\<lambda>_ _. True) (procs st' j) (store st')"
    and s: "\<And>a. a \<in> set (sentK st') \<Longrightarrow> a \<in> set (sentK st) \<or> true_in J (store st) (Stores a)"
  shows "cfg_inv J F st' (Suc k)"
  unfolding cfg_inv_def
proof (intro conjI allI ballI)
  show "cwp J (\<lambda>_ _. True) (procs st' j) (store st')" for j
  proof -
    have "cwp J (\<lambda>_ _. True) (procs st j) (store st')"
      by (rule cwp_stable [OF _ kv(2)]) (use i in \<open>simp_all add: cfg_inv_def\<close>)
    then show ?thesis using p [of j] by auto
  qed
  show "true_in J (store st') (Stores a)" if "a \<in> set (sentK st')" for a
    using s [OF that] i keepsD [OF kv(2)] by (auto simp: cfg_inv_def)
  show "unat (kv_version (store st') configKey) \<le> Suc k" "unat (kv_version (store st') configNextKey) \<le> Suc k"
    using v [of configKey] v [of configNextKey] i by (auto simp: cfg_inv_def)
qed (use kv i keepsD [OF kv(2)] in \<open>auto simp: cfg_inv_def\<close>)

lemma version_step: "unat (kv_version (after_store kv a) key) \<le> Suc (unat (kv_version kv key))"
proof (cases "snd (kv_Put kv a) = OK \<and> key = putKey a")
  case True
  have "unat (x + 1) \<le> Suc (unat x)" for x :: Tversion by (simp add: unat_word_ariths)
  then show ?thesis using True stored(3) [of kv a key] by simp
next
  case False
  then show ?thesis using put_failed [of kv a] stored(3) [of kv a key] by (cases "snd (kv_Put kv a) = OK") auto
qed

lemma turn_call_store:
  assumes J: "json_ok J" and s: "sound J kv" "roomy kv" and p: "cwp J (\<lambda>_ _. True) p kv"
    and c: "turn_call out (kv, G) p = ((kv', G'), p')"
  shows "sound J kv' \<and> keeps J kv kv' \<and> cwp J (\<lambda>_ _. True) p' kv' \<and> (kv' = kv \<or> (\<exists>a. kv' = after_store kv a))"
proof -
  have now: "comes J kv kv" using s by (simp add: comes_def)
  show ?thesis
  proof (cases p)
    case (AskPut a k)
    have h: "true_in J kv (Stores a)" using p AskPut by simp
    have "cwp J (\<lambda>_ _. True) p' (after_store kv a)" "kv' = after_store kv a"
      using c p AskPut now by (cases "snd (kv_Put kv a) = OK"; auto simp: turn_call_def case_prod_beta Let_def split: if_splits)+
    then show ?thesis using store_step [OF J s h] by auto
  qed (use c p now s in \<open>auto simp: turn_call_def split: if_splits option.splits shRep.splits\<close>)
qed

lemma cfg_step:
  assumes J: "json_ok J" and i: "cfg_inv J F st k" and k: "k < 2 ^ 64 - 1"
  shows "cfg_inv J F (sh_step J st e) (Suc k)"
proof -
  have s: "sound J (store st)" "roomy (store st)" using i k by (auto simp: cfg_inv_def roomy_def)
  have put: "sound J (after_store (store st) a)" "keeps J (store st) (after_store (store st) a)" if "a \<in> set (sentK st)" for a
    using store_step [OF J s, of a] i that by (auto simp: cfg_inv_def)
  show ?thesis
  proof (cases e)
    case (Begin j cmd fuel)
    have "cwp J (\<lambda>_ _. True) (ChangeConfigTo J fuel new) (store st)" if "may_begin J (store st) (ChangeTo new)" for new
      using that by (intro cwp_ChangeConfigTo [OF J]) (simp add: may_begin_def true_in.simps)
    then show ?thesis using Begin s(1) cwp_InitController [OF J]
      by (intro cfg_invI [OF i]) (auto simp: begin_proc_def split: command.splits if_splits)
  next
    case (Turn j out)
    obtain kv' G' p' where c: "turn_call out (store st, grp st) (procs st j) = ((kv', G'), p')" by (metis prod.collapse)
    have "cwp J (\<lambda>_ _. True) (procs st j) (store st)" using i by (simp add: cfg_inv_def)
    note t = turn_call_store [OF J s this c]
    have "store (turn_proc J st j out) = kv'" "procs (turn_proc J st j out) = (procs st)(j := p')" "sentK (turn_proc J st j out) = sentK st"
      using c by (simp_all add: turn_proc_def)
    moreover have "unat (kv_version kv' key) \<le> Suc (unat (kv_version (store st) key))" for key
      using t version_step by (metis le_SucI order_refl)
    ultimately show ?thesis using Turn t by (intro cfg_invI [OF i]) auto
  next
    case (Send j)
    have w: "cwp J (\<lambda>_ _. True) (procs st j) (store st)" using i by (simp add: cfg_inv_def)
    show ?thesis using Send s(1) w by (intro cfg_invI [OF i]; cases "procs st j") (auto simp: send_proc_def)
  next
    case (LateG g q)
    then show ?thesis using s(1) by (intro cfg_invI [OF i]) (auto split: if_splits)
  next
    case (LateK a)
    then show ?thesis using s(1) put version_step by (intro cfg_invI [OF i]) (auto split: if_splits)
  next
    case (Client g q)
    then show ?thesis using s(1) by (intro cfg_invI [OF i]) (auto simp: client_call_def split: if_splits)
  qed
qed

lemma cfg_run:
  assumes J: "json_ok J"
  shows "cfg_inv J F st k \<Longrightarrow> k + length es < 2 ^ 64 \<Longrightarrow> cfg_inv J F (sh_run J st es) (k + length es)"
proof (induction es arbitrary: st k)
  case (Cons e es)
  have "cfg_inv J F (sh_step J st e) (Suc k)" using Cons.prems by (intro cfg_step [OF J]) auto
  from Cons.IH [OF this] Cons.prems show ?case by (simp add: sh_run_def)
qed (simp add: sh_run_def)

lemma cfg_start:
  assumes J: "json_ok J" and c: "start_ok c" shows "cfg_inv J {} (sh_init J c) 1"
proof -
  let ?a = "\<lparr>putKey = configKey, putValue = cfgString J c, putVersion = 0\<rparr>"
  have ok: "snd (kv_Put MakeKVServer ?a) = OK" by (simp add: kv_Put_def MakeKVServer_def)
  have st: "store (sh_init J c) = after_store MakeKVServer ?a" "procs (sh_init J c) = (\<lambda>_. Halt)" "sentK (sh_init J c) = [?a]"
    by (simp_all add: sh_init_def Let_def)
  have P: "published J (after_store MakeKVServer ?a) = c" and N: "claimed J (after_store MakeKVServer ?a) = None"
    using stored(1,2) [OF ok, of J] J
    by (simp_all add: json_ok_def FromString_def cfgString_def claimed_def kv_present_def MakeKVServer_def)
  have v: "kv_version (after_store MakeKVServer ?a) configKey = 1" "kv_version (after_store MakeKVServer ?a) configNextKey = 0"
    "kv_present (after_store MakeKVServer ?a) configKey"
    using stored(3,4) [OF ok] by (simp_all add: kv_version_def MakeKVServer_def)
  have "cfg_ok c" using c by (auto simp: start_ok_def cfg_ok_def assigned_def)
  moreover have "true_in J (after_store MakeKVServer ?a) (Stores ?a)" using v by (auto simp: true_in.simps)
  ultimately show ?thesis unfolding cfg_inv_def st using P N v by (simp add: sound_def)
qed

end
