(* ===== verification/Shard_Service.thy ===== *)
theory Shard_Service
  imports Shard_Configs
begin

text \<open>
  The properties of the sharded service, and the two runs that show what they are about: a change
  of the configuration without anybody in the way, and a recovery that reads the two stored
  configurations at the wrong moments. Both runs move shard 4, where the key "a" lives, from
  group 1 to group 2.
\<close>

section \<open>Three configurations and their moves\<close>

definition race_c1 :: ShardConfig where
  "race_c1 = \<lparr>Num = 1, Shards = replicate NShards 1, Groups = [(1, []), (2, [])]\<rparr>"

definition race_c2 :: ShardConfig where
  "race_c2 = \<lparr>Num = 2, Shards = (replicate NShards 1)[4 := 2], Groups = [(1, []), (2, [])]\<rparr>"

definition race_c3 :: ShardConfig where
  "race_c3 = \<lparr>Num = 3, Shards = (replicate NShards 1)[4 := 2], Groups = [(1, []), (2, []), (3, [])]\<rparr>"

definition race_put :: PutArgs where
  "race_put = \<lparr>putKey = ''a'', putValue = ''v'', putVersion = 0\<rparr>"

lemma race_cfgs: "cfg_ok race_c2" "cfg_ok race_c3" "start_ok race_c1"
  "Num race_c1 = 1" "Num race_c2 = 2" "Num race_c3 = 3"
  by (simp_all add: cfg_ok_def assigned_def race_c1_def race_c2_def race_c3_def start_ok_def gids_def NShards_def Gid1_def
     numeral_eq_Suc)

lemma key_a: "Key2Shard ''a'' = 4" by (simp add: Key2Shard_def fnv32a_def NShards_def)

definition race_move :: "ShardConfig \<Rightarrow> bool prog" where
  "race_move new =
     AskFreeze 1 \<lparr>fzShard = 4, fzNum = Num new\<rparr> (\<lambda>(state, err).
       if err = ErrStale then Ret True else if err = ErrUnreachable then Ret False else
     AskInstall 2 \<lparr>inShard = 4, inState = state, inNum = Num new\<rparr> (\<lambda>err.
       if err = ErrStale then Ret True else if err = ErrUnreachable then Ret False else
     AskDelete 1 \<lparr>dlShard = 4, dlNum = Num new\<rparr> (\<lambda>err.
       if err = ErrStale then Ret True else if err = ErrUnreachable then Ret False else Ret True)))"

lemma shards12: "[0..<NShards] = [0,1,2,3,4,5,6,7,8,9,10,11]"
  by (simp add: NShards_def upt_rec)

lemma race_move:
  "moveTo race_c1 race_c2 = race_move race_c2" "moveTo race_c1 race_c3 = race_move race_c3"
  unfolding moveTo_def shards12 race_move_def
  by (simp_all add: race_c1_def race_c2_def race_c3_def NShards_def Let_def fun_eq_iff split: prod.split)

definition kvs :: "json \<Rightarrow> ShardConfig \<Rightarrow> Tversion \<Rightarrow> (ShardConfig \<times> Tversion) option \<Rightarrow> KVServer" where
  "kvs J c ver nxt = \<lparr>kv_m = (case nxt of
      None \<Rightarrow> [configKey \<mapsto> \<lparr>nodeValue = cfgString J c, nodeVersion = ver\<rparr>]
    | Some (n, nv) \<Rightarrow> [configKey \<mapsto> \<lparr>nodeValue = cfgString J c, nodeVersion = ver\<rparr>,
                      configNextKey \<mapsto> \<lparr>nodeValue = cfgString J n, nodeVersion = nv\<rparr>])\<rparr>"

lemma kvs_read:
  assumes "json_ok J"
  shows "found J (lookup_key (kvs J c ver nxt) configKey) = Some (c, ver)"
    "found J (lookup_key (kvs J c ver nxt) configNextKey) = nxt"
    "published J (kvs J c ver nxt) = c"
  using assms by (auto simp: found_def lookup_key_def kvs_def kv_Get_def FromString_def cfgString_def json_ok_def
      published_def kv_content_def split: option.split)

lemma kvs_write:
  "ver' = ver \<Longrightarrow> kv_Put (kvs J c ver nxt) \<lparr>putKey = configKey, putValue = cfgString J c', putVersion = ver'\<rparr> =
     (kvs J c' (ver + 1) nxt, OK)"
  "v = (case nxt of None \<Rightarrow> 0 | Some (_, nv) \<Rightarrow> nv) \<Longrightarrow>
   kv_Put (kvs J c ver nxt) \<lparr>putKey = configNextKey, putValue = cfgString J c', putVersion = v\<rparr> =
     (kvs J c ver (Some (c', (case nxt of None \<Rightarrow> 1 | Some (_, nv) \<Rightarrow> nv + 1))), OK)"
  by (auto simp: kvs_def kv_Put_def fun_upd_twist split: option.split)

lemma race_init: "store (sh_init J c) = kvs J c 1 None"
  by (simp add: sh_init_def kvs_def kv_Put_def MakeKVServer_def Let_def)
text \<open>Consecutive turns of one process.\<close>

fun turns_of :: "nat \<Rightarrow> KVServer \<times> groups \<Rightarrow> unit prog \<Rightarrow> (KVServer \<times> groups) \<times> unit prog" where
  "turns_of 0 env p = (env, p)"
| "turns_of (Suc n) env p = (case turn_call Answered env p of (env', p') \<Rightarrow> turns_of n env' p')"

lemma run_turns:
  assumes "stages st i = Working" "turns_of n (store st, grp st) (procs st i) = ((kv, G), p)"
  shows "sh_run J st (replicate n (Turn i Answered)) = st\<lparr>store := kv, grp := G, procs := (procs st)(i := p)\<rparr>"
  using assms
proof (induction n arbitrary: st)
  case (Suc n)
  obtain kv1 G1 p1 where t: "turn_call Answered (store st, grp st) (procs st i) = ((kv1, G1), p1)"
    by (metis prod.collapse)
  have "turn_proc J st i Answered = st\<lparr>store := kv1, grp := G1, procs := (procs st)(i := p1)\<rparr>"
    using t Suc.prems(1) by (simp add: turn_proc_def next_stage_def stale_read_def fun_upd_idem)
  then show ?case
    using Suc.IH [of "st\<lparr>store := kv1, grp := G1, procs := (procs st)(i := p1)\<rparr>"] Suc.prems t by (simp add: sh_run_def cong: if_cong)
next
  case 0
  then show ?case by (cases st) (auto simp: sh_run_def)
qed

lemma run_append: "sh_run J st (es @ es') = sh_run J (sh_run J st es) es'"
  by (simp add: sh_run_def)

lemma run_Cons: "sh_run J st (e # es) = sh_run J (sh_step J st e) es"
  by (simp add: sh_run_def)

lemma run_Nil: "sh_run J st [] = st"
  by (simp add: sh_run_def)

text \<open>A change that is claimed, moved and published without anybody in the way.\<close>

lemma turns_claim:
  assumes "json_ok J" "Num c < Num new" "nxt = None \<or> (\<exists>n nv. nxt = Some (n, nv) \<and> Num n < Num new)"
  shows "turns_of 4 (kvs J c ver nxt, G) (ChangeConfigTo J fuel new) =
    ((kvs J c ver (Some (new, (case nxt of None \<Rightarrow> 1 | Some (_, nv) \<Rightarrow> nv + 1))), G), finish J fuel c new)"
  using assms
  by (auto simp: eval_nat_numeral ChangeConfigTo_def claim_def readConfig_then readConfigNext_then andThen_assoc
      turn_call_def kvs_read kvs_write Let_def)

lemma turns_publish:
  assumes "json_ok J" "Num c < Num new"
  shows "turns_of 2 (kvs J c ver nxt, G) (publish J (Suc fuel) new) = ((kvs J new (ver + 1) nxt, G), Ret ())"
  using assms by (simp add: eval_nat_numeral readConfig_then turn_call_def kvs_read kvs_write)

text \<open>The groups 1 and 2 in the run: all that matters is shard 4.\<close>

definition gst :: "Tgid \<Rightarrow> table \<Rightarrow> bool \<Rightarrow> Tnum \<Rightarrow> shardState" where
  "gst gid m b n =
     \<lparr>shShards = (replicate NShards Map.empty)[4 := m], shServed = (replicate NShards (gid = Gid1))[4 := b],
      shNum = (replicate NShards 0)[4 := n]\<rparr>"

lemma gst_init: "sg_init gid = gst gid Map.empty (gid = Gid1) 0"
  by (simp add: sg_init_def gst_def NShards_def numeral_eq_Suc)

lemma gst_ops:
  "sg_freeze (gst g m b n) \<lparr>fzShard = 4, fzNum = k\<rparr> =
     (if k < n then (gst g m b n, \<lparr>frState = None, frNum = n, frErr = ErrStale\<rparr>)
      else (gst g m False k, \<lparr>frState = Some m, frNum = k, frErr = Rpc OK\<rparr>))"
  "sg_install (gst g m b n) \<lparr>inShard = 4, inState = Some m', inNum = k\<rparr> =
     (if k < n then (gst g m b n, ErrStale)
      else if k = n \<and> b then (gst g m b n, Rpc OK) else (gst g m' True k, Rpc OK))"
  "sg_delete (gst g m b n) \<lparr>dlShard = 4, dlNum = k\<rparr> =
     (if k < n then (gst g m b n, ErrStale) else (gst g Map.empty False k, Rpc OK))"
  by (simp_all add: sg_ops gst_def NShards_def)

definition race_groups :: "shardState \<Rightarrow> shardState \<Rightarrow> groups" where
  "race_groups a b = sg_init(1 := a, 2 := b)"

lemma race_exec:
  "exec_at (race_groups a b) 1 q = race_groups (fst (sg_DoOp a q)) b" "race_groups a b 1 = a"
  "exec_at (race_groups a b) 2 q = race_groups a (fst (sg_DoOp b q))" "race_groups a b 2 = b"
  by (auto simp: race_groups_def exec_at_def fun_upd_twist)

lemma race_start: "sg_init = race_groups (gst 1 Map.empty True 0) (gst 2 Map.empty False 0)"
  by (rule ext) (simp add: race_groups_def gst_init Gid1_def)

lemma race_in: "\<not> NShards \<le> 4" by (simp add: NShards_def)

lemma race_do:
  "sg_DoOp (gst g m b n) (ShFreeze \<lparr>fzShard = 4, fzNum = k\<rparr>) =
     (if k < n then (gst g m b n, Some (SrFreeze \<lparr>frState = None, frNum = n, frErr = ErrStale\<rparr>))
      else (gst g m False k, Some (SrFreeze \<lparr>frState = Some m, frNum = k, frErr = Rpc OK\<rparr>)))"
  "sg_DoOp (gst g m b n) (ShInstall \<lparr>inShard = 4, inState = Some m', inNum = k\<rparr>) =
     (if k < n then (gst g m b n, Some (SrInstall ErrStale))
      else if k = n \<and> b then (gst g m b n, Some (SrInstall (Rpc OK)))
      else (gst g m' True k, Some (SrInstall (Rpc OK))))"
  "sg_DoOp (gst g m b n) (ShDelete \<lparr>dlShard = 4, dlNum = k\<rparr>) =
     (if k < n then (gst g m b n, Some (SrDelete ErrStale)) else (gst g Map.empty False k, Some (SrDelete (Rpc OK))))"
  using race_in by (simp_all add: gst_ops)

lemma turns_move:
  "turns_of 3 (kv, race_groups (gst 1 m True 0) (gst 2 Map.empty False 0)) (finish J (Suc fuel) race_c1 race_c2) =
     ((kv, race_groups (gst 1 Map.empty False 2) (gst 2 m True 2)), publish J (Suc fuel) race_c2)"
  unfolding numeral_3_eq_3
  by (simp add: finish_def race_move race_move_def turn_call_def race_exec race_do race_cfgs
      del: publish.simps sg_DoOp.simps)
section \<open>The run\<close>

text \<open>
  A client stores a value; one controller claims and moves configuration 2 and is about to publish
  it; a second one starts recovery and reads configuration 1; the first publishes; a third claims
  configuration 3; the second reads that and replays a move from 1 to 3; the client asks again.
\<close>

definition race_run :: "shEvent list" where
  "race_run =
     [Client 1 (ShPut race_put), Begin 0 (ChangeTo race_c2) 1] @ replicate 4 (Turn 0 Answered) @
     replicate 3 (Turn 0 Answered) @ [Begin 1 Recover 1, Turn 1 Answered] @ replicate 2 (Turn 0 Answered) @
     [Begin 2 (ChangeTo race_c3) 1] @ replicate 4 (Turn 2 Answered) @
     [Turn 1 Answered] @ replicate 2 (Turn 1 Answered) @ [Client 2 (ShGet \<lparr>getKey = ''a''\<rparr>)]"

definition race_data :: table where
  "race_data = [''a'' \<mapsto> \<lparr>nodeValue = ''v'', nodeVersion = 1\<rparr>]"

lemma race_client:
  "sg_DoOp (gst 1 Map.empty True 0) (ShPut race_put) = (gst 1 race_data True 0, Some (SrPut OK))"
  "sg_DoOp (gst 2 Map.empty True k) (ShGet \<lparr>getKey = ''a''\<rparr>) =
     (gst 2 Map.empty True k, Some (SrGet \<lparr>grValue = [], grVersion = 0, grErr = ErrNoKey\<rparr>))"
  by (simp_all add: sg_ops key_a race_put_def gst_def race_data_def NShards_def)

lemma turns_replay:
  "\<exists>p. turns_of 2 (kv, race_groups (gst 1 Map.empty False 2) (gst 2 m True 2)) (finish J (Suc 0) race_c1 race_c3) =
     ((kv, race_groups (gst 1 Map.empty False 3) (gst 2 Map.empty True 3)), p)"
  unfolding numeral_2_eq_2
  by (simp add: finish_def race_move race_move_def turn_call_def race_exec race_do race_cfgs
      del: publish.simps sg_DoOp.simps)

definition race_state :: "json \<Rightarrow> KVServer \<Rightarrow> groups \<Rightarrow> unit prog \<Rightarrow> unit prog \<Rightarrow> unit prog \<Rightarrow> stage \<Rightarrow>
    (shReq \<times> shRep) list \<Rightarrow> bool \<Rightarrow> shsys" where
  "race_state J kv G p0 p1 p2 t1 h r =
     \<lparr>store = kv, grp = G,
      procs = (\<lambda>i. if i = 0 then p0 else if i = 1 then p1 else if i = 2 then p2 else Halt),
      stages = (\<lambda>i. if i = 1 then t1 else Working), sentG = [],
      sentK = [\<lparr>putKey = configKey, putValue = cfgString J race_c1, putVersion = 0\<rparr>], history = h, raced = r\<rparr>"

lemma race_state_sel:
  "store (race_state J kv G p0 p1 p2 t1 h r) = kv" "grp (race_state J kv G p0 p1 p2 t1 h r) = G"
  "procs (race_state J kv G p0 p1 p2 t1 h r) 0 = p0" "procs (race_state J kv G p0 p1 p2 t1 h r) 1 = p1"
  "procs (race_state J kv G p0 p1 p2 t1 h r) 2 = p2"
  "stages (race_state J kv G p0 p1 p2 t1 h r) 0 = Working" "stages (race_state J kv G p0 p1 p2 t1 h r) 1 = t1"
  "stages (race_state J kv G p0 p1 p2 t1 h r) 2 = Working" "history (race_state J kv G p0 p1 p2 t1 h r) = h"
  by (simp_all add: race_state_def)

lemma race_turns:
  "turns_of n (kv, G) p0 = ((kv', G'), p') \<Longrightarrow>
     sh_run J (race_state J kv G p0 p1 p2 t1 h r) (replicate n (Turn 0 Answered)) = race_state J kv' G' p' p1 p2 t1 h r"
  "turns_of n (kv, G) p1 = ((kv', G'), p') \<Longrightarrow>
     sh_run J (race_state J kv G p0 p1 p2 Working h r) (replicate n (Turn 1 Answered)) = race_state J kv' G' p0 p' p2 Working h r"
  "turns_of n (kv, G) p2 = ((kv', G'), p') \<Longrightarrow>
     sh_run J (race_state J kv G p0 p1 p2 t1 h r) (replicate n (Turn 2 Answered)) = race_state J kv' G' p0 p1 p' t1 h r"
proof -
  have upd: "(race_state J kv G p0 p1 p2 t1 h r)\<lparr>store := kv', grp := G', procs := (procs (race_state J kv G p0 p1 p2 t1 h r))(i := p')\<rparr> =
      race_state J kv' G' (if i = 0 then p' else p0) (if i = 1 then p' else p1) (if i = 2 then p' else p2) t1 h r"
    if "i = 0 \<or> i = 1 \<or> i = 2" for t1 i using that by (auto simp: race_state_def fun_eq_iff)
  show "sh_run J (race_state J kv G p0 p1 p2 t1 h r) (replicate n (Turn 0 Answered)) = race_state J kv' G' p' p1 p2 t1 h r"
    if "turns_of n (kv, G) p0 = ((kv', G'), p')"
    using run_turns [of "race_state J kv G p0 p1 p2 t1 h r" 0 n kv' G' p' J] that upd [of 0 t1] by (simp add: race_state_sel)
  show "sh_run J (race_state J kv G p0 p1 p2 Working h r) (replicate n (Turn 1 Answered)) = race_state J kv' G' p0 p' p2 Working h r"
    if "turns_of n (kv, G) p1 = ((kv', G'), p')"
    using run_turns [of "race_state J kv G p0 p1 p2 Working h r" 1 n kv' G' p' J] that upd [of 1 Working] by (simp add: race_state_sel [unfolded One_nat_def])
  show "sh_run J (race_state J kv G p0 p1 p2 t1 h r) (replicate n (Turn 2 Answered)) = race_state J kv' G' p0 p1 p' t1 h r"
    if "turns_of n (kv, G) p2 = ((kv', G'), p')"
    using run_turns [of "race_state J kv G p0 p1 p2 t1 h r" 2 n kv' G' p' J] that upd [of 2 t1] by (simp add: race_state_sel)
qed

lemma race_begin:
  "cfg_ok new \<Longrightarrow> Num new \<le> Num (published J kv) + 1 \<Longrightarrow>
   sh_step J (race_state J kv G p0 p1 p2 t1 h r) (Begin 0 (ChangeTo new) f) =
     race_state J kv G (ChangeConfigTo J f new) p1 p2 t1 h r"
  "cfg_ok new \<Longrightarrow> Num new \<le> Num (published J kv) + 1 \<Longrightarrow>
   sh_step J (race_state J kv G p0 p1 p2 t1 h r) (Begin 2 (ChangeTo new) f) =
     race_state J kv G p0 p1 (ChangeConfigTo J f new) t1 h r"
  "sh_step J (race_state J kv G p0 p1 p2 t1 h r) (Begin 1 Recover f) =
     race_state J kv G p0 (InitController J f) p2 FirstRead h r"
  by (auto simp: begin_proc_def may_begin_def race_state_def fun_eq_iff)

lemma race_reads:
  assumes J: "json_ok J"
  shows "sh_step J (race_state J (kvs J c ver nxt) G p0 (InitController J f) p2 FirstRead h r) (Turn 1 Answered) =
      race_state J (kvs J c ver nxt) G p0 (recover_second J f c) p2 (SecondRead (Num c)) h r"
    "Num c' < Num new \<Longrightarrow>
     sh_step J (race_state J (kvs J c ver (Some (new, nv))) G p0 (recover_second J f c') p2 (SecondRead k) h r) (Turn 1 Answered) =
      race_state J (kvs J c ver (Some (new, nv))) G p0 (finish J f c' new) p2 Working h (r \<or> Num c \<noteq> k)"
  by (auto simp: turn_proc_def turn_call_def InitController_reads recover_second_def readConfigNext_then kvs_read [OF J]
      next_stage_def stale_read_def race_state_def fun_eq_iff)

lemma race_clients:
  "sh_step J (race_state J kv (race_groups (gst 1 Map.empty True 0) b) p0 p1 p2 t1 h r) (Client 1 (ShPut race_put)) =
     race_state J kv (race_groups (gst 1 race_data True 0) b) p0 p1 p2 t1 (h @ [(ShPut race_put, SrPut OK)]) r"
  "sh_step J (race_state J kv (race_groups a (gst 2 Map.empty True k)) p0 p1 p2 t1 h r) (Client 2 (ShGet \<lparr>getKey = ''a''\<rparr>)) =
     race_state J kv (race_groups a (gst 2 Map.empty True k)) p0 p1 p2 t1
       (h @ [(ShGet \<lparr>getKey = ''a''\<rparr>, SrGet \<lparr>grValue = [], grVersion = 0, grErr = ErrNoKey\<rparr>)]) r"
  by (auto simp: client_call_def race_exec race_client race_state_def simp del: sg_DoOp.simps)

text \<open>The part of the run before the recovery goes wrong, with the publication at once.\<close>

definition calm_run :: "shEvent list" where
  "calm_run =
     [Client 1 (ShPut race_put), Begin 0 (ChangeTo race_c2) 1] @ replicate 4 (Turn 0 Answered) @
     replicate 3 (Turn 0 Answered) @ replicate 2 (Turn 0 Answered)"

lemma race_start_state:
  "sh_init J race_c1 = race_state J (kvs J race_c1 1 None)
     (race_groups (gst 1 Map.empty True 0) (gst 2 Map.empty False 0)) Halt Halt Halt Working [] False"
  using race_init [of J race_c1] race_start by (auto simp: race_state_def sh_init_def Let_def fun_eq_iff)

lemma race_claim2:
  assumes "json_ok J"
  shows "turns_of 4 (kvs J race_c1 1 None, G) (ChangeConfigTo J 1 race_c2) =
      ((kvs J race_c1 1 (Some (race_c2, 1)), G), finish J 1 race_c1 race_c2)"
  using turns_claim [OF assms, of race_c1 race_c2 None 1 G 1] race_cfgs by simp

lemma race_claim3:
  assumes "json_ok J"
  shows "turns_of 4 (kvs J race_c2 2 (Some (race_c2, 1)), G) (ChangeConfigTo J 1 race_c3) =
      ((kvs J race_c2 2 (Some (race_c3, 2)), G), finish J 1 race_c2 race_c3)"
  using turns_claim [OF assms, of race_c2 race_c3 "Some (race_c2, 1)" 2 G 1] race_cfgs by simp

lemma race_publish2:
  assumes "json_ok J"
  shows "turns_of 2 (kvs J race_c1 1 nxt, G) (publish J 1 race_c2) = ((kvs J race_c2 2 nxt, G), Ret ())"
  using turns_publish [OF assms, of race_c1 race_c2 1 nxt G 0] race_cfgs by simp

lemmas race_move2 = turns_move [where fuel = 0, folded One_nat_def]

lemma calm_state:
  assumes J: "json_ok J"
  shows "sh_run J (sh_init J race_c1) calm_run =
    race_state J (kvs J race_c2 2 (Some (race_c2, 1))) (race_groups (gst 1 Map.empty False 2) (gst 2 race_data True 2))
      (Ret ()) Halt Halt Working [(ShPut race_put, SrPut OK)] False"
  unfolding calm_run_def race_start_state run_append run_Cons run_Nil race_clients
  by (simp only: race_begin race_cfgs kvs_read [OF J] race_turns(1) [OF race_claim2 [OF J]] race_turns(1) [OF race_move2]
      race_turns(1) [OF race_publish2 [OF J]] append.simps one_add_one order_refl)

text \<open>
  An encoding to instantiate the properties with: numbers in unary, lists behind their length.
\<close>

definition enc_nat :: "nat \<Rightarrow> string" where
  "enc_nat n = replicate n CHR ''x'' @ ''.''"

fun dec_nat :: "string \<Rightarrow> nat \<times> string" where
  "dec_nat [] = (0, [])"
| "dec_nat (c # s) = (if c = CHR ''x'' then let (n, r) = dec_nat s in (Suc n, r) else (0, s))"

definition enc_int :: "int \<Rightarrow> string" where
  "enc_int i = enc_nat (nat i) @ enc_nat (nat (- i))"

definition dec_int :: "string \<Rightarrow> int \<times> string" where
  "dec_int s = (let (n, r) = dec_nat s; (m, r') = dec_nat r in (int n - int m, r'))"

definition enc_list :: "('a \<Rightarrow> string) \<Rightarrow> 'a list \<Rightarrow> string" where
  "enc_list e xs = enc_nat (length xs) @ concat (map e xs)"

fun dec_items :: "(string \<Rightarrow> 'a \<times> string) \<Rightarrow> nat \<Rightarrow> string \<Rightarrow> 'a list \<times> string" where
  "dec_items d 0 s = ([], s)"
| "dec_items d (Suc n) s = (let (x, r) = d s; (xs, r') = dec_items d n r in (x # xs, r'))"

definition dec_list :: "(string \<Rightarrow> 'a \<times> string) \<Rightarrow> string \<Rightarrow> 'a list \<times> string" where
  "dec_list d s = (let (n, r) = dec_nat s in dec_items d n r)"

definition enc_char :: "char \<Rightarrow> string" where
  "enc_char c = [c]"

definition dec_char :: "string \<Rightarrow> char \<times> string" where
  "dec_char s = (case s of [] \<Rightarrow> (CHR ''.'', []) | c # r \<Rightarrow> (c, r))"

definition enc_group :: "Tgid \<times> string list \<Rightarrow> string" where
  "enc_group p = enc_int (fst p) @ enc_list (enc_list enc_char) (snd p)"

definition dec_group :: "string \<Rightarrow> (Tgid \<times> string list) \<times> string" where
  "dec_group s = (let (g, r) = dec_int s; (ss, r') = dec_list (dec_list dec_char) r in ((g, ss), r'))"

definition demo_json :: json where
  "demo_json =
     \<lparr>marshal = (\<lambda>c. enc_int (Num c) @ enc_list enc_int (Shards c) @ enc_list enc_group (Groups c)),
      unmarshal = (\<lambda>s. let (n, r) = dec_int s; (ss, r') = dec_list dec_int r; (gs, _) = dec_list dec_group r'
         in \<lparr>Num = n, Shards = ss, Groups = gs\<rparr>)\<rparr>"

lemma dec_enc_nat: "dec_nat (enc_nat n @ r) = (n, r)"
  by (induction n) (simp_all add: enc_nat_def)

lemma dec_enc_int: "dec_int (enc_int i @ r) = (i, r)"
  by (simp add: enc_int_def dec_int_def dec_enc_nat)

lemma dec_enc_list:
  assumes "\<And>x r. d (e x @ r) = (x, r)" shows "dec_list d (enc_list e xs @ r) = (xs, r)"
proof -
  have "dec_items d (length xs) (concat (map e xs) @ r) = (xs, r)"
    by (induction xs) (simp_all add: assms)
  then show ?thesis by (simp add: dec_list_def enc_list_def dec_enc_nat)
qed

lemma dec_enc_group: "dec_group (enc_group p @ r) = (p, r)"
  by (simp add: dec_group_def enc_group_def dec_enc_int dec_enc_list enc_char_def dec_char_def)

lemma demo_json_ok: "json_ok demo_json"
proof -
  have "dec_list dec_group (enc_list enc_group gs) = (gs, [])" for gs
    using dec_enc_list [of dec_group enc_group gs "[]"] dec_enc_group by simp
  then show ?thesis by (simp add: json_ok_def demo_json_def dec_enc_int dec_enc_list)
qed

section \<open>Properties\<close>

text \<open>
  C1. To its clients the sharded service is one key/value server: in every run, with any number of
  controllers running, failing and taking over, lost and repeated requests and clients asking any
  group, the answered commands are those of one server in the order of the history, a refused
  one did nothing, no two groups serve a shard at the same time, and the group that serves one
  has exactly its part of the data. (It is assumed that no recovering controller read the two
  configurations with a publication in between, see the next property, and that there were
  fewer than \<open>2^64 - 2\<close> steps, so that no version wraps.)
\<close>

theorem shardkv_is_one_server:
  assumes "json_ok J" "start_ok c" "length es < 2 ^ 64 - 2" "\<not> raced (sh_run J (sh_init J c) es)"
  shows "one_server MakeKVServer (history (sh_run J (sh_init J c) es)) \<and>
    (\<forall>s < NShards. \<forall>g. serves (grp (sh_run J (sh_init J c) es)) g s \<longrightarrow>
       held (grp (sh_run J (sh_init J c) es)) g s =
         part_of (final_server MakeKVServer (history (sh_run J (sh_init J c) es))) s \<and>
       (\<forall>g'. serves (grp (sh_run J (sh_init J c) es)) g' s \<longrightarrow> g' = g))"
proof -
  let ?st = "sh_run J (sh_init J c) es"
  have i: "sh_inv J {} ?st (1 + length es)"
    using assms(3,4) by (intro run_inv [OF assms(1) init_inv [OF assms(1,2)]]) simp_all
  then have v: "vinv J (view_of ?st (1 + length es))" and one: "one_server MakeKVServer (history ?st)"
    by (simp_all add: sh_inv_def)
  show ?thesis using one served_holds(1,2) [OF vinvD(5) [OF v]] by simp
qed

lemma shardkv_is_one_server_witness:
  "serves (grp (sh_run demo_json (sh_init demo_json race_c1) calm_run)) 2 4 \<and>
   held (grp (sh_run demo_json (sh_init demo_json race_c1) calm_run)) 2 4 =
     part_of (final_server MakeKVServer [(ShPut race_put, SrPut OK)]) 4"
proof -
  note calm = calm_state [OF demo_json_ok]
  have nr: "\<not> raced (sh_run demo_json (sh_init demo_json race_c1) calm_run)" unfolding calm by (simp add: race_state_def)
  have "length calm_run < 2 ^ 64 - 2" by (simp add: calm_run_def)
  note one = shardkv_is_one_server [OF demo_json_ok race_cfgs(3) this nr]
  have "serves (grp (sh_run demo_json (sh_init demo_json race_c1) calm_run)) 2 4"
    unfolding calm by (simp add: race_state_sel race_exec gst_def NShards_def)
  then show ?thesis using one by (simp add: calm race_state_sel NShards_def)
qed

text \<open>
  C19. Configurations are published in the order of their numbers, one for each number: in every
  run, also when recoveries race, the published number never goes back, as long as it is the same
  the configuration is the same, and the claimed configuration gives every shard to one of its
  groups and is at most one ahead. (Fewer than \<open>2^64 - 1\<close> steps, so that no version wraps.)
\<close>

theorem configurations_advance:
  assumes "json_ok J" "start_ok c" "length (es @ es') < 2 ^ 64 - 1"
  shows "Num (published J (store (sh_run J (sh_init J c) es))) \<le>
      Num (published J (store (sh_run J (sh_init J c) (es @ es')))) \<and>
    (Num (published J (store (sh_run J (sh_init J c) es))) =
      Num (published J (store (sh_run J (sh_init J c) (es @ es')))) \<longrightarrow>
     published J (store (sh_run J (sh_init J c) es)) = published J (store (sh_run J (sh_init J c) (es @ es')))) \<and>
    (\<forall>n. claimed J (store (sh_run J (sh_init J c) es)) = Some n \<longrightarrow>
       cfg_ok n \<and> Num n \<le> Num (published J (store (sh_run J (sh_init J c) es))) + 1)"
proof -
  let ?s1 = "sh_run J (sh_init J c) es" and ?s2 = "sh_run J (sh_init J c) (es @ es')"
  let ?F = "{Past (published J (store ?s1))}"
  have i: "cfg_inv J {} ?s1 (1 + length es)"
    using assms(3) by (intro cfg_run [OF assms(1) cfg_start [OF assms(1,2)]]) simp
  then have "cfg_inv J ?F ?s1 (1 + length es)" by (simp add: cfg_inv_def true_in.simps)
  from cfg_run [OF assms(1) this, of es'] have "cfg_inv J ?F ?s2 (1 + length es + length es')"
    using assms(3) by (simp add: run_append)
  then show ?thesis using i by (auto simp: cfg_inv_def sound_def true_in.simps)
qed

text \<open>The calm run publishes configuration 2; the events of the racing run after it do not take it back.\<close>

lemma configurations_advance_witness:
  "Num (published demo_json (store (sh_run demo_json (sh_init demo_json race_c1) calm_run))) = 2 \<and>
   Num (published demo_json (store (sh_run demo_json (sh_init demo_json race_c1) calm_run)))
     \<le> Num (published demo_json (store (sh_run demo_json (sh_init demo_json race_c1) (calm_run @ race_run))))"
proof -
  have "length (calm_run @ race_run) < 2 ^ 64 - 1" by (simp add: calm_run_def race_run_def)
  from configurations_advance [OF demo_json_ok race_cfgs(3) this]
  show ?thesis by (simp add: calm_state [OF demo_json_ok] race_state_sel kvs_read [OF demo_json_ok] race_cfgs)
qed

text \<open>
  C20. A recovering controller can destroy data. It reads the current configuration and then the
  claimed one; when in between the current one is replaced and the next one claimed, it moves the
  shards from a configuration that is two behind, installs the empty remains of the old owner
  over the live data, and everything is lost: in this run a Put was answered OK and a later Get
  of the same key, at the group that serves it, answers that the key does not exist.
\<close>

theorem recovery_race_loses_data:
  assumes J: "json_ok J"
  shows "\<not> one_server MakeKVServer (history (sh_run J (sh_init J race_c1) race_run)) \<and>
    history (sh_run J (sh_init J race_c1) race_run) =
      [(ShPut race_put, SrPut OK),
       (ShGet \<lparr>getKey = ''a''\<rparr>, SrGet \<lparr>grValue = [], grVersion = 0, grErr = ErrNoKey\<rparr>)]"
proof -
  obtain p where replay: "turns_of 2 (kvs J race_c2 2 (Some (race_c3, 2)), race_groups (gst 1 Map.empty False 2) (gst 2 race_data True 2))
      (finish J 1 race_c1 race_c3) = ((kvs J race_c2 2 (Some (race_c3, 2)), race_groups (gst 1 Map.empty False 3) (gst 2 Map.empty True 3)), p)"
    using turns_replay by (metis One_nat_def)
  have h: "history (sh_run J (sh_init J race_c1) race_run) =
      [(ShPut race_put, SrPut OK),
       (ShGet \<lparr>getKey = ''a''\<rparr>, SrGet \<lparr>grValue = [], grVersion = 0, grErr = ErrNoKey\<rparr>)]"
    unfolding race_run_def race_start_state run_append run_Cons run_Nil race_clients
    by (simp only: race_begin race_cfgs kvs_read [OF J] race_turns(1) [OF race_claim2 [OF J]] race_turns(1) [OF race_move2] race_reads [OF J]
        race_turns(1) [OF race_publish2 [OF J]] race_turns(3) [OF race_claim3 [OF J]] race_turns(2) [OF replay] race_clients race_state_sel
        append.simps one_add_one order_refl)
  show ?thesis unfolding h by (simp add: race_put_def kv_Put_def kv_Get_def MakeKVServer_def)
qed

lemma recovery_race_loses_data_witness:
  "\<not> one_server MakeKVServer (history (sh_run demo_json (sh_init demo_json race_c1) race_run))"
  using recovery_race_loses_data [OF demo_json_ok] by blast

end
