(* ===== verification/Shard_Group_Clerk.thy ===== *)
theory Shard_Group_Clerk
  imports Shard_Group
begin

text \<open>
  The clerk of one group (src/src/shardkv1/shardgrp/client.go): five loops that go round the
  group's servers until one answers, and that give up after a round in which nobody could be
  got. As in \<open>KV_Raft\<close>, one turn of a loop is the background of other commands and late
  copies, and the fate of one call.
\<close>

section \<open>Get and Put\<close>

datatype gout = Ordinary outcome | WrongGroup

definition gone_call :: "('s \<Rightarrow> PutArgs \<Rightarrow> 's \<times> Err) \<Rightarrow> 's \<Rightarrow> PutArgs \<Rightarrow> gout \<Rightarrow> 's \<times> Err list \<times> Err option" where
  "gone_call put s a f =
     (case f of Ordinary f \<Rightarrow> one_call put s a f | WrongGroup \<Rightarrow> (s, [], Some ErrWrongGroup))"

record gclerk =
  gcServers :: "string list"
  gcLeader :: nat

definition MakeGroupClerk :: "string list \<Rightarrow> gclerk" where
  "MakeGroupClerk servers = \<lparr>gcServers = servers, gcLeader = 0\<rparr>"

definition Leader :: "gclerk \<Rightarrow> nat" where
  "Leader ck = gcLeader ck"

record gput =
  gpErr :: Err
  gpLeader :: nat
  gpLog :: "Err list"

type_synonym gturn = "background list \<times> gout"

text \<open>
  Put with \<open>n\<close> servers, \<open>i\<close> the counter of the inner loop; \<open>ever\<close> says that copies of an earlier
  call of Put may still be on their way. No result while it is still going round.
\<close>

fun gc_Put :: "('s \<Rightarrow> PutArgs \<Rightarrow> 's \<times> Err) \<Rightarrow> 's \<Rightarrow> PutArgs \<Rightarrow> nat \<Rightarrow> nat \<Rightarrow> nat \<Rightarrow> bool \<Rightarrow> bool \<Rightarrow> bool \<Rightarrow>
    gturn list \<Rightarrow> (gput \<times> 's) option" where
  "gc_Put put s a n leader i got resent ever [] =
     (if n = 0 then Some (\<lparr>gpErr = ErrWrongGroup, gpLeader = leader, gpLog = []\<rparr>, s) else None)"
| "gc_Put put s a n leader i got resent ever ((bs, f) # rest) =
     (if n = 0 then Some (\<lparr>gpErr = ErrWrongGroup, gpLeader = leader, gpLog = []\<rparr>, s)
      else
        let srv = (leader + i) mod n;
            (s1, l1) = happens put s a (ever \<or> resent) bs;
            (s2, l2, reply) = gone_call put s1 a f
        in if reply = Some ErrWrongGroup then
             Some (\<lparr>gpErr = ErrWrongGroup, gpLeader = srv, gpLog = l1 @ l2\<rparr>, s2)
           else if reply = Some ErrVersion then
             Some (\<lparr>gpErr = (if resent then ErrMaybe else ErrVersion), gpLeader = srv, gpLog = l1 @ l2\<rparr>, s2)
           else if reply = Some OK then Some (\<lparr>gpErr = OK, gpLeader = srv, gpLog = l1 @ l2\<rparr>, s2)
           else if reply = Some ErrNoKey then Some (\<lparr>gpErr = ErrNoKey, gpLeader = srv, gpLog = l1 @ l2\<rparr>, s2)
           else
             let got' = (got \<or> reply \<noteq> None) in
             if i + 1 < n then
               map_option (\<lambda>(r, s'). (r\<lparr>gpLog := l1 @ l2 @ gpLog r\<rparr>, s'))
                 (gc_Put put s2 a n leader (i + 1) got' True ever rest)
             else if \<not> got' then
               Some (\<lparr>gpErr = ErrWrongGroup, gpLeader = leader, gpLog = l1 @ l2\<rparr>, s2)
             else
               map_option (\<lambda>(r, s'). (r\<lparr>gpLog := l1 @ l2 @ gpLog r\<rparr>, s'))
                 (gc_Put put s2 a n leader 0 False True ever rest))"

text \<open>Get; an answer of the group is a reply, whatever it says of the shard.\<close>

fun gc_Get :: "('s \<Rightarrow> PutArgs \<Rightarrow> 's \<times> Err) \<Rightarrow> ('s \<Rightarrow> GetArgs \<Rightarrow> GetReply) \<Rightarrow> 's \<Rightarrow> GetArgs \<Rightarrow> nat \<Rightarrow> nat \<Rightarrow>
    nat \<Rightarrow> bool \<Rightarrow> (PutArgs list \<times> gout) list \<Rightarrow> (GetReply \<times> nat \<times> 's) option" where
  "gc_Get put get s a n leader i got [] =
     (if n = 0 then Some (\<lparr>grValue = [], grVersion = 0, grErr = ErrWrongGroup\<rparr>, leader, s) else None)"
| "gc_Get put get s a n leader i got ((os, f) # rest) =
     (if n = 0 then Some (\<lparr>grValue = [], grVersion = 0, grErr = ErrWrongGroup\<rparr>, leader, s)
      else
        let srv = (leader + i) mod n;
            s1 = others put s os;
            reply = (case f of
                WrongGroup \<Rightarrow> Some \<lparr>grValue = [], grVersion = 0, grErr = ErrWrongGroup\<rparr>
              | Ordinary (NoAnswer ex) \<Rightarrow> None
              | Ordinary (NotLeader ex) \<Rightarrow> Some \<lparr>grValue = [], grVersion = 0, grErr = ErrWrongLeader\<rparr>
              | Ordinary Answer \<Rightarrow> Some (get s1 a));
            next_round = (\<lambda>got'.
               if i + 1 < n then gc_Get put get s1 a n leader (i + 1) got' rest
               else if \<not> got' then Some (\<lparr>grValue = [], grVersion = 0, grErr = ErrWrongGroup\<rparr>, leader, s1)
               else gc_Get put get s1 a n leader 0 False rest)
        in case reply of
             None \<Rightarrow> next_round got
           | Some r \<Rightarrow>
               if grErr r = OK \<or> grErr r = ErrNoKey \<or> grErr r = ErrWrongGroup then Some (r, srv, s1)
               else next_round True)"

section \<open>The controller's three commands\<close>

text \<open>
  The shape the three loops share: what the group's state machine executes is the other commands
  of the background and, when the call takes effect, the command. The result is the reply, or
  none when a whole round could not reach anybody, with the commands executed on the way.
\<close>

record gcmd =
  gmReply :: "shRep option"
  gmLeader :: nat
  gmDone :: "shReq list"

fun gc_Command :: "shardState \<Rightarrow> shReq \<Rightarrow> nat \<Rightarrow> nat \<Rightarrow> nat \<Rightarrow> bool \<Rightarrow> (shReq list \<times> outcome) list \<Rightarrow>
    (gcmd \<times> shardState) option" where
  "gc_Command st q n leader i got [] =
     (if n = 0 then Some (\<lparr>gmReply = None, gmLeader = leader, gmDone = []\<rparr>, st) else None)"
| "gc_Command st q n leader i got ((qs, f) # rest) =
     (if n = 0 then Some (\<lparr>gmReply = None, gmLeader = leader, gmDone = []\<rparr>, st)
      else
        let srv = (leader + i) mod n;
            s1 = sg_exec st qs;
            ran = (case f of NoAnswer ex \<Rightarrow> ex | NotLeader ex \<Rightarrow> ex | Answer \<Rightarrow> True);
            s2 = (if ran then fst (sg_DoOp s1 q) else s1);
            l = qs @ (if ran then [q] else []);
            go = (\<lambda>j re. map_option (\<lambda>(r, s'). (r\<lparr>gmDone := l @ gmDone r\<rparr>, s')) (gc_Command s2 q n leader j re rest));
            next_round = (\<lambda>got'.
               if i + 1 < n then go (i + 1) got'
               else if \<not> got' then Some (\<lparr>gmReply = None, gmLeader = leader, gmDone = l\<rparr>, s2)
               else go 0 False)
        in case f of
             NoAnswer ex \<Rightarrow> next_round got
           | NotLeader ex \<Rightarrow> next_round True
           | Answer \<Rightarrow>
               case snd (sg_DoOp s1 q) of
                 None \<Rightarrow> next_round got
               | Some r \<Rightarrow>
                   if repErr r = Rpc OK \<or> repErr r = ErrStale
                   then Some (\<lparr>gmReply = Some r, gmLeader = srv, gmDone = l\<rparr>, s2)
                   else next_round True)"

definition gc_FreezeShard ::
  "shardState \<Rightarrow> gclerk \<Rightarrow> Tshid \<Rightarrow> Tnum \<Rightarrow> (shReq list \<times> outcome) list \<Rightarrow> (shardBytes \<times> shErr) option" where
  "gc_FreezeShard st ck s num ts =
     map_option (\<lambda>(r, _). case gmReply r of Some (SrFreeze rep) \<Rightarrow> (frState rep, frErr rep) | _ \<Rightarrow> (None, ErrUnreachable))
       (gc_Command st (ShFreeze \<lparr>fzShard = s, fzNum = num\<rparr>) (length (gcServers ck)) (gcLeader ck) 0 False ts)"

definition gc_InstallShard ::
  "shardState \<Rightarrow> gclerk \<Rightarrow> Tshid \<Rightarrow> shardBytes \<Rightarrow> Tnum \<Rightarrow> (shReq list \<times> outcome) list \<Rightarrow> shErr option" where
  "gc_InstallShard st ck s state num ts =
     map_option (\<lambda>(r, _). case gmReply r of Some (SrInstall e) \<Rightarrow> e | _ \<Rightarrow> ErrUnreachable)
       (gc_Command st (ShInstall \<lparr>inShard = s, inState = state, inNum = num\<rparr>) (length (gcServers ck)) (gcLeader ck) 0 False ts)"

definition gc_DeleteShard ::
  "shardState \<Rightarrow> gclerk \<Rightarrow> Tshid \<Rightarrow> Tnum \<Rightarrow> (shReq list \<times> outcome) list \<Rightarrow> shErr option" where
  "gc_DeleteShard st ck s num ts =
     map_option (\<lambda>(r, _). case gmReply r of Some (SrDelete e) \<Rightarrow> e | _ \<Rightarrow> ErrUnreachable)
       (gc_Command st (ShDelete \<lparr>dlShard = s, dlNum = num\<rparr>) (length (gcServers ck)) (gcLeader ck) 0 False ts)"

section \<open>What a command's result says\<close>

text \<open>
  The group's state is that of the executed commands in their order, and a reply is the one the
  last of them got.
\<close>

lemma gc_Command_turn:
  assumes "gc_Command st q n leader i got ((qs, f) # ts) = Some (r, st')" "0 < n"
  obtains
    (answered) p where "f = Answer" "snd (sg_DoOp (sg_exec st qs) q) = Some p" "repErr p = Rpc OK \<or> repErr p = ErrStale"
      "gmReply r = Some p" "gmDone r = qs @ [q]" "st' = fst (sg_DoOp (sg_exec st qs) q)"
    | (gave_up) l where "l = [] \<or> l = [q]" "gmReply r = None" "gmDone r = qs @ l" "st' = sg_exec (sg_exec st qs) l"
    | (next_turn) l j re r' where "l = [] \<or> l = [q]" "gc_Command (sg_exec (sg_exec st qs) l) q n leader j re ts = Some (r', st')"
      "gmReply r = gmReply r'" "gmDone r = qs @ l @ gmDone r'"
proof -
  define ran where "ran = (case f of NoAnswer ex \<Rightarrow> ex | NotLeader ex \<Rightarrow> ex | Answer \<Rightarrow> True)"
  define l where "l = (if ran then [q] else [])"
  define s2 where "s2 = sg_exec (sg_exec st qs) l"
  have s2: "(if ran then fst (sg_DoOp (sg_exec st qs) q) else sg_exec st qs) = s2" by (simp add: s2_def l_def)
  have l: "l = [] \<or> l = [q]" by (simp add: l_def)
  define go where "go = (\<lambda>j re. map_option (\<lambda>(r, s'). (r\<lparr>gmDone := (qs @ l) @ gmDone r\<rparr>, s')) (gc_Command s2 q n leader j re ts))"
  define nxt where "nxt = (\<lambda>re. if i + 1 < n then go (i + 1) re
      else if \<not> re then Some (\<lparr>gmReply = None, gmLeader = leader, gmDone = qs @ l\<rparr>, s2) else go 0 False)"
  have nxt: thesis if "nxt re = Some (r, st')" for re
    using that gave_up [OF l] next_turn [OF l] unfolding nxt_def go_def s2_def
    by (auto split: if_splits)
  have step: "(case f of NoAnswer ex \<Rightarrow> nxt got | NotLeader ex \<Rightarrow> nxt True
      | Answer \<Rightarrow> (case snd (sg_DoOp (sg_exec st qs) q) of None \<Rightarrow> nxt got
          | Some p \<Rightarrow> if repErr p = Rpc OK \<or> repErr p = ErrStale
              then Some (\<lparr>gmReply = Some p, gmLeader = (leader + i) mod n, gmDone = qs @ l\<rparr>, s2) else nxt True)) = Some (r, st')"
    using assms by (cases f) (auto simp: Let_def nxt_def go_def s2_def l_def ran_def split: option.splits)
  show thesis
  proof (cases f)
    case Answer
    then have ll: "l = [q]" by (simp add: l_def ran_def)
    show thesis
    proof (cases "snd (sg_DoOp (sg_exec st qs) q)")
      case (Some p)
      then show thesis using step Answer nxt [of True] answered [OF Answer Some] ll s2_def
        by (auto split: if_splits)
    qed (use step Answer nxt in auto)
  qed (use step nxt in auto)
qed

lemma gc_Command_explained:
  "gc_Command st q n leader i got ts = Some (r, st') \<Longrightarrow>
   st' = sg_exec st (gmDone r) \<and> set (gmDone r) \<subseteq> insert q (\<Union>(qs, f) \<in> set ts. set qs) \<and>
   (\<forall>p. gmReply r = Some p \<longrightarrow>
      (\<exists>bfr. gmDone r = bfr @ [q] \<and> snd (sg_DoOp (sg_exec st bfr) q) = Some p \<and>
         (repErr p = Rpc OK \<or> repErr p = ErrStale)))"
proof (induction ts arbitrary: st i got r)
  case Nil
  then show ?case by (auto split: if_splits)
next
  case (Cons t ts)
  obtain qs f where t: "t = (qs, f)" by (cases t)
  show ?case
  proof (cases "n = 0")
    case True
    then show ?thesis using Cons.prems t by auto
  next
    case False
    then have n: "0 < n" by simp
    from Cons.prems [unfolded t] n show ?thesis
    proof (cases rule: gc_Command_turn)
      case (answered p)
      then show ?thesis using t by (auto simp: exec_append)
    next
      case (gave_up l)
      then show ?thesis using t by (auto simp: exec_append)
    next
      case (next_turn l j re r')
      then show ?thesis using Cons.IH [OF next_turn(2)] t by (auto simp: exec_append)
    qed
  qed
qed
text \<open>A group that answers nobody does not hold the caller: one round, and the call is given up.\<close>

lemma dead_group:
  "\<forall>(qs, f) \<in> set ts. \<exists>ex. f = NoAnswer ex \<Longrightarrow> n - i \<le> length ts \<Longrightarrow> i \<le> n \<Longrightarrow> i = n \<longrightarrow> n = 0 \<Longrightarrow>
   \<exists>r st'. gc_Command st q n leader i False ts = Some (r, st') \<and> gmReply r = None"
proof (induction ts arbitrary: st i)
  case (Cons t ts)
  obtain qs ex where t: "t = (qs, NoAnswer ex)" using Cons.prems(1) by (cases t) auto
  show ?case
  proof (cases "i + 1 < n")
    case True
    have "\<exists>r st'. gc_Command (if ex then fst (sg_DoOp (sg_exec st qs) q) else sg_exec st qs) q n leader (i + 1) False ts = Some (r, st')
        \<and> gmReply r = None"
      by (rule Cons.IH) (use Cons.prems True in auto)
    then obtain r st' where "gc_Command (if ex then fst (sg_DoOp (sg_exec st qs) q) else sg_exec st qs) q n leader (i + 1) False ts = Some (r, st')"
        "gmReply r = None" by blast
    then show ?thesis using t True by (cases ex) (simp_all add: Let_def)
  qed (use t Cons.prems in \<open>auto simp: Let_def\<close>)
qed auto

section \<open>What Put says, for any versioned store\<close>

definition gturns :: "gturn list \<Rightarrow> nat" where
  "gturns ts = (\<Sum>(bs, f) \<leftarrow> ts. Suc (length bs))"

lemma gturns_simps [simp]: "gturns [] = 0" "gturns ((bs, f) # ts) = Suc (length bs) + gturns ts"
  by (simp_all add: gturns_def)

text \<open>One turn: a final answer, the end of the last round, or on to the next server.\<close>

lemma gc_Put_turn:
  assumes "gc_Put put s a n leader i got resent ever ((bs, f) # ts) = Some (r, s')"
    and "happens put s a (ever \<or> resent) bs = (s1, l1)" "gone_call put s1 a f = (s2, l2, reply)"
    and "0 < n"
  obtains
    (answered) e where "reply = Some e" "e \<in> {OK, ErrNoKey, ErrVersion, ErrWrongGroup}" "s' = s2" "gpLog r = l1 @ l2"
      "gpErr r = (if e = ErrVersion \<and> resent then ErrMaybe else e)"
    | (gave_up) "gpErr r = ErrWrongGroup" "s' = s2" "gpLog r = l1 @ l2"
    | (next_turn) j g r' where "gc_Put put s2 a n leader j g True ever ts = Some (r', s')"
      "gpErr r = gpErr r'" "gpLog r = l1 @ l2 @ gpLog r'"
proof -
  have nz: "(n = 0) = False" using assms(4) by simp
  have E: "(if reply = Some ErrWrongGroup then Some (\<lparr>gpErr = ErrWrongGroup, gpLeader = (leader + i) mod n, gpLog = l1 @ l2\<rparr>, s2)
      else if reply = Some ErrVersion then
        Some (\<lparr>gpErr = (if resent then ErrMaybe else ErrVersion), gpLeader = (leader + i) mod n, gpLog = l1 @ l2\<rparr>, s2)
      else if reply = Some OK then Some (\<lparr>gpErr = OK, gpLeader = (leader + i) mod n, gpLog = l1 @ l2\<rparr>, s2)
      else if reply = Some ErrNoKey then Some (\<lparr>gpErr = ErrNoKey, gpLeader = (leader + i) mod n, gpLog = l1 @ l2\<rparr>, s2)
      else if i + 1 < n then map_option (\<lambda>(r, s'). (r\<lparr>gpLog := l1 @ l2 @ gpLog r\<rparr>, s'))
        (gc_Put put s2 a n leader (i + 1) (got \<or> reply \<noteq> None) True ever ts)
      else if \<not> (got \<or> reply \<noteq> None) then Some (\<lparr>gpErr = ErrWrongGroup, gpLeader = leader, gpLog = l1 @ l2\<rparr>, s2)
      else map_option (\<lambda>(r, s'). (r\<lparr>gpLog := l1 @ l2 @ gpLog r\<rparr>, s'))
        (gc_Put put s2 a n leader 0 False True ever ts)) = Some (r, s')"
    using assms(1) unfolding gc_Put.simps Let_def assms(2,3) prod.case nz if_False .
  show thesis
  proof (cases "reply \<in> Some ` {OK, ErrNoKey, ErrVersion, ErrWrongGroup}")
    case True
    then show thesis using E answered by auto
  next
    case False
    then consider "i + 1 < n" | "\<not> i + 1 < n" "\<not> (got \<or> reply \<noteq> None)" | "\<not> i + 1 < n" "got \<or> reply \<noteq> None" by blast
    then show thesis
    proof cases
      case 1
      then show thesis using E False next_turn by auto
    next
      case 2
      then show thesis using E False gave_up by auto
    next
      case 3
      have "reply \<noteq> Some e" if "e \<in> {OK, ErrNoKey, ErrVersion, ErrWrongGroup}" for e using False that by blast
      then have "\<exists>r'. gc_Put put s2 a n leader 0 False True ever ts = Some (r', s') \<and> r = r'\<lparr>gpLog := l1 @ l2 @ gpLog r'\<rparr>"
        using E 3 by auto
      then show thesis using next_turn by auto
    qed
  qed
qed

context versioned_store begin

lemma gone_call_cases:
  assumes "gone_call put s a f = (s', l, reply)"
  shows "(s' = s \<and> l = [] \<or> s' = fst (put s a) \<and> l = [snd (put s a)]) \<and>
    (reply = None \<or> reply = Some ErrWrongLeader \<or> reply = Some ErrWrongGroup \<and> l = [] \<or>
     reply = Some (snd (put s a)) \<and> l = [snd (put s a)])"
  using assms one_call_cases by (cases f) (fastforce simp: gone_call_def)+

lemma gturn_settled:
  assumes h: "happens put s a resent bs = (s1, l1)" and c: "gone_call put s1 a f = (s2, l2, reply)"
    and len: "length bs < 2 ^ 64 - 1"
  shows "OK \<notin> set (l1 @ l2) \<or> length (filter (\<lambda>x. x = OK) (l1 @ l2)) = 1 \<and>
      passed s2 a (Suc (length bs)) \<and> (OK \<in> set l1 \<longrightarrow> snd (put s1 a) = ErrVersion)"
proof (cases f)
  case (Ordinary f')
  then show ?thesis using turn_settled [OF h _ len] c by (simp add: gone_call_def)
next
  case WrongGroup
  have "one_call put s1 a (NoAnswer False) = (s1, [], None)" by (simp add: one_call_def)
  from turn_settled [OF h this len] show ?thesis using c WrongGroup by (simp add: gone_call_def)
qed

lemma happens_fresh: "happens put s a False bs = (s', l) \<Longrightarrow> l = []"
  by (induction put s a False bs arbitrary: s' l rule: happens.induct) (auto split: prod.splits)

lemma no_OK: "set l \<subseteq> {ErrVersion} \<Longrightarrow> filter (\<lambda>x. x = OK) l = []"
  by (auto simp: filter_empty_conv)

text \<open>After a success every further copy fails with ErrVersion.\<close>

lemma gc_passed:
  "gc_Put put s a n leader i got resent ever ts = Some (r, s') \<Longrightarrow> passed s a j \<Longrightarrow> j + gturns ts < 2 ^ 64 \<Longrightarrow>
     set (gpLog r) \<subseteq> {ErrVersion} \<and> passed s' a (j + gturns ts) \<and>
     gpErr r \<in> {ErrVersion, ErrMaybe, ErrWrongGroup} \<and> (resent \<longrightarrow> gpErr r \<noteq> ErrVersion)"
proof (induction ts arbitrary: s i got resent r j)
  case Nil
  then show ?case by (auto split: if_splits)
next
  case (Cons t ts)
  obtain bs f where t: "t = (bs, f)" by (cases t)
  obtain s1 l1 where h: "happens put s a (ever \<or> resent) bs = (s1, l1)" by fastforce
  obtain s2 l2 reply where c: "gone_call put s1 a f = (s2, l2, reply)" by (metis prod_cases3)
  have P: "passed s1 a (j + length bs) \<and> set l1 \<subseteq> {ErrVersion}"
    by (rule happens_passed [OF h Cons.prems(2)]) (use Cons.prems(3) t in simp)
  then have e: "put s1 a = (s1, ErrVersion)" by (intro passed_reply) (use Cons.prems(3) t in auto)
  note C = gone_call_cases [OF c, unfolded e]
  have s2: "s2 = s1" "set l2 \<subseteq> {ErrVersion}" using C by auto
  have P2: "passed s2 a (j + length bs)" using P s2 by simp
  show ?case
  proof (cases "n = 0")
    case True
    then show ?thesis using Cons.prems t passed_mono by auto
  next
    case False
    then have n: "0 < n" by simp
    from Cons.prems(1) [unfolded t] h c n show ?thesis
    proof (cases rule: gc_Put_turn)
      case (answered e')
      then have "e' = ErrVersion \<or> e' = ErrWrongGroup" using C by auto
      then show ?thesis using answered P s2 P2 t passed_mono [OF P2, of "j + gturns (t # ts)"] by auto
    next
      case gave_up
      then show ?thesis using P s2 t passed_mono [OF P2, of "j + gturns (t # ts)"] by auto
    next
      case (next_turn k g r')
      have "j + length bs + gturns ts < 2 ^ 64" using Cons.prems(3) t by simp
      from Cons.IH [OF next_turn(1) P2 this]
      have "set (gpLog r') \<subseteq> {ErrVersion}" "passed s' a (j + length bs + gturns ts)"
        "gpErr r' \<in> {ErrVersion, ErrMaybe, ErrWrongGroup}" "gpErr r' \<noteq> ErrVersion" by auto
      then show ?thesis using next_turn P s2 t passed_mono [of s' a "j + length bs + gturns ts" "j + gturns (t # ts)"] by auto
    qed
  qed
qed

lemma gc_contract:
  "gc_Put put s a n leader i got resent ever ts = Some (r, s') \<Longrightarrow> gturns ts < 2 ^ 64 - 1 \<Longrightarrow>
   length (filter (\<lambda>x. x = OK) (gpLog r)) \<le> 1 \<and> (OK \<in> set (gpLog r) \<longrightarrow> passed s' a (gturns ts)) \<and>
   (gpErr r = OK \<longrightarrow> OK \<in> set (gpLog r)) \<and> (gpErr r = ErrNoKey \<longrightarrow> OK \<notin> set (gpLog r)) \<and>
   (gpErr r = ErrVersion \<longrightarrow> \<not> resent \<and> (ever \<or> OK \<notin> set (gpLog r))) \<and>
   gpErr r \<in> {OK, ErrNoKey, ErrVersion, ErrMaybe, ErrWrongGroup}"
proof (induction ts arbitrary: s i got resent r)
  case Nil
  then show ?case by (auto split: if_splits)
next
  case (Cons t ts)
  obtain bs f where t: "t = (bs, f)" by (cases t)
  obtain s1 l1 where h: "happens put s a (ever \<or> resent) bs = (s1, l1)" by fastforce
  obtain s2 l2 reply where c: "gone_call put s1 a f = (s2, l2, reply)" by (metis prod_cases3)
  note C = gone_call_cases [OF c]
  have len: "length bs < 2 ^ 64 - 1" "gturns ts < 2 ^ 64 - 1" using Cons.prems(2) t by auto
  note settled = gturn_settled [OF h c len(1)]
  have fresh: "l1 = []" if "\<not> resent" "\<not> ever" using happens_fresh h that by simp
  have le1: "length (filter (\<lambda>x. x = OK) (l1 @ l2)) \<le> 1"
  proof (cases "OK \<in> set (l1 @ l2)")
    case False
    then have "filter (\<lambda>x. x = OK) (l1 @ l2) = []" unfolding filter_empty_conv by blast
    then show ?thesis by simp
  qed (use settled in simp)
  have ps: "OK \<in> set (l1 @ l2) \<Longrightarrow> passed s2 a (gturns (t # ts))"
    using settled passed_mono [of s2 a "Suc (length bs)" "gturns (t # ts)"] t by auto
  show ?case
  proof (cases "n = 0")
    case True
    then show ?thesis using Cons.prems t by auto
  next
    case False
    then have n: "0 < n" by simp
    from Cons.prems(1) [unfolded t] h c n show ?thesis
    proof (cases rule: gc_Put_turn)
      case (answered e)
      have nv: "e = ErrVersion \<Longrightarrow> \<not> resent \<Longrightarrow> \<not> ever \<Longrightarrow> OK \<notin> set (l1 @ l2)"
        using answered(1) C fresh by auto
      have nk: "e = ErrNoKey \<Longrightarrow> OK \<notin> set (l1 @ l2)" using answered(1) C settled by auto
      have ok: "e = OK \<Longrightarrow> OK \<in> set (l1 @ l2)" using answered(1) C by auto
      show ?thesis using answered(2-5) le1 ps nv nk ok by auto
    next
      case gave_up
      then show ?thesis using le1 ps by simp
    next
      case (next_turn k g r')
      show ?thesis
      proof (cases "OK \<in> set (l1 @ l2)")
        case False
        then have "filter (\<lambda>x. x = OK) (l1 @ l2) = []" unfolding filter_empty_conv by blast
        moreover have "passed s' a (gturns ts) \<Longrightarrow> passed s' a (gturns (t # ts))"
          using passed_mono [of s' a "gturns ts" "gturns (t # ts)"] t by simp
        ultimately show ?thesis using Cons.IH [OF next_turn(1) len(2)] next_turn(2,3) False by auto
      next
        case True
        have P: "length (filter (\<lambda>x. x = OK) (l1 @ l2)) = 1" "passed s2 a (Suc (length bs))" using settled True by auto
        have "Suc (length bs) + gturns ts < 2 ^ 64" using Cons.prems(2) t by simp
        from gc_passed [OF next_turn(1) P(2) this] show ?thesis
          using next_turn(2,3) P(1) no_OK [of "gpLog r'"] t by auto
      qed
    qed
  qed
qed

end

section \<open>Properties\<close>

text \<open>
  What the controller learns from a command to a group, whatever is lost, repeated or done by
  others meanwhile: a reply is the one the group's state machine gave to the last copy of the
  command it executed, OK or ErrStale; only copies of the command and the others' commands were
  executed; and a group that answers nobody is given up after one round with ErrUnreachable
  instead of holding the controller for ever.
\<close>

theorem group_command_answer:
  "(\<forall>r st'. gc_Command st q n leader 0 False ts = Some (r, st') \<longrightarrow>
      st' = sg_exec st (gmDone r) \<and> set (gmDone r) \<subseteq> insert q (\<Union>(qs, f) \<in> set ts. set qs) \<and>
      (\<forall>p. gmReply r = Some p \<longrightarrow>
         (\<exists>bfr. gmDone r = bfr @ [q] \<and> snd (sg_DoOp (sg_exec st bfr) q) = Some p \<and>
            (repErr p = Rpc OK \<or> repErr p = ErrStale)))) \<and>
   (n \<le> length ts \<and> (\<forall>(qs, f) \<in> set ts. \<exists>ex. f = NoAnswer ex) \<longrightarrow>
      (\<exists>r st'. gc_Command st q n leader 0 False ts = Some (r, st') \<and> gmReply r = None))"
proof -
  have "\<exists>r st'. gc_Command st q n leader 0 False ts = Some (r, st') \<and> gmReply r = None"
    if "n \<le> length ts" "\<forall>(qs, f) \<in> set ts. \<exists>ex. f = NoAnswer ex"
    by (rule dead_group [OF that(2)]) (use that(1) in auto)
  then show ?thesis using gc_Command_explained [of st q n leader 0 False ts] by blast
qed

lemma group_command_answer_witness:
  "\<exists>r st'. gc_Command (sg_init 1) demo_freeze 2 0 0 False [([], NoAnswer True), ([], NoAnswer False)] = Some (r, st') \<and>
     gmReply r = None"
  using group_command_answer [of "sg_init 1" demo_freeze 2 0 "[([], NoAnswer True), ([], NoAnswer False)]"] by simp

end
