(* ===== verification/Shard_Clerk.thy ===== *)
theory Shard_Clerk
  imports Shard_Group_Clerk
begin

text \<open>
  The client of the sharded service (src/src/shardkv1/client.go): it reads the configuration, asks
  the group that owns the key's shard through the group's clerk, and starts over when the group
  does not own it any more. The store is the one server that the groups are to their clients
  (\<open>shardkv_is_one_server\<close>); a group that does not serve the shard refuses.
\<close>

section \<open>The loops\<close>

text \<open>
  Which group to ask, and its clerk, made on first use; the inner \<open>None\<close> is a shard without a
  group, the outer one the panic of a shard outside the configuration.
\<close>

definition GetClerk :: "(Tgid \<rightharpoonup> gclerk) \<Rightarrow> Tgid \<Rightarrow> gclerk option" where
  "GetClerk rcks gid = rcks gid"

definition rckFor ::
  "ShardConfig \<Rightarrow> (Tgid \<rightharpoonup> gclerk) \<Rightarrow> string \<Rightarrow> ((Tgid \<times> gclerk) option \<times> (Tgid \<rightharpoonup> gclerk)) option" where
  "rckFor cfg rcks key =
     (case GidServers cfg (Key2Shard key) of
        None \<Rightarrow> None
      | Some (gid, servers, ok) \<Rightarrow>
          if \<not> ok then Some (None, rcks)
          else case rcks gid of
                 None \<Rightarrow> (let rck = MakeGroupClerk servers in Some (Some (gid, rck), rcks(gid \<mapsto> rck)))
               | Some rck \<Rightarrow> Some (Some (gid, rck), rcks))"

text \<open>
  A round of Put: the configuration that Query returned, what happened meanwhile, and the turns of
  the group's clerk. The result is the error and the replies to all copies.
\<close>

type_synonym round = "ShardConfig \<times> background list \<times> gturn list"

fun shc_Put :: "('s \<Rightarrow> PutArgs \<Rightarrow> 's \<times> Err) \<Rightarrow> 's \<Rightarrow> PutArgs \<Rightarrow> bool \<Rightarrow> (Tgid \<rightharpoonup> gclerk) \<Rightarrow> round list \<Rightarrow>
    (Err \<times> Err list \<times> 's) option" where
  "shc_Put put s a resent rcks [] = None"
| "shc_Put put s a resent rcks ((cfg, bs, ts) # rounds) =
     (let (s0, l0) = happens put s a resent bs in
      case rckFor cfg rcks (putKey a) of
        None \<Rightarrow> None
      | Some (None, rcks') \<Rightarrow>
          map_option (\<lambda>(e, l, s'). (e, l0 @ l, s')) (shc_Put put s0 a resent rcks' rounds)
      | Some (Some (gid, rck), rcks') \<Rightarrow>
          (case gc_Put put s0 a (length (gcServers rck)) (gcLeader rck) 0 False False resent ts of
             None \<Rightarrow> None
           | Some (r, s1) \<Rightarrow>
               let rcks'' = rcks'(gid \<mapsto> rck\<lparr>gcLeader := gpLeader r\<rparr>) in
               if gpErr r = ErrWrongGroup then
                 map_option (\<lambda>(e, l, s'). (e, l0 @ gpLog r @ l, s')) (shc_Put put s1 a True rcks'' rounds)
               else if gpErr r = ErrVersion \<and> resent then Some (ErrMaybe, l0 @ gpLog r, s1)
               else Some (gpErr r, l0 @ gpLog r, s1)))"

fun shc_Get :: "('s \<Rightarrow> PutArgs \<Rightarrow> 's \<times> Err) \<Rightarrow> ('s \<Rightarrow> GetArgs \<Rightarrow> GetReply) \<Rightarrow> 's \<Rightarrow> GetArgs \<Rightarrow> (Tgid \<rightharpoonup> gclerk) \<Rightarrow>
    (ShardConfig \<times> PutArgs list \<times> (PutArgs list \<times> gout) list) list \<Rightarrow> (GetReply \<times> 's) option" where
  "shc_Get put get s a rcks [] = None"
| "shc_Get put get s a rcks ((cfg, os, ts) # rounds) =
     (let s0 = others put s os in
      case rckFor cfg rcks (getKey a) of
        None \<Rightarrow> None
      | Some (None, rcks') \<Rightarrow> shc_Get put get s0 a rcks' rounds
      | Some (Some (gid, rck), rcks') \<Rightarrow>
          (case gc_Get put get s0 a (length (gcServers rck)) (gcLeader rck) 0 False ts of
             None \<Rightarrow> None
           | Some (r, ld, s1) \<Rightarrow>
               if grErr r \<noteq> ErrWrongGroup then Some (r, s1)
               else shc_Get put get s1 a (rcks'(gid \<mapsto> rck\<lparr>gcLeader := ld\<rparr>)) rounds))"

definition rturns :: "round list \<Rightarrow> nat" where
  "rturns rs = (\<Sum>(cfg, bs, ts) \<leftarrow> rs. Suc (length bs) + gturns ts)"

lemma rturns_simps [simp]: "rturns [] = 0" "rturns ((cfg, bs, ts) # rs) = Suc (length bs) + gturns ts + rturns rs"
  by (simp_all add: rturns_def)

section \<open>The contract, for any versioned store\<close>

text \<open>One round: a shard without a group, another round, or the answer.\<close>

lemma shc_Put_round:
  assumes "shc_Put put s a resent rcks ((cfg, bs, ts) # rounds) = Some (e, log, s')"
    and "happens put s a resent bs = (s0, l0)"
  obtains
    (no_group) l rk where "shc_Put put s0 a resent rk rounds = Some (e, l, s')" "log = l0 @ l"
    | (again) n ld r s1 l rk where "gc_Put put s0 a n ld 0 False False resent ts = Some (r, s1)"
      "gpErr r = ErrWrongGroup" "shc_Put put s1 a True rk rounds = Some (e, l, s')" "log = l0 @ gpLog r @ l"
    | (answer) n ld r where "gc_Put put s0 a n ld 0 False False resent ts = Some (r, s')"
      "gpErr r \<noteq> ErrWrongGroup" "e = (if gpErr r = ErrVersion \<and> resent then ErrMaybe else gpErr r)" "log = l0 @ gpLog r"
proof -
  show thesis
  proof (cases "rckFor cfg rcks (putKey a)")
    case (Some x)
    obtain y rk where x: "x = (y, rk)" by (cases x)
    show thesis
    proof (cases y)
      case None
      then show thesis using assms Some x no_group by (auto simp: Let_def)
    next
      case (Some z)
      obtain gid rck where z: "z = (gid, rck)" by (cases z)
      have E: "(case gc_Put put s0 a (length (gcServers rck)) (gcLeader rck) 0 False False resent ts of
             None \<Rightarrow> None
           | Some (r, s1) \<Rightarrow>
               let rcks'' = rk(gid \<mapsto> rck\<lparr>gcLeader := gpLeader r\<rparr>) in
               if gpErr r = ErrWrongGroup then
                 map_option (\<lambda>(e, l, s'). (e, l0 @ gpLog r @ l, s')) (shc_Put put s1 a True rcks'' rounds)
               else if gpErr r = ErrVersion \<and> resent then Some (ErrMaybe, l0 @ gpLog r, s1)
               else Some (gpErr r, l0 @ gpLog r, s1)) = Some (e, log, s')"
        using assms(1) \<open>rckFor cfg rcks (putKey a) = Some x\<close>
        unfolding shc_Put.simps Let_def assms(2) prod.case x Some z option.case by simp
      then obtain r s1 where g: "gc_Put put s0 a (length (gcServers rck)) (gcLeader rck) 0 False False resent ts = Some (r, s1)"
        by (auto split: option.splits)
      show thesis
      proof (cases "gpErr r = ErrWrongGroup")
        case True
        then have "\<exists>l rk. shc_Put put s1 a True rk rounds = Some (e, l, s') \<and> log = l0 @ gpLog r @ l"
          using E g by (simp add: Let_def) blast
        then show thesis using again [OF g True] by blast
      next
        case False
        then have F: "(if gpErr r = ErrVersion \<and> resent then Some (ErrMaybe, l0 @ gpLog r, s1)
            else Some (gpErr r, l0 @ gpLog r, s1)) = Some (e, log, s')"
          using E g by (simp add: Let_def)
        show thesis
          by (rule answer [of "length (gcServers rck)" "gcLeader rck" r]) (use F g False in \<open>auto split: if_splits\<close>)
      qed
    qed
  qed (use assms in auto)
qed

context versioned_store begin

lemma shc_passed:
  "shc_Put put s a True rcks rounds = Some (e, log, s') \<Longrightarrow> passed s a j \<Longrightarrow> j + rturns rounds < 2 ^ 64 \<Longrightarrow>
     set log \<subseteq> {ErrVersion} \<and> e = ErrMaybe"
proof (induction rounds arbitrary: s rcks log j)
  case (Cons rd rounds)
  obtain cfg bs ts where rd: "rd = (cfg, bs, ts)" by (cases rd)
  obtain s0 l0 where h: "happens put s a True bs = (s0, l0)" by fastforce
  have P: "passed s0 a (j + length bs)" "set l0 \<subseteq> {ErrVersion}"
    using happens_passed [OF h Cons.prems(2)] Cons.prems(3) rd by auto
  from Cons.prems(1) [unfolded rd] h show ?case
  proof (cases rule: shc_Put_round)
    case (no_group l rk)
    then show ?thesis using Cons.IH [OF no_group(1) P(1)] Cons.prems(3) rd P(2) by auto
  next
    case (again n ld r s1 l rk)
    have g: "set (gpLog r) \<subseteq> {ErrVersion}" "passed s1 a (j + length bs + gturns ts)"
      using gc_passed [OF again(1) P(1)] Cons.prems(3) rd by auto
    then show ?thesis using Cons.IH [OF again(3) g(2)] again(4) Cons.prems(3) rd P(2) by auto
  next
    case (answer n ld r)
    have "set (gpLog r) \<subseteq> {ErrVersion}" "gpErr r \<in> {ErrVersion, ErrMaybe, ErrWrongGroup}"
      using gc_passed [OF answer(1) P(1)] Cons.prems(3) rd by auto
    then show ?thesis using answer P(2) by auto
  qed
qed simp

lemma shc_contract:
  "shc_Put put s a resent rcks rounds = Some (e, log, s') \<Longrightarrow> rturns rounds < 2 ^ 64 - 1 \<Longrightarrow>
   length (filter (\<lambda>x. x = OK) log) \<le> 1 \<and> (e = OK \<longrightarrow> OK \<in> set log) \<and>
   (e = ErrNoKey \<longrightarrow> OK \<notin> set log) \<and> (e = ErrVersion \<longrightarrow> \<not> resent \<and> OK \<notin> set log) \<and>
   e \<in> {OK, ErrNoKey, ErrVersion, ErrMaybe}"
proof (induction rounds arbitrary: s resent rcks log)
  case (Cons rd rounds)
  obtain cfg bs ts where rd: "rd = (cfg, bs, ts)" by (cases rd)
  obtain s0 l0 where h: "happens put s a resent bs = (s0, l0)" by fastforce
  have len: "length bs < 2 ^ 64 - 1" "gturns ts < 2 ^ 64 - 1" "rturns rounds < 2 ^ 64 - 1"
    using Cons.prems(2) rd by auto
  have once: "OK \<notin> set l0 \<or> length (filter (\<lambda>x. x = OK) l0) = 1 \<and> passed s0 a (Suc (length bs))"
    by (rule happens_once [OF h len(1)])
  have fresh: "\<not> resent \<Longrightarrow> l0 = []" using happens_fresh h by simp
  have no: "OK \<notin> set l \<Longrightarrow> filter (\<lambda>x. x = OK) l = []" for l unfolding filter_empty_conv by blast
  from Cons.prems(1) [unfolded rd] h show ?case
  proof (cases rule: shc_Put_round)
    case (no_group l rk)
    show ?thesis
    proof (cases "OK \<in> set l0")
      case True
      then have rs: resent using fresh by (cases resent) auto
      have P: "passed s0 a (Suc (length bs))" "length (filter (\<lambda>x. x = OK) l0) = 1" using once True by auto
      have "shc_Put put s0 a True rk rounds = Some (e, l, s')" using no_group(1) rs by simp
      from shc_passed [OF this P(1)] show ?thesis using no_group(2) P(2) no_OK [of l] Cons.prems(2) rd by auto
    next
      case False
      then show ?thesis using Cons.IH [OF no_group(1) len(3)] no_group(2) no by auto
    qed
  next
    case (again n ld r s1 l rk)
    have g: "length (filter (\<lambda>x. x = OK) (gpLog r)) \<le> 1" "OK \<in> set (gpLog r) \<longrightarrow> passed s1 a (gturns ts)"
      using gc_contract [OF again(1) len(2)] by auto
    show ?thesis
    proof (cases "OK \<in> set l0 \<or> OK \<in> set (gpLog r)")
      case True
      have "length (filter (\<lambda>x. x = OK) (l0 @ gpLog r)) \<le> 1 \<and> passed s1 a (Suc (length bs) + gturns ts)"
      proof (cases "OK \<in> set l0")
        case True
        then have P: "passed s0 a (Suc (length bs))" "length (filter (\<lambda>x. x = OK) l0) = 1" using once by auto
        show ?thesis using gc_passed [OF again(1) P(1)] Cons.prems(2) rd P(2) no_OK [of "gpLog r"] by auto
      next
        case False
        then show ?thesis using True g no [of l0] passed_mono [of s1 a "gturns ts" "Suc (length bs) + gturns ts"] by auto
      qed
      then have P: "length (filter (\<lambda>x. x = OK) (l0 @ gpLog r)) \<le> 1" "passed s1 a (Suc (length bs) + gturns ts)" by auto
      from shc_passed [OF again(3) P(2)] show ?thesis using again(4) P(1) no_OK [of l] Cons.prems(2) rd by auto
    next
      case False
      then show ?thesis using Cons.IH [OF again(3) len(3)] again(4) no [of l0] no [of "gpLog r"] by auto
    qed
  next
    case (answer n ld r)
    show ?thesis
    proof (cases "OK \<in> set l0")
      case True
      then have P: "passed s0 a (Suc (length bs))" "length (filter (\<lambda>x. x = OK) l0) = 1" using once by auto
      have rs: resent using True fresh by (cases resent) auto
      show ?thesis using gc_passed [OF answer(1) P(1)] Cons.prems(2) rd P(2) no_OK [of "gpLog r"] answer(2-4) rs True by auto
    next
      case False
      then show ?thesis using gc_contract [OF answer(1) len(2)] answer(2-4) no [of l0] by auto
    qed
  qed
qed simp

end
section \<open>Get\<close>

lemma gc_Get_reply:
  "gc_Get kv_Put kv_Get s a n leader i got ts = Some (r, ld, s') \<Longrightarrow>
     grErr r = ErrWrongGroup \<or> r = kv_Get s' a"
proof (induction ts arbitrary: s i got)
  case Nil
  then show ?case by (auto split: if_splits)
next
  case (Cons t ts)
  obtain os f where t: "t = (os, f)" by (cases t)
  have e: "grErr (kv_Get s1 a) = OK \<or> grErr (kv_Get s1 a) = ErrNoKey" for s1 by (simp add: kv_Get_reply)
  show ?case
  proof (cases f)
    case WrongGroup
    then show ?thesis using Cons.prems t by (auto simp: Let_def split: if_splits)
  next
    case (Ordinary x)
    show ?thesis
    proof (cases x)
      case (NoAnswer ex)
      then show ?thesis using Cons t Ordinary by (auto simp: Let_def split: if_splits)
    next
      case (NotLeader ex)
      then show ?thesis using Cons t Ordinary by (auto simp: Let_def split: if_splits)
    next
      case Answer
      then show ?thesis using Cons.prems t Ordinary e by (auto simp: Let_def split: if_splits)
    qed
  qed
qed

lemma shc_Get_reply:
  "shc_Get kv_Put kv_Get s a rcks rounds = Some (r, s') \<Longrightarrow> r = kv_Get s' a"
proof (induction rounds arbitrary: s rcks)
  case (Cons rd rounds)
  obtain cfg os ts where rd: "rd = (cfg, os, ts)" by (cases rd)
  show ?case
    using Cons.prems rd Cons.IH
    by (auto simp: Let_def split: option.splits if_splits) (use gc_Get_reply in blast)
qed simp

section \<open>Properties\<close>

text \<open>
  C26. What the client of the sharded service may conclude, whatever groups it is sent to and
  whatever they lose, refuse or execute late (fewer than \<open>2^64 - 1\<close> commands in all): no two
  copies of a Put succeed, even in different groups; OK says one did; ErrNoKey and ErrVersion say
  none has; and a Get answers with what the one server held at some moment, never with
  ErrWrongGroup.
\<close>

theorem shard_clerk_answers:
  assumes "rturns rounds < 2 ^ 64 - 1"
  shows "(\<forall>e log kv'. shc_Put kv_Put kv a False Map.empty rounds = Some (e, log, kv') \<longrightarrow>
      length (filter (\<lambda>x. x = OK) log) \<le> 1 \<and> (e = OK \<longrightarrow> OK \<in> set log) \<and>
      (e = ErrNoKey \<or> e = ErrVersion \<longrightarrow> OK \<notin> set log) \<and> e \<in> {OK, ErrNoKey, ErrVersion, ErrMaybe}) \<and>
    (\<forall>r kv'. shc_Get kv_Put kv_Get kv g Map.empty grounds = Some (r, kv') \<longrightarrow>
      r = kv_Get kv' g \<and> grErr r \<noteq> ErrWrongGroup)"
proof -
  have ne: "grErr (kv_Get s g) \<noteq> ErrWrongGroup" for s by (simp add: kv_Get_reply)
  show ?thesis
    using kv.shc_contract [OF _ assms, of kv a False Map.empty] shc_Get_reply ne by blast
qed

text \<open>
  The witness: the first group executes the Put but its reply is lost and it cannot be reached any
  more; the client starts over, and the second group answers.
\<close>

definition demo_rounds :: "round list" where
  "demo_rounds =
     [(demo_config, [], [([], Ordinary (NoAnswer True))]), (demo_config, [], [([], Ordinary Answer)])]"

lemma shard_clerk_answers_witness:
  "\<exists>kv'. shc_Put kv_Put MakeKVServer demo_put False Map.empty demo_rounds = Some (ErrMaybe, [OK, ErrVersion], kv') \<and>
     length (filter (\<lambda>x. x = OK) [OK, ErrVersion]) \<le> 1"
proof -
  have g: "GidServers demo_config (Key2Shard (putKey demo_put)) = Some (1, [''s''], True)"
    using Key2Shard_less [of "putKey demo_put"]
    by (simp add: GidServers_def demo_config_def slice_get_def Gid1_def)
  have "\<exists>kv'. shc_Put kv_Put MakeKVServer demo_put False Map.empty demo_rounds = Some (ErrMaybe, [OK, ErrVersion], kv')"
    using g by (simp add: demo_rounds_def rckFor_def MakeGroupClerk_def Let_def gone_call_def one_call_def)
      (simp add: demo_put_def kv_Put_def MakeKVServer_def)
  moreover have "rturns demo_rounds < 2 ^ 64 - 1" by (simp add: demo_rounds_def)
  ultimately show ?thesis using shard_clerk_answers [of demo_rounds MakeKVServer demo_put] by fastforce
qed

end
