(* ===== verification/MR_Nodes.thy ===== *)
theory MR_Nodes
  imports Prelude
begin

text \<open>
  The task nodes of the MapReduce coordinator and its doubly linked lists
  (src/src/mr/coordinator.go: node, nodeList and its methods). Nodes live at addresses; a list is
  its two sentinel addresses and a size, and a nil pointer that is followed is \<open>None\<close>, the
  panic. A list that represents a sequence of nodes keeps doing so under the code's pointer
  surgery: that contract is the locale \<open>node_store\<close>, which the coordinator relies on.
\<close>

section \<open>Nodes and lists\<close>

type_synonym addr = nat

datatype taskKind = TaskMap | TaskReduce

datatype nodeState = StatePending | StateRunning

record node =
  nPrev :: "addr option"
  nNext :: "addr option"
  nKind :: taskKind
  nId :: int
  nFile :: string
  nFiles :: "string list"
  nReduceOf :: int
  nStart :: int
  nState :: nodeState
  nGen :: int

type_synonym heap = "addr \<Rightarrow> node"

record nodeList =
  lHead :: addr
  lTail :: addr
  lSize :: int

definition blank :: node where
  "blank = \<lparr>nPrev = None, nNext = None, nKind = TaskMap, nId = 0, nFile = [], nFiles = [],
     nReduceOf = 0, nStart = 0, nState = StatePending, nGen = 0\<rparr>"

text \<open>The two sentinels are two fresh addresses, from the first unused one on.\<close>

definition newNodeList :: "heap \<Rightarrow> addr \<Rightarrow> heap \<times> addr \<times> nodeList" where
  "newNodeList h brk =
     (let h1 = h(brk := blank, Suc brk := blank);
          h2 = h1(brk := (h1 brk)\<lparr>nNext := Some (Suc brk)\<rparr>);
          h3 = h2(Suc brk := (h2 (Suc brk))\<lparr>nPrev := Some brk\<rparr>)
      in (h3, Suc (Suc brk), \<lparr>lHead = brk, lTail = Suc brk, lSize = 0\<rparr>))"

definition pushBack :: "nodeList \<Rightarrow> addr \<Rightarrow> heap \<Rightarrow> (nodeList \<times> heap) option" where
  "pushBack l n h = do {
     let h = h(n := (h n)\<lparr>nPrev := nPrev (h (lTail l))\<rparr>);
     let h = h(n := (h n)\<lparr>nNext := Some (lTail l)\<rparr>);
     p \<leftarrow> nPrev (h (lTail l));
     let h = h(p := (h p)\<lparr>nNext := Some n\<rparr>);
     let h = h(lTail l := (h (lTail l))\<lparr>nPrev := Some n\<rparr>);
     Some (l\<lparr>lSize := lSize l + 1\<rparr>, h)
   }"

definition list_remove :: "nodeList \<Rightarrow> addr \<Rightarrow> heap \<Rightarrow> (nodeList \<times> heap) option" where
  "list_remove l n h = do {
     p \<leftarrow> nPrev (h n);
     let h = h(p := (h p)\<lparr>nNext := nNext (h n)\<rparr>);
     q \<leftarrow> nNext (h n);
     let h = h(q := (h q)\<lparr>nPrev := nPrev (h n)\<rparr>);
     let h = h(n := (h n)\<lparr>nPrev := None\<rparr>);
     let h = h(n := (h n)\<lparr>nNext := None\<rparr>);
     Some (l\<lparr>lSize := lSize l - 1\<rparr>, h)
   }"

definition list_empty :: "nodeList \<Rightarrow> bool" where
  "list_empty l \<longleftrightarrow> lSize l = 0"

section \<open>What a list represents\<close>

fun chain :: "heap \<Rightarrow> addr list \<Rightarrow> bool" where
  "chain h (a # b # zs) \<longleftrightarrow> nNext (h a) = Some b \<and> nPrev (h b) = Some a \<and> chain h (b # zs)"
| "chain h zs \<longleftrightarrow> True"

abbreviation cells_of :: "nodeList \<Rightarrow> addr list \<Rightarrow> addr list" where
  "cells_of l xs \<equiv> lHead l # xs @ [lTail l]"

definition linked :: "heap \<Rightarrow> nodeList \<Rightarrow> addr list \<Rightarrow> bool" where
  "linked h l xs \<longleftrightarrow> distinct (cells_of l xs) \<and> chain h (cells_of l xs) \<and> lSize l = int (length xs)"

text \<open>The task a node carries, without its place in a list.\<close>

definition payload :: "node \<Rightarrow> node" where
  "payload n = n\<lparr>nPrev := None, nNext := None\<rparr>"

lemma payload_sel:
  "payload n = payload m \<Longrightarrow> nKind n = nKind m" "payload n = payload m \<Longrightarrow> nId n = nId m"
  "payload n = payload m \<Longrightarrow> nFile n = nFile m" "payload n = payload m \<Longrightarrow> nFiles n = nFiles m"
  "payload n = payload m \<Longrightarrow> nReduceOf n = nReduceOf m" "payload n = payload m \<Longrightarrow> nStart n = nStart m"
  "payload n = payload m \<Longrightarrow> nState n = nState m" "payload n = payload m \<Longrightarrow> nGen n = nGen m"
  by (simp_all add: payload_def, (metis node.select_convs node.update_convs node.surjective)+)

lemma payload_links [simp]:
  "payload (n\<lparr>nPrev := p\<rparr>) = payload n" "payload (n\<lparr>nNext := q\<rparr>) = payload n"
  by (simp_all add: payload_def)

lemma chain_join: "chain h (us @ a # vs) \<longleftrightarrow> chain h (us @ [a]) \<and> chain h (a # vs)"
  by (induction h us rule: chain.induct) (auto split: list.splits elim: chain.elims)


lemma chain_prefix:
  "chain h (us @ [p]) \<Longrightarrow> \<forall>a \<in> set us. h' a = h a \<Longrightarrow> nPrev (h' p) = nPrev (h p) \<Longrightarrow> chain h' (us @ [p])"
proof (induction us)
  case (Cons u us)
  then show ?case by (cases us) auto
qed simp

lemma chain_suffix:
  "chain h (q # vs) \<Longrightarrow> \<forall>a \<in> set vs. h' a = h a \<Longrightarrow> nNext (h' q) = nNext (h q) \<Longrightarrow> chain h' (q # vs)"
proof (induction vs arbitrary: q)
  case (Cons v vs)
  have "chain h' (v # vs)" using Cons.prems by (intro Cons.IH) auto
  then show ?case using Cons.prems by auto
qed simp

lemma chain_same: "chain h zs \<Longrightarrow> \<forall>a \<in> set zs. h' a = h a \<Longrightarrow> chain h' zs"
  by (cases zs) (auto intro: chain_suffix)

lemma chain_insert:
  assumes "chain h (us @ p # q # vs)" "distinct (us @ p # q # vs)" "n \<notin> set (us @ p # q # vs)"
    and h': "nPrev (h' n) = Some p" "nNext (h' n) = Some q" "nNext (h' p) = Some n" "nPrev (h' q) = Some n"
      "nPrev (h' p) = nPrev (h p)" "nNext (h' q) = nNext (h q)"
      "\<And>a. a \<notin> {n, p, q} \<Longrightarrow> h' a = h a"
  shows "chain h' (us @ p # n # q # vs)"
proof -
  have old: "chain h (us @ [p])" "chain h (q # vs)"
    using assms(1) chain_join [of h us p "q # vs"] by auto
  have "\<forall>a \<in> set us. h' a = h a" "\<forall>a \<in> set vs. h' a = h a" using assms by (auto intro!: h')
  then have "chain h' (us @ [p])" "chain h' (q # vs)"
    using old h' by (auto intro: chain_prefix chain_suffix)
  then show ?thesis using h'(1-4) chain_join [of h' us p "n # q # vs"] by simp
qed

lemma chain_delete:
  assumes "chain h (us @ p # n # q # vs)" "distinct (us @ p # n # q # vs)"
    and h': "nNext (h' p) = Some q" "nPrev (h' q) = Some p"
      "nPrev (h' p) = nPrev (h p)" "nNext (h' q) = nNext (h q)"
      "\<And>a. a \<notin> {n, p, q} \<Longrightarrow> h' a = h a"
  shows "chain h' (us @ p # q # vs)"
proof -
  have old: "chain h (us @ [p])" "chain h (q # vs)"
    using assms(1) chain_join [of h us p "n # q # vs"] by auto
  have "\<forall>a \<in> set us. h' a = h a" "\<forall>a \<in> set vs. h' a = h a" using assms by (auto intro!: h')
  then have "chain h' (us @ [p])" "chain h' (q # vs)"
    using old h' by (auto intro: chain_prefix chain_suffix)
  then show ?thesis using h'(1,2) chain_join [of h' us p "q # vs"] by simp
qed

lemma linked_ends:
  assumes "linked h l xs"
  shows "nPrev (h (lTail l)) = Some (last (lHead l # xs))" "nNext (h (lHead l)) = Some (hd (xs @ [lTail l]))"
proof -
  have c: "chain h (cells_of l xs)" using assms by (simp add: linked_def)
  show "nNext (h (lHead l)) = Some (hd (xs @ [lTail l]))" using c by (cases xs) auto
  show "nPrev (h (lTail l)) = Some (last (lHead l # xs))"
  proof (cases xs rule: rev_cases)
    case (snoc ys y)
    then show ?thesis using c chain_join [of h "lHead l # ys" y "[lTail l]"] by simp
  qed (use c in simp)
qed

lemma linked_next:
  assumes "linked h l (us @ n # vs)"
  shows "nNext (h n) = Some (hd (vs @ [lTail l]))" "nPrev (h n) = Some (last (lHead l # us))"
proof -
  have c: "chain h (lHead l # us @ n # vs @ [lTail l])" using assms by (simp add: linked_def)
  show "nNext (h n) = Some (hd (vs @ [lTail l]))"
    using c chain_join [of h "lHead l # us" n "vs @ [lTail l]"] by (cases vs) auto
  show "nPrev (h n) = Some (last (lHead l # us))"
  proof (cases us rule: rev_cases)
    case (snoc ys y)
    then show ?thesis using c chain_join [of h "lHead l # ys" y "n # vs @ [lTail l]"] by simp
  qed (use c in simp)
qed

section \<open>The contract of the lists\<close>

text \<open>
  A change of the heap that touches only some cells, and there only the links.
\<close>

definition links_only :: "addr set \<Rightarrow> heap \<Rightarrow> heap \<Rightarrow> bool" where
  "links_only A h h' \<longleftrightarrow> (\<forall>a. payload (h' a) = payload (h a)) \<and> (\<forall>a. a \<notin> A \<longrightarrow> h' a = h a)"
locale node_store =
  fixes rep :: "heap \<Rightarrow> nodeList \<Rightarrow> addr list \<Rightarrow> bool"
    and push :: "nodeList \<Rightarrow> addr \<Rightarrow> heap \<Rightarrow> (nodeList \<times> heap) option"
    and drop_node :: "nodeList \<Rightarrow> addr \<Rightarrow> heap \<Rightarrow> (nodeList \<times> heap) option"
  assumes push_law: "\<lbrakk>rep h l xs; n \<notin> set (cells_of l xs)\<rbrakk> \<Longrightarrow>
      \<exists>l' h'. push l n h = Some (l', h') \<and> rep h' l' (xs @ [n]) \<and> lHead l' = lHead l \<and> lTail l' = lTail l \<and>
        links_only (insert n (set (cells_of l xs))) h h'"
    and drop_law: "rep h l (us @ n # vs) \<Longrightarrow>
      \<exists>l' h'. drop_node l n h = Some (l', h') \<and> rep h' l' (us @ vs) \<and> lHead l' = lHead l \<and> lTail l' = lTail l \<and>
        links_only (set (cells_of l (us @ n # vs))) h h'"
    and frame: "\<lbrakk>rep h l xs; \<forall>a \<in> set (cells_of l xs). h' a = h a\<rbrakk> \<Longrightarrow> rep h' l xs"
begin

text \<open>Two lists side by side: working on one leaves the other alone.\<close>

definition beside :: "heap \<Rightarrow> nodeList \<Rightarrow> addr list \<Rightarrow> nodeList \<Rightarrow> addr list \<Rightarrow> bool" where
  "beside h l xs k ys \<longleftrightarrow> rep h l xs \<and> rep h k ys \<and> distinct (cells_of l xs @ cells_of k ys)"

lemma beside_sym: "beside h l xs k ys \<Longrightarrow> beside h k ys l xs"
  unfolding beside_def by auto

lemma beside_frame:
  "beside h l xs k ys \<Longrightarrow> \<forall>a \<in> set (cells_of l xs) \<union> set (cells_of k ys). h' a = h a \<Longrightarrow> beside h' l xs k ys"
  unfolding beside_def by (meson UnI1 UnI2 frame)

lemma push_beside:
  assumes "beside h l xs k ys" "n \<notin> set (cells_of l xs @ cells_of k ys)"
  obtains l' h' where "push l n h = Some (l', h')" "beside h' l' (xs @ [n]) k ys"
    "lHead l' = lHead l" "lTail l' = lTail l" "links_only (insert n (set (cells_of l xs))) h h'"
proof -
  obtain l' h' where p: "push l n h = Some (l', h')" "rep h' l' (xs @ [n])" "lHead l' = lHead l" "lTail l' = lTail l"
    "links_only (insert n (set (cells_of l xs))) h h'"
    using push_law [of h l xs n] assms by (auto simp: beside_def)
  have "rep h' k ys"
    by (rule frame [of h]) (use assms p(5) in \<open>auto simp: beside_def links_only_def\<close>)
  then show ?thesis using that p assms by (auto simp: beside_def)
qed

lemma drop_beside:
  assumes "beside h l (us @ n # vs) k ys"
  obtains l' h' where "drop_node l n h = Some (l', h')" "beside h' l' (us @ vs) k ys"
    "lHead l' = lHead l" "lTail l' = lTail l" "links_only (set (cells_of l (us @ n # vs))) h h'"
    "n \<notin> set (cells_of l' (us @ vs) @ cells_of k ys)"
proof -
  obtain l' h' where p: "drop_node l n h = Some (l', h')" "rep h' l' (us @ vs)" "lHead l' = lHead l" "lTail l' = lTail l"
    "links_only (set (cells_of l (us @ n # vs))) h h'"
    using drop_law [of h l us n vs] assms by (auto simp: beside_def)
  have "set (cells_of k ys) \<inter> set (cells_of l (us @ n # vs)) = {}" using assms by (auto simp: beside_def)
  then have "\<forall>a \<in> set (cells_of k ys). h' a = h a" using p(5) unfolding links_only_def by blast
  then have "rep h' k ys" using frame assms by (auto simp: beside_def)
  then show ?thesis using that p assms by (auto simp: beside_def)
qed

end

section \<open>The code keeps the contract\<close>

lemma linked_push:
  assumes "linked h l xs" "n \<notin> set (cells_of l xs)"
  shows "\<exists>l' h'. pushBack l n h = Some (l', h') \<and> linked h' l' (xs @ [n]) \<and> lHead l' = lHead l \<and> lTail l' = lTail l \<and>
    links_only (insert n (set (cells_of l xs))) h h'"
proof -
  let ?t = "lTail l"
  obtain us p where up: "lHead l # xs = us @ [p]" by (metis list.distinct(1) rev_exhaust)
  have "cells_of l xs = (lHead l # xs) @ [?t]" by simp
  then have zs: "cells_of l xs = us @ p # [?t]" by (simp only: up append_assoc append_Cons append_Nil)
  have d: "distinct (us @ p # [?t])" "chain h (us @ p # [?t])" "n \<notin> set (us @ p # [?t])"
    using assms unfolding linked_def zs by auto
  have prev: "nPrev (h ?t) = Some p" using linked_ends [OF assms(1)] up by simp
  define h' where "h' = h(n := (h n)\<lparr>nPrev := Some p, nNext := Some ?t\<rparr>, p := (h p)\<lparr>nNext := Some n\<rparr>,
    ?t := (h ?t)\<lparr>nPrev := Some n\<rparr>)"
  have ne: "n \<noteq> p" "n \<noteq> ?t" "p \<noteq> ?t" "?t \<noteq> p" "p \<noteq> n" "?t \<noteq> n" using d by auto
  have run: "pushBack l n h = Some (l\<lparr>lSize := lSize l + 1\<rparr>, h')"
    using ne prev by (simp add: pushBack_def h'_def)
  have "chain h' (us @ p # n # ?t # [])"
    by (rule chain_insert [OF d(2,1,3)]) (use ne in \<open>simp_all add: h'_def\<close>)
  moreover have "us @ p # n # [?t] = cells_of l (xs @ [n])" using up by simp
  moreover have "distinct (cells_of l (xs @ [n]))" using assms by (auto simp: linked_def)
  ultimately have "linked h' (l\<lparr>lSize := lSize l + 1\<rparr>) (xs @ [n])"
    using assms by (simp add: linked_def)
  moreover have "payload (h' a) = payload (h a)" for a by (simp add: h'_def payload_def)
  then have "links_only (insert n (set (cells_of l xs))) h h'"
    unfolding links_only_def zs by (simp add: h'_def)
  ultimately show ?thesis using run by auto
qed

lemma linked_remove:
  assumes "linked h l (us @ n # vs)"
  shows "\<exists>l' h'. list_remove l n h = Some (l', h') \<and> linked h' l' (us @ vs) \<and> lHead l' = lHead l \<and> lTail l' = lTail l \<and>
    links_only (set (cells_of l (us @ n # vs))) h h'"
proof -
  obtain as p where ap: "lHead l # us = as @ [p]" by (metis list.distinct(1) rev_exhaust)
  obtain q bs where qb: "vs @ [lTail l] = q # bs" by (metis append_is_Nil_conv list.distinct(1) list.exhaust)
  have "cells_of l (us @ n # vs) = (lHead l # us) @ n # (vs @ [lTail l])" by simp
  then have zs: "cells_of l (us @ n # vs) = as @ p # n # q # bs"
    by (simp only: ap qb append_assoc append_Cons append_Nil)
  have "cells_of l (us @ vs) = (lHead l # us) @ (vs @ [lTail l])" by simp
  then have zs': "cells_of l (us @ vs) = as @ p # q # bs"
    by (simp only: ap qb append_assoc append_Cons append_Nil)
  have d: "distinct (as @ p # n # q # bs)" "chain h (as @ p # n # q # bs)"
    using assms unfolding linked_def zs by auto
  have pq: "nPrev (h n) = Some p" "nNext (h n) = Some q" using linked_next [OF assms] ap qb by simp_all
  define h' where "h' = h(p := (h p)\<lparr>nNext := Some q\<rparr>, q := (h q)\<lparr>nPrev := Some p\<rparr>,
    n := (h n)\<lparr>nPrev := None, nNext := None\<rparr>)"
  have ne: "n \<noteq> p" "n \<noteq> q" "p \<noteq> q" "q \<noteq> p" "p \<noteq> n" "q \<noteq> n" using d by auto
  have run: "list_remove l n h = Some (l\<lparr>lSize := lSize l - 1\<rparr>, h')"
    using ne pq by (simp add: list_remove_def h'_def)
  have "chain h' (as @ p # q # bs)"
    by (rule chain_delete [OF d(2,1)]) (use ne in \<open>simp_all add: h'_def\<close>)
  moreover note zs' [symmetric]
  moreover have "distinct (cells_of l (us @ vs))" using assms by (auto simp: linked_def)
  ultimately have "linked h' (l\<lparr>lSize := lSize l - 1\<rparr>) (us @ vs)"
    using assms by (simp add: linked_def)
  moreover have "payload (h' a) = payload (h a)" for a by (simp add: h'_def payload_def)
  then have "links_only (set (cells_of l (us @ n # vs))) h h'"
    unfolding links_only_def zs by (simp add: h'_def)
  ultimately show ?thesis using run by auto
qed

interpretation nodes: node_store linked pushBack list_remove
proof
  show "linked h' l xs" if "linked h l xs" "\<forall>a \<in> set (cells_of l xs). h' a = h a" for h h' l xs
    using that chain_same [of h "cells_of l xs" h'] by (simp add: linked_def)
qed (fact linked_push linked_remove)+

lemma newNodeList_linked:
  assumes "newNodeList h brk = (h', brk', l)"
  shows "linked h' l []" "cells_of l [] = [brk, Suc brk]" "brk' = brk + 2" "\<And>a. a < brk \<Longrightarrow> h' a = h a"
  using assms by (auto simp: newNodeList_def Let_def linked_def)

lemma linked_empty: "linked h l xs \<Longrightarrow> list_empty l \<longleftrightarrow> xs = []"
  by (auto simp: linked_def list_empty_def)

end
