(* ===== verification/MR_Coordinator.thy ===== *)
theory MR_Coordinator
  imports MR_Nodes
begin

text \<open>
  The coordinator of the MapReduce library (src/src/mr/coordinator.go, src/src/mr/rpc.go): its
  state and its handlers, each one critical section of the mutex. The time is an argument where
  the code reads the clock, in nanoseconds. \<open>None\<close> is a nil pointer that was followed, or a scan
  that never ends; the refinement in \<open>MR_Jobs\<close> shows that neither happens.
\<close>

section \<open>Data\<close>

datatype replyKind = MapTask | ReduceTask | WaitTask | ExitTask

record GetTaskReply =
  trKind :: replyKind
  trMapFile :: string
  trReduceID :: int
  trNReduce :: int
  trFiles :: "string list"

text \<open>A reply as the RPC library hands it to the handler: every field zero.\<close>

definition zeroReply :: GetTaskReply where
  "zeroReply = \<lparr>trKind = MapTask, trMapFile = [], trReduceID = 0, trNReduce = 0, trFiles = []\<rparr>"

definition TaskTimeout :: int where
  "TaskTimeout = 10 * 1000000000"

record coord =
  cCells :: heap
  cBrk :: addr
  cFiles :: "string list"
  cNReduce :: int
  mapNum :: int
  reduceNum :: int
  mapDone :: "string set"
  mapTask :: "string \<rightharpoonup> addr"
  reduceTask :: "int \<rightharpoonup> addr"
  mapFiles :: "int \<Rightarrow> string list"
  generation :: "string \<Rightarrow> int"
  reduceGen :: "int \<Rightarrow> int"
  reducesReady :: bool
  allDone :: bool
  pendingL :: nodeList
  runningL :: nodeList
  freeL :: "addr list"

section \<open>List and pool operations on the state\<close>

definition push_pending :: "addr \<Rightarrow> coord \<Rightarrow> coord option" where
  "push_pending n c = do {
     (l, h) \<leftarrow> pushBack (pendingL c) n (cCells c);
     Some (c\<lparr>pendingL := l, cCells := h\<rparr>)
   }"

definition push_running :: "addr \<Rightarrow> coord \<Rightarrow> coord option" where
  "push_running n c = do {
     (l, h) \<leftarrow> pushBack (runningL c) n (cCells c);
     Some (c\<lparr>runningL := l, cCells := h\<rparr>)
   }"

definition drop_pending :: "addr \<Rightarrow> coord \<Rightarrow> coord option" where
  "drop_pending n c = do {
     (l, h) \<leftarrow> list_remove (pendingL c) n (cCells c);
     Some (c\<lparr>pendingL := l, cCells := h\<rparr>)
   }"

definition drop_running :: "addr \<Rightarrow> coord \<Rightarrow> coord option" where
  "drop_running n c = do {
     (l, h) \<leftarrow> list_remove (runningL c) n (cCells c);
     Some (c\<lparr>runningL := l, cCells := h\<rparr>)
   }"

definition set_node :: "addr \<Rightarrow> node \<Rightarrow> coord \<Rightarrow> coord" where
  "set_node n x c = c\<lparr>cCells := (cCells c)(n := x)\<rparr>"

text \<open>A node from the pool, or a new one.\<close>

definition take_free :: "coord \<Rightarrow> addr \<times> coord" where
  "take_free c =
     (if freeL c \<noteq> [] then (last (freeL c), c\<lparr>freeL := butlast (freeL c)\<rparr>)
      else (cBrk c, (set_node (cBrk c) blank c)\<lparr>cBrk := Suc (cBrk c)\<rparr>))"

definition bump :: "taskKind \<Rightarrow> int \<Rightarrow> string \<Rightarrow> coord \<Rightarrow> int \<times> coord" where
  "bump kind i file c =
     (if kind = TaskMap
      then (generation c file + 1, c\<lparr>generation := (generation c)(file := generation c file + 1)\<rparr>)
      else (reduceGen c i + 1, c\<lparr>reduceGen := (reduceGen c)(i := reduceGen c i + 1)\<rparr>))"

definition alloc :: "taskKind \<Rightarrow> int \<Rightarrow> string \<Rightarrow> string list \<Rightarrow> coord \<Rightarrow> addr \<times> coord" where
  "alloc kind i file files c =
     (let (n, c) = take_free c;
          (gen, c) = bump kind i file c
      in (n, set_node n ((cCells c n)\<lparr>nKind := kind, nId := i, nFile := file, nFiles := files,
           nReduceOf := cNReduce c, nState := StatePending, nPrev := None, nNext := None, nGen := gen\<rparr>) c))"

definition recycle :: "addr \<Rightarrow> coord \<Rightarrow> coord" where
  "recycle n c =
     (set_node n ((cCells c n)\<lparr>nFiles := [], nPrev := None, nNext := None\<rparr>) c)\<lparr>freeL := freeL c @ [n]\<rparr>"

section \<open>The handlers\<close>

text \<open>The loop of startReducePhase, over the reduce ids that are left.\<close>

fun reduce_tasks :: "int list \<Rightarrow> coord \<Rightarrow> coord option" where
  "reduce_tasks [] c = Some c"
| "reduce_tasks (rid # rids) c =
     (let (n, c) = alloc TaskReduce rid [] (mapFiles c rid) c;
          c = c\<lparr>reduceTask := (reduceTask c)(rid \<mapsto> n)\<rparr>
      in do { c \<leftarrow> push_pending n c; reduce_tasks rids c })"

definition startReducePhase :: "coord \<Rightarrow> coord option" where
  "startReducePhase c = reduce_tasks [0..reduceNum c - 1] (c\<lparr>reducesReady := True\<rparr>)"

definition hand_out :: "int \<Rightarrow> addr \<Rightarrow> coord \<Rightarrow> (GetTaskReply \<times> coord) option" where
  "hand_out now n c = do {
     c \<leftarrow> drop_pending n c;
     let c = set_node n ((cCells c n)\<lparr>nState := StateRunning, nStart := now\<rparr>) c;
     c \<leftarrow> push_running n c;
     let x = cCells c n;
     Some (if nKind x = TaskMap
           then (zeroReply\<lparr>trNReduce := nReduceOf x, trKind := MapTask, trMapFile := nFile x\<rparr>, c)
           else (zeroReply\<lparr>trNReduce := nReduceOf x, trKind := ReduceTask, trReduceID := nId x, trFiles := nFiles x\<rparr>, c))
   }"

definition GetTask :: "int \<Rightarrow> coord \<Rightarrow> (GetTaskReply \<times> coord) option" where
  "GetTask now c = do {
     c \<leftarrow> (if \<not> reducesReady c \<and> int (card (mapDone c)) = mapNum c then startReducePhase c else Some c);
     if reducesReady c \<and> list_empty (pendingL c) \<and> list_empty (runningL c) then
       Some (zeroReply\<lparr>trKind := ExitTask\<rparr>, c\<lparr>allDone := True\<rparr>)
     else if list_empty (pendingL c) then Some (zeroReply\<lparr>trKind := WaitTask\<rparr>, c)
     else do {
       n \<leftarrow> nNext (cCells c (lHead (pendingL c)));
       hand_out now n c
     }
   }"

text \<open>The loop over the files of a report; empty names are skipped.\<close>

fun add_files :: "int \<Rightarrow> string list \<Rightarrow> (int \<Rightarrow> string list) \<Rightarrow> int \<Rightarrow> string list" where
  "add_files rid [] m = m"
| "add_files rid (f # fs) m = add_files (rid + 1) fs (if f = [] then m else m(rid := m rid @ [f]))"

definition ReportMap :: "string \<Rightarrow> string list \<Rightarrow> coord \<Rightarrow> coord option" where
  "ReportMap file files c =
     (if file \<in> mapDone c then Some c
      else case mapTask c file of
             None \<Rightarrow> Some c
           | Some n \<Rightarrow>
               if nState (cCells c n) \<noteq> StateRunning \<or> nGen (cCells c n) \<noteq> generation c file then Some c
               else do {
                 c \<leftarrow> drop_running n c;
                 let c = recycle n c;
                 Some (c\<lparr>mapDone := insert file (mapDone c), mapFiles := add_files 0 files (mapFiles c)\<rparr>)
               })"

definition ReportReduce :: "int \<Rightarrow> coord \<Rightarrow> coord option" where
  "ReportReduce rid c =
     (case reduceTask c rid of
        None \<Rightarrow> Some c
      | Some n \<Rightarrow>
          if nState (cCells c n) \<noteq> StateRunning \<or> nGen (cCells c n) \<noteq> reduceGen c rid then Some c
          else do {
            c \<leftarrow> drop_running n c;
            let c = recycle n c;
            Some (c\<lparr>reduceTask := (reduceTask c)(rid := None)\<rparr>)
          })"

text \<open>One late task: a fresh node waits, the old one goes to the pool.\<close>

definition retry :: "addr \<Rightarrow> coord \<Rightarrow> coord option" where
  "retry n c = do {
     c \<leftarrow> drop_running n c;
     let (fresh, c) =
       (if nKind (cCells c n) = TaskMap then
          let (fresh, c') = alloc TaskMap (nId (cCells c n)) (nFile (cCells c n)) [] c
          in (fresh, c'\<lparr>mapTask := (mapTask c')(nFile (cCells c' n) \<mapsto> fresh)\<rparr>)
        else
          let (fresh, c') = alloc TaskReduce (nId (cCells c n)) [] (nFiles (cCells c n)) c
          in (fresh, c'\<lparr>reduceTask := (reduceTask c')(nId (cCells c' n) \<mapsto> fresh)\<rparr>));
     let c = recycle n c;
     push_pending fresh c
   }"

partial_function (option) check_loop :: "int \<Rightarrow> addr option \<Rightarrow> coord \<Rightarrow> coord option" where
  "check_loop now p c =
     (case p of
        None \<Rightarrow> None
      | Some n \<Rightarrow>
          if n = lTail (runningL c) then Some c
          else if now - nStart (cCells c n) < TaskTimeout then Some c
          else case retry n c of
                 None \<Rightarrow> None
               | Some c' \<Rightarrow> check_loop now (nNext (cCells c n)) c')"

definition checkTimeout :: "int \<Rightarrow> coord \<Rightarrow> coord option" where
  "checkTimeout now c = check_loop now (nNext (cCells c (lHead (runningL c)))) c"

definition Done :: "coord \<Rightarrow> bool" where
  "Done c = allDone c"

text \<open>MakeCoordinator, with its loop over the input files from an index on.\<close>

fun map_tasks :: "int \<Rightarrow> string list \<Rightarrow> coord \<Rightarrow> coord option" where
  "map_tasks i [] c = Some c"
| "map_tasks i (f # fs) c =
     (let (n, c) = alloc TaskMap i f [] c;
          c = c\<lparr>mapTask := (mapTask c)(f \<mapsto> n)\<rparr>
      in do { c \<leftarrow> push_pending n c; map_tasks (i + 1) fs c })"

definition MakeCoordinator :: "string list \<Rightarrow> int \<Rightarrow> coord option" where
  "MakeCoordinator files nReduce =
     (let (h, b, p) = newNodeList (\<lambda>_. blank) 0;
          (h, b, r) = newNodeList h b
      in map_tasks 0 files
           \<lparr>cCells = h, cBrk = b, cFiles = files, cNReduce = nReduce, mapNum = int (length files), reduceNum = nReduce,
            mapDone = {}, mapTask = Map.empty, reduceTask = Map.empty, mapFiles = (\<lambda>_. []),
            generation = (\<lambda>_. 0), reduceGen = (\<lambda>_. 0), reducesReady = False, allDone = False,
            pendingL = p, runningL = r, freeL = []\<rparr>)"

end
