(* ===== verification/MR_Layout.thy ===== *)
theory MR_Layout
  imports MR_Coordinator
begin

text \<open>
  Where the nodes of the coordinator are: in the pending list, in the running list, in the pool,
  or in the hands of a handler that works on them; and what the tables of current nodes hold.
  Every operation on nodes is shown to keep both, so that the handlers are compositions.
\<close>

section \<open>The places of nodes\<close>

definition layout :: "coord \<Rightarrow> addr list \<Rightarrow> addr list \<Rightarrow> addr set \<Rightarrow> bool" where
  "layout c ps rs A \<longleftrightarrow>
     nodes.beside (cCells c) (pendingL c) ps (runningL c) rs \<and> distinct (freeL c) \<and>
     (\<forall>a \<in> set (freeL c) \<union> A. a \<notin> set (cells_of (pendingL c) ps @ cells_of (runningL c) rs)) \<and>
     set (freeL c) \<inter> A = {} \<and>
     (\<forall>a \<in> set (cells_of (pendingL c) ps @ cells_of (runningL c) rs) \<union> set (freeL c) \<union> A. a < cBrk c)"

lemma layout_cong:
  "layout c ps rs A \<Longrightarrow> cCells c' = cCells c \<Longrightarrow> cBrk c' = cBrk c \<Longrightarrow> pendingL c' = pendingL c \<Longrightarrow>
   runningL c' = runningL c \<Longrightarrow> freeL c' = freeL c \<Longrightarrow> layout c' ps rs A"
  by (simp add: layout_def)

lemma layout_distinct: "layout c ps rs A \<Longrightarrow> distinct (ps @ rs)"
  "layout c ps rs A \<Longrightarrow> a \<in> A \<Longrightarrow> a \<notin> set (ps @ rs)"
  by (auto simp: layout_def nodes.beside_def)

lemma push_pending_layout:
  assumes "layout c ps rs (insert n A)" "n \<notin> A"
  obtains l h where "push_pending n c = Some (c\<lparr>pendingL := l, cCells := h\<rparr>)"
    "layout (c\<lparr>pendingL := l, cCells := h\<rparr>) (ps @ [n]) rs A" "\<And>a. payload (h a) = payload (cCells c a)"
proof -
  have b: "nodes.beside (cCells c) (pendingL c) ps (runningL c) rs"
    "n \<notin> set (cells_of (pendingL c) ps @ cells_of (runningL c) rs)"
    using assms by (auto simp: layout_def)
  from nodes.push_beside [OF b] obtain l h where *:
    "pushBack (pendingL c) n (cCells c) = Some (l, h)" "nodes.beside h l (ps @ [n]) (runningL c) rs"
    "lHead l = lHead (pendingL c)" "lTail l = lTail (pendingL c)"
    "links_only (insert n (set (cells_of (pendingL c) ps))) (cCells c) h" .
  show ?thesis
    by (rule that [of h l]) (use * assms in \<open>auto simp: push_pending_def layout_def links_only_def\<close>)
qed

lemma push_running_layout:
  assumes "layout c ps rs (insert n A)" "n \<notin> A"
  obtains l h where "push_running n c = Some (c\<lparr>runningL := l, cCells := h\<rparr>)"
    "layout (c\<lparr>runningL := l, cCells := h\<rparr>) ps (rs @ [n]) A" "\<And>a. payload (h a) = payload (cCells c a)"
proof -
  have b: "nodes.beside (cCells c) (runningL c) rs (pendingL c) ps"
    "n \<notin> set (cells_of (runningL c) rs @ cells_of (pendingL c) ps)"
    using assms nodes.beside_sym by (auto simp: layout_def)
  from nodes.push_beside [OF b] obtain l h where *:
    "pushBack (runningL c) n (cCells c) = Some (l, h)" "nodes.beside h l (rs @ [n]) (pendingL c) ps"
    "lHead l = lHead (runningL c)" "lTail l = lTail (runningL c)"
    "links_only (insert n (set (cells_of (runningL c) rs))) (cCells c) h" .
  show ?thesis
    by (rule that [of h l])
      (use * assms nodes.beside_sym [OF *(2)] in \<open>auto simp: push_running_def layout_def links_only_def\<close>)
qed

lemma drop_pending_layout:
  assumes "layout c (us @ n # vs) rs A"
  obtains l h where "drop_pending n c = Some (c\<lparr>pendingL := l, cCells := h\<rparr>)"
    "layout (c\<lparr>pendingL := l, cCells := h\<rparr>) (us @ vs) rs (insert n A)" "\<And>a. payload (h a) = payload (cCells c a)"
proof -
  have b: "nodes.beside (cCells c) (pendingL c) (us @ n # vs) (runningL c) rs" using assms by (simp add: layout_def)
  from nodes.drop_beside [OF b] obtain l h where *:
    "list_remove (pendingL c) n (cCells c) = Some (l, h)" "nodes.beside h l (us @ vs) (runningL c) rs"
    "lHead l = lHead (pendingL c)" "lTail l = lTail (pendingL c)"
    "links_only (set (cells_of (pendingL c) (us @ n # vs))) (cCells c) h"
    "n \<notin> set (cells_of l (us @ vs) @ cells_of (runningL c) rs)" .
  show ?thesis
    by (rule that [of h l]) (use * assms in \<open>auto simp: drop_pending_def layout_def links_only_def\<close>)
qed

lemma drop_running_layout:
  assumes "layout c ps (us @ n # vs) A"
  obtains l h where "drop_running n c = Some (c\<lparr>runningL := l, cCells := h\<rparr>)"
    "layout (c\<lparr>runningL := l, cCells := h\<rparr>) ps (us @ vs) (insert n A)" "\<And>a. payload (h a) = payload (cCells c a)"
    "lTail l = lTail (runningL c)"
proof -
  have b: "nodes.beside (cCells c) (runningL c) (us @ n # vs) (pendingL c) ps"
    using assms nodes.beside_sym by (auto simp: layout_def)
  from nodes.drop_beside [OF b] obtain l h where *:
    "list_remove (runningL c) n (cCells c) = Some (l, h)" "nodes.beside h l (us @ vs) (pendingL c) ps"
    "lHead l = lHead (runningL c)" "lTail l = lTail (runningL c)"
    "links_only (set (cells_of (runningL c) (us @ n # vs))) (cCells c) h"
    "n \<notin> set (cells_of l (us @ vs) @ cells_of (pendingL c) ps)" .
  show ?thesis
    by (rule that [of h l])
      (use * assms nodes.beside_sym [OF *(2)] in \<open>auto simp: drop_running_def layout_def links_only_def\<close>)
qed

lemma set_node_layout:
  assumes "layout c ps rs A" "n \<in> A"
  shows "layout (set_node n x c) ps rs A"
proof -
  have "nodes.beside ((cCells c)(n := x)) (pendingL c) ps (runningL c) rs"
    by (rule nodes.beside_frame [of "cCells c"]) (use assms in \<open>auto simp: layout_def\<close>)
  then show ?thesis using assms by (simp add: layout_def set_node_def)
qed

lemma recycle_layout:
  assumes "layout c ps rs (insert n A)" "n \<notin> A"
  shows "layout (recycle n c) ps rs A"
  using set_node_layout [OF assms(1), of n] assms(2)
  by (auto simp: recycle_def layout_def set_node_def)

lemma take_free_layout:
  assumes "layout c ps rs A" "take_free c = (n, c')"
  shows "layout c' ps rs (insert n A)" "n \<notin> A" "n \<notin> set (ps @ rs)" "\<And>a. a \<noteq> n \<Longrightarrow> cCells c' a = cCells c a"
proof -
  show "layout c' ps rs (insert n A)"
  proof (cases "freeL c = []")
    case False
    then obtain fr where fr: "freeL c = fr @ [n]" "c' = c\<lparr>freeL := fr\<rparr>"
      using assms(2) by (auto simp: take_free_def) (metis append_butlast_last_id)
    then show ?thesis using assms(1) by (auto simp: layout_def)
  next
    case True
    then have c': "n = cBrk c" "c' = (set_node n blank c)\<lparr>cBrk := Suc n\<rparr>"
      using assms(2) by (auto simp: take_free_def)
    have "nodes.beside ((cCells c)(n := blank)) (pendingL c) ps (runningL c) rs"
      by (rule nodes.beside_frame [of "cCells c"]) (use assms(1) c' in \<open>auto simp: layout_def\<close>)
    then show ?thesis using assms(1) c' True unfolding layout_def
      by (auto simp: set_node_def less_Suc_eq)
  qed
  show "n \<notin> A" "n \<notin> set (ps @ rs)"
    using assms by (auto simp: layout_def take_free_def split: if_splits dest: last_in_set)
  show "\<And>a. a \<noteq> n \<Longrightarrow> cCells c' a = cCells c a"
    using assms(2) by (auto simp: take_free_def set_node_def split: if_splits)
qed
section \<open>The tables of current nodes\<close>

text \<open>A task is a map task of a file or a reduce task of an id; both have a table and generations.\<close>

type_synonym taskKey = "string + int"

definition key_of :: "node \<Rightarrow> taskKey" where
  "key_of x = (case nKind x of TaskMap \<Rightarrow> Inl (nFile x) | TaskReduce \<Rightarrow> Inr (nId x))"

definition current :: "coord \<Rightarrow> taskKey \<Rightarrow> addr option" where
  "current c k = (case k of Inl f \<Rightarrow> if f \<in> mapDone c then None else mapTask c f | Inr r \<Rightarrow> reduceTask c r)"

definition gen_of :: "coord \<Rightarrow> taskKey \<Rightarrow> int" where
  "gen_of c k = (case k of Inl f \<Rightarrow> generation c f | Inr r \<Rightarrow> reduceGen c r)"

text \<open>The tables hold exactly the nodes of \<open>L\<close>, each under its own key and of the current generation.\<close>

definition tabled :: "coord \<Rightarrow> addr set \<Rightarrow> bool" where
  "tabled c L \<longleftrightarrow>
     (\<forall>k a. current c k = Some a \<longleftrightarrow> a \<in> L \<and> key_of (cCells c a) = k) \<and>
     (\<forall>a \<in> L. nGen (cCells c a) = gen_of c (key_of (cCells c a)) \<and> nReduceOf (cCells c a) = cNReduce c)"

lemma key_of_payload: "payload x = payload y \<Longrightarrow> key_of x = key_of y"
  using payload_sel [of x y] by (simp add: key_of_def split: taskKind.split)

lemma tabled_cells:
  assumes "tabled c L" "\<And>a. a \<in> L \<Longrightarrow> key_of (cCells c' a) = key_of (cCells c a) \<and> nGen (cCells c' a) = nGen (cCells c a) \<and>
      nReduceOf (cCells c' a) = nReduceOf (cCells c a)"
    "current c' = current c" "gen_of c' = gen_of c" "cNReduce c' = cNReduce c"
  shows "tabled c' L"
  using assms by (auto simp: tabled_def)

lemma tabled_key: "tabled c L \<Longrightarrow> a \<in> L \<Longrightarrow> current c (key_of (cCells c a)) = Some a"
  by (simp add: tabled_def)

lemma tabled_inj: "tabled c L \<Longrightarrow> a \<in> L \<Longrightarrow> b \<in> L \<Longrightarrow> key_of (cCells c a) = key_of (cCells c b) \<Longrightarrow> a = b"
  by (metis tabled_key option.inject)

lemma tabled_current: "tabled c L \<Longrightarrow> current c k = Some a \<Longrightarrow> a \<in> L \<and> key_of (cCells c a) = k"
  by (simp add: tabled_def)

lemma tabled_remove:
  assumes "tabled c L" "n \<in> L" "current c' = (current c)(key_of (cCells c n) := None)" "gen_of c' = gen_of c"
    "cNReduce c' = cNReduce c" "\<And>a. a \<in> L - {n} \<Longrightarrow> payload (cCells c' a) = payload (cCells c a)"
  shows "tabled c' (L - {n})"
proof -
  have p: "key_of (cCells c' a) = key_of (cCells c a) \<and> nGen (cCells c' a) = nGen (cCells c a) \<and>
      nReduceOf (cCells c' a) = nReduceOf (cCells c a)" if "a \<in> L - {n}" for a
    using assms(6) [OF that] key_of_payload payload_sel(5,8) by metis
  show ?thesis
    unfolding tabled_def using assms(1-5) p tabled_inj [OF assms(1)]
    by (auto simp: tabled_def)
qed

text \<open>A new current node for a key, beside or instead of the one that was current.\<close>

lemma tabled_add:
  assumes "tabled c L" "current c' = (current c)(k \<mapsto> n)" "gen_of c' = (gen_of c)(k := gen_of c k + 1)"
    "cNReduce c' = cNReduce c" "\<And>a. a \<in> L - {n} \<Longrightarrow> payload (cCells c' a) = payload (cCells c a)"
    "key_of (cCells c' n) = k" "nGen (cCells c' n) = gen_of c k + 1" "nReduceOf (cCells c' n) = cNReduce c" "n \<notin> L"
  shows "tabled c' (insert n {a \<in> L. key_of (cCells c a) \<noteq> k})"
proof -
  have p: "key_of (cCells c' a) = key_of (cCells c a) \<and> nGen (cCells c' a) = nGen (cCells c a) \<and>
      nReduceOf (cCells c' a) = nReduceOf (cCells c a)" if "a \<in> L" for a
    using assms(5,9) key_of_payload payload_sel(5,8) that by (metis DiffI singletonD)
  show ?thesis
    unfolding tabled_def using assms(1-4,6-9) p
    by (auto simp: tabled_def)
qed

section \<open>A fresh node\<close>

definition fresh_node :: "taskKind \<Rightarrow> int \<Rightarrow> string \<Rightarrow> string list \<Rightarrow> coord \<Rightarrow> node \<Rightarrow> bool" where
  "fresh_node kind i file files c x \<longleftrightarrow>
     nKind x = kind \<and> nId x = i \<and> nFile x = file \<and> nFiles x = files \<and> nState x = StatePending \<and>
     nReduceOf x = cNReduce c \<and> nGen x = gen_of c (if kind = TaskMap then Inl file else Inr i) + 1"

lemma bump_cells:
  "bump kind i file (c\<lparr>cCells := h, cBrk := b, freeL := fr\<rparr>) =
     (gen_of c (if kind = TaskMap then Inl file else Inr i) + 1,
      (snd (bump kind i file c))\<lparr>cCells := h, cBrk := b, freeL := fr\<rparr>)"
  by (simp add: bump_def gen_of_def)

lemma bump_keeps [simp]:
  "cCells (snd (bump kind i file c)) = cCells c" "cBrk (snd (bump kind i file c)) = cBrk c"
  "freeL (snd (bump kind i file c)) = freeL c" "pendingL (snd (bump kind i file c)) = pendingL c"
  "runningL (snd (bump kind i file c)) = runningL c" "cNReduce (snd (bump kind i file c)) = cNReduce c"
  "mapDone (snd (bump kind i file c)) = mapDone c" "mapTask (snd (bump kind i file c)) = mapTask c"
  "reduceTask (snd (bump kind i file c)) = reduceTask c"
  by (simp_all add: bump_def)

lemma alloc_layout:
  assumes "layout c ps rs A"
  obtains n h b fr where
    "alloc kind i file files c = (n, (snd (bump kind i file c))\<lparr>cCells := h, cBrk := b, freeL := fr\<rparr>)"
    "layout ((snd (bump kind i file c))\<lparr>cCells := h, cBrk := b, freeL := fr\<rparr>) ps rs (insert n A)"
    "n \<notin> A" "n \<notin> set (ps @ rs)" "\<And>a. a \<noteq> n \<Longrightarrow> h a = cCells c a" "fresh_node kind i file files c (h n)"
proof -
  obtain n c1 where t: "take_free c = (n, c1)" by fastforce
  note tl = take_free_layout [OF assms t]
  have "c1 = c\<lparr>cCells := cCells c1, cBrk := cBrk c1, freeL := freeL c1\<rparr>"
    using t by (cases "freeL c = []") (auto simp: take_free_def set_node_def)
  then obtain h b fr where c1: "c1 = c\<lparr>cCells := h, cBrk := b, freeL := fr\<rparr>" by blast
  define g where "g = gen_of c (if kind = TaskMap then Inl file else Inr i) + 1"
  define c2 where "c2 = (snd (bump kind i file c))\<lparr>cCells := h, cBrk := b, freeL := fr\<rparr>"
  define x where "x = (h n)\<lparr>nKind := kind, nId := i, nFile := file, nFiles := files,
     nReduceOf := cNReduce c, nState := StatePending, nPrev := None, nNext := None, nGen := g\<rparr>"
  have "layout c2 ps rs (insert n A)"
    by (rule layout_cong [OF tl(1)]) (simp_all add: c2_def c1)
  then have l: "layout (set_node n x c2) ps rs (insert n A)" by (simp add: set_node_layout)
  have r: "alloc kind i file files c = (n, set_node n x c2)"
    by (simp add: alloc_def t c1 bump_cells g_def [symmetric] c2_def x_def)
  have s: "set_node n x c2 = (snd (bump kind i file c))\<lparr>cCells := h(n := x), cBrk := b, freeL := fr\<rparr>"
    by (simp add: set_node_def c2_def)
  have o: "h a = cCells c a" if "a \<noteq> n" for a using tl(4) [OF that] by (simp add: c1)
  show ?thesis
    by (rule that [where n = n and h = "h(n := x)" and b = b and fr = fr]) (use r l s tl(2,3) o in \<open>simp_all add: fresh_node_def x_def g_def\<close>)
qed

end
