(* ===== verification/MR_Refine.thy ===== *)
theory MR_Refine
  imports MR_Layout MR_Jobs
begin

text \<open>
  The coordinator refines the abstract job of \<open>MR_Jobs\<close>: \<open>represents\<close> relates the nodes of both
  linked lists to the two queues, and every handler keeps it, without a panic and with the reply
  of the job.
\<close>

section \<open>The job a coordinator stands for\<close>

definition task_of :: "node \<Rightarrow> task" where
  "task_of x = (case nKind x of TaskMap \<Rightarrow> MapOf (nFile x) | TaskReduce \<Rightarrow> ReduceOf (nId x) (nFiles x))"

definition shape :: "coord \<Rightarrow> addr list \<Rightarrow> addr list \<Rightarrow> job \<Rightarrow> bool" where
  "shape c ps rs j \<longleftrightarrow>
     jFiles j = cFiles c \<and> jReduces j = cNReduce c \<and> reduceNum c = cNReduce c \<and> mapNum c = int (length (cFiles c)) \<and>
     jMaps j = mapDone c \<and> jOuts j = mapFiles c \<and> jReady j = reducesReady c \<and> jOver j = allDone c \<and>
     jTodo j = map (\<lambda>a. task_of (cCells c a)) ps \<and>
     jGoing j = map (\<lambda>a. (task_of (cCells c a), nStart (cCells c a))) rs \<and>
     (\<forall>a \<in> set ps. nState (cCells c a) = StatePending) \<and> (\<forall>a \<in> set rs. nState (cCells c a) = StateRunning) \<and>
     (reducesReady c \<or> reduceTask c = Map.empty)"

definition represents :: "coord \<Rightarrow> addr list \<Rightarrow> addr list \<Rightarrow> job \<Rightarrow> bool" where
  "represents c ps rs j \<longleftrightarrow> layout c ps rs {} \<and> tabled c (set (ps @ rs)) \<and> shape c ps rs j"

lemma task_of_payload: "payload x = payload y \<Longrightarrow> task_of x = task_of y"
  using payload_sel [of x y] by (simp add: task_of_def split: taskKind.split)

lemma payload_same:
  assumes "payload x = payload y"
  shows "key_of x = key_of y \<and> nGen x = nGen y \<and> nReduceOf x = nReduceOf y \<and> task_of x = task_of y \<and>
    nStart x = nStart y \<and> nState x = nState y"
  using payload_sel [OF assms] key_of_payload [OF assms] task_of_payload [OF assms] by simp

lemma representsD:
  assumes "represents c ps rs j"
  shows "layout c ps rs {}" "tabled c (set (ps @ rs))" "shape c ps rs j"
  using assms by (simp_all add: represents_def)

section \<open>Handing out\<close>

lemma hand_out_represents:
  assumes r: "represents c (n # ps) rs j"
  obtains c' where "hand_out now n c = Some (task_reply (cNReduce c) (task_of (cCells c n)), c')"
    "represents c' ps (rs @ [n]) (j\<lparr>jTodo := tl (jTodo j), jGoing := jGoing j @ [(task_of (cCells c n), now)]\<rparr>)"
proof -
  note r = representsD [OF r]
  have "layout c ([] @ n # ps) rs {}" using r(1) by simp
  then obtain l h where 1:
    "drop_pending n c = Some (c\<lparr>pendingL := l, cCells := h\<rparr>)"
    "layout (c\<lparr>pendingL := l, cCells := h\<rparr>) ps rs {n}" "\<And>a. payload (h a) = payload (cCells c a)"
    by (rule drop_pending_layout) auto
  define x where "x = (h n)\<lparr>nState := StateRunning, nStart := now\<rparr>"
  let ?c2 = "set_node n x (c\<lparr>pendingL := l, cCells := h\<rparr>)"
  have "layout ?c2 ps rs {n}" using 1(2) by (simp add: set_node_layout)
  then obtain l' h' where 2:
    "push_running n ?c2 = Some (?c2\<lparr>runningL := l', cCells := h'\<rparr>)"
    "layout (?c2\<lparr>runningL := l', cCells := h'\<rparr>) ps (rs @ [n]) {}" "\<And>a. payload (h' a) = payload (cCells ?c2 a)"
    by (rule push_running_layout) auto
  define c' where "c' = ?c2\<lparr>runningL := l', cCells := h'\<rparr>"
  have d: "n \<notin> set ps" "n \<notin> set rs" using layout_distinct(1) [OF r(1)] by auto
  have pn: "payload (h' n) = payload x" using 2(3) [of n] by (simp add: set_node_def)
  have n: "nKind (h' n) = nKind (cCells c n)" "nFile (h' n) = nFile (cCells c n)" "nId (h' n) = nId (cCells c n)"
    "nFiles (h' n) = nFiles (cCells c n)" "nReduceOf (h' n) = nReduceOf (cCells c n)" "nGen (h' n) = nGen (cCells c n)"
    "nState (h' n) = StateRunning" "nStart (h' n) = now"
    using payload_sel [OF pn] payload_sel [OF 1(3) [of n]] by (simp_all add: x_def)
  have o: "payload (h' a) = payload (cCells c a)" if "a \<noteq> n" for a
    using 2(3) [of a] 1(3) [of a] that by (simp add: set_node_def)
  have nr: "nReduceOf (cCells c n) = cNReduce c" using r(2) by (simp add: tabled_def)
  have fields: "cFiles c' = cFiles c" "cNReduce c' = cNReduce c" "reduceNum c' = reduceNum c" "mapNum c' = mapNum c"
    "mapDone c' = mapDone c" "mapFiles c' = mapFiles c" "reducesReady c' = reducesReady c" "allDone c' = allDone c"
    "reduceTask c' = reduceTask c" "mapTask c' = mapTask c" "generation c' = generation c" "reduceGen c' = reduceGen c"
    "cCells c' = h'"
    by (simp_all add: c'_def set_node_def)
  have "tabled c' (set ((n # ps) @ rs))"
  proof (rule tabled_cells [OF r(2)])
    show "key_of (cCells c' a) = key_of (cCells c a) \<and> nGen (cCells c' a) = nGen (cCells c a) \<and>
      nReduceOf (cCells c' a) = nReduceOf (cCells c a)" for a
    proof (cases "a = n")
      case True
      then show ?thesis using n by (simp add: fields key_of_def split: taskKind.split)
    next
      case False
      then show ?thesis using payload_same [OF o] by (simp add: fields)
    qed
  qed (auto simp: fields current_def gen_of_def fun_eq_iff split: sum.split)
  moreover have "shape c' ps (rs @ [n]) (j\<lparr>jTodo := tl (jTodo j), jGoing := jGoing j @ [(task_of (cCells c n), now)]\<rparr>)"
  proof -
    have t: "task_of (h' n) = task_of (cCells c n)" using n by (simp add: task_of_def split: taskKind.split)
    have "task_of (h' a) = task_of (cCells c a) \<and> nStart (h' a) = nStart (cCells c a) \<and> nState (h' a) = nState (cCells c a)"
      if "a \<in> set (ps @ rs)" for a
      using payload_same [OF o [of a]] d that by auto
    then show ?thesis using r(3) d n t by (simp add: shape_def fields)
  qed
  moreover have "set ((n # ps) @ rs) = set (ps @ rs @ [n])" by auto
  ultimately have "represents c' ps (rs @ [n]) (j\<lparr>jTodo := tl (jTodo j), jGoing := jGoing j @ [(task_of (cCells c n), now)]\<rparr>)"
    using 2(2) by (simp add: represents_def c'_def)
  moreover have "hand_out now n c = Some (task_reply (cNReduce c) (task_of (cCells c n)), c')"
    using 2(1) n nr unfolding hand_out_def 1(1)
    by (simp add: x_def [symmetric] c'_def [symmetric] fields task_of_def split: taskKind.split)
  ultimately show ?thesis using that by blast
qed
section \<open>A new node for a task\<close>

definition scalars :: "coord \<Rightarrow> string list \<times> int \<times> int \<times> int \<times> string set \<times> (int \<Rightarrow> string list) \<times> bool \<times> bool" where
  "scalars c = (cFiles c, cNReduce c, reduceNum c, mapNum c, mapDone c, mapFiles c, reducesReady c, allDone c)"

text \<open>What alloc and the table update that follows it do together.\<close>

definition enlist :: "taskKind \<Rightarrow> int \<Rightarrow> string \<Rightarrow> addr \<Rightarrow> coord \<Rightarrow> coord" where
  "enlist kind i file n c =
     (if kind = TaskMap then c\<lparr>mapTask := (mapTask c)(file \<mapsto> n)\<rparr> else c\<lparr>reduceTask := (reduceTask c)(i \<mapsto> n)\<rparr>)"

abbreviation task_key :: "taskKind \<Rightarrow> int \<Rightarrow> string \<Rightarrow> taskKey" where
  "task_key kind i file \<equiv> (if kind = TaskMap then Inl file else Inr i)"

abbreviation new_task :: "taskKind \<Rightarrow> int \<Rightarrow> string \<Rightarrow> string list \<Rightarrow> task" where
  "new_task kind i file files \<equiv> (if kind = TaskMap then MapOf file else ReduceOf i files)"

lemma renewed:
  assumes l: "layout c ps rs A" and t: "tabled c L" and L: "L \<subseteq> set (ps @ rs) \<union> A"
    and f: "kind = TaskMap \<longrightarrow> file \<notin> mapDone c"
    and a: "alloc kind i file files c = (n, c1)"
  shows "layout (enlist kind i file n c1) ps rs (insert n A)" "n \<notin> A" "n \<notin> set (ps @ rs)"
    "tabled (enlist kind i file n c1) (insert n {a \<in> L. key_of (cCells c a) \<noteq> task_key kind i file})"
    "\<And>a. a \<noteq> n \<Longrightarrow> cCells (enlist kind i file n c1) a = cCells c a"
    "task_of (cCells (enlist kind i file n c1) n) = new_task kind i file files"
    "nState (cCells (enlist kind i file n c1) n) = StatePending"
    "scalars (enlist kind i file n c1) = scalars c"
    "kind = TaskMap \<Longrightarrow> reduceTask (enlist kind i file n c1) = reduceTask c"
    "runningL (enlist kind i file n c1) = runningL c"
proof -
  obtain n' h b fr where
    1: "alloc kind i file files c = (n', (snd (bump kind i file c))\<lparr>cCells := h, cBrk := b, freeL := fr\<rparr>)"
    "layout ((snd (bump kind i file c))\<lparr>cCells := h, cBrk := b, freeL := fr\<rparr>) ps rs (insert n' A)"
    "n' \<notin> A" "n' \<notin> set (ps @ rs)" "\<And>a. a \<noteq> n' \<Longrightarrow> h a = cCells c a" "fresh_node kind i file files c (h n')"
    by (rule alloc_layout [OF l]) blast
  then have n': "n' = n" and c1: "c1 = (snd (bump kind i file c))\<lparr>cCells := h, cBrk := b, freeL := fr\<rparr>" using a by auto
  let ?c = "enlist kind i file n c1"
  have cells: "cCells ?c = h" by (simp add: enlist_def c1)
  show "layout ?c ps rs (insert n A)"
    by (rule layout_cong [OF 1(2) [unfolded n']]) (simp_all add: enlist_def c1)
  show "n \<notin> A" "n \<notin> set (ps @ rs)" using 1(3,4) n' by simp_all
  show "\<And>a. a \<noteq> n \<Longrightarrow> cCells ?c a = cCells c a" using 1(5) n' cells by simp
  show "task_of (cCells ?c n) = new_task kind i file files" "nState (cCells ?c n) = StatePending"
    using 1(6) n' cells by (auto simp: fresh_node_def task_of_def split: taskKind.split)
  show "scalars ?c = scalars c" by (simp add: scalars_def enlist_def c1 bump_def)
  show "kind = TaskMap \<Longrightarrow> reduceTask ?c = reduceTask c" by (simp add: enlist_def c1)
  show "runningL ?c = runningL c" by (simp add: enlist_def c1)
  show "tabled ?c (insert n {a \<in> L. key_of (cCells c a) \<noteq> task_key kind i file})"
  proof (rule tabled_add [OF t])
    show "current ?c = (current c)(task_key kind i file \<mapsto> n)"
      using f by (auto simp: fun_eq_iff current_def enlist_def c1 split: sum.split)
    show "gen_of ?c = (gen_of c)(task_key kind i file := gen_of c (task_key kind i file) + 1)"
      by (auto simp: fun_eq_iff gen_of_def enlist_def c1 bump_def split: sum.split)
    show "cNReduce ?c = cNReduce c" by (simp add: enlist_def c1)
    show "payload (cCells ?c a) = payload (cCells c a)" if "a \<in> L - {n}" for a using 1(5) n' cells that by simp
    show "key_of (cCells ?c n) = task_key kind i file" "nGen (cCells ?c n) = gen_of c (task_key kind i file) + 1"
      "nReduceOf (cCells ?c n) = cNReduce c"
      using 1(6) n' cells by (auto simp: fresh_node_def key_of_def split: taskKind.split)
    show "n \<notin> L" using L 1(3,4) n' by auto
  qed
qed
lemma scalarsD:
  assumes "scalars c' = scalars c"
  shows "cFiles c' = cFiles c" "cNReduce c' = cNReduce c" "reduceNum c' = reduceNum c" "mapNum c' = mapNum c"
    "mapDone c' = mapDone c" "mapFiles c' = mapFiles c" "reducesReady c' = reducesReady c" "allDone c' = allDone c"
  using assms by (simp_all add: scalars_def)

lemma scalars_lists [simp]:
  "scalars (c\<lparr>pendingL := l, cCells := h\<rparr>) = scalars c" "scalars (c\<lparr>runningL := l, cCells := h\<rparr>) = scalars c"
  by (simp_all add: scalars_def)

text \<open>A node from the hands of a handler joins the pending tasks.\<close>

lemma push_represents:
  assumes l: "layout c ps rs {n}" and t: "tabled c (insert n (set (ps @ rs)))" and n: "nState (cCells c n) = StatePending"
    and s: "shape c ps rs j"
  obtains c' where "push_pending n c = Some c'" "runningL c' = runningL c"
    "represents c' (ps @ [n]) rs (j\<lparr>jTodo := jTodo j @ [task_of (cCells c n)]\<rparr>)"
    "\<And>a. payload (cCells c' a) = payload (cCells c a)"
    "\<And>a. a \<in> set rs \<Longrightarrow> nNext (cCells c' a) = nNext (cCells c a)"
proof -
  obtain l' h where 1: "push_pending n c = Some (c\<lparr>pendingL := l', cCells := h\<rparr>)"
    "layout (c\<lparr>pendingL := l', cCells := h\<rparr>) (ps @ [n]) rs {}" "\<And>a. payload (h a) = payload (cCells c a)"
    by (rule push_pending_layout [OF l]) (simp, blast)
  let ?c = "c\<lparr>pendingL := l', cCells := h\<rparr>"
  note same = payload_same [OF 1(3)]
  have "tabled ?c (insert n (set (ps @ rs)))"
    by (rule tabled_cells [OF t]) (use same in \<open>auto simp: current_def gen_of_def fun_eq_iff split: sum.split\<close>)
  moreover have "shape ?c (ps @ [n]) rs (j\<lparr>jTodo := jTodo j @ [task_of (cCells c n)]\<rparr>)"
    using s n same by (simp add: shape_def)
  moreover have "insert n (set (ps @ rs)) = set ((ps @ [n]) @ rs)" by auto
  ultimately have r: "represents ?c (ps @ [n]) rs (j\<lparr>jTodo := jTodo j @ [task_of (cCells c n)]\<rparr>)"
    using 1(2) by (simp add: represents_def)
  have nx: "nNext (h a) = nNext (cCells c a)" if "a \<in> set rs" for a
  proof -
    obtain us vs where rs: "rs = us @ a # vs" using \<open>a \<in> set rs\<close> by (meson split_list)
    have "linked (cCells c) (runningL c) rs" "linked h (runningL c) rs"
      using l 1(2) by (auto simp: layout_def nodes.beside_def)
    then show ?thesis unfolding rs by (simp add: linked_next(1))
  qed
  show ?thesis by (rule that [OF 1(1) _ r]) (use 1(3) nx in simp_all)
qed

lemma add_task:
  assumes r: "represents c ps rs j" and k: "current c (task_key kind i file) = None"
    and d: "kind = TaskMap \<longrightarrow> file \<notin> mapDone c" "kind = TaskReduce \<longrightarrow> reducesReady c"
    and a: "alloc kind i file files c = (n, c1)"
  obtains c' where "push_pending n (enlist kind i file n c1) = Some c'"
    "represents c' (ps @ [n]) rs (j\<lparr>jTodo := jTodo j @ [new_task kind i file files]\<rparr>)"
    "scalars c' = scalars c" "current c' = (current c)(task_key kind i file \<mapsto> n)"
proof -
  note r = representsD [OF r]
  let ?c = "enlist kind i file n c1"
  have "key_of (cCells c a) \<noteq> task_key kind i file" if "a \<in> set (ps @ rs)" for a
    using tabled_key [OF r(2) that] k by auto
  then have all: "{a \<in> set (ps @ rs). key_of (cCells c a) \<noteq> task_key kind i file} = set (ps @ rs)" by auto
  have sub: "set (ps @ rs) \<subseteq> set (ps @ rs) \<union> {}" by simp
  note new = renewed [OF r(1,2) sub d(1) a, unfolded all]
  have sc: "shape ?c ps rs j"
  proof -
    have "cCells ?c a = cCells c a" if "a \<in> set ps \<or> a \<in> set rs" for a using new(3,5) that by (metis Un_iff set_append)
    moreover have "reducesReady c \<or> reduceTask ?c = reduceTask c" using new(9) d(2) by (cases kind) auto
    ultimately show ?thesis using r(3) scalarsD [OF new(8)] by (auto simp: shape_def)
  qed
  obtain c' where p: "push_pending n ?c = Some c'"
    "represents c' (ps @ [n]) rs (j\<lparr>jTodo := jTodo j @ [task_of (cCells ?c n)]\<rparr>)"
    by (rule push_represents [OF new(1) _ new(7) sc]) (use new(4) in auto)
  obtain l h where c': "c' = ?c\<lparr>pendingL := l, cCells := h\<rparr>" using p(1)
    by (auto simp: push_pending_def split: bind_splits)
  have "scalars c' = scalars c" using new(8) by (simp add: c')
  moreover have "current c' = (current c)(task_key kind i file \<mapsto> n)"
  proof -
    have "current c' = current ?c" by (auto simp: c' current_def fun_eq_iff split: sum.split)
    moreover have "mapDone c1 = mapDone c" "mapTask c1 = mapTask c" "reduceTask c1 = reduceTask c"
      using a by (auto simp: alloc_def take_free_def bump_def set_node_def split: if_splits prod.splits)
    ultimately show ?thesis using d(1)
      by (auto simp: fun_eq_iff current_def enlist_def split: sum.split)
  qed
  ultimately show ?thesis using that p new(6) by simp
qed
lemma enlist_alloc:
  "alloc TaskMap i f fs c = (n, c1) \<Longrightarrow> c1\<lparr>mapTask := (mapTask c1)(f \<mapsto> n)\<rparr> = enlist TaskMap i f n c1"
  "alloc TaskReduce i f fs c = (n, c1) \<Longrightarrow> c1\<lparr>reduceTask := (reduceTask c1)(i \<mapsto> n)\<rparr> = enlist TaskReduce i f n c1"
  by (simp_all add: enlist_def)

lemma reduce_tasks_represents:
  assumes "represents c ps rs j" "reducesReady c" "distinct rids" "\<forall>r \<in> set rids. current c (Inr r) = None"
  shows "\<exists>c' ps'. reduce_tasks rids c = Some c' \<and>
    represents c' ps' rs (j\<lparr>jTodo := jTodo j @ map (\<lambda>r. ReduceOf r (jOuts j r)) rids\<rparr>)"
  using assms
proof (induction rids arbitrary: c ps j)
  case Nil
  then show ?case by auto
next
  case (Cons rid rids)
  obtain n c1 where a: "alloc TaskReduce rid [] (mapFiles c rid) c = (n, c1)" by fastforce
  obtain c' where c': "push_pending n (enlist TaskReduce rid [] n c1) = Some c'"
    "represents c' (ps @ [n]) rs (j\<lparr>jTodo := jTodo j @ [new_task TaskReduce rid [] (mapFiles c rid)]\<rparr>)"
    "scalars c' = scalars c" "current c' = (current c)(task_key TaskReduce rid [] \<mapsto> n)"
    by (rule add_task [OF Cons.prems(1) _ _ _ a]) (use Cons.prems in auto)
  have o: "mapFiles c = jOuts j" using Cons.prems(1) by (simp add: represents_def shape_def)
  have "\<exists>c'' ps'. reduce_tasks rids c' = Some c'' \<and>
    represents c'' ps' rs (j\<lparr>jTodo := jTodo j @ [new_task TaskReduce rid [] (mapFiles c rid)]\<rparr>
      \<lparr>jTodo := jTodo (j\<lparr>jTodo := jTodo j @ [new_task TaskReduce rid [] (mapFiles c rid)]\<rparr>) @
         map (\<lambda>r. ReduceOf r (jOuts (j\<lparr>jTodo := jTodo j @ [new_task TaskReduce rid [] (mapFiles c rid)]\<rparr>) r)) rids\<rparr>)"
    by (rule Cons.IH [OF c'(2)]) (use Cons.prems c'(4) scalarsD(7) [OF c'(3)] in auto)
  then show ?case
    using a c'(1) o by (simp add: enlist_alloc(2) [OF a])
qed

lemma map_tasks_represents:
  assumes "represents c ps rs j" "distinct fs" "\<forall>f \<in> set fs. current c (Inl f) = None \<and> f \<notin> mapDone c"
  shows "\<exists>c' ps'. map_tasks i fs c = Some c' \<and> represents c' ps' rs (j\<lparr>jTodo := jTodo j @ map MapOf fs\<rparr>)"
  using assms
proof (induction fs arbitrary: c ps j i)
  case Nil
  then show ?case by auto
next
  case (Cons f fs)
  obtain n c1 where a: "alloc TaskMap i f [] c = (n, c1)" by fastforce
  obtain c' where c': "push_pending n (enlist TaskMap i f n c1) = Some c'"
    "represents c' (ps @ [n]) rs (j\<lparr>jTodo := jTodo j @ [new_task TaskMap i f []]\<rparr>)"
    "scalars c' = scalars c" "current c' = (current c)(task_key TaskMap i f \<mapsto> n)"
    by (rule add_task [OF Cons.prems(1) _ _ _ a]) (use Cons.prems in auto)
  have "\<exists>c'' ps'. map_tasks (i + 1) fs c' = Some c'' \<and> represents c'' ps' rs (j\<lparr>jTodo := jTodo j @ [new_task TaskMap i f []]\<rparr>
      \<lparr>jTodo := jTodo (j\<lparr>jTodo := jTodo j @ [new_task TaskMap i f []]\<rparr>) @ map MapOf fs\<rparr>)"
    by (rule Cons.IH [OF c'(2)]) (use Cons.prems c'(4) scalarsD(5) [OF c'(3)] in auto)
  then show ?case
    using a c'(1) by (simp add: enlist_alloc(1) [OF a])
qed

section \<open>Reports\<close>

lemma finish_layout:
  assumes "layout c ps (us @ n # vs) {}"
  obtains c' where "drop_running n c = Some c'" "layout (recycle n c') ps (us @ vs) {}"
    "\<forall>a. a \<noteq> n \<longrightarrow> payload (cCells (recycle n c') a) = payload (cCells c a)"
    "scalars (recycle n c') = scalars c" "current (recycle n c') = current c" "gen_of (recycle n c') = gen_of c"
    "mapTask (recycle n c') = mapTask c" "reduceTask (recycle n c') = reduceTask c"
proof -
  obtain l h where 1: "drop_running n c = Some (c\<lparr>runningL := l, cCells := h\<rparr>)"
    "layout (c\<lparr>runningL := l, cCells := h\<rparr>) ps (us @ vs) {n}" "\<And>a. payload (h a) = payload (cCells c a)"
    by (rule drop_running_layout [OF assms]) blast
  show ?thesis
  proof (rule that [OF 1(1)])
    show "layout (recycle n (c\<lparr>runningL := l, cCells := h\<rparr>)) ps (us @ vs) {}"
      using recycle_layout [of _ ps "us @ vs" n "{}"] 1(2) by simp
  qed (use 1(3) in \<open>auto simp: recycle_def set_node_def scalars_def current_def gen_of_def fun_eq_iff split: sum.split\<close>)
qed

text \<open>The node a report is about, seen from the queue of running tasks.\<close>

lemma running_key:
  assumes r: "represents c ps rs j"
  shows "(\<exists>n. current c k = Some n \<and> nState (cCells c n) = StateRunning \<and> nGen (cCells c n) = gen_of c k) \<longleftrightarrow>
    (\<exists>a \<in> set rs. key_of (cCells c a) = k)"
    "current c k = Some n \<Longrightarrow> nState (cCells c n) = StateRunning \<Longrightarrow> n \<in> set rs \<and> key_of (cCells c n) = k"
proof -
  note r = representsD [OF r]
  show 2: "n \<in> set rs \<and> key_of (cCells c n) = k" if "current c k = Some n" "nState (cCells c n) = StateRunning" for n
    using tabled_current [OF r(2) that(1)] that(2) r(3) by (auto simp: shape_def)
  show "(\<exists>n. current c k = Some n \<and> nState (cCells c n) = StateRunning \<and> nGen (cCells c n) = gen_of c k) \<longleftrightarrow>
    (\<exists>a \<in> set rs. key_of (cCells c a) = k)"
  proof
    assume "\<exists>a \<in> set rs. key_of (cCells c a) = k"
    then obtain a where a: "a \<in> set rs" "key_of (cCells c a) = k" by blast
    then have "current c k = Some a" "nGen (cCells c a) = gen_of c k" using r(2) by (auto simp: tabled_def)
    then show "\<exists>n. current c k = Some n \<and> nState (cCells c n) = StateRunning \<and> nGen (cCells c n) = gen_of c k"
      using a r(3) by (auto simp: shape_def)
  qed (use 2 in blast)
qed
lemma task_key_of: "task_of x = MapOf f \<longleftrightarrow> key_of x = Inl f" "is_reduce r (task_of x) \<longleftrightarrow> key_of x = Inr r"
  by (auto simp: task_of_def key_of_def split: taskKind.split)

lemma going_without:
  assumes "shape c ps rs j"
  shows "filter (\<lambda>(t, _). t \<noteq> MapOf f) (jGoing j) =
      map (\<lambda>a. (task_of (cCells c a), nStart (cCells c a))) (filter (\<lambda>b. key_of (cCells c b) \<noteq> Inl f) rs)"
    "filter (\<lambda>(t, _). \<not> is_reduce r t) (jGoing j) =
      map (\<lambda>a. (task_of (cCells c a), nStart (cCells c a))) (filter (\<lambda>b. key_of (cCells c b) \<noteq> Inr r) rs)"
proof -
  have g: "jGoing j = map (\<lambda>a. (task_of (cCells c a), nStart (cCells c a))) rs" using assms by (simp add: shape_def)
  show "filter (\<lambda>(t, _). t \<noteq> MapOf f) (jGoing j) =
      map (\<lambda>a. (task_of (cCells c a), nStart (cCells c a))) (filter (\<lambda>b. key_of (cCells c b) \<noteq> Inl f) rs)"
    "filter (\<lambda>(t, _). \<not> is_reduce r t) (jGoing j) =
      map (\<lambda>a. (task_of (cCells c a), nStart (cCells c a))) (filter (\<lambda>b. key_of (cCells c b) \<noteq> Inr r) rs)"
    unfolding g by (induction rs) (simp_all add: task_key_of)
qed

lemma other_keys:
  assumes "tabled c L" "a \<in> L" "distinct xs" "xs = us @ a # vs" "set xs \<subseteq> L"
  shows "filter (\<lambda>b. key_of (cCells c b) \<noteq> key_of (cCells c a)) xs = us @ vs"
proof -
  have "key_of (cCells c b) \<noteq> key_of (cCells c a)" if "b \<in> set (us @ vs)" for b
    using tabled_inj [OF assms(1)] assms(2-5) that by (auto dest!: meta_spec2 [of _ b a])
  then have "filter (\<lambda>b. key_of (cCells c b) \<noteq> key_of (cCells c a)) (us @ vs) = us @ vs" by (simp add: filter_id_conv)
  then show ?thesis using assms(4) by simp
qed

text \<open>
  A running task whose table entry goes away together with its node; what happens to the finished
  maps and their files is the caller's.
\<close>

lemma unlist_represents:
  assumes r: "represents c ps rs j" and a: "a \<in> set rs"
  obtains us vs c' where "rs = us @ a # vs" "drop_running a c = Some c'"
    "\<And>c''. \<lbrakk>layout c'' ps (us @ vs) {} = layout (recycle a c') ps (us @ vs) {}; cCells c'' = cCells (recycle a c');
        gen_of c'' = gen_of c; cNReduce c'' = cNReduce c; current c'' = (current c)(key_of (cCells c a) := None)\<rbrakk> \<Longrightarrow>
      layout c'' ps (us @ vs) {} \<and> tabled c'' (set (ps @ us @ vs))"
    "\<forall>b. b \<noteq> a \<longrightarrow> payload (cCells (recycle a c') b) = payload (cCells c b)"
    "scalars (recycle a c') = scalars c" "current (recycle a c') = current c" "gen_of (recycle a c') = gen_of c"
    "mapTask (recycle a c') = mapTask c" "reduceTask (recycle a c') = reduceTask c"
    "filter (\<lambda>b. key_of (cCells c b) \<noteq> key_of (cCells c a)) rs = us @ vs" "a \<notin> set (ps @ us @ vs)"
proof -
  note r = representsD [OF r]
  obtain us vs where rs: "rs = us @ a # vs" using a by (meson split_list)
  have l: "layout c ps (us @ a # vs) {}" using r(1) rs by simp
  obtain c' where f: "drop_running a c = Some c'" "layout (recycle a c') ps (us @ vs) {}"
    "\<forall>b. b \<noteq> a \<longrightarrow> payload (cCells (recycle a c') b) = payload (cCells c b)"
    "scalars (recycle a c') = scalars c" "current (recycle a c') = current c" "gen_of (recycle a c') = gen_of c"
    "mapTask (recycle a c') = mapTask c" "reduceTask (recycle a c') = reduceTask c"
    by (rule finish_layout [OF l]) blast
  have d: "a \<notin> set (ps @ us @ vs)" "distinct rs" using layout_distinct(1) [OF l] rs by auto
  then have L: "set (ps @ rs) - {a} = set (ps @ us @ vs)" using rs by auto
  have k: "filter (\<lambda>b. key_of (cCells c b) \<noteq> key_of (cCells c a)) rs = us @ vs"
    using other_keys [OF r(2) _ d(2) rs] a by auto
  show ?thesis
  proof (rule that [OF rs f(1) _ f(3-8) k d(1)])
    show "layout c'' ps (us @ vs) {} \<and> tabled c'' (set (ps @ us @ vs))"
      if c'': "layout c'' ps (us @ vs) {} = layout (recycle a c') ps (us @ vs) {}" "cCells c'' = cCells (recycle a c')"
        "gen_of c'' = gen_of c" "cNReduce c'' = cNReduce c" "current c'' = (current c)(key_of (cCells c a) := None)" for c''
      using tabled_remove [OF r(2) _ c''(5,3,4)] f(2,3) a c''(1,2) L by auto
  qed
qed

lemma ReportMap_represents:
  assumes r: "represents c ps rs j"
  shows "\<exists>c' rs'. ReportMap f outs c = Some c' \<and> represents c' ps rs' (job_map f outs j)"
proof (cases "\<exists>a \<in> set rs. key_of (cCells c a) = Inl f")
  case False
  have "MapOf f \<notin> fst ` set (jGoing j)"
    using False r task_key_of(1) by (fastforce simp: represents_def shape_def)
  moreover have "ReportMap f outs c = Some c"
    using running_key(1) [OF r, of "Inl f"] False
    by (auto simp: ReportMap_def current_def gen_of_def split: option.split)
  ultimately show ?thesis using r by (auto simp: job_map_def)
next
  case True
  then obtain a where a: "a \<in> set rs" "key_of (cCells c a) = Inl f" by blast
  note rD = representsD [OF r]
  have cur: "current c (Inl f) = Some a" "nGen (cCells c a) = gen_of c (Inl f)" "nState (cCells c a) = StateRunning"
    using rD(2,3) a by (auto simp: tabled_def shape_def)
  then have m: "mapTask c f = Some a" "f \<notin> mapDone c" by (auto simp: current_def split: if_splits)
  obtain us vs c' where u: "rs = us @ a # vs" "drop_running a c = Some c'"
    "\<And>c''. \<lbrakk>layout c'' ps (us @ vs) {} = layout (recycle a c') ps (us @ vs) {}; cCells c'' = cCells (recycle a c');
        gen_of c'' = gen_of c; cNReduce c'' = cNReduce c; current c'' = (current c)(key_of (cCells c a) := None)\<rbrakk> \<Longrightarrow>
      layout c'' ps (us @ vs) {} \<and> tabled c'' (set (ps @ us @ vs))"
    "\<forall>b. b \<noteq> a \<longrightarrow> payload (cCells (recycle a c') b) = payload (cCells c b)"
    "scalars (recycle a c') = scalars c" "current (recycle a c') = current c" "gen_of (recycle a c') = gen_of c"
    "mapTask (recycle a c') = mapTask c" "reduceTask (recycle a c') = reduceTask c"
    "filter (\<lambda>b. key_of (cCells c b) \<noteq> key_of (cCells c a)) rs = us @ vs" "a \<notin> set (ps @ us @ vs)"
    by (rule unlist_represents [OF r a(1)]) blast
  define c'' where "c'' = (recycle a c')\<lparr>mapDone := insert f (mapDone (recycle a c')),
    mapFiles := add_files 0 outs (mapFiles (recycle a c'))\<rparr>"
  note sc = scalarsD [OF u(5)]
  have "ReportMap f outs c = Some c''"
    using m cur u(2) by (simp add: ReportMap_def gen_of_def c''_def Let_def)
  moreover have "layout c'' ps (us @ vs) {} \<and> tabled c'' (set (ps @ us @ vs))"
  proof (rule u(3))
    have "gen_of c'' = gen_of (recycle a c')" by (simp add: gen_of_def c''_def fun_eq_iff split: sum.split)
    then show "gen_of c'' = gen_of c" using u(7) by simp
    show "current c'' = (current c)(key_of (cCells c a) := None)"
      using a(2) sc u(8,9) by (auto simp: current_def c''_def fun_eq_iff split: sum.split)
  qed (use sc in \<open>simp_all add: c''_def layout_def\<close>)
  moreover have "shape c'' ps (us @ vs) (job_map f outs j)"
  proof -
    have cells: "cCells c'' = cCells (recycle a c')" by (simp add: c''_def)
    have same: "task_of (cCells c'' b) = task_of (cCells c b) \<and> nStart (cCells c'' b) = nStart (cCells c b) \<and>
      nState (cCells c'' b) = nState (cCells c b)" if "b \<in> set (ps @ us @ vs)" for b
      using payload_same [of "cCells c'' b" "cCells c b"] u(4,11) that cells by metis
    have "MapOf f \<in> fst ` set (jGoing j)"
    proof -
      have "jGoing j = map (\<lambda>a. (task_of (cCells c a), nStart (cCells c a))) rs" using rD(3) by (simp add: shape_def)
      moreover have "task_of (cCells c a) = MapOf f" using task_key_of(1) [of "cCells c a" f] a(2) by simp
      ultimately show ?thesis using a(1) by (auto simp: image_image intro!: image_eqI [of _ _ a])
    qed
    moreover have "filter (\<lambda>(t, _). t \<noteq> MapOf f) (jGoing j) =
        map (\<lambda>a. (task_of (cCells c a), nStart (cCells c a))) (us @ vs)"
      using going_without(1) [OF rD(3), of f] a(2) u(10) by simp
    moreover have "cFiles c'' = cFiles c" "cNReduce c'' = cNReduce c" "reduceNum c'' = reduceNum c" "mapNum c'' = mapNum c"
      "mapDone c'' = insert f (mapDone c)" "mapFiles c'' = add_files 0 outs (mapFiles c)"
      "reducesReady c'' = reducesReady c" "allDone c'' = allDone c" "reduceTask c'' = reduceTask c"
      using sc u(9) by (simp_all add: c''_def)
    ultimately show ?thesis
      using rD(3) same by (simp add: shape_def job_map_def u(1))
  qed
  ultimately show ?thesis by (auto simp: represents_def)
qed
lemma ReportReduce_represents:
  assumes r: "represents c ps rs j"
  shows "\<exists>c' rs'. ReportReduce rid c = Some c' \<and> represents c' ps rs' (job_reduce rid j)"
proof (cases "\<exists>a \<in> set rs. key_of (cCells c a) = Inr rid")
  case False
  have "filter (\<lambda>(t, _). \<not> is_reduce rid t) (jGoing j) = jGoing j"
    using False r by (auto simp: represents_def shape_def task_key_of(2) filter_id_conv)
  moreover have "ReportReduce rid c = Some c"
    using running_key(1) [OF r, of "Inr rid"] False
    by (auto simp: ReportReduce_def current_def gen_of_def split: option.split)
  ultimately show ?thesis using r by (auto simp: job_reduce_def)
next
  case True
  then obtain a where a: "a \<in> set rs" "key_of (cCells c a) = Inr rid" by blast
  note rD = representsD [OF r]
  have cur: "current c (Inr rid) = Some a" "nGen (cCells c a) = gen_of c (Inr rid)" "nState (cCells c a) = StateRunning"
    using rD(2,3) a by (auto simp: tabled_def shape_def)
  obtain us vs c' where u: "rs = us @ a # vs" "drop_running a c = Some c'"
    "\<And>c''. \<lbrakk>layout c'' ps (us @ vs) {} = layout (recycle a c') ps (us @ vs) {}; cCells c'' = cCells (recycle a c');
        gen_of c'' = gen_of c; cNReduce c'' = cNReduce c; current c'' = (current c)(key_of (cCells c a) := None)\<rbrakk> \<Longrightarrow>
      layout c'' ps (us @ vs) {} \<and> tabled c'' (set (ps @ us @ vs))"
    "\<forall>b. b \<noteq> a \<longrightarrow> payload (cCells (recycle a c') b) = payload (cCells c b)"
    "scalars (recycle a c') = scalars c" "current (recycle a c') = current c" "gen_of (recycle a c') = gen_of c"
    "mapTask (recycle a c') = mapTask c" "reduceTask (recycle a c') = reduceTask c"
    "filter (\<lambda>b. key_of (cCells c b) \<noteq> key_of (cCells c a)) rs = us @ vs" "a \<notin> set (ps @ us @ vs)"
    by (rule unlist_represents [OF r a(1)]) blast
  define c'' where "c'' = (recycle a c')\<lparr>reduceTask := (reduceTask (recycle a c'))(rid := None)\<rparr>"
  note sc = scalarsD [OF u(5)]
  have "ReportReduce rid c = Some c''"
    using cur u(2) by (simp add: ReportReduce_def gen_of_def current_def c''_def Let_def)
  moreover have "layout c'' ps (us @ vs) {} \<and> tabled c'' (set (ps @ us @ vs))"
  proof (rule u(3))
    have "gen_of c'' = gen_of (recycle a c')" by (simp add: gen_of_def c''_def fun_eq_iff split: sum.split)
    then show "gen_of c'' = gen_of c" using u(7) by simp
    show "current c'' = (current c)(key_of (cCells c a) := None)"
      using a(2) sc u(8,9) by (auto simp: current_def c''_def fun_eq_iff split: sum.split)
  qed (use sc in \<open>simp_all add: c''_def layout_def\<close>)
  moreover have "shape c'' ps (us @ vs) (job_reduce rid j)"
  proof -
    have cells: "cCells c'' = cCells (recycle a c')" by (simp add: c''_def)
    have same: "task_of (cCells c'' b) = task_of (cCells c b) \<and> nStart (cCells c'' b) = nStart (cCells c b) \<and>
      nState (cCells c'' b) = nState (cCells c b)" if "b \<in> set (ps @ us @ vs)" for b
      using payload_same [of "cCells c'' b" "cCells c b"] u(4,11) that cells by metis
    have "filter (\<lambda>(t, _). \<not> is_reduce rid t) (jGoing j) =
        map (\<lambda>a. (task_of (cCells c a), nStart (cCells c a))) (us @ vs)"
      using going_without(2) [OF rD(3), of rid] a(2) u(10) by simp
    moreover have "cFiles c'' = cFiles c" "cNReduce c'' = cNReduce c" "reduceNum c'' = reduceNum c" "mapNum c'' = mapNum c"
      "mapDone c'' = mapDone c" "mapFiles c'' = mapFiles c"
      "reducesReady c'' = reducesReady c" "allDone c'' = allDone c" "reduceTask c'' = (reduceTask c)(rid := None)"
      using sc u(9) by (simp_all add: c''_def)
    ultimately show ?thesis
      using rD(3) same by (auto simp: shape_def job_reduce_def u(1))
  qed
  ultimately show ?thesis by (auto simp: represents_def)
qed

section \<open>Timeouts\<close>

text \<open>Retrying the first running task, and where the scan goes on.\<close>

lemma retry_represents:
  assumes r: "represents c ps (n # rs) j"
  obtains c' ps' where "retry n c = Some c'"
    "represents c' ps' rs (j\<lparr>jTodo := jTodo j @ [task_of (cCells c n)], jGoing := tl (jGoing j)\<rparr>)"
    "lTail (runningL c') = lTail (runningL c)"
proof -
  note rD = representsD [OF r]
  have l0: "layout c ps ([] @ n # rs) {}" using rD(1) by simp
  obtain l h where 1: "drop_running n c = Some (c\<lparr>runningL := l, cCells := h\<rparr>)"
    "layout (c\<lparr>runningL := l, cCells := h\<rparr>) ps rs {n}" "\<And>a. payload (h a) = payload (cCells c a)"
    "lTail l = lTail (runningL c)"
    by (rule drop_running_layout [OF l0]) auto
  let ?c1 = "c\<lparr>runningL := l, cCells := h\<rparr>"
  define kind where "kind = nKind (h n)"
  define i where "i = nId (h n)"
  define fl where "fl = (if kind = TaskMap then nFile (h n) else [])"
  define files where "files = (if kind = TaskMap then [] else nFiles (h n))"
  have key: "task_key kind i fl = key_of (cCells c n)"
    unfolding conjunct1 [OF payload_same [OF 1(3) [of n]], symmetric]
    by (cases "nKind (h n)") (simp_all add: kind_def i_def fl_def key_of_def)
  have tsk: "new_task kind i fl files = task_of (cCells c n)"
    unfolding task_of_payload [OF 1(3) [of n], symmetric]
    by (cases "nKind (h n)") (simp_all add: kind_def i_def fl_def files_def task_of_def)
  have t1: "tabled ?c1 (set (ps @ n # rs))"
    by (rule tabled_cells [OF rD(2)]) (use payload_same [OF 1(3)] in \<open>auto simp: current_def gen_of_def fun_eq_iff split: sum.split\<close>)
  obtain fresh c2 where a: "alloc kind i fl files ?c1 = (fresh, c2)" by fastforce
  have cur: "current c (task_key kind i fl) = Some n" using tabled_key [OF rD(2), of n] key by simp
  have md: "kind = TaskMap \<longrightarrow> fl \<notin> mapDone ?c1" using cur by (auto simp: current_def split: if_splits)
  have sub: "set (ps @ n # rs) \<subseteq> set (ps @ rs) \<union> {n}" by auto
  note new = renewed [OF 1(2) t1 sub md a]
  let ?c3 = "enlist kind i fl fresh c2"
  have fn: "fresh \<noteq> n" using new(2) by simp
  have dn: "n \<notin> set (ps @ rs)" using layout_distinct(1) [OF rD(1)] by auto
  have L: "insert fresh {a \<in> set (ps @ n # rs). key_of (cCells ?c1 a) \<noteq> task_key kind i fl} = insert fresh (set (ps @ rs))"
  proof -
    have "key_of (cCells ?c1 a) = task_key kind i fl \<longleftrightarrow> a = n" if "a \<in> set (ps @ n # rs)" for a
      using tabled_inj [OF t1 that, of n] payload_same [OF 1(3) [of n]] key by auto
    then have "{a \<in> set (ps @ n # rs). key_of (cCells ?c1 a) \<noteq> task_key kind i fl} = set (ps @ n # rs) - {n}" by blast
    then show ?thesis using dn by auto
  qed
  let ?c4 = "recycle n ?c3"
  have c2: "cCells ?c3 = cCells c2" by (simp add: enlist_def)
  have c2n: "cCells c2 n = h n" using new(5) [of n] fn unfolding c2 by simp
  have step: "retry n c = push_pending fresh ?c4"
  proof (cases "nKind (h n)")
    case TaskMap
    then have "alloc TaskMap (nId (h n)) (nFile (h n)) [] ?c1 = (fresh, c2)"
      using a by (simp add: kind_def i_def fl_def files_def)
    then show ?thesis using TaskMap c2n
      by (simp add: retry_def 1(1) enlist_def kind_def fl_def)
  next
    case TaskReduce
    then have "alloc TaskReduce (nId (h n)) [] (nFiles (h n)) ?c1 = (fresh, c2)"
      using a by (simp add: kind_def i_def fl_def files_def)
    then show ?thesis using TaskReduce c2n
      by (simp add: retry_def 1(1) enlist_def kind_def i_def)
  qed
  have l4: "layout ?c4 ps rs {fresh}"
    using recycle_layout [of ?c3 ps rs n "{fresh}"] new(1) fn by (simp add: insert_commute)
  have c4: "cCells ?c4 a = cCells ?c3 a" if "a \<noteq> n" for a using that by (simp add: recycle_def set_node_def)
  have t4: "tabled ?c4 (insert fresh (set (ps @ rs)))"
  proof (rule tabled_cells [OF new(4) [unfolded L]])
    show "key_of (cCells ?c4 a) = key_of (cCells ?c3 a) \<and> nGen (cCells ?c4 a) = nGen (cCells ?c3 a) \<and>
      nReduceOf (cCells ?c4 a) = nReduceOf (cCells ?c3 a)" if "a \<in> insert fresh (set (ps @ rs))" for a
    proof -
      have "a \<noteq> n" using that dn fn by auto
      then show ?thesis using c4 by simp
    qed
  qed (auto simp: recycle_def set_node_def current_def gen_of_def fun_eq_iff split: sum.split)
  have s4: "shape ?c4 ps rs (j\<lparr>jGoing := tl (jGoing j)\<rparr>)"
  proof -
    have same: "task_of (cCells ?c4 a) = task_of (cCells c a) \<and> nStart (cCells ?c4 a) = nStart (cCells c a) \<and>
      nState (cCells ?c4 a) = nState (cCells c a)" if "a \<in> set (ps @ rs)" for a
    proof -
      have "a \<noteq> n" "a \<noteq> fresh" using that dn new(3) by auto
      then have "cCells ?c4 a = h a" using c4 new(5) by simp
      then show ?thesis using payload_same [OF 1(3) [of a]] by simp
    qed
    have "scalars ?c4 = scalars c" using new(8) by (simp add: recycle_def set_node_def scalars_def)
    note f = scalarsD [OF this]
    have "reducesReady c \<or> reduceTask ?c4 = Map.empty"
    proof (cases kind)
      case TaskMap
      then show ?thesis using new(9) rD(3) by (auto simp: recycle_def set_node_def shape_def)
    next
      case TaskReduce
      then show ?thesis using cur rD(3) by (auto simp: current_def shape_def)
    qed
    then show ?thesis using rD(3) same f by (simp add: shape_def)
  qed
  obtain c' where p: "push_pending fresh ?c4 = Some c'" "runningL c' = runningL ?c4"
    "represents c' (ps @ [fresh]) rs (j\<lparr>jGoing := tl (jGoing j)\<rparr>\<lparr>jTodo := jTodo (j\<lparr>jGoing := tl (jGoing j)\<rparr>) @
       [task_of (cCells ?c4 fresh)]\<rparr>)"
    by (rule push_represents [OF l4 t4 _ s4]) (use c4 [of fresh] fn new(7) in auto)
  have "runningL ?c4 = l" using new(10) by (simp add: recycle_def set_node_def)
  moreover have "task_of (cCells ?c4 fresh) = task_of (cCells c n)" using c4 [of fresh] fn new(6) tsk by simp
  then have "j\<lparr>jGoing := tl (jGoing j)\<rparr>\<lparr>jTodo := jTodo (j\<lparr>jGoing := tl (jGoing j)\<rparr>) @ [task_of (cCells ?c4 fresh)]\<rparr> =
      j\<lparr>jTodo := jTodo j @ [task_of (cCells c n)], jGoing := tl (jGoing j)\<rparr>" by simp
  then have "represents c' (ps @ [fresh]) rs (j\<lparr>jTodo := jTodo j @ [task_of (cCells c n)], jGoing := tl (jGoing j)\<rparr>)"
    using p(3) by (simp only:)
  ultimately show ?thesis using that [of c' "ps @ [fresh]"] p(1,2) step 1(4) by simp
qed

text \<open>The scan over the running tasks ends, at the first that is not late.\<close>

lemma check_loop_represents:
  assumes "represents c ps rs j"
  shows "\<exists>c' ps' rs'. check_loop now (Some (hd (rs @ [lTail (runningL c)]))) c = Some c' \<and>
    represents c' ps' rs' (job_check now j)"
  using assms
proof (induction rs arbitrary: c ps j)
  case Nil
  then have "jGoing j = []" by (simp add: represents_def shape_def)
  then have "job_check now j = j" by (simp add: job_check_def)
  then show ?case using Nil by (auto simp: check_loop.simps)
next
  case (Cons n rs)
  note rD = representsD [OF Cons.prems]
  have g: "jGoing j = (task_of (cCells c n), nStart (cCells c n)) # map (\<lambda>a. (task_of (cCells c a), nStart (cCells c a))) rs"
    using rD(3) by (simp add: shape_def)
  have lk: "linked (cCells c) (runningL c) ([] @ n # rs)" using rD(1) by (simp add: layout_def nodes.beside_def)
  have ne: "n \<noteq> lTail (runningL c)" using lk by (auto simp: linked_def)
  show ?case
  proof (cases "now - nStart (cCells c n) < TaskTimeout")
    case True
    then have "job_check now j = j" by (simp add: job_check_def g)
    then show ?thesis using True ne Cons.prems by (subst check_loop.simps) auto
  next
    case False
    obtain c' ps' where c': "retry n c = Some c'"
      "represents c' ps' rs (j\<lparr>jTodo := jTodo j @ [task_of (cCells c n)], jGoing := tl (jGoing j)\<rparr>)"
      "lTail (runningL c') = lTail (runningL c)"
      by (rule retry_represents [OF Cons.prems])
    have "job_check now (j\<lparr>jTodo := jTodo j @ [task_of (cCells c n)], jGoing := tl (jGoing j)\<rparr>) = job_check now j"
      using False by (simp add: job_check_def g)
    then show ?thesis
      using Cons.IH [OF c'(2)] c'(1,3) False ne linked_next(1) [OF lk]
      by (subst check_loop.simps) simp
  qed
qed

lemma checkTimeout_represents:
  assumes "represents c ps rs j"
  shows "\<exists>c' ps' rs'. checkTimeout now c = Some c' \<and> represents c' ps' rs' (job_check now j)"
proof -
  have "linked (cCells c) (runningL c) rs"
    using assms by (simp add: represents_def layout_def nodes.beside_def)
  then show ?thesis
    using check_loop_represents [OF assms] by (simp add: checkTimeout_def linked_ends(2))
qed
section \<open>The handlers are the steps of the job\<close>

lemma linked_pending: "represents c ps rs j \<Longrightarrow> linked (cCells c) (pendingL c) ps"
  and linked_running: "represents c ps rs j \<Longrightarrow> linked (cCells c) (runningL c) rs"
  by (simp_all add: represents_def layout_def nodes.beside_def)

lemma open_represents:
  assumes r: "represents c ps rs j"
  shows "\<exists>c' ps'. (if \<not> reducesReady c \<and> int (card (mapDone c)) = mapNum c then startReducePhase c else Some c) = Some c' \<and>
    represents c' ps' rs (job_open j)"
proof (cases "\<not> reducesReady c \<and> int (card (mapDone c)) = mapNum c")
  case False
  then have "job_open j = j" using r by (auto simp: job_open_def represents_def shape_def)
  then show ?thesis using False r by auto
next
  case True
  note rD = representsD [OF r]
  have none: "reduceTask c = Map.empty" using True rD(3) by (auto simp: shape_def)
  let ?c = "c\<lparr>reducesReady := True\<rparr>"
  have "represents ?c ps rs (j\<lparr>jReady := True\<rparr>)"
    unfolding represents_def
  proof (intro conjI)
    show "layout ?c ps rs {}" by (rule layout_cong [OF rD(1)]) simp_all
    show "tabled ?c (set (ps @ rs))"
      by (rule tabled_cells [OF rD(2)]) (simp_all add: current_def gen_of_def fun_eq_iff split: sum.split)
    show "shape ?c ps rs (j\<lparr>jReady := True\<rparr>)" using rD(3) by (simp add: shape_def)
  qed
  from reduce_tasks_represents [OF this, of "[0..reduceNum c - 1]"]
  obtain c' ps' where "startReducePhase c = Some c'"
    "represents c' ps' rs (j\<lparr>jReady := True\<rparr>\<lparr>jTodo := jTodo (j\<lparr>jReady := True\<rparr>) @
       map (\<lambda>r. ReduceOf r (jOuts (j\<lparr>jReady := True\<rparr>) r)) [0..reduceNum c - 1]\<rparr>)"
    using none by (auto simp: startReducePhase_def current_def)
  moreover have "job_open j = j\<lparr>jReady := True\<rparr>\<lparr>jTodo := jTodo (j\<lparr>jReady := True\<rparr>) @
       map (\<lambda>r. ReduceOf r (jOuts (j\<lparr>jReady := True\<rparr>) r)) [0..reduceNum c - 1]\<rparr>"
    using True rD(3) by (simp add: job_open_def shape_def)
  ultimately show ?thesis using True by auto
qed

lemma GetTask_represents:
  assumes r: "represents c ps rs j"
  shows "\<exists>c' ps' rs'. GetTask now c = Some (fst (job_get now j), c') \<and> represents c' ps' rs' (snd (job_get now j))"
proof -
  obtain c1 ps1 where o: "(if \<not> reducesReady c \<and> int (card (mapDone c)) = mapNum c then startReducePhase c else Some c) = Some c1"
    and r1: "represents c1 ps1 rs (job_open j)"
    using open_represents [OF r] by blast
  note rD = representsD [OF r1] and lp = linked_pending [OF r1] and lr = linked_running [OF r1]
  have e: "list_empty (pendingL c1) \<longleftrightarrow> ps1 = []" "list_empty (runningL c1) \<longleftrightarrow> rs = []"
    "jTodo (job_open j) = map (\<lambda>a. task_of (cCells c1 a)) ps1" "jGoing (job_open j) = [] \<longleftrightarrow> rs = []"
    "reducesReady c1 = jReady (job_open j)" "jReduces (job_open j) = cNReduce c1"
    using linked_empty [OF lp] linked_empty [OF lr] rD(3) by (simp_all add: shape_def)
  have g: "GetTask now c = (if reducesReady c1 \<and> ps1 = [] \<and> rs = [] then
       Some (zeroReply\<lparr>trKind := ExitTask\<rparr>, c1\<lparr>allDone := True\<rparr>)
     else if ps1 = [] then Some (zeroReply\<lparr>trKind := WaitTask\<rparr>, c1)
     else hand_out now (hd ps1) c1)"
    using linked_ends(2) [OF lp] by (simp add: GetTask_def o e)
  show ?thesis
  proof (cases ps1)
    case Nil
    have "represents (c1\<lparr>allDone := True\<rparr>) ps1 rs (job_open j\<lparr>jOver := True\<rparr>)"
      unfolding represents_def
    proof (intro conjI)
      show "layout (c1\<lparr>allDone := True\<rparr>) ps1 rs {}" by (rule layout_cong [OF rD(1)]) simp_all
      show "tabled (c1\<lparr>allDone := True\<rparr>) (set (ps1 @ rs))"
        by (rule tabled_cells [OF rD(2)]) (simp_all add: current_def gen_of_def fun_eq_iff split: sum.split)
      show "shape (c1\<lparr>allDone := True\<rparr>) ps1 rs (job_open j\<lparr>jOver := True\<rparr>)" using rD(3) by (simp add: shape_def)
    qed
    then show ?thesis using Nil g e r1 by (auto simp: job_get_def Let_def)
  next
    case (Cons n ps2)
    obtain c' where "hand_out now n c1 = Some (task_reply (cNReduce c1) (task_of (cCells c1 n)), c')"
      "represents c' ps2 (rs @ [n]) (job_open j\<lparr>jTodo := tl (jTodo (job_open j)),
         jGoing := jGoing (job_open j) @ [(task_of (cCells c1 n), now)]\<rparr>)"
      using r1 unfolding Cons by (rule hand_out_represents)
    then show ?thesis using Cons g e by (auto simp: job_get_def Let_def)
  qed
qed

lemma MakeCoordinator_represents:
  assumes "distinct files"
  shows "\<exists>c ps. MakeCoordinator files nReduce = Some c \<and> represents c ps [] (job_init files nReduce)"
proof -
  obtain h1 b1 p where n1: "newNodeList (\<lambda>_. blank) 0 = (h1, b1, p)" by (metis prod_cases3)
  note l1 = newNodeList_linked [OF n1]
  obtain h2 b2 q where n2: "newNodeList h1 b1 = (h2, b2, q)" by (metis prod_cases3)
  note l2 = newNodeList_linked [OF n2]
  define c where "c = \<lparr>cCells = h2, cBrk = b2, cFiles = files, cNReduce = nReduce, mapNum = int (length files), reduceNum = nReduce,
            mapDone = {}, mapTask = Map.empty, reduceTask = Map.empty, mapFiles = (\<lambda>_. []),
            generation = (\<lambda>_. 0), reduceGen = (\<lambda>_. 0), reducesReady = False, allDone = False,
            pendingL = p, runningL = q, freeL = []\<rparr>"
  have "linked h2 p []" by (rule nodes.frame [OF l1(1)]) (use l1 l2 in auto)
  then have "layout c [] [] {}" using l1 l2 by (auto simp: layout_def nodes.beside_def c_def)
  moreover have "tabled c {}" by (auto simp: tabled_def current_def c_def split: sum.split)
  moreover have "shape c [] [] (job_init files nReduce\<lparr>jTodo := []\<rparr>)" by (simp add: shape_def c_def job_init_def)
  ultimately have "represents c [] [] (job_init files nReduce\<lparr>jTodo := []\<rparr>)" by (simp add: represents_def)
  from map_tasks_represents [OF this assms, of 0] show ?thesis
    by (simp add: MakeCoordinator_def n1 n2 c_def current_def job_init_def)
qed

section \<open>Sessions\<close>

fun coord_step :: "mrEvent \<Rightarrow> coord \<Rightarrow> (GetTaskReply list \<times> coord) option" where
  "coord_step (Ask now) c = map_option (\<lambda>(r, c). ([r], c)) (GetTask now c)"
| "coord_step (MapReport f outs) c = map_option (\<lambda>c. ([], c)) (ReportMap f outs c)"
| "coord_step (ReduceReport r) c = map_option (\<lambda>c. ([], c)) (ReportReduce r c)"
| "coord_step (Scan now) c = map_option (\<lambda>c. ([], c)) (checkTimeout now c)"

fun coord_run :: "mrEvent list \<Rightarrow> coord \<Rightarrow> (GetTaskReply list \<times> coord) option" where
  "coord_run [] c = Some ([], c)"
| "coord_run (e # es) c = do {
     (rs, c) \<leftarrow> coord_step e c;
     (rs', c) \<leftarrow> coord_run es c;
     Some (rs @ rs', c)
   }"

definition coord_session :: "string list \<Rightarrow> int \<Rightarrow> mrEvent list \<Rightarrow> (GetTaskReply list \<times> coord) option" where
  "coord_session files nReduce es = do { c \<leftarrow> MakeCoordinator files nReduce; coord_run es c }"

lemma coord_step_represents:
  assumes "represents c ps rs j"
  shows "\<exists>c' ps' rs'. coord_step e c = Some (fst (job_step e j), c') \<and> represents c' ps' rs' (snd (job_step e j))"
proof (cases e)
  case (Ask now)
  then show ?thesis using GetTask_represents [OF assms, of now] by (auto simp: case_prod_beta)
next
  case (MapReport f outs)
  then show ?thesis using ReportMap_represents [OF assms, of f outs] by auto
next
  case (ReduceReport r)
  then show ?thesis using ReportReduce_represents [OF assms, of r] by auto
next
  case (Scan now)
  then show ?thesis using checkTimeout_represents [OF assms, of now] by auto
qed

lemma coord_run_represents:
  "represents c ps rs j \<Longrightarrow>
   \<exists>c' ps' rs'. coord_run es c = Some (fst (job_run es j), c') \<and> represents c' ps' rs' (snd (job_run es j))"
proof (induction es arbitrary: c ps rs j)
  case (Cons e es)
  obtain c' ps' rs' where "coord_step e c = Some (fst (job_step e j), c')" "represents c' ps' rs' (snd (job_step e j))"
    using coord_step_represents [OF Cons.prems] by blast
  moreover from this(2) obtain c2 ps2 rs2 where "coord_run es c' = Some (fst (job_run es (snd (job_step e j))), c2)"
    "represents c2 ps2 rs2 (snd (job_run es (snd (job_step e j))))"
    using Cons.IH by blast
  ultimately show ?case by (intro exI [of _ c2] exI [of _ ps2] exI [of _ rs2]) (simp add: Let_def case_prod_beta)
qed auto

end
