(* ===== verification/MR_Invariant.thy ===== *)
theory MR_Invariant
  imports MR_Jobs
begin

text \<open>
  What holds of a job in every session with distinct input files: the two queues together hold
  every unfinished task exactly once, the reduce tasks appear when every file has been reported,
  and each of them names the files of exactly one report per input file.
\<close>

section \<open>Files of the reports\<close>

definition pick :: "int \<Rightarrow> string list \<Rightarrow> string list" where
  "pick r outs = (if 0 \<le> r \<and> nat r < length outs \<and> outs ! nat r \<noteq> [] then [outs ! nat r] else [])"

definition outs_for :: "int \<Rightarrow> (string \<times> string list) list \<Rightarrow> string list" where
  "outs_for r acc = concat (map (\<lambda>(f, outs). pick r outs) acc)"

lemma add_files_pick: "add_files i outs m r = m r @ pick (r - i) outs"
proof (induction i outs m arbitrary: r rule: add_files.induct)
  case (2 i f fs m)
  show ?case
  proof (cases "r = i")
    case True
    then show ?thesis using "2.IH" by (simp add: pick_def)
  next
    case False
    have "pick (r - (i + 1)) fs = pick (r - i) (f # fs)"
    proof (cases "r < i")
      case True
      then show ?thesis by (simp add: pick_def)
    next
      case gt: False
      then obtain k where k: "r - i = 1 + int k" using False
        by (metis add.commute diff_gt_0_iff_gt linorder_neqE_linordered_idom zless_iff_Suc_zadd zero_less_imp_eq_int
            of_nat_Suc Suc_pred)
      then have "r - (i + 1) = int k" by simp
      then show ?thesis by (simp add: pick_def k nat_add_distrib)
    qed
    then show ?thesis using "2.IH" False by simp
  qed
qed (simp add: pick_def)

section \<open>The invariant\<close>

definition tasks :: "job \<Rightarrow> task list" where
  "tasks j = jTodo j @ map fst (jGoing j)"

definition open_reduces :: "job \<Rightarrow> int set" where
  "open_reduces j = {r. \<exists>fs. ReduceOf r fs \<in> set (tasks j)}"

text \<open>\<open>acc\<close> lists the accepted reports of map tasks, in order.\<close>

definition job_inv :: "string list \<Rightarrow> int \<Rightarrow> (string \<times> string list) list \<Rightarrow> job \<Rightarrow> bool" where
  "job_inv files n acc j \<longleftrightarrow>
     jFiles j = files \<and> jReduces j = n \<and> distinct files \<and> distinct (map fst acc) \<and> jMaps j = fst ` set acc \<and>
     jMaps j \<subseteq> set files \<and> jOuts j = (\<lambda>r. outs_for r acc) \<and> distinct (tasks j) \<and>
     (jReady j \<longrightarrow> jMaps j = set files \<and> open_reduces j \<subseteq> {0..<n} \<and>
        set (tasks j) = (\<lambda>r. ReduceOf r (outs_for r acc)) ` open_reduces j) \<and>
     (\<not> jReady j \<longrightarrow> set (tasks j) = MapOf ` (set files - jMaps j)) \<and>
     (jOver j \<longrightarrow> jReady j \<and> tasks j = [])"

text \<open>What the events and replies so far say about the state.\<close>

definition job_past :: "mrEvent set \<Rightarrow> GetTaskReply set \<Rightarrow> int \<Rightarrow> (string \<times> string list) list \<Rightarrow> job \<Rightarrow> bool" where
  "job_past E P n acc j \<longleftrightarrow>
     (\<forall>(f, outs) \<in> set acc. MapReport f outs \<in> E \<and> task_reply n (MapOf f) \<in> P) \<and>
     (\<forall>(t, s) \<in> set (jGoing j). task_reply n t \<in> P \<and> Ask s \<in> E) \<and>
     (jReady j \<longrightarrow> (\<forall>r \<in> {0..<n} - open_reduces j.
        ReduceReport r \<in> E \<and> task_reply n (ReduceOf r (outs_for r acc)) \<in> P)) \<and>
     (\<forall>p \<in> P. trKind p = ReduceTask \<longrightarrow>
        jReady j \<and> (\<exists>r \<in> {0..<n}. p = task_reply n (ReduceOf r (outs_for r acc)))) \<and>
     (\<forall>p \<in> P. trKind p = ExitTask \<longrightarrow> jOver j)"

lemma task_reply_inject [simp]: "task_reply n t = task_reply n t' \<longleftrightarrow> t = t'"
  by (cases t; cases t') (auto simp: zeroReply_def)

lemma task_reply_kind [simp]:
  "trKind (task_reply n (MapOf f)) = MapTask" "trKind (task_reply n (ReduceOf r fs)) = ReduceTask"
  by simp_all

declare task_reply.simps [simp del]

lemma filter_fst: "map fst (filter (\<lambda>(t, _). Q t) xs) = filter Q (map fst xs)"
  by (induction xs) auto

lemma open_inv:
  assumes "job_inv files n acc j" "job_past E P n acc j"
  shows "job_inv files n acc (job_open j)" "job_past E P n acc (job_open j)" "jGoing (job_open j) = jGoing j"
    "\<not> jReady (job_open j) \<Longrightarrow> tasks (job_open j) \<noteq> []"
proof -
  let ?j = "job_open j"
  show g: "jGoing ?j = jGoing j" by (simp add: job_open_def)
  have *: "job_inv files n acc ?j \<and> job_past E P n acc ?j \<and> (\<not> jReady ?j \<longrightarrow> tasks ?j \<noteq> [])"
  proof (cases "\<not> jReady j \<and> card (jMaps j) = length (jFiles j)")
    case True
    have fin: "finite (set files)" by simp
    have "jMaps j = set files"
      by (rule card_subset_eq [OF fin]) (use assms(1) True distinct_card [of files] in \<open>auto simp: job_inv_def\<close>)
    then have none: "tasks j = []" using assms(1) True by (simp add: job_inv_def)
    then have t: "tasks ?j = map (\<lambda>r. ReduceOf r (outs_for r acc)) [0..n - 1]"
      using True assms(1) by (simp add: tasks_def job_open_def job_inv_def)
    then have s: "set (tasks ?j) = (\<lambda>r. ReduceOf r (outs_for r acc)) ` {0..<n}" by auto
    then have o: "open_reduces ?j = {0..<n}" by (auto simp: open_reduces_def image_iff)
    have "distinct (tasks ?j)" unfolding t by (simp add: distinct_map inj_on_def)
    moreover note s
    moreover have "\<not> jOver j" using assms(1) True by (simp add: job_inv_def)
    ultimately have "job_inv files n acc ?j"
      using assms(1) True \<open>jMaps j = set files\<close> o by (simp add: job_inv_def job_open_def)
    moreover have "job_past E P n acc ?j"
      using assms(2) True o by (auto simp: job_past_def job_open_def)
    moreover have "jReady ?j" using True by (simp add: job_open_def)
    ultimately show ?thesis by simp
  next
    case False
    then have "?j = j" by (auto simp: job_open_def)
    moreover have "tasks j \<noteq> []" if "\<not> jReady j"
    proof
      assume "tasks j = []"
      then have "jMaps j = set files" using assms(1) that by (auto simp: job_inv_def)
      moreover have "distinct files" "jFiles j = files" using assms(1) by (simp_all add: job_inv_def)
      ultimately have "card (jMaps j) = length (jFiles j)" by (simp add: distinct_card)
      then show False using False that by simp
    qed
    ultimately show ?thesis using assms by simp
  qed
  then show "job_inv files n acc ?j" "job_past E P n acc ?j" "\<not> jReady ?j \<Longrightarrow> tasks ?j \<noteq> []" by auto
qed
section \<open>Every step keeps it\<close>

lemma past_mono:
  assumes "job_past E P n acc j" "E \<subseteq> E'" shows "job_past E' P n acc j"
  using assms unfolding job_past_def by blast

lemma past_reply:
  assumes "job_past E P n acc j" "trKind p = ExitTask \<longrightarrow> jOver j"
    "trKind p = ReduceTask \<longrightarrow> jReady j \<and> (\<exists>r \<in> {0..<n}. p = task_reply n (ReduceOf r (outs_for r acc)))"
  shows "job_past E (insert p P) n acc j"
  using assms unfolding job_past_def by blast

lemma get_inv:
  assumes "job_inv files n acc j" "job_past E P n acc j" "job_get now j = (p, j')"
  shows "job_inv files n acc j'" "job_past (insert (Ask now) E) (insert p P) n acc j'"
proof -
  let ?j = "job_open j"
  note o = open_inv [OF assms(1,2)]
  have past: "job_past (insert (Ask now) E) P n acc ?j" by (rule past_mono [OF o(2)]) auto
  have n: "jReduces ?j = n" using o(1) by (simp add: job_inv_def)
  have *: "job_inv files n acc j' \<and> job_past (insert (Ask now) E) (insert p P) n acc j'"
  proof (cases "jTodo ?j")
    case Nil
    show ?thesis
    proof (cases "jReady ?j \<and> jGoing ?j = []")
      case True
      then have j': "j' = ?j\<lparr>jOver := True\<rparr>" "p = zeroReply\<lparr>trKind := ExitTask\<rparr>" "tasks ?j = []"
        using assms(3) Nil by (auto simp: job_get_def Let_def tasks_def)
      have "tasks j' = tasks ?j" "open_reduces j' = open_reduces ?j" by (simp_all add: j' tasks_def open_reduces_def)
      then have inv: "job_inv files n acc j'" using o(1) True j' by (auto simp: job_inv_def)
      have "open_reduces j' = open_reduces ?j" "jGoing j' = jGoing ?j" "jReady j' = jReady ?j" "jOver j'"
        by (simp_all add: j'(1) tasks_def open_reduces_def)
      then have "job_past (insert (Ask now) E) P n acc j'"
        using past unfolding job_past_def by simp
      then show ?thesis using past_reply [of _ P n acc j' p] j' inv by simp
    next
      case False
      then have "j' = ?j" "p = zeroReply\<lparr>trKind := WaitTask\<rparr>"
        using assms(3) Nil by (auto simp: job_get_def Let_def split: if_splits)
      then show ?thesis using o(1) past_reply [OF past, of p] by simp
    qed
  next
    case (Cons t ts)
    then have j': "j' = ?j\<lparr>jTodo := ts, jGoing := jGoing ?j @ [(t, now)]\<rparr>" "p = task_reply n t"
      using assms(3) n by (auto simp: job_get_def Let_def)
    have st: "set (tasks j') = set (tasks ?j)" "distinct (tasks j') = distinct (tasks ?j)"
      "open_reduces j' = open_reduces ?j" "tasks j' \<noteq> []"
      by (auto simp: j'(1) tasks_def open_reduces_def Cons)
    have t: "t \<in> set (tasks ?j)" by (simp add: tasks_def Cons)
    have "jOver ?j \<longrightarrow> tasks ?j = []" using o(1) by (simp add: job_inv_def)
    then have no: "\<not> jOver ?j" using t by auto
    have inv: "job_inv files n acc j'"
      using o(1) st no unfolding job_inv_def by (auto simp: j'(1))
    have new: "trKind p = ReduceTask \<longrightarrow> jReady ?j \<and> (\<exists>r \<in> {0..<n}. p = task_reply n (ReduceOf r (outs_for r acc)))"
    proof
      assume k: "trKind p = ReduceTask"
      then have "jReady ?j" using t o(1) j'(2) by (cases "jReady ?j") (auto simp: job_inv_def)
      then show "jReady ?j \<and> (\<exists>r \<in> {0..<n}. p = task_reply n (ReduceOf r (outs_for r acc)))"
        using t o(1) j'(2) by (auto simp: job_inv_def)
    qed
    have exit: "trKind p \<noteq> ExitTask" "p \<in> insert p P" using j'(2) by (cases t) auto
    note past' = past_reply [OF past _ new]
    have fields: "jReady j' = jReady ?j" "jOver j' = jOver ?j" "jGoing j' = jGoing ?j @ [(t, now)]" by (simp_all add: j'(1))
    have "job_past (insert (Ask now) E) (insert p P) n acc ?j" using past' exit by simp
    then have "job_past (insert (Ask now) E) (insert p P) n acc j'"
      using j'(2) unfolding job_past_def fields st(3) by auto
    then show ?thesis using inv by simp
  qed
  then show "job_inv files n acc j'" "job_past (insert (Ask now) E) (insert p P) n acc j'" by auto
qed

lemma map_inv:
  assumes "job_inv files n acc j" "job_past E P n acc j"
  shows "\<exists>acc'. job_inv files n acc' (job_map f outs j) \<and> job_past (insert (MapReport f outs) E) P n acc' (job_map f outs j)"
proof (cases "MapOf f \<in> fst ` set (jGoing j)")
  case False
  then show ?thesis using assms(1) past_mono [OF assms(2), of "insert (MapReport f outs) E"]
    by (auto simp: job_map_def)
next
  case True
  let ?j = "job_map f outs j" and ?acc = "acc @ [(f, outs)]"
  have t: "MapOf f \<in> set (tasks j)" using True by (auto simp: tasks_def)
  then have nr: "\<not> jReady j" using assms(1) by (auto simp: job_inv_def)
  then have f: "f \<in> set files" "f \<notin> jMaps j" using t assms(1) by (auto simp: job_inv_def)
  have j: "?j = j\<lparr>jGoing := filter (\<lambda>(t, _). t \<noteq> MapOf f) (jGoing j), jMaps := insert f (jMaps j),
             jOuts := add_files 0 outs (jOuts j)\<rparr>"
    using True by (simp add: job_map_def)
  have d: "distinct (tasks j)" "distinct (map fst (jGoing j))" "MapOf f \<notin> set (jTodo j)"
    using assms(1) True by (auto simp: job_inv_def tasks_def)
  have going: "map fst (filter (\<lambda>(t, _). t \<noteq> MapOf f) (jGoing j)) = filter (\<lambda>t. t \<noteq> MapOf f) (map fst (jGoing j))"
    by (rule filter_fst)
  have tk: "tasks ?j = jTodo j @ filter (\<lambda>t. t \<noteq> MapOf f) (map fst (jGoing j))" by (simp add: tasks_def j going)
  then have st: "set (tasks ?j) = set (tasks j) - {MapOf f}" "distinct (tasks ?j)"
    using d by (auto simp: tasks_def)
  have outs: "jOuts ?j = (\<lambda>r. outs_for r ?acc)"
    using assms(1) by (auto simp: j job_inv_def add_files_pick outs_for_def)
  have "MapOf ` (set files - jMaps j) - {MapOf f} = MapOf ` (set files - insert f (jMaps j))" by auto
  then have "job_inv files n ?acc ?j"
    using assms(1) nr f st outs unfolding job_inv_def by (simp add: j) auto
  moreover have "job_past (insert (MapReport f outs) E) P n ?acc ?j"
  proof -
    have "task_reply n (MapOf f) \<in> P" using assms(2) True by (auto simp: job_past_def)
    then show ?thesis using assms(2) nr unfolding job_past_def by (auto simp: j)
  qed
  ultimately show ?thesis by blast
qed

lemma reduce_inv:
  assumes "job_inv files n acc j" "job_past E P n acc j"
  shows "job_inv files n acc (job_reduce r j)" "job_past (insert (ReduceReport r) E) P n acc (job_reduce r j)"
proof -
  let ?j = "job_reduce r j"
  have going: "map fst (jGoing ?j) = filter (\<lambda>t. \<not> is_reduce r t) (map fst (jGoing j))"
    by (simp add: job_reduce_def filter_fst)
  have tk: "tasks ?j = jTodo j @ filter (\<lambda>t. \<not> is_reduce r t) (map fst (jGoing j))"
    using going by (simp add: tasks_def) (simp add: job_reduce_def)
  have fields: "jFiles ?j = jFiles j" "jReduces ?j = jReduces j" "jMaps ?j = jMaps j" "jOuts ?j = jOuts j"
    "jReady ?j = jReady j" "jOver ?j = jOver j"
    by (simp_all add: job_reduce_def)
  have d: "distinct (tasks ?j)" using assms(1) unfolding tk by (auto simp: job_inv_def tasks_def)
  have sub: "set (tasks ?j) \<subseteq> set (tasks j)" unfolding tk by (auto simp: tasks_def)
  have lost: "t \<in> set (map fst (jGoing j)) \<and> is_reduce r t" if "t \<in> set (tasks j)" "t \<notin> set (tasks ?j)" for t
    using that unfolding tk by (auto simp: tasks_def)
  have o: "open_reduces ?j \<subseteq> open_reduces j" using sub by (auto simp: open_reduces_def)
  show "job_inv files n acc ?j"
  proof (cases "jReady j")
    case True
    have "set (tasks ?j) = (\<lambda>r. ReduceOf r (outs_for r acc)) ` open_reduces ?j"
    proof
      show "set (tasks ?j) \<subseteq> (\<lambda>r. ReduceOf r (outs_for r acc)) ` open_reduces ?j"
      proof
        fix t assume t: "t \<in> set (tasks ?j)"
        then obtain r' where "t = ReduceOf r' (outs_for r' acc)" using sub assms(1) True by (auto simp: job_inv_def)
        then show "t \<in> (\<lambda>r. ReduceOf r (outs_for r acc)) ` open_reduces ?j"
          using t by (auto simp: open_reduces_def)
      qed
      show "(\<lambda>r. ReduceOf r (outs_for r acc)) ` open_reduces ?j \<subseteq> set (tasks ?j)"
      proof
        fix t assume "t \<in> (\<lambda>r. ReduceOf r (outs_for r acc)) ` open_reduces ?j"
        then obtain r' fs where t: "t = ReduceOf r' (outs_for r' acc)" "ReduceOf r' fs \<in> set (tasks ?j)"
          by (auto simp: open_reduces_def)
        then have "fs = outs_for r' acc" using sub assms(1) True by (auto simp: job_inv_def)
        then show "t \<in> set (tasks ?j)" using t by simp
      qed
    qed
    moreover have "open_reduces ?j \<subseteq> {0..<n}" using o assms(1) True by (auto simp: job_inv_def)
    moreover have "jOver j \<longrightarrow> tasks ?j = []" using assms(1) sub by (auto simp: job_inv_def)
    ultimately show ?thesis using assms(1) d True unfolding job_inv_def fields by auto
  next
    case False
    then have "set (tasks j) = MapOf ` (set files - jMaps j)" using assms(1) by (simp add: job_inv_def)
    then have "set (tasks ?j) = set (tasks j)" using sub lost by fastforce
    then show ?thesis using assms(1) d False unfolding job_inv_def fields by auto
  qed
  have new: "ReduceReport r' \<in> insert (ReduceReport r) E \<and> task_reply n (ReduceOf r' (outs_for r' acc)) \<in> P"
    if "jReady j" "r' \<in> {0..<n} - open_reduces ?j" for r'
  proof (cases "r' \<in> open_reduces j")
    case True
    then have t: "ReduceOf r' (outs_for r' acc) \<in> set (tasks j)" using assms(1) that(1) by (auto simp: job_inv_def)
    have "ReduceOf r' (outs_for r' acc) \<notin> set (tasks ?j)" using that(2) by (auto simp: open_reduces_def)
    then have "ReduceOf r' (outs_for r' acc) \<in> set (map fst (jGoing j))" "r' = r" using lost [OF t] by auto
    then show ?thesis using assms(2) by (auto simp: job_past_def)
  next
    case False
    then show ?thesis using assms(2) that by (auto simp: job_past_def)
  qed
  have g: "set (jGoing ?j) \<subseteq> set (jGoing j)" by (auto simp: job_reduce_def)
  show "job_past (insert (ReduceReport r) E) P n acc ?j"
    unfolding job_past_def fields
  proof (intro conjI)
    show "jReady j \<longrightarrow> (\<forall>r' \<in> {0..<n} - open_reduces ?j.
        ReduceReport r' \<in> insert (ReduceReport r) E \<and> task_reply n (ReduceOf r' (outs_for r' acc)) \<in> P)"
      using new by blast
  qed (use assms(2) g in \<open>unfold job_past_def, blast+\<close>)
qed

lemma check_inv:
  assumes "job_inv files n acc j" "job_past E P n acc j"
  shows "job_inv files n acc (job_check now j)" "job_past (insert (Scan now) E) P n acc (job_check now j)"
proof -
  let ?j = "job_check now j" and ?late = "\<lambda>(t, s). now - s \<ge> TaskTimeout"
  have "mset (map fst (jGoing j)) = mset (map fst (takeWhile ?late (jGoing j))) + mset (map fst (dropWhile ?late (jGoing j)))"
    by (metis map_append mset_append takeWhile_dropWhile_id)
  then have m: "mset (tasks ?j) = mset (tasks j)"
    by (simp add: tasks_def job_check_def Let_def)
  have st: "set (tasks ?j) = set (tasks j)" "distinct (tasks ?j) = distinct (tasks j)" "tasks ?j = [] \<longleftrightarrow> tasks j = []"
    using m mset_eq_setD mset_eq_imp_distinct_iff by (blast, blast) (use m in force)
  have o: "open_reduces ?j = open_reduces j" by (simp add: open_reduces_def st)
  have fields: "jFiles ?j = jFiles j" "jReduces ?j = jReduces j" "jMaps ?j = jMaps j" "jOuts ?j = jOuts j"
    "jReady ?j = jReady j" "jOver ?j = jOver j"
    by (simp_all add: job_check_def Let_def)
  show "job_inv files n acc ?j" using assms(1) unfolding job_inv_def fields st o .
  have "set (jGoing ?j) \<subseteq> set (jGoing j)" by (auto simp: job_check_def Let_def dest: set_dropWhileD)
  then show "job_past (insert (Scan now) E) P n acc ?j"
    using assms(2) unfolding job_past_def fields o by blast
qed

lemma job_init_inv:
  assumes "distinct files"
  shows "job_inv files n [] (job_init files n)" "job_past {} {} n [] (job_init files n)"
  using assms by (auto simp: job_inv_def job_past_def job_init_def tasks_def outs_for_def distinct_map inj_on_def)

lemma job_step_inv:
  assumes "job_inv files n acc j" "job_past E P n acc j"
  shows "\<exists>acc'. job_inv files n acc' (snd (job_step e j)) \<and>
    job_past (insert e E) (P \<union> set (fst (job_step e j))) n acc' (snd (job_step e j))"
proof (cases e)
  case (Ask now)
  then show ?thesis using get_inv [OF assms, of now "fst (job_get now j)" "snd (job_get now j)"]
    by (auto simp: case_prod_beta)
next
  case (MapReport f outs)
  then show ?thesis using map_inv [OF assms] by simp
next
  case (ReduceReport r)
  then show ?thesis using reduce_inv [OF assms] by auto
next
  case (Scan now)
  then show ?thesis using check_inv [OF assms] by auto
qed

lemma job_run_inv:
  "job_inv files n acc j \<Longrightarrow> job_past E P n acc j \<Longrightarrow>
   \<exists>acc'. job_inv files n acc' (snd (job_run es j)) \<and>
     job_past (set es \<union> E) (P \<union> set (fst (job_run es j))) n acc' (snd (job_run es j))"
proof (induction es arbitrary: acc j E P)
  case (Cons e es)
  obtain acc1 where "job_inv files n acc1 (snd (job_step e j))"
    "job_past (insert e E) (P \<union> set (fst (job_step e j))) n acc1 (snd (job_step e j))"
    using job_step_inv [OF Cons.prems] by blast
  from Cons.IH [OF this] show ?case by (simp add: Let_def case_prod_beta Un_assoc)
qed auto
text \<open>A map task that is handed out names one of the input files.\<close>

lemma job_step_map_reply:
  assumes "job_inv files n acc j" "job_past E P n acc j" "p \<in> set (fst (job_step e j))" "trKind p = MapTask"
  shows "trMapFile p \<in> set files \<and> trNReduce p = n"
proof (cases e)
  case (Ask now)
  let ?j = "job_open j"
  note o = open_inv(1) [OF assms(1,2)]
  have n: "jReduces ?j = n" using o by (simp add: job_inv_def)
  obtain t ts where t: "jTodo ?j = t # ts" "p = task_reply n t"
    using assms(3,4) Ask n by (auto simp: job_get_def Let_def split: if_splits list.splits)
  then obtain f where f: "t = MapOf f" using assms(4) by (cases t) auto
  have "t \<in> set (tasks ?j)" using t(1) by (simp add: tasks_def)
  then have "f \<in> set files" using o f by (cases "jReady ?j") (auto simp: job_inv_def)
  then show ?thesis using t(2) f by (simp add: task_reply.simps)
qed (use assms(3) in simp_all)

lemma job_run_map_replies:
  "\<lbrakk>job_inv files n acc j; job_past E P n acc j; p \<in> set (fst (job_run es j)); trKind p = MapTask\<rbrakk> \<Longrightarrow>
     trMapFile p \<in> set files \<and> trNReduce p = n"
proof (induction es arbitrary: acc j E P)
  case (Cons e es)
  obtain acc1 where "job_inv files n acc1 (snd (job_step e j))"
    "job_past (insert e E) (P \<union> set (fst (job_step e j))) n acc1 (snd (job_step e j))"
    using job_step_inv [OF Cons.prems(1,2)] by blast
  from Cons.IH [OF this] show ?case
    using job_step_map_reply [OF Cons.prems(1,2) _ Cons.prems(4), of e] Cons.prems(3,4)
    by (auto simp: Let_def case_prod_beta)
qed simp

section \<open>One worker is enough\<close>

text \<open>
  A worker whose tasks succeed, as a loop over the job: it asks, works and reports, and while it
  waits the coordinator scans. Its clock stands at \<open>t\<close>.
\<close>

fun job_worker :: "nat \<Rightarrow> int \<Rightarrow> (string \<Rightarrow> string list) \<Rightarrow> job \<Rightarrow> job option" where
  "job_worker 0 t out j = None"
| "job_worker (Suc k) t out j =
     (case job_get t j of (p, j) \<Rightarrow>
        case trKind p of
          ExitTask \<Rightarrow> Some j
        | WaitTask \<Rightarrow> job_worker k t out (job_check t j)
        | MapTask \<Rightarrow> job_worker k t out (job_map (trMapFile p) (out (trMapFile p)) j)
        | ReduceTask \<Rightarrow> job_worker k t out (job_reduce (trReduceID p) j))"

definition work_left :: "job \<Rightarrow> nat" where
  "work_left j =
     2 * (length (tasks j) + (if jReady j then 0 else nat (jReduces j))) + (if jGoing j = [] then 0 else 1)"

lemma open_work_left:
  assumes "job_inv files n acc j"
  shows "work_left (job_open j) = work_left j"
proof (cases "\<not> jReady j \<and> card (jMaps j) = length (jFiles j)")
  case True
  have "finite (set files)" by simp
  then have "jMaps j = set files"
    by (rule card_subset_eq) (use assms True distinct_card [of files] in \<open>auto simp: job_inv_def\<close>)
  then have "tasks j = []" using assms True by (simp add: job_inv_def)
  then show ?thesis using True by (simp add: work_left_def job_open_def tasks_def)
qed (auto simp: job_open_def)

lemma lone_map:
  assumes "distinct (t # ts @ map fst going)"
  shows "filter (\<lambda>(t', _). t' \<noteq> t) (going @ [(t, s)]) = going"
proof -
  have "fst x \<noteq> t" if "x \<in> set going" for x using assms that by force
  then show ?thesis by (simp add: filter_id_conv case_prod_beta)
qed

lemma job_worker_turn:
  assumes i: "job_inv files n acc j" "job_past E P n acc j" and late: "\<forall>(x, s) \<in> set (jGoing j). t - s \<ge> TaskTimeout"
  obtains (over) p j1 where "job_get t j = (p, j1)" "trKind p = ExitTask" "jOver j1"
  | (goes_on) j' acc' E' P' where "\<And>k. job_worker (Suc k) t out j = job_worker k t out j'" "job_inv files n acc' j'"
      "job_past E' P' n acc' j'" "set (jGoing j') \<subseteq> set (jGoing j)" "work_left j' < work_left j"
proof -
  let ?j = "job_open j"
  note o = open_inv [OF i] and wl = open_work_left [OF i(1)]
  obtain p j1 where g: "job_get t j = (p, j1)" by fastforce
  note gi = get_inv [OF i g]
  have n: "jReduces ?j = n" using o(1) by (simp add: job_inv_def)
  have d: "distinct (tasks ?j)" using o(1) by (simp add: job_inv_def)
  show ?thesis
  proof (cases "jTodo ?j")
    case Nil
    show ?thesis
    proof (cases "jReady ?j \<and> jGoing ?j = []")
      case True
      then show ?thesis using over [OF g] g Nil by (auto simp: job_get_def Let_def)
    next
      case False
      then have j1: "j1 = ?j" "trKind p = WaitTask" using g Nil by (auto simp: job_get_def Let_def split: if_splits)
      have ne: "jGoing ?j \<noteq> []" using False o(4) Nil by (auto simp: tasks_def)
      have lt: "\<forall>x \<in> set (jGoing ?j). case x of (x, s) \<Rightarrow> t - s \<ge> TaskTimeout" using late o(3) by simp
      then have tk: "takeWhile (\<lambda>(x, s). t - s \<ge> TaskTimeout) (jGoing ?j) = jGoing ?j"
        and dk: "dropWhile (\<lambda>(x, s). t - s \<ge> TaskTimeout) (jGoing ?j) = []"
        by (auto simp: takeWhile_eq_all_conv dropWhile_eq_Nil_conv)
      have c: "job_check t ?j = ?j\<lparr>jTodo := jTodo ?j @ map fst (jGoing ?j), jGoing := []\<rparr>"
        by (simp add: job_check_def Let_def tk dk)
      have "work_left (job_check t ?j) < work_left j"
        using ne unfolding wl [symmetric] c by (simp add: work_left_def tasks_def)
      moreover have "job_worker (Suc k) t out j = job_worker k t out (job_check t ?j)" for k using g j1 by simp
      ultimately show ?thesis
        using goes_on [of "job_check t ?j"] check_inv [OF o(1,2), of t] c by simp
    qed
  next
    case (Cons x ts)
    then have j1: "j1 = ?j\<lparr>jTodo := ts, jGoing := jGoing ?j @ [(x, t)]\<rparr>" "p = task_reply n x"
      using g n by (auto simp: job_get_def Let_def)
    have dx: "distinct (x # ts @ map fst (jGoing ?j))" using d Cons by (simp add: tasks_def)
    have wx: "work_left (?j\<lparr>jTodo := ts, jGoing := jGoing ?j, jMaps := m, jOuts := u\<rparr>) < work_left j" for m u
      unfolding wl [symmetric] using Cons by (simp add: work_left_def tasks_def)
    show ?thesis
    proof (cases x)
      case (MapOf f)
      have m: "job_map f (out f) j1 = ?j\<lparr>jTodo := ts, jGoing := jGoing ?j, jMaps := insert f (jMaps ?j),
          jOuts := add_files 0 (out f) (jOuts ?j)\<rparr>"
        using lone_map [OF dx, of t] MapOf by (simp add: job_map_def j1(1))
      have "job_worker (Suc k) t out j = job_worker k t out (job_map f (out f) j1)" for k
        using g j1(2) MapOf by (simp add: task_reply.simps)
      moreover obtain acc' where "job_inv files n acc' (job_map f (out f) j1)"
        "job_past (insert (MapReport f (out f)) (insert (Ask t) E)) (insert p P) n acc' (job_map f (out f) j1)"
        using map_inv [OF gi, of f "out f"] by blast
      moreover have "set (jGoing (job_map f (out f) j1)) \<subseteq> set (jGoing j)" unfolding m by (simp add: o(3))
      moreover have "work_left (job_map f (out f) j1) < work_left j" unfolding m by (rule wx)
      ultimately show ?thesis using goes_on by blast
    next
      case (ReduceOf r fs)
      have "is_reduce r y \<longleftrightarrow> y = x" if "y \<in> set (tasks ?j)" for y
      proof -
        have "x \<in> set (tasks ?j)" using Cons by (simp add: tasks_def)
        then have "jReady ?j" using o(1) ReduceOf by (cases "jReady ?j") (auto simp: job_inv_def)
        then have "set (tasks ?j) = (\<lambda>r. ReduceOf r (outs_for r acc)) ` open_reduces ?j" using o(1) by (simp add: job_inv_def)
        then show ?thesis using that ReduceOf \<open>x \<in> set (tasks ?j)\<close> by auto
      qed
      then have "filter (\<lambda>(t', _). \<not> is_reduce r t') (jGoing ?j @ [(x, t)]) = filter (\<lambda>(t', _). t' \<noteq> x) (jGoing ?j @ [(x, t)])"
        by (intro filter_cong) (auto simp: tasks_def ReduceOf rev_image_eqI)
      then have m: "job_reduce r j1 = ?j\<lparr>jTodo := ts, jGoing := jGoing ?j, jMaps := jMaps ?j, jOuts := jOuts ?j\<rparr>"
        using lone_map [OF dx, of t] by (simp add: job_reduce_def j1(1))
      have "job_worker (Suc k) t out j = job_worker k t out (job_reduce r j1)" for k
        using g j1(2) ReduceOf by (simp add: task_reply.simps)
      moreover have "set (jGoing (job_reduce r j1)) \<subseteq> set (jGoing j)" unfolding m by (simp add: o(3))
      moreover have "work_left (job_reduce r j1) < work_left j" unfolding m by (rule wx)
      ultimately show ?thesis using goes_on [of "job_reduce r j1"] reduce_inv [OF gi, of r] by blast
    qed
  qed
qed

lemma job_worker_finishes:
  assumes "job_inv files n acc j" "job_past E P n acc j" "\<forall>(x, s) \<in> set (jGoing j). t - s \<ge> TaskTimeout" "work_left j < k"
  shows "\<exists>j'. job_worker k t out j = Some j' \<and> jOver j'"
  using assms
proof (induction k arbitrary: acc j E P)
  case (Suc k)
  show ?case
  proof (rule job_worker_turn [OF Suc.prems(1-3), where out = out])
    fix p j1 assume "job_get t j = (p, j1)" "trKind p = ExitTask" "jOver j1"
    then show ?thesis by simp
  next
    fix j' acc' E' P'
    assume a: "\<And>k. job_worker (Suc k) t out j = job_worker k t out j'" "job_inv files n acc' j'" "job_past E' P' n acc' j'"
      "set (jGoing j') \<subseteq> set (jGoing j)" "work_left j' < work_left j"
    have "\<forall>(x, s) \<in> set (jGoing j'). t - s \<ge> TaskTimeout" using a(4) Suc.prems(3) by blast
    then obtain j'' where "job_worker k t out j' = Some j''" "jOver j''"
      using Suc.IH [OF a(2,3)] a(5) Suc.prems(4) by auto
    then show ?thesis using a(1) by metis
  qed
qed simp

end
