(* ===== verification/MR_Service.thy ===== *)
theory MR_Service
  imports MR_Refine MR_Invariant
begin

text \<open>
  What a MapReduce job promises, on the coordinator itself: the properties of
  src/src/mr/coordinator.go over whole sessions with any number of workers, of which any number
  may be slow, repeat themselves or never come back.
\<close>

section \<open>The two lists, followed through their pointers\<close>

fun follow :: "nat \<Rightarrow> heap \<Rightarrow> addr option \<Rightarrow> addr list" where
  "follow 0 h p = []"
| "follow (Suc k) h p = (case p of None \<Rightarrow> [] | Some a \<Rightarrow> a # follow k h (nNext (h a)))"

definition nodes_in :: "coord \<Rightarrow> nodeList \<Rightarrow> addr list" where
  "nodes_in c l = follow (nat (lSize l)) (cCells c) (nNext (cCells c (lHead l)))"

definition queued :: "coord \<Rightarrow> task list" where
  "queued c = map (\<lambda>a. task_of (cCells c a)) (nodes_in c (pendingL c) @ nodes_in c (runningL c))"

lemma follow_chain: "chain h (x # xs @ [z]) \<Longrightarrow> follow (length xs) h (nNext (h x)) = xs"
  by (induction xs arbitrary: x) auto

lemma nodes_in_linked: "linked (cCells c) l xs \<Longrightarrow> nodes_in c l = xs"
  using follow_chain [of "cCells c" "lHead l" xs "lTail l"] by (simp add: nodes_in_def linked_def)

lemma queued_tasks:
  assumes "represents c ps rs j"
  shows "queued c = tasks j"
proof -
  have "queued c = map (\<lambda>a. task_of (cCells c a)) (ps @ rs)"
    using nodes_in_linked [OF linked_pending [OF assms]] nodes_in_linked [OF linked_running [OF assms]]
    by (simp add: queued_def)
  then show ?thesis using representsD(3) [OF assms] by (simp add: tasks_def shape_def)
qed

lemma session_inv:
  assumes "distinct files"
  obtains c ps rs acc where
    "coord_session files n es = Some (fst (job_run es (job_init files n)), c)"
    "represents c ps rs (snd (job_run es (job_init files n)))"
    "job_inv files n acc (snd (job_run es (job_init files n)))"
    "job_past (set es) (set (fst (job_run es (job_init files n)))) n acc (snd (job_run es (job_init files n)))"
proof -
  obtain c0 ps0 where m: "MakeCoordinator files n = Some c0" "represents c0 ps0 [] (job_init files n)"
    using MakeCoordinator_represents [OF assms] by blast
  obtain c ps rs where r: "coord_run es c0 = Some (fst (job_run es (job_init files n)), c)"
    "represents c ps rs (snd (job_run es (job_init files n)))"
    using coord_run_represents [OF m(2)] by blast
  obtain acc where "job_inv files n acc (snd (job_run es (job_init files n)))"
    "job_past (set es \<union> {}) ({} \<union> set (fst (job_run es (job_init files n)))) n acc (snd (job_run es (job_init files n)))"
    using job_run_inv [OF job_init_inv [OF assms]] by blast
  then show ?thesis using that m r by (simp add: coord_session_def)
qed

text \<open>The accepted reports of a session, and what every reply has to do with them.\<close>

lemma session_phases:
  assumes "distinct files" "coord_session files n es = Some (replies, c)"
  shows "\<exists>acc. distinct (map fst acc) \<and> fst ` set acc \<subseteq> set files \<and> (\<forall>(f, outs) \<in> set acc. MapReport f outs \<in> set es) \<and>
    (\<forall>p \<in> set replies. trKind p = ReduceTask \<longrightarrow>
       fst ` set acc = set files \<and> 0 \<le> trReduceID p \<and> trReduceID p < n \<and> trFiles p = outs_for (trReduceID p) acc) \<and>
    (\<forall>p \<in> set replies. trKind p = ExitTask \<longrightarrow>
       fst ` set acc = set files \<and>
       (\<forall>r \<in> {0..<n}. ReduceReport r \<in> set es \<and> (\<exists>q \<in> set replies. trKind q = ReduceTask \<and> trReduceID q = r))) \<and>
    (\<forall>p \<in> set replies. trKind p = MapTask \<longrightarrow> trMapFile p \<in> set files \<and> trNReduce p = n) \<and>
    (Done c \<longrightarrow> (\<forall>r \<in> {0..<n}. ReduceReport r \<in> set es))"
proof -
  obtain c' ps rs acc where *: "coord_session files n es = Some (fst (job_run es (job_init files n)), c')"
    "represents c' ps rs (snd (job_run es (job_init files n)))"
    "job_inv files n acc (snd (job_run es (job_init files n)))"
    "job_past (set es) (set (fst (job_run es (job_init files n)))) n acc (snd (job_run es (job_init files n)))"
    by (rule session_inv [OF assms(1)])
  let ?j = "snd (job_run es (job_init files n))"
  have past: "job_past (set es) (set replies) n acc ?j" using * assms(2) by simp
  have red: "fst ` set acc = set files \<and> 0 \<le> trReduceID p \<and> trReduceID p < n \<and> trFiles p = outs_for (trReduceID p) acc"
    if p: "p \<in> set replies" "trKind p = ReduceTask" for p
  proof -
    obtain r where "jReady ?j" "r \<in> {0..<n}" "p = task_reply n (ReduceOf r (outs_for r acc))"
      using past p by (auto simp: job_past_def)
    then show ?thesis using *(3) by (auto simp: job_inv_def task_reply.simps)
  qed
  have ex: "fst ` set acc = set files \<and>
      (\<forall>r \<in> {0..<n}. ReduceReport r \<in> set es \<and> (\<exists>q \<in> set replies. trKind q = ReduceTask \<and> trReduceID q = r))"
    if p: "p \<in> set replies" "trKind p = ExitTask" for p
  proof -
    have o: "jReady ?j" "tasks ?j = []" using past p *(3) by (auto simp: job_past_def job_inv_def)
    then have "open_reduces ?j = {}" by (simp add: open_reduces_def)
    then have a: "\<forall>r \<in> {0..<n}. ReduceReport r \<in> set es \<and> task_reply n (ReduceOf r (outs_for r acc)) \<in> set replies"
      using past o(1) by (simp add: job_past_def)
    have "ReduceReport r \<in> set es \<and> (\<exists>q \<in> set replies. trKind q = ReduceTask \<and> trReduceID q = r)" if "r \<in> {0..<n}" for r
    proof -
      have q: "ReduceReport r \<in> set es" "task_reply n (ReduceOf r (outs_for r acc)) \<in> set replies" using bspec [OF a that] by simp_all
      have "trKind (task_reply n (ReduceOf r (outs_for r acc))) = ReduceTask \<and>
        trReduceID (task_reply n (ReduceOf r (outs_for r acc))) = r" by (simp add: task_reply.simps)
      then show ?thesis using q by blast
    qed
    moreover have "fst ` set acc = set files" using o(1) *(3) by (auto simp: job_inv_def)
    ultimately show ?thesis by blast
  qed
  have dis: "distinct (map fst acc)" "fst ` set acc \<subseteq> set files" using *(3) unfolding job_inv_def by metis+
  have rep: "\<forall>(f, outs) \<in> set acc. MapReport f outs \<in> set es" using past unfolding job_past_def by fast
  have mp: "trMapFile p \<in> set files \<and> trNReduce p = n" if "p \<in> set replies" "trKind p = MapTask" for p
    using job_run_map_replies [OF job_init_inv [OF assms(1)]] that * assms(2) by simp
  have dn: "ReduceReport r \<in> set es" if "Done c" "r \<in> {0..<n}" for r
  proof -
    have "jOver ?j" using that(1) * assms(2) by (auto simp: represents_def shape_def Done_def)
    then have "jReady ?j" "open_reduces ?j = {}" using *(3) by (auto simp: job_inv_def open_reduces_def)
    then show ?thesis using past that(2) by (auto simp: job_past_def)
  qed
  show ?thesis
    by (intro exI [of _ acc] conjI ballI impI)
      (use rep in blast | (drule (1) red, blast) | (drule (1) ex, blast) | (drule (1) mp, blast) | (drule (1) dn, blast) | fact)+
qed

section \<open>Running the coordinator\<close>

text \<open>Evaluation by rewriting, strictly: what is bound before what uses it.\<close>

lemma bind_weak_cong: "x = y \<Longrightarrow> Option.bind x f = Option.bind y f"
  by simp

lemmas coord_defs = coord_session_def MakeCoordinator_def newNodeList_def blank_def alloc_def take_free_def bump_def
  set_node_def push_pending_def pushBack_def push_running_def drop_pending_def drop_running_def list_remove_def
  recycle_def GetTask_def hand_out_def ReportMap_def ReportReduce_def checkTimeout_def check_loop.simps retry_def
  list_empty_def zeroReply_def TaskTimeout_def Done_def startReducePhase_def

section \<open>Properties\<close>

text \<open>A session used by the witnesses: two files, one reduce task, a worker that dies and its replacement.\<close>

definition second :: int where
  "second = 1000000000"

definition demo_session :: "mrEvent list" where
  "demo_session = [Ask 0, Ask second, MapReport ''b'' [''b0''], Scan (11 * second), Ask (12 * second),
     MapReport ''a'' [''a0''], MapReport ''a'' [''late''], Ask (13 * second), ReduceReport 0, Ask (14 * second)]"

text \<open>
  C27. The coordinator refines two queues of tasks. For every sequence of requests, reports and
  timeout scans, with distinct input files, no handler follows a nil pointer, every scan ends,
  each reply is the one the abstract job gives, and the linked lists, tables and flags afterwards
  represent the abstract state.
\<close>

theorem coordinator_is_queue:
  assumes "distinct files"
  shows "\<exists>c ps rs. coord_session files n es = Some (fst (job_run es (job_init files n)), c) \<and>
    represents c ps rs (snd (job_run es (job_init files n)))"
  by (rule session_inv [OF assms]) blast

lemma coordinator_is_queue_witness:
  "map trKind (fst (job_run demo_session (job_init [''a'', ''b''] 1))) = [MapTask, MapTask, MapTask, ReduceTask, ExitTask] \<and>
   (\<exists>c. coord_session [''a'', ''b''] 1 demo_session = Some (fst (job_run demo_session (job_init [''a'', ''b''] 1)), c))"
proof
  show "map trKind (fst (job_run demo_session (job_init [''a'', ''b''] 1))) = [MapTask, MapTask, MapTask, ReduceTask, ExitTask]"
    by code_simp
  have "distinct [''a'', ''b'']" by simp
  from coordinator_is_queue [OF this, of 1 demo_session]
  show "\<exists>c. coord_session [''a'', ''b''] 1 demo_session = Some (fst (job_run demo_session (job_init [''a'', ''b''] 1)), c)"
    by blast
qed

text \<open>
  C28. No task is lost or doubled. After any session with distinct input files, the nodes found by
  following the pointers of both lists are, each exactly once, the map tasks of the files that are
  not done, or, when the reduce phase has begun, the reduce tasks still in the table, each with
  all the files recorded for its id; and the reduce phase only begins when every file is done.
\<close>

theorem tasks_never_lost:
  assumes "distinct files" "coord_session files n es = Some (replies, c)"
  shows "distinct (queued c) \<and>
    set (queued c) = (if reducesReady c then {ReduceOf r (mapFiles c r) | r. reduceTask c r \<noteq> None}
                      else {MapOf f | f. f \<in> set files - mapDone c}) \<and>
    (reducesReady c \<longrightarrow> mapDone c = set files)"
proof -
  obtain c' ps rs acc where *: "coord_session files n es = Some (fst (job_run es (job_init files n)), c')"
    "represents c' ps rs (snd (job_run es (job_init files n)))"
    "job_inv files n acc (snd (job_run es (job_init files n)))"
    by (rule session_inv [OF assms(1)]) blast
  let ?j = "snd (job_run es (job_init files n))"
  have r: "represents c ps rs ?j" using * assms(2) by simp
  note rD = representsD [OF r] and q = queued_tasks [OF r]
  have f: "mapDone c = jMaps ?j" "reducesReady c = jReady ?j" "mapFiles c = jOuts ?j" using rD(3) by (simp_all add: shape_def)
  have tk: "tasks ?j = map (\<lambda>a. task_of (cCells c a)) (ps @ rs)" using rD(3) by (simp add: tasks_def shape_def)
  have o: "reduceTask c r \<noteq> None \<longleftrightarrow> r \<in> open_reduces ?j" for r
  proof -
    have "reduceTask c r \<noteq> None \<longleftrightarrow> (\<exists>a \<in> set (ps @ rs). key_of (cCells c a) = Inr r)"
      using rD(2) by (auto simp: tabled_def current_def split: sum.splits)
    also have "\<dots> \<longleftrightarrow> (\<exists>t \<in> set (tasks ?j). is_reduce r t)"
      unfolding tk set_map bex_simps(7) by (simp add: task_key_of(2))
    also have "\<dots> \<longleftrightarrow> r \<in> open_reduces ?j"
    proof
      assume "\<exists>t \<in> set (tasks ?j). is_reduce r t"
      then show "r \<in> open_reduces ?j" by (auto simp: open_reduces_def elim!: is_reduce.elims)
    next
      assume "r \<in> open_reduces ?j"
      then obtain fs where "ReduceOf r fs \<in> set (tasks ?j)" by (auto simp: open_reduces_def)
      then show "\<exists>t \<in> set (tasks ?j). is_reduce r t" by (rule rev_bexI) simp
    qed
    finally show ?thesis .
  qed
  show ?thesis using *(3) unfolding q f o by (auto simp: job_inv_def)
qed
text \<open>The demo session up to the first worker's crash and the scan: the abandoned task waits again.\<close>

lemma tasks_never_lost_witness:
  "\<exists>c replies. coord_session [''a'', ''b''] 1 (take 4 demo_session) = Some (replies, c) \<and>
     distinct (queued c) \<and> set (queued c) = {MapOf ''a''}"
proof -
  have d: "distinct [''a'', ''b'']" by simp
  obtain c replies where c: "coord_session [''a'', ''b''] 1 (take 4 demo_session) = Some (replies, c)"
    using session_inv [OF d, of 1 "take 4 demo_session"] by blast
  have p: "case coord_session [''a'', ''b''] 1 (take 4 demo_session) of
      None \<Rightarrow> False | Some (replies, c) \<Rightarrow> \<not> reducesReady c \<and> mapDone c = {''b''}"
    by (simp add: demo_session_def second_def coord_defs Let_def cong: let_weak_cong bind_weak_cong)
  have "\<not> reducesReady c \<and> mapDone c = {''b''}" using p c by simp
  then show ?thesis using tasks_never_lost [OF d c] c by auto
qed

text \<open>
  C29. Reduce tasks wait for the maps, and Exit for everything. In every session there is one list
  of accepted reports, at most one for each input file, such that a reduce task is only ever
  handed out when every file has one, with an id in range and with exactly the non-empty names
  these reports give for the id, the same whenever the task is handed out again; and a worker is
  told to exit only when every reduce id has been handed out and reported.
\<close>

theorem phases_in_order:
  assumes "distinct files" "coord_session files n es = Some (replies, c)"
  shows "\<exists>acc. distinct (map fst acc) \<and> fst ` set acc \<subseteq> set files \<and> (\<forall>(f, outs) \<in> set acc. MapReport f outs \<in> set es) \<and>
    (\<forall>p \<in> set replies. trKind p = ReduceTask \<longrightarrow>
       fst ` set acc = set files \<and> 0 \<le> trReduceID p \<and> trReduceID p < n \<and> trFiles p = outs_for (trReduceID p) acc) \<and>
    (\<forall>p \<in> set replies. trKind p = ExitTask \<longrightarrow>
       fst ` set acc = set files \<and>
       (\<forall>r \<in> {0..<n}. ReduceReport r \<in> set es \<and> (\<exists>q \<in> set replies. trKind q = ReduceTask \<and> trReduceID q = r)))"
  using session_phases [OF assms] by (elim ex_forward conjE) (intro conjI, assumption+)

lemma phases_in_order_witness:
  "\<exists>replies c acc. coord_session [''a'', ''b''] 1 demo_session = Some (replies, c) \<and>
     trKind (last replies) = ExitTask \<and> fst ` set acc = {''a'', ''b''} \<and> trFiles (replies ! 3) = outs_for 0 acc"
proof -
  have d: "distinct [''a'', ''b'']" by simp
  define replies where "replies = fst (job_run demo_session (job_init [''a'', ''b''] 1))"
  obtain c where c: "coord_session [''a'', ''b''] 1 demo_session = Some (replies, c)"
    using session_inv [OF d, of 1 demo_session] unfolding replies_def by blast
  have q: "length replies = 5" "trKind (replies ! 4) = ExitTask" "trKind (replies ! 3) = ReduceTask" "trReduceID (replies ! 3) = 0"
    unfolding replies_def by code_simp+
  then have "replies \<noteq> []" by auto
  then have l: "last replies = replies ! 4" using q(1) by (simp add: last_conv_nth)
  obtain acc where "\<forall>p \<in> set replies. trKind p = ReduceTask \<longrightarrow>
       fst ` set acc = set [''a'', ''b''] \<and> 0 \<le> trReduceID p \<and> trReduceID p < 1 \<and> trFiles p = outs_for (trReduceID p) acc"
    using phases_in_order [OF d c] by (elim exE conjE) (rule that)
  moreover have "replies ! 3 \<in> set replies" using q(1) by simp
  ultimately have "fst ` set acc = set [''a'', ''b'']" "trFiles (replies ! 3) = outs_for 0 acc" using q(3,4) by auto
  then show ?thesis using c l q(2) by (intro exI [of _ replies] exI [of _ c] exI [of _ acc]) simp
qed

section \<open>One worker is enough\<close>

text \<open>
  The loop of a worker whose tasks succeed (worker.go, Worker), against the coordinator: \<open>out\<close> is
  what it reports for a file. While it waits, the coordinator's own goroutine scans.
\<close>

fun lone_worker :: "nat \<Rightarrow> int \<Rightarrow> (string \<Rightarrow> string list) \<Rightarrow> coord \<Rightarrow> coord option" where
  "lone_worker 0 t out c = None"
| "lone_worker (Suc k) t out c = do {
     (p, c) \<leftarrow> GetTask t c;
     case trKind p of
       ExitTask \<Rightarrow> Some c
     | WaitTask \<Rightarrow> do { c \<leftarrow> checkTimeout t c; lone_worker k t out c }
     | MapTask \<Rightarrow> do { c \<leftarrow> ReportMap (trMapFile p) (out (trMapFile p)) c; lone_worker k t out c }
     | ReduceTask \<Rightarrow> do { c \<leftarrow> ReportReduce (trReduceID p) c; lone_worker k t out c }
   }"

lemma lone_worker_job:
  "represents c ps rs j \<Longrightarrow> job_worker k t out j = Some j' \<Longrightarrow>
   \<exists>c' ps' rs'. lone_worker k t out c = Some c' \<and> represents c' ps' rs' j'"
proof (induction k arbitrary: c ps rs j)
  case (Suc k)
  obtain p j1 where g: "job_get t j = (p, j1)" by fastforce
  obtain c1 ps1 rs1 where c1: "GetTask t c = Some (p, c1)" "represents c1 ps1 rs1 j1"
    using GetTask_represents [OF Suc.prems(1), of t] g by auto
  show ?case
  proof (cases "trKind p")
    case MapTask
    obtain c2 rs2 where "ReportMap (trMapFile p) (out (trMapFile p)) c1 = Some c2"
      "represents c2 ps1 rs2 (job_map (trMapFile p) (out (trMapFile p)) j1)"
      using ReportMap_represents [OF c1(2)] by blast
    then show ?thesis using Suc.IH Suc.prems(2) g c1(1) MapTask by simp
  next
    case ReduceTask
    obtain c2 rs2 where "ReportReduce (trReduceID p) c1 = Some c2"
      "represents c2 ps1 rs2 (job_reduce (trReduceID p) j1)"
      using ReportReduce_represents [OF c1(2)] by blast
    then show ?thesis using Suc.IH Suc.prems(2) g c1(1) ReduceTask by simp
  next
    case WaitTask
    obtain c2 ps2 rs2 where "checkTimeout t c1 = Some c2" "represents c2 ps2 rs2 (job_check t j1)"
      using checkTimeout_represents [OF c1(2)] by blast
    then show ?thesis using Suc.IH Suc.prems(2) g c1(1) WaitTask by simp
  next
    case ExitTask
    then show ?thesis using Suc.prems(2) g c1 by auto
  qed
qed simp

text \<open>
  One worker finishes any job. After any session with distinct input files, whatever the
  other workers did and left undone, a worker that comes when every earlier request is ten
  seconds old and whose own tasks succeed is told to exit within the given number of requests,
  and then \<open>Done\<close> says that the whole job is finished.
\<close>

theorem one_worker_finishes:
  assumes "distinct files" "coord_session files n es = Some (replies, c)"
    "\<forall>e \<in> set es. \<forall>s. e = Ask s \<longrightarrow> s + TaskTimeout \<le> t"
  shows "\<exists>c'. lone_worker (2 * (length files + nat n) + 2) t out c = Some c' \<and> Done c'"
proof -
  obtain c' ps rs acc where *: "coord_session files n es = Some (fst (job_run es (job_init files n)), c')"
    "represents c' ps rs (snd (job_run es (job_init files n)))"
    "job_inv files n acc (snd (job_run es (job_init files n)))"
    "job_past (set es) (set (fst (job_run es (job_init files n)))) n acc (snd (job_run es (job_init files n)))"
    by (rule session_inv [OF assms(1)])
  let ?j = "snd (job_run es (job_init files n))"
  have c: "represents c ps rs ?j" using * assms(2) by simp
  have late: "\<forall>(x, s) \<in> set (jGoing ?j). t - s \<ge> TaskTimeout"
    using *(4) assms(3) by (fastforce simp: job_past_def)
  have len: "length (tasks ?j) = card (set (tasks ?j))" using *(3) by (simp add: job_inv_def distinct_card)
  have "length (tasks ?j) + (if jReady ?j then 0 else nat n) \<le> length files + nat n"
  proof (cases "jReady ?j")
    case True
    then have "set (tasks ?j) = (\<lambda>r. ReduceOf r (outs_for r acc)) ` open_reduces ?j" "open_reduces ?j \<subseteq> {0..<n}"
      using *(3) by (auto simp: job_inv_def)
    then have "card (set (tasks ?j)) \<le> card {0..<n}"
      by (metis card_image_le card_mono finite_atLeastLessThan_int finite_subset le_trans)
    then show ?thesis using True len by simp
  next
    case False
    then have "set (tasks ?j) = MapOf ` (set files - jMaps ?j)" using *(3) by (simp add: job_inv_def)
    then have "card (set (tasks ?j)) \<le> card (set files)"
      by (metis Diff_subset List.finite_set card_image_le card_mono finite_Diff le_trans)
    then show ?thesis using False len card_length [of files] by simp
  qed
  moreover have "jReduces ?j = n" using *(3) by (simp add: job_inv_def)
  ultimately have "work_left ?j < 2 * (length files + nat n) + 2"
    by (cases "jReady ?j"; cases "jGoing ?j = []") (simp_all add: work_left_def)
  from job_worker_finishes [OF *(3,4) late this]
  obtain j' where j': "job_worker (2 * (length files + nat n) + 2) t out ?j = Some j'" "jOver j'" by blast
  from lone_worker_job [OF c j'(1)] j'(2) show ?thesis by (auto simp: represents_def shape_def Done_def)
qed

lemma one_worker_finishes_witness:
  "\<exists>c replies c'. coord_session [''a'', ''b''] 2 [Ask 0, Ask 1, Ask 2] = Some (replies, c) \<and>
     lone_worker 10 (20 * second) (\<lambda>f. [f]) c = Some c' \<and> Done c'"
proof -
  have d: "distinct [''a'', ''b'']" by simp
  obtain c replies where c: "coord_session [''a'', ''b''] 2 [Ask 0, Ask 1, Ask 2] = Some (replies, c)"
    using session_inv [OF d, of 2 "[Ask 0, Ask 1, Ask 2]"] by blast
  have "\<forall>e \<in> set [Ask 0, Ask 1, Ask 2]. \<forall>s. e = Ask s \<longrightarrow> s + TaskTimeout \<le> 20 * second"
    by (simp add: TaskTimeout_def second_def)
  from one_worker_finishes [OF d c this, of "\<lambda>f. [f]"] c show ?thesis by simp
qed

end
