(* ===== verification/MR_Files.thy ===== *)
theory MR_Files
  imports Prelude "HOL-Library.Char_ord" "HOL-Library.List_Lexorder"
begin

text \<open>
  Intermediate files of the MapReduce worker (src/src/mr/worker.go): pairs printed one to a line,
  read back through a buffer of 1024 bytes. A byte is a character, a file its content, an offset a
  natural number; keys are compared as Go compares strings, byte by byte.
\<close>

section \<open>Pairs and lines\<close>

record KeyValue =
  kvKey :: string
  kvVal :: string

definition newline :: char where
  "newline = CHR 0x0A"

definition space :: char where
  "space = CHR '' ''"

text \<open>What \<open>Fprintf(w, "%v %v\n", key, value)\<close> writes.\<close>

definition print_line :: "string \<Rightarrow> string \<Rightarrow> string" where
  "print_line k v = k @ [space] @ v @ [newline]"

definition print_kv :: "KeyValue \<Rightarrow> string" where
  "print_kv kv = print_line (kvKey kv) (kvVal kv)"

definition LastIndexByte :: "string \<Rightarrow> char \<Rightarrow> int" where
  "LastIndexByte s c = int (length s) - 1 - int (length (takeWhile (\<lambda>x. x \<noteq> c) (rev s)))"

definition IndexByte :: "string \<Rightarrow> char \<Rightarrow> int" where
  "IndexByte s c = (let n = length (takeWhile (\<lambda>x. x \<noteq> c) s) in if n < length s then int n else -1)"

definition parseKV :: "string \<Rightarrow> KeyValue option" where
  "parseKV line =
     (let i = LastIndexByte line space in
      if i < 0 then None else Some \<lparr>kvKey = take (nat i) line, kvVal = drop (nat i + 1) line\<rparr>)"

text \<open>What a pair must look like to be read back: no line break, and no space in the value.\<close>

definition clean :: "KeyValue \<Rightarrow> bool" where
  "clean kv \<longleftrightarrow> newline \<notin> set (kvKey kv) \<and> newline \<notin> set (kvVal kv) \<and> space \<notin> set (kvVal kv)"

lemma takeWhile_all: "c \<notin> set xs \<Longrightarrow> takeWhile (\<lambda>x. x \<noteq> c) (xs @ ys) = xs @ takeWhile (\<lambda>x. x \<noteq> c) ys"
  by (rule takeWhile_append2) auto

lemma parse_last: "space \<notin> set v \<Longrightarrow> parseKV (k @ space # v) = Some \<lparr>kvKey = k, kvVal = v\<rparr>"
  by (simp add: parseKV_def LastIndexByte_def takeWhile_all)

lemma parse_inexact:
  assumes "space \<in> set v"
  shows "parseKV (k @ space # v) \<noteq> Some \<lparr>kvKey = k, kvVal = v\<rparr>"
proof -
  obtain v1 v2 where v: "v = v1 @ space # v2" "space \<notin> set v2" using split_list_last [OF assms] by blast
  then have "parseKV (k @ space # v) = Some \<lparr>kvKey = k @ space # v1, kvVal = v2\<rparr>"
    using parse_last [of v2 "k @ space # v1"] by simp
  then show ?thesis by simp
qed

section \<open>Reading lines\<close>

definition readBufSize :: nat where
  "readBufSize = 1024"

text \<open>The range \<open>off .. end\<close> of a file that is still to be read.\<close>

record lineReader =
  lrData :: string
  lrOff :: nat
  lrEnd :: nat

text \<open>
  The loop of readLine: a block is read, searched for a line break, and kept in \<open>scratch\<close> when it
  has none. The result is the line, none at the end, and the new offset.
\<close>

function read_loop :: "string \<Rightarrow> nat \<Rightarrow> nat \<Rightarrow> string \<Rightarrow> string option \<times> nat" where
  "read_loop d off e scratch =
     (if off < e then
        let buf = take (min (e - off) readBufSize) (drop off d) in
        if buf = [] then (if scratch = [] then None else Some scratch, off)
        else let i = IndexByte buf newline in
             if i \<ge> 0 then (Some (scratch @ take (nat i) buf), off + nat i + 1)
             else read_loop d (off + length buf) e (scratch @ buf)
      else (if scratch = [] then None else Some scratch, off))"
  by pat_completeness auto
termination
proof (relation "measure (\<lambda>(d, off, e, scratch). e - off)", goal_cases)
  case (2 d off e scratch buf i)
  then have "0 < length buf" by simp
  then have "e - (off + length buf) < e - off" using 2(1) by linarith
  then show ?case by simp
qed simp

declare read_loop.simps [simp del]

definition readLine :: "lineReader \<Rightarrow> string option \<times> lineReader" where
  "readLine lr = (let (line, off) = read_loop (lrData lr) (lrOff lr) (lrEnd lr) [] in (line, lr\<lparr>lrOff := off\<rparr>))"

text \<open>What is left to read, and the line it begins with.\<close>

definition left :: "lineReader \<Rightarrow> string" where
  "left lr = take (lrEnd lr - lrOff lr) (drop (lrOff lr) (lrData lr))"

definition first_line :: "string \<Rightarrow> string" where
  "first_line s = takeWhile (\<lambda>x. x \<noteq> newline) s"

lemma first_line_full: "newline \<notin> set s \<Longrightarrow> first_line (s @ t) = s @ first_line t"
  by (simp add: first_line_def takeWhile_all)

lemma first_line_less: "length (first_line s) < length s \<longleftrightarrow> newline \<in> set s"
proof -
  have "length (first_line s) \<le> length s" by (simp add: first_line_def length_takeWhile_le)
  moreover have "length (first_line s) = length s \<longleftrightarrow> first_line s = s"
    unfolding first_line_def by (metis takeWhile_eq_take take_all_iff order_refl)
  ultimately show ?thesis by (auto simp: first_line_def takeWhile_eq_all_conv)
qed

lemma IndexByte_first: "IndexByte s newline = (if newline \<in> set s then int (length (first_line s)) else -1)"
  using first_line_less [of s] by (simp add: IndexByte_def Let_def first_line_def)

lemma first_line_take: "take (length (first_line s)) s = first_line s"
  by (simp add: first_line_def takeWhile_eq_take [symmetric])

lemma read_loop_step:
  assumes "off < e" "take (min (e - off) readBufSize) (drop off d) = buf" "buf \<noteq> []"
  shows "read_loop d off e scratch =
    (if newline \<in> set buf then (Some (scratch @ first_line buf), off + length (first_line buf) + 1)
     else read_loop d (off + length buf) e (scratch @ buf))"
  by (subst read_loop.simps) (simp add: assms Let_def IndexByte_first first_line_take)

lemma read_loop_line:
  "read_loop d off e scratch =
     (let w = take (e - off) (drop off d); s = scratch @ w in
      if newline \<in> set w then (Some (scratch @ first_line w), off + length (first_line w) + 1)
      else (if s = [] then None else Some s, off + length w))"
proof (induction d off e scratch rule: read_loop.induct)
  case (1 d off e scratch)
  let ?w = "take (e - off) (drop off d)" and ?buf = "take (min (e - off) readBufSize) (drop off d)"
  show ?case
  proof (cases "off < e")
    case False
    then show ?thesis by (simp add: read_loop.simps)
  next
    case lt: True
    have ne: "?buf = [] \<longleftrightarrow> drop off d = []" using lt by (auto simp: readBufSize_def)
    show ?thesis
    proof (cases "?buf = []")
      case True
      then have "drop off d = []" using ne by simp
      then show ?thesis using lt True by (subst read_loop.simps) (simp add: Let_def)
    next
      case buf: False
      have w: "?w = ?buf @ take (e - (off + length ?buf)) (drop (off + length ?buf) d)"
      proof (cases "e - off \<le> readBufSize")
        case True
        then show ?thesis by (cases "length (drop off d) \<le> e - off") (auto simp: min_def)
      next
        case False
        then have b: "?buf = take readBufSize (drop off d)" by (simp add: min_def)
        show ?thesis
        proof (cases "length (drop off d) \<le> readBufSize")
          case True
          then show ?thesis using False b by simp
        next
          case longer: False
          then have len: "length ?buf = readBufSize" using b by simp
          have "?w = take (readBufSize + (e - off - readBufSize)) (drop off d)" using False by simp
          also have "\<dots> = ?buf @ take (e - off - readBufSize) (drop readBufSize (drop off d))"
            unfolding b by (rule take_add)
          finally show ?thesis using len by (simp add: add.commute)
        qed
      qed
      show ?thesis
      proof (cases "newline \<in> set ?buf")
        case True
        have f: "first_line ?w = first_line ?buf"
          unfolding first_line_def by (subst w, rule takeWhile_append1 [OF True]) simp
        have "newline \<in> set ?w" using True by (subst w) simp
        then show ?thesis using True unfolding read_loop_step [OF lt refl buf] Let_def f by (simp del: take_take)
      next
        case False
        let ?v = "take (e - (off + length ?buf)) (drop (off + length ?buf) d)"
        have ih: "read_loop d (off + length ?buf) e (scratch @ ?buf) =
           (let w = ?v; s = (scratch @ ?buf) @ w in
            if newline \<in> set w then (Some ((scratch @ ?buf) @ first_line w), off + length ?buf + length (first_line w) + 1)
            else (if s = [] then None else Some s, off + length ?buf + length w))"
          by (rule "1.IH" [OF lt refl buf refl]) (simp add: IndexByte_first False)
        have f: "first_line ?w = ?buf @ first_line ?v" by (subst w, rule first_line_full [OF False])
        have m: "newline \<in> set ?w \<longleftrightarrow> newline \<in> set ?v" using False by (subst w) simp
        have l: "length ?w = length ?buf + length ?v" by (subst w) simp
        have s: "scratch @ ?w = (scratch @ ?buf) @ ?v" by (subst w) simp
        have "read_loop d off e scratch = read_loop d (off + length ?buf) e (scratch @ ?buf)"
          using read_loop_step [OF lt refl buf] False by simp
        then show ?thesis unfolding ih Let_def m s l f by (simp add: add.assoc)
      qed
    qed
  qed
qed
lemma readLine_first:
  "readLine lr =
     (if newline \<in> set (left lr)
      then (Some (first_line (left lr)), lr\<lparr>lrOff := lrOff lr + length (first_line (left lr)) + 1\<rparr>)
      else (if left lr = [] then None else Some (left lr), lr\<lparr>lrOff := lrOff lr + length (left lr)\<rparr>))"
  unfolding readLine_def read_loop_line left_def Let_def by simp

lemma readLine_advances: "readLine lr = (Some line, lr') \<Longrightarrow> lrOff lr < lrOff lr' \<and> lrEnd lr' = lrEnd lr \<and> lrData lr' = lrData lr"
  by (auto simp: readLine_first split: if_splits)

section \<open>The next pair\<close>

text \<open>Empty lines and lines that are no pair are skipped; the result has the offset of the line.\<close>

function next_pair :: "lineReader \<Rightarrow> (nat \<times> KeyValue) option \<times> lineReader" where
  "next_pair lr =
     (if lrOff lr < lrEnd lr then
        case readLine lr of
          (None, lr') \<Rightarrow> (None, lr')
        | (Some line, lr') \<Rightarrow>
            if line = [] then next_pair lr'
            else case parseKV line of
                   Some kv \<Rightarrow> (Some (lrOff lr, kv), lr')
                 | None \<Rightarrow> next_pair lr'
      else (None, lr))"
  by pat_completeness auto
termination
  by (relation "measure (\<lambda>lr. lrEnd lr - lrOff lr)") (auto dest!: sym [THEN readLine_advances])

declare next_pair.simps [simp del]

text \<open>A reader that stands before a list of clean pairs.\<close>

definition before :: "lineReader \<Rightarrow> KeyValue list \<Rightarrow> bool" where
  "before lr kvs \<longleftrightarrow> left lr = concat (map print_kv kvs) \<and> (\<forall>kv \<in> set kvs. clean kv)"

lemma print_kv_line:
  assumes "clean kv"
  shows "first_line (print_kv kv @ s) = kvKey kv @ space # kvVal kv" "newline \<in> set (print_kv kv @ s)"
    "length (print_kv kv) = length (kvKey kv @ space # kvVal kv) + 1"
proof -
  have "newline \<notin> set (kvKey kv @ space # kvVal kv)"
    using assms by (auto simp: clean_def newline_def space_def)
  from takeWhile_all [OF this, of "newline # s"]
  show "first_line (print_kv kv @ s) = kvKey kv @ space # kvVal kv"
    by (simp add: first_line_def print_kv_def print_line_def)
qed (simp_all add: print_kv_def print_line_def)

lemma left_drop: "n \<le> length (left lr) \<Longrightarrow> left (lr\<lparr>lrOff := lrOff lr + n\<rparr>) = drop n (left lr)"
  by (simp add: left_def drop_take add.commute)

lemma next_pair_before:
  assumes "before lr (kv # kvs)"
  shows "next_pair lr = (Some (lrOff lr, kv), lr\<lparr>lrOff := lrOff lr + length (print_kv kv)\<rparr>)"
    "before (lr\<lparr>lrOff := lrOff lr + length (print_kv kv)\<rparr>) kvs" "lrOff lr < lrEnd lr"
proof -
  have l: "left lr = print_kv kv @ concat (map print_kv kvs)" and c: "clean kv" "\<forall>kv \<in> set kvs. clean kv"
    using assms by (auto simp: before_def)
  note p = print_kv_line(1,2) [OF c(1), of "concat (map print_kv kvs)", folded l] print_kv_line(3) [OF c(1)]
  have "left lr \<noteq> []" using p(2) by auto
  then show lt: "lrOff lr < lrEnd lr" by (auto simp: left_def)
  have "readLine lr = (Some (kvKey kv @ space # kvVal kv), lr\<lparr>lrOff := lrOff lr + length (print_kv kv)\<rparr>)"
    using p by (simp add: readLine_first)
  moreover have "parseKV (kvKey kv @ space # kvVal kv) = Some kv"
    using c(1) by (simp add: parse_last clean_def)
  ultimately show "next_pair lr = (Some (lrOff lr, kv), lr\<lparr>lrOff := lrOff lr + length (print_kv kv)\<rparr>)"
    using lt by (subst next_pair.simps) simp
  show "before (lr\<lparr>lrOff := lrOff lr + length (print_kv kv)\<rparr>) kvs"
    using l c(2) by (simp add: before_def left_drop)
qed

lemma next_pair_end:
  assumes "before lr []"
  shows "fst (next_pair lr) = None"
  using assms by (subst next_pair.simps) (simp add: before_def readLine_first)

end
