(* ===== verification/MR_Map.thy ===== *)
theory MR_Map
  imports MR_Files
begin

text \<open>
  The map task of the worker (doMap of src/src/mr/worker.go): the pairs of one input file, split by
  the hash of the key into one file per reduce task, each file a sequence of batches that are sorted
  in themselves. A directory is a partial function from names to contents.
\<close>

section \<open>Names and partitions\<close>

type_synonym fs = "string \<Rightarrow> string option"

text \<open>How \<open>%d\<close> prints a number that is not negative.\<close>

fun decimal :: "nat \<Rightarrow> string" where
  "decimal n = (if n < 10 then [char_of (48 + n)] else decimal (n div 10) @ [char_of (48 + n mod 10)])"

declare decimal.simps [simp del]

definition ihash :: "string \<Rightarrow> nat" where
  "ihash key = unat (and (fnv32a key) 0x7fffffff)"

definition map_name :: "nat \<Rightarrow> nat \<Rightarrow> string" where
  "map_name rid randID = ''map-'' @ decimal rid @ ''-'' @ decimal randID @ ''.txt''"

definition mapBufferSize :: nat where
  "mapBufferSize = 1024"

lemma decimal_not_nil: "decimal n \<noteq> []"
  by (subst decimal.simps) simp

lemma digit_no_dash: "(d::nat) < 10 \<Longrightarrow> CHR ''-'' \<noteq> char_of (48 + d)"
proof
  assume d: "d < 10" "CHR ''-'' = (char_of (48 + d) :: char)"
  then have "(of_char (CHR ''-'') :: nat) = of_char (char_of (48 + d) :: char)" by simp
  then show False using d(1) by (simp add: of_char_of)
qed

lemma decimal_no_dash: "CHR ''-'' \<notin> set (decimal n)"
proof (induction n rule: decimal.induct)
  case (1 n)
  then show ?case
    using digit_no_dash [of n] digit_no_dash [of "n mod 10"]
    by (subst decimal.simps) simp
qed

text \<open>Reading the digits back.\<close>

definition digits_val :: "string \<Rightarrow> nat" where
  "digits_val s = foldl (\<lambda>a c. a * 10 + (of_char c - 48)) 0 s"

lemma digits_val_decimal: "digits_val (decimal n) = n"
proof (induction n rule: decimal.induct)
  case (1 n)
  show ?case
  proof (cases "n < 10")
    case True
    then show ?thesis by (subst decimal.simps) (simp add: digits_val_def)
  next
    case False
    then have "digits_val (decimal (n div 10)) = n div 10" using 1 by simp
    moreover have "(48 + n mod 10) mod 256 = 48 + n mod 10" by (rule mod_less) (simp add: mod_less_divisor less_trans)
    ultimately show ?thesis using False by (subst decimal.simps) (simp add: digits_val_def)
  qed
qed

lemma decimal_inj: "decimal m = decimal n \<longleftrightarrow> m = n"
  by (metis digits_val_decimal)

lemma split_at_dash: "\<lbrakk>a @ CHR ''-'' # b = c @ CHR ''-'' # d; CHR ''-'' \<notin> set a; CHR ''-'' \<notin> set c\<rbrakk> \<Longrightarrow> a = c \<and> b = d"
  by (induction a arbitrary: c) (auto simp: Cons_eq_append_conv)

lemma map_name_inj: "map_name r x = map_name r' x' \<longleftrightarrow> r = r' \<and> x = x'"
proof
  assume "map_name r x = map_name r' x'"
  then have "decimal r @ CHR ''-'' # (decimal x @ ''.txt'') = decimal r' @ CHR ''-'' # (decimal x' @ ''.txt'')"
    by (simp add: map_name_def)
  from split_at_dash [OF this decimal_no_dash decimal_no_dash]
  show "r = r' \<and> x = x'" by (simp add: decimal_inj)
qed simp

section \<open>The task\<close>

text \<open>The closure variables of doMap: the buffer and its size, and what each writer was given.\<close>

record mapState =
  msPart :: "KeyValue list list"
  msSize :: "nat list"
  msOut :: "string list"

text \<open>\<open>srt\<close> is \<open>sort.Sort(ByKey(ks))\<close>, which leaves the order of equal keys open.\<close>

definition sorts :: "(KeyValue list \<Rightarrow> KeyValue list) \<Rightarrow> bool" where
  "sorts srt \<longleftrightarrow> (\<forall>ks. mset (srt ks) = mset ks \<and> sorted (map kvKey (srt ks)))"

definition flush_part :: "(KeyValue list \<Rightarrow> KeyValue list) \<Rightarrow> nat \<Rightarrow> mapState \<Rightarrow> mapState" where
  "flush_part srt rid ms =
     (let ks = msPart ms ! rid in
      if ks = [] then ms
      else ms\<lparr>msPart := (msPart ms)[rid := []], msSize := (msSize ms)[rid := 0],
              msOut := (msOut ms)[rid := msOut ms ! rid @ concat (map print_kv (srt ks))]\<rparr>)"

definition pair_size :: "KeyValue \<Rightarrow> nat" where
  "pair_size kv = length (kvKey kv) + length (kvVal kv) + 2"

definition add_pair :: "(KeyValue list \<Rightarrow> KeyValue list) \<Rightarrow> nat \<Rightarrow> KeyValue \<Rightarrow> mapState \<Rightarrow> mapState" where
  "add_pair srt nReduce kv ms =
     (let rid = ihash (kvKey kv) mod nReduce;
          ms1 = ms\<lparr>msPart := (msPart ms)[rid := msPart ms ! rid @ [kv]],
                   msSize := (msSize ms)[rid := msSize ms ! rid + pair_size kv]\<rparr> in
      if mapBufferSize \<le> msSize ms1 ! rid then flush_part srt rid ms1 else ms1)"

definition map_start :: "nat \<Rightarrow> mapState" where
  "map_start nReduce =
     \<lparr>msPart = replicate nReduce [], msSize = replicate nReduce 0, msOut = replicate nReduce []\<rparr>"

text \<open>Creating the files; \<open>can p\<close> says whether the system lets the worker create \<open>p\<close>.\<close>

fun create_files :: "(string \<Rightarrow> bool) \<Rightarrow> string list \<Rightarrow> fs \<Rightarrow> fs \<times> bool" where
  "create_files can [] d = (d, True)"
| "create_files can (p # ps) d = (if can p then create_files can ps (d(p \<mapsto> [])) else (d, False))"

text \<open>The last loop: the rest of the buffer is flushed and the writer empties itself into its file.\<close>

fun close_files :: "(KeyValue list \<Rightarrow> KeyValue list) \<Rightarrow> string list \<Rightarrow> nat list \<Rightarrow> mapState \<Rightarrow> fs \<Rightarrow> fs" where
  "close_files srt path [] ms d = d"
| "close_files srt path (rid # rids) ms d =
     (let ms1 = flush_part srt rid ms in close_files srt path rids ms1 (d(path ! rid \<mapsto> msOut ms1 ! rid)))"

text \<open>
  The whole task. The outer option is a panic, which a division by zero reduce tasks is; the inner
  one is the result \<open>false\<close>.
\<close>

definition doMap :: "(KeyValue list \<Rightarrow> KeyValue list) \<Rightarrow> (string \<Rightarrow> bool) \<Rightarrow>
    (string \<Rightarrow> string \<Rightarrow> KeyValue list) \<Rightarrow> string \<Rightarrow> nat \<Rightarrow> nat \<Rightarrow> fs \<Rightarrow> (fs \<times> string list option) option" where
  "doMap srt can mapf mapFile nReduce randID d =
     (case d mapFile of
        None \<Rightarrow> Some (d, None)
      | Some content \<Rightarrow>
          let kva = mapf mapFile content;
              path = map (\<lambda>rid. map_name rid randID) [0..<nReduce];
              (d1, created) = create_files can path d in
          if \<not> created then Some (d1, None)
          else if nReduce = 0 \<and> kva \<noteq> [] then None
          else let ms = fold (add_pair srt nReduce) kva (map_start nReduce) in
               Some (close_files srt path [0..<nReduce] ms d1, Some path))"

section \<open>What is in the buffers and files\<close>

definition in_part :: "nat \<Rightarrow> nat \<Rightarrow> KeyValue \<Rightarrow> bool" where
  "in_part n rid kv \<longleftrightarrow> ihash (kvKey kv) mod n = rid"

text \<open>A file content made of whole sorted batches.\<close>

definition batches :: "(KeyValue list \<Rightarrow> KeyValue list) \<Rightarrow> KeyValue list list \<Rightarrow> string" where
  "batches srt bs = concat (map print_kv (concat (map srt bs)))"

definition buffered :: "(KeyValue list \<Rightarrow> KeyValue list) \<Rightarrow> nat \<Rightarrow> KeyValue list \<Rightarrow> mapState \<Rightarrow> bool" where
  "buffered srt n kvs ms \<longleftrightarrow>
     length (msPart ms) = n \<and> length (msSize ms) = n \<and> length (msOut ms) = n \<and>
     (\<forall>rid < n. (\<exists>bs. concat bs @ msPart ms ! rid = filter (in_part n rid) kvs \<and> msOut ms ! rid = batches srt bs) \<and>
        msSize ms ! rid = sum_list (map pair_size (msPart ms ! rid)))"

lemma buffered_start: "buffered srt n [] (map_start n)"
  unfolding buffered_def map_start_def by (auto intro!: exI [of _ "[]"] simp: batches_def)

lemma buffered_flush:
  assumes "buffered srt n kvs ms"
  shows "buffered srt n kvs (flush_part srt rid ms)"
    "rid < n \<Longrightarrow> msPart (flush_part srt rid ms) ! rid = []"
    "r \<noteq> rid \<Longrightarrow> msPart (flush_part srt rid ms) ! r = msPart ms ! r \<and> msSize (flush_part srt rid ms) ! r = msSize ms ! r \<and>
       msOut (flush_part srt rid ms) ! r = msOut ms ! r"
proof -
  let ?ms = "flush_part srt rid ms" and ?ks = "msPart ms ! rid"
  note l = assms [unfolded buffered_def]
  show "rid < n \<Longrightarrow> msPart ?ms ! rid = []" using l by (auto simp: flush_part_def Let_def)
  show other: "msPart ?ms ! r = msPart ms ! r \<and> msSize ?ms ! r = msSize ms ! r \<and> msOut ?ms ! r = msOut ms ! r" if "r \<noteq> rid" for r
    using that by (simp add: flush_part_def Let_def)
  show "buffered srt n kvs ?ms"
  proof (cases "?ks = [] \<or> n \<le> rid")
    case True
    then have "?ms = ms" using l by (cases ms) (auto simp: flush_part_def Let_def list_update_beyond)
    then show ?thesis using assms by simp
  next
    case False
    then obtain bs where bs: "concat bs @ ?ks = filter (in_part n rid) kvs" "msOut ms ! rid = batches srt bs" using l by (meson linorder_not_le)
    have "concat (bs @ [?ks]) @ msPart ?ms ! rid = filter (in_part n rid) kvs" "msOut ?ms ! rid = batches srt (bs @ [?ks])"
      "msSize ?ms ! rid = sum_list (map pair_size (msPart ?ms ! rid))"
      using bs False l by (auto simp: flush_part_def Let_def batches_def)
    note here = this
    have one: "(\<exists>bs. concat bs @ msPart ?ms ! r = filter (in_part n r) kvs \<and> msOut ?ms ! r = batches srt bs) \<and>
        msSize ?ms ! r = sum_list (map pair_size (msPart ?ms ! r))" if "r < n" for r
    proof (cases "r = rid")
      case True
      then show ?thesis using here by blast
    next
      case False
      then show ?thesis using that l other [of r] by simp
    qed
    have "length (msPart ?ms) = n \<and> length (msSize ?ms) = n \<and> length (msOut ?ms) = n"
      using l by (simp add: flush_part_def Let_def)
    then show ?thesis using one unfolding buffered_def by blast
  qed
qed

text \<open>A buffer is flushed before it reaches its limit.\<close>

definition bounded :: "nat \<Rightarrow> mapState \<Rightarrow> bool" where
  "bounded n ms \<longleftrightarrow> (\<forall>rid < n. msSize ms ! rid < mapBufferSize)"

lemma flush_part_bounded:
  assumes "\<forall>r < n. r \<noteq> rid \<longrightarrow> msSize ms ! r < mapBufferSize" "buffered srt n kvs ms"
  shows "bounded n (flush_part srt rid ms)"
  unfolding bounded_def
proof (intro allI impI)
  fix r assume "r < n"
  then show "msSize (flush_part srt rid ms) ! r < mapBufferSize"
    using assms buffered_flush [OF assms(2), where rid = rid]
    by (cases "r = rid") (auto simp: buffered_def mapBufferSize_def)
qed

lemma add_pair_buffered:
  assumes "buffered srt n kvs ms" "bounded n ms" "0 < n"
  shows "buffered srt n (kvs @ [kv]) (add_pair srt n kv ms) \<and> bounded n (add_pair srt n kv ms)"
proof -
  define rid where "rid = ihash (kvKey kv) mod n"
  define ms1 where "ms1 = ms\<lparr>msPart := (msPart ms)[rid := msPart ms ! rid @ [kv]],
                   msSize := (msSize ms)[rid := msSize ms ! rid + pair_size kv]\<rparr>"
  have rid: "rid < n" using assms(3) by (simp add: rid_def)
  note l = assms(1) [unfolded buffered_def]
  have one: "(\<exists>bs. concat bs @ msPart ms1 ! r = filter (in_part n r) (kvs @ [kv]) \<and> msOut ms1 ! r = batches srt bs) \<and>
        msSize ms1 ! r = sum_list (map pair_size (msPart ms1 ! r))" if r: "r < n" for r
  proof -
    obtain bs where "concat bs @ msPart ms ! r = filter (in_part n r) kvs" "msOut ms ! r = batches srt bs"
      and "msSize ms ! r = sum_list (map pair_size (msPart ms ! r))" using l r by blast
    then show ?thesis using l r rid
      by (cases "r = rid") (auto simp: ms1_def in_part_def rid_def [symmetric] simp flip: append_assoc)
  qed
  have b1: "buffered srt n (kvs @ [kv]) ms1" using one l unfolding buffered_def by (simp add: ms1_def)
  have others: "\<forall>r < n. r \<noteq> rid \<longrightarrow> msSize ms1 ! r < mapBufferSize"
    using assms(2) by (simp add: bounded_def ms1_def)
  have e: "add_pair srt n kv ms = (if mapBufferSize \<le> msSize ms1 ! rid then flush_part srt rid ms1 else ms1)"
    by (simp add: add_pair_def Let_def ms1_def rid_def)
  show ?thesis
  proof (cases "mapBufferSize \<le> msSize ms1 ! rid")
    case True
    then show ?thesis using e buffered_flush(1) [OF b1] flush_part_bounded [OF others b1] by simp
  next
    case False
    then show ?thesis using e b1 others by (auto simp: bounded_def)
  qed
qed

lemma add_pairs_buffered:
  assumes "0 < n"
  shows "buffered srt n kvs (fold (add_pair srt n) kvs (map_start n)) \<and> bounded n (fold (add_pair srt n) kvs (map_start n))"
proof (induction kvs rule: rev_induct)
  case Nil
  show ?case using buffered_start [of srt n] by (simp add: bounded_def map_start_def mapBufferSize_def)
next
  case (snoc kv kvs)
  then show ?case using add_pair_buffered [of srt n kvs _ kv] assms by simp
qed
section \<open>What the task leaves behind\<close>

lemma create_files_all:
  "\<forall>p \<in> set ps. can p \<Longrightarrow>
     snd (create_files can ps d) \<and> (\<forall>f. f \<notin> set ps \<longrightarrow> fst (create_files can ps d) f = d f)"
proof (induction ps arbitrary: d)
  case (Cons p ps)
  then show ?case using Cons.IH [of "d(p \<mapsto> [])"] by simp
qed simp

lemma create_files_can: "snd (create_files can ps d) \<Longrightarrow> \<forall>p \<in> set ps. can p"
  by (induction ps arbitrary: d) (auto split: if_splits)

lemma close_files_out:
  assumes "buffered srt n kvs ms" "\<forall>rid \<in> set rids. rid < n" "distinct rids" "inj_on (\<lambda>rid. path ! rid) (set rids)"
  shows "(\<forall>rid \<in> set rids. \<exists>bs. close_files srt path rids ms d (path ! rid) = Some (batches srt bs) \<and>
            concat bs = filter (in_part n rid) kvs) \<and>
    (\<forall>f. f \<notin> (\<lambda>rid. path ! rid) ` set rids \<longrightarrow> close_files srt path rids ms d f = d f)"
  using assms
proof (induction rids arbitrary: ms d)
  case (Cons rid rids)
  let ?ms = "flush_part srt rid ms"
  let ?d = "d(path ! rid \<mapsto> msOut ?ms ! rid)"
  have b: "buffered srt n kvs ?ms" and r: "rid < n" and e: "msPart ?ms ! rid = []"
    using buffered_flush [OF Cons.prems(1)] Cons.prems(2) by auto
  obtain bs where bs: "concat bs @ msPart ?ms ! rid = filter (in_part n rid) kvs" "msOut ?ms ! rid = batches srt bs"
    using b r unfolding buffered_def by blast
  have ih: "(\<forall>rid \<in> set rids. \<exists>bs. close_files srt path rids ?ms ?d (path ! rid) = Some (batches srt bs) \<and>
            concat bs = filter (in_part n rid) kvs) \<and>
    (\<forall>f. f \<notin> (\<lambda>rid. path ! rid) ` set rids \<longrightarrow> close_files srt path rids ?ms ?d f = ?d f)"
    using Cons.prems by (intro Cons.IH [OF b]) auto
  have fresh: "path ! rid \<notin> (\<lambda>rid. path ! rid) ` set rids"
    using Cons.prems(3,4) by (auto simp: inj_on_def)
  have step: "close_files srt path (rid # rids) ms d = close_files srt path rids ?ms ?d" by (simp add: Let_def)
  have "close_files srt path rids ?ms ?d (path ! rid) = Some (batches srt bs)"
    using ih fresh bs(2) by simp
  moreover have "concat bs = filter (in_part n rid) kvs" using bs(1) e by simp
  ultimately show ?case using ih unfolding step by auto
qed simp

text \<open>A file that holds the pairs \<open>kvs\<close> in some order, as a row of sorted batches.\<close>

definition sorted_batches :: "KeyValue list list \<Rightarrow> bool" where
  "sorted_batches rs \<longleftrightarrow> (\<forall>r \<in> set rs. sorted (map kvKey r))"

definition holds_pairs :: "string \<Rightarrow> KeyValue list \<Rightarrow> bool" where
  "holds_pairs content kvs \<longleftrightarrow>
     (\<exists>rs. content = concat (map print_kv (concat rs)) \<and> sorted_batches rs \<and> mset (concat rs) = mset kvs)"

lemma batches_hold:
  assumes "sorts srt"
  shows "holds_pairs (batches srt bs) (concat bs)"
proof -
  have "mset (concat (map srt bs)) = mset (concat bs)" using assms by (induction bs) (auto simp: sorts_def)
  moreover have "sorted_batches (map srt bs)" using assms by (auto simp: sorted_batches_def sorts_def)
  ultimately show ?thesis unfolding holds_pairs_def batches_def by blast
qed

abbreviation map_path :: "nat \<Rightarrow> nat \<Rightarrow> string list" where
  "map_path n x \<equiv> map (\<lambda>rid. map_name rid x) [0..<n]"

lemma doMap_writes:
  assumes srt: "sorts srt" and can: "\<forall>rid < n. can (map_name rid x)" and n: "0 < n" and input: "d f = Some content"
  shows "\<exists>d'. doMap srt can mapf f n x d = Some (d', Some (map_path n x)) \<and>
    (\<forall>rid < n. \<exists>out. d' (map_name rid x) = Some out \<and> holds_pairs out (filter (in_part n rid) (mapf f content))) \<and>
    (\<forall>g. g \<notin> set (map_path n x) \<longrightarrow> d' g = d g)"
proof -
  let ?kvs = "mapf f content" and ?path = "map_path n x"
  obtain d1 where d1: "create_files can ?path d = (d1, True)" "\<forall>g. g \<notin> set ?path \<longrightarrow> d1 g = d g"
    using create_files_all [of ?path can d] can by (cases "create_files can ?path d") auto
  let ?ms = "fold (add_pair srt n) ?kvs (map_start n)"
  let ?d' = "close_files srt ?path [0..<n] ?ms d1"
  have "doMap srt can mapf f n x d = Some (?d', Some ?path)"
    unfolding doMap_def input using d1(1) n by (simp add: Let_def)
  moreover have inj: "inj_on (\<lambda>rid. ?path ! rid) (set [0..<n])" by (auto simp: inj_on_def map_name_inj)
  have idx: "(\<lambda>rid. ?path ! rid) ` set [0..<n] = set ?path" by (force simp: image_iff)
  note out = close_files_out [OF conjunct1 [OF add_pairs_buffered [OF n, of srt ?kvs]] _ distinct_upt inj, of d1, unfolded idx]
  have "\<exists>out. ?d' (map_name rid x) = Some out \<and> holds_pairs out (filter (in_part n rid) ?kvs)" if "rid < n" for rid
  proof -
    have "rid \<in> set [0..<n]" "?path ! rid = map_name rid x" using that by simp_all
    then obtain bs where "?d' (map_name rid x) = Some (batches srt bs)" "concat bs = filter (in_part n rid) ?kvs"
      using out by (metis atLeastLessThan_iff set_upt)
    then show ?thesis using batches_hold [OF srt, of bs] by simp
  qed
  moreover have "\<forall>g. g \<notin> set ?path \<longrightarrow> ?d' g = d g" using out d1(2) by auto
  ultimately show ?thesis by blast
qed

text \<open>Whatever happens, only the files of this run are touched.\<close>

lemma create_files_only: "f \<notin> set ps \<Longrightarrow> fst (create_files can ps d) f = d f"
  by (induction ps arbitrary: d) auto

lemma close_files_only: "f \<notin> (\<lambda>rid. path ! rid) ` set rids \<Longrightarrow> close_files srt path rids ms d f = d f"
  by (induction rids arbitrary: ms d) (auto simp: Let_def)

lemma doMap_only:
  assumes "doMap srt can mapf f n x d = Some (d', r)" "g \<notin> set (map_path n x)"
  shows "d' g = d g"
proof -
  have idx: "(\<lambda>rid. map_path n x ! rid) ` set [0..<n] = set (map_path n x)" by (force simp: image_iff)
  show ?thesis
    using assms create_files_only [OF assms(2), of can d]
      close_files_only [of g "map_path n x" "[0..<n]", unfolded idx, OF assms(2)]
    by (auto simp: doMap_def Let_def split: option.splits if_splits prod.splits)
qed

lemma doMap_result: "doMap srt can mapf f n x d = Some (d', Some path) \<Longrightarrow> path = map_path n x"
  by (auto simp: doMap_def Let_def split: option.splits if_splits prod.splits)

end
