(* ===== verification/MR_Groups.thy ===== *)
theory MR_Groups
  imports MR_Map
begin

text \<open>
  Grouping sorted pairs by key, twice: as the reduce task does it while it merges (the loop of
  doReduce, src/src/mr/worker.go) and as the sequential program does it over one sorted slice
  (src/src/main/mrsequential.go). Both print \<open>outputs\<close>: one line for every key, in the order of the
  keys.
\<close>

type_synonym reducer = "string \<Rightarrow> string list \<Rightarrow> string"

section \<open>The reference\<close>

definition keys_of :: "KeyValue list \<Rightarrow> string list" where
  "keys_of kvs = sorted_list_of_set (set (map kvKey kvs))"

definition values_of :: "string \<Rightarrow> KeyValue list \<Rightarrow> string list" where
  "values_of k kvs = map kvVal (filter (\<lambda>kv. kvKey kv = k) kvs)"

definition out_line :: "reducer \<Rightarrow> KeyValue list \<Rightarrow> string \<Rightarrow> string" where
  "out_line reducef kvs k = print_line k (reducef k (values_of k kvs))"

definition outputs :: "reducer \<Rightarrow> KeyValue list \<Rightarrow> string" where
  "outputs reducef kvs = concat (map (out_line reducef kvs) (keys_of kvs))"

text \<open>A Reduce function that does not look at the order of the values.\<close>

definition order_blind :: "reducer \<Rightarrow> bool" where
  "order_blind reducef \<longleftrightarrow> (\<forall>k vs vs'. mset vs = mset vs' \<longrightarrow> reducef k vs = reducef k vs')"

lemma keys_of_mset: "mset kvs = mset kvs' \<Longrightarrow> keys_of kvs = keys_of kvs'"
  unfolding keys_of_def by (metis mset_map set_mset_mset)

lemma outputs_mset:
  assumes "order_blind reducef" "mset kvs = mset kvs'"
  shows "outputs reducef kvs = outputs reducef kvs'"
proof -
  have "mset (values_of k kvs) = mset (values_of k kvs')" for k
    using assms(2) unfolding values_of_def by (metis mset_filter mset_map)
  then have "out_line reducef kvs = out_line reducef kvs'"
    using assms(1) unfolding out_line_def order_blind_def fun_eq_iff by metis
  then show ?thesis using keys_of_mset [OF assms(2)] by (simp add: outputs_def)
qed

lemma outputs_part:
  "keys_of (filter (\<lambda>kv. P (kvKey kv)) kvs) = filter P (keys_of kvs)"
  "P k \<Longrightarrow> out_line reducef (filter (\<lambda>kv. P (kvKey kv)) kvs) k = out_line reducef kvs k"
proof -
  have "set (map kvKey (filter (\<lambda>kv. P (kvKey kv)) kvs)) = set (filter P (keys_of kvs))"
    by (auto simp: keys_of_def)
  moreover have "sorted (filter P (keys_of kvs))" "distinct (filter P (keys_of kvs))"
    by (simp_all add: keys_of_def sorted_wrt_filter)
  ultimately show "keys_of (filter (\<lambda>kv. P (kvKey kv)) kvs) = filter P (keys_of kvs)"
    unfolding keys_of_def [of "filter _ _"] by (metis sorted_list_of_set.idem_if_sorted_distinct)
  assume "P k"
  then have "values_of k (filter (\<lambda>kv. P (kvKey kv)) kvs) = values_of k kvs"
    unfolding values_of_def filter_filter by (metis (mono_tags, lifting))
  then show "out_line reducef (filter (\<lambda>kv. P (kvKey kv)) kvs) k = out_line reducef kvs k"
    by (simp add: out_line_def)
qed

lemma keys_of_least:
  assumes "sorted (k # map kvKey kvs)"
  shows "sorted_list_of_set (insert k (set (map kvKey kvs))) = k # keys_of (filter (\<lambda>kv. kvKey kv \<noteq> k) kvs)"
proof -
  have "insert k (set (map kvKey kvs)) = set (k # keys_of (filter (\<lambda>kv. kvKey kv \<noteq> k) kvs))"
    by (auto simp: keys_of_def)
  moreover have "sorted (k # keys_of (filter (\<lambda>kv. kvKey kv \<noteq> k) kvs))" "distinct (k # keys_of (filter (\<lambda>kv. kvKey kv \<noteq> k) kvs))"
    using assms by (auto simp: keys_of_def)
  ultimately show ?thesis by (metis sorted_list_of_set.idem_if_sorted_distinct)
qed

lemma out_line_other: "k' \<noteq> k \<Longrightarrow> out_line reducef (filter (\<lambda>kv. kvKey kv \<noteq> k) kvs) k' = out_line reducef kvs k'"
  using outputs_part(2) [of "\<lambda>x. x \<noteq> k" k' reducef kvs] by simp

lemma outputs_least:
  assumes "sorted (map kvKey (kv # kvs))"
  shows "outputs reducef (kv # kvs) =
    print_line (kvKey kv) (reducef (kvKey kv) (kvVal kv # values_of (kvKey kv) kvs)) @
    outputs reducef (filter (\<lambda>x. kvKey x \<noteq> kvKey kv) kvs)"
proof -
  let ?k = "kvKey kv" let ?rest = "filter (\<lambda>x. kvKey x \<noteq> ?k) kvs"
  have "keys_of (kv # kvs) = ?k # keys_of ?rest"
    using keys_of_least [of ?k kvs] assms by (simp add: keys_of_def)
  moreover have "map (out_line reducef (kv # kvs)) (keys_of ?rest) = map (out_line reducef ?rest) (keys_of ?rest)"
  proof (rule map_cong [OF refl])
    fix k assume "k \<in> set (keys_of ?rest)"
    then have "k \<noteq> ?k" by (auto simp: keys_of_def)
    then show "out_line reducef (kv # kvs) k = out_line reducef ?rest k"
      unfolding out_line_other [OF \<open>k \<noteq> ?k\<close>] by (simp add: out_line_def values_of_def)
  qed
  moreover have "out_line reducef (kv # kvs) ?k = print_line ?k (reducef ?k (kvVal kv # values_of ?k kvs))"
    by (simp add: out_line_def values_of_def)
  ultimately show ?thesis by (simp add: outputs_def del: map_eq_conv)
qed

section \<open>Grouping while the pairs arrive\<close>

text \<open>
  The body of the merge loop over the pairs it pops: \<open>emit\<close> when the key changes, and once more at
  the end.
\<close>

definition emit :: "reducer \<Rightarrow> string \<Rightarrow> string list \<Rightarrow> string" where
  "emit reducef lastKey values = print_line lastKey (reducef lastKey values)"

fun group_out :: "reducer \<Rightarrow> string \<Rightarrow> string list \<Rightarrow> bool \<Rightarrow> KeyValue list \<Rightarrow> string" where
  "group_out reducef lastKey values started [] = (if started then emit reducef lastKey values else [])"
| "group_out reducef lastKey values started (kv # kvs) =
     (if \<not> started \<or> kvKey kv \<noteq> lastKey
      then (if started then emit reducef lastKey values else []) @ group_out reducef (kvKey kv) [kvVal kv] True kvs
      else group_out reducef lastKey (values @ [kvVal kv]) started kvs)"

lemma group_out_started:
  "sorted (k # map kvKey kvs) \<Longrightarrow>
     group_out reducef k vs True kvs =
     print_line k (reducef k (vs @ values_of k kvs)) @ outputs reducef (filter (\<lambda>x. kvKey x \<noteq> k) kvs)"
proof (induction kvs arbitrary: k vs)
  case Nil
  show ?case by (simp add: emit_def values_of_def outputs_def keys_of_def)
next
  case (Cons kv kvs)
  show ?case
  proof (cases "kvKey kv = k")
    case True
    then have "sorted (k # map kvKey kvs)" using Cons.prems by simp
    then show ?thesis using Cons.IH [of k "vs @ [kvVal kv]"] True by (simp add: values_of_def)
  next
    case False
    have s: "sorted (map kvKey (kv # kvs))" and le: "\<forall>x \<in> set kvs. kvKey kv \<le> kvKey x" "k \<le> kvKey kv" using Cons.prems by auto
    then have "\<forall>x \<in> set kvs. kvKey x \<noteq> k" using False by (metis order.antisym)
    then have f: "filter (\<lambda>x. kvKey x \<noteq> k) (kv # kvs) = kv # kvs" "values_of k (kv # kvs) = []"
      using False by (auto simp: values_of_def filter_id_conv filter_empty_conv)
    have "group_out reducef k vs True (kv # kvs) = emit reducef k vs @ group_out reducef (kvKey kv) [kvVal kv] True kvs"
      using False by simp
    also have "\<dots> = print_line k (reducef k vs) @ outputs reducef (kv # kvs)"
      using Cons.IH [of "kvKey kv" "[kvVal kv]"] s outputs_least [OF s, of reducef] by (simp add: emit_def)
    finally show ?thesis using f by simp
  qed
qed

lemma group_out_outputs:
  assumes "sorted (map kvKey kvs)"
  shows "group_out reducef k vs False kvs = outputs reducef kvs"
proof (cases kvs)
  case Nil
  then show ?thesis by (simp add: outputs_def keys_of_def)
next
  case (Cons kv rest)
  then show ?thesis
    using group_out_started [of "kvKey kv" rest reducef "[kvVal kv]"] outputs_least [of kv rest reducef] assms by simp
qed

section \<open>Grouping a sorted slice\<close>

function seq_end :: "KeyValue list \<Rightarrow> nat \<Rightarrow> nat \<Rightarrow> nat" where
  "seq_end kvs i j = (if j < length kvs \<and> kvKey (kvs ! j) = kvKey (kvs ! i) then seq_end kvs i (j + 1) else j)"
  by pat_completeness auto
termination by (relation "measure (\<lambda>(kvs, i, j). length kvs - j)") auto

declare seq_end.simps [simp del]

lemma seq_end_ge: "j \<le> seq_end kvs i j"
proof (induction kvs i j rule: seq_end.induct)
  case (1 kvs i j)
  then show ?case by (subst seq_end.simps) auto
qed

function seq_groups :: "reducer \<Rightarrow> KeyValue list \<Rightarrow> nat \<Rightarrow> string \<Rightarrow> string" where
  "seq_groups reducef kvs i out =
     (if i < length kvs then
        let j = seq_end kvs i (i + 1);
            values = map (\<lambda>k. kvVal (kvs ! k)) [i..<j];
            output = reducef (kvKey (kvs ! i)) values in
        seq_groups reducef kvs j (out @ print_line (kvKey (kvs ! i)) output)
      else out)"
  by pat_completeness auto
termination
proof (relation "measure (\<lambda>(reducef, kvs, i, out). length kvs - i)", goal_cases)
  case (2 reducef kvs i out j vs l)
  then show ?case using seq_end_ge [of "i + 1" kvs i] by simp
qed simp

declare seq_groups.simps [simp del]

text \<open>\<open>mrsequential\<close>: read every input, one Map after the other, sort, group, print. A missing input is fatal.\<close>

fun seq_maps :: "(string \<Rightarrow> string \<Rightarrow> KeyValue list) \<Rightarrow> fs \<Rightarrow> string list \<Rightarrow> KeyValue list \<Rightarrow> KeyValue list option" where
  "seq_maps mapf d [] intermediate = Some intermediate"
| "seq_maps mapf d (f # fs) intermediate =
     (case d f of None \<Rightarrow> None | Some content \<Rightarrow> seq_maps mapf d fs (intermediate @ mapf f content))"

definition mrsequential :: "(KeyValue list \<Rightarrow> KeyValue list) \<Rightarrow> (string \<Rightarrow> string \<Rightarrow> KeyValue list) \<Rightarrow> reducer \<Rightarrow>
    string list \<Rightarrow> fs \<Rightarrow> fs option" where
  "mrsequential srt mapf reducef inputs d =
     (if inputs = [] then None
      else case seq_maps mapf d inputs [] of
             None \<Rightarrow> None
           | Some intermediate \<Rightarrow> Some (d(''mr-out-0'' \<mapsto> seq_groups reducef (srt intermediate) 0 [])))"

lemma seq_end_run:
  assumes "sorted (map kvKey kvs)" "i < j" "j \<le> length kvs" "\<forall>x. i \<le> x \<and> x < j \<longrightarrow> kvKey (kvs ! x) = kvKey (kvs ! i)"
  shows "seq_end kvs i j \<le> length kvs \<and> (\<forall>x. i \<le> x \<and> x < seq_end kvs i j \<longrightarrow> kvKey (kvs ! x) = kvKey (kvs ! i)) \<and>
    (\<forall>x. seq_end kvs i j \<le> x \<and> x < length kvs \<longrightarrow> kvKey (kvs ! x) \<noteq> kvKey (kvs ! i))"
  using assms
proof (induction kvs i j rule: seq_end.induct)
  case (1 kvs i j)
  show ?case
  proof (cases "j < length kvs \<and> kvKey (kvs ! j) = kvKey (kvs ! i)")
    case True
    have run: "\<forall>x. i \<le> x \<and> x < j + 1 \<longrightarrow> kvKey (kvs ! x) = kvKey (kvs ! i)"
    proof (intro allI impI)
      fix x assume "i \<le> x \<and> x < j + 1"
      then have "x = j \<or> i \<le> x \<and> x < j" by auto
      then show "kvKey (kvs ! x) = kvKey (kvs ! i)" using "1.prems"(4) True by blast
    qed
    have e: "seq_end kvs i j = seq_end kvs i (j + 1)" using True by (subst seq_end.simps) simp
    have "i < j + 1" "j + 1 \<le> length kvs" using "1.prems"(2) True by auto
    from "1.IH" [OF True "1.prems"(1) this run, folded e] show ?thesis .
  next
    case False
    have "kvKey (kvs ! x) \<noteq> kvKey (kvs ! i)" if x: "j \<le> x" "x < length kvs" for x
    proof -
      have "kvKey (kvs ! i) \<le> kvKey (kvs ! j)" "kvKey (kvs ! j) \<le> kvKey (kvs ! x)"
        using sorted_nth_mono [OF "1.prems"(1), of i j] sorted_nth_mono [OF "1.prems"(1), of j x] x "1.prems"(2) by auto
      moreover have "kvKey (kvs ! j) \<noteq> kvKey (kvs ! i)" using False x by auto
      ultimately show ?thesis by auto
    qed
    moreover have e: "seq_end kvs i j = j" using False by (subst seq_end.simps) auto
    ultimately show ?thesis unfolding e using "1.prems"(3,4) by blast
  qed
qed

lemma seq_groups_outputs:
  "\<lbrakk>sorted (map kvKey kvs); i \<le> length kvs\<rbrakk> \<Longrightarrow> seq_groups reducef kvs i out = out @ outputs reducef (drop i kvs)"
proof (induction reducef kvs i out rule: seq_groups.induct)
  case (1 reducef kvs i out)
  show ?case
  proof (cases "i < length kvs")
    case False
    then show ?thesis using "1.prems" by (subst seq_groups.simps) (simp add: outputs_def keys_of_def)
  next
    case lt: True
    define j where "j = seq_end kvs i (i + 1)"
    let ?k = "kvKey (kvs ! i)"
    have j: "j \<le> length kvs" "i < j" "\<forall>x. i \<le> x \<and> x < j \<longrightarrow> kvKey (kvs ! x) = ?k"
      "\<forall>x. j \<le> x \<and> x < length kvs \<longrightarrow> kvKey (kvs ! x) \<noteq> ?k"
    proof -
      have run: "\<forall>x. i \<le> x \<and> x < i + 1 \<longrightarrow> kvKey (kvs ! x) = ?k"
        by (metis Suc_eq_plus1 le_antisym less_Suc_eq_le)
      have "i < i + 1" "i + 1 \<le> length kvs" using lt by simp_all
      note run = seq_end_run [OF "1.prems"(1) this run, folded j_def]
      show "j \<le> length kvs" using run by blast
      show "\<forall>x. i \<le> x \<and> x < j \<longrightarrow> kvKey (kvs ! x) = ?k" using run by blast
      show "\<forall>x. j \<le> x \<and> x < length kvs \<longrightarrow> kvKey (kvs ! x) \<noteq> ?k" using run by blast
      show "i < j" using seq_end_ge [of "i + 1" kvs i] by (simp add: j_def)
    qed
    have d: "drop i kvs = take (j - i) (drop i kvs) @ drop j kvs"
      using j(2) append_take_drop_id [of "j - i" "drop i kvs"] by simp
    have same: "\<forall>x \<in> set (take (j - i) (drop i kvs)). kvKey x = ?k"
    proof
      fix x assume "x \<in> set (take (j - i) (drop i kvs))"
      then obtain m where "m < j - i" "x = kvs ! (i + m)" using j(1) by (auto simp: in_set_conv_nth)
      then show "kvKey x = ?k" using j(3) [rule_format, of "i + m"] by simp
    qed
    have other: "\<forall>x \<in> set (drop j kvs). kvKey x \<noteq> ?k"
      using j(4) by (auto simp: in_set_conv_nth)
    have vals: "map (\<lambda>k. kvVal (kvs ! k)) [i..<j] = map kvVal (take (j - i) (drop i kvs))"
      using j(1,2) by (intro nth_equalityI) auto
    have hd: "drop i kvs = kvs ! i # drop (Suc i) kvs" using lt by (simp add: Cons_nth_drop_Suc)
    have srt: "sorted (map kvKey (kvs ! i # drop (Suc i) kvs))"
      using "1.prems"(1) unfolding hd [symmetric] by (simp add: drop_map [symmetric] sorted_wrt_drop)
    have "filter (\<lambda>x. kvKey x \<noteq> ?k) (drop (Suc i) kvs) = filter (\<lambda>x. kvKey x \<noteq> ?k) (drop i kvs)" unfolding hd by simp
    also have "\<dots> = drop j kvs"
      by (subst d, subst filter_append) (use same other in \<open>simp add: filter_empty_conv filter_id_conv\<close>)
    finally have rest: "filter (\<lambda>x. kvKey x \<noteq> ?k) (drop (Suc i) kvs) = drop j kvs" .
    have "kvVal (kvs ! i) # values_of ?k (drop (Suc i) kvs) = values_of ?k (drop i kvs)" unfolding hd by (simp add: values_of_def)
    also have "\<dots> = map kvVal (take (j - i) (drop i kvs))"
      unfolding values_of_def
      by (subst d, subst filter_append) (use same other in \<open>simp add: filter_empty_conv filter_id_conv\<close>)
    finally have vs: "kvVal (kvs ! i) # values_of ?k (drop (Suc i) kvs) = map (\<lambda>k. kvVal (kvs ! k)) [i..<j]" using vals by simp
    have "outputs reducef (drop i kvs) =
        print_line ?k (reducef ?k (map (\<lambda>k. kvVal (kvs ! k)) [i..<j])) @ outputs reducef (drop j kvs)"
      unfolding hd outputs_least [OF srt] rest vs ..
    moreover have "seq_groups reducef kvs i out =
        seq_groups reducef kvs j (out @ print_line ?k (reducef ?k (map (\<lambda>k. kvVal (kvs ! k)) [i..<j])))"
      using lt by (subst seq_groups.simps) (simp add: Let_def j_def)
    ultimately show ?thesis using "1.IH" [OF lt j_def refl refl "1.prems"(1) j(1)] by simp
  qed
qed

lemma seq_maps_all:
  "\<forall>f \<in> set fs. d f \<noteq> None \<Longrightarrow> seq_maps mapf d fs acc = Some (acc @ concat (map (\<lambda>f. mapf f (the (d f))) fs))"
  by (induction fs arbitrary: acc) auto

lemma mrsequential_outputs:
  assumes "sorts srt" "inputs \<noteq> []" "\<forall>f \<in> set inputs. d f \<noteq> None"
  shows "mrsequential srt mapf reducef inputs d =
    Some (d(''mr-out-0'' \<mapsto> outputs reducef (srt (concat (map (\<lambda>f. mapf f (the (d f))) inputs)))))"
  using seq_groups_outputs [of "srt (concat (map (\<lambda>f. mapf f (the (d f))) inputs))" 0 reducef "[]"] assms
  by (simp add: mrsequential_def seq_maps_all sorts_def)

end
