(* ===== verification/MR_Heap.thy ===== *)
theory MR_Heap
  imports Prelude
begin

text \<open>
  The priority queue the reduce task merges with: Go's container/heap on a slice, as the worker
  drives it through Len, Less, Swap, Push and Pop of \<open>segHeap\<close> (src/src/mr/worker.go). What the
  merge relies on is the locale \<open>min_queue\<close>; the array heap is its interpretation.
\<close>

section \<open>The array heap\<close>

definition swap :: "'a list \<Rightarrow> nat \<Rightarrow> nat \<Rightarrow> 'a list" where
  "swap h i j = h[i := h ! j, j := h ! i]"

definition par :: "nat \<Rightarrow> nat" where
  "par j = (j - 1) div 2"

lemma par_less: "0 < k \<Longrightarrow> par k < k"
  by (simp add: par_def)

lemma par_le: "par k \<le> k"
  by (simp add: par_def)

lemma par_self: "par k = k \<longleftrightarrow> k = 0"
  by (auto simp: par_def)

lemma par_kids: "0 < k \<Longrightarrow> par k = i \<longleftrightarrow> k = 2 * i + 1 \<or> k = 2 * i + 2"
  by (auto simp: par_def)

function sift_up :: "('a \<Rightarrow> 'a \<Rightarrow> bool) \<Rightarrow> 'a list \<Rightarrow> nat \<Rightarrow> 'a list" where
  "sift_up lt h j =
     (let i = par j in
      if i = j \<or> \<not> lt (h ! j) (h ! i) then h else sift_up lt (swap h i j) i)"
  by pat_completeness auto
termination by (relation "measure (\<lambda>(lt, h, j). j)") (auto simp: par_self par_less)

function sift_down :: "('a \<Rightarrow> 'a \<Rightarrow> bool) \<Rightarrow> 'a list \<Rightarrow> nat \<Rightarrow> nat \<Rightarrow> 'a list" where
  "sift_down lt h i n =
     (let j1 = 2 * i + 1 in
      if n \<le> j1 then h
      else let j = (if j1 + 1 < n \<and> lt (h ! (j1 + 1)) (h ! j1) then j1 + 1 else j1) in
           if \<not> lt (h ! j) (h ! i) then h else sift_down lt (swap h i j) j n)"
  by pat_completeness auto
termination by (relation "measure (\<lambda>(lt, h, i, n). n - i)") auto

declare sift_up.simps [simp del] sift_down.simps [simp del]

definition heap_Push :: "('a \<Rightarrow> 'a \<Rightarrow> bool) \<Rightarrow> 'a \<Rightarrow> 'a list \<Rightarrow> 'a list" where
  "heap_Push lt x h = sift_up lt (h @ [x]) (length h)"

text \<open>Pop moves the root behind the heap and takes it off the end; an empty heap panics.\<close>

definition heap_Pop :: "('a \<Rightarrow> 'a \<Rightarrow> bool) \<Rightarrow> 'a list \<Rightarrow> ('a \<times> 'a list) option" where
  "heap_Pop lt h =
     (if h = [] then None
      else let n = length h - 1; h' = sift_down lt (swap h 0 n) 0 n in Some (h' ! n, take n h'))"

section \<open>The heap order\<close>

definition by_key :: "('a \<Rightarrow> 'k::linorder) \<Rightarrow> 'a \<Rightarrow> 'a \<Rightarrow> bool" where
  "by_key key x y \<longleftrightarrow> key x < key y"

definition heap_ordered :: "('a \<Rightarrow> 'k::linorder) \<Rightarrow> 'a list \<Rightarrow> nat \<Rightarrow> bool" where
  "heap_ordered key h n \<longleftrightarrow> (\<forall>k. 0 < k \<and> k < n \<longrightarrow> key (h ! par k) \<le> key (h ! k))"

text \<open>Ordered but for the edge above \<open>j\<close>, and but for the edges below \<open>i\<close>.\<close>

definition up_ordered :: "('a \<Rightarrow> 'k::linorder) \<Rightarrow> 'a list \<Rightarrow> nat \<Rightarrow> bool" where
  "up_ordered key h j \<longleftrightarrow>
     (\<forall>k. 0 < k \<and> k < length h \<and> k \<noteq> j \<longrightarrow> key (h ! par k) \<le> key (h ! k)) \<and>
     (\<forall>k. 0 < k \<and> k < length h \<and> 0 < j \<and> par k = j \<longrightarrow> key (h ! par j) \<le> key (h ! k))"

definition down_ordered :: "('a \<Rightarrow> 'k::linorder) \<Rightarrow> 'a list \<Rightarrow> nat \<Rightarrow> nat \<Rightarrow> bool" where
  "down_ordered key h n i \<longleftrightarrow>
     (\<forall>k. 0 < k \<and> k < n \<and> par k \<noteq> i \<longrightarrow> key (h ! par k) \<le> key (h ! k)) \<and>
     (\<forall>k. 0 < k \<and> k < n \<and> 0 < i \<and> par k = i \<longrightarrow> key (h ! par i) \<le> key (h ! k))"

lemma length_swap [simp]: "length (swap h i j) = length h"
  by (simp add: swap_def)

lemma nth_swap: "\<lbrakk>i < length h; j < length h\<rbrakk> \<Longrightarrow>
    swap h i j ! k = (if k = j then h ! i else if k = i then h ! j else h ! k)"
  by (simp add: swap_def nth_list_update)

lemma mset_swap: "\<lbrakk>i < length h; j < length h\<rbrakk> \<Longrightarrow> mset (swap h i j) = mset h"
  unfolding swap_def by (rule Multiset.mset_swap)

lemma heap_root: "\<lbrakk>heap_ordered key h n; k < n\<rbrakk> \<Longrightarrow> key (h ! 0) \<le> key (h ! k)"
proof (induction k rule: less_induct)
  case (less k)
  show ?case
  proof (cases "k = 0")
    case False
    then have "key (h ! 0) \<le> key (h ! par k)" using less par_less [of k] by simp
    also have "\<dots> \<le> key (h ! k)" using False less.prems by (simp add: heap_ordered_def)
    finally show ?thesis .
  qed simp
qed

lemma sift_up_ordered:
  assumes "up_ordered key h j" "j < length h"
  shows "heap_ordered key (sift_up (by_key key) h j) (length h) \<and> mset (sift_up (by_key key) h j) = mset h"
  using assms
proof (induction "by_key key" h j rule: sift_up.induct)
  case (1 h j)
  let ?i = "par j"
  show ?case
  proof (cases "?i = j \<or> \<not> by_key key (h ! j) (h ! ?i)")
    case True
    have "key (h ! par k) \<le> key (h ! k)" if "0 < k" "k < length h" for k
    proof (cases "k = j")
      case k: True
      then have "?i \<noteq> j" using that by (simp add: par_self)
      then show ?thesis using True k by (simp add: by_key_def)
    next
      case False
      then show ?thesis using "1.prems"(1) that by (simp add: up_ordered_def)
    qed
    then have "heap_ordered key h (length h)" by (simp add: heap_ordered_def)
    then show ?thesis using True by (simp add: sift_up.simps Let_def)
  next
    case False
    then have j: "0 < j" "?i < j" and less: "key (h ! j) < key (h ! ?i)"
      using par_le [of j] by (auto simp: by_key_def par_self le_less)
    have i: "?i < length h" using j "1.prems"(2) by simp
    note o = "1.prems"(1) [unfolded up_ordered_def]
    note n = nth_swap [OF i "1.prems"(2)]
    have "up_ordered key (swap h ?i j) ?i"
      unfolding up_ordered_def
    proof (intro conjI allI impI)
      fix k assume "0 < k \<and> k < length (swap h ?i j) \<and> k \<noteq> ?i"
      then have k: "0 < k" "k < length h" "k \<noteq> ?i" by simp_all
      consider "k = j" | "k \<noteq> j" "par k = ?i" | "k \<noteq> j" "par k = j" | "k \<noteq> j" "par k \<noteq> ?i" "par k \<noteq> j" by blast
      then show "key (swap h ?i j ! par k) \<le> key (swap h ?i j ! k)"
      proof cases
        case 1
        then show ?thesis unfolding n using j less by simp
      next
        case 2
        then have "key (h ! ?i) \<le> key (h ! k)" using o k by metis
        then show ?thesis unfolding n using 2 k less j by simp
      next
        case 3
        then have "key (h ! ?i) \<le> key (h ! k)" using o k j(1) by blast
        then show ?thesis unfolding n using 3 k j by simp
      next
        case 4
        then have "key (h ! par k) \<le> key (h ! k)" using o k by blast
        then show ?thesis unfolding n using 4 k by simp
      qed
    next
      fix k assume "0 < k \<and> k < length (swap h ?i j) \<and> 0 < ?i \<and> par k = ?i"
      then have k: "0 < k" "k < length h" "0 < ?i" "par k = ?i" unfolding length_swap by blast+
      have up: "key (h ! par ?i) \<le> key (h ! ?i)"
        using conjunct1 [OF o, rule_format, of ?i] k(3) i j(2) by simp
      have "?i < k" using par_less [OF k(1)] unfolding k(4) .
      with par_less [OF k(3)] have p: "par ?i \<noteq> j" "par ?i \<noteq> ?i" "k \<noteq> ?i" using j(2) by linarith+
      show "key (swap h ?i j ! par ?i) \<le> key (swap h ?i j ! k)"
      proof (cases "k = j")
        case True
        then show ?thesis unfolding n using p up by simp
      next
        case False
        then have "key (h ! ?i) \<le> key (h ! k)" using o k by metis
        then show ?thesis unfolding n using p up False by simp
      qed
    qed
    moreover have "?i < length (swap h ?i j)" using i by simp
    ultimately show ?thesis
      using "1.hyps" [OF refl False] mset_swap [OF i "1.prems"(2)] False
      by (subst (1 2) sift_up.simps) (simp add: Let_def)
  qed
qed

lemma sift_down_ordered:
  assumes "down_ordered key h n i" "i < n" "n \<le> length h"
  shows "heap_ordered key (sift_down (by_key key) h i n) n \<and> mset (sift_down (by_key key) h i n) = mset h \<and>
     (\<forall>k \<ge> n. sift_down (by_key key) h i n ! k = h ! k)"
  using assms
proof (induction "by_key key" h i n rule: sift_down.induct)
  case (1 h i n)
  let ?j1 = "2 * i + 1"
  let ?j = "if ?j1 + 1 < n \<and> by_key key (h ! (?j1 + 1)) (h ! ?j1) then ?j1 + 1 else ?j1"
  note o = "1.prems"(1) [unfolded down_ordered_def]
  have kid: "\<forall>k. 0 < k \<and> k < n \<and> par k = i \<longrightarrow> key (h ! ?j) \<le> key (h ! k)"
  proof (intro allI impI)
    fix k assume "0 < k \<and> k < n \<and> par k = i"
    then have "k < n" "k = ?j1 \<or> k = ?j1 + 1" using par_kids [of k i] by auto
    then show "key (h ! ?j) \<le> key (h ! k)" by (auto simp: by_key_def)
  qed
  show ?case
  proof (cases "n \<le> ?j1")
    case True
    then have "par k \<noteq> i" if "0 < k" "k < n" for k using par_kids [OF that(1), of i] that by auto
    then have "heap_ordered key h n" using o by (simp add: heap_ordered_def)
    then show ?thesis using True by (simp add: sift_down.simps Let_def)
  next
    case in_range: False
    then have j: "i < ?j" "?j < n" "par ?j = i" by (auto simp: par_kids)
    show ?thesis
    proof (cases "by_key key (h ! ?j) (h ! i)")
      case False
      then have le: "key (h ! i) \<le> key (h ! ?j)" by (simp add: by_key_def)
      have "key (h ! par k) \<le> key (h ! k)" if k: "0 < k" "k < n" for k
      proof (cases "par k = i")
        case True
        then have "key (h ! ?j) \<le> key (h ! k)" using kid k by blast
        then show ?thesis unfolding True using le by (rule order_trans [rotated])
      next
        case False
        then show ?thesis using o k by blast
      qed
      then have "heap_ordered key h n" by (simp add: heap_ordered_def)
      moreover have "sift_down (by_key key) h i n = h"
        using in_range False by (subst sift_down.simps) (auto simp: Let_def)
      ultimately show ?thesis by simp
    next
      case True
      then have less: "key (h ! ?j) < key (h ! i)" by (simp add: by_key_def)
      have l: "i < length h" "?j < length h" using j "1.prems" by auto
      note nt = nth_swap [OF l]
      have "down_ordered key (swap h i ?j) n ?j"
        unfolding down_ordered_def
      proof (intro conjI allI impI)
        fix k assume k: "0 < k \<and> k < n \<and> par k \<noteq> ?j"
        consider "k = ?j" | "k \<noteq> ?j" "par k = i" | "k = i" | "k \<noteq> ?j" "par k \<noteq> i" "k \<noteq> i" by blast
        then show "key (swap h i ?j ! par k) \<le> key (swap h i ?j ! k)"
        proof cases
          case 1
          then show ?thesis unfolding nt using j less by simp
        next
          case 2
          have "0 < k" using k by blast
          from par_less [OF this] have "k \<noteq> i" unfolding 2(2) by simp
          then show ?thesis unfolding nt using 2 k kid j by simp
        next
          case 3
          then have "key (h ! par i) \<le> key (h ! ?j)" "par i < i" using o k j par_less by auto
          then show ?thesis unfolding nt using 3 j by simp
        next
          case 4
          then show ?thesis unfolding nt using k o by simp
        qed
      next
        fix k assume k: "0 < k \<and> k < n \<and> 0 < ?j \<and> par k = ?j"
        then have e: "par k = ?j" and k0: "0 < k" by blast+
        have "?j < k" using par_less [OF k0] unfolding e .
        then have "k \<noteq> ?j" "k \<noteq> i" "par k \<noteq> i" unfolding e using j(1) by simp_all
        moreover have "key (h ! par k) \<le> key (h ! k)" using o k \<open>par k \<noteq> i\<close> by blast
        then have "key (h ! ?j) \<le> key (h ! k)" unfolding e .
        ultimately show "key (swap h i ?j ! par ?j) \<le> key (swap h i ?j ! k)"
          unfolding nt using j by simp
      qed
      note ih = "1.hyps" [OF refl in_range refl _ this]
      have "sift_down (by_key key) h i n = sift_down (by_key key) (swap h i ?j) ?j n"
        by (subst sift_down.simps) (simp only: Let_def in_range True simp_thms if_True if_False)
      moreover have "\<forall>k \<ge> n. swap h i ?j ! k = h ! k" unfolding nt using j by auto
      ultimately show ?thesis
        using ih j(2) "1.prems"(3) True mset_swap [OF l] by simp
    qed
  qed
qed

section \<open>The contract\<close>

lemma push_law:
  assumes "heap_ordered key h (length h)"
  shows "heap_ordered key (heap_Push (by_key key) x h) (length (heap_Push (by_key key) x h)) \<and>
     mset (heap_Push (by_key key) x h) = add_mset x (mset h)"
proof -
  have "up_ordered key (h @ [x]) (length h)"
    unfolding up_ordered_def
  proof (intro conjI allI impI)
    fix k assume "0 < k \<and> k < length (h @ [x]) \<and> k \<noteq> length h"
    then show "key ((h @ [x]) ! par k) \<le> key ((h @ [x]) ! k)"
      using assms par_less [of k] by (simp add: heap_ordered_def nth_append)
  next
    fix k assume "0 < k \<and> k < length (h @ [x]) \<and> 0 < length h \<and> par k = length h"
    then show "key ((h @ [x]) ! par (length h)) \<le> key ((h @ [x]) ! k)"
      using par_less [of k] by simp
  qed
  from sift_up_ordered [OF this]
  have s: "heap_ordered key (heap_Push (by_key key) x h) (Suc (length h))"
    "mset (heap_Push (by_key key) x h) = add_mset x (mset h)" by (simp_all add: heap_Push_def)
  from mset_eq_length [of "heap_Push (by_key key) x h" "h @ [x]"] s(2)
  show ?thesis using s by simp
qed

lemma pop_law:
  assumes "heap_ordered key h (length h)" "h \<noteq> []"
  shows "\<exists>x h'. heap_Pop (by_key key) h = Some (x, h') \<and> heap_ordered key h' (length h') \<and>
     mset h = add_mset x (mset h') \<and> (\<forall>y \<in> set h'. key x \<le> key y)"
proof -
  define n where "n = length h - 1"
  define h1 where "h1 = swap h 0 n"
  define h2 where "h2 = sift_down (by_key key) h1 0 n"
  have n: "n < length h" "length h = Suc n" using assms(2) by (auto simp: n_def)
  have l: "0 < length h" using n by simp
  note nt = nth_swap [OF l n(1), folded h1_def]
  have ms: "mset h1 = mset h" unfolding h1_def by (rule mset_swap [OF l n(1)])
  have h2: "heap_ordered key h2 n \<and> mset h2 = mset h1 \<and> (\<forall>k \<ge> n. h2 ! k = h1 ! k)"
  proof (cases "n = 0")
    case True
    then show ?thesis by (simp add: h2_def sift_down.simps heap_ordered_def)
  next
    case False
    have "down_ordered key h1 n 0"
      unfolding down_ordered_def
    proof (intro conjI allI impI)
      fix k assume "0 < k \<and> k < n \<and> par k \<noteq> 0"
      then show "key (h1 ! par k) \<le> key (h1 ! k)"
        using assms(1) n par_less [of k] by (simp add: heap_ordered_def nt)
    qed simp
    then show ?thesis unfolding h2_def using False n by (intro sift_down_ordered) (simp_all add: h1_def)
  qed
  have len: "length h2 = Suc n" using h2 ms n by (metis size_mset)
  have x: "h2 ! n = h ! 0" using h2 nt by (cases "n = 0") auto
  have split: "mset h = add_mset (h2 ! n) (mset (take n h2))"
  proof -
    have "h2 = take n h2 @ [h2 ! n]" using len by (metis lessI take_Suc_conv_app_nth take_all_iff order_refl)
    then have "mset h2 = mset (take n h2 @ [h2 ! n])" by simp
    then show ?thesis using h2 ms by simp
  qed
  have "heap_ordered key (take n h2) (length (take n h2))"
    using h2 len par_less by (simp add: heap_ordered_def order.strict_trans [OF par_less])
  moreover have "\<forall>y \<in> set (take n h2). key (h2 ! n) \<le> key y"
  proof
    fix y assume "y \<in> set (take n h2)"
    then have "y \<in> set h" using split by (metis insert_iff set_mset_add_mset_insert set_mset_mset)
    then obtain k where "k < length h" "y = h ! k" by (auto simp: in_set_conv_nth)
    then show "key (h2 ! n) \<le> key y" using heap_root [OF assms(1)] x by simp
  qed
  ultimately show ?thesis
    using split assms(2) by (simp add: heap_Pop_def Let_def n_def h1_def h2_def)
qed

text \<open>A queue that returns a least element; the client's turn is a pop and a push of something no smaller.\<close>

locale min_queue =
  fixes ok :: "'a list \<Rightarrow> bool"
    and push :: "'a \<Rightarrow> 'a list \<Rightarrow> 'a list"
    and pop :: "'a list \<Rightarrow> ('a \<times> 'a list) option"
    and key :: "'a \<Rightarrow> 'k::linorder"
  assumes ok_empty: "ok []"
    and push_ok: "ok h \<Longrightarrow> ok (push x h) \<and> mset (push x h) = add_mset x (mset h)"
    and pop_least: "\<lbrakk>ok h; h \<noteq> []\<rbrakk> \<Longrightarrow>
      \<exists>x h'. pop h = Some (x, h') \<and> ok h' \<and> mset h = add_mset x (mset h') \<and> (\<forall>y \<in> set h'. key x \<le> key y)"
begin

lemma length_push: "ok h \<Longrightarrow> length (push x h) = Suc (length h)"
  using push_ok [of h x] by (metis size_add_mset size_mset)

lemma length_pop: "\<lbrakk>ok h; pop h = Some (x, h'); h \<noteq> []\<rbrakk> \<Longrightarrow> length h = Suc (length h')"
  using pop_least [of h] by (metis option.inject prod.inject size_add_mset size_mset)

lemma fill:
  "ok h \<Longrightarrow> ok (fold push xs h) \<and> mset (fold push xs h) = mset xs + mset h"
proof (induction xs arbitrary: h)
  case (Cons x xs)
  then show ?case using push_ok [of h x] by simp
qed simp

text \<open>The lower bound of everything still to come rises with every turn.\<close>

lemma turn:
  assumes "ok h" "pop h = Some (x, h')" "h \<noteq> []" "\<forall>y \<in> set h. b \<le> key y"
  shows "b \<le> key x" "ok h'" "mset h = add_mset x (mset h')" "\<forall>y \<in> set h'. key x \<le> key y"
    and "key x \<le> key z \<Longrightarrow> \<forall>y \<in> set (push z h'). key x \<le> key y"
proof -
  show h': "ok h'" "mset h = add_mset x (mset h')" "\<forall>y \<in> set h'. key x \<le> key y"
    using pop_least [OF assms(1,3)] assms(2) by auto
  then have "x \<in> set h" by (metis set_mset_add_mset_insert set_mset_mset insertI1)
  then show "b \<le> key x" using assms(4) by blast
  assume "key x \<le> key z"
  then show "\<forall>y \<in> set (push z h'). key x \<le> key y"
    using push_ok [OF h'(1), of z] h'(3)
    by (metis insertE set_mset_add_mset_insert set_mset_mset)
qed

end

interpretation array_heap: min_queue "\<lambda>h. heap_ordered key h (length h)" "heap_Push (by_key key)" "heap_Pop (by_key key)" key
  for key :: "'a \<Rightarrow> 'k::linorder"
proof
  show "heap_ordered key [] (length [])" by (simp add: heap_ordered_def)
qed (fact push_law, fact pop_law)

text \<open>Whatever the order, nothing is lost or made up.\<close>

lemma mset_sift_up: "j < length h \<Longrightarrow> mset (sift_up lt h j) = mset h"
proof (induction lt h j rule: sift_up.induct)
  case (1 lt h j)
  then show ?case
    using par_le [of j] by (subst sift_up.simps) (auto simp: Let_def mset_swap)
qed

lemma mset_sift_down:
  "\<lbrakk>i < n; n \<le> length h\<rbrakk> \<Longrightarrow>
     mset (sift_down lt h i n) = mset h \<and> (\<forall>k. n \<le> k \<and> k < length h \<longrightarrow> sift_down lt h i n ! k = h ! k)"
proof (induction lt h i n rule: sift_down.induct)
  case (1 lt h i n)
  let ?j1 = "2 * i + 1"
  define j where "j = (if ?j1 + 1 < n \<and> lt (h ! (?j1 + 1)) (h ! ?j1) then ?j1 + 1 else ?j1)"
  show ?case
  proof (cases "n \<le> ?j1 \<or> \<not> lt (h ! j) (h ! i)")
    case True
    then have "sift_down lt h i n = h" by (subst sift_down.simps) (auto simp: Let_def j_def)
    then show ?thesis by simp
  next
    case False
    then have e: "sift_down lt h i n = sift_down lt (swap h i j) j n"
      by (subst sift_down.simps) (simp only: Let_def j_def [symmetric] simp_thms if_False de_Morgan_disj)
    have j: "j < n" "i < j" using False by (auto simp: j_def)
    then have "i < length h" "j < length h" using "1.prems" by auto
    note sw = nth_swap [OF this] mset_swap [OF this]
    have "mset (sift_down lt (swap h i j) j n) = mset (swap h i j) \<and>
        (\<forall>k. n \<le> k \<and> k < length (swap h i j) \<longrightarrow> sift_down lt (swap h i j) j n ! k = swap h i j ! k)"
      using False "1.prems" j by (intro "1.IH" [OF refl _ j_def]) auto
    then show ?thesis unfolding e using sw j by auto
  qed
qed

lemma mset_heap_Push: "mset (heap_Push lt x h) = add_mset x (mset h)"
  by (simp add: heap_Push_def mset_sift_up)

lemma heap_Pop_parts:
  assumes "heap_Pop lt h = Some (x, h')"
  shows "mset h = add_mset x (mset h')"
proof -
  define n where "n = length h - 1"
  define h2 where "h2 = sift_down lt (swap h 0 n) 0 n"
  have ne: "h \<noteq> []" and x: "x = h2 ! n" "h' = take n h2"
    using assms by (auto simp: heap_Pop_def Let_def h2_def n_def split: if_splits)
  then have n: "0 < length h" "n < length h" "length h = Suc n" by (auto simp: n_def)
  have ms: "mset h2 = mset h"
  proof (cases "n = 0")
    case True
    then show ?thesis using mset_swap [OF n(1,2)] by (simp add: h2_def sift_down.simps)
  next
    case False
    then show ?thesis using mset_sift_down [of 0 n "swap h 0 n" lt] mset_swap [OF n(1,2)] n by (simp add: h2_def)
  qed
  then have "length h2 = Suc n" using n(3) by (metis size_mset)
  then have "h2 = take n h2 @ [h2 ! n]" by (metis lessI take_Suc_conv_app_nth take_all_iff order_refl)
  then have "mset h2 = add_mset x (mset h')" unfolding x by (metis mset_append mset.simps union_mset_add_mset_right add.right_neutral mset_single_iff_right)
  then show ?thesis using ms by simp
qed

lemma heap_Pop_none: "heap_Pop lt h = None \<longleftrightarrow> h = []"
  by (simp add: heap_Pop_def Let_def)

end
