(* ===== verification/MR_Reduce.thy ===== *)
theory MR_Reduce
  imports MR_Groups MR_Heap
begin

text \<open>
  The reduce task of the worker (doReduce of src/src/mr/worker.go): the files of one partition are cut
  into sorted segments, the segments are merged with a heap, the groups are printed into a file of
  the task's own, and a hard link makes that the result if there is none yet.
\<close>

section \<open>Cutting a file into segments\<close>

definition newSegment :: "string \<Rightarrow> nat \<Rightarrow> nat \<Rightarrow> lineReader" where
  "newSegment content start stop = \<lparr>lrData = content, lrOff = start, lrEnd = stop\<rparr>"

text \<open>A segment ends where a key is smaller than the one before it. The result has the start of the last one.\<close>

function cut_loop :: "lineReader \<Rightarrow> string \<Rightarrow> bool \<Rightarrow> nat \<Rightarrow> lineReader list \<Rightarrow> nat \<times> lineReader list" where
  "cut_loop lr prev first segStart segs =
     (case next_pair lr of
        (None, lr') \<Rightarrow> (segStart, segs)
      | (Some (start, kv), lr') \<Rightarrow>
          if \<not> first \<and> kvKey kv < prev
          then cut_loop lr' (kvKey kv) False start (segs @ [newSegment (lrData lr) segStart start])
          else cut_loop lr' (kvKey kv) False segStart segs)"
  by pat_completeness auto

lemma next_pair_advances:
  "next_pair lr = (r, lr') \<Longrightarrow>
     lrEnd lr' = lrEnd lr \<and> lrData lr' = lrData lr \<and> lrOff lr \<le> lrOff lr' \<and> (r \<noteq> None \<longrightarrow> lrOff lr < lrEnd lr \<and> lrOff lr < lrOff lr')"
proof (induction lr arbitrary: r lr' rule: next_pair.induct)
  case (1 lr)
  show ?case
  proof (cases "lrOff lr < lrEnd lr")
    case False
    then show ?thesis using 1(3) by (subst (asm) next_pair.simps) auto
  next
    case lt: True
    obtain line lr1 where l: "readLine lr = (line, lr1)" by fastforce
    show ?thesis
    proof (cases line)
      case None
      then have "lrOff lr \<le> lrOff lr1 \<and> lrEnd lr1 = lrEnd lr \<and> lrData lr1 = lrData lr"
        using l by (auto simp: readLine_first split: if_splits)
      then show ?thesis using 1(3) lt l None by (subst (asm) next_pair.simps) auto
    next
      case (Some ln)
      have adv: "lrOff lr < lrOff lr1" "lrEnd lr1 = lrEnd lr" "lrData lr1 = lrData lr"
        using readLine_advances l Some by auto
      show ?thesis
      proof (cases "ln = [] \<or> parseKV ln = None")
        case True
        then have "next_pair lr1 = (r, lr')" using 1(3) lt l Some by (subst (asm) next_pair.simps) (auto split: if_splits)
        then have "lrEnd lr' = lrEnd lr1 \<and> lrData lr' = lrData lr1 \<and> lrOff lr1 \<le> lrOff lr' \<and>
            (r \<noteq> None \<longrightarrow> lrOff lr1 < lrEnd lr1 \<and> lrOff lr1 < lrOff lr')"
        proof (cases "ln = []")
          case True
          from "1.IH"(1) [OF lt l [unfolded Some, symmetric] refl True] \<open>next_pair lr1 = (r, lr')\<close> show ?thesis by blast
        next
          case False
          then have "parseKV ln = None" using \<open>ln = [] \<or> parseKV ln = None\<close> by blast
          from "1.IH"(2) [OF lt l [unfolded Some, symmetric] refl False this] \<open>next_pair lr1 = (r, lr')\<close> show ?thesis by blast
        qed
        then show ?thesis using adv lt by auto
      next
        case False
        then show ?thesis using 1(3) lt l Some adv by (subst (asm) next_pair.simps) auto
      qed
    qed
  qed
qed

termination cut_loop
  by (relation "measure (\<lambda>(lr, prev, first, segStart, segs). lrEnd lr - lrOff lr)")
     (auto dest!: sym [THEN next_pair_advances])

declare cut_loop.simps [simp del]

text \<open>Files that cannot be opened are skipped, and so are empty ones.\<close>

definition cut_file :: "fs \<Rightarrow> string \<Rightarrow> lineReader list \<Rightarrow> lineReader list" where
  "cut_file d p segs =
     (case d p of
        None \<Rightarrow> segs
      | Some content \<Rightarrow>
          let size = length content in
          if size = 0 then segs
          else let (segStart, segs') = cut_loop (newSegment content 0 size) [] True 0 segs in
               if segStart < size then segs' @ [newSegment content segStart size] else segs')"

section \<open>Merging the segments\<close>

text \<open>An item of the heap: a pair and the segment it comes from, whose reader stands behind the pair.\<close>

record heapItem =
  hiKv :: KeyValue
  hiSeg :: lineReader

definition item_key :: "heapItem \<Rightarrow> string" where
  "item_key it = kvKey (hiKv it)"

definition item_less :: "heapItem \<Rightarrow> heapItem \<Rightarrow> bool" where
  "item_less a b \<longleftrightarrow> kvKey (hiKv a) < kvKey (hiKv b)"

text \<open>The next pair of a segment goes into the heap; a segment at its end is dropped.\<close>

definition refill :: "lineReader \<Rightarrow> heapItem list \<Rightarrow> heapItem list" where
  "refill lr h =
     (case next_pair lr of
        (Some (start, kv), lr') \<Rightarrow> heap_Push item_less \<lparr>hiKv = kv, hiSeg = lr'\<rparr> h
      | (None, lr') \<Rightarrow> h)"

text \<open>One item leaves the heap: a changed key prints the group before it, then the value joins its group.\<close>

definition take_pair :: "reducer \<Rightarrow> KeyValue \<Rightarrow> string \<Rightarrow> string list \<Rightarrow> bool \<Rightarrow> string \<Rightarrow> string \<times> string list \<times> string" where
  "take_pair reducef kv lastKey vals started out =
     (if \<not> started \<or> kvKey kv \<noteq> lastKey
      then (kvKey kv, [kvVal kv], if started then out @ emit reducef lastKey vals else out)
      else (lastKey, vals @ [kvVal kv], out))"

text \<open>The merge loop; Pop is none exactly when the heap is empty, which ends the loop.\<close>

function merge_loop :: "reducer \<Rightarrow> heapItem list \<Rightarrow> string \<Rightarrow> string list \<Rightarrow> bool \<Rightarrow> string \<Rightarrow> string" where
  "merge_loop reducef h lastKey vals started out =
     (case heap_Pop item_less h of
        None \<Rightarrow> if started then out @ emit reducef lastKey vals else out
      | Some (it, h') \<Rightarrow>
          let (lastKey', vals', out') = take_pair reducef (hiKv it) lastKey vals started out in
          merge_loop reducef (refill (hiSeg it) h') lastKey' vals' True out')"
  by pat_completeness auto

text \<open>Every turn reads a pair or loses a segment.\<close>

definition unread :: "heapItem list \<Rightarrow> nat" where
  "unread h = (\<Sum>it \<in># mset h. Suc (lrEnd (hiSeg it) - lrOff (hiSeg it)))"

lemma refill_unread: "heap_Pop item_less h = Some (it, h') \<Longrightarrow> unread (refill (hiSeg it) h') < unread h"
  using next_pair_advances [of "hiSeg it"] heap_Pop_parts [of item_less h it h']
  by (cases "next_pair (hiSeg it)") (auto simp: unread_def refill_def mset_heap_Push split: option.splits)

termination merge_loop
  by (relation "measure (\<lambda>(reducef, h, lastKey, vals, started, out). unread h)") (auto dest: refill_unread)

declare merge_loop.simps [simp del]

section \<open>The task\<close>

definition tmp_name :: "nat \<Rightarrow> nat \<Rightarrow> string" where
  "tmp_name rid randID = ''mr-tmp-out-'' @ decimal rid @ ''-'' @ decimal randID"

definition out_name :: "nat \<Rightarrow> string" where
  "out_name rid = ''mr-out-'' @ decimal rid"

text \<open>
  The link fails when the name is taken, or when the system refuses it; the temporary file goes
  either way. The boolean is whether the task is to be reported.
\<close>

definition doReduce :: "(string \<Rightarrow> bool) \<Rightarrow> nat \<Rightarrow> string list \<Rightarrow> reducer \<Rightarrow> nat \<Rightarrow> fs \<Rightarrow> fs \<times> bool" where
  "doReduce can rid files reducef randID d =
     (let segs = fold (cut_file d) files [];
          h = fold refill segs [];
          tmp = tmp_name rid randID in
      if \<not> can tmp then (d, False)
      else let d1 = d(tmp \<mapsto> merge_loop reducef h [] [] False []);
               final = out_name rid in
           if d1 final = None \<and> can final then ((d1(final := d1 tmp))(tmp := None), True)
           else (d1(tmp := None), False))"

lemma name_neq: "tmp_name r x \<noteq> out_name r'" "map_name r x \<noteq> out_name r'" "map_name r x \<noteq> tmp_name r' x'"
  by (simp_all add: tmp_name_def out_name_def map_name_def)

lemma out_name_inj: "out_name r = out_name r' \<longleftrightarrow> r = r'"
  by (simp add: out_name_def decimal_inj)

section \<open>The segments are the runs of the files\<close>

text \<open>A reader that stands before pairs in the order of their keys.\<close>

definition run_at :: "lineReader \<Rightarrow> KeyValue list \<Rightarrow> bool" where
  "run_at lr kvs \<longleftrightarrow> before lr kvs \<and> sorted (map kvKey kvs)"

lemma left_join:
  assumes "s \<le> m" "m \<le> e" "m \<le> length d"
  shows "left (newSegment d s e) = left (newSegment d s m) @ left (newSegment d m e)"
proof -
  have "take (e - s) (drop s d) = take ((m - s) + (e - m)) (drop s d)" using assms by simp
  also have "\<dots> = take (m - s) (drop s d) @ take (e - m) (drop (m - s) (drop s d))" by (rule take_add)
  finally show ?thesis using assms by (simp add: left_def newSegment_def)
qed

lemma reader_eta: "newSegment (lrData lr) (lrOff lr) (lrEnd lr) = lr"
  by (simp add: newSegment_def)

lemma before_step:
  assumes "before (newSegment d m e) (kv # kvs)" "e = length d"
  shows "next_pair (newSegment d m e) = (Some (m, kv), newSegment d (m + length (print_kv kv)) e)"
    "before (newSegment d (m + length (print_kv kv)) e) kvs" "m + length (print_kv kv) \<le> e"
    "before (newSegment d m (m + length (print_kv kv))) [kv]"
proof -
  note n = next_pair_before [OF assms(1)]
  then show "next_pair (newSegment d m e) = (Some (m, kv), newSegment d (m + length (print_kv kv)) e)"
    "before (newSegment d (m + length (print_kv kv)) e) kvs" by (simp_all add: newSegment_def)
  have l: "drop m d = print_kv kv @ concat (map print_kv kvs)" and c: "clean kv"
    using assms by (auto simp: before_def left_def newSegment_def)
  have "m < e" using n(3) by (simp add: newSegment_def)
  moreover have "length (drop m d) = length d - m" by simp
  ultimately show "m + length (print_kv kv) \<le> e" using l assms(2) by simp
  show "before (newSegment d m (m + length (print_kv kv))) [kv]"
    using l c by (simp add: before_def left_def newSegment_def)
qed

lemma before_join:
  assumes "before (newSegment d s m) us" "before (newSegment d m e) vs" "s \<le> m" "m \<le> e" "e = length d"
  shows "before (newSegment d s e) (us @ vs)"
  using assms left_join [of s m e d] by (auto simp: before_def)

lemma sorted_snoc:
  assumes "sorted (map f xs)" "xs \<noteq> []" "f (last xs) \<le> f x"
  shows "sorted (map f (xs @ [x]))"
proof -
  obtain ys y where "xs = ys @ [y]" using assms(2) by (cases xs rule: rev_cases) auto
  then show ?thesis using assms(1,3) by (auto simp: sorted_append intro: order_trans)
qed

lemma cut_loop_runs:
  assumes "lr = newSegment d m (length d)" "before lr kvs"
    and "before (newSegment d s m) run" "sorted (map kvKey run)" "s \<le> m" "m \<le> length d"
    and "first \<longleftrightarrow> run = []" "run \<noteq> [] \<longrightarrow> prev = kvKey (last run)"
  shows "\<exists>s' new runs rest. cut_loop lr prev first s segs = (s', segs @ new) \<and> list_all2 run_at new runs \<and>
     run_at (newSegment d s' (length d)) rest \<and> concat runs @ rest = run @ kvs \<and> s' \<le> length d"
  using assms
proof (induction kvs arbitrary: lr m s run first prev segs)
  case Nil
  have "fst (next_pair lr) = None" using Nil(2) by (rule next_pair_end)
  then have "cut_loop lr prev first s segs = (s, segs @ [])"
    by (subst cut_loop.simps) (auto split: prod.split)
  moreover have "run_at (newSegment d s (length d)) run"
    using before_join [OF Nil(3) Nil(2) [unfolded Nil(1)]] Nil(4,5,6) by (simp add: run_at_def)
  ultimately show ?case using Nil(5,6) by (intro exI [of _ s] exI [of _ "[]"] exI [of _ run]) auto
next
  case (Cons kv kvs)
  let ?m = "m + length (print_kv kv)"
  let ?lr = "newSegment d ?m (length d)"
  note b = before_step [OF Cons.prems(2) [unfolded Cons.prems(1)] refl]
  show ?case
  proof (cases "\<not> first \<and> kvKey kv < prev")
    case True
    let ?seg = "newSegment d s m"
    have step: "cut_loop lr prev first s segs = cut_loop ?lr (kvKey kv) False m (segs @ [?seg])"
      using True b(1) unfolding Cons.prems(1) by (subst cut_loop.simps) (simp add: newSegment_def)
    obtain s' new runs rest where "cut_loop ?lr (kvKey kv) False m (segs @ [?seg]) = (s', (segs @ [?seg]) @ new)"
      "list_all2 run_at new runs" "run_at (newSegment d s' (length d)) rest" "concat runs @ rest = [kv] @ kvs" "s' \<le> length d"
      using Cons.IH [OF refl b(2) b(4), of False "kvKey kv" "segs @ [?seg]"] b(3)
      by (metis (no_types, lifting) last.simps le_add1 list.map(1,2) not_Cons_self2 sorted1)
    moreover have "run_at ?seg run" using Cons.prems by (simp add: run_at_def)
    ultimately show ?thesis unfolding step
      by (intro exI [of _ s'] exI [of _ "?seg # new"] exI [of _ "run # runs"] exI [of _ rest]) simp
  next
    case False
    have step: "cut_loop lr prev first s segs = cut_loop ?lr (kvKey kv) False s segs"
      using False b(1) unfolding Cons.prems(1) by (subst cut_loop.simps) auto
    have join: "before (newSegment d s ?m) (run @ [kv])"
    proof -
      have "left (newSegment d s ?m) = left (newSegment d s m) @ left (newSegment d m ?m)"
        using Cons.prems(5,6) by (intro left_join) auto
      then show ?thesis using Cons.prems(3) b(4) by (auto simp: before_def)
    qed
    have "sorted (map kvKey (run @ [kv]))"
    proof (cases "run = []")
      case False
      then have "kvKey (last run) \<le> kvKey kv" using \<open>\<not> (\<not> first \<and> kvKey kv < prev)\<close> Cons.prems(7,8) by auto
      then show ?thesis by (rule sorted_snoc [OF Cons.prems(4) False])
    qed simp
    from Cons.IH [OF refl b(2) join this, of False "kvKey kv" segs]
    obtain s' new runs rest where "cut_loop ?lr (kvKey kv) False s segs = (s', segs @ new)"
      "list_all2 run_at new runs" "run_at (newSegment d s' (length d)) rest" "concat runs @ rest = (run @ [kv]) @ kvs" "s' \<le> length d"
      using b(3) Cons.prems(5) by (metis last_snoc snoc_eq_iff_butlast trans_le_add1)
    then show ?thesis unfolding step by auto
  qed
qed
text \<open>A missing file counts as one without pairs.\<close>

definition pairs_in :: "fs \<Rightarrow> string \<Rightarrow> KeyValue list \<Rightarrow> bool" where
  "pairs_in d p kvs \<longleftrightarrow>
     (case d p of None \<Rightarrow> kvs = []
      | Some content \<Rightarrow> content = concat (map print_kv kvs) \<and> (\<forall>kv \<in> set kvs. clean kv))"

lemma cut_file_runs:
  assumes "pairs_in d p kvs"
  shows "\<exists>new runs. cut_file d p segs = segs @ new \<and> list_all2 run_at new runs \<and> concat runs = kvs"
proof (cases "d p")
  case None
  then have "cut_file d p segs = segs @ []" "kvs = []" using assms by (simp_all add: cut_file_def pairs_in_def)
  then show ?thesis by (intro exI [of _ "[]"]) simp
next
  case (Some content)
  show ?thesis
  proof (cases "content = []")
    case True
    then have "kvs = []" using assms Some by (auto simp: pairs_in_def print_kv_def print_line_def)
    moreover have "cut_file d p segs = segs @ []" using True Some by (simp add: cut_file_def)
    ultimately show ?thesis by (intro exI [of _ "[]"]) simp
  next
    case False
    let ?r = "newSegment content 0 (length content)"
    have "before ?r kvs" "before (newSegment content 0 0) []"
      using assms Some by (auto simp: pairs_in_def before_def left_def newSegment_def)
    from cut_loop_runs [OF refl this, of True "[]" segs]
    obtain s' new runs rest where c: "cut_loop ?r [] True 0 segs = (s', segs @ new)" "list_all2 run_at new runs"
      "run_at (newSegment content s' (length content)) rest" "concat runs @ rest = kvs" "s' \<le> length content"
      by auto
    show ?thesis
    proof (cases "s' < length content")
      case True
      then have "cut_file d p segs = segs @ (new @ [newSegment content s' (length content)])"
        using c(1) Some False by (simp add: cut_file_def)
      moreover have "list_all2 run_at (new @ [newSegment content s' (length content)]) (runs @ [rest])"
        using c(2,3) by (simp add: list_all2_appendI)
      ultimately show ?thesis using c(4) by (metis append.right_neutral concat.simps concat_append)
    next
      case end_: False
      then have "concat (map print_kv rest) = []" using c(3,5) by (auto simp: run_at_def before_def left_def newSegment_def)
      then have "rest = []" by (cases rest) (auto simp: print_kv_def print_line_def)
      moreover have "cut_file d p segs = segs @ new" using c(1) Some False end_ by (simp add: cut_file_def)
      ultimately show ?thesis using c(2,4) by auto
    qed
  qed
qed

lemma cut_files_runs:
  assumes "list_all2 (pairs_in d) files kvss"
  shows "\<exists>new runs. fold (cut_file d) files segs = segs @ new \<and> list_all2 run_at new runs \<and> concat runs = concat kvss"
  using assms
proof (induction arbitrary: segs rule: list_all2_induct)
  case Nil
  then show ?case by (intro exI [of _ "[]"]) simp
next
  case (Cons p files kvs kvss)
  obtain new runs where n: "cut_file d p segs = segs @ new" "list_all2 run_at new runs" "concat runs = kvs"
    using cut_file_runs [OF Cons.hyps(1)] by blast
  obtain new' runs' where "fold (cut_file d) files (segs @ new) = (segs @ new) @ new'"
    "list_all2 run_at new' runs'" "concat runs' = concat kvss" using Cons.IH by blast
  then show ?case using n
    by (intro exI [of _ "new @ new'"] exI [of _ "runs @ runs'"]) (auto intro: list_all2_appendI)
qed

section \<open>The merge is a sort\<close>

text \<open>What a reader still has to give.\<close>

function pairs_left :: "lineReader \<Rightarrow> KeyValue list" where
  "pairs_left lr = (case next_pair lr of (None, lr') \<Rightarrow> [] | (Some (start, kv), lr') \<Rightarrow> kv # pairs_left lr')"
  by pat_completeness auto
termination
  by (relation "measure (\<lambda>lr. lrEnd lr - lrOff lr)") (auto dest!: sym [THEN next_pair_advances])

declare pairs_left.simps [simp del]

lemma pairs_left_before: "before lr kvs \<Longrightarrow> pairs_left lr = kvs"
proof (induction kvs arbitrary: lr)
  case Nil
  then show ?case using next_pair_end [OF Nil] by (subst pairs_left.simps) (auto split: prod.split)
next
  case (Cons kv kvs)
  note n = next_pair_before [OF Cons.prems]
  show ?case using n(1) Cons.IH [OF n(2)] by (subst pairs_left.simps) simp
qed

definition good_item :: "heapItem \<Rightarrow> bool" where
  "good_item it \<longleftrightarrow> run_at (hiSeg it) (pairs_left (hiSeg it)) \<and>
     (\<forall>kv \<in> set (pairs_left (hiSeg it)). item_key it \<le> kvKey kv)"

definition remaining :: "heapItem list \<Rightarrow> KeyValue multiset" where
  "remaining h = (\<Sum>it \<in># mset h. add_mset (hiKv it) (mset (pairs_left (hiSeg it))))"

definition good_heap :: "heapItem list \<Rightarrow> bool" where
  "good_heap h \<longleftrightarrow> heap_ordered item_key h (length h) \<and> (\<forall>it \<in># mset h. good_item it)"

lemma item_less_key: "item_less = by_key item_key"
  by (simp add: fun_eq_iff item_less_def by_key_def item_key_def)

lemma refill_good:
  assumes "good_heap h" "run_at lr kvs"
  shows "good_heap (refill lr h) \<and> remaining (refill lr h) = remaining h + mset kvs \<and>
     (\<forall>it \<in># mset (refill lr h). it \<in># mset h \<or> item_key it \<in> kvKey ` set kvs)"
proof (cases kvs)
  case Nil
  then have "fst (next_pair lr) = None" using assms(2) by (auto simp: run_at_def intro: next_pair_end)
  then have "refill lr h = h" by (auto simp: refill_def split: prod.split)
  then show ?thesis using assms(1) Nil by simp
next
  case (Cons kv rest)
  then have b: "before lr (kv # rest)" and s: "sorted (map kvKey (kv # rest))" using assms(2) by (auto simp: run_at_def)
  let ?lr = "lr\<lparr>lrOff := lrOff lr + length (print_kv kv)\<rparr>"
  let ?it = "\<lparr>hiKv = kv, hiSeg = ?lr\<rparr>"
  note n = next_pair_before [OF b]
  have p: "pairs_left ?lr = rest" by (rule pairs_left_before [OF n(2)])
  have r: "refill lr h = heap_Push (by_key item_key) ?it h" by (simp add: refill_def n(1) item_less_key)
  have "good_item ?it" using n(2) s p by (auto simp: good_item_def run_at_def item_key_def)
  then have "good_heap (refill lr h)"
    using assms(1) array_heap.push_ok [of item_key h ?it] unfolding r good_heap_def by auto
  moreover have "remaining (refill lr h) = remaining h + mset kvs"
    unfolding r by (simp add: remaining_def mset_heap_Push p Cons)
  ultimately show ?thesis unfolding r by (auto simp: mset_heap_Push Cons item_key_def)
qed

lemma fill_good:
  assumes "list_all2 run_at segs runs"
  shows "good_heap h \<Longrightarrow> good_heap (fold refill segs h) \<and> remaining (fold refill segs h) = remaining h + mset (concat runs)"
  using assms
proof (induction segs runs arbitrary: h rule: list_all2_induct [consumes 1, case_names Nil Cons])
  case (Cons lr segs kvs runs)
  then show ?case using refill_good [OF Cons.prems(1) Cons.hyps(1)] by (simp add: ac_simps)
qed simp_all

lemma remaining_least:
  assumes "\<forall>it \<in># mset h. good_item it" "\<forall>it \<in># mset h. k \<le> item_key it" "kv \<in># remaining h"
  shows "k \<le> kvKey kv"
proof -
  obtain it where it: "it \<in># mset h" "kv = hiKv it \<or> kv \<in> set (pairs_left (hiSeg it))"
    using assms(3) by (auto simp: remaining_def)
  then have "item_key it \<le> kvKey kv" using assms(1) by (auto simp: good_item_def item_key_def)
  then show ?thesis using assms(2) it(1) by (meson order_trans)
qed

lemma take_pair_group:
  assumes "take_pair reducef kv lastKey vals started out = (lk, vs, out')"
  shows "out @ group_out reducef lastKey vals started (kv # kvs) = out' @ group_out reducef lk vs True kvs"
  using assms by (auto simp: take_pair_def split: if_splits)

lemma merge_sorts:
  assumes "good_heap h"
  shows "\<exists>ks. sorted (map kvKey ks) \<and> mset ks = remaining h \<and>
    merge_loop reducef h lastKey vals started out = out @ group_out reducef lastKey vals started ks"
  using assms
proof (induction reducef h lastKey vals started out rule: merge_loop.induct)
  case (1 reducef h lastKey vals started out)
  show ?case
  proof (cases "heap_Pop item_less h")
    case None
    then show ?thesis using heap_Pop_none [of item_less h]
      by (intro exI [of _ "[]"], subst merge_loop.simps) (simp add: remaining_def)
  next
    case (Some p)
    obtain it h' where p: "p = (it, h')" by fastforce
    obtain lk vs out' where t: "take_pair reducef (hiKv it) lastKey vals started out = (lk, vs, out')"
      by (cases "take_pair reducef (hiKv it) lastKey vals started out") auto
    let ?h = "refill (hiSeg it) h'"
    have ne: "h \<noteq> []" using Some heap_Pop_none [of item_less h] by auto
    obtain pop: "heap_ordered item_key h' (length h')" "mset h = add_mset it (mset h')" "\<forall>y \<in> set h'. item_key it \<le> item_key y"
      using array_heap.pop_least [of item_key h] 1(2) ne Some p unfolding good_heap_def item_less_key by auto
    have gi: "good_item it" and gh: "good_heap h'" using 1(2) pop by (auto simp: good_heap_def)
    then have run: "run_at (hiSeg it) (pairs_left (hiSeg it))" by (simp add: good_item_def)
    note rf = refill_good [OF gh run]
    have m: "merge_loop reducef h lastKey vals started out = merge_loop reducef ?h lk vs True out'"
      using Some t by (subst merge_loop.simps) (simp add: p)
    obtain ks where ks: "sorted (map kvKey ks)" "mset ks = remaining ?h"
      "merge_loop reducef ?h lk vs True out' = out' @ group_out reducef lk vs True ks"
      using "1.IH" [OF Some p [symmetric] t [symmetric] refl refl] rf by blast
    have least: "\<forall>it' \<in># mset ?h. item_key it \<le> item_key it'"
      using rf pop(3) gi by (auto simp: good_item_def)
    have "\<forall>kv \<in> set ks. kvKey (hiKv it) \<le> kvKey kv"
    proof
      fix kv assume "kv \<in> set ks"
      then have "kv \<in># remaining ?h" using ks(2) by (metis set_mset_mset)
      then show "kvKey (hiKv it) \<le> kvKey kv"
        using remaining_least [OF _ least] rf unfolding good_heap_def item_key_def by blast
    qed
    then have "sorted (map kvKey (hiKv it # ks))" using ks(1) by simp
    moreover have "mset (hiKv it # ks) = remaining h"
      using ks(2) rf pop(2) by (simp add: remaining_def)
    ultimately show ?thesis
      using ks(3) m take_pair_group [OF t, of ks] by (intro exI [of _ "hiKv it # ks"]) simp
  qed
qed

text \<open>The whole task: the groups of all the pairs of its files, if the result is not there yet.\<close>

lemma doReduce_writes:
  assumes "list_all2 (pairs_in d) files kvss" "can (tmp_name rid x)" "can (out_name rid)" "d (out_name rid) = None"
  shows "\<exists>ks. mset ks = mset (concat kvss) \<and> sorted (map kvKey ks) \<and>
    doReduce can rid files reducef x d = ((d(out_name rid \<mapsto> outputs reducef ks))(tmp_name rid x := None), True)"
proof -
  obtain segs runs where s: "fold (cut_file d) files [] = segs" "list_all2 run_at segs runs" "concat runs = concat kvss"
    using cut_files_runs [OF assms(1), of "[]"] by auto
  have "good_heap []" by (simp add: good_heap_def heap_ordered_def)
  from fill_good [OF s(2) this] have h: "good_heap (fold refill segs [])" "remaining (fold refill segs []) = mset (concat kvss)"
    using s(3) by (simp_all add: remaining_def)
  obtain ks where ks: "sorted (map kvKey ks)" "mset ks = mset (concat kvss)"
    "merge_loop reducef (fold refill segs []) [] [] False [] = outputs reducef ks"
    using merge_sorts [OF h(1), of reducef "[]" "[]" False "[]"] h(2) group_out_outputs by auto
  have "doReduce can rid files reducef x d = ((d(out_name rid \<mapsto> outputs reducef ks))(tmp_name rid x := None), True)"
    using assms(2-4) ks(3) s(1) name_neq(1) [of rid x rid] by (auto simp: doReduce_def Let_def fun_eq_iff)
  then show ?thesis using ks by blast
qed

text \<open>Once a result is there no run touches it, and no run reports.\<close>

lemma doReduce_taken:
  assumes "d (out_name rid) \<noteq> None"
  shows "snd (doReduce can rid files reducef x d) = False"
    "g \<noteq> tmp_name rid x \<Longrightarrow> fst (doReduce can rid files reducef x d) g = d g"
  using assms name_neq(1) [of rid x rid] by (auto simp: doReduce_def Let_def)

lemma doReduce_only:
  "\<lbrakk>g \<noteq> tmp_name rid x; g \<noteq> out_name rid\<rbrakk> \<Longrightarrow> fst (doReduce can rid files reducef x d) g = d g"
  by (auto simp: doReduce_def Let_def)

end
