(* ===== verification/MR_Worker.thy ===== *)
theory MR_Worker
  imports MR_Service MR_Reduce
begin

text \<open>
  The worker loop (Worker of src/src/mr/worker.go) and a whole MapReduce job: one coordinator, a
  directory shared by any number of workers, and the messages between them. Workers may be slow,
  die at any point, leave files behind, and have reports that come late, twice or never.
\<close>

section \<open>One turn of a worker\<close>

text \<open>How a turn ends; \<open>Idle\<close> is the \<open>continue\<close> after a reduce task that did not succeed.\<close>

datatype turnEnd = Exited nat | Slept | Reports mrEvent | Idle | Panicked

record worker =
  wSort :: "KeyValue list \<Rightarrow> KeyValue list"
  wCan :: "string \<Rightarrow> bool"
  wMap :: "string \<Rightarrow> string \<Rightarrow> KeyValue list"
  wReduce :: reducer

definition map_turn :: "worker \<Rightarrow> nat \<Rightarrow> GetTaskReply \<Rightarrow> fs \<Rightarrow> fs \<times> turnEnd" where
  "map_turn w randID p d =
     (if trNReduce p < 0 \<and> d (trMapFile p) \<noteq> None then (d, Panicked)
      else case doMap (wSort w) (wCan w) (wMap w) (trMapFile p) (nat (trNReduce p)) randID d of
             None \<Rightarrow> (d, Panicked)
           | Some (d', None) \<Rightarrow> (d', Exited 1)
           | Some (d', Some files) \<Rightarrow> (d', Reports (MapReport (trMapFile p) files)))"

definition reduce_turn :: "worker \<Rightarrow> nat \<Rightarrow> GetTaskReply \<Rightarrow> fs \<Rightarrow> fs \<times> turnEnd" where
  "reduce_turn w randID p d =
     (case doReduce (wCan w) (nat (trReduceID p)) (trFiles p) (wReduce w) randID d of
        (d', ok) \<Rightarrow> (d', if ok then Reports (ReduceReport (trReduceID p)) else Idle))"

text \<open>
  How a remote call ends: \<open>call\<close> exits the process when it cannot even dial, and is false when the
  call fails.
\<close>

datatype rpc = RpcNoDial | RpcFailed | RpcReply GetTaskReply

text \<open>The body of the loop, from the request for a task on.\<close>

definition worker_turn :: "worker \<Rightarrow> nat \<Rightarrow> rpc \<Rightarrow> fs \<Rightarrow> fs \<times> turnEnd" where
  "worker_turn w randID r d =
     (case r of
        RpcNoDial \<Rightarrow> (d, Exited 1)
      | RpcFailed \<Rightarrow> (d, Exited 0)
      | RpcReply p \<Rightarrow>
          (case trKind p of
             ExitTask \<Rightarrow> (d, Exited 0)
           | WaitTask \<Rightarrow> (d, Slept)
           | MapTask \<Rightarrow> map_turn w randID p d
           | ReduceTask \<Rightarrow> reduce_turn w randID p d))"

section \<open>The job\<close>

text \<open>
  The replies some worker has, the reports some worker has sent, and the numbers \<open>rng.Int63()\<close> has
  produced, which are taken to be different for every run.
\<close>

record mrSys =
  mCoord :: coord
  mFs :: fs
  mReplies :: "GetTaskReply set"
  mReports :: "mrEvent set"
  mUsed :: "nat set"

fun sent :: "turnEnd \<Rightarrow> mrEvent set" where
  "sent (Reports e) = {e}"
| "sent _ = {}"

fun timed :: "mrEvent \<Rightarrow> bool" where
  "timed (Ask _) = True"
| "timed (Scan _) = True"
| "timed _ = False"

text \<open>Files of the run \<open>x\<close>, and temporary files of any run.\<close>

definition own_name :: "nat \<Rightarrow> string \<Rightarrow> bool" where
  "own_name x g \<longleftrightarrow> (\<exists>r. g = map_name r x) \<or> (\<exists>r y. g = tmp_name r y)"

inductive mr_step :: "worker \<Rightarrow> mrSys \<Rightarrow> mrSys \<Rightarrow> bool" for w where
  serve: "\<lbrakk>timed e \<or> e \<in> mReports s; coord_step e (mCoord s) = Some (rs, c)\<rbrakk> \<Longrightarrow>
    mr_step w s (s\<lparr>mCoord := c, mReplies := mReplies s \<union> set rs\<rparr>)"
| work: "\<lbrakk>p \<in> mReplies s; x \<notin> mUsed s; worker_turn w x (RpcReply p) (mFs s) = (d, e)\<rbrakk> \<Longrightarrow>
    mr_step w s (s\<lparr>mFs := d, mUsed := insert x (mUsed s), mReports := mReports s \<union> sent e\<rparr>)"
| mute: "\<lbrakk>p \<in> mReplies s; x \<notin> mUsed s; worker_turn w x (RpcReply p) (mFs s) = (d, e)\<rbrakk> \<Longrightarrow>
    mr_step w s (s\<lparr>mFs := d, mUsed := insert x (mUsed s)\<rparr>)"
| die: "\<lbrakk>x \<notin> mUsed s; \<forall>g. \<not> own_name x g \<longrightarrow> d g = mFs s g\<rbrakk> \<Longrightarrow>
    mr_step w s (s\<lparr>mFs := d, mUsed := insert x (mUsed s)\<rparr>)"

inductive mr_steps :: "worker \<Rightarrow> mrSys \<Rightarrow> mrSys \<Rightarrow> bool" for w where
  here: "mr_steps w s s"
| more: "\<lbrakk>mr_steps w s s'; mr_step w s' s''\<rbrakk> \<Longrightarrow> mr_steps w s s''"

definition mr_start :: "string list \<Rightarrow> nat \<Rightarrow> fs \<Rightarrow> mrSys \<Rightarrow> bool" where
  "mr_start files n d0 s \<longleftrightarrow>
     MakeCoordinator files (int n) = Some (mCoord s) \<and> mFs s = d0 \<and> mReplies s = {} \<and> mReports s = {} \<and> mUsed s = {}"

text \<open>
  What a job needs: distinct inputs that exist and are not named like the job's own files, an
  output directory without results, a sort that sorts, pairs that can be read back from a line,
  and a Reduce function that does not look at the order of the values.
\<close>

definition own_file :: "string \<Rightarrow> bool" where
  "own_file g \<longleftrightarrow> (\<exists>r x. g = map_name r x) \<or> (\<exists>r x. g = tmp_name r x) \<or> (\<exists>r. g = out_name r)"

definition mr_job :: "worker \<Rightarrow> string list \<Rightarrow> nat \<Rightarrow> fs \<Rightarrow> bool" where
  "mr_job w files n d0 \<longleftrightarrow>
     distinct files \<and> files \<noteq> [] \<and> 0 < n \<and> sorts (wSort w) \<and> order_blind (wReduce w) \<and>
     (\<forall>f \<in> set files. d0 f \<noteq> None \<and> \<not> own_file f \<and> (\<forall>kv \<in> set (wMap w f (the (d0 f))). clean kv)) \<and>
     (\<forall>r. d0 (out_name r) = None)"

section \<open>What is in the directory\<close>

definition pairs_of_file :: "worker \<Rightarrow> fs \<Rightarrow> string \<Rightarrow> KeyValue list" where
  "pairs_of_file w d0 f = wMap w f (the (d0 f))"

definition all_pairs :: "worker \<Rightarrow> fs \<Rightarrow> string list \<Rightarrow> KeyValue list" where
  "all_pairs w d0 files = concat (map (pairs_of_file w d0) files)"

definition map_done :: "worker \<Rightarrow> nat \<Rightarrow> fs \<Rightarrow> string \<Rightarrow> nat \<Rightarrow> fs \<Rightarrow> bool" where
  "map_done w n d0 f x d \<longleftrightarrow>
     (\<forall>r < n. \<exists>out. d (map_name r x) = Some out \<and> holds_pairs out (filter (in_part n r) (pairs_of_file w d0 f)))"

definition right_out :: "worker \<Rightarrow> string list \<Rightarrow> nat \<Rightarrow> fs \<Rightarrow> nat \<Rightarrow> string" where
  "right_out w files n d0 r = outputs (wReduce w) (filter (in_part n r) (all_pairs w d0 files))"

definition mr_inv :: "worker \<Rightarrow> string list \<Rightarrow> nat \<Rightarrow> fs \<Rightarrow> mrSys \<Rightarrow> bool" where
  "mr_inv w files n d0 s \<longleftrightarrow>
     (\<exists>es replies. coord_session files (int n) es = Some (replies, mCoord s) \<and> set replies = mReplies s \<and>
        (\<forall>e \<in> set es. timed e \<or> e \<in> mReports s)) \<and>
     (\<forall>f \<in> set files. mFs s f = d0 f) \<and>
     (\<forall>f outs. MapReport f outs \<in> mReports s \<longrightarrow> (\<exists>x \<in> mUsed s. outs = map_path n x \<and> map_done w n d0 f x (mFs s))) \<and>
     (\<forall>r. ReduceReport r \<in> mReports s \<longrightarrow> mFs s (out_name (nat r)) \<noteq> None) \<and>
     (\<forall>r < n. mFs s (out_name r) = None \<or> mFs s (out_name r) = Some (right_out w files n d0 r))"

text \<open>Every step leaves the files of earlier runs and the results alone.\<close>

lemma map_done_keep:
  assumes "map_done w n d0 f x d" "\<forall>r. d' (map_name r x) = d (map_name r x)"
  shows "map_done w n d0 f x d'"
  using assms by (simp add: map_done_def)

lemma own_file_names: "\<not> own_file f \<Longrightarrow> f \<noteq> map_name r x \<and> f \<noteq> tmp_name r x \<and> f \<noteq> out_name r"
  by (auto simp: own_file_def)

lemma tmp_name_neq: "tmp_name r x \<noteq> map_name r' x'" "out_name r \<noteq> map_name r' x'" "out_name r \<noteq> tmp_name r' x'"
  using name_neq by metis+

lemma map_turn_only:
  assumes "map_turn w x p d = (d', e)" "\<forall>r. g \<noteq> map_name r x"
  shows "d' g = d g"
proof -
  have "g \<notin> set (map_path (nat (trNReduce p)) x)" using assms(2) by auto
  then show ?thesis
    using assms(1) doMap_only [of "wSort w" "wCan w" "wMap w" "trMapFile p" "nat (trNReduce p)" x d d' _ g]
    by (auto simp: map_turn_def split: if_splits option.splits)
qed

lemma reduce_turn_only:
  assumes "reduce_turn w x p d = (d', e)" "g \<noteq> tmp_name (nat (trReduceID p)) x" "g \<noteq> out_name (nat (trReduceID p))"
  shows "d' g = d g"
  using doReduce_only [OF assms(2,3), of "wCan w" "trFiles p" "wReduce w" d] assms(1)
  by (auto simp: reduce_turn_def split: prod.splits)

lemma reduce_turn_taken:
  assumes "reduce_turn w x p d = (d', e)" "d (out_name r) \<noteq> None"
  shows "d' (out_name r) = d (out_name r)" "nat (trReduceID p) = r \<Longrightarrow> sent e = {}"
proof -
  obtain ok where ok: "doReduce (wCan w) (nat (trReduceID p)) (trFiles p) (wReduce w) x d = (d', ok)"
    using assms(1) by (auto simp: reduce_turn_def split: prod.splits)
  show "d' (out_name r) = d (out_name r)"
  proof (cases "r = nat (trReduceID p)")
    case True
    then show ?thesis using doReduce_taken(2) [of d r "out_name r" x, OF assms(2) tmp_name_neq(3)] ok by (metis fst_conv)
  next
    case False
    then show ?thesis using reduce_turn_only [OF assms(1) tmp_name_neq(3)] by (simp add: out_name_inj)
  qed
  show "nat (trReduceID p) = r \<Longrightarrow> sent e = {}"
  proof -
    assume "nat (trReduceID p) = r"
    then have "\<not> ok" using doReduce_taken(1) [of d r, OF assms(2)] ok by (metis snd_conv)
    then show "sent e = {}" using assms(1) ok by (auto simp: reduce_turn_def)
  qed
qed

text \<open>What a turn does, whichever task it was.\<close>

lemma worker_turn_only:
  assumes "worker_turn w x (RpcReply p) d = (d', e)"
  shows "\<not> own_file g \<Longrightarrow> d' g = d g" "y \<noteq> x \<Longrightarrow> d' (map_name r y) = d (map_name r y)"
    "d (out_name r) \<noteq> None \<Longrightarrow> d' (out_name r) = d (out_name r)"
proof -
  show "\<not> own_file g \<Longrightarrow> d' g = d g"
    using assms own_file_names map_turn_only reduce_turn_only
    by (auto simp: worker_turn_def split: replyKind.splits)
  show "y \<noteq> x \<Longrightarrow> d' (map_name r y) = d (map_name r y)"
    using assms map_turn_only [of w x p d d' e "map_name r y"] reduce_turn_only [of w x p d d' e "map_name r y"] name_neq
    by (auto simp: worker_turn_def map_name_inj split: replyKind.splits)
  show "d (out_name r) \<noteq> None \<Longrightarrow> d' (out_name r) = d (out_name r)"
    using assms map_turn_only [of w x p d d' e "out_name r"] reduce_turn_taken(1) [of w x p d d' e r] tmp_name_neq
    by (auto simp: worker_turn_def split: replyKind.splits)
qed

lemma sent_kind:
  assumes "worker_turn w x (RpcReply p) d = (d', e)" "ev \<in> sent e"
  shows "(\<exists>outs. ev = MapReport (trMapFile p) outs \<and> trKind p = MapTask) \<or> (ev = ReduceReport (trReduceID p) \<and> trKind p = ReduceTask)"
  using assms
  by (auto simp: worker_turn_def map_turn_def reduce_turn_def split: replyKind.splits if_splits option.splits prod.splits)
section \<open>The invariant\<close>

text \<open>Histories of the coordinator grow at the end.\<close>

lemma coord_run_snoc:
  "coord_run es c = Some (rs, c1) \<Longrightarrow> coord_step e c1 = Some (rs', c2) \<Longrightarrow> coord_run (es @ [e]) c = Some (rs @ rs', c2)"
proof (induction es arbitrary: c rs)
  case (Cons x es)
  obtain r0 c0 r1 where *: "coord_step x c = Some (r0, c0)" "coord_run es c0 = Some (r1, c1)" "rs = r0 @ r1"
    using Cons.prems(1) by (auto split: bind_splits)
  then show ?case using Cons.IH [OF *(2) Cons.prems(2)] by simp
qed simp

lemma coord_session_snoc:
  assumes "coord_session files n es = Some (rs, c1)" "coord_step e c1 = Some (rs', c2)"
  shows "coord_session files n (es @ [e]) = Some (rs @ rs', c2)"
proof -
  obtain c0 where "MakeCoordinator files n = Some c0" "coord_run es c0 = Some (rs, c1)"
    using assms(1) by (auto simp: coord_session_def split: bind_splits)
  then show ?thesis using coord_run_snoc [OF _ assms(2)] by (simp add: coord_session_def)
qed

lemma mr_inv_start:
  assumes "mr_job w files n d0" "mr_start files n d0 s"
  shows "mr_inv w files n d0 s"
proof -
  have "coord_session files (int n) [] = Some ([], mCoord s)" using assms(2) by (simp add: mr_start_def coord_session_def)
  then have "\<exists>es replies. coord_session files (int n) es = Some (replies, mCoord s) \<and> set replies = mReplies s \<and>
        (\<forall>e \<in> set es. timed e \<or> e \<in> mReports s)"
    using assms(2) by (intro exI [of _ "[]"]) (simp add: mr_start_def)
  then show ?thesis using assms by (simp add: mr_inv_def mr_start_def mr_job_def)
qed

text \<open>The parts of the invariant that a change of the directory has to keep.\<close>

lemma mr_inv_fs:
  assumes inv: "mr_inv w files n d0 s" and job: "mr_job w files n d0" and fresh: "x \<notin> mUsed s"
    and inputs: "\<And>g. \<not> own_file g \<Longrightarrow> d g = mFs s g"
    and maps: "\<And>r y. y \<noteq> x \<Longrightarrow> d (map_name r y) = mFs s (map_name r y)"
    and outs: "\<And>r. mFs s (out_name r) \<noteq> None \<Longrightarrow> d (out_name r) = mFs s (out_name r)"
    and new_out: "\<And>r. r < n \<Longrightarrow> mFs s (out_name r) = None \<Longrightarrow> d (out_name r) = None \<or> d (out_name r) = Some (right_out w files n d0 r)"
    and new_map: "\<And>f outs. MapReport f outs \<in> E \<Longrightarrow> outs = map_path n x \<and> map_done w n d0 f x d"
    and new_red: "\<And>r. ReduceReport r \<in> E \<Longrightarrow> d (out_name (nat r)) \<noteq> None"
  shows "mr_inv w files n d0 (s\<lparr>mFs := d, mUsed := insert x (mUsed s), mReports := mReports s \<union> E\<rparr>)"
proof -
  note i = inv [unfolded mr_inv_def]
  have "\<forall>f \<in> set files. d f = d0 f" using i inputs job by (auto simp: mr_job_def)
  moreover have "\<exists>y \<in> insert x (mUsed s). outs = map_path n y \<and> map_done w n d0 f y d" if rep: "MapReport f outs \<in> mReports s \<union> E" for f outs
  proof (cases "MapReport f outs \<in> E")
    case True
    then show ?thesis using new_map by blast
  next
    case False
    then obtain y where y: "y \<in> mUsed s" "outs = map_path n y" "map_done w n d0 f y (mFs s)" using i rep by blast
    then have "y \<noteq> x" using fresh by blast
    then have "map_done w n d0 f y d" using map_done_keep [OF y(3)] maps by blast
    then show ?thesis using y by blast
  qed
  moreover have "d (out_name (nat r)) \<noteq> None" if "ReduceReport r \<in> mReports s \<union> E" for r
  proof (cases "ReduceReport r \<in> E")
    case False
    then have "mFs s (out_name (nat r)) \<noteq> None" using i that by blast
    then show ?thesis using outs by simp
  qed (rule new_red)
  moreover have "d (out_name r) = None \<or> d (out_name r) = Some (right_out w files n d0 r)" if "r < n" for r
    using i that outs [of r] new_out [of r] by (cases "mFs s (out_name r)") auto
  moreover have "\<exists>es replies. coord_session files (int n) es = Some (replies, mCoord s) \<and> set replies = mReplies s \<and>
        (\<forall>e \<in> set es. timed e \<or> e \<in> mReports s \<union> E)" using i by blast
  ultimately show ?thesis unfolding mr_inv_def by simp
qed

text \<open>A map task that is reported has written its partitions.\<close>

lemma map_turn_writes:
  assumes "mr_job w files n d0" "f \<in> set files" "d f = d0 f" "trMapFile p = f" "trNReduce p = int n"
    "map_turn w x p d = (d', Reports (MapReport g outs))"
  shows "g = f \<and> outs = map_path n x \<and> map_done w n d0 f x d'"
proof -
  have dm: "doMap (wSort w) (wCan w) (wMap w) f n x d = Some (d', Some outs)" and g: "g = f"
    using assms(4-6) by (auto simp: map_turn_def split: if_splits option.splits)
  have o: "outs = map_path n x" by (rule doMap_result [OF dm])
  obtain content where content: "d f = Some content" "d0 f = Some content"
    using assms(1-3) by (auto simp: mr_job_def)
  have "snd (create_files (wCan w) (map_path n x) d)"
    using dm content by (auto simp: doMap_def Let_def split: prod.splits if_splits)
  from create_files_can [OF this] have can: "\<forall>r < n. wCan w (map_name r x)" by simp
  from doMap_writes [of "wSort w" n "wCan w" x d f content "wMap w"] can content(1) assms(1) dm
  show ?thesis using g o content by (auto simp: mr_job_def map_done_def pairs_of_file_def)
qed
text \<open>A reduce task reads one right file from every map.\<close>

lemma mset_sum_filter: "mset (filter P (concat xss)) = (\<Sum>xs \<in># mset xss. mset (filter P xs))"
  by (induction xss) auto

lemma reduce_inputs:
  assumes job: "mr_job w files n d0" and acc: "distinct (map fst acc)" "fst ` set acc = set files"
    and out: "\<forall>(f, outs) \<in> set acc. \<exists>x. outs = map_path n x \<and> map_done w n d0 f x d"
    and r: "r < n"
  shows "\<exists>kvss. list_all2 (pairs_in d) (outs_for (int r) acc) kvss \<and>
    mset (concat kvss) = mset (filter (in_part n r) (all_pairs w d0 files))"
proof -
  let ?part = "\<lambda>f. filter (in_part n r) (pairs_of_file w d0 f)"
  have one: "\<exists>kvs. pick (int r) outs = [outs ! r] \<and> pairs_in d (outs ! r) kvs \<and> mset kvs = mset (?part f)"
    if fo: "(f, outs) \<in> set acc" for f outs
  proof -
    obtain x where x: "outs = map_path n x" "map_done w n d0 f x d" using out fo by blast
    then obtain content where c: "d (map_name r x) = Some content" "holds_pairs content (?part f)"
      using r unfolding map_done_def by blast
    then obtain rs where rs: "content = concat (map print_kv (concat rs))" "mset (concat rs) = mset (?part f)"
      by (auto simp: holds_pairs_def)
    have "f \<in> set files" using acc(2) fo by force
    then have "\<forall>kv \<in> set (concat rs). clean kv"
      using job mset_eq_setD [OF rs(2)] by (auto simp: mr_job_def pairs_of_file_def)
    then have "pairs_in d (outs ! r) (concat rs)" using c(1) rs(1) x(1) r by (simp add: pairs_in_def)
    moreover have "pick (int r) outs = [outs ! r]" using x(1) r by (simp add: pick_def map_name_def)
    ultimately show ?thesis using rs(2) by blast
  qed
  have all: "\<exists>kvss. list_all2 (pairs_in d) (outs_for (int r) as) kvss \<and> mset (concat kvss) = (\<Sum>f \<in># mset (map fst as). mset (?part f))"
    if "set as \<subseteq> set acc" for as
    using that
  proof (induction as)
    case Nil
    show ?case by (intro exI [of _ "[]"]) (simp add: outs_for_def)
  next
    case (Cons a as)
    obtain f outs where a: "a = (f, outs)" by fastforce
    obtain kvs where k: "pick (int r) outs = [outs ! r]" "pairs_in d (outs ! r) kvs" "mset kvs = mset (?part f)"
      using one [of f outs] Cons.prems unfolding a by (meson list.set_intros(1) subsetD)
    obtain kvss where "list_all2 (pairs_in d) (outs_for (int r) as) kvss"
      "mset (concat kvss) = (\<Sum>f \<in># mset (map fst as). mset (?part f))" using Cons by auto
    then show ?case using k a by (intro exI [of _ "kvs # kvss"]) (simp add: outs_for_def)
  qed
  obtain kvss where kvss: "list_all2 (pairs_in d) (outs_for (int r) acc) kvss"
    "mset (concat kvss) = (\<Sum>f \<in># mset (map fst acc). mset (?part f))" using all [of acc] by blast
  have "mset (map fst acc) = mset files"
    using acc job by (intro set_eq_iff_mset_eq_distinct [THEN iffD1]) (auto simp: mr_job_def)
  moreover have "mset (filter (in_part n r) (all_pairs w d0 files)) = (\<Sum>f \<in># mset files. mset (?part f))"
    unfolding all_pairs_def mset_sum_filter by (simp add: image_mset.compositionality comp_def flip: mset_map)
  ultimately show ?thesis using kvss by (metis (no_types, lifting))
qed

lemma reduce_turn_writes:
  assumes job: "mr_job w files n d0" and r: "r < n" "trReduceID p = int r" and none: "d (out_name r) = None"
    and ins: "list_all2 (pairs_in d) (trFiles p) kvss" "mset (concat kvss) = mset (filter (in_part n r) (all_pairs w d0 files))"
    and turn: "reduce_turn w x p d = (d', e)"
  shows "(d' (out_name r) = None \<and> sent e = {}) \<or> d' (out_name r) = Some (right_out w files n d0 r)"
proof (cases "wCan w (tmp_name r x) \<and> wCan w (out_name r)")
  case True
  obtain ks where ks: "mset ks = mset (concat kvss)"
    "doReduce (wCan w) r (trFiles p) (wReduce w) x d = ((d(out_name r \<mapsto> outputs (wReduce w) ks))(tmp_name r x := None), True)"
    using doReduce_writes [OF ins(1), of "wCan w" r x "wReduce w"] True none by auto
  have "outputs (wReduce w) ks = right_out w files n d0 r"
    unfolding right_out_def using job ks(1) ins(2) by (intro outputs_mset) (auto simp: mr_job_def)
  then show ?thesis using turn ks(2) r(2) tmp_name_neq(3) by (auto simp: reduce_turn_def)
next
  case False
  then have "snd (doReduce (wCan w) r (trFiles p) (wReduce w) x d) = False \<and>
      fst (doReduce (wCan w) r (trFiles p) (wReduce w) x d) (out_name r) = None"
    using none tmp_name_neq(3) name_neq(1) by (auto simp: doReduce_def Let_def)
  then show ?thesis using turn r(2) by (auto simp: reduce_turn_def split: prod.splits)
qed

section \<open>Every step keeps it\<close>

lemma mr_inv_replies:
  assumes "mr_inv w files n d0 s" "mr_job w files n d0"
  shows "\<exists>acc. distinct (map fst acc) \<and>
    (\<forall>(f, outs) \<in> set acc. \<exists>x. outs = map_path n x \<and> map_done w n d0 f x (mFs s)) \<and>
    (\<forall>p \<in> mReplies s. trKind p = MapTask \<longrightarrow> trMapFile p \<in> set files \<and> trNReduce p = int n) \<and>
    (\<forall>p \<in> mReplies s. trKind p = ReduceTask \<longrightarrow>
       fst ` set acc = set files \<and> (\<exists>r < n. trReduceID p = int r \<and> trFiles p = outs_for (int r) acc)) \<and>
    (Done (mCoord s) \<or> (\<exists>p \<in> mReplies s. trKind p = ExitTask) \<longrightarrow> (\<forall>r < n. ReduceReport (int r) \<in> mReports s))"
proof -
  note i = assms(1) [unfolded mr_inv_def]
  obtain es replies where h: "coord_session files (int n) es = Some (replies, mCoord s)" "set replies = mReplies s"
    "\<forall>e \<in> set es. timed e \<or> e \<in> mReports s" using i by blast
  have "distinct files" using assms(2) by (simp add: mr_job_def)
  note phases = session_phases [OF this h(1), unfolded h(2)]
  have sent: "MapReport f outs \<in> set es \<Longrightarrow> MapReport f outs \<in> mReports s" "ReduceReport r \<in> set es \<Longrightarrow> ReduceReport r \<in> mReports s" for f outs r
    using h(3) by force+
  show ?thesis
    using phases
  proof (elim ex_forward conjE, intro conjI)
    fix acc assume "\<forall>(f, outs) \<in> set acc. MapReport f outs \<in> set es"
    then have "\<forall>(f, outs) \<in> set acc. MapReport f outs \<in> mReports s" using sent(1) by blast
    then show "\<forall>(f, outs) \<in> set acc. \<exists>x. outs = map_path n x \<and> map_done w n d0 f x (mFs s)" using i by blast
  next
    fix acc assume "\<forall>p \<in> mReplies s. trKind p = ReduceTask \<longrightarrow>
       fst ` set acc = set files \<and> 0 \<le> trReduceID p \<and> trReduceID p < int n \<and> trFiles p = outs_for (trReduceID p) acc"
    then show "\<forall>p \<in> mReplies s. trKind p = ReduceTask \<longrightarrow>
       fst ` set acc = set files \<and> (\<exists>r < n. trReduceID p = int r \<and> trFiles p = outs_for (int r) acc)"
      by (metis nonneg_int_cases of_nat_less_iff)
  next
    fix acc
    assume e: "\<forall>p \<in> mReplies s. trKind p = ExitTask \<longrightarrow>
       fst ` set acc = set files \<and>
       (\<forall>r \<in> {0..<int n}. ReduceReport r \<in> set es \<and> (\<exists>q \<in> mReplies s. trKind q = ReduceTask \<and> trReduceID q = r))"
      "Done (mCoord s) \<longrightarrow> (\<forall>r \<in> {0..<int n}. ReduceReport r \<in> set es)"
    show "Done (mCoord s) \<or> (\<exists>p \<in> mReplies s. trKind p = ExitTask) \<longrightarrow> (\<forall>r < n. ReduceReport (int r) \<in> mReports s)"
    proof (intro impI allI)
      fix r assume "Done (mCoord s) \<or> (\<exists>p \<in> mReplies s. trKind p = ExitTask)" "r < n"
      moreover have "int r \<in> {0..<int n}" using \<open>r < n\<close> by simp
      ultimately have "ReduceReport (int r) \<in> set es" using e by blast
      then show "ReduceReport (int r) \<in> mReports s" by (rule sent)
    qed
  qed
qed

text \<open>A turn with a reply some worker has.\<close>

lemma work_inv:
  assumes inv: "mr_inv w files n d0 s" and job: "mr_job w files n d0" and p: "p \<in> mReplies s" and x: "x \<notin> mUsed s"
    and turn: "worker_turn w x (RpcReply p) (mFs s) = (d, e)" and E: "E \<subseteq> sent e"
  shows "mr_inv w files n d0 (s\<lparr>mFs := d, mUsed := insert x (mUsed s), mReports := mReports s \<union> E\<rparr>)"
proof -
  obtain acc where acc: "distinct (map fst acc)"
    "\<forall>(f, outs) \<in> set acc. \<exists>x. outs = map_path n x \<and> map_done w n d0 f x (mFs s)"
    and mps: "\<forall>p \<in> mReplies s. trKind p = MapTask \<longrightarrow> trMapFile p \<in> set files \<and> trNReduce p = int n"
    and rds: "\<forall>p \<in> mReplies s. trKind p = ReduceTask \<longrightarrow>
       fst ` set acc = set files \<and> (\<exists>r < n. trReduceID p = int r \<and> trFiles p = outs_for (int r) acc)"
    using mr_inv_replies [OF inv job] by (elim exE conjE) (rule that)
  note mp = mps [rule_format] and rd = rds [rule_format]
  note only = worker_turn_only [OF turn]
  have red: "\<exists>r < n. trReduceID p = int r \<and>
      (\<forall>r'. r' \<noteq> r \<longrightarrow> d (out_name r') = mFs s (out_name r')) \<and>
      (mFs s (out_name r) = None \<longrightarrow> (d (out_name r) = None \<and> sent e = {}) \<or> d (out_name r) = Some (right_out w files n d0 r))"
    if k: "trKind p = ReduceTask"
  proof -
    obtain r where r: "r < n" "trReduceID p = int r" "trFiles p = outs_for (int r) acc" "fst ` set acc = set files"
      using rd [OF p k] by blast
    obtain kvss where kv: "list_all2 (pairs_in (mFs s)) (outs_for (int r) acc) kvss"
      "mset (concat kvss) = mset (filter (in_part n r) (all_pairs w d0 files))"
      using reduce_inputs [OF job acc(1) r(4) acc(2) r(1)] by blast
    have t: "reduce_turn w x p (mFs s) = (d, e)" using turn k by (simp add: worker_turn_def)
    have "d (out_name r') = mFs s (out_name r')" if "r' \<noteq> r" for r'
      using reduce_turn_only [OF t, of "out_name r'"] tmp_name_neq(3) that r(2) by (simp add: out_name_inj)
    moreover have "(d (out_name r) = None \<and> sent e = {}) \<or> d (out_name r) = Some (right_out w files n d0 r)" if "mFs s (out_name r) = None"
      using reduce_turn_writes [OF job r(1,2) that _ kv(2) t] kv(1) r(3) by simp
    ultimately show ?thesis using r(1,2) by (intro exI [of _ r]) simp
  qed
  show ?thesis
  proof (rule mr_inv_fs [OF inv job x])
    show "d (out_name r) = None \<or> d (out_name r) = Some (right_out w files n d0 r)" if "r < n" "mFs s (out_name r) = None" for r
    proof (cases "trKind p = ReduceTask")
      case True
      show ?thesis
      proof (rule ccontr)
        assume "\<not> ?thesis"
        moreover obtain r0 where "\<forall>r'. r' \<noteq> r0 \<longrightarrow> d (out_name r') = mFs s (out_name r')"
          "mFs s (out_name r0) = None \<longrightarrow> (d (out_name r0) = None \<and> sent e = {}) \<or> d (out_name r0) = Some (right_out w files n d0 r0)"
          using red [OF True] by (elim exE conjE) (rule that)
        ultimately show False using that(2) by (cases "r = r0") simp_all
      qed
    next
      case False
      then have "d (out_name r) = mFs s (out_name r)"
        using turn map_turn_only [of w x p "mFs s" d e "out_name r"] tmp_name_neq
        by (auto simp: worker_turn_def split: replyKind.splits)
      then show ?thesis using that(2) by simp
    qed
    show "outs = map_path n x \<and> map_done w n d0 f x d" if "MapReport f outs \<in> E" for f outs
    proof -
      have s: "MapReport f outs \<in> sent e" using that E by blast
      then have k: "trKind p = MapTask" using sent_kind [OF turn s] by auto
      have e: "e = Reports (MapReport f outs)" using s by (cases e) auto
      have "map_turn w x p (mFs s) = (d, Reports (MapReport f outs))" using turn k e by (simp add: worker_turn_def)
      moreover have "mFs s (trMapFile p) = d0 (trMapFile p)" using inv mp [OF p k] by (simp add: mr_inv_def)
      ultimately show ?thesis using map_turn_writes [OF job _ _ refl] mp [OF p k] by blast
    qed
    show "d (out_name (nat r)) \<noteq> None" if "ReduceReport r \<in> E" for r
    proof -
      have s: "ReduceReport r \<in> sent e" using that E by blast
      then have k: "trKind p = ReduceTask" "trReduceID p = r" using sent_kind [OF turn s] by auto
      then show ?thesis using red [OF k(1)] s only(3) [of "nat r"] by (cases "mFs s (out_name (nat r)) = None") fastforce+
    qed
  qed (use only in blast)+
qed

lemma own_name_parts: "own_name x g \<Longrightarrow> own_file g" "y \<noteq> x \<Longrightarrow> \<not> own_name x (map_name r y)" "\<not> own_name x (out_name r)"
  by (auto simp: own_name_def own_file_def map_name_inj name_neq tmp_name_neq)

lemma mr_step_inv:
  assumes "mr_step w s s'" "mr_inv w files n d0 s" "mr_job w files n d0"
  shows "mr_inv w files n d0 s'"
  using assms(1)
proof cases
  case (serve e rs c)
  note i = assms(2) [unfolded mr_inv_def]
  obtain es replies where h: "coord_session files (int n) es = Some (replies, mCoord s)" "set replies = mReplies s"
    "\<forall>e \<in> set es. timed e \<or> e \<in> mReports s" using i by blast
  have "coord_session files (int n) (es @ [e]) = Some (replies @ rs, c)" by (rule coord_session_snoc [OF h(1) serve(3)])
  then have "\<exists>es replies. coord_session files (int n) es = Some (replies, c) \<and> set replies = mReplies s \<union> set rs \<and>
      (\<forall>e \<in> set es. timed e \<or> e \<in> mReports s)"
    using h(2,3) serve(2) by (intro exI [of _ "es @ [e]"] exI [of _ "replies @ rs"]) auto
  then show ?thesis using i unfolding serve(1) mr_inv_def by simp
next
  case (work p x d e)
  then show ?thesis using work_inv [OF assms(2,3) work(2-4) order_refl] by simp
next
  case (mute p x d e)
  have "mr_inv w files n d0 (s\<lparr>mFs := d, mUsed := insert x (mUsed s), mReports := mReports s \<union> {}\<rparr>)"
    by (rule work_inv [OF assms(2,3) mute(2-4)]) simp
  then show ?thesis by (simp add: mute(1))
next
  case (die x d)
  have "mr_inv w files n d0 (s\<lparr>mFs := d, mUsed := insert x (mUsed s), mReports := mReports s \<union> {}\<rparr>)"
    using die(3) own_name_parts by (intro mr_inv_fs [OF assms(2,3) die(2)]) auto
  then show ?thesis by (simp add: die(1))
qed

lemma mr_steps_inv:
  "mr_steps w s s' \<Longrightarrow> mr_inv w files n d0 s \<Longrightarrow> mr_job w files n d0 \<Longrightarrow> mr_inv w files n d0 s'"
  by (induction rule: mr_steps.induct) (auto intro: mr_step_inv)

end
