(* ===== verification/MR_Finish.thy ===== *)
theory MR_Finish
  imports MR_Worker
begin

text \<open>
  When a job can still finish: a worker that starts now drives any job to its end, unless some
  earlier worker has linked a result and died before it reported it.
\<close>

section \<open>The coordinator as its abstract job\<close>

definition after :: "string list \<Rightarrow> nat \<Rightarrow> mrEvent list \<Rightarrow> job" where
  "after files n es = snd (job_run es (job_init files (int n)))"

lemma job_run_snoc:
  "snd (job_run (es @ [e]) j) = snd (job_step e (snd (job_run es j)))"
  by (induction es arbitrary: j) (simp_all add: Let_def case_prod_beta)

lemma after_snoc: "after files n (es @ [e]) = snd (job_step e (after files n es))"
  by (simp add: after_def job_run_snoc)

text \<open>The coordinator of \<open>s\<close> has come through the events \<open>es\<close>.\<close>

definition at_job :: "string list \<Rightarrow> nat \<Rightarrow> mrEvent list \<Rightarrow> mrSys \<Rightarrow> bool" where
  "at_job files n es s \<longleftrightarrow> (\<exists>replies. coord_session files (int n) es = Some (replies, mCoord s))"

lemma at_job_inv:
  assumes "at_job files n es s" "distinct files"
  obtains ps rs acc where "represents (mCoord s) ps rs (after files n es)" "job_inv files (int n) acc (after files n es)"
    "job_past (set es) (set (fst (job_run es (job_init files (int n))))) (int n) acc (after files n es)"
proof -
  obtain replies where r: "coord_session files (int n) es = Some (replies, mCoord s)" using assms(1) by (auto simp: at_job_def)
  show ?thesis
    by (rule session_inv [OF assms(2), of "int n" es]) (rule that; use r in \<open>simp add: after_def\<close>)
qed

text \<open>Any event the coordinator may see is a step of the job.\<close>

lemma serve_job:
  assumes "at_job files n es s" "distinct files" "timed e \<or> e \<in> mReports s"
  obtains s' where "mr_step w s s'" "at_job files n (es @ [e]) s'" "mFs s' = mFs s" "mReports s' = mReports s" "mUsed s' = mUsed s"
    "mReplies s' = mReplies s \<union> set (fst (job_step e (after files n es)))"
proof -
  obtain replies where h: "coord_session files (int n) es = Some (replies, mCoord s)" using assms(1) by (auto simp: at_job_def)
  obtain ps rs where r: "represents (mCoord s) ps rs (after files n es)"
    by (rule at_job_inv [OF assms(1,2)])
  obtain c where c: "coord_step e (mCoord s) = Some (fst (job_step e (after files n es)), c)"
    using coord_step_represents [OF r, of e] by blast
  let ?s = "s\<lparr>mCoord := c, mReplies := mReplies s \<union> set (fst (job_step e (after files n es)))\<rparr>"
  have "mr_step w s ?s" by (rule mr_step.serve [OF assms(3) c])
  moreover have "at_job files n (es @ [e]) ?s" using coord_session_snoc [OF h c] by (simp add: at_job_def)
  ultimately show ?thesis using that [of ?s] by simp
qed

lemma at_job_done:
  assumes "at_job files n es s" "distinct files"
  shows "Done (mCoord s) \<longleftrightarrow> jOver (after files n es)"
proof -
  obtain ps rs where "represents (mCoord s) ps rs (after files n es)" by (rule at_job_inv [OF assms])
  then show ?thesis by (simp add: represents_def shape_def Done_def)
qed

section \<open>A round of the job\<close>

text \<open>A scan when everything is late, a request, and the report of the task.\<close>

lemma round_job:
  assumes i: "job_inv files n acc j" "job_past E P n acc j" and late: "\<forall>(x, s) \<in> set (jGoing j). T - s \<ge> TaskTimeout"
  obtains (over) p j2 where "job_step (Ask T) (job_check T j) = ([p], j2)" "jOver j2"
  | (task) x j2 where "job_step (Ask T) (job_check T j) = ([task_reply n x], j2)"
      "\<forall>f. x = MapOf f \<longrightarrow> f \<in> set files \<and> (\<forall>outs. work_left (job_map f outs j2) < work_left j)"
      "\<forall>r fs. x = ReduceOf r fs \<longrightarrow> 0 \<le> r \<and> r < n \<and> work_left (job_reduce r j2) < work_left j"
proof -
  let ?j = "job_check T j" let ?o = "job_open ?j"
  have tk: "takeWhile (\<lambda>(x, s). T - s \<ge> TaskTimeout) (jGoing j) = jGoing j"
    and dk: "dropWhile (\<lambda>(x, s). T - s \<ge> TaskTimeout) (jGoing j) = []"
    using late by (auto simp: takeWhile_eq_all_conv dropWhile_eq_Nil_conv)
  have c: "?j = j\<lparr>jTodo := jTodo j @ map fst (jGoing j), jGoing := []\<rparr>" by (simp add: job_check_def Let_def tk dk)
  note ci = check_inv [OF i, of T]
  note oi = open_inv [OF ci]
  have wl: "work_left ?o \<le> work_left j"
    unfolding open_work_left [OF ci(1)] unfolding c by (simp add: work_left_def tasks_def)
  have g: "jGoing ?o = []" using oi(3) c by simp
  have n: "jReduces ?o = n" using oi(1) by (simp add: job_inv_def)
  show ?thesis
  proof (cases "jTodo ?o")
    case Nil
    then have "jReady ?o" using oi(4) g by (auto simp: tasks_def)
    then have "job_step (Ask T) ?j = ([zeroReply\<lparr>trKind := ExitTask\<rparr>], ?o\<lparr>jOver := True\<rparr>)"
      using Nil g by (simp add: job_get_def Let_def)
    then show ?thesis by (rule over) simp
  next
    case (Cons x ts)
    let ?j2 = "?o\<lparr>jTodo := ts, jGoing := [(x, T)]\<rparr>"
    have step: "job_step (Ask T) ?j = ([task_reply n x], ?j2)" using Cons g n by (simp add: job_get_def Let_def)
    have less: "2 * (length ts + (if jReady ?o then 0 else nat (jReduces ?o))) < work_left j"
      using wl Cons g by (simp add: work_left_def tasks_def)
    have x: "x \<in> set (tasks ?o)" using Cons by (simp add: tasks_def)
    show ?thesis
    proof (rule task [OF step])
      show "\<forall>f. x = MapOf f \<longrightarrow> f \<in> set files \<and> (\<forall>outs. work_left (job_map f outs ?j2) < work_left j)"
      proof (intro allI impI conjI)
        fix f assume f: "x = MapOf f"
        show "f \<in> set files" using x oi(1) f by (cases "jReady ?o") (auto simp: job_inv_def)
        have e: "work_left (job_map f outs ?j2) = 2 * (length ts + (if jReady ?o then 0 else nat (jReduces ?o)))" for outs
          using f by (simp add: job_map_def work_left_def tasks_def)
        show "work_left (job_map f outs ?j2) < work_left j" for outs unfolding e by (rule less)
      qed
      show "\<forall>r fs. x = ReduceOf r fs \<longrightarrow> 0 \<le> r \<and> r < n \<and> work_left (job_reduce r ?j2) < work_left j"
      proof (intro allI impI)
        fix r fs assume r: "x = ReduceOf r fs"
        have "jReady ?o" using x oi(1) r by (cases "jReady ?o") (auto simp: job_inv_def)
        then have "0 \<le> r \<and> r < n" using x oi(1) r by (auto simp: job_inv_def)
        moreover have "work_left (job_reduce r ?j2) = 2 * (length ts + (if jReady ?o then 0 else nat (jReduces ?o)))"
          using r by (simp add: job_reduce_def work_left_def tasks_def)
        ultimately show "0 \<le> r \<and> r < n \<and> work_left (job_reduce r ?j2) < work_left j" using less by presburger
      qed
    qed
  qed
qed

section \<open>Driving a job to its end\<close>

definition all_reported :: "nat \<Rightarrow> mrSys \<Rightarrow> bool" where
  "all_reported n s \<longleftrightarrow> (\<forall>r < n. mFs s (out_name r) \<noteq> None \<longrightarrow> ReduceReport (int r) \<in> mReports s)"

lemma steps_trans: "mr_steps w s s' \<Longrightarrow> mr_steps w s' s'' \<Longrightarrow> mr_steps w s s''"
  by (rotate_tac, induction rule: mr_steps.induct) (auto intro: mr_steps.more)

lemma steps_one: "mr_step w s s' \<Longrightarrow> mr_steps w s s'"
  by (rule mr_steps.more [OF mr_steps.here])

text \<open>A worker that can create its files carries out a map task and reports it.\<close>

lemma do_map_task:
  assumes inv: "mr_inv w files n d0 s" and job: "mr_job w files n d0" and can: "wCan w = (\<lambda>_. True)"
    and p: "task_reply (int n) (MapOf f) \<in> mReplies s" and f: "f \<in> set files" and x: "x \<notin> mUsed s" and rep: "all_reported n s"
  obtains s' where "mr_step w s s'" "mCoord s' = mCoord s" "mReplies s' = mReplies s" "mUsed s' = insert x (mUsed s)"
    "MapReport f (map_path n x) \<in> mReports s'" "all_reported n s'"
proof -
  let ?p = "task_reply (int n) (MapOf f)"
  have k: "trKind ?p = MapTask" "trMapFile ?p = f" "trNReduce ?p = int n" by (simp_all add: task_reply.simps)
  have "mFs s f = d0 f" "d0 f \<noteq> None" using inv job f by (auto simp: mr_inv_def mr_job_def)
  then obtain content where content: "mFs s f = Some content" by auto
  obtain d where d: "doMap (wSort w) (wCan w) (wMap w) f n x (mFs s) = Some (d, Some (map_path n x))"
    using doMap_writes [of "wSort w" n "wCan w" x "mFs s" f content "wMap w"] content job can by (auto simp: mr_job_def)
  then have t: "worker_turn w x (RpcReply ?p) (mFs s) = (d, Reports (MapReport f (map_path n x)))"
    by (simp add: worker_turn_def map_turn_def k)
  let ?s = "s\<lparr>mFs := d, mUsed := insert x (mUsed s), mReports := mReports s \<union> sent (Reports (MapReport f (map_path n x)))\<rparr>"
  have "mr_step w s ?s" by (rule mr_step.work [OF p x t])
  moreover have "d (out_name r) = mFs s (out_name r)" for r
  proof -
    have "map_turn w x ?p (mFs s) = (d, Reports (MapReport f (map_path n x)))" using t k by (simp add: worker_turn_def)
    then show ?thesis using map_turn_only tmp_name_neq(2) by metis
  qed
  then have "all_reported n ?s" using rep by (simp add: all_reported_def)
  ultimately show ?thesis using that [of ?s] by simp
qed

text \<open>The same for a reduce task; when its result is already there its report is, too.\<close>

lemma do_reduce_task:
  assumes inv: "mr_inv w files n d0 s" and job: "mr_job w files n d0" and can: "wCan w = (\<lambda>_. True)"
    and p: "task_reply (int n) (ReduceOf (int r) fs) \<in> mReplies s" and r: "r < n" and x: "x \<notin> mUsed s" and rep: "all_reported n s"
  obtains s' where "mr_steps w s s'" "mCoord s' = mCoord s" "mReplies s' = mReplies s" "finite (mUsed s) \<longrightarrow> finite (mUsed s')"
    "ReduceReport (int r) \<in> mReports s'" "all_reported n s'"
proof (cases "mFs s (out_name r)")
  case (Some out)
  then have "ReduceReport (int r) \<in> mReports s" using rep r by (simp add: all_reported_def)
  then show ?thesis using that [OF mr_steps.here] rep by simp
next
  case None
  let ?p = "task_reply (int n) (ReduceOf (int r) fs)"
  have k: "trKind ?p = ReduceTask" "trReduceID ?p = int r" "trFiles ?p = fs" by (simp_all add: task_reply.simps)
  obtain acc where acc: "distinct (map fst acc)"
    "\<forall>(f, outs) \<in> set acc. \<exists>x. outs = map_path n x \<and> map_done w n d0 f x (mFs s)"
    "\<forall>p \<in> mReplies s. trKind p = ReduceTask \<longrightarrow>
       fst ` set acc = set files \<and> (\<exists>r < n. trReduceID p = int r \<and> trFiles p = outs_for (int r) acc)"
    using mr_inv_replies [OF inv job] by (elim exE conjE) (rule that)
  then have fs: "fst ` set acc = set files" "fs = outs_for (int r) acc" using bspec [OF acc(3) p] k by auto
  obtain kvss where "list_all2 (pairs_in (mFs s)) fs kvss"
    using reduce_inputs [OF job acc(1) fs(1) acc(2) r] fs(2) by blast
  from doReduce_writes [OF this, of "wCan w" r x "wReduce w"] can None
  obtain out where out: "doReduce (wCan w) r fs (wReduce w) x (mFs s) = (((mFs s)(out_name r \<mapsto> out))(tmp_name r x := None), True)" by auto
  let ?d = "((mFs s)(out_name r \<mapsto> out))(tmp_name r x := None)"
  have t: "worker_turn w x (RpcReply ?p) (mFs s) = (?d, Reports (ReduceReport (int r)))"
    using out by (simp add: worker_turn_def reduce_turn_def k)
  let ?s = "s\<lparr>mFs := ?d, mUsed := insert x (mUsed s), mReports := mReports s \<union> sent (Reports (ReduceReport (int r)))\<rparr>"
  have "mr_step w s ?s" by (rule mr_step.work [OF p x t])
  moreover have "all_reported n ?s" using rep tmp_name_neq(3) by (auto simp: all_reported_def out_name_inj)
  ultimately show ?thesis using that [OF steps_one] by simp
qed

lemma late_time: "\<exists>T::int. \<forall>(x, s) \<in> set (xs :: (task \<times> int) list). T - s \<ge> TaskTimeout"
proof (induction xs)
  case (Cons a xs)
  then obtain T where T: "\<forall>(x, s) \<in> set xs. T - s \<ge> TaskTimeout" by blast
  show ?case by (rule exI [of _ "max T (snd a + TaskTimeout)"]) (use T in \<open>auto simp: le_max_iff_disj\<close>)
qed simp

lemma drive:
  assumes "at_job files n es s" "mr_inv w files n d0 s" "mr_job w files n d0" "wCan w = (\<lambda>_. True)" "finite (mUsed s)" "all_reported n s"
  shows "\<exists>s'. mr_steps w s s' \<and> Done (mCoord s')"
  using assms
proof (induction "work_left (after files n es)" arbitrary: es s rule: less_induct)
  case less
  note prems = less.prems
  have dist: "distinct files" using prems(3) by (simp add: mr_job_def)
  obtain ps rs acc where j: "represents (mCoord s) ps rs (after files n es)" "job_inv files (int n) acc (after files n es)"
    "job_past (set es) (set (fst (job_run es (job_init files (int n))))) (int n) acc (after files n es)"
    by (rule at_job_inv [OF prems(1) dist])
  obtain T where T: "\<forall>(x, s) \<in> set (jGoing (after files n es)). T - s \<ge> TaskTimeout" using late_time by blast
  obtain s1 where s1: "mr_step w s s1" "at_job files n (es @ [Scan T]) s1" "mFs s1 = mFs s" "mReports s1 = mReports s" "mUsed s1 = mUsed s"
    by (rule serve_job [OF prems(1) dist, of "Scan T"]) simp_all
  obtain s2 where s2: "mr_step w s1 s2" "at_job files n ((es @ [Scan T]) @ [Ask T]) s2" "mFs s2 = mFs s1" "mReports s2 = mReports s1"
      "mUsed s2 = mUsed s1" "mReplies s2 = mReplies s1 \<union> set (fst (job_step (Ask T) (after files n (es @ [Scan T]))))"
    by (rule serve_job [OF s1(2) dist, of "Ask T"]) simp_all
  have a1: "after files n (es @ [Scan T]) = job_check T (after files n es)" by (simp add: after_snoc)
  have to2: "mr_steps w s s2" using steps_trans [OF steps_one [OF s1(1)] steps_one [OF s2(1)]] .
  have inv2: "mr_inv w files n d0 s2" by (rule mr_steps_inv [OF to2 prems(2,3)])
  have rep2: "all_reported n s2" using prems(6) s1 s2 by (simp add: all_reported_def)
  have fin2: "finite (mUsed s2)" using prems(5) s1 s2 by simp
  then obtain x where x: "x \<notin> mUsed s2" using ex_new_if_finite infinite_UNIV_nat by blast
  have on: "\<exists>s'. mr_steps w s s' \<and> Done (mCoord s')"
    if s3: "mr_steps w s2 s3" "mCoord s3 = mCoord s2" "finite (mUsed s3)" "all_reported n s3" and e: "e \<in> mReports s3"
      and l: "work_left (snd (job_step e (after files n ((es @ [Scan T]) @ [Ask T])))) < work_left (after files n es)" for s3 e
  proof -
    have at3: "at_job files n ((es @ [Scan T]) @ [Ask T]) s3" using s2(2) s3(2) by (simp add: at_job_def)
    obtain s4 where s4: "mr_step w s3 s4" "at_job files n (((es @ [Scan T]) @ [Ask T]) @ [e]) s4" "mFs s4 = mFs s3" "mReports s4 = mReports s3"
        "mUsed s4 = mUsed s3"
      by (rule serve_job [OF at3 dist, of e]) (use e in simp_all)
    have to4: "mr_steps w s s4" using steps_trans [OF to2 steps_trans [OF s3(1) steps_one [OF s4(1)]]] .
    have "work_left (after files n (((es @ [Scan T]) @ [Ask T]) @ [e])) < work_left (after files n es)"
      using l by (simp only: after_snoc)
    moreover have "mr_inv w files n d0 s4" by (rule mr_steps_inv [OF to4 prems(2,3)])
    moreover have "all_reported n s4" using s3(4) s4(3,4) by (simp add: all_reported_def)
    ultimately obtain s' where "mr_steps w s4 s'" "Done (mCoord s')"
      using less.hyps [OF _ s4(2) _ prems(3,4)] s3(3) s4(5) by auto
    then show ?thesis using steps_trans [OF to4] by blast
  qed
  show ?case
  proof (rule round_job [OF j(2,3) T])
    fix p j2 assume o: "job_step (Ask T) (job_check T (after files n es)) = ([p], j2)" "jOver j2"
    then have "jOver (after files n ((es @ [Scan T]) @ [Ask T]))" by (simp only: after_snoc a1 snd_conv job_step.simps)
    then have "Done (mCoord s2)" using at_job_done [OF s2(2) dist] by simp
    then show ?thesis using to2 by blast
  next
    fix t j2
    assume o: "job_step (Ask T) (job_check T (after files n es)) = ([task_reply (int n) t], j2)"
      "\<forall>f. t = MapOf f \<longrightarrow> f \<in> set files \<and> (\<forall>outs. work_left (job_map f outs j2) < work_left (after files n es))"
      "\<forall>r fs. t = ReduceOf r fs \<longrightarrow> 0 \<le> r \<and> r < int n \<and> work_left (job_reduce r j2) < work_left (after files n es)"
    have p: "task_reply (int n) t \<in> mReplies s2" using s2(6) unfolding a1 o(1) by simp
    have a2: "after files n ((es @ [Scan T]) @ [Ask T]) = j2" using o(1) by (simp only: after_snoc a1 snd_conv job_step.simps)
    show ?thesis
    proof (cases t)
      case (MapOf f)
      obtain s3 where s3: "mr_step w s2 s3" "mCoord s3 = mCoord s2" "mReplies s3 = mReplies s2" "mUsed s3 = insert x (mUsed s2)"
        "MapReport f (map_path n x) \<in> mReports s3" "all_reported n s3"
        by (rule do_map_task [OF inv2 prems(3,4) p [unfolded MapOf] _ x rep2]) (use o(2) MapOf in blast)
      show ?thesis
        by (rule on [OF steps_one [OF s3(1)] s3(2) _ s3(6,5)]) (use s3(4) fin2 o(2) MapOf a2 in simp_all)
    next
      case (ReduceOf r fs)
      then obtain m where m: "r = int m" "m < n" using o(3) by (metis nonneg_int_cases of_nat_less_iff)
      obtain s3 where s3: "mr_steps w s2 s3" "mCoord s3 = mCoord s2" "mReplies s3 = mReplies s2" "finite (mUsed s2) \<longrightarrow> finite (mUsed s3)"
        "ReduceReport (int m) \<in> mReports s3" "all_reported n s3"
        by (rule do_reduce_task [OF inv2 prems(3,4) p [unfolded ReduceOf m(1)] m(2) x rep2])
      show ?thesis
        by (rule on [OF s3(1,2) _ s3(6,5)]) (use s3(4) fin2 o(3) ReduceOf m a2 in simp_all)
    qed
  qed
qed

section \<open>Where it cannot\<close>

lemma unreported_stays:
  assumes "mr_steps w s s'" "mFs s (out_name r) \<noteq> None" "ReduceReport (int r) \<notin> mReports s"
  shows "mFs s' (out_name r) \<noteq> None \<and> ReduceReport (int r) \<notin> mReports s'"
  using assms
proof (induction rule: mr_steps.induct)
  case (more s s' s'')
  then have ih: "mFs s' (out_name r) \<noteq> None" "ReduceReport (int r) \<notin> mReports s'" by auto
  from more.hyps(2) show ?case
  proof cases
    case (work p x d e)
    note only = worker_turn_only(3) [OF work(4) ih(1)]
    have "ReduceReport (int r) \<notin> sent e"
    proof
      assume s: "ReduceReport (int r) \<in> sent e"
      then have k: "trKind p = ReduceTask" "trReduceID p = int r" using sent_kind [OF work(4) s] by auto
      have "reduce_turn w x p (mFs s') = (d, e)" using work(4) k(1) by (simp add: worker_turn_def)
      from reduce_turn_taken(2) [of w x p "mFs s'" d e r, OF this ih(1)] have "sent e = {}" using k(2) by simp
      then show False using s by simp
    qed
    then show ?thesis using ih only by (simp add: work(1))
  next
    case (mute p x d e)
    then show ?thesis using ih worker_turn_only(3) [OF mute(4) ih(1)] by simp
  next
    case (die x d)
    then show ?thesis using ih own_name_parts(3) by simp
  qed (use ih in simp)
qed simp

lemma finite_used: "mr_steps w s s' \<Longrightarrow> finite (mUsed s) \<Longrightarrow> finite (mUsed s')"
  by (induction rule: mr_steps.induct) (auto elim!: mr_step.cases)

lemma mr_inv_at_job: "mr_inv w files n d0 s \<Longrightarrow> \<exists>es. at_job files n es s"
  by (auto simp: mr_inv_def at_job_def)

lemma done_reported:
  assumes "mr_inv w files n d0 s" "mr_job w files n d0" "Done (mCoord s)" "r < n"
  shows "ReduceReport (int r) \<in> mReports s"
  using mr_inv_replies [OF assms(1,2)] assms(3,4) by blast

end
