(* ===== verification/MR_Results.thy ===== *)
theory MR_Results
  imports MR_Finish
begin

text \<open>
  What a MapReduce job computes: the properties of the worker (src/src/mr/worker.go) on its own, and
  of workers and coordinator together, measured against src/src/main/mrsequential.go.
\<close>

section \<open>A job for the witnesses\<close>

definition demo_worker :: worker where
  "demo_worker = \<lparr>wSort = sort_key kvKey, wCan = (\<lambda>_. True),
     wMap = (\<lambda>f content. [\<lparr>kvKey = content, kvVal = ''1''\<rparr>, \<lparr>kvKey = ''a'', kvVal = f\<rparr>]),
     wReduce = (\<lambda>k vs. replicate (length vs) (CHR ''x''))\<rparr>"

definition demo_fs :: fs where
  "demo_fs = [''f'' \<mapsto> ''b'', ''g'' \<mapsto> ''a'']"

abbreviation demo_files :: "string list" where
  "demo_files \<equiv> [''f'', ''g'']"

lemma sorts_sort_key: "sorts (sort_key kvKey)"
  by (simp add: sorts_def)

lemma demo_job: "mr_job demo_worker demo_files 1 demo_fs"
proof -
  have "order_blind (wReduce demo_worker)"
    by (auto simp: order_blind_def demo_worker_def dest!: mset_eq_length)
  moreover have "\<not> own_file ''f''" "\<not> own_file ''g''" "\<And>r. demo_fs (out_name r) = None"
    by (auto simp: own_file_def map_name_def tmp_name_def out_name_def demo_fs_def)
  ultimately show ?thesis
    by (simp add: mr_job_def demo_worker_def sorts_sort_key demo_fs_def clean_def newline_def space_def)
qed

lemma start_exists:
  assumes "mr_job w files n d0"
  shows "\<exists>s. mr_start files n d0 s \<and> at_job files n [] s"
proof -
  obtain c where "MakeCoordinator files (int n) = Some c"
    using MakeCoordinator_represents [of files "int n"] assms by (auto simp: mr_job_def)
  then show ?thesis
    by (intro exI [of _ "\<lparr>mCoord = c, mFs = d0, mReplies = {}, mReports = {}, mUsed = {}\<rparr>"])
      (simp add: mr_start_def at_job_def coord_session_def)
qed

lemma start_drives:
  assumes job: "mr_job w files n d0" and can: "wCan w = (\<lambda>_. True)"
  shows "\<exists>s0 s. mr_start files n d0 s0 \<and> mr_steps w s0 s \<and> Done (mCoord s)"
proof -
  obtain s0 where s0: "mr_start files n d0 s0" "at_job files n [] s0" using start_exists [OF job] by blast
  have "finite (mUsed s0)" "all_reported n s0" using s0(1) job by (simp_all add: mr_start_def all_reported_def mr_job_def)
  from drive [OF s0(2) mr_inv_start [OF job s0(1)] job can this] s0(1) show ?thesis by blast
qed

section \<open>The whole job\<close>

text \<open>A partition of the result, by the keys of all the pairs.\<close>

lemma right_out_line:
  "right_out w files n d0 r = concat (map (out_line (wReduce w) (all_pairs w d0 files))
     (filter (\<lambda>k. ihash k mod n = r) (keys_of (all_pairs w d0 files))))"
proof -
  have p: "in_part n r = (\<lambda>kv. (\<lambda>k. ihash k mod n = r) (kvKey kv))" by (simp add: in_part_def fun_eq_iff)
  have k: "keys_of (filter (in_part n r) (all_pairs w d0 files)) = filter (\<lambda>k. ihash k mod n = r) (keys_of (all_pairs w d0 files))"
    unfolding p by (rule outputs_part(1))
  have "out_line (wReduce w) (filter (in_part n r) (all_pairs w d0 files)) x = out_line (wReduce w) (all_pairs w d0 files) x"
    if "ihash x mod n = r" for x
    unfolding p by (rule outputs_part(2)) (rule that)
  then show ?thesis unfolding right_out_def outputs_def k
    by (intro arg_cong [where f = concat] map_cong refl) simp
qed

text \<open>
  C7. Distributed and sequential MapReduce agree. Whatever coordinator, workers and lost, late or
  repeated messages do, and wherever workers die, a result file that exists holds exactly the
  lines the sequential program prints for the keys of its partition, in the same order; and when
  the coordinator says that the job is done, every partition has its file.
\<close>

theorem results_are_sequential:
  assumes "mr_job w files n d0" "mr_start files n d0 s0" "mr_steps w s0 s"
  shows "let kvs = all_pairs w d0 files; line = out_line (wReduce w) kvs in
    (\<exists>d. mrsequential (wSort w) (wMap w) (wReduce w) files d0 = Some d \<and>
       d ''mr-out-0'' = Some (concat (map line (keys_of kvs)))) \<and>
    (\<forall>r < n. mFs s (out_name r) = None \<or>
       mFs s (out_name r) = Some (concat (map line (filter (\<lambda>k. ihash k mod n = r) (keys_of kvs))))) \<and>
    (Done (mCoord s) \<longrightarrow> (\<forall>r < n. mFs s (out_name r) \<noteq> None))"
proof -
  let ?kvs = "all_pairs w d0 files"
  have inv: "mr_inv w files n d0 s" by (rule mr_steps_inv [OF assms(3) mr_inv_start [OF assms(1,2)] assms(1)])
  have seq: "mrsequential (wSort w) (wMap w) (wReduce w) files d0 = Some (d0(''mr-out-0'' \<mapsto> outputs (wReduce w) (wSort w ?kvs)))"
    using mrsequential_outputs [of "wSort w" files d0 "wMap w" "wReduce w"] assms(1)
    by (simp add: mr_job_def all_pairs_def pairs_of_file_def [abs_def])
  have "outputs (wReduce w) (wSort w ?kvs) = outputs (wReduce w) ?kvs"
    using assms(1) by (intro outputs_mset) (auto simp: mr_job_def sorts_def)
  moreover note right_out_line [of w files n d0]
  moreover have "mFs s (out_name r) \<noteq> None" if "Done (mCoord s)" "r < n" for r
    using done_reported [OF inv assms(1) that] inv unfolding mr_inv_def by (metis nat_int)
  ultimately show ?thesis using seq inv by (simp add: Let_def mr_inv_def outputs_def [of _ ?kvs])
qed

lemma results_are_sequential_witness:
  "\<exists>s0 s. mr_start demo_files 1 demo_fs s0 \<and> mr_steps demo_worker s0 s \<and> Done (mCoord s) \<and>
     mFs s (out_name 0) = Some (print_line ''a'' ''xxx'' @ print_line ''b'' ''x'')"
proof -
  obtain s0 s where s: "mr_start demo_files 1 demo_fs s0" "mr_steps demo_worker s0 s" "Done (mCoord s)"
    using start_drives [OF demo_job] by (auto simp: demo_worker_def)
  have kvs: "all_pairs demo_worker demo_fs demo_files =
      [\<lparr>kvKey = ''b'', kvVal = ''1''\<rparr>, \<lparr>kvKey = ''a'', kvVal = ''f''\<rparr>, \<lparr>kvKey = ''a'', kvVal = ''1''\<rparr>, \<lparr>kvKey = ''a'', kvVal = ''g''\<rparr>]"
    by (simp add: all_pairs_def pairs_of_file_def demo_worker_def demo_fs_def)
  have keys: "keys_of (all_pairs demo_worker demo_fs demo_files) = [''a'', ''b'']"
    unfolding kvs keys_of_def by (simp add: sorted_list_of_set_sort_remdups less_list_code less_eq_list_code less_char_def)
  have "out_line (wReduce demo_worker) (all_pairs demo_worker demo_fs demo_files) ''a'' = print_line ''a'' ''xxx''"
    "out_line (wReduce demo_worker) (all_pairs demo_worker demo_fs demo_files) ''b'' = print_line ''b'' ''x''"
    unfolding kvs by (simp_all add: out_line_def values_of_def demo_worker_def numeral_eq_Suc)
  then show ?thesis
    using results_are_sequential [OF demo_job s(1,2)] s by (auto simp: Let_def keys)
qed

text \<open>
  C10. A job can finish exactly when no result is there without its report. In every state the
  system can reach, with workers that may create their files, some continuation ends the job if
  and only if every result file that exists has been reported, or its report is on the way.
\<close>

theorem finishes_iff_reported:
  assumes "mr_job w files n d0" "mr_start files n d0 s0" "mr_steps w s0 s" "wCan w = (\<lambda>_. True)"
  shows "(\<exists>s'. mr_steps w s s' \<and> Done (mCoord s')) \<longleftrightarrow>
    (\<forall>r < n. mFs s (out_name r) \<noteq> None \<longrightarrow> ReduceReport (int r) \<in> mReports s)"
proof
  have inv: "mr_inv w files n d0 s" by (rule mr_steps_inv [OF assms(3) mr_inv_start [OF assms(1,2)] assms(1)])
  obtain es where "at_job files n es s" using mr_inv_at_job [OF inv] by blast
  moreover have "finite (mUsed s)" using finite_used [OF assms(3)] assms(2) by (simp add: mr_start_def)
  moreover assume "\<forall>r < n. mFs s (out_name r) \<noteq> None \<longrightarrow> ReduceReport (int r) \<in> mReports s"
  ultimately show "\<exists>s'. mr_steps w s s' \<and> Done (mCoord s')"
    using drive [OF _ inv assms(1,4)] by (simp add: all_reported_def)
next
  assume "\<exists>s'. mr_steps w s s' \<and> Done (mCoord s')"
  then obtain s' where s': "mr_steps w s s'" "Done (mCoord s')" by blast
  have inv: "mr_inv w files n d0 s'"
    by (rule mr_steps_inv [OF steps_trans [OF assms(3) s'(1)] mr_inv_start [OF assms(1,2)] assms(1)])
  show "\<forall>r < n. mFs s (out_name r) \<noteq> None \<longrightarrow> ReduceReport (int r) \<in> mReports s"
    using done_reported [OF inv assms(1) s'(2)] unreported_stays [OF s'(1)] by blast
qed

lemma finishes_iff_reported_witness:
  "\<exists>s0. mr_start demo_files 1 demo_fs s0 \<and> (\<exists>s'. mr_steps demo_worker s0 s' \<and> Done (mCoord s'))"
proof -
  obtain s0 where s0: "mr_start demo_files 1 demo_fs s0" using start_exists [OF demo_job] by blast
  have "wCan demo_worker = (\<lambda>_. True)" by (simp add: demo_worker_def)
  from finishes_iff_reported [OF demo_job s0 mr_steps.here this] s0
  show ?thesis by (auto simp: mr_start_def demo_fs_def out_name_def)
qed

lemma result_0: "out_name 0 = ''mr-out-0''"
  by code_simp

text \<open>The step that sends a report, and the same step by a worker that dies first.\<close>

lemma reported_by_turn:
  assumes "mr_steps w s s'" "ev \<notin> mReports s" "ev \<in> mReports s'"
  shows "\<exists>s1 p x d e. mr_steps w s s1 \<and> ev \<notin> mReports s1 \<and> p \<in> mReplies s1 \<and> x \<notin> mUsed s1 \<and>
    worker_turn w x (RpcReply p) (mFs s1) = (d, e) \<and> ev \<in> sent e"
  using assms
proof (induction rule: mr_steps.induct)
  case (more s s' s'')
  show ?case
  proof (cases "ev \<in> mReports s'")
    case True
    then show ?thesis using more.IH more.prems(1) by blast
  next
    case False
    from more.hyps(2) show ?thesis
    proof cases
      case (work p x d e)
      then have "ev \<in> sent e" using more.prems(2) False by simp
      then show ?thesis using more.hyps(1) work(2-4) False by blast
    qed (use more.prems(2) False in simp_all)
  qed
qed blast

text \<open>
  C31. One death at the wrong moment stops any job for good. In every job there is a reachable
  state, one worker having died after it linked its result and before it reported it, from which
  no continuation is ever done: whoever gets the task again finds the result there, and therefore
  does not report it either.
\<close>

theorem lost_report_stalls:
  assumes "mr_job w files n d0" "mr_start files n d0 s0" "wCan w = (\<lambda>_. True)"
  shows "\<exists>s. mr_steps w s0 s \<and> mFs s (out_name 0) \<noteq> None \<and> (\<forall>s'. mr_steps w s s' \<longrightarrow> \<not> Done (mCoord s'))"
proof -
  have n: "0 < n" using assms(1) by (simp add: mr_job_def)
  have inv0: "mr_inv w files n d0 s0" by (rule mr_inv_start [OF assms(1,2)])
  obtain es where "at_job files n es s0" using mr_inv_at_job [OF inv0] by blast
  moreover have "finite (mUsed s0)" "all_reported n s0"
    using assms(1,2) by (simp_all add: mr_start_def all_reported_def mr_job_def)
  ultimately obtain s where s: "mr_steps w s0 s" "Done (mCoord s)" using drive [OF _ inv0 assms(1,3)] by blast
  have "ReduceReport (int 0) \<in> mReports s"
    by (rule done_reported [OF mr_steps_inv [OF s(1) inv0 assms(1)] assms(1) s(2) n])
  moreover have "ReduceReport (int 0) \<notin> mReports s0" using assms(2) by (simp add: mr_start_def)
  ultimately obtain s1 p x d e where s1: "mr_steps w s0 s1" "ReduceReport (int 0) \<notin> mReports s1" "p \<in> mReplies s1"
    "x \<notin> mUsed s1" "worker_turn w x (RpcReply p) (mFs s1) = (d, e)" "ReduceReport (int 0) \<in> sent e"
    using reported_by_turn [OF s(1)] by blast
  have inv1: "mr_inv w files n d0 s1" by (rule mr_steps_inv [OF s1(1) inv0 assms(1)])
  let ?dead = "s1\<lparr>mFs := d, mUsed := insert x (mUsed s1)\<rparr>"
  have to: "mr_steps w s0 ?dead" by (rule mr_steps.more [OF s1(1) mr_step.mute [OF s1(3-5)]])
  have "mr_inv w files n d0 (s1\<lparr>mFs := d, mUsed := insert x (mUsed s1), mReports := mReports s1 \<union> sent e\<rparr>)"
    by (rule work_inv [OF inv1 assms(1) s1(3-5) order_refl])
  then have out: "mFs ?dead (out_name 0) \<noteq> None" using s1(6) unfolding mr_inv_def by force
  moreover have "ReduceReport (int 0) \<notin> mReports ?dead" using s1(2) by simp
  ultimately have "\<not> Done (mCoord s')" if "mr_steps w ?dead s'" for s'
    using unreported_stays [OF that] done_reported [OF mr_steps_inv [OF steps_trans [OF to that] inv0 assms(1)] assms(1) _ n] by blast
  then show ?thesis using to out by blast
qed

lemma lost_report_stalls_witness:
  "\<exists>s0 s. mr_start demo_files 1 demo_fs s0 \<and> mr_steps demo_worker s0 s \<and> mFs s ''mr-out-0'' \<noteq> None \<and>
     (\<forall>s'. mr_steps demo_worker s s' \<longrightarrow> \<not> Done (mCoord s'))"
proof -
  obtain s0 where s0: "mr_start demo_files 1 demo_fs s0" using start_exists [OF demo_job] by blast
  have "wCan demo_worker = (\<lambda>_. True)" by (simp add: demo_worker_def)
  from lost_report_stalls [OF demo_job s0 this] s0 show ?thesis
    unfolding result_0 [symmetric] by blast
qed

section \<open>The tasks\<close>

text \<open>
  A map task writes every pair exactly once, into the file of its key's partition, as a row of
  batches that are sorted in themselves, and touches no other file.
\<close>

theorem map_task_partitions:
  assumes "sorts srt" "\<forall>rid < n. can (map_name rid x)" "0 < n" "d f = Some content"
  shows "\<exists>d'. doMap srt can mapf f n x d = Some (d', Some (map (\<lambda>rid. map_name rid x) [0..<n])) \<and>
    (\<forall>rid < n. \<exists>bs. d' (map_name rid x) = Some (concat (map print_kv (concat bs))) \<and> (\<forall>b \<in> set bs. sorted (map kvKey b)) \<and>
       mset (concat bs) = mset (filter (\<lambda>kv. ihash (kvKey kv) mod n = rid) (mapf f content))) \<and>
    (\<forall>g. g \<notin> {map_name rid x | rid. rid < n} \<longrightarrow> d' g = d g)"
proof -
  obtain d' where d': "doMap srt can mapf f n x d = Some (d', Some (map_path n x))"
    "\<forall>rid < n. \<exists>out. d' (map_name rid x) = Some out \<and> holds_pairs out (filter (in_part n rid) (mapf f content))"
    "\<forall>g. g \<notin> set (map_path n x) \<longrightarrow> d' g = d g"
    using doMap_writes [of srt n can x d f content mapf] assms by blast
  have "set (map_path n x) = {map_name rid x | rid. rid < n}" by auto
  moreover have "\<exists>bs. d' (map_name rid x) = Some (concat (map print_kv (concat bs))) \<and> (\<forall>b \<in> set bs. sorted (map kvKey b)) \<and>
       mset (concat bs) = mset (filter (\<lambda>kv. ihash (kvKey kv) mod n = rid) (mapf f content))" if "rid < n" for rid
    using d'(2) that unfolding holds_pairs_def sorted_batches_def in_part_def [abs_def] by blast
  ultimately show ?thesis using d'(1,3) by (intro exI [of _ d']) simp
qed

lemma map_task_partitions_witness:
  "\<exists>d' content. doMap (sort_key kvKey) (\<lambda>_. True) (wMap demo_worker) ''f'' 1 7 demo_fs = Some (d', Some [map_name 0 7]) \<and>
     d' (map_name 0 7) = Some content \<and> d' ''g'' = Some ''a''"
proof -
  have d: "demo_fs ''f'' = Some ''b''" "demo_fs ''g'' = Some ''a''" by (simp_all add: demo_fs_def)
  have "''g'' \<noteq> map_name rid 7" for rid by (simp add: map_name_def)
  then show ?thesis
    using map_task_partitions [of "sort_key kvKey" 1 "\<lambda>_. True" 7 demo_fs "''f''" "''b''" "wMap demo_worker"] sorts_sort_key d by auto
qed

text \<open>
  C36. The buffers of a map task stay below their limit. After any sequence of pairs, the recorded
  size of every buffer is the size of the pairs in it, and it is less than 1024 bytes.
\<close>

theorem map_buffers_bounded:
  assumes "0 < n" "rid < n"
  shows "let ms = fold (add_pair srt n) kvs (map_start n) in
    msSize ms ! rid = (\<Sum>kv \<leftarrow> msPart ms ! rid. length (kvKey kv) + length (kvVal kv) + 2) \<and> msSize ms ! rid < 1024"
proof -
  let ?ms = "fold (add_pair srt n) kvs (map_start n)"
  have "msSize ?ms ! rid = sum_list (map pair_size (msPart ?ms ! rid))" "msSize ?ms ! rid < mapBufferSize"
    using add_pairs_buffered [OF assms(1), of srt kvs] assms(2) unfolding buffered_def bounded_def by blast+
  then show ?thesis by (simp add: Let_def mapBufferSize_def pair_size_def [abs_def])
qed

lemma map_buffers_bounded_witness:
  "let ms = fold (add_pair (\<lambda>ks. ks) 1) (replicate 3 \<lparr>kvKey = ''k'', kvVal = replicate 600 (CHR ''v'')\<rparr>) (map_start 1) in
   msSize ms ! 0 = (\<Sum>kv \<leftarrow> msPart ms ! 0. length (kvKey kv) + length (kvVal kv) + 2) \<and> msSize ms ! 0 < 1024"
  by (rule map_buffers_bounded) simp_all

text \<open>
  A pair is read back from its line exactly when its value has no space. The line of a pair is
  split at its last space, so a key may have spaces, but a value may not.
\<close>

theorem pair_round_trip:
  "parseKV (butlast (print_kv kv)) = Some kv \<longleftrightarrow> space \<notin> set (kvVal kv)"
proof -
  have b: "butlast (print_kv kv) = kvKey kv @ space # kvVal kv" by (simp add: print_kv_def print_line_def butlast_append)
  have k: "kv = \<lparr>kvKey = kvKey kv, kvVal = kvVal kv\<rparr>" by simp
  show ?thesis unfolding b using parse_last [of "kvVal kv" "kvKey kv"] parse_inexact [of "kvVal kv" "kvKey kv"] k by metis
qed

end
