(* ===== verification/MR_Apps.thy ===== *)
theory MR_Apps
  imports MR_Results
begin

text \<open>
  Applications of MapReduce (src/src/mrapps): word count, the inverted index, and two plugins of the
  tests that only compute. They satisfy what \<open>mr_job\<close> asks of an application, and for word count the
  result of a whole job is stated outright.

  \<open>strings.FieldsFunc(s, notLetter)\<close> decodes UTF-8 and asks Unicode tables, so it is an argument
  \<open>splitf\<close>; what is needed of it is that no field has a space or a line break in it.
\<close>

section \<open>The plugins\<close>

type_synonym splitter = "string \<Rightarrow> string list"

definition fields_ok :: "splitter \<Rightarrow> bool" where
  "fields_ok splitf \<longleftrightarrow> (\<forall>s. \<forall>word \<in> set (splitf s). space \<notin> set word \<and> newline \<notin> set word)"

definition wc_Map :: "splitter \<Rightarrow> string \<Rightarrow> string \<Rightarrow> KeyValue list" where
  "wc_Map splitf filename contents = map (\<lambda>word. \<lparr>kvKey = word, kvVal = ''1''\<rparr>) (splitf contents)"

definition wc_Reduce :: reducer where
  "wc_Reduce key vals = decimal (length vals)"

text \<open>\<open>strings.Join\<close>.\<close>

fun join :: "string \<Rightarrow> string list \<Rightarrow> string" where
  "join sep [] = []"
| "join sep [x] = x"
| "join sep (x # y # xs) = x @ sep @ join sep (y # xs)"

text \<open>The words of a document once each; \<open>ord\<close> is the order in which Go ranges over the map.\<close>

definition indexer_Map :: "splitter \<Rightarrow> (string list \<Rightarrow> string list) \<Rightarrow> string \<Rightarrow> string \<Rightarrow> KeyValue list" where
  "indexer_Map splitf ord document contents =
     map (\<lambda>word. \<lparr>kvKey = word, kvVal = document\<rparr>) (ord (remdups (splitf contents)))"

definition indexer_Reduce :: reducer where
  "indexer_Reduce key vals = decimal (length vals) @ '' '' @ join '','' (sort vals)"

definition nocrash_Map :: "string \<Rightarrow> string \<Rightarrow> KeyValue list" where
  "nocrash_Map filename contents =
     [\<lparr>kvKey = ''a'', kvVal = filename\<rparr>, \<lparr>kvKey = ''b'', kvVal = decimal (length filename)\<rparr>,
      \<lparr>kvKey = ''c'', kvVal = decimal (length contents)\<rparr>, \<lparr>kvKey = ''d'', kvVal = ''xyzzy''\<rparr>]"

definition nocrash_Reduce :: reducer where
  "nocrash_Reduce key vals = join '' '' (sort vals)"

definition early_exit_Map :: "string \<Rightarrow> string \<Rightarrow> KeyValue list" where
  "early_exit_Map filename contents = [\<lparr>kvKey = filename, kvVal = ''1''\<rparr>]"

definition early_exit_Reduce :: reducer where
  "early_exit_Reduce key vals = decimal (length vals)"

section \<open>They are fit for MapReduce\<close>

lemma sort_mset: "mset vs = mset vs' \<Longrightarrow> sort vs = sort (vs' :: string list)"
  by (metis properties_for_sort sorted_sort mset_sort)

lemma reducers_order_blind:
  "order_blind wc_Reduce" "order_blind indexer_Reduce" "order_blind nocrash_Reduce" "order_blind early_exit_Reduce"
  unfolding order_blind_def wc_Reduce_def indexer_Reduce_def nocrash_Reduce_def early_exit_Reduce_def
  by (metis sort_mset mset_eq_length)+

lemma digit_clean: "(d::nat) < 10 \<Longrightarrow> char_of (48 + d) \<noteq> space \<and> char_of (48 + d) \<noteq> newline"
proof (intro conjI notI)
  assume d: "d < 10"
  { assume "char_of (48 + d) = space"
    then have "(of_char (char_of (48 + d) :: char) :: nat) = of_char space" by simp
    then show False using d by (simp add: of_char_of space_def) }
  { assume "char_of (48 + d) = newline"
    then have "(of_char (char_of (48 + d) :: char) :: nat) = of_char newline" by simp
    then show False using d by (simp add: of_char_of newline_def) }
qed

lemma decimal_clean: "space \<notin> set (decimal n) \<and> newline \<notin> set (decimal n)"
proof (induction n rule: decimal.induct)
  case (1 n)
  then show ?case
    using digit_clean [of n] digit_clean [of "n mod 10"] by (subst (1 2) decimal.simps) auto
qed

lemma maps_clean:
  "fields_ok splitf \<Longrightarrow> kv \<in> set (wc_Map splitf f c) \<Longrightarrow> clean kv"
  "\<lbrakk>fields_ok splitf; \<forall>ws. set (ord ws) = set ws; space \<notin> set f; newline \<notin> set f\<rbrakk> \<Longrightarrow>
     kv \<in> set (indexer_Map splitf ord f c) \<Longrightarrow> clean kv"
  "\<lbrakk>space \<notin> set f; newline \<notin> set f\<rbrakk> \<Longrightarrow> kv \<in> set (nocrash_Map f c) \<Longrightarrow> clean kv"
  "newline \<notin> set f \<Longrightarrow> kv \<in> set (early_exit_Map f c) \<Longrightarrow> clean kv"
  using decimal_clean
  by (auto simp: clean_def fields_ok_def wc_Map_def indexer_Map_def nocrash_Map_def early_exit_Map_def space_def newline_def)

section \<open>Word count\<close>

definition wc_worker :: "(KeyValue list \<Rightarrow> KeyValue list) \<Rightarrow> (string \<Rightarrow> bool) \<Rightarrow> splitter \<Rightarrow> worker" where
  "wc_worker srt can splitf = \<lparr>wSort = srt, wCan = can, wMap = wc_Map splitf, wReduce = wc_Reduce\<rparr>"

text \<open>All the words of all the inputs.\<close>

definition words_of :: "splitter \<Rightarrow> fs \<Rightarrow> string list \<Rightarrow> string list" where
  "words_of splitf d files = concat (map (\<lambda>f. splitf (the (d f))) files)"

lemma wc_pairs: "all_pairs (wc_worker srt can splitf) d files = map (\<lambda>word. \<lparr>kvKey = word, kvVal = ''1''\<rparr>) (words_of splitf d files)"
  by (induction files) (simp_all add: all_pairs_def pairs_of_file_def wc_worker_def wc_Map_def words_of_def)

lemma wc_job:
  assumes "distinct files" "files \<noteq> []" "0 < n" "sorts srt" "fields_ok splitf"
    "\<forall>f \<in> set files. d0 f \<noteq> None \<and> \<not> own_file f" "\<forall>r. d0 (out_name r) = None"
  shows "mr_job (wc_worker srt can splitf) files n d0"
  using assms maps_clean(1) [OF assms(5)] reducers_order_blind(1) by (auto simp: mr_job_def wc_worker_def)

text \<open>
  C32. Word count counts words. In a job of the word-count plugin, whatever workers crash or repeat
  themselves, the result file of a partition, once it is there, lists exactly the words of the
  inputs whose hash falls into the partition, in order and once each, with the number of their
  occurrences in all the inputs together; and a job that is done has all its files.
\<close>

theorem word_count_counts:
  assumes "distinct files" "files \<noteq> []" "0 < n" "sorts srt" "fields_ok splitf"
    "\<forall>f \<in> set files. d0 f \<noteq> None \<and> \<not> own_file f" "\<forall>r. d0 (out_name r) = None"
    "mr_start files n d0 s0" "mr_steps (wc_worker srt can splitf) s0 s" "r < n"
  shows "(\<forall>out. mFs s (out_name r) = Some out \<longrightarrow>
      out = concat (map (\<lambda>word. print_line word (decimal (count (mset (words_of splitf d0 files)) word)))
              (filter (\<lambda>word. ihash word mod n = r) (sorted_list_of_set (set (words_of splitf d0 files)))))) \<and>
    (Done (mCoord s) \<longrightarrow> mFs s (out_name r) \<noteq> None)"
proof -
  let ?w = "wc_worker srt can splitf" and ?ws = "words_of splitf d0 files"
  have job: "mr_job ?w files n d0" by (rule wc_job [OF assms(1-7)])
  have inv: "mr_inv ?w files n d0 s" by (rule mr_steps_inv [OF assms(9) mr_inv_start [OF job assms(8)] job])
  have vals: "length (values_of word (map (\<lambda>word. \<lparr>kvKey = word, kvVal = ''1''\<rparr>) ws)) = count (mset ws) word" for word ws
    unfolding values_of_def by (induction ws) auto
  have keys: "keys_of (all_pairs ?w d0 files) = sorted_list_of_set (set ?ws)"
    unfolding keys_of_def wc_pairs by (simp add: comp_def)
  have red: "wReduce ?w = wc_Reduce" by (simp add: wc_worker_def)
  have line: "out_line (wReduce ?w) (all_pairs ?w d0 files) = (\<lambda>word. print_line word (decimal (count (mset ?ws) word)))"
    unfolding out_line_def red wc_pairs wc_Reduce_def vals ..
  have out: "right_out ?w files n d0 r = concat (map (\<lambda>word. print_line word (decimal (count (mset ?ws) word)))
      (filter (\<lambda>word. ihash word mod n = r) (sorted_list_of_set (set ?ws))))"
    unfolding right_out_line keys line ..
  have "mFs s (out_name r) = None \<or> mFs s (out_name r) = Some (right_out ?w files n d0 r)"
    using inv assms(10) by (simp add: mr_inv_def)
  moreover have "Done (mCoord s) \<longrightarrow> mFs s (out_name r) \<noteq> None"
    using done_reported [OF inv job _ assms(10)] inv unfolding mr_inv_def by (metis nat_int)
  ultimately show ?thesis unfolding out by auto
qed

text \<open>A splitter for the witness: the runs of ASCII letters.\<close>

definition ascii_letter :: "char \<Rightarrow> bool" where
  "ascii_letter c \<longleftrightarrow> (CHR ''a'' \<le> c \<and> c \<le> CHR ''z'') \<or> (CHR ''A'' \<le> c \<and> c \<le> CHR ''Z'')"

fun letter_runs :: "string \<Rightarrow> string \<Rightarrow> string list" where
  "letter_runs run [] = (if run = [] then [] else [run])"
| "letter_runs run (c # cs) =
     (if ascii_letter c then letter_runs (run @ [c]) cs
      else (if run = [] then [] else [run]) @ letter_runs [] cs)"

lemma letter_runs_letters: "\<forall>c \<in> set run. ascii_letter c \<Longrightarrow> word \<in> set (letter_runs run s) \<Longrightarrow> \<forall>c \<in> set word. ascii_letter c"
proof (induction run s arbitrary: word rule: letter_runs.induct)
  case (1 run)
  then show ?case by (simp split: if_splits)
next
  case (2 run c cs)
  show ?case
  proof (cases "ascii_letter c")
    case True
    have all: "\<forall>x \<in> set (run @ [c]). ascii_letter x" using "2.prems"(1) True by simp
    have "word \<in> set (letter_runs (run @ [c]) cs)" using "2.prems"(2) unfolding letter_runs.simps if_P [OF True] .
    then show ?thesis by (rule "2.IH"(1) [OF True all])
  next
    case False
    then have "word = run \<or> word \<in> set (letter_runs [] cs)" using "2.prems"(2) by (simp split: if_splits)
    moreover have "\<forall>c \<in> set ([]::string). ascii_letter c" by simp
    ultimately show ?thesis using "2.IH"(2) [OF False] "2.prems"(1) by blast
  qed
qed

lemma ascii_fields_ok: "fields_ok (letter_runs [])"
proof -
  have "\<not> ascii_letter space" "\<not> ascii_letter newline"
    by (simp_all add: ascii_letter_def space_def newline_def less_eq_char_def)
  then show ?thesis unfolding fields_ok_def using letter_runs_letters [of "[]"] by (metis empty_iff list.set(1))
qed

lemma word_count_counts_witness:
  "\<exists>s0 s. mr_start [''x'', ''y''] 1 [''x'' \<mapsto> ''to be'', ''y'' \<mapsto> ''or not to''] s0 \<and>
     mr_steps (wc_worker (sort_key kvKey) (\<lambda>_. True) (letter_runs [])) s0 s \<and> Done (mCoord s) \<and>
     mFs s (out_name 0) = Some (concat (map (\<lambda>(word, k). print_line word k)
       [(''be'', ''1''), (''not'', ''1''), (''or'', ''1''), (''to'', ''2'')]))"
proof -
  let ?w = "wc_worker (sort_key kvKey) (\<lambda>_. True) (letter_runs [])" and ?files = "[''x'', ''y'']"
  let ?d = "[''x'' \<mapsto> ''to be'', ''y'' \<mapsto> ''or not to''] :: fs"
  have pre: "distinct ?files" "?files \<noteq> []" "(0::nat) < 1" "\<forall>f \<in> set ?files. ?d f \<noteq> None \<and> \<not> own_file f" "\<forall>r. ?d (out_name r) = None"
    by (auto simp: own_file_def map_name_def tmp_name_def out_name_def)
  have can: "wCan ?w = (\<lambda>_. True)" by (simp add: wc_worker_def)
  obtain s0 s where s: "mr_start ?files 1 ?d s0" "mr_steps ?w s0 s" "Done (mCoord s)"
    using start_drives [OF wc_job [OF pre(1-3) sorts_sort_key ascii_fields_ok pre(4,5)] can] by blast
  have ws: "words_of (letter_runs []) ?d ?files = [''to'', ''be'', ''or'', ''not'', ''to'']"
    by (simp add: words_of_def ascii_letter_def less_eq_char_def)
  have srt: "sorted_list_of_set (set [''to'', ''be'', ''or'', ''not'', ''to'']) = [''be'', ''not'', ''or'', ''to'']"
  proof -
    have "set [''to'', ''be'', ''or'', ''not'', ''to''] = set [''be'', ''not'', ''or'', ''to'']" by auto
    moreover have "sorted [''be'', ''not'', ''or'', ''to'']" "distinct [''be'', ''not'', ''or'', ''to'']"
      by (simp_all add: less_eq_list_code less_char_def)
    ultimately show ?thesis by (metis sorted_list_of_set.idem_if_sorted_distinct)
  qed
  have dec: "decimal (Suc 0) = ''1''" "decimal (Suc (Suc 0)) = ''2''" by code_simp+
  have "mFs s (out_name 0) \<noteq> None \<and> (\<forall>out. mFs s (out_name 0) = Some out \<longrightarrow>
      out = concat (map (\<lambda>(word, k). print_line word k) [(''be'', ''1''), (''not'', ''1''), (''or'', ''1''), (''to'', ''2'')]))"
    using word_count_counts [OF pre(1-3) sorts_sort_key ascii_fields_ok pre(4,5) s(1,2), of 0] s(3)
    unfolding ws srt by (simp add: dec)
  then show ?thesis using s by (intro exI [of _ s0] exI [of _ s]) auto
qed

end
