(* ===== verification/MR_Duplicates.thy ===== *)
theory MR_Duplicates
  imports MR_Refine
begin

text \<open>
  A job with an input file that is named twice (src/src/mr/coordinator.go). The tables of current
  nodes no longer hold every node of the two lists, so the job of \<open>MR_Jobs\<close> is not what the
  coordinator does; a weaker invariant is enough for the one thing to say: no handler fails, and
  the map phase never ends.
\<close>

section \<open>The invariant\<close>

text \<open>
  All nodes are map tasks of input files; the table knows, for every file outside \<open>E\<close> that is not
  done, a node of its own in one of the lists.
\<close>

definition loose :: "string list \<Rightarrow> string set \<Rightarrow> coord \<Rightarrow> addr set \<Rightarrow> addr set \<Rightarrow> bool" where
  "loose files E c P R \<longleftrightarrow>
     mapNum c = int (length files) \<and> mapDone c \<subseteq> set files \<and> \<not> reducesReady c \<and> \<not> allDone c \<and> reduceTask c = Map.empty \<and>
     (\<forall>a \<in> P \<union> R. nKind (cCells c a) = TaskMap \<and> nFile (cCells c a) \<in> set files) \<and>
     (\<forall>a \<in> P. nState (cCells c a) = StatePending) \<and> (\<forall>a \<in> R. nState (cCells c a) = StateRunning) \<and>
     (\<forall>f a. f \<notin> mapDone c \<union> E \<longrightarrow> mapTask c f = Some a \<longrightarrow> a \<in> P \<union> R \<and> nFile (cCells c a) = f)"

definition stuck :: "string list \<Rightarrow> coord \<Rightarrow> addr list \<Rightarrow> addr list \<Rightarrow> bool" where
  "stuck files c ps rs \<longleftrightarrow> layout c ps rs {} \<and> loose files {} c (set ps) (set rs)"

lemma loose_cells:
  assumes "loose files E c P R" "scalars c' = scalars c" "mapTask c' = mapTask c" "reduceTask c' = reduceTask c"
    "\<And>a. a \<in> P \<union> R \<Longrightarrow> payload (cCells c' a) = payload (cCells c a)"
  shows "loose files E c' P R"
proof -
  note p = payload_sel [OF assms(5)]
  show ?thesis using assms(1,3,4) p scalarsD [OF assms(2)] unfolding loose_def by simp
qed

lemma loose_mono: "loose files E c P R \<Longrightarrow> E \<subseteq> E' \<Longrightarrow> loose files E' c P R"
  unfolding loose_def by blast

text \<open>A node leaves the lists: its file is the only one that may miss it.\<close>

lemma loose_drop:
  assumes "loose files {} c P (insert n R)" "n \<notin> P" "n \<notin> R"
  shows "loose files {nFile (cCells c n)} c P R"
  using assms unfolding loose_def by auto

text \<open>A pending node is handed out.\<close>

lemma loose_move:
  assumes "loose files {} c (insert n P) R" "n \<notin> P" "n \<notin> R" "scalars c' = scalars c" "mapTask c' = mapTask c"
    "reduceTask c' = reduceTask c" "nState (cCells c' n) = StateRunning"
    "\<And>a. nKind (cCells c' a) = nKind (cCells c a) \<and> nFile (cCells c' a) = nFile (cCells c a)"
    "\<And>a. a \<noteq> n \<Longrightarrow> nState (cCells c' a) = nState (cCells c a)"
  shows "loose files {} c' P (insert n R)"
proof -
  have "nState (cCells c' a) = nState (cCells c a)" if "a \<in> P \<union> R" for a
    using assms(2,3) that by (intro assms(9)) auto
  then show ?thesis using assms(1,4-8) scalarsD [OF assms(4)] unfolding loose_def by simp
qed

text \<open>A fresh node for a file joins the pending ones.\<close>

lemma adopt:
  assumes l: "layout c ps rs A" and s: "loose files {file} c P R" "P \<union> R \<subseteq> set (ps @ rs) \<union> A" "file \<in> set files"
    and a: "alloc TaskMap i file [] c = (n, c1)"
  shows "layout (c1\<lparr>mapTask := (mapTask c1)(file \<mapsto> n)\<rparr>) ps rs (insert n A)" "n \<notin> A" "n \<notin> set (ps @ rs)"
    "loose files {} (c1\<lparr>mapTask := (mapTask c1)(file \<mapsto> n)\<rparr>) (insert n P) R"
    "runningL c1 = runningL c" "\<And>a. a \<noteq> n \<Longrightarrow> cCells c1 a = cCells c a"
proof -
  obtain n' h b fr where
    1: "alloc TaskMap i file [] c = (n', (snd (bump TaskMap i file c))\<lparr>cCells := h, cBrk := b, freeL := fr\<rparr>)"
    "layout ((snd (bump TaskMap i file c))\<lparr>cCells := h, cBrk := b, freeL := fr\<rparr>) ps rs (insert n' A)"
    "n' \<notin> A" "n' \<notin> set (ps @ rs)" "\<And>a. a \<noteq> n' \<Longrightarrow> h a = cCells c a" "fresh_node TaskMap i file [] c (h n')"
    by (rule alloc_layout [OF l]) blast
  then have n': "n' = n" and c1: "c1 = (snd (bump TaskMap i file c))\<lparr>cCells := h, cBrk := b, freeL := fr\<rparr>" using a by auto
  let ?c = "c1\<lparr>mapTask := (mapTask c1)(file \<mapsto> n)\<rparr>"
  show "layout ?c ps rs (insert n A)" by (rule layout_cong [OF 1(2) [unfolded n']]) (simp_all add: c1)
  show n: "n \<notin> A" "n \<notin> set (ps @ rs)" using 1(3,4) n' by simp_all
  show "runningL c1 = runningL c" "\<And>a. a \<noteq> n \<Longrightarrow> cCells c1 a = cCells c a" using 1(5) n' by (simp_all add: c1)
  have f: "nKind (h n) = TaskMap" "nFile (h n) = file" "nState (h n) = StatePending"
    using 1(6) n' by (simp_all add: fresh_node_def)
  have o: "h a = cCells c a" if "a \<in> P \<union> R" for a using 1(5) [of a] n' n s(2) that by blast
  have "mapNum c1 = mapNum c" "reducesReady c1 = reducesReady c" "allDone c1 = allDone c"
    by (simp_all add: c1 bump_def)
  then show "loose files {} ?c (insert n P) R"
    using s(1,3) f o n s(2) unfolding loose_def by (auto simp: c1)
qed

lemma push_stuck:
  assumes "layout c ps rs {n}" "loose files {} c (insert n (set ps)) (set rs)"
  obtains c' where "push_pending n c = Some c'" "stuck files c' (ps @ [n]) rs" "runningL c' = runningL c"
proof -
  obtain l h where 1: "push_pending n c = Some (c\<lparr>pendingL := l, cCells := h\<rparr>)"
    "layout (c\<lparr>pendingL := l, cCells := h\<rparr>) (ps @ [n]) rs {}" "\<And>a. payload (h a) = payload (cCells c a)"
    by (rule push_pending_layout [of c ps rs n "{}"]) (use assms(1) in auto)
  have "loose files {} (c\<lparr>pendingL := l, cCells := h\<rparr>) (insert n (set ps)) (set rs)"
    by (rule loose_cells [OF assms(2)]) (simp_all add: 1(3))
  then show ?thesis using that [OF 1(1)] 1(2) by (simp add: stuck_def)
qed

lemma map_tasks_stuck:
  "stuck files c ps [] \<Longrightarrow> set fs \<subseteq> set files \<Longrightarrow> \<exists>c' ps'. map_tasks i fs c = Some c' \<and> stuck files c' ps' []"
proof (induction fs arbitrary: i c ps)
  case (Cons f fs)
  obtain n c1 where a: "alloc TaskMap i f [] c = (n, c1)" by fastforce
  have s: "layout c ps [] {}" "loose files {f} c (set ps) (set [])"
    using Cons.prems(1) loose_mono unfolding stuck_def by blast+
  note n = adopt [OF s _ _ a]
  obtain c' where "push_pending n (c1\<lparr>mapTask := (mapTask c1)(f \<mapsto> n)\<rparr>) = Some c'" "stuck files c' (ps @ [n]) []"
    by (rule push_stuck [of "c1\<lparr>mapTask := (mapTask c1)(f \<mapsto> n)\<rparr>" ps "[]" n files]) (use n(1,4) Cons.prems(2) in auto)
  then show ?case using Cons.IH Cons.prems(2) a by simp
qed auto

section \<open>The handlers keep it\<close>

lemma hand_out_stuck:
  assumes "stuck files c (n # ps) rs"
  shows "\<exists>r c'. hand_out now n c = Some (r, c') \<and> stuck files c' ps (rs @ [n]) \<and> trKind r = MapTask \<and> trMapFile r \<in> set files"
proof -
  have l: "layout c ([] @ n # ps) rs {}" and s: "loose files {} c (insert n (set ps)) (set rs)"
    using assms by (simp_all add: stuck_def)
  obtain l h where 1:
    "drop_pending n c = Some (c\<lparr>pendingL := l, cCells := h\<rparr>)"
    "layout (c\<lparr>pendingL := l, cCells := h\<rparr>) ps rs {n}" "\<And>a. payload (h a) = payload (cCells c a)"
    by (rule drop_pending_layout [OF l]) auto
  define x where "x = (h n)\<lparr>nState := StateRunning, nStart := now\<rparr>"
  let ?c2 = "set_node n x (c\<lparr>pendingL := l, cCells := h\<rparr>)"
  have "layout ?c2 ps rs {n}" using 1(2) by (simp add: set_node_layout)
  then obtain l' h' where 2:
    "push_running n ?c2 = Some (?c2\<lparr>runningL := l', cCells := h'\<rparr>)"
    "layout (?c2\<lparr>runningL := l', cCells := h'\<rparr>) ps (rs @ [n]) {}" "\<And>a. payload (h' a) = payload (cCells ?c2 a)"
    by (rule push_running_layout) auto
  have d: "n \<notin> set ps" "n \<notin> set rs" using layout_distinct(1) [OF l] by auto
  have n: "nKind (cCells c n) = TaskMap" "nFile (cCells c n) \<in> set files" using s by (simp_all add: loose_def)
  have f: "nKind (h' a) = nKind (cCells c a)" "nFile (h' a) = nFile (cCells c a)" for a
    using payload_sel [OF 2(3) [of a]] payload_sel [OF 1(3) [of a]] by (cases "a = n"; simp add: x_def set_node_def)+
  have r: "nState (h' n) = StateRunning" using payload_sel [OF 2(3) [of n]] by (simp add: x_def set_node_def)
  have o: "nState (h' a) = nState (cCells c a)" if "a \<noteq> n" for a
    using payload_sel [OF 2(3) [of a]] payload_sel [OF 1(3) [of a]] that by (simp add: set_node_def)
  have "loose files {} (?c2\<lparr>runningL := l', cCells := h'\<rparr>) (set ps) (insert n (set rs))"
    by (rule loose_move [OF s d]) (use r f o in \<open>simp_all add: set_node_def scalars_def\<close>)
  then show ?thesis using 1(1) 2(1,2) n f by (simp add: hand_out_def stuck_def x_def [symmetric])
qed

lemma GetTask_stuck:
  assumes "stuck files c ps rs" "\<not> distinct files"
  shows "\<exists>r c' ps' rs'. GetTask now c = Some (r, c') \<and> stuck files c' ps' rs' \<and>
    (trKind r = WaitTask \<or> trKind r = MapTask \<and> trMapFile r \<in> set files)"
proof -
  have s: "mapDone c \<subseteq> set files" "mapNum c = int (length files)" "\<not> reducesReady c" using assms(1) by (simp_all add: stuck_def loose_def)
  have "card (mapDone c) \<le> card (set files)" by (rule card_mono) (simp_all add: s(1))
  also have "\<dots> < length files" using assms(2) card_length [of files] card_distinct [of files] by linarith
  finally have c: "int (card (mapDone c)) \<noteq> mapNum c" using s(2) by simp
  have lp: "linked (cCells c) (pendingL c) ps" using assms(1) by (simp add: stuck_def layout_def nodes.beside_def)
  show ?thesis
  proof (cases ps)
    case Nil
    then show ?thesis using assms(1) c s(3) linked_empty [OF lp] by (auto simp: GetTask_def)
  next
    case (Cons n ps')
    then show ?thesis using hand_out_stuck [of files c n ps' rs now] assms(1) c s(3) linked_empty [OF lp] linked_ends(2) [OF lp]
      by (auto simp: GetTask_def)
  qed
qed

lemma ReportMap_stuck:
  assumes "stuck files c ps rs"
  shows "\<exists>c' rs'. ReportMap f outs c = Some c' \<and> stuck files c' ps rs'"
proof (cases "f \<notin> mapDone c \<and> (\<exists>n. mapTask c f = Some n \<and> nState (cCells c n) = StateRunning \<and> nGen (cCells c n) = generation c f)")
  case False
  then have "ReportMap f outs c = Some c" by (auto simp: ReportMap_def split: option.split)
  then show ?thesis using assms by blast
next
  case True
  then obtain n where n: "f \<notin> mapDone c" "mapTask c f = Some n" "nState (cCells c n) = StateRunning" "nGen (cCells c n) = generation c f"
    by blast
  have s: "loose files {} c (set ps) (set rs)" and l: "layout c ps rs {}" using assms by (simp_all add: stuck_def)
  have m: "n \<in> set ps \<union> set rs" "nFile (cCells c n) = f" using s n(1,2) unfolding loose_def by auto
  then have r: "n \<in> set rs" "f \<in> set files" using s n(3) unfolding loose_def by auto
  obtain us vs where rs: "rs = us @ n # vs" using r(1) by (meson split_list)
  obtain l' h where 1: "drop_running n c = Some (c\<lparr>runningL := l', cCells := h\<rparr>)"
    "layout (c\<lparr>runningL := l', cCells := h\<rparr>) ps (us @ vs) {n}" "\<And>a. payload (h a) = payload (cCells c a)"
    by (rule drop_running_layout [OF l [unfolded rs]]) auto
  have d: "n \<notin> set ps" "n \<notin> set (us @ vs)" using layout_distinct(1) [OF l] rs by auto
  define c' where "c' = recycle n (c\<lparr>runningL := l', cCells := h\<rparr>)"
  define c'' where "c'' = c'\<lparr>mapDone := insert f (mapDone c'), mapFiles := add_files 0 outs (mapFiles c')\<rparr>"
  have lay: "layout c'' ps (us @ vs) {}"
    by (rule layout_cong [of c']) (use recycle_layout [of _ ps "us @ vs" n "{}"] 1(2) in \<open>simp_all add: c'_def c''_def\<close>)
  have "loose files {} c (set ps) (insert n (set (us @ vs)))" using s rs by simp
  from loose_drop [OF this d] have "loose files {f} c (set ps) (set (us @ vs))" unfolding m(2) .
  then have "loose files {f} c' (set ps) (set (us @ vs))"
    by (rule loose_cells) (use 1(3) d in \<open>auto simp: c'_def recycle_def set_node_def scalars_def\<close>)
  then have "loose files {} c'' (set ps) (set (us @ vs))" using r(2) by (simp add: loose_def c''_def)
  moreover have "ReportMap f outs c = Some c''"
    using n 1(1) by (simp add: ReportMap_def c'_def c''_def Let_def)
  ultimately show ?thesis using lay by (auto simp: stuck_def)
qed

lemma ReportReduce_stuck: "stuck files c ps rs \<Longrightarrow> ReportReduce rid c = Some c"
  by (simp add: ReportReduce_def stuck_def loose_def)

lemma retry_stuck:
  assumes "stuck files c ps (n # rs)"
  obtains c' ps' where "retry n c = Some c'" "stuck files c' ps' rs" "lTail (runningL c') = lTail (runningL c)"
proof -
  have l: "layout c ps ([] @ n # rs) {}" and s: "loose files {} c (set ps) (insert n (set rs))"
    using assms by (simp_all add: stuck_def)
  obtain l' h where 1: "drop_running n c = Some (c\<lparr>runningL := l', cCells := h\<rparr>)"
    "layout (c\<lparr>runningL := l', cCells := h\<rparr>) ps rs {n}" "\<And>a. payload (h a) = payload (cCells c a)"
    "lTail l' = lTail (runningL c)"
    by (rule drop_running_layout [OF l]) auto
  let ?c1 = "c\<lparr>runningL := l', cCells := h\<rparr>" and ?f = "nFile (h n)"
  have d: "n \<notin> set ps" "n \<notin> set rs" using layout_distinct(1) [OF l] by auto
  have n: "nKind (h n) = TaskMap" "?f = nFile (cCells c n)" "?f \<in> set files"
    using payload_sel [OF 1(3) [of n]] s by (auto simp: loose_def)
  have "loose files {?f} c (set ps) (set rs)" using loose_drop [OF s d] n(2) by simp
  then have s1: "loose files {?f} ?c1 (set ps) (set rs)" by (rule loose_cells) (simp_all add: 1(3))
  obtain fresh c2 where a: "alloc TaskMap (nId (h n)) ?f [] ?c1 = (fresh, c2)" by fastforce
  have sub: "set ps \<union> set rs \<subseteq> set (ps @ rs) \<union> {n}" by auto
  note new = adopt [OF 1(2) s1 sub n(3) a]
  let ?c3 = "c2\<lparr>mapTask := (mapTask c2)(?f \<mapsto> fresh)\<rparr>"
  have fn: "fresh \<noteq> n" using new(2) by simp
  have "cCells c2 n = h n" using new(6) [of n] fn by simp
  then have step: "retry n c = push_pending fresh (recycle n ?c3)" using a n(1) by (simp add: retry_def 1(1))
  have "layout (recycle n ?c3) ps rs {fresh}"
    using recycle_layout [of ?c3 ps rs n "{fresh}"] new(1) fn by (simp add: insert_commute)
  moreover have "loose files {} (recycle n ?c3) (insert fresh (set ps)) (set rs)"
    by (rule loose_cells [OF new(4)]) (use d fn in \<open>auto simp: recycle_def set_node_def scalars_def\<close>)
  ultimately obtain c' where "push_pending fresh (recycle n ?c3) = Some c'" "stuck files c' (ps @ [fresh]) rs"
    "runningL c' = runningL (recycle n ?c3)" by (rule push_stuck)
  then show ?thesis using that [of c' "ps @ [fresh]"] step new(5) 1(4) by (simp add: recycle_def set_node_def)
qed

lemma check_loop_stuck:
  "stuck files c ps rs \<Longrightarrow>
   \<exists>c' ps' rs'. check_loop now (Some (hd (rs @ [lTail (runningL c)]))) c = Some c' \<and> stuck files c' ps' rs'"
proof (induction rs arbitrary: c ps)
  case Nil
  then show ?case by (auto simp: check_loop.simps)
next
  case (Cons n rs)
  have lk: "linked (cCells c) (runningL c) ([] @ n # rs)" using Cons.prems by (simp add: stuck_def layout_def nodes.beside_def)
  have ne: "n \<noteq> lTail (runningL c)" using lk by (auto simp: linked_def)
  show ?case
  proof (cases "now - nStart (cCells c n) < TaskTimeout")
    case True
    then show ?thesis using ne Cons.prems by (subst check_loop.simps) auto
  next
    case False
    obtain c' ps' where "retry n c = Some c'" "stuck files c' ps' rs" "lTail (runningL c') = lTail (runningL c)"
      by (rule retry_stuck [OF Cons.prems])
    then show ?thesis using Cons.IH [of c' ps'] False ne linked_next(1) [OF lk] by (subst check_loop.simps) simp
  qed
qed

lemma checkTimeout_stuck:
  assumes "stuck files c ps rs"
  shows "\<exists>c' ps' rs'. checkTimeout now c = Some c' \<and> stuck files c' ps' rs'"
proof -
  have "linked (cCells c) (runningL c) rs" using assms by (simp add: stuck_def layout_def nodes.beside_def)
  then show ?thesis using check_loop_stuck [OF assms] by (simp add: checkTimeout_def linked_ends(2))
qed

lemma MakeCoordinator_stuck: "\<exists>c ps. MakeCoordinator files n = Some c \<and> stuck files c ps []"
proof -
  obtain h1 b1 p where n1: "newNodeList (\<lambda>_. blank) 0 = (h1, b1, p)" by (metis prod_cases3)
  note l1 = newNodeList_linked [OF n1]
  obtain h2 b2 q where n2: "newNodeList h1 b1 = (h2, b2, q)" by (metis prod_cases3)
  note l2 = newNodeList_linked [OF n2]
  define c where "c = \<lparr>cCells = h2, cBrk = b2, cFiles = files, cNReduce = n, mapNum = int (length files), reduceNum = n,
            mapDone = {}, mapTask = Map.empty, reduceTask = Map.empty, mapFiles = (\<lambda>_. []),
            generation = (\<lambda>_. 0), reduceGen = (\<lambda>_. 0), reducesReady = False, allDone = False,
            pendingL = p, runningL = q, freeL = []\<rparr>"
  have "linked h2 p []" by (rule nodes.frame [OF l1(1)]) (use l1 l2 in auto)
  then have "layout c [] [] {}" using l1 l2 by (auto simp: layout_def nodes.beside_def c_def)
  moreover have "loose files {} c {} {}" by (simp add: loose_def c_def)
  ultimately have "stuck files c [] []" by (simp add: stuck_def)
  from map_tasks_stuck [OF this order_refl, of 0] show ?thesis by (simp add: MakeCoordinator_def n1 n2 c_def)
qed

lemma coord_step_stuck:
  assumes "stuck files c ps rs" "\<not> distinct files"
  shows "\<exists>replies c' ps' rs'. coord_step e c = Some (replies, c') \<and> stuck files c' ps' rs' \<and>
    (\<forall>r \<in> set replies. trKind r = WaitTask \<or> trKind r = MapTask \<and> trMapFile r \<in> set files)"
proof (cases e)
  case (Ask now)
  then show ?thesis using GetTask_stuck [OF assms, of now] by force
next
  case (MapReport f outs)
  then show ?thesis using ReportMap_stuck [OF assms(1), of f outs] by auto
next
  case (ReduceReport r)
  then show ?thesis using ReportReduce_stuck [OF assms(1), of r] assms(1) by auto
next
  case (Scan now)
  then show ?thesis using checkTimeout_stuck [OF assms(1), of now] by auto
qed

lemma coord_run_stuck:
  assumes "\<not> distinct files"
  shows "stuck files c ps rs \<Longrightarrow> \<exists>replies c' ps' rs'. coord_run es c = Some (replies, c') \<and> stuck files c' ps' rs' \<and>
    (\<forall>r \<in> set replies. trKind r = WaitTask \<or> trKind r = MapTask \<and> trMapFile r \<in> set files)"
proof (induction es arbitrary: c ps rs)
  case (Cons e es)
  obtain r1 c1 ps1 rs1 where 1: "coord_step e c = Some (r1, c1)" "stuck files c1 ps1 rs1"
    "\<forall>r \<in> set r1. trKind r = WaitTask \<or> trKind r = MapTask \<and> trMapFile r \<in> set files"
    using coord_step_stuck [OF Cons.prems assms] by blast
  obtain r2 c2 ps2 rs2 where 2: "coord_run es c1 = Some (r2, c2)" "stuck files c2 ps2 rs2"
    "\<forall>r \<in> set r2. trKind r = WaitTask \<or> trKind r = MapTask \<and> trMapFile r \<in> set files"
    using Cons.IH [OF 1(2)] by blast
  show ?case by (intro exI [of _ "r1 @ r2"] exI [of _ c2] exI [of _ ps2] exI [of _ rs2]) (use 1 2 in auto)
qed auto

section \<open>Property\<close>

text \<open>
  C30. An input file that is named twice stalls the job. Whatever the workers do, for however
  long, and however often the coordinator scans for timeouts, no handler fails, every reply is a
  map task of an input file or the advice to wait, the reduce phase does not begin and the job is
  not done: the finished files are counted by name and compared with the number of names given.
\<close>

theorem duplicate_inputs_stall:
  assumes "\<not> distinct files"
  shows "\<exists>replies c. coord_session files n es = Some (replies, c) \<and> \<not> reducesReady c \<and> \<not> Done c \<and>
    card (mapDone c) < length files \<and>
    (\<forall>r \<in> set replies. trKind r = WaitTask \<or> trKind r = MapTask \<and> trMapFile r \<in> set files)"
proof -
  obtain c0 ps where 0: "MakeCoordinator files n = Some c0" "stuck files c0 ps []" using MakeCoordinator_stuck by blast
  obtain replies c ps' rs' where *: "coord_run es c0 = Some (replies, c)" "stuck files c ps' rs'"
    "\<forall>r \<in> set replies. trKind r = WaitTask \<or> trKind r = MapTask \<and> trMapFile r \<in> set files"
    using coord_run_stuck [OF assms 0(2)] by blast
  have "card (mapDone c) \<le> card (set files)"
    by (rule card_mono) (use *(2) in \<open>simp_all add: stuck_def loose_def\<close>)
  also have "\<dots> < length files" using assms card_length [of files] card_distinct [of files] by linarith
  finally show ?thesis using 0(1) * by (auto simp: coord_session_def stuck_def loose_def Done_def)
qed

text \<open>One worker does everything it is asked, three times over, with scans in between.\<close>

lemma duplicate_inputs_stall_witness:
  "\<exists>replies c. coord_session [''a'', ''b'', ''a''] 1
     [Ask 0, MapReport ''a'' [''a0''], Ask 1, MapReport ''b'' [''b0''], Ask 2, MapReport ''a'' [''a1''], Scan (20 * 1000000000),
      Ask (20 * 1000000000), MapReport ''a'' [''a2''], Ask (21 * 1000000000)] = Some (replies, c) \<and> \<not> Done c"
proof -
  have "\<not> distinct [''a'', ''b'', ''a'']" by simp
  from duplicate_inputs_stall [OF this, of 1] show ?thesis by blast
qed

end
