(* ===== verification/Labrpc.thy ===== *)
theory Labrpc
  imports Prelude
begin

text \<open>
  The simulated network under every service of the repository (src/src/labrpc/labrpc.go): client
  ends, named servers, and the goroutine of each request with its delays, losses and checks, as
  steps that can interleave with each other and with changes of the network. Arguments and replies
  are byte strings; encoding them (labgob) and collecting the methods of a receiver by reflection
  are not modelled, so a service is given by its table of methods on the state of its server.
\<close>

section \<open>Servers\<close>

record reqMsg =
  rqEnd :: string
  rqMeth :: string
  rqArgs :: string

record replyMsg =
  rpOk :: bool
  rpReply :: string

type_synonym 's handler = "'s \<Rightarrow> string \<Rightarrow> string \<times> 's"

record 's service =
  svcName :: string
  svcMethods :: "string \<Rightarrow> 's handler option"

record 's server =
  srvServices :: "string \<Rightarrow> 's service option"
  srvCount :: int
  srvDispatchf :: "(string \<Rightarrow> string \<Rightarrow> string \<times> bool) option"
  srvState :: 's

definition noReply :: replyMsg where
  "noReply = \<lparr>rpOk = False, rpReply = []\<rparr>"

definition MakeServer :: "'s \<Rightarrow> 's server" where
  "MakeServer st = \<lparr>srvServices = (\<lambda>_. None), srvCount = 0, srvDispatchf = None, srvState = st\<rparr>"

definition AddService :: "'s service \<Rightarrow> 's server \<Rightarrow> 's server" where
  "AddService svc rs = rs\<lparr>srvServices := (srvServices rs)(svcName svc \<mapsto> svc)\<rparr>"

definition SetDispatch :: "(string \<Rightarrow> string \<Rightarrow> string \<times> bool) \<Rightarrow> 's server \<Rightarrow> 's server" where
  "SetDispatch f rs = rs\<lparr>srvDispatchf := Some f\<rparr>"

definition LastIndex :: "string \<Rightarrow> char \<Rightarrow> int" where
  "LastIndex s c = int (length s) - 1 - int (length (takeWhile (\<lambda>x. x \<noteq> c) (rev s)))"

text \<open>An unknown method is fatal, and so are an unknown service and a name without a dot.\<close>

definition service_dispatch :: "'s service \<Rightarrow> string \<Rightarrow> reqMsg \<Rightarrow> 's \<Rightarrow> (replyMsg \<times> 's) option" where
  "service_dispatch svc methname req st =
     (case svcMethods svc methname of
        None \<Rightarrow> None
      | Some f \<Rightarrow> let (rep, st') = f st (rqArgs req) in Some (\<lparr>rpOk = True, rpReply = rep\<rparr>, st'))"

definition server_dispatch :: "reqMsg \<Rightarrow> 's server \<Rightarrow> (replyMsg \<times> 's server) option" where
  "server_dispatch req rs0 =
     (let rs = rs0\<lparr>srvCount := srvCount rs0 + 1\<rparr>;
          dot = LastIndex (rqMeth req) (CHR ''.'');
          serviceName = take (nat dot) (rqMeth req);
          methodName = drop (nat dot + 1) (rqMeth req) in
      if dot < 0 then None
      else case srvDispatchf rs of
             Some f \<Rightarrow> let (rep, ok) = f (rqMeth req) (rqArgs req) in Some (\<lparr>rpOk = ok, rpReply = rep\<rparr>, rs)
           | None \<Rightarrow>
               (case srvServices rs serviceName of
                  None \<Rightarrow> None
                | Some service \<Rightarrow>
                    map_option (\<lambda>(rep, st). (rep, rs\<lparr>srvState := st\<rparr>)) (service_dispatch service methodName req (srvState rs))))"

section \<open>The network\<close>

text \<open>
  A server is a pointer, an index into \<open>nHeap\<close>, which only grows. \<open>nLoop\<close> is whether the goroutine that takes
  the requests is still there.
\<close>

type_synonym srvptr = nat

record 's network =
  nReliable :: bool
  nLongDelays :: bool
  nLongReordering :: bool
  nEnds :: "string set"
  nEnabled :: "string \<Rightarrow> bool"
  nServers :: "string \<Rightarrow> srvptr option"
  nConnections :: "string \<Rightarrow> string option"
  nHeap :: "'s server list"
  nDone :: bool
  nLoop :: bool
  nCount :: int
  nBytes :: int

definition MakeNetwork :: "'s network" where
  "MakeNetwork =
     \<lparr>nReliable = True, nLongDelays = False, nLongReordering = False, nEnds = {}, nEnabled = (\<lambda>_. False),
      nServers = (\<lambda>_. None), nConnections = (\<lambda>_. None), nHeap = [], nDone = False, nLoop = True, nCount = 0, nBytes = 0\<rparr>"

definition Cleanup :: "'s network \<Rightarrow> 's network option" where
  "Cleanup rn = (if nDone rn then None else Some (rn\<lparr>nDone := True\<rparr>))"

definition Reliable :: "bool \<Rightarrow> 's network \<Rightarrow> 's network" where
  "Reliable yes rn = rn\<lparr>nReliable := yes\<rparr>"

definition LongReordering :: "bool \<Rightarrow> 's network \<Rightarrow> 's network" where
  "LongReordering yes rn = rn\<lparr>nLongReordering := yes\<rparr>"

definition LongDelays :: "bool \<Rightarrow> 's network \<Rightarrow> 's network" where
  "LongDelays yes rn = rn\<lparr>nLongDelays := yes\<rparr>"

definition MakeEnd :: "string \<Rightarrow> 's network \<Rightarrow> 's network option" where
  "MakeEnd endname rn =
     (if endname \<in> nEnds rn then None
      else Some (rn\<lparr>nEnds := insert endname (nEnds rn), nEnabled := (nEnabled rn)(endname := False),
                    nConnections := (nConnections rn)(endname := None)\<rparr>))"

definition LookupEnd :: "string \<Rightarrow> 's network \<Rightarrow> string option" where
  "LookupEnd endname rn = (if endname \<in> nEnds rn then Some endname else None)"

definition DeleteEnd :: "string \<Rightarrow> 's network \<Rightarrow> 's network option" where
  "DeleteEnd endname rn =
     (if endname \<notin> nEnds rn then None
      else Some (rn\<lparr>nEnds := nEnds rn - {endname}, nEnabled := (nEnabled rn)(endname := False),
                    nConnections := (nConnections rn)(endname := None)\<rparr>))"

definition AddServer :: "string \<Rightarrow> srvptr \<Rightarrow> 's network \<Rightarrow> 's network" where
  "AddServer servername rs rn = rn\<lparr>nServers := (nServers rn)(servername \<mapsto> rs)\<rparr>"

definition DeleteServer :: "string \<Rightarrow> 's network \<Rightarrow> 's network" where
  "DeleteServer servername rn = rn\<lparr>nServers := (nServers rn)(servername := None)\<rparr>"

definition Connect :: "string \<Rightarrow> string \<Rightarrow> 's network \<Rightarrow> 's network" where
  "Connect endname servername rn = rn\<lparr>nConnections := (nConnections rn)(endname \<mapsto> servername)\<rparr>"

definition Enable :: "string \<Rightarrow> bool \<Rightarrow> 's network \<Rightarrow> 's network" where
  "Enable endname enabled rn = rn\<lparr>nEnabled := (nEnabled rn)(endname := enabled)\<rparr>"

text \<open>Counting the requests of a server that is not there dereferences nil.\<close>

definition GetCount :: "string \<Rightarrow> 's network \<Rightarrow> int option" where
  "GetCount servername rn = map_option (\<lambda>p. srvCount (nHeap rn ! p)) (nServers rn servername)"

definition readEndnameInfo :: "string \<Rightarrow> 's network \<Rightarrow> bool \<times> string option \<times> srvptr option \<times> bool \<times> bool" where
  "readEndnameInfo endname rn =
     (nEnabled rn endname, nConnections rn endname,
      (case nConnections rn endname of None \<Rightarrow> None | Some servername \<Rightarrow> nServers rn servername),
      nReliable rn, nLongReordering rn)"

definition isServerDead :: "string \<Rightarrow> string \<Rightarrow> srvptr \<Rightarrow> 's network \<Rightarrow> bool" where
  "isServerDead endname servername server rn \<longleftrightarrow> \<not> nEnabled rn endname \<or> nServers rn servername \<noteq> Some server"

text \<open>What a test does to a network. A new server is a new pointer; only existing ones can be added.\<close>

datatype 's netOp =
    OpReliable bool
  | OpLongReordering bool
  | OpLongDelays bool
  | OpMakeEnd string
  | OpDeleteEnd string
  | OpMakeServer 's
  | OpAddService srvptr "'s service"
  | OpSetDispatch srvptr "string \<Rightarrow> string \<Rightarrow> string \<times> bool"
  | OpAddServer string srvptr
  | OpDeleteServer string
  | OpConnect string string
  | OpEnable string bool
  | OpCleanup

definition with_server :: "srvptr \<Rightarrow> ('s server \<Rightarrow> 's server) \<Rightarrow> 's network \<Rightarrow> 's network option" where
  "with_server p f rn = (if p < length (nHeap rn) then Some (rn\<lparr>nHeap := (nHeap rn)[p := f (nHeap rn ! p)]\<rparr>) else None)"

fun net_op :: "'s netOp \<Rightarrow> 's network \<Rightarrow> 's network option" where
  "net_op (OpReliable yes) rn = Some (Reliable yes rn)"
| "net_op (OpLongReordering yes) rn = Some (LongReordering yes rn)"
| "net_op (OpLongDelays yes) rn = Some (LongDelays yes rn)"
| "net_op (OpMakeEnd e) rn = MakeEnd e rn"
| "net_op (OpDeleteEnd e) rn = DeleteEnd e rn"
| "net_op (OpMakeServer st) rn = Some (rn\<lparr>nHeap := nHeap rn @ [MakeServer st]\<rparr>)"
| "net_op (OpAddService p svc) rn = with_server p (AddService svc) rn"
| "net_op (OpSetDispatch p f) rn = with_server p (SetDispatch f) rn"
| "net_op (OpAddServer sn p) rn = (if p < length (nHeap rn) then Some (AddServer sn p rn) else None)"
| "net_op (OpDeleteServer sn) rn = Some (DeleteServer sn rn)"
| "net_op (OpConnect e sn) rn = Some (Connect e sn rn)"
| "net_op (OpEnable e yes) rn = Some (Enable e yes rn)"
| "net_op OpCleanup rn = Cleanup rn"

lemmas net_op_defs = Reliable_def LongReordering_def LongDelays_def MakeEnd_def DeleteEnd_def with_server_def
  AddServer_def DeleteServer_def Connect_def Enable_def Cleanup_def

section \<open>Requests on their way\<close>

text \<open>
  \<open>Running\<close>: the handler has been started in its own goroutine; \<open>Ran\<close>: it has returned;
  \<open>GaveUp\<close>: the request is answered false while the handler is still running; \<open>Replying\<close>: the answer
  waits for a timer.
\<close>

datatype phase =
    Queued
  | Taken
  | Running srvptr string bool bool
  | Ran srvptr string bool bool replyMsg
  | GaveUp srvptr
  | Replying replyMsg
  | Answered replyMsg

record callRec =
  cReq :: reqMsg
  cPhase :: phase

definition answer :: "callRec \<Rightarrow> replyMsg option" where
  "answer c = (case cPhase c of GaveUp p \<Rightarrow> Some noReply | Answered r \<Rightarrow> Some r | _ \<Rightarrow> None)"

text \<open>processReq up to the start of the handler; \<open>drop_it\<close> is the coin that loses the request.\<close>

definition start_req :: "bool \<Rightarrow> reqMsg \<Rightarrow> 's network \<Rightarrow> phase" where
  "start_req drop_it req rn =
     (case readEndnameInfo (rqEnd req) rn of
        (True, Some servername, Some server, reliable, longreordering) \<Rightarrow>
          if \<not> reliable \<and> drop_it then Answered noReply else Running server servername reliable longreordering
      | _ \<Rightarrow> Replying noReply)"

text \<open>After the handler: the second look at the server, then the two coins for the reply.\<close>

definition finish_req :: "bool \<Rightarrow> bool \<Rightarrow> reqMsg \<Rightarrow> srvptr \<Rightarrow> string \<Rightarrow> bool \<Rightarrow> bool \<Rightarrow> replyMsg \<Rightarrow> 's network \<Rightarrow> phase \<times> 's network" where
  "finish_req drop_it delay_it req server servername reliable longreordering reply rn =
     (if isServerDead (rqEnd req) servername server rn then (Answered noReply, rn)
      else if \<not> reliable \<and> drop_it then (Answered noReply, rn)
      else if longreordering \<and> delay_it then (Replying reply, rn)
      else (Answered reply, rn\<lparr>nBytes := nBytes rn + int (length (rpReply reply))\<rparr>))"

text \<open>
  The whole system; \<open>lLog\<close> records, for the theorems only, what the handler returned for which
  request. An event that cannot happen, and one that ends the process, is \<open>None\<close>.
\<close>

record 's labSys =
  lNet :: "'s network"
  lCalls :: "callRec list"
  lLog :: "(nat \<times> replyMsg) list"

datatype 's labEvent =
    Send reqMsg
  | Refuse nat
  | Take nat
  | Begin nat bool
  | Handle nat
  | Poll nat
  | Finish nat bool bool
  | Deliver nat
  | StopLoop
  | Admin "'s netOp"

definition set_phase :: "nat \<Rightarrow> phase \<Rightarrow> 's labSys \<Rightarrow> 's labSys" where
  "set_phase i ph s = s\<lparr>lCalls := (lCalls s)[i := (lCalls s ! i)\<lparr>cPhase := ph\<rparr>]\<rparr>"

definition phase_of :: "'s labSys \<Rightarrow> nat \<Rightarrow> phase option" where
  "phase_of s i = (if i < length (lCalls s) then Some (cPhase (lCalls s ! i)) else None)"

definition run_handler :: "nat \<Rightarrow> srvptr \<Rightarrow> (replyMsg \<Rightarrow> phase) \<Rightarrow> 's labSys \<Rightarrow> 's labSys option" where
  "run_handler i p next_phase s =
     (case server_dispatch (cReq (lCalls s ! i)) (nHeap (lNet s) ! p) of
        None \<Rightarrow> None
      | Some (reply, rs) \<Rightarrow>
          Some (set_phase i (next_phase reply) s
            \<lparr>lNet := (lNet s)\<lparr>nHeap := (nHeap (lNet s))[p := rs]\<rparr>, lLog := lLog s @ [(i, reply)]\<rparr>))"

fun lab_step :: "'s labEvent \<Rightarrow> 's labSys \<Rightarrow> 's labSys option" where
  "lab_step (Send req) s = Some (s\<lparr>lCalls := lCalls s @ [\<lparr>cReq = req, cPhase = Queued\<rparr>]\<rparr>)"
| "lab_step (Refuse i) s =
     (if phase_of s i = Some Queued \<and> nDone (lNet s) then Some (set_phase i (Answered noReply) s) else None)"
| "lab_step (Take i) s =
     (if phase_of s i = Some Queued \<and> nLoop (lNet s)
      then Some (set_phase i Taken s
        \<lparr>lNet := (lNet s)\<lparr>nCount := nCount (lNet s) + 1, nBytes := nBytes (lNet s) + int (length (rqArgs (cReq (lCalls s ! i))))\<rparr>\<rparr>)
      else None)"
| "lab_step (Begin i drop_it) s =
     (if phase_of s i = Some Taken then Some (set_phase i (start_req drop_it (cReq (lCalls s ! i)) (lNet s)) s) else None)"
| "lab_step (Handle i) s =
     (case phase_of s i of
        Some (Running p sn rel lr) \<Rightarrow> run_handler i p (Ran p sn rel lr) s
      | Some (GaveUp p) \<Rightarrow> run_handler i p (\<lambda>_. Answered noReply) s
      | _ \<Rightarrow> None)"
| "lab_step (Poll i) s =
     (case phase_of s i of
        Some (Running p sn rel lr) \<Rightarrow>
          Some (if isServerDead (rqEnd (cReq (lCalls s ! i))) sn p (lNet s) then set_phase i (GaveUp p) s else s)
      | _ \<Rightarrow> None)"
| "lab_step (Finish i drop_it delay_it) s =
     (case phase_of s i of
        Some (Ran p sn rel lr reply) \<Rightarrow>
          (case finish_req drop_it delay_it (cReq (lCalls s ! i)) p sn rel lr reply (lNet s) of
             (ph, rn) \<Rightarrow> Some (set_phase i ph s\<lparr>lNet := rn\<rparr>))
      | _ \<Rightarrow> None)"
| "lab_step (Deliver i) s =
     (case phase_of s i of
        Some (Replying reply) \<Rightarrow>
          Some (set_phase i (Answered reply) s\<lparr>lNet := (lNet s)\<lparr>nBytes := nBytes (lNet s) + int (length (rpReply reply))\<rparr>\<rparr>)
      | _ \<Rightarrow> None)"
| "lab_step StopLoop s = (if nDone (lNet s) then Some (s\<lparr>lNet := (lNet s)\<lparr>nLoop := False\<rparr>\<rparr>) else None)"
| "lab_step (Admin a) s = map_option (\<lambda>rn. s\<lparr>lNet := rn\<rparr>) (net_op a (lNet s))"

fun lab_run :: "'s labEvent list \<Rightarrow> 's labSys \<Rightarrow> 's labSys option" where
  "lab_run [] s = Some s"
| "lab_run (e # es) s = Option.bind (lab_step e s) (lab_run es)"

definition lab_start :: "'s labSys" where
  "lab_start = \<lparr>lNet = MakeNetwork, lCalls = [], lLog = []\<rparr>"

section \<open>The invariant\<close>

text \<open>What the log says of a request in each phase.\<close>

fun logged :: "phase \<Rightarrow> replyMsg list \<Rightarrow> bool" where
  "logged Queued rs \<longleftrightarrow> rs = []"
| "logged Taken rs \<longleftrightarrow> rs = []"
| "logged (Running p sn rel lr) rs \<longleftrightarrow> rs = []"
| "logged (GaveUp p) rs \<longleftrightarrow> rs = []"
| "logged (Ran p sn rel lr r) rs \<longleftrightarrow> rs = [r]"
| "logged (Replying r) rs \<longleftrightarrow> rs = [r] \<or> rs = [] \<and> r = noReply"
| "logged (Answered r) rs \<longleftrightarrow> rs = [r] \<or> length rs \<le> 1 \<and> r = noReply"

definition log_of :: "nat \<Rightarrow> (nat \<times> replyMsg) list \<Rightarrow> replyMsg list" where
  "log_of i lg = map snd (filter (\<lambda>(j, r). j = i) lg)"

definition lab_inv :: "'s labSys \<Rightarrow> bool" where
  "lab_inv s \<longleftrightarrow>
     (\<forall>i < length (lCalls s). logged (cPhase (lCalls s ! i)) (log_of i (lLog s))) \<and>
     (\<forall>(i, r) \<in> set (lLog s). i < length (lCalls s)) \<and> (nLoop (lNet s) \<or> nDone (lNet s))"

definition ptr_inv :: "'s labSys \<Rightarrow> bool" where
  "ptr_inv s \<longleftrightarrow>
     (\<forall>sn p. nServers (lNet s) sn = Some p \<longrightarrow> p < length (nHeap (lNet s))) \<and>
     (\<forall>i < length (lCalls s). \<forall>p sn rel lr. cPhase (lCalls s ! i) = Running p sn rel lr \<longrightarrow> p < length (nHeap (lNet s)))"

lemma phase_of_some: "phase_of s i = Some ph \<longleftrightarrow> i < length (lCalls s) \<and> cPhase (lCalls s ! i) = ph"
  by (simp add: phase_of_def)

lemma set_phase_simps [simp]:
  "lNet (set_phase i ph s) = lNet s" "lLog (set_phase i ph s) = lLog s" "length (lCalls (set_phase i ph s)) = length (lCalls s)"
  by (simp_all add: set_phase_def)

lemma set_phase_net [simp]: "set_phase i ph s\<lparr>lNet := lNet s\<rparr> = set_phase i ph s"
  by (simp add: set_phase_def)

lemma nth_set_phase: "j < length (lCalls s) \<Longrightarrow>
    lCalls (set_phase i ph s) ! j = (if j = i then (lCalls s ! i)\<lparr>cPhase := ph\<rparr> else lCalls s ! j)"
  by (auto simp: set_phase_def nth_list_update)

lemma log_of_snoc: "log_of i (lg @ [(j, r)]) = log_of i lg @ (if j = i then [r] else [])"
  by (simp add: log_of_def)

text \<open>A step that only moves request \<open>i\<close> on, to a phase the same log still explains.\<close>

lemma move_inv:
  assumes "lab_inv s" "i < length (lCalls s)" "logged ph (log_of i (lLog s))"
    "nLoop rn \<or> nDone rn"
  shows "lab_inv (set_phase i ph s\<lparr>lNet := rn\<rparr>)"
  using assms by (auto simp: lab_inv_def nth_set_phase)

lemma handler_inv:
  assumes "lab_inv s" "i < length (lCalls s)" "log_of i (lLog s) = []" "run_handler i p f s = Some s'"
    "\<And>r. logged (f r) [r]"
  shows "lab_inv s'"
  using assms
  by (auto simp: run_handler_def lab_inv_def nth_set_phase log_of_snoc split: option.splits)

lemma lab_step_inv:
  assumes "lab_inv s" "lab_step e s = Some s'"
  shows "lab_inv s'"
proof -
  have here: "logged (cPhase (lCalls s ! i)) (log_of i (lLog s))" if "i < length (lCalls s)" for i
    using assms(1) that by (simp add: lab_inv_def)
  have net: "nLoop (lNet s) \<or> nDone (lNet s)" using assms(1) by (simp add: lab_inv_def)
  show ?thesis
  proof (cases e)
    case (Send req)
    have "log_of (length (lCalls s)) (lLog s) = []" using assms(1) by (auto simp: lab_inv_def log_of_def filter_empty_conv)
    then show ?thesis using assms Send by (auto simp: lab_inv_def nth_append less_Suc_eq)
  next
    case (Refuse i)
    then have "i < length (lCalls s)" "cPhase (lCalls s ! i) = Queued" "s' = set_phase i (Answered noReply) s\<lparr>lNet := lNet s\<rparr>"
      using assms(2) by (auto simp: phase_of_some split: if_splits)
    then show ?thesis using move_inv [OF assms(1) _ _ net, of i "Answered noReply"] here [of i] by simp
  next
    case (Take i)
    then show ?thesis using assms(2) here [of i] net
      by (auto simp: phase_of_some split: if_splits intro!: move_inv [OF assms(1)])
  next
    case (Begin i d)
    then have i: "i < length (lCalls s)" "cPhase (lCalls s ! i) = Taken"
      "s' = set_phase i (start_req d (cReq (lCalls s ! i)) (lNet s)) s\<lparr>lNet := lNet s\<rparr>"
      using assms(2) by (auto simp: phase_of_some split: if_splits)
    have "logged (start_req d (cReq (lCalls s ! i)) (lNet s)) []"
      by (auto simp: start_req_def split: prod.splits option.splits bool.splits)
    then show ?thesis using move_inv [OF assms(1) i(1) _ net] here [OF i(1)] i(2,3) by simp
  next
    case (Handle i)
    then show ?thesis using assms(2) here [of i]
      by (auto simp: phase_of_some split: option.splits phase.splits elim!: handler_inv [OF assms(1)])
  next
    case (Poll i)
    then obtain p sn rel lr where i: "i < length (lCalls s)" "cPhase (lCalls s ! i) = Running p sn rel lr"
      and s': "s' = s \<or> s' = set_phase i (GaveUp p) s\<lparr>lNet := lNet s\<rparr>"
      using assms(2) by (auto simp: phase_of_some split: option.splits phase.splits if_splits)
    then show ?thesis using move_inv [OF assms(1) i(1) _ net, of "GaveUp p"] here [OF i(1)] assms(1) by auto
  next
    case (Finish i d y)
    then obtain p sn rel lr r ph rn where i: "i < length (lCalls s)" "cPhase (lCalls s ! i) = Ran p sn rel lr r"
      and f: "finish_req d y (cReq (lCalls s ! i)) p sn rel lr r (lNet s) = (ph, rn)" and s': "s' = set_phase i ph s\<lparr>lNet := rn\<rparr>"
      using assms(2) by (auto simp: phase_of_some split: option.splits phase.splits prod.splits)
    have "logged ph [r]" "nLoop rn = nLoop (lNet s)" "nDone rn = nDone (lNet s)"
      using f by (auto simp: finish_req_def split: if_splits)
    then show ?thesis unfolding s' using here [OF i(1)] i net by (intro move_inv [OF assms(1) i(1)]) auto
  next
    case (Deliver i)
    then obtain r where i: "i < length (lCalls s)" "cPhase (lCalls s ! i) = Replying r"
      and s': "s' = set_phase i (Answered r) s\<lparr>lNet := (lNet s)\<lparr>nBytes := nBytes (lNet s) + int (length (rpReply r))\<rparr>\<rparr>"
      using assms(2) by (auto simp: phase_of_some split: option.splits phase.splits)
    show ?thesis unfolding s' using here [OF i(1)] i net by (intro move_inv [OF assms(1) i(1)]) auto
  next
    case StopLoop
    then show ?thesis using assms by (auto simp: lab_inv_def split: if_splits)
  next
    case (Admin a)
    then obtain rn where rn: "net_op a (lNet s) = Some rn" "s' = s\<lparr>lNet := rn\<rparr>" using assms(2) by auto
    have "nLoop rn = nLoop (lNet s) \<and> (nDone (lNet s) \<longrightarrow> nDone rn)"
      using rn(1) by (cases a) (auto simp: net_op_defs split: if_splits)
    then show ?thesis using assms(1) rn(2) by (auto simp: lab_inv_def)
  qed
qed

lemma lab_run_inv: "lab_inv s \<Longrightarrow> lab_run es s = Some s' \<Longrightarrow> lab_inv s'"
  by (induction es arbitrary: s) (auto split: bind_splits dest: lab_step_inv)

lemma lab_start_inv: "lab_inv lab_start"
  by (simp add: lab_inv_def lab_start_def MakeNetwork_def)
text \<open>Pointers of servers and of running handlers stay inside the memory.\<close>

lemma start_req_running:
  "start_req d req rn = Running p sn rel lr \<Longrightarrow> nServers rn sn = Some p \<and> nConnections rn (rqEnd req) = Some sn \<and> nEnabled rn (rqEnd req)"
  by (auto simp: start_req_def readEndnameInfo_def split: prod.splits option.splits bool.splits if_splits)

lemma move_ptr:
  assumes "ptr_inv s" "\<And>p sn rel lr. ph = Running p sn rel lr \<Longrightarrow> p < length (nHeap (lNet s))"
    "nServers rn = nServers (lNet s)" "length (nHeap rn) = length (nHeap (lNet s))"
  shows "ptr_inv (set_phase i ph s\<lparr>lNet := rn\<rparr>)"
  using assms by (fastforce simp: ptr_inv_def nth_set_phase)

lemma net_op_ptr:
  assumes "net_op a rn = Some rn'" "\<forall>sn p. nServers rn sn = Some p \<longrightarrow> p < length (nHeap rn)"
  shows "(\<forall>sn p. nServers rn' sn = Some p \<longrightarrow> p < length (nHeap rn')) \<and> length (nHeap rn) \<le> length (nHeap rn')"
  using assms by (cases a) (auto simp: net_op_defs less_Suc_eq split: if_splits)

lemma lab_step_ptr:
  assumes "ptr_inv s" "lab_step e s = Some s'"
  shows "ptr_inv s'"
proof (cases e)
  case (Send req)
  then show ?thesis using assms by (auto simp: ptr_inv_def nth_append less_Suc_eq)
next
  case (Begin i d)
  then have "s' = set_phase i (start_req d (cReq (lCalls s ! i)) (lNet s)) s\<lparr>lNet := lNet s\<rparr>"
    using assms(2) by (auto split: if_splits)
  moreover have "p < length (nHeap (lNet s))" if "start_req d (cReq (lCalls s ! i)) (lNet s) = Running p sn rel lr" for p sn rel lr
    using start_req_running [OF that] assms(1) by (auto simp: ptr_inv_def)
  ultimately show ?thesis by (simp only:) (rule move_ptr [OF assms(1)], blast, simp_all)
next
  case (Handle i)
  then show ?thesis using assms
    by (auto simp: run_handler_def ptr_inv_def nth_set_phase split: option.splits phase.splits if_splits)
next
  case (Finish i d y)
  then obtain p sn rel lr r ph rn where "finish_req d y (cReq (lCalls s ! i)) p sn rel lr r (lNet s) = (ph, rn)" "s' = set_phase i ph s\<lparr>lNet := rn\<rparr>"
    using assms(2) by (auto split: option.splits phase.splits prod.splits)
  then show ?thesis by (auto simp: finish_req_def split: if_splits intro!: move_ptr [OF assms(1)])
next
  case (Admin a)
  then obtain rn where rn: "net_op a (lNet s) = Some rn" "s' = s\<lparr>lNet := rn\<rparr>" using assms(2) by auto
  then show ?thesis using assms(1) net_op_ptr [OF rn(1)] by (fastforce simp: ptr_inv_def)
next
  case (Refuse i)
  then have "s' = set_phase i (Answered noReply) s" using assms(2) by (auto split: if_splits)
  then show ?thesis using move_ptr [OF assms(1), of "Answered noReply" "lNet s" i] by simp
next
  case (Poll i)
  then have "s' = s \<or> (\<exists>p. s' = set_phase i (GaveUp p) s)"
    using assms(2) by (auto split: option.splits phase.splits if_splits)
  then show ?thesis using assms(1) move_ptr [OF assms(1), of "GaveUp _" "lNet s" i] by auto
qed (use assms in \<open>auto split: if_splits option.splits phase.splits simp: ptr_inv_def nth_set_phase\<close>)

lemma lab_run_ptr: "ptr_inv s \<Longrightarrow> lab_run es s = Some s' \<Longrightarrow> ptr_inv s'"
  by (induction es arbitrary: s) (auto split: bind_splits dest: lab_step_ptr)

lemma lab_start_ptr: "ptr_inv lab_start"
  by (simp add: ptr_inv_def lab_start_def MakeNetwork_def)

section \<open>Properties\<close>

lemma distinct_log: "(\<And>i. length (log_of i lg) \<le> 1) \<Longrightarrow> distinct (map fst lg)"
proof (induction lg rule: rev_induct)
  case (snoc x lg)
  obtain j r where x: "x = (j, r)" by fastforce
  have "length (log_of i lg) \<le> 1" for i using snoc.prems [of i] by (simp add: x log_of_snoc split: if_splits)
  moreover have "j \<notin> fst ` set lg" using snoc.prems [of j] by (auto simp: x log_of_snoc log_of_def filter_empty_conv)
  ultimately show ?case using snoc.IH by (simp add: x)
qed simp

lemma logged_once: "logged ph rs \<Longrightarrow> length rs \<le> 1"
  by (cases ph) auto

text \<open>A session for the witnesses: an echo server, reached, made unreliable, and deleted.\<close>

definition echo :: "nat service" where
  "echo = \<lparr>svcName = ''E'', svcMethods = [''Say'' \<mapsto> (\<lambda>k args. (args, k + 1))]\<rparr>"

definition echo_net :: "nat labEvent list" where
  "echo_net = [Admin (OpMakeServer 0), Admin (OpAddService 0 echo), Admin (OpAddServer ''s'' 0), Admin (OpMakeEnd ''e''),
     Admin (OpConnect ''e'' ''s''), Admin (OpEnable ''e'' True)]"

definition say :: "string \<Rightarrow> reqMsg" where
  "say x = \<lparr>rqEnd = ''e'', rqMeth = ''E.Say'', rqArgs = x\<rparr>"

lemmas lab_eval = echo_net_def echo_def say_def lab_start_def MakeNetwork_def net_op_defs MakeServer_def AddService_def
  phase_of_def set_phase_def start_req_def readEndnameInfo_def run_handler_def server_dispatch_def service_dispatch_def
  LastIndex_def finish_req_def isServerDead_def answer_def noReply_def

text \<open>
  C33. A remote call executes its handler at most once, and true means that it did. In every run of
  the network, with any losses, delays, deletions and reconnections, no request runs a handler
  twice; a call that returns true returns what the handler returned for this very request; and a
  request that the network has not started yet has run nothing.
\<close>

theorem rpc_at_most_once:
  assumes "lab_run es lab_start = Some s"
  shows "distinct (map fst (lLog s)) \<and>
    (\<forall>i < length (lCalls s). \<forall>r. answer (lCalls s ! i) = Some r \<and> rpOk r \<longrightarrow> (i, r) \<in> set (lLog s)) \<and>
    (\<forall>i < length (lCalls s). cPhase (lCalls s ! i) \<in> {Queued, Taken} \<longrightarrow> i \<notin> fst ` set (lLog s))"
proof -
  have inv: "lab_inv s" by (rule lab_run_inv [OF lab_start_inv assms])
  have l: "logged (cPhase (lCalls s ! i)) (log_of i (lLog s))" if "i < length (lCalls s)" for i
    using inv that by (simp add: lab_inv_def)
  have "length (log_of i (lLog s)) \<le> 1" for i
  proof (cases "i < length (lCalls s)")
    case True
    then show ?thesis using logged_once [OF l] by simp
  next
    case False
    then have "log_of i (lLog s) = []" using inv by (auto simp: lab_inv_def log_of_def filter_empty_conv)
    then show ?thesis by simp
  qed
  then have "distinct (map fst (lLog s))" by (rule distinct_log)
  moreover have "(i, r) \<in> set (lLog s)" if "i < length (lCalls s)" "answer (lCalls s ! i) = Some r" "rpOk r" for i r
  proof -
    have "cPhase (lCalls s ! i) = Answered r" using that(2,3) by (auto simp: answer_def noReply_def split: phase.splits)
    then have "r \<in> set (log_of i (lLog s))" using l [OF that(1)] that(3) by (auto simp: noReply_def)
    then show ?thesis by (auto simp: log_of_def)
  qed
  moreover have "i \<notin> fst ` set (lLog s)" if "i < length (lCalls s)" "cPhase (lCalls s ! i) \<in> {Queued, Taken}" for i
    using l [OF that(1)] that(2) by (auto simp: log_of_def filter_empty_conv)
  ultimately show ?thesis by blast
qed

lemma rpc_at_most_once_witness:
  "\<exists>s. lab_run (echo_net @ [Send (say ''hi''), Take 0, Begin 0 False, Handle 0, Finish 0 False False]) lab_start = Some s \<and>
     answer (lCalls s ! 0) = Some \<lparr>rpOk = True, rpReply = ''hi''\<rparr> \<and> (0, \<lparr>rpOk = True, rpReply = ''hi''\<rparr>) \<in> set (lLog s)"
proof -
  let ?es = "echo_net @ [Send (say ''hi''), Take 0, Begin 0 False, Handle 0, Finish 0 False False]"
  have r: "case lab_run ?es lab_start of None \<Rightarrow> False | Some s \<Rightarrow>
      length (lCalls s) = 1 \<and> answer (lCalls s ! 0) = Some \<lparr>rpOk = True, rpReply = ''hi''\<rparr>"
    by (simp add: lab_eval)
  then obtain s where s: "lab_run ?es lab_start = Some s" "length (lCalls s) = 1"
    "answer (lCalls s ! 0) = Some \<lparr>rpOk = True, rpReply = ''hi''\<rparr>" by (auto split: option.splits)
  have "\<forall>i < length (lCalls s). \<forall>r. answer (lCalls s ! i) = Some r \<and> rpOk r \<longrightarrow> (i, r) \<in> set (lLog s)"
    using rpc_at_most_once [OF s(1)] by blast
  then show ?thesis using s by auto
qed

text \<open>What a request whose server has gone can still become.\<close>

definition lost_to :: "srvptr \<Rightarrow> string \<Rightarrow> phase \<Rightarrow> bool" where
  "lost_to p sn ph \<longleftrightarrow>
     (\<exists>rel lr. ph = Running p sn rel lr) \<or> (\<exists>rel lr r. ph = Ran p sn rel lr r) \<or> ph = GaveUp p \<or> ph = Answered noReply"

lemma net_op_servers:
  assumes "net_op a rn = Some rn'" "nServers rn sn \<noteq> Some p" "a \<noteq> OpAddServer sn p"
  shows "nServers rn' sn \<noteq> Some p"
  using assms by (cases a) (auto simp: net_op_defs split: if_splits)

lemma lost_stays:
  assumes "i < length (lCalls s) \<and> nServers (lNet s) sn \<noteq> Some p \<and> lost_to p sn (cPhase (lCalls s ! i))"
    "lab_step e s = Some s'" "e \<noteq> Admin (OpAddServer sn p)"
  shows "i < length (lCalls s') \<and> nServers (lNet s') sn \<noteq> Some p \<and> lost_to p sn (cPhase (lCalls s' ! i))"
proof (cases e)
  case (Admin a)
  then show ?thesis using assms net_op_servers [of a "lNet s" _ sn p] by auto
next
  case (Finish j d y)
  then show ?thesis using assms
    by (auto simp: phase_of_some nth_set_phase lost_to_def finish_req_def isServerDead_def
        split: option.splits phase.splits prod.splits if_splits)
next
  case (Send req)
  then show ?thesis using assms by (auto simp: nth_append)
qed (use assms in \<open>auto simp: phase_of_some nth_set_phase lost_to_def run_handler_def
      split: option.splits phase.splits prod.splits if_splits\<close>)

text \<open>
  C34. A deleted server does not answer unless it is put back. When the server that a started request
  runs on is no longer the one behind its name, then in every continuation the call has no
  answer, or false, even if the handler still runs to its end, unless this very server has been
  added again under that name: a client hears nothing from a server whose persister may already
  have been taken over. (The tests start every server as a new one, group.go.)
\<close>

theorem deleted_server_is_silent:
  assumes "lab_run es0 lab_start = Some s" "i < length (lCalls s)"
    "(\<exists>rel lr. cPhase (lCalls s ! i) = Running p sn rel lr) \<or> (\<exists>rel lr r0. cPhase (lCalls s ! i) = Ran p sn rel lr r0)"
    "nServers (lNet s) sn \<noteq> Some p" "lab_run es s = Some s'"
  shows "answer (lCalls s' ! i) \<in> {None, Some noReply} \<or> Admin (OpAddServer sn p) \<in> set es"
proof (cases "Admin (OpAddServer sn p) \<in> set es")
  case False
  have "i < length (lCalls s) \<and> nServers (lNet s) sn \<noteq> Some p \<and> lost_to p sn (cPhase (lCalls s ! i))"
    using assms(2-4) by (auto simp: lost_to_def)
  from this assms(5) False
  have "i < length (lCalls s') \<and> nServers (lNet s') sn \<noteq> Some p \<and> lost_to p sn (cPhase (lCalls s' ! i))"
  proof (induction es arbitrary: s)
    case (Cons e es)
    then obtain s1 where s1: "lab_step e s = Some s1" "lab_run es s1 = Some s'" by (auto split: bind_splits)
    have "e \<noteq> Admin (OpAddServer sn p)" using Cons.prems(3) by auto
    from lost_stays [OF Cons.prems(1) s1(1) this] show ?case using Cons.IH s1(2) Cons.prems(3) by simp
  qed simp
  then show ?thesis by (auto simp: lost_to_def answer_def)
qed simp

lemma deleted_server_is_silent_witness:
  "\<exists>s s'. lab_run (echo_net @ [Send (say ''hi''), Take 0, Begin 0 False, Admin (OpDeleteServer ''s'')]) lab_start = Some s \<and>
     lab_run [Handle 0, Finish 0 False False] s = Some s' \<and> srvState (nHeap (lNet s') ! 0) = 1 \<and>
     answer (lCalls s' ! 0) = Some noReply"
proof -
  let ?es = "echo_net @ [Send (say ''hi''), Take 0, Begin 0 False, Admin (OpDeleteServer ''s'')]"
  have r: "case lab_run ?es lab_start of None \<Rightarrow> False | Some s \<Rightarrow>
      length (lCalls s) = 1 \<and> cPhase (lCalls s ! 0) = Running 0 ''s'' True False \<and> nServers (lNet s) ''s'' = None \<and>
      (case lab_run [Handle 0, Finish 0 False False] s of None \<Rightarrow> False | Some s' \<Rightarrow>
         srvState (nHeap (lNet s') ! 0) = 1 \<and> answer (lCalls s' ! 0) \<noteq> None)"
    by (simp add: lab_eval)
  then obtain s s' where s: "lab_run ?es lab_start = Some s" "length (lCalls s) = 1" "cPhase (lCalls s ! 0) = Running 0 ''s'' True False"
    "nServers (lNet s) ''s'' = None" "lab_run [Handle 0, Finish 0 False False] s = Some s'"
    "srvState (nHeap (lNet s') ! 0) = 1" "answer (lCalls s' ! 0) \<noteq> None" by (auto split: option.splits)
  have "(\<exists>rel lr. cPhase (lCalls s ! 0) = Running 0 ''s'' rel lr) \<or> (\<exists>rel lr r0. cPhase (lCalls s ! 0) = Ran 0 ''s'' rel lr r0)"
    using s(3) by blast
  from deleted_server_is_silent [OF s(1) _ this _ s(5)] s(2,4)
  have "answer (lCalls s' ! 0) \<in> {None, Some noReply}" by simp
  then show ?thesis using s by auto
qed

section \<open>Every call returns\<close>

text \<open>
  The steps of one request, with any outcome of the coins. (Looking whether the server is still
  there, \<open>Poll\<close>, is repeated until the handler returns and is not counted.)
\<close>

fun own_step :: "nat \<Rightarrow> 's labEvent \<Rightarrow> bool" where
  "own_step i (Refuse j) \<longleftrightarrow> j = i"
| "own_step i (Take j) \<longleftrightarrow> j = i"
| "own_step i (Begin j _) \<longleftrightarrow> j = i"
| "own_step i (Handle j) \<longleftrightarrow> j = i"
| "own_step i (Finish j _ _) \<longleftrightarrow> j = i"
| "own_step i (Deliver j) \<longleftrightarrow> j = i"
| "own_step i _ \<longleftrightarrow> False"

text \<open>How many of them are left at most.\<close>

fun rank :: "phase \<Rightarrow> nat" where
  "rank Queued = 5"
| "rank Taken = 4"
| "rank (Running p sn rel lr) = 3"
| "rank (Ran p sn rel lr r) = 2"
| "rank (GaveUp p) = 1"
| "rank (Replying r) = 1"
| "rank (Answered r) = 0"

lemma answer_none_rank: "answer c = None \<Longrightarrow> 0 < rank (cPhase c)"
  by (auto simp: answer_def split: phase.splits)

lemma start_req_rank: "rank (start_req d req rn) < 4"
  by (auto simp: start_req_def split: prod.splits option.splits bool.splits)

lemma finish_req_rank: "finish_req d y req p sn rel lr r rn = (ph, rn') \<Longrightarrow> rank ph < 2"
  by (auto simp: finish_req_def split: if_splits)

text \<open>A step of the request takes one of them at least, and nobody else gives one back.\<close>

lemma lab_step_rank:
  assumes "lab_step e s = Some s'" "i < length (lCalls s)"
  shows "i < length (lCalls s') \<and> cReq (lCalls s' ! i) = cReq (lCalls s ! i) \<and>
    rank (cPhase (lCalls s' ! i)) + (if own_step i e then 1 else 0) \<le> rank (cPhase (lCalls s ! i))"
proof (cases e)
  case (Begin j d)
  then show ?thesis using assms start_req_rank [of d "cReq (lCalls s ! j)" "lNet s"]
    by (auto simp: phase_of_some nth_set_phase split: if_splits)
next
  case (Finish j d y)
  then obtain p sn rel lr r ph rn where "cPhase (lCalls s ! j) = Ran p sn rel lr r" "s' = set_phase j ph s\<lparr>lNet := rn\<rparr>"
    "finish_req d y (cReq (lCalls s ! j)) p sn rel lr r (lNet s) = (ph, rn)"
    using assms(1) by (auto simp: phase_of_some split: option.splits phase.splits prod.splits)
  then show ?thesis using assms(2) Finish finish_req_rank [of d y "cReq (lCalls s ! j)" p sn rel lr r "lNet s" ph rn]
    by (auto simp: nth_set_phase)
next
  case (Send req)
  then show ?thesis using assms by (auto simp: nth_append)
qed (use assms in \<open>auto simp: phase_of_some nth_set_phase run_handler_def split: option.splits phase.splits if_splits\<close>)

lemma lab_run_rank:
  "lab_run es s = Some s' \<Longrightarrow> i < length (lCalls s) \<Longrightarrow>
   i < length (lCalls s') \<and> cReq (lCalls s' ! i) = cReq (lCalls s ! i) \<and>
     rank (cPhase (lCalls s' ! i)) + length (filter (own_step i) es) \<le> rank (cPhase (lCalls s ! i))"
proof (induction es arbitrary: s)
  case (Cons e es)
  obtain s1 where s1: "lab_step e s = Some s1" "lab_run es s1 = Some s'" using Cons.prems(1) by (auto split: bind_splits)
  show ?case using Cons.IH [OF s1(2)] lab_step_rank [OF s1(1) Cons.prems(2)] by auto
qed simp

lemma lab_run_append: "lab_run (es @ es') s = Option.bind (lab_run es s) (lab_run es')"
  by (induction es arbitrary: s) (auto split: bind_split)

text \<open>And one of them is always possible, whatever the coins will be.\<close>

lemma own_step_possible:
  assumes "i < length (lCalls s)" "answer (lCalls s ! i) = None" "lab_inv s" "ptr_inv s"
    "\<forall>rs \<in> set (nHeap (lNet s)). server_dispatch (cReq (lCalls s ! i)) rs \<noteq> None"
  shows "\<exists>e \<in> {Refuse i, Take i, Begin i lost, Handle i, Finish i dropped delayed, Deliver i}. lab_step e s \<noteq> None"
proof (cases "cPhase (lCalls s ! i)")
  case Queued
  then show ?thesis using assms(1,3) by (auto simp: phase_of_def lab_inv_def)
next
  case (Running p sn rel lr)
  then have "p < length (nHeap (lNet s))" using assms(1,4) by (auto simp: ptr_inv_def)
  then have "server_dispatch (cReq (lCalls s ! i)) (nHeap (lNet s) ! p) \<noteq> None" using assms(5) by simp
  then show ?thesis using Running assms(1) by (auto simp: phase_of_def run_handler_def)
next
  case (Ran p sn rel lr r)
  then show ?thesis using assms(1) by (auto simp: phase_of_def split: prod.splits)
qed (use assms(1,2) in \<open>auto simp: phase_of_def answer_def\<close>)

text \<open>
  C35. Every call returns. In every run, whatever other requests and the network do in between and
  whatever is lost or delayed, a call takes at most five steps of its own, it has its answer
  after the fifth at the latest, and until it has one its next step is possible for every outcome
  of the coins, provided the servers' handlers return for this request.
\<close>

theorem rpc_returns:
  fixes s :: "'s labSys"
  assumes "lab_run es lab_start = Some s" "i < length (lCalls s)" "lab_run es' s = Some s'"
    "\<forall>rs \<in> set (nHeap (lNet s')). server_dispatch (cReq (lCalls s ! i)) rs \<noteq> None"
  shows "length (filter (own_step i) es') \<le> 5 \<and>
    (answer (lCalls s' ! i) = None \<longrightarrow> length (filter (own_step i) es') < 5 \<and>
       (\<forall>lost dropped delayed. \<exists>e \<in> {Refuse i, Take i, Begin i lost, Handle i, Finish i dropped delayed, Deliver i}.
          lab_step e s' \<noteq> None))"
proof -
  note r = lab_run_rank [OF assms(3,2)]
  have five: "rank ph \<le> 5" for ph by (cases ph) simp_all
  have run: "lab_run (es @ es') lab_start = Some s'" using assms(1,3) by (simp add: lab_run_append)
  have inv: "lab_inv s'" "ptr_inv s'"
    by (rule lab_run_inv [OF lab_start_inv run], rule lab_run_ptr [OF lab_start_ptr run])
  have "length (filter (own_step i) es') \<le> 5" using r five [of "cPhase (lCalls s ! i)"] by linarith
  moreover have "length (filter (own_step i) es') < 5" if "answer (lCalls s' ! i) = None"
    using r five [of "cPhase (lCalls s ! i)"] answer_none_rank [OF that] by linarith
  ultimately show ?thesis using own_step_possible [OF _ _ inv] r assms(4) by simp
qed

text \<open>A call whose reply is delayed needs all five.\<close>

lemma rpc_returns_witness:
  "\<exists>s s'. lab_run (echo_net @ [Admin (OpLongReordering True), Send (say ''hi'')]) lab_start = Some s \<and>
     lab_run [Take 0, Begin 0 False, Handle 0, Finish 0 False True] s = Some s' \<and> answer (lCalls s' ! 0) = None \<and>
     (\<exists>e \<in> {Refuse 0, Take 0, Begin 0 True, Handle 0, Finish 0 True True, Deliver 0}. lab_step e s' \<noteq> None)"
proof -
  let ?es = "echo_net @ [Admin (OpLongReordering True), Send (say ''hi'')]"
    and ?es' = "[Take 0, Begin 0 False, Handle 0, Finish 0 False True]"
  have r: "case lab_run ?es lab_start of None \<Rightarrow> False | Some s \<Rightarrow> length (lCalls s) = 1 \<and>
      (case lab_run ?es' s of None \<Rightarrow> False | Some s' \<Rightarrow> answer (lCalls s' ! 0) = None \<and>
         (\<forall>rs \<in> set (nHeap (lNet s')). server_dispatch (cReq (lCalls s ! 0)) rs \<noteq> None))"
    by (simp add: lab_eval)
  then obtain s s' where s: "lab_run ?es lab_start = Some s" "length (lCalls s) = 1" "lab_run ?es' s = Some s'"
    "answer (lCalls s' ! 0) = None" "\<forall>rs \<in> set (nHeap (lNet s')). server_dispatch (cReq (lCalls s ! 0)) rs \<noteq> None"
    by (auto split: option.splits)
  have "0 < length (lCalls s)" using s(2) by simp
  from rpc_returns [OF s(1) this s(3,5), THEN conjunct2] s(4) have
    "\<exists>e \<in> {Refuse 0, Take 0, Begin 0 True, Handle 0, Finish 0 True True, Deliver 0}. lab_step e s' \<noteq> None" by blast
  then show ?thesis using s(1,3,4) by blast
qed

end
