(* ===== verification/Demux.thy ===== *)
theory Demux
  imports Labrpc "HOL-Library.Word"
begin

text \<open>
  One connection between two processes of the tests (src/src/tester1/demux): the client numbers its
  calls with tags, writes them as frames on a byte stream, and one reader hands each reply to the
  call with its tag; the server serves every request in a goroutine of its own. The stream can
  break at any moment and lose any suffix of what is on its way. Encoding and decoding (gob, through
  Marshall and Unmarshall of src/src/labrpc/labrpc.go) and the server behind the connection are
  fields of \<open>env\<close>.
\<close>

section \<open>Frames\<close>

type_synonym Ttag = "32 word"

record msg =
  mTag :: Ttag
  mData :: string
  mOk :: bool

record 's env =
  eEnc :: "msg \<Rightarrow> string"
  eDec :: "string \<Rightarrow> msg option"
  eEncInit :: "string \<Rightarrow> string"
  eDecInit :: "string \<Rightarrow> string option"
  eServe :: "string \<Rightarrow> string \<Rightarrow> 's \<Rightarrow> (string \<times> bool) \<times> 's"

text \<open>What the code relies on: decoding gives back what was encoded.\<close>

definition codec :: "'s env \<Rightarrow> bool" where
  "codec v \<longleftrightarrow> (\<forall>m. eDec v (eEnc v m) = Some m) \<and> (\<forall>c. eDecInit v (eEncInit v c) = Some c)"

text \<open>A 32-bit length, least significant byte first; a longer length is cut off.\<close>

definition le32 :: "nat \<Rightarrow> string" where
  "le32 n = map (\<lambda>k. char_of (n div 256 ^ k)) [0..<4]"

definition le_val :: "string \<Rightarrow> nat" where
  "le_val bs = foldr (\<lambda>b a. of_char b + 256 * a) bs 0"

definition WriteCall :: "'s env \<Rightarrow> Ttag \<Rightarrow> string \<Rightarrow> bool \<Rightarrow> string" where
  "WriteCall v tag d ok =
     (let b = eEnc v \<lparr>mTag = tag, mData = d, mOk = ok\<rparr> in le32 (length b) @ b)"

text \<open>
  A read of a stream on which \<open>buf\<close> is still to come: it waits for a whole frame, unless the stream
  has ended. \<open>ReadErr\<close> tells whether the error is io.EOF; undecodable bytes are fatal.
\<close>

datatype readResult =
    Blocked
  | ReadErr bool
  | ReadFatal
  | Got msg string

definition ReadCall :: "'s env \<Rightarrow> bool \<Rightarrow> string \<Rightarrow> readResult" where
  "ReadCall v ended buf =
     (if length buf < 4 then (if ended then ReadErr (buf = []) else Blocked)
      else let nbyte = le_val (take 4 buf) in
        if length buf < 4 + nbyte then (if ended then ReadErr (length buf = 4) else Blocked)
        else case eDec v (take nbyte (drop 4 buf)) of
               None \<Rightarrow> ReadFatal
             | Some m \<Rightarrow> Got m (drop (4 + nbyte) buf))"

section \<open>The client\<close>

record callMap =
  cmClosed :: bool
  cmCalls :: "Ttag \<Rightarrow> nat option"

definition newCallMap :: callMap where
  "newCallMap = \<lparr>cmClosed = False, cmCalls = (\<lambda>_. None)\<rparr>"

definition cm_close :: "callMap \<Rightarrow> callMap" where
  "cm_close cm = cm\<lparr>cmClosed := True\<rparr>"

text \<open>A channel is the number of the call that waits on it; \<open>None\<close> is the error of a closed connection.\<close>

definition cm_put :: "Ttag \<Rightarrow> nat \<Rightarrow> callMap \<Rightarrow> callMap option" where
  "cm_put tag ch cm = (if cmClosed cm then None else Some (cm\<lparr>cmCalls := (cmCalls cm)(tag \<mapsto> ch)\<rparr>))"

definition cm_remove :: "Ttag \<Rightarrow> callMap \<Rightarrow> (nat \<times> callMap) option" where
  "cm_remove tag cm =
     (case cmCalls cm tag of
        None \<Rightarrow> None
      | Some ch \<Rightarrow> Some (ch, cm\<lparr>cmCalls := (cmCalls cm)(tag := None)\<rparr>))"

text \<open>Ranging over the map gives its tags in any order.\<close>

definition cm_outstanding :: "callMap \<Rightarrow> Ttag list \<Rightarrow> bool" where
  "cm_outstanding cm ts \<longleftrightarrow> distinct ts \<and> (\<forall>t. t \<in> set ts \<longleftrightarrow> cmCalls cm t \<noteq> None)"

record reply =
  rRep :: string
  rOk :: bool
  rErr :: bool

definition failed :: reply where
  "failed = \<lparr>rRep = [], rOk = False, rErr = True\<rparr>"

text \<open>The points of SendReceive between its steps, and those of the reader.\<close>

datatype callPhase =
    Tagged
  | Listed
  | Waiting
  | Returned reply

record call =
  kReq :: string
  kTag :: Ttag
  kPhase :: callPhase

datatype readerPhase =
    Reading
  | Broken
  | Draining "Ttag list"
  | Ended

text \<open>
  The connection with both its ends. \<open>dToSrv\<close>, \<open>dToClnt\<close> are the bytes on their way and \<open>dCut\<close> is whether the
  connection is closed; \<open>dServing\<close> and \<open>dWriting\<close> are the goroutines of the server, before and after
  ServeRequest. Two fields record history for the theorems: \<open>dServed\<close> what was asked and answered under
  which tag, \<open>dLongest\<close> the longest message written.
\<close>

record 's conn =
  dMap :: callMap
  dNextTag :: Ttag
  dReader :: readerPhase
  dCalls :: "call list"
  dToSrv :: string
  dToClnt :: string
  dCut :: bool
  dUp :: bool
  dClntEnd :: string
  dSrvReading :: bool
  dSrvClosed :: bool
  dServing :: "(Ttag \<times> string) list"
  dWriting :: "(Ttag \<times> string \<times> bool) list"
  dState :: 's
  dServed :: "(Ttag \<times> string \<times> string \<times> bool) list"
  dLongest :: nat

definition sent :: "'s env \<Rightarrow> Ttag \<Rightarrow> string \<Rightarrow> bool \<Rightarrow> 's conn \<Rightarrow> 's conn" where
  "sent v tag d ok s = s\<lparr>dLongest := max (dLongest s) (length (eEnc v \<lparr>mTag = tag, mData = d, mOk = ok\<rparr>))\<rparr>"

definition NewDemuxClnt :: "'s env \<Rightarrow> string \<Rightarrow> 's \<Rightarrow> 's conn" where
  "NewDemuxClnt v clnt st =
     sent v 0 (eEncInit v clnt) True
       \<lparr>dMap = newCallMap, dNextTag = 1, dReader = Reading, dCalls = [],
        dToSrv = WriteCall v 0 (eEncInit v clnt) True, dToClnt = [], dCut = False,
        dUp = False, dClntEnd = [], dSrvReading = False, dSrvClosed = False, dServing = [], dWriting = [],
        dState = st, dServed = [], dLongest = 0\<rparr>"

definition set_call :: "nat \<Rightarrow> callPhase \<Rightarrow> 's conn \<Rightarrow> 's conn" where
  "set_call i ph s = s\<lparr>dCalls := (dCalls s)[i := (dCalls s ! i)\<lparr>kPhase := ph\<rparr>]\<rparr>"

definition call_phase :: "'s conn \<Rightarrow> nat \<Rightarrow> callPhase option" where
  "call_phase s i = (if i < length (dCalls s) then Some (kPhase (dCalls s ! i)) else None)"

text \<open>
  SendReceive in its three steps: a tag, the call map, the write. A write on a closed connection
  fails, which the caller does not look at; it waits for the reader in any case.
\<close>

definition call_tag :: "string \<Rightarrow> 's conn \<Rightarrow> 's conn" where
  "call_tag b s =
     s\<lparr>dNextTag := dNextTag s + 1, dCalls := dCalls s @ [\<lparr>kReq = b, kTag = dNextTag s, kPhase = Tagged\<rparr>]\<rparr>"

definition call_put :: "nat \<Rightarrow> 's conn \<Rightarrow> 's conn" where
  "call_put i s =
     (case cm_put (kTag (dCalls s ! i)) i (dMap s) of
        None \<Rightarrow> set_call i (Returned failed) s
      | Some cm \<Rightarrow> set_call i Listed (s\<lparr>dMap := cm\<rparr>))"

definition call_write :: "'s env \<Rightarrow> nat \<Rightarrow> 's conn \<Rightarrow> 's conn" where
  "call_write v i s =
     (let c = dCalls s ! i in
      set_call i Waiting
        (if dCut s then s
         else sent v (kTag c) (kReq c) True (s\<lparr>dToSrv := dToSrv s @ WriteCall v (kTag c) (kReq c) True\<rparr>)))"

text \<open>
  reply: the channel has no buffer, so the reader waits (the state stays) until the call listens; a
  tag that nobody waits for is fatal.
\<close>

definition give_reply :: "Ttag \<Rightarrow> reply \<Rightarrow> ('s conn \<Rightarrow> 's conn) \<Rightarrow> 's conn \<Rightarrow> 's conn option" where
  "give_reply tag r next_read s =
     (case cm_remove tag (dMap s) of
        None \<Rightarrow> None
      | Some (i, cm) \<Rightarrow>
          Some (if call_phase s i = Some Waiting then next_read (set_call i (Returned r) (s\<lparr>dMap := cm\<rparr>)) else s))"

definition clnt_read :: "'s env \<Rightarrow> 's conn \<Rightarrow> 's conn option" where
  "clnt_read v s =
     (case ReadCall v (dCut s) (dToClnt s) of
        Blocked \<Rightarrow> Some s
      | ReadErr eof \<Rightarrow> Some (s\<lparr>dMap := cm_close (dMap s), dReader := Broken\<rparr>)
      | ReadFatal \<Rightarrow> None
      | Got m rest \<Rightarrow> give_reply (mTag m) \<lparr>rRep = mData m, rOk = mOk m, rErr = False\<rparr> (\<lambda>s. s\<lparr>dToClnt := rest\<rparr>) s)"

section \<open>The server\<close>

text \<open>The first message names the client; a connection that ends before it is fatal for the server.\<close>

definition NewDemuxSrv :: "'s env \<Rightarrow> 's conn \<Rightarrow> 's conn option" where
  "NewDemuxSrv v s =
     (case ReadCall v (dCut s) (dToSrv s) of
        Blocked \<Rightarrow> Some s
      | ReadErr eof \<Rightarrow> None
      | ReadFatal \<Rightarrow> None
      | Got m rest \<Rightarrow>
          (case eDecInit v (mData m) of
             None \<Rightarrow> None
           | Some c \<Rightarrow> Some (s\<lparr>dToSrv := rest, dUp := True, dClntEnd := c, dSrvReading := True\<rparr>)))"

definition srv_read :: "'s env \<Rightarrow> 's conn \<Rightarrow> 's conn option" where
  "srv_read v s =
     (case ReadCall v (dCut s) (dToSrv s) of
        Blocked \<Rightarrow> Some s
      | ReadErr eof \<Rightarrow> Some (s\<lparr>dSrvReading := False, dSrvClosed := (dSrvClosed s \<or> eof)\<rparr>)
      | ReadFatal \<Rightarrow> None
      | Got m rest \<Rightarrow> Some (s\<lparr>dToSrv := rest, dServing := dServing s @ [(mTag m, mData m)]\<rparr>))"

definition srv_serve :: "'s env \<Rightarrow> nat \<Rightarrow> 's conn \<Rightarrow> 's conn" where
  "srv_serve v j s =
     (let (t, req) = dServing s ! j; ((rep, ok), st) = eServe v (dClntEnd s) req (dState s) in
      s\<lparr>dServing := take j (dServing s) @ drop (Suc j) (dServing s), dWriting := dWriting s @ [(t, rep, ok)],
        dState := st, dServed := dServed s @ [(t, req, rep, ok)]\<rparr>)"

definition srv_write :: "'s env \<Rightarrow> nat \<Rightarrow> 's conn \<Rightarrow> 's conn" where
  "srv_write v j s =
     (let (t, rep, ok) = dWriting s ! j;
          s1 = s\<lparr>dWriting := take j (dWriting s) @ drop (Suc j) (dWriting s)\<rparr> in
      if dCut s then s1 else sent v t rep ok (s1\<lparr>dToClnt := dToClnt s @ WriteCall v t rep ok\<rparr>))"

text \<open>The connection ends, by either side or by itself: \<open>a\<close> and \<open>b\<close> bytes still arrive at the two ends.\<close>

definition cut_at :: "nat \<Rightarrow> nat \<Rightarrow> 's conn \<Rightarrow> 's conn" where
  "cut_at a b s = (if dCut s then s else s\<lparr>dCut := True, dToSrv := take a (dToSrv s), dToClnt := take b (dToClnt s)\<rparr>)"

definition clnt_Close :: "nat \<Rightarrow> nat \<Rightarrow> 's conn \<Rightarrow> 's conn" where
  "clnt_Close a b s = (if cmClosed (dMap s) then s else cut_at a b s)"

definition srv_Close :: "nat \<Rightarrow> nat \<Rightarrow> 's conn \<Rightarrow> 's conn" where
  "srv_Close a b s = (if dSrvClosed s then s else cut_at a b (s\<lparr>dSrvClosed := True\<rparr>))"

section \<open>Runs\<close>

datatype connEvent =
    Call string
  | PutCall nat
  | WriteReq nat
  | ReadReply
  | ListOutstanding "Ttag list"
  | FailNext
  | CloseClnt nat nat
  | CloseMap
  | StartSrv
  | ReadReq
  | ServeReq nat
  | WriteReply nat
  | CloseSrv nat nat
  | Break nat nat

text \<open>\<open>None\<close> is a fatal exit; an event that cannot happen changes nothing.\<close>

fun conn_step :: "'s env \<Rightarrow> connEvent \<Rightarrow> 's conn \<Rightarrow> 's conn option" where
  "conn_step v (Call b) s = Some (call_tag b s)"
| "conn_step v (PutCall i) s = Some (if call_phase s i = Some Tagged then call_put i s else s)"
| "conn_step v (WriteReq i) s = Some (if call_phase s i = Some Listed then call_write v i s else s)"
| "conn_step v ReadReply s = (if dReader s = Reading then clnt_read v s else Some s)"
| "conn_step v (ListOutstanding ts) s =
     Some (if dReader s = Broken \<and> cm_outstanding (dMap s) ts then s\<lparr>dReader := Draining ts\<rparr> else s)"
| "conn_step v FailNext s =
     (case dReader s of
        Draining [] \<Rightarrow> Some (s\<lparr>dReader := Ended\<rparr>)
      | Draining (t # ts) \<Rightarrow> give_reply t failed (\<lambda>s. s\<lparr>dReader := Draining ts\<rparr>) s
      | _ \<Rightarrow> Some s)"
| "conn_step v (CloseClnt a b) s = Some (clnt_Close a b s)"
| "conn_step v CloseMap s = Some (if dCut s then s\<lparr>dMap := cm_close (dMap s)\<rparr> else s)"
| "conn_step v StartSrv s = (if dUp s then Some s else NewDemuxSrv v s)"
| "conn_step v ReadReq s = (if dSrvReading s then srv_read v s else Some s)"
| "conn_step v (ServeReq j) s = Some (if j < length (dServing s) then srv_serve v j s else s)"
| "conn_step v (WriteReply j) s = Some (if j < length (dWriting s) then srv_write v j s else s)"
| "conn_step v (CloseSrv a b) s = Some (srv_Close a b s)"
| "conn_step v (Break a b) s = Some (cut_at a b s)"

fun conn_run :: "'s env \<Rightarrow> connEvent list \<Rightarrow> 's conn \<Rightarrow> 's conn option" where
  "conn_run v [] s = Some s"
| "conn_run v (e # es) s = do { s' \<leftarrow> conn_step v e s; conn_run v es s' }"

end
