(* ===== verification/Demux_Safety.thy ===== *)
theory Demux_Safety
  imports Demux
begin

text \<open>
  What a caller of SendReceive can rely on (src/src/tester1/demux): frames arrive whole and in order
  up to where the stream is cut, every reply reaches the call that asked, and no call is left behind
  when the connection ends.
\<close>

section \<open>Frames on a stream\<close>

lemma length_le32 [simp]: "length (le32 n) = 4"
  by (simp add: le32_def)

lemma le_val_le32:
  assumes "n < 2 ^ 32"
  shows "le_val (le32 n) = n"
proof -
  define q1 q2 q3 where q: "q1 = n div 256" "q2 = q1 div 256" "q3 = q2 div 256"
  have d: "n div 65536 = q2" "n div 16777216 = q3" by (simp_all add: q div_mult2_eq [symmetric])
  have "[0..<4] = [0, 1, 2, 3 :: nat]" by (simp add: upt_rec)
  then have "le_val (le32 n) = n mod 256 + 256 * (q1 mod 256 + 256 * (q2 mod 256 + 256 * (q3 mod 256)))"
    by (simp add: le_val_def le32_def d q(1))
  also have "q3 mod 256 = q3" using assms unfolding d(2) [symmetric] by (simp add: less_mult_imp_div_less)
  also have "q2 mod 256 + 256 * q3 = q2" unfolding q(3) by (rule mod_mult_div_eq)
  also have "q1 mod 256 + 256 * q2 = q1" unfolding q(2) by (rule mod_mult_div_eq)
  also have "n mod 256 + 256 * q1 = n" unfolding q(1) by (rule mod_mult_div_eq)
  finally show ?thesis .
qed

definition fits :: "'s env \<Rightarrow> msg \<Rightarrow> bool" where
  "fits v m \<longleftrightarrow> length (eEnc v m) < 2 ^ 32"

definition frames :: "'s env \<Rightarrow> msg list \<Rightarrow> string" where
  "frames v ms = concat (map (\<lambda>m. WriteCall v (mTag m) (mData m) (mOk m)) ms)"

lemma frames_simps [simp]:
  "frames v [] = []"
  "frames v (m # ms) = WriteCall v (mTag m) (mData m) (mOk m) @ frames v ms"
  "frames v (ms @ ms') = frames v ms @ frames v ms'"
  by (simp_all add: frames_def)

lemma WriteCall_msg: "WriteCall v (mTag m) (mData m) (mOk m) = le32 (length (eEnc v m)) @ eEnc v m"
  by (cases m) (simp add: WriteCall_def Let_def)

lemma WriteCall_length [simp]: "length (WriteCall v (mTag m) (mData m) (mOk m)) = 4 + length (eEnc v m)"
  by (simp add: WriteCall_msg)

lemma ReadCall_whole:
  assumes "codec v" "fits v m"
  shows "ReadCall v ended (WriteCall v (mTag m) (mData m) (mOk m) @ rest) = Got m rest"
  using assms le_val_le32 [of "length (eEnc v m)"]
  by (simp add: ReadCall_def WriteCall_msg fits_def codec_def Let_def)

lemma ReadCall_part:
  assumes "fits v m" "k < 4 + length (eEnc v m)"
  shows "\<exists>eof. ReadCall v ended (take k (WriteCall v (mTag m) (mData m) (mOk m) @ rest)) = (if ended then ReadErr eof else Blocked)"
proof (cases "k < 4")
  case True
  then show ?thesis by (simp add: ReadCall_def WriteCall_msg)
next
  case False
  then have "take 4 (take k (WriteCall v (mTag m) (mData m) (mOk m) @ rest)) = le32 (length (eEnc v m))"
    by (simp add: WriteCall_msg min_absorb1)
  then show ?thesis using assms False le_val_le32 [of "length (eEnc v m)"] by (simp add: ReadCall_def fits_def Let_def)
qed

text \<open>Some bytes of a stream of frames: all of them while the stream is open.\<close>

definition stream :: "'s env \<Rightarrow> bool \<Rightarrow> string \<Rightarrow> msg list \<Rightarrow> bool" where
  "stream v ended buf ms \<longleftrightarrow>
     (\<forall>m \<in> set ms. fits v m) \<and> (\<exists>k. buf = take k (frames v ms)) \<and> (\<not> ended \<longrightarrow> buf = frames v ms)"

lemma stream_read:
  assumes "codec v" "stream v ended buf ms"
  obtains "ReadCall v ended buf = Blocked" | eof where "ended" "ReadCall v ended buf = ReadErr eof"
  | m ms' rest where "ms = m # ms'" "ReadCall v ended buf = Got m rest" "stream v ended rest ms'"
proof (cases ms)
  case Nil
  then have "buf = []" using assms(2) by (auto simp: stream_def)
  then show ?thesis using that(1,2) by (cases ended) (auto simp: ReadCall_def)
next
  case (Cons m ms')
  obtain k where k: "buf = take k (frames v ms)" "fits v m" "\<forall>m \<in> set ms'. fits v m" "\<not> ended \<longrightarrow> buf = frames v ms"
    using assms(2) Cons by (auto simp: stream_def)
  show ?thesis
  proof (cases "k < 4 + length (eEnc v m)")
    case True
    have buf: "buf = take k (WriteCall v (mTag m) (mData m) (mOk m) @ frames v ms')" using k(1) Cons by simp
    show ?thesis using ReadCall_part [OF k(2) True, of ended "frames v ms'"] that(1,2) unfolding buf [symmetric]
      by (cases ended) auto
  next
    case False
    let ?rest = "take (k - (4 + length (eEnc v m))) (frames v ms')"
    have buf: "buf = WriteCall v (mTag m) (mData m) (mOk m) @ ?rest" using k(1) Cons False by simp
    have "stream v ended ?rest ms'" using k(3,4) buf Cons by (auto simp: stream_def)
    then show ?thesis using that(3) [OF Cons] ReadCall_whole [OF assms(1) k(2)] buf by simp
  qed
qed

lemma stream_write:
  assumes "stream v False buf ms" "fits v \<lparr>mTag = t, mData = d, mOk = ok\<rparr>"
  shows "stream v False (buf @ WriteCall v t d ok) (ms @ [\<lparr>mTag = t, mData = d, mOk = ok\<rparr>])"
  using assms by (auto simp: stream_def intro!: exI [of _ "length (frames v ms) + length (WriteCall v t d ok)"])

lemma stream_cut: "stream v False buf ms \<Longrightarrow> stream v True (take a buf) ms"
  by (auto simp: stream_def)

text \<open>Everything a reader gets from some bytes.\<close>

function read_calls :: "'s env \<Rightarrow> string \<Rightarrow> msg list" where
  "read_calls v buf = (case ReadCall v True buf of Got m rest \<Rightarrow> m # read_calls v rest | _ \<Rightarrow> [])"
  by pat_completeness auto
termination
  by (relation "measure (\<lambda>(v, buf). length buf)")
    (auto simp: ReadCall_def Let_def split: if_splits option.splits)

declare read_calls.simps [simp del]

lemma read_calls_frames:
  assumes "codec v" "\<forall>m \<in> set ms. fits v m"
  shows "\<exists>j \<le> length ms. read_calls v (take k (frames v ms)) = take j ms \<and> length (frames v (take j ms)) \<le> k \<and>
    (j < length ms \<longrightarrow> k < length (frames v (take (Suc j) ms)))"
  using assms(2)
proof (induction ms arbitrary: k)
  case Nil
  then show ?case by (simp add: read_calls.simps [of v "[]"] ReadCall_def)
next
  case (Cons m ms)
  note m = Cons.prems [simplified]
  show ?case
  proof (cases "k < 4 + length (eEnc v m)")
    case True
    then obtain eof where "ReadCall v True (take k (frames v (m # ms))) = ReadErr eof"
      using ReadCall_part [of v m k True "frames v ms"] m by auto
    then have "read_calls v (take k (frames v (m # ms))) = []" by (subst read_calls.simps) simp
    then show ?thesis using True by (intro exI [of _ 0]) simp
  next
    case False
    let ?k = "k - (4 + length (eEnc v m))"
    have "take k (frames v (m # ms)) = WriteCall v (mTag m) (mData m) (mOk m) @ take ?k (frames v ms)" using False by simp
    then have "read_calls v (take k (frames v (m # ms))) = m # read_calls v (take ?k (frames v ms))"
      using ReadCall_whole [OF assms(1), of m True "take ?k (frames v ms)"] m by (subst read_calls.simps) simp
    moreover obtain j where "j \<le> length ms" "read_calls v (take ?k (frames v ms)) = take j ms"
        "length (frames v (take j ms)) \<le> ?k" "j < length ms \<longrightarrow> ?k < length (frames v (take (Suc j) ms))"
      using Cons.IH [of ?k] m by auto
    ultimately show ?thesis using False by (intro exI [of _ "Suc j"]) auto
  qed
qed

text \<open>
  C39. Calls survive the byte stream. From the first \<open>k\<close> bytes of any sequence of calls a reader gets
  exactly the calls whose frames are complete, in order and unchanged, and then an error: nothing is
  invented at the cut. All the bytes give all the calls.
\<close>

theorem frames_round_trip:
  assumes "codec v" "\<forall>m \<in> set ms. length (eEnc v m) < 2 ^ 32"
  shows "read_calls v (frames v ms) = ms \<and>
    (\<exists>j \<le> length ms. read_calls v (take k (frames v ms)) = take j ms \<and> length (frames v (take j ms)) \<le> k \<and>
      (j < length ms \<longrightarrow> k < length (frames v (take (Suc j) ms))))"
proof -
  note calls = read_calls_frames [OF assms(1), of ms, unfolded fits_def, OF assms(2)]
  obtain j where j: "j \<le> length ms" "read_calls v (frames v ms) = take j ms"
      "j < length ms \<longrightarrow> length (frames v ms) < length (frames v (take (Suc j) ms))"
    using calls [of "length (frames v ms)"] by auto
  have "length (frames v (take (Suc j) ms)) \<le> length (frames v (take (Suc j) ms @ drop (Suc j) ms))"
    unfolding frames_simps by simp
  then have "read_calls v (frames v ms) = ms" using j by (cases "j < length ms") auto
  then show ?thesis using calls [of k] by simp
qed

section \<open>The invariant of a connection\<close>

text \<open>
  The callers: tags in order, and the call map holding exactly the calls between \<open>cm_put\<close> and their
  reply; what the reader still has to fail once the connection has ended.
\<close>

definition calls_ok :: "'s conn \<Rightarrow> bool" where
  "calls_ok s \<longleftrightarrow>
     (\<forall>i < length (dCalls s). kTag (dCalls s ! i) = word_of_nat (Suc i)) \<and>
     dNextTag s = word_of_nat (Suc (length (dCalls s))) \<and>
     (\<forall>t i. cmCalls (dMap s) t = Some i \<longleftrightarrow>
        i < length (dCalls s) \<and> kTag (dCalls s ! i) = t \<and> kPhase (dCalls s ! i) \<in> {Listed, Waiting}) \<and>
     (cmClosed (dMap s) \<longrightarrow> dCut s) \<and> (dReader s \<noteq> Reading \<longrightarrow> cmClosed (dMap s))"

definition drain_ok :: "'s conn \<Rightarrow> bool" where
  "drain_ok s \<longleftrightarrow>
     (\<forall>ts. dReader s = Draining ts \<longrightarrow> cm_outstanding (dMap s) ts) \<and>
     (dReader s = Ended \<longrightarrow> (\<forall>t. cmCalls (dMap s) t = None))"

definition asked :: "'s conn \<Rightarrow> Ttag \<Rightarrow> string \<Rightarrow> bool" where
  "asked s t req \<longleftrightarrow>
     (\<exists>i < length (dCalls s). kTag (dCalls s ! i) = t \<and> kReq (dCalls s ! i) = req \<and>
       (kPhase (dCalls s ! i) = Waiting \<or> (\<exists>r. kPhase (dCalls s ! i) = Returned r)))"

text \<open>
  The requests \<open>ms\<close> and replies \<open>rs\<close> on their way: each request was asked by a call and is at one place
  only, each reply was given for the request of its tag, and while the reader reads a call waits for each of them.
\<close>

definition flow_ok :: "'s conn \<Rightarrow> msg list \<Rightarrow> msg list \<Rightarrow> bool" where
  "flow_ok s ms rs \<longleftrightarrow>
     distinct (map mTag ms @ map fst (dServing s) @ map fst (dServed s)) \<and>
     distinct (map fst (dWriting s) @ map mTag rs) \<and>
     (\<forall>m \<in> set ms. asked s (mTag m) (mData m)) \<and>
     (\<forall>(t, req) \<in> set (dServing s). asked s t req) \<and>
     (\<forall>(t, req, rep, ok) \<in> set (dServed s). asked s t req) \<and>
     (\<forall>(t, rep, ok) \<in> set (dWriting s). \<exists>req. (t, req, rep, ok) \<in> set (dServed s)) \<and>
     (\<forall>m \<in> set rs. \<exists>req. (mTag m, req, mData m, mOk m) \<in> set (dServed s)) \<and>
     (dReader s = Reading \<longrightarrow>
       (\<forall>t \<in> mTag ` set ms \<union> fst ` set (dServing s) \<union> fst ` set (dWriting s) \<union> mTag ` set rs. cmCalls (dMap s) t \<noteq> None)) \<and>
     (\<forall>i < length (dCalls s). \<forall>r. kPhase (dCalls s ! i) = Returned r \<longrightarrow>
       (if rErr r then r = failed else (kTag (dCalls s ! i), kReq (dCalls s ! i), rRep r, rOk r) \<in> set (dServed s)))"

definition wires_ok :: "'s env \<Rightarrow> string \<Rightarrow> 's conn \<Rightarrow> msg list \<Rightarrow> msg list \<Rightarrow> bool" where
  "wires_ok v clnt s ms rs \<longleftrightarrow>
     stream v (dCut s) (dToSrv s)
       (if dUp s then ms else \<lparr>mTag = 0, mData = eEncInit v clnt, mOk = True\<rparr> # ms) \<and>
     stream v (dCut s) (dToClnt s) rs \<and>
     (\<not> dUp s \<longrightarrow> \<not> dSrvReading s \<and> dServing s = [] \<and> dWriting s = [] \<and> dServed s = []) \<and>
     (dUp s \<longrightarrow> dClntEnd s = clnt)"

definition conn_inv :: "'s env \<Rightarrow> string \<Rightarrow> 's conn \<Rightarrow> bool" where
  "conn_inv v clnt s \<longleftrightarrow> calls_ok s \<and> drain_ok s \<and> (\<exists>ms rs. flow_ok s ms rs \<and> wires_ok v clnt s ms rs)"

lemma sent_fields [simp]:
  "dMap (sent v t d ok s) = dMap s" "dNextTag (sent v t d ok s) = dNextTag s" "dReader (sent v t d ok s) = dReader s"
  "dCalls (sent v t d ok s) = dCalls s" "dToSrv (sent v t d ok s) = dToSrv s" "dToClnt (sent v t d ok s) = dToClnt s"
  "dCut (sent v t d ok s) = dCut s" "dUp (sent v t d ok s) = dUp s" "dClntEnd (sent v t d ok s) = dClntEnd s"
  "dSrvReading (sent v t d ok s) = dSrvReading s" "dServing (sent v t d ok s) = dServing s"
  "dWriting (sent v t d ok s) = dWriting s" "dServed (sent v t d ok s) = dServed s" "dState (sent v t d ok s) = dState s"
  by (simp_all add: sent_def)

lemma set_call_fields [simp]:
  "dMap (set_call i ph s) = dMap s" "dNextTag (set_call i ph s) = dNextTag s" "dReader (set_call i ph s) = dReader s"
  "dToSrv (set_call i ph s) = dToSrv s" "dToClnt (set_call i ph s) = dToClnt s"
  "dCut (set_call i ph s) = dCut s" "dUp (set_call i ph s) = dUp s" "dClntEnd (set_call i ph s) = dClntEnd s"
  "dSrvReading (set_call i ph s) = dSrvReading s" "dServing (set_call i ph s) = dServing s"
  "dWriting (set_call i ph s) = dWriting s" "dServed (set_call i ph s) = dServed s" "dState (set_call i ph s) = dState s"
  "dLongest (set_call i ph s) = dLongest s" "length (dCalls (set_call i ph s)) = length (dCalls s)"
  by (simp_all add: set_call_def)

lemma nth_set_call:
  "j < length (dCalls s) \<Longrightarrow> dCalls (set_call i ph s) ! j = (if i = j then (dCalls s ! j)\<lparr>kPhase := ph\<rparr> else dCalls s ! j)"
  by (simp add: set_call_def nth_list_update)

lemma call_phase_some: "call_phase s i = Some ph \<longleftrightarrow> i < length (dCalls s) \<and> kPhase (dCalls s ! i) = ph"
  by (simp add: call_phase_def)

lemma few_tags:
  assumes "i < n" "j < n" "n < 2 ^ 32 - 1" "(word_of_nat (Suc i) :: Ttag) = word_of_nat (Suc j)"
  shows "i = j"
proof -
  have "unat (word_of_nat (Suc i) :: Ttag) = Suc i" "unat (word_of_nat (Suc j) :: Ttag) = Suc j"
    using assms(1-3) by (simp_all only: unsigned_of_nat) (simp_all add: take_bit_nat_eq_self_iff)
  then show ?thesis using arg_cong [OF assms(4), of unat] by (metis nat.inject)
qed

lemma own_tag:
  assumes "calls_ok s" "length (dCalls s) < 2 ^ 32 - 1" "i < length (dCalls s)" "j < length (dCalls s)"
    "kTag (dCalls s ! i) = kTag (dCalls s ! j)"
  shows "i = j"
  using few_tags [OF assms(3,4,2)] assms(1,3-5) by (simp add: calls_ok_def)

lemma listed_call:
  assumes "calls_ok s" "cmCalls (dMap s) t = Some i"
  shows "i < length (dCalls s)" "kTag (dCalls s ! i) = t" "kPhase (dCalls s ! i) \<in> {Listed, Waiting}"
  using assms by (auto simp: calls_ok_def)

lemma calls_okD:
  assumes "calls_ok s"
  shows "cmClosed (dMap s) \<Longrightarrow> dCut s" "dReader s \<noteq> Reading \<Longrightarrow> cmClosed (dMap s)"
    "i < length (dCalls s) \<Longrightarrow> kTag (dCalls s ! i) = word_of_nat (Suc i)"
    "i < length (dCalls s) \<Longrightarrow> kPhase (dCalls s ! i) \<in> {Listed, Waiting} \<Longrightarrow> cmCalls (dMap s) (kTag (dCalls s ! i)) = Some i"
  using assms by (auto simp: calls_ok_def)

lemma stream_all: "\<forall>m \<in> set ms. fits v m \<Longrightarrow> stream v ended (frames v ms) ms"
  by (auto simp: stream_def intro!: exI [of _ "length (frames v ms)"])

lemma conn_init_inv:
  assumes "fits v \<lparr>mTag = 0, mData = eEncInit v clnt, mOk = True\<rparr>"
  shows "conn_inv v clnt (NewDemuxClnt v clnt st)"
  unfolding conn_inv_def
proof (intro conjI exI)
  let ?s = "NewDemuxClnt v clnt st"
  show "calls_ok ?s" "drain_ok ?s" by (simp_all add: calls_ok_def drain_ok_def NewDemuxClnt_def newCallMap_def)
  show "flow_ok ?s [] []" by (simp add: flow_ok_def NewDemuxClnt_def)
  show "wires_ok v clnt ?s [] []"
    using assms stream_all [of "[\<lparr>mTag = 0, mData = eEncInit v clnt, mOk = True\<rparr>]" v False] stream_all [of "[]" v False]
    by (simp add: wires_ok_def NewDemuxClnt_def)
qed

section \<open>Every step keeps it\<close>

text \<open>What the flow depends on.\<close>

lemma asked_mono:
  assumes "asked s t req" "length (dCalls s) \<le> length (dCalls s')"
    "\<And>i. i < length (dCalls s) \<Longrightarrow> kTag (dCalls s' ! i) = kTag (dCalls s ! i) \<and> kReq (dCalls s' ! i) = kReq (dCalls s ! i)"
    "\<And>i. i < length (dCalls s) \<Longrightarrow> kPhase (dCalls s ! i) = Waiting \<Longrightarrow> kPhase (dCalls s' ! i) = Waiting \<or> (\<exists>r. kPhase (dCalls s' ! i) = Returned r)"
    "\<And>i r. i < length (dCalls s) \<Longrightarrow> kPhase (dCalls s ! i) = Returned r \<Longrightarrow> kPhase (dCalls s' ! i) = Returned r"
  shows "asked s' t req"
proof -
  obtain i where "i < length (dCalls s)" "kTag (dCalls s ! i) = t" "kReq (dCalls s ! i) = req"
    "kPhase (dCalls s ! i) = Waiting \<or> (\<exists>r. kPhase (dCalls s ! i) = Returned r)" using assms(1) by (auto simp: asked_def)
  then show ?thesis unfolding asked_def using assms(2) assms(3-5) [of i] by (intro exI [of _ i]) auto
qed

lemma flow_frame:
  assumes "flow_ok s ms rs" "dServing s' = dServing s" "dWriting s' = dWriting s" "dServed s' = dServed s"
    "\<And>t req. asked s t req \<Longrightarrow> asked s' t req"
    "dReader s' = Reading \<Longrightarrow> dReader s = Reading"
    "\<And>t. dReader s' = Reading \<Longrightarrow> cmCalls (dMap s) t \<noteq> None \<Longrightarrow> cmCalls (dMap s') t \<noteq> None"
    "\<And>i r. i < length (dCalls s') \<Longrightarrow> kPhase (dCalls s' ! i) = Returned r \<Longrightarrow>
      r = failed \<or> i < length (dCalls s) \<and> dCalls s' ! i = dCalls s ! i"
  shows "flow_ok s' ms rs"
proof -
  have "if rErr r then r = failed else (kTag (dCalls s' ! i), kReq (dCalls s' ! i), rRep r, rOk r) \<in> set (dServed s')"
    if "i < length (dCalls s')" "kPhase (dCalls s' ! i) = Returned r" for i r
    using assms(8) [OF that] that(2) assms(1,4) unfolding flow_ok_def by (auto simp: failed_def)
  moreover have "\<forall>t \<in> mTag ` set ms \<union> fst ` set (dServing s') \<union> fst ` set (dWriting s') \<union> mTag ` set rs.
      cmCalls (dMap s') t \<noteq> None" if "dReader s' = Reading"
    using assms(1) assms(6) [OF that] assms(7) [OF that] unfolding flow_ok_def assms(2,3) by blast
  ultimately show ?thesis using assms(1) assms(5) unfolding flow_ok_def assms(2-4)
    by (auto 0 3 split: prod.splits)
qed

lemma flow_okD:
  assumes "flow_ok s ms rs"
  shows "distinct (map mTag ms @ map fst (dServing s) @ map fst (dServed s))"
    "distinct (map fst (dWriting s) @ map mTag rs)"
    "m \<in> set ms \<Longrightarrow> asked s (mTag m) (mData m)"
    "(t, req) \<in> set (dServing s) \<Longrightarrow> asked s t req"
    "(t, req, rep, ok) \<in> set (dServed s) \<Longrightarrow> asked s t req"
    "(t, rep, ok) \<in> set (dWriting s) \<Longrightarrow> \<exists>req. (t, req, rep, ok) \<in> set (dServed s)"
    "m \<in> set rs \<Longrightarrow> \<exists>req. (mTag m, req, mData m, mOk m) \<in> set (dServed s)"
    "dReader s = Reading \<Longrightarrow> t \<in> mTag ` set ms \<union> fst ` set (dServing s) \<union> fst ` set (dWriting s) \<union> mTag ` set rs \<Longrightarrow>
      cmCalls (dMap s) t \<noteq> None"
    "i < length (dCalls s) \<Longrightarrow> kPhase (dCalls s ! i) = Returned r \<Longrightarrow>
      if rErr r then r = failed else (kTag (dCalls s ! i), kReq (dCalls s ! i), rRep r, rOk r) \<in> set (dServed s)"
proof -
  note f = assms [unfolded flow_ok_def]
  show "distinct (map mTag ms @ map fst (dServing s) @ map fst (dServed s))"
    "distinct (map fst (dWriting s) @ map mTag rs)"
    using f by (simp_all only: simp_thms)
  show "m \<in> set ms \<Longrightarrow> asked s (mTag m) (mData m)"
    "(t, req) \<in> set (dServing s) \<Longrightarrow> asked s t req"
    "(t, req, rep, ok) \<in> set (dServed s) \<Longrightarrow> asked s t req"
    "(t, rep, ok) \<in> set (dWriting s) \<Longrightarrow> \<exists>req. (t, req, rep, ok) \<in> set (dServed s)"
    "m \<in> set rs \<Longrightarrow> \<exists>req. (mTag m, req, mData m, mOk m) \<in> set (dServed s)"
    using f by (elim conjE, auto dest: bspec)+
  show "dReader s = Reading \<Longrightarrow> t \<in> mTag ` set ms \<union> fst ` set (dServing s) \<union> fst ` set (dWriting s) \<union> mTag ` set rs \<Longrightarrow>
      cmCalls (dMap s) t \<noteq> None"
    using f by (elim conjE) (drule mp, assumption, erule bspec, assumption)
  show "i < length (dCalls s) \<Longrightarrow> kPhase (dCalls s ! i) = Returned r \<Longrightarrow>
      if rErr r then r = failed else (kTag (dCalls s ! i), kReq (dCalls s ! i), rRep r, rOk r) \<in> set (dServed s)"
    using f by (elim conjE) (drule spec, drule mp, assumption, drule spec, erule mp, assumption)
qed

lemma flow_okI:
  assumes "distinct (map mTag ms @ map fst (dServing s) @ map fst (dServed s))"
    "distinct (map fst (dWriting s) @ map mTag rs)"
    "\<And>m. m \<in> set ms \<Longrightarrow> asked s (mTag m) (mData m)"
    "\<And>t req. (t, req) \<in> set (dServing s) \<Longrightarrow> asked s t req"
    "\<And>t req rep ok. (t, req, rep, ok) \<in> set (dServed s) \<Longrightarrow> asked s t req"
    "\<And>t rep ok. (t, rep, ok) \<in> set (dWriting s) \<Longrightarrow> \<exists>req. (t, req, rep, ok) \<in> set (dServed s)"
    "\<And>m. m \<in> set rs \<Longrightarrow> \<exists>req. (mTag m, req, mData m, mOk m) \<in> set (dServed s)"
    "\<And>t. dReader s = Reading \<Longrightarrow> t \<in> mTag ` set ms \<union> fst ` set (dServing s) \<union> fst ` set (dWriting s) \<union> mTag ` set rs \<Longrightarrow>
      cmCalls (dMap s) t \<noteq> None"
    "\<And>i r. i < length (dCalls s) \<Longrightarrow> kPhase (dCalls s ! i) = Returned r \<Longrightarrow>
      if rErr r then r = failed else (kTag (dCalls s ! i), kReq (dCalls s ! i), rRep r, rOk r) \<in> set (dServed s)"
  shows "flow_ok s ms rs"
  using assms unfolding flow_ok_def by fast

lemma wires_frame:
  assumes "wires_ok v clnt s ms rs" "dCut s' = dCut s" "dToSrv s' = dToSrv s" "dToClnt s' = dToClnt s" "dUp s' = dUp s"
    "dSrvReading s' = dSrvReading s" "dServing s' = dServing s" "dWriting s' = dWriting s" "dServed s' = dServed s"
    "dClntEnd s' = dClntEnd s"
  shows "wires_ok v clnt s' ms rs"
  using assms by (simp add: wires_ok_def)

lemma conn_invI:
  "calls_ok s \<Longrightarrow> drain_ok s \<Longrightarrow> flow_ok s ms rs \<Longrightarrow> wires_ok v clnt s ms rs \<Longrightarrow> conn_inv v clnt s"
  by (auto simp: conn_inv_def)

lemma conn_invD:
  assumes "conn_inv v clnt s"
  obtains ms rs where "calls_ok s" "drain_ok s" "flow_ok s ms rs" "wires_ok v clnt s ms rs"
  using assms by (auto simp: conn_inv_def)

lemma call_tag_inv:
  assumes "conn_inv v clnt s"
  shows "conn_inv v clnt (call_tag b s)"
proof -
  obtain ms rs where i: "calls_ok s" "drain_ok s" "flow_ok s ms rs" "wires_ok v clnt s ms rs"
    by (rule conn_invD [OF assms])
  let ?s = "call_tag b s"
  have "calls_ok ?s" using i(1) by (auto simp: calls_ok_def call_tag_def nth_append less_Suc_eq)
  moreover have "drain_ok ?s" using i(2) by (simp add: drain_ok_def call_tag_def)
  moreover have "asked ?s t req" if "asked s t req" for t req
    by (rule asked_mono [OF that]) (auto simp: call_tag_def nth_append)
  then have "flow_ok ?s ms rs"
    by (intro flow_frame [OF i(3)]) (auto simp: call_tag_def nth_append less_Suc_eq split: if_splits)
  moreover have "wires_ok v clnt ?s ms rs" by (rule wires_frame [OF i(4)]) (simp_all add: call_tag_def)
  ultimately show ?thesis by (rule conn_invI)
qed

lemma call_put_inv:
  assumes "conn_inv v clnt s" "call_phase s i = Some Tagged" "length (dCalls s) < 2 ^ 32 - 1"
  shows "conn_inv v clnt (call_put i s)"
proof -
  obtain ms rs where inv: "calls_ok s" "drain_ok s" "flow_ok s ms rs" "wires_ok v clnt s ms rs"
    by (rule conn_invD [OF assms(1)])
  let ?s = "call_put i s"
  have i: "i < length (dCalls s)" "kPhase (dCalls s ! i) = Tagged" using assms(2) by (simp_all add: call_phase_some)
  have asked: "asked s t req \<Longrightarrow> asked ?s t req" for t req
    by (erule asked_mono) (use i in \<open>auto simp: call_put_def cm_put_def nth_set_call split: option.splits if_splits\<close>)
  have "calls_ok ?s \<and> drain_ok ?s \<and> (\<forall>t. cmCalls (dMap s) t \<noteq> None \<longrightarrow> cmCalls (dMap ?s) t \<noteq> None)"
  proof (cases "cmClosed (dMap s)")
    case True
    then have "?s = set_call i (Returned failed) s" by (simp add: call_put_def cm_put_def)
    then show ?thesis using inv(1,2) i by (auto simp: calls_ok_def drain_ok_def nth_set_call split: if_splits)
  next
    case False
    then have s: "?s = set_call i Listed (s\<lparr>dMap := (dMap s)\<lparr>cmCalls := (cmCalls (dMap s))(kTag (dCalls s ! i) \<mapsto> i)\<rparr>\<rparr>)"
      by (simp add: call_put_def cm_put_def)
    have "dReader s = Reading" using calls_okD(2) [OF inv(1)] False by auto
    then have "drain_ok ?s" using s by (simp add: drain_ok_def)
    moreover have "calls_ok ?s" unfolding calls_ok_def
      using inv(1) i s own_tag [OF inv(1) assms(3)] by (auto simp: calls_ok_def nth_set_call split: if_splits)
    ultimately show ?thesis using s by auto
  qed
  moreover from this have "flow_ok ?s ms rs" using i
    by (intro flow_frame [OF inv(3)] asked) (auto simp: call_put_def cm_put_def nth_set_call split: option.splits if_splits)
  moreover have "wires_ok v clnt ?s ms rs"
    by (rule wires_frame [OF inv(4)]) (simp_all add: call_put_def cm_put_def split: option.splits)
  ultimately show ?thesis by (blast intro: conn_invI)
qed

lemma call_write_inv:
  assumes "conn_inv v clnt s" "call_phase s i = Some Listed" "length (dCalls s) < 2 ^ 32 - 1" "dLongest (call_write v i s) < 2 ^ 32"
  shows "conn_inv v clnt (call_write v i s)"
proof -
  obtain ms rs where inv: "calls_ok s" "drain_ok s" "flow_ok s ms rs" "wires_ok v clnt s ms rs"
    by (rule conn_invD [OF assms(1)])
  let ?s = "call_write v i s" and ?c = "dCalls s ! i"
  have i: "i < length (dCalls s)" "kPhase ?c = Listed" using assms(2) by (simp_all add: call_phase_some)
  have calls: "dCalls ?s = dCalls (set_call i Waiting s)" by (simp add: call_write_def Let_def set_call_def)
  have map: "dMap ?s = dMap s" "dReader ?s = dReader s" "dNextTag ?s = dNextTag s" "dCut ?s = dCut s" "dServing ?s = dServing s"
    "dWriting ?s = dWriting s" "dServed ?s = dServed s" "dToClnt ?s = dToClnt s" "dUp ?s = dUp s" "dSrvReading ?s = dSrvReading s"
    "dClntEnd ?s = dClntEnd s"
    by (simp_all add: call_write_def Let_def)
  have "calls_ok ?s" unfolding calls_ok_def calls map
    using inv(1) i by (auto simp: calls_ok_def nth_set_call split: if_splits)
  moreover have "drain_ok ?s" using inv(2) by (simp add: drain_ok_def map)
  moreover have asked: "asked s t req \<Longrightarrow> asked ?s t req" for t req
    by (erule asked_mono) (use i in \<open>auto simp: calls nth_set_call\<close>)
  have flow: "flow_ok ?s ms rs"
    by (rule flow_frame [OF inv(3)]) (use i in \<open>auto simp: calls map asked nth_set_call split: if_splits\<close>)
  moreover have "\<exists>ms. flow_ok ?s ms rs \<and> wires_ok v clnt ?s ms rs"
  proof (cases "dCut s")
    case True
    have "wires_ok v clnt ?s ms rs" by (rule wires_frame [OF inv(4)]) (simp_all add: True map call_write_def Let_def)
    then show ?thesis using flow by blast
  next
    case False
    let ?m = "\<lparr>mTag = kTag ?c, mData = kReq ?c, mOk = True\<rparr>"
    have new: "\<not> asked s (kTag ?c) req" for req
    proof
      assume "asked s (kTag ?c) req"
      then obtain j where j: "j < length (dCalls s)" "kTag (dCalls s ! j) = kTag ?c" "kPhase (dCalls s ! j) \<noteq> Listed"
        by (auto simp: asked_def)
      show False using own_tag [OF inv(1) assms(3) j(1) i(1) j(2)] j(3) i(2) by simp
    qed
    have "asked ?s (kTag ?c) (kReq ?c)" using i by (auto simp: asked_def calls nth_set_call intro!: exI [of _ i])
    moreover have "cmCalls (dMap s) (kTag ?c) \<noteq> None" using calls_okD(4) [OF inv(1) i(1)] i(2) by auto
    moreover have "kTag ?c \<notin> mTag ` set ms \<union> fst ` set (dServing s) \<union> fst ` set (dServed s)"
      using inv(3) new unfolding flow_ok_def by force
    ultimately have "flow_ok ?s (ms @ [?m]) rs" using flow unfolding flow_ok_def map by auto
    moreover have "fits v ?m" using assms(4) False by (simp add: call_write_def Let_def sent_def fits_def)
    then have "stream v False (dToSrv s @ WriteCall v (kTag ?c) (kReq ?c) True)
        (if dUp s then ms @ [?m] else \<lparr>mTag = 0, mData = eEncInit v clnt, mOk = True\<rparr> # ms @ [?m])"
      using stream_write [of v "dToSrv s" _ "kTag ?c" "kReq ?c" True] inv(4) False
      unfolding wires_ok_def by (cases "dUp s") fastforce+
    then have "wires_ok v clnt ?s (ms @ [?m]) rs" using inv(4) False
      unfolding wires_ok_def map by (simp add: call_write_def Let_def)
    ultimately show ?thesis by blast
  qed
  ultimately show ?thesis by (blast intro: conn_invI)
qed

lemma call_phase_fields [simp]:
  "call_phase (s\<lparr>dReader := x1\<rparr>) i = call_phase s i" "call_phase (s\<lparr>dMap := x2\<rparr>) i = call_phase s i"
  "call_phase (s\<lparr>dToClnt := x3\<rparr>) i = call_phase s i"
  by (simp_all add: call_phase_def)

text \<open>The reader hands over a reply: the one it read, or a failure at the end.\<close>

lemma answered_calls:
  assumes "calls_ok s" "length (dCalls s) < 2 ^ 32 - 1" "cmCalls (dMap s) t = Some i" "call_phase s i = Some Waiting"
  shows "calls_ok (set_call i (Returned r) (s\<lparr>dMap := (dMap s)\<lparr>cmCalls := (cmCalls (dMap s))(t := None)\<rparr>\<rparr>))"
proof -
  note i = listed_call [OF assms(1,3)]
  let ?s = "set_call i (Returned r) (s\<lparr>dMap := (dMap s)\<lparr>cmCalls := (cmCalls (dMap s))(t := None)\<rparr>\<rparr>)"
  have "cmCalls (dMap ?s) t' = Some k \<longleftrightarrow>
      k < length (dCalls ?s) \<and> kTag (dCalls ?s ! k) = t' \<and> kPhase (dCalls ?s ! k) \<in> {Listed, Waiting}" for t' k
  proof (cases "k = i")
    case True
    then show ?thesis using listed_call(2) [OF assms(1), of t' i] i(1,2) by (auto simp: nth_set_call)
  next
    case False
    have "cmCalls (dMap s) t' = Some k \<longleftrightarrow> k < length (dCalls s) \<and> kTag (dCalls s ! k) = t' \<and> kPhase (dCalls s ! k) \<in> {Listed, Waiting}"
      using assms(1) unfolding calls_ok_def by blast
    moreover have "k < length (dCalls s) \<Longrightarrow> kTag (dCalls s ! k) \<noteq> t"
      using own_tag [OF assms(1,2) _ i(1), of k] i(2) False by auto
    ultimately show ?thesis using False assms(3) by (auto simp: nth_set_call)
  qed
  moreover have "\<forall>k < length (dCalls s). kTag (dCalls ?s ! k) = kTag (dCalls s ! k)" by (simp add: nth_set_call)
  ultimately show ?thesis using assms(1) unfolding calls_ok_def by simp
qed

lemma answered_asked:
  assumes "asked s t req" "call_phase s i = Some Waiting"
  shows "asked (set_call i (Returned r) s) t req"
  by (rule asked_mono [OF assms(1)]) (use assms(2) in \<open>auto simp: nth_set_call call_phase_some\<close>)

lemma read_reply_inv:
  assumes "conn_inv v clnt s" "length (dCalls s) < 2 ^ 32 - 1" "codec v" "dReader s = Reading"
  shows "\<exists>s'. clnt_read v s = Some s' \<and> conn_inv v clnt s'"
proof -
  obtain ms rs where inv: "calls_ok s" "drain_ok s" "flow_ok s ms rs" "wires_ok v clnt s ms rs"
    by (rule conn_invD [OF assms(1)])
  have "stream v (dCut s) (dToClnt s) rs" using inv(4) by (simp add: wires_ok_def)
  from assms(3) this show ?thesis
  proof (cases rule: stream_read)
    case 1
    then show ?thesis using assms(1) by (simp add: clnt_read_def)
  next
    case (2 eof)
    let ?s = "s\<lparr>dMap := cm_close (dMap s), dReader := Broken\<rparr>"
    have "calls_ok ?s" "drain_ok ?s" using inv(1,2) 2(1) by (auto simp: calls_ok_def drain_ok_def cm_close_def)
    moreover have "flow_ok ?s ms rs" by (rule flow_frame [OF inv(3)]) (auto simp: asked_def)
    moreover have "wires_ok v clnt ?s ms rs" by (rule wires_frame [OF inv(4)]) simp_all
    ultimately have "conn_inv v clnt ?s" by (rule conn_invI)
    then show ?thesis using 2(2) by (simp add: clnt_read_def)
  next
    case (3 m rs' rest)
    have "cmCalls (dMap s) (mTag m) \<noteq> None" using inv(3) assms(4) 3(1) by (auto simp: flow_ok_def)
    then obtain i where c: "cmCalls (dMap s) (mTag m) = Some i" by auto
    note i = listed_call [OF inv(1) c]
    show ?thesis
    proof (cases "call_phase s i = Some Waiting")
      case False
      then show ?thesis using 3 c assms(1) by (simp add: clnt_read_def give_reply_def cm_remove_def)
    next
      case True
      let ?r = "\<lparr>rRep = mData m, rOk = mOk m, rErr = False\<rparr>"
      let ?s = "set_call i (Returned ?r) (s\<lparr>dMap := (dMap s)\<lparr>cmCalls := (cmCalls (dMap s))(mTag m := None)\<rparr>\<rparr>)\<lparr>dToClnt := rest\<rparr>"
      have step: "clnt_read v s = Some ?s" using 3 c True by (simp add: clnt_read_def give_reply_def cm_remove_def)
      have "calls_ok ?s" using answered_calls [OF inv(1) assms(2) c True, of ?r] by (simp add: calls_ok_def)
      moreover have "drain_ok ?s" using assms(4) by (simp add: drain_ok_def)
      moreover have "flow_ok ?s ms rs'"
      proof -
        obtain req where req: "(mTag m, req, mData m, mOk m) \<in> set (dServed s)" using inv(3) 3(1) by (auto simp: flow_ok_def)
        then have "asked s (mTag m) req" using inv(3) by (auto simp: flow_ok_def)
        then have "req = kReq (dCalls s ! i)" using own_tag [OF inv(1) assms(2) i(1)] i(2) by (auto simp: asked_def)
        moreover have a: "asked s t q \<Longrightarrow> asked ?s t q" for t q
          using answered_asked [OF _ True, of t q ?r] by (simp add: asked_def set_call_def)
        moreover have "mTag m \<notin> mTag ` set ms \<union> fst ` set (dServing s) \<union> fst ` set (dWriting s) \<union> mTag ` set rs'"
        proof -
          have "mTag m \<in> fst ` set (dServed s)" using req by force
          then show ?thesis using flow_okD(1,2) [OF inv(3)] 3(1) by auto
        qed
        ultimately show ?thesis
        proof (intro flow_okI)
          show "distinct (map mTag ms @ map fst (dServing ?s) @ map fst (dServed ?s))"
            "distinct (map fst (dWriting ?s) @ map mTag rs')"
            using flow_okD(1,2) [OF inv(3)] 3(1) by simp_all
          show "m' \<in> set rs' \<Longrightarrow> \<exists>req. (mTag m', req, mData m', mOk m') \<in> set (dServed ?s)" for m'
            using flow_okD(7) [OF inv(3)] 3(1) by simp
          show "cmCalls (dMap ?s) t \<noteq> None"
            if "t \<in> mTag ` set ms \<union> fst ` set (dServing ?s) \<union> fst ` set (dWriting ?s) \<union> mTag ` set rs'" for t
            using that flow_okD(8) [OF inv(3) assms(4), of t] 3(1)
              \<open>mTag m \<notin> mTag ` set ms \<union> fst ` set (dServing s) \<union> fst ` set (dWriting s) \<union> mTag ` set rs'\<close> by auto
          show "if rErr r then r = failed else (kTag (dCalls ?s ! k), kReq (dCalls ?s ! k), rRep r, rOk r) \<in> set (dServed ?s)"
            if "k < length (dCalls ?s)" "kPhase (dCalls ?s ! k) = Returned r" for k r
            using that flow_okD(9) [OF inv(3), of k r] req i(2) \<open>req = kReq (dCalls s ! i)\<close>
            by (cases "k = i") (auto simp: nth_set_call)
        qed (use flow_okD(3-6) [OF inv(3)] a in simp_all)
      qed
      moreover have "wires_ok v clnt ?s ms rs'" using inv(4) 3(3) by (simp add: wires_ok_def)
      ultimately have "conn_inv v clnt ?s" by (rule conn_invI)
      then show ?thesis using step by blast
    qed
  qed
qed

lemma fail_next_inv:
  assumes "conn_inv v clnt s" "length (dCalls s) < 2 ^ 32 - 1" "dReader s = Draining (t # ts)"
  shows "\<exists>s'. give_reply t failed (\<lambda>s. s\<lparr>dReader := Draining ts\<rparr>) s = Some s' \<and> conn_inv v clnt s'"
proof -
  obtain ms rs where inv: "calls_ok s" "drain_ok s" "flow_ok s ms rs" "wires_ok v clnt s ms rs"
    by (rule conn_invD [OF assms(1)])
  have out: "distinct (t # ts)" "\<And>t'. t' \<in> set (t # ts) \<longleftrightarrow> cmCalls (dMap s) t' \<noteq> None"
    using inv(2) assms(3) by (auto simp: drain_ok_def cm_outstanding_def)
  then obtain i where c: "cmCalls (dMap s) t = Some i" by fastforce
  note i = listed_call [OF inv(1) c]
  show ?thesis
  proof (cases "call_phase s i = Some Waiting")
    case False
    then show ?thesis using c assms(1) by (simp add: give_reply_def cm_remove_def)
  next
    case True
    let ?s0 = "set_call i (Returned failed) (s\<lparr>dMap := (dMap s)\<lparr>cmCalls := (cmCalls (dMap s))(t := None)\<rparr>\<rparr>)"
    let ?s = "?s0\<lparr>dReader := Draining ts\<rparr>"
    have step: "give_reply t failed (\<lambda>s. s\<lparr>dReader := Draining ts\<rparr>) s = Some ?s"
      using c True by (simp add: give_reply_def cm_remove_def)
    have "calls_ok ?s" using answered_calls [OF inv(1) assms(2) c True, of failed] calls_okD(2) [OF inv(1)] assms(3)
      by (simp add: calls_ok_def)
    moreover have "drain_ok ?s" using out by (auto simp: drain_ok_def cm_outstanding_def)
    moreover have "asked ?s t q" if "asked s t q" for t q
      using answered_asked [OF that True, of failed] by (simp add: asked_def set_call_def)
    then have "flow_ok ?s ms rs" using i
      by (intro flow_frame [OF inv(3)]) (auto simp: nth_set_call split: if_splits)
    moreover have "wires_ok v clnt ?s ms rs" by (rule wires_frame [OF inv(4)]) simp_all
    ultimately have "conn_inv v clnt ?s" by (rule conn_invI)
    then show ?thesis using step by blast
  qed
qed

lemma cut_inv:
  assumes "conn_inv v clnt s"
  shows "conn_inv v clnt (cut_at a b s)" "conn_inv v clnt (s\<lparr>dSrvClosed := c\<rparr>)"
proof -
  obtain ms rs where inv: "calls_ok s" "drain_ok s" "flow_ok s ms rs" "wires_ok v clnt s ms rs"
    by (rule conn_invD [OF assms])
  let ?s = "cut_at a b s"
  have f: "dMap ?s = dMap s" "dReader ?s = dReader s" "dCalls ?s = dCalls s" "dNextTag ?s = dNextTag s" "dServing ?s = dServing s"
    "dWriting ?s = dWriting s" "dServed ?s = dServed s" "dUp ?s = dUp s" "dSrvReading ?s = dSrvReading s" "dClntEnd ?s = dClntEnd s"
    by (simp_all add: cut_at_def)
  have "calls_ok ?s" using inv(1) unfolding calls_ok_def f by (simp add: cut_at_def)
  moreover have "drain_ok ?s" using inv(2) by (simp add: drain_ok_def f)
  moreover have "flow_ok ?s ms rs" by (rule flow_frame [OF inv(3)]) (simp_all add: f asked_def)
  moreover have "wires_ok v clnt ?s ms rs"
    using inv(4) unfolding wires_ok_def f by (cases "dCut s"; cases "dUp s") (simp_all add: cut_at_def stream_cut)
  ultimately show "conn_inv v clnt ?s" by (rule conn_invI)
  have "calls_ok (s\<lparr>dSrvClosed := c\<rparr>)" "drain_ok (s\<lparr>dSrvClosed := c\<rparr>)"
    using inv(1,2) by (simp_all add: calls_ok_def drain_ok_def)
  moreover have "flow_ok (s\<lparr>dSrvClosed := c\<rparr>) ms rs" by (rule flow_frame [OF inv(3)]) (simp_all add: asked_def)
  moreover have "wires_ok v clnt (s\<lparr>dSrvClosed := c\<rparr>) ms rs" by (rule wires_frame [OF inv(4)]) simp_all
  ultimately show "conn_inv v clnt (s\<lparr>dSrvClosed := c\<rparr>)" by (rule conn_invI)
qed

lemma start_srv_inv:
  assumes "conn_inv v clnt s" "codec v" "\<not> dUp s"
  shows "NewDemuxSrv v s = None \<and> dCut s \<or> (\<exists>s'. NewDemuxSrv v s = Some s' \<and> conn_inv v clnt s')"
proof -
  obtain ms rs where inv: "calls_ok s" "drain_ok s" "flow_ok s ms rs" "wires_ok v clnt s ms rs"
    by (rule conn_invD [OF assms(1)])
  have "stream v (dCut s) (dToSrv s) (\<lparr>mTag = 0, mData = eEncInit v clnt, mOk = True\<rparr> # ms)"
    using inv(4) assms(3) by (simp add: wires_ok_def)
  from assms(2) this show ?thesis
  proof (cases rule: stream_read)
    case 1
    then show ?thesis using assms(1) by (simp add: NewDemuxSrv_def)
  next
    case (2 eof)
    then show ?thesis by (simp add: NewDemuxSrv_def)
  next
    case (3 m ms' rest)
    let ?s = "s\<lparr>dToSrv := rest, dUp := True, dClntEnd := clnt, dSrvReading := True\<rparr>"
    have "NewDemuxSrv v s = Some ?s" using 3(1,2) assms(2) by (auto simp: NewDemuxSrv_def codec_def)
    moreover have "calls_ok ?s" "drain_ok ?s" using inv(1,2) by (simp_all add: calls_ok_def drain_ok_def)
    moreover have "flow_ok ?s ms rs" by (rule flow_frame [OF inv(3)]) (simp_all add: asked_def)
    moreover have "wires_ok v clnt ?s ms rs" using inv(4) 3(1,3) by (simp add: wires_ok_def)
    ultimately show ?thesis by (blast intro: conn_invI)
  qed
qed

lemma read_req_inv:
  assumes "conn_inv v clnt s" "codec v" "dSrvReading s"
  shows "\<exists>s'. srv_read v s = Some s' \<and> conn_inv v clnt s'"
proof -
  obtain ms rs where inv: "calls_ok s" "drain_ok s" "flow_ok s ms rs" "wires_ok v clnt s ms rs"
    by (rule conn_invD [OF assms(1)])
  have up: "dUp s" using inv(4) assms(3) by (auto simp: wires_ok_def)
  then have "stream v (dCut s) (dToSrv s) ms" using inv(4) by (simp add: wires_ok_def)
  from assms(2) this show ?thesis
  proof (cases rule: stream_read)
    case 1
    then show ?thesis using assms(1) by (simp add: srv_read_def)
  next
    case (2 eof)
    let ?s = "s\<lparr>dSrvReading := False, dSrvClosed := (dSrvClosed s \<or> eof)\<rparr>"
    have "calls_ok ?s" "drain_ok ?s" using inv(1,2) by (simp_all add: calls_ok_def drain_ok_def)
    moreover have "flow_ok ?s ms rs" by (rule flow_frame [OF inv(3)]) (simp_all add: asked_def)
    moreover have "wires_ok v clnt ?s ms rs" using inv(4) up by (simp add: wires_ok_def)
    ultimately have "conn_inv v clnt ?s" by (rule conn_invI)
    then show ?thesis using 2(2) by (simp add: srv_read_def)
  next
    case (3 m ms' rest)
    let ?s = "s\<lparr>dToSrv := rest, dServing := dServing s @ [(mTag m, mData m)]\<rparr>"
    have "calls_ok ?s" "drain_ok ?s" using inv(1,2) by (simp_all add: calls_ok_def drain_ok_def)
    moreover have [simp]: "asked ?s = asked s" by (auto simp: asked_def fun_eq_iff)
    have "flow_ok ?s ms' rs"
      by (rule flow_okI)
        (use flow_okD [OF inv(3)] 3(1) in \<open>auto\<close>)
    moreover have "wires_ok v clnt ?s ms' rs" using inv(4) up 3(1,3) by (simp add: wires_ok_def)
    ultimately have "conn_inv v clnt ?s" by (blast intro: conn_invI)
    then show ?thesis using 3(2) by (simp add: srv_read_def)
  qed
qed

text \<open>A goroutine that leaves a list of goroutines.\<close>

lemma leave:
  assumes "j < length xs"
  obtains us vs where "xs = us @ xs ! j # vs" "take j xs @ drop (Suc j) xs = us @ vs"
  using id_take_nth_drop [OF assms] by (auto intro: that)

lemma serve_inv:
  assumes "conn_inv v clnt s" "j < length (dServing s)"
  shows "conn_inv v clnt (srv_serve v j s)"
proof -
  obtain ms rs where inv: "calls_ok s" "drain_ok s" "flow_ok s ms rs" "wires_ok v clnt s ms rs"
    by (rule conn_invD [OF assms(1)])
  obtain t req where x: "dServing s ! j = (t, req)" by fastforce
  obtain rep ok st where y: "eServe v (dClntEnd s) req (dState s) = ((rep, ok), st)" by (metis surj_pair)
  obtain us vs where l: "dServing s = us @ (t, req) # vs" "take j (dServing s) @ drop (Suc j) (dServing s) = us @ vs"
    using leave [OF assms(2)] x by metis
  let ?s = "s\<lparr>dServing := us @ vs, dWriting := dWriting s @ [(t, rep, ok)],
    dState := st, dServed := dServed s @ [(t, req, rep, ok)]\<rparr>"
  have s: "srv_serve v j s = ?s" using x y l(2) by (simp add: srv_serve_def)
  have "calls_ok ?s" "drain_ok ?s" using inv(1,2) by (simp_all add: calls_ok_def drain_ok_def)
  moreover have [simp]: "asked ?s = asked s" by (auto simp: asked_def fun_eq_iff)
  have served: "t \<notin> fst ` set (dServed s)" using flow_okD(1) [OF inv(3)] l(1) by auto
  have "flow_ok ?s ms rs"
  proof (rule flow_okI)
    show "distinct (map mTag ms @ map fst (dServing ?s) @ map fst (dServed ?s))"
      using flow_okD(1) [OF inv(3)] l(1) by auto
    have "t \<notin> fst ` set (dWriting s)" "t \<notin> mTag ` set rs" using served flow_okD(6,7) [OF inv(3)] by force+
    then show "distinct (map fst (dWriting ?s) @ map mTag rs)" using flow_okD(2) [OF inv(3)] by auto
    show "m \<in> set ms \<Longrightarrow> asked ?s (mTag m) (mData m)" for m using flow_okD(3) [OF inv(3)] by simp
    show "asked ?s t' req'" if "(t', req') \<in> set (dServing ?s)" for t' req'
      using that flow_okD(4) [OF inv(3), of t' req'] l(1) by auto
    show "asked ?s t' req'" if "(t', req', rep', ok') \<in> set (dServed ?s)" for t' req' rep' ok'
      using that flow_okD(5) [OF inv(3), of t' req'] flow_okD(4) [OF inv(3), of t req] l(1) by auto
    show "\<exists>req'. (t', req', rep', ok') \<in> set (dServed ?s)" if "(t', rep', ok') \<in> set (dWriting ?s)" for t' rep' ok'
      using that flow_okD(6) [OF inv(3), of t' rep' ok'] by auto
    show "\<exists>req'. (mTag m, req', mData m, mOk m) \<in> set (dServed ?s)" if "m \<in> set rs" for m
      using flow_okD(7) [OF inv(3) that] by auto
    show "cmCalls (dMap ?s) t' \<noteq> None" if "dReader ?s = Reading"
      "t' \<in> mTag ` set ms \<union> fst ` set (dServing ?s) \<union> fst ` set (dWriting ?s) \<union> mTag ` set rs" for t'
      using that flow_okD(8) [OF inv(3), of t'] l(1) by auto
    show "if rErr r then r = failed else (kTag (dCalls ?s ! i), kReq (dCalls ?s ! i), rRep r, rOk r) \<in> set (dServed ?s)"
      if "i < length (dCalls ?s)" "kPhase (dCalls ?s ! i) = Returned r" for i r
      using that flow_okD(9) [OF inv(3), of i r] by auto
  qed
  moreover have "wires_ok v clnt ?s ms rs" using inv(4) l(1) by (auto simp: wires_ok_def split: if_splits)
  ultimately show ?thesis unfolding s by (rule conn_invI)
qed

lemma write_reply_inv:
  assumes "conn_inv v clnt s" "j < length (dWriting s)" "dLongest (srv_write v j s) < 2 ^ 32"
  shows "conn_inv v clnt (srv_write v j s)"
proof -
  obtain ms rs where inv: "calls_ok s" "drain_ok s" "flow_ok s ms rs" "wires_ok v clnt s ms rs"
    by (rule conn_invD [OF assms(1)])
  obtain t rep ok where x: "dWriting s ! j = (t, rep, ok)" by (metis surj_pair)
  obtain us vs where l: "dWriting s = us @ (t, rep, ok) # vs" "take j (dWriting s) @ drop (Suc j) (dWriting s) = us @ vs"
    using leave [OF assms(2)] x by metis
  let ?s = "srv_write v j s"
  have f: "dMap ?s = dMap s" "dReader ?s = dReader s" "dCalls ?s = dCalls s" "dNextTag ?s = dNextTag s" "dServing ?s = dServing s"
    "dWriting ?s = us @ vs" "dServed ?s = dServed s" "dUp ?s = dUp s" "dSrvReading ?s = dSrvReading s" "dClntEnd ?s = dClntEnd s"
    "dCut ?s = dCut s" "dToSrv ?s = dToSrv s"
    using x l(2) by (simp_all add: srv_write_def Let_def)
  have "calls_ok ?s" "drain_ok ?s" using inv(1,2) by (simp_all add: calls_ok_def drain_ok_def f)
  moreover have asked: "asked ?s = asked s" by (auto simp: asked_def fun_eq_iff f)
  have up: "dUp s" using inv(4) l(1) by (auto simp: wires_ok_def)
  obtain req where req: "(t, req, rep, ok) \<in> set (dServed s)" using flow_okD(6) [OF inv(3), of t rep ok] l(1) by auto
  have flow: "flow_ok ?s ms rs'" if "rs' = rs \<or> rs' = rs @ [\<lparr>mTag = t, mData = rep, mOk = ok\<rparr>]" for rs'
  proof (rule flow_okI)
    show "distinct (map mTag ms @ map fst (dServing ?s) @ map fst (dServed ?s))" using flow_okD(1) [OF inv(3)] by (simp add: f)
    have "mset (map fst (us @ vs) @ map mTag (rs @ [\<lparr>mTag = t, mData = rep, mOk = ok\<rparr>])) = mset (map fst (dWriting s) @ map mTag rs)"
      using l(1) by simp
    then have "distinct (map fst (us @ vs) @ map mTag (rs @ [\<lparr>mTag = t, mData = rep, mOk = ok\<rparr>]))"
      using flow_okD(2) [OF inv(3)] mset_eq_imp_distinct_iff by blast
    then show "distinct (map fst (dWriting ?s) @ map mTag rs')" using that unfolding f by (elim disjE) simp_all
    show "\<exists>req'. (t', req', rep', ok') \<in> set (dServed ?s)" if "(t', rep', ok') \<in> set (dWriting ?s)" for t' rep' ok'
      using that flow_okD(6) [OF inv(3), of t' rep' ok'] l(1) by (auto simp: f)
    show "\<exists>req'. (mTag m, req', mData m, mOk m) \<in> set (dServed ?s)" if "m \<in> set rs'" for m
    proof (cases "m \<in> set rs")
      case True
      then show ?thesis using flow_okD(7) [OF inv(3) True] by (simp add: f)
    next
      case False
      then have "m = \<lparr>mTag = t, mData = rep, mOk = ok\<rparr>" using that \<open>rs' = rs \<or> _\<close> by auto
      then show ?thesis using req by (auto simp: f intro!: exI [of _ req])
    qed
    show "cmCalls (dMap ?s) t' \<noteq> None" if "dReader ?s = Reading"
      "t' \<in> mTag ` set ms \<union> fst ` set (dServing ?s) \<union> fst ` set (dWriting ?s) \<union> mTag ` set rs'" for t'
      using that \<open>rs' = rs \<or> _\<close> flow_okD(8) [OF inv(3), of t'] l(1) by (auto simp: f)
  qed (use flow_okD(3-5,9) [OF inv(3)] in \<open>simp_all only: f asked\<close>)
  moreover have "\<exists>rs'. (rs' = rs \<or> rs' = rs @ [\<lparr>mTag = t, mData = rep, mOk = ok\<rparr>]) \<and> wires_ok v clnt ?s ms rs'"
  proof (cases "dCut s")
    case True
    then show ?thesis using inv(4) up x by (intro exI [of _ rs]) (simp add: wires_ok_def srv_write_def)
  next
    case False
    have "fits v \<lparr>mTag = t, mData = rep, mOk = ok\<rparr>" using assms(3) False x by (simp add: srv_write_def sent_def fits_def)
    then show ?thesis using stream_write [of v "dToClnt s" rs t rep ok] inv(4) up False x
      by (intro exI [of _ "rs @ [\<lparr>mTag = t, mData = rep, mOk = ok\<rparr>]"]) (simp add: wires_ok_def srv_write_def)
  qed
  ultimately show ?thesis by (blast intro: conn_invI)
qed

text \<open>One event: it keeps the invariant, or the server dies at the first message.\<close>

lemma conn_step_inv:
  assumes "conn_inv v clnt s" "codec v" "length (dCalls s) < 2 ^ 32 - 1"
    "\<And>s'. conn_step v e s = Some s' \<Longrightarrow> dLongest s' < 2 ^ 32"
  shows "(\<exists>s'. conn_step v e s = Some s' \<and> conn_inv v clnt s') \<or> conn_step v e s = None \<and> e = StartSrv \<and> \<not> dUp s \<and> dCut s"
proof (cases e)
  case (PutCall i)
  then show ?thesis using call_put_inv [OF assms(1) _ assms(3)] assms(1) by simp
next
  case (WriteReq i)
  then show ?thesis using call_write_inv [OF assms(1) _ assms(3), of i] assms(1,4) by (cases "call_phase s i = Some Listed") simp_all
next
  case ReadReply
  then show ?thesis using read_reply_inv [OF assms(1,3,2)] assms(1) by simp
next
  case (ListOutstanding ts)
  obtain ms rs where inv: "calls_ok s" "drain_ok s" "flow_ok s ms rs" "wires_ok v clnt s ms rs"
    by (rule conn_invD [OF assms(1)])
  have "conn_inv v clnt (s\<lparr>dReader := Draining ts\<rparr>)" if "dReader s = Broken" "cm_outstanding (dMap s) ts"
  proof (rule conn_invI)
    show "calls_ok (s\<lparr>dReader := Draining ts\<rparr>)" "drain_ok (s\<lparr>dReader := Draining ts\<rparr>)"
      using inv(1,2) that by (simp_all add: calls_ok_def drain_ok_def)
    show "flow_ok (s\<lparr>dReader := Draining ts\<rparr>) ms rs" by (rule flow_frame [OF inv(3)]) (simp_all add: asked_def)
    show "wires_ok v clnt (s\<lparr>dReader := Draining ts\<rparr>) ms rs" by (rule wires_frame [OF inv(4)]) simp_all
  qed
  then show ?thesis using ListOutstanding assms(1) by simp
next
  case FailNext
  show ?thesis
  proof (cases "\<exists>t ts. dReader s = Draining (t # ts)")
    case True
    then show ?thesis using FailNext fail_next_inv [OF assms(1,3)] by auto
  next
    case False
    obtain ms rs where inv: "calls_ok s" "drain_ok s" "flow_ok s ms rs" "wires_ok v clnt s ms rs"
      by (rule conn_invD [OF assms(1)])
    have "conn_inv v clnt (s\<lparr>dReader := Ended\<rparr>)" if "dReader s = Draining []"
    proof (rule conn_invI)
      show "calls_ok (s\<lparr>dReader := Ended\<rparr>)" using inv(1) that by (simp add: calls_ok_def)
      show "drain_ok (s\<lparr>dReader := Ended\<rparr>)" using inv(2) that by (simp add: drain_ok_def cm_outstanding_def)
      show "flow_ok (s\<lparr>dReader := Ended\<rparr>) ms rs" by (rule flow_frame [OF inv(3)]) (simp_all add: asked_def)
      show "wires_ok v clnt (s\<lparr>dReader := Ended\<rparr>) ms rs" by (rule wires_frame [OF inv(4)]) simp_all
    qed
    then show ?thesis using FailNext False assms(1) by (auto split: readerPhase.splits list.splits)
  qed
next
  case CloseMap
  obtain ms rs where inv: "calls_ok s" "drain_ok s" "flow_ok s ms rs" "wires_ok v clnt s ms rs"
    by (rule conn_invD [OF assms(1)])
  let ?s = "s\<lparr>dMap := cm_close (dMap s)\<rparr>"
  have "conn_inv v clnt ?s" if "dCut s"
  proof (rule conn_invI)
    show "calls_ok ?s" "drain_ok ?s"
      using inv(1,2) that by (simp_all add: calls_ok_def drain_ok_def cm_close_def cm_outstanding_def)
    show "flow_ok ?s ms rs" by (rule flow_frame [OF inv(3)]) (simp_all add: asked_def cm_close_def)
    show "wires_ok v clnt ?s ms rs" by (rule wires_frame [OF inv(4)]) simp_all
  qed
  then show ?thesis using CloseMap assms(1) by simp
next
  case StartSrv
  then show ?thesis using start_srv_inv [OF assms(1,2)] assms(1) by auto
next
  case ReadReq
  then show ?thesis using read_req_inv [OF assms(1,2)] assms(1) by simp
next
  case (ServeReq j)
  then show ?thesis using serve_inv [OF assms(1)] assms(1) by simp
next
  case (WriteReply j)
  then show ?thesis using write_reply_inv [OF assms(1), of j] assms(1,4) by (cases "j < length (dWriting s)") simp_all
qed (use assms(1) call_tag_inv [OF assms(1)] cut_inv(1) [OF assms(1)] cut_inv(1) [OF cut_inv(2) [OF assms(1)]]
      in \<open>simp_all add: clnt_Close_def srv_Close_def\<close>)

lemma conn_step_grows:
  "conn_step v e s = Some s' \<Longrightarrow> dLongest s \<le> dLongest s' \<and> length (dCalls s) \<le> length (dCalls s')"
  by (cases e) (auto simp: call_tag_def call_put_def call_write_def clnt_read_def give_reply_def NewDemuxSrv_def srv_read_def
      srv_serve_def srv_write_def cut_at_def clnt_Close_def srv_Close_def sent_def Let_def
      split: if_splits option.splits readerPhase.splits list.splits readResult.splits prod.splits)

lemma conn_run_grows:
  "conn_run v es s = Some s' \<Longrightarrow> dLongest s \<le> dLongest s' \<and> length (dCalls s) \<le> length (dCalls s')"
proof (induction es arbitrary: s)
  case (Cons e es)
  then obtain s1 where "conn_step v e s = Some s1" "conn_run v es s1 = Some s'" by (auto split: bind_splits)
  then show ?case using conn_step_grows Cons.IH order_trans by blast
qed simp

section \<open>What has been served\<close>

text \<open>The server handed the requests one after another.\<close>

fun serve_all :: "'s env \<Rightarrow> string \<Rightarrow> string list \<Rightarrow> 's \<Rightarrow> (string \<times> bool) list \<times> 's" where
  "serve_all v clnt [] st = ([], st)"
| "serve_all v clnt (req # reqs) st =
     (let (r, st1) = eServe v clnt req st; (rs, st2) = serve_all v clnt reqs st1 in (r # rs, st2))"

lemma serve_all_snoc:
  "serve_all v clnt (reqs @ [req]) st =
     (let (rs, st1) = serve_all v clnt reqs st; (r, st2) = eServe v clnt req st1 in (rs @ [r], st2))"
  by (induction reqs arbitrary: st) (auto simp: Let_def split: prod.splits)

definition served_ok :: "'s env \<Rightarrow> string \<Rightarrow> 's \<Rightarrow> 's conn \<Rightarrow> bool" where
  "served_ok v clnt st s \<longleftrightarrow>
     serve_all v clnt (map (\<lambda>(t, req, r). req) (dServed s)) st = (map (\<lambda>(t, req, r). r) (dServed s), dState s)"

lemma served_step:
  assumes "served_ok v clnt st s" "conn_inv v clnt s" "conn_step v e s = Some s'"
  shows "served_ok v clnt st s'"
proof (cases "\<exists>j. e = ServeReq j \<and> j < length (dServing s)")
  case True
  then obtain j where e: "e = ServeReq j" "j < length (dServing s)" by blast
  have "dServing s \<noteq> []" using e(2) by auto
  then have "dClntEnd s = clnt" using assms(2) by (auto simp: conn_inv_def wires_ok_def)
  then show ?thesis using assms(1,3) e
    by (auto simp: served_ok_def srv_serve_def serve_all_snoc Let_def split: prod.splits)
next
  case False
  then have "dServed s' = dServed s \<and> dState s' = dState s"
    using assms(3) by (cases e) (auto simp: call_tag_def call_put_def call_write_def clnt_read_def give_reply_def NewDemuxSrv_def
      srv_read_def srv_write_def cut_at_def clnt_Close_def srv_Close_def Let_def
      split: if_splits option.splits readerPhase.splits list.splits readResult.splits prod.splits)
  then show ?thesis using assms(1) by (simp add: served_ok_def)
qed

lemma conn_run_inv:
  assumes "conn_run v es s = Some s'" "conn_inv v clnt s" "served_ok v clnt st s" "codec v"
    "length (dCalls s') < 2 ^ 32 - 1" "dLongest s' < 2 ^ 32"
  shows "conn_inv v clnt s' \<and> served_ok v clnt st s'"
  using assms(1-3)
proof (induction es arbitrary: s)
  case (Cons e es)
  then obtain s1 where s1: "conn_step v e s = Some s1" "conn_run v es s1 = Some s'" by (auto split: bind_splits)
  have b: "dLongest s1 < 2 ^ 32" "length (dCalls s) < 2 ^ 32 - 1"
    using conn_run_grows [OF s1(2)] conn_step_grows [OF s1(1)] assms(5,6) by linarith+
  have "conn_inv v clnt s1"
    using conn_step_inv [OF Cons.prems(2) assms(4) b(2), of e] s1(1) b(1) by auto
  then show ?case using Cons.IH [OF s1(2)] served_step [OF Cons.prems(3,2) s1(1)] by blast
qed simp

lemma conn_reachable:
  assumes "conn_run v es (NewDemuxClnt v clnt st) = Some s" "codec v" "length (dCalls s) < 2 ^ 32 - 1" "dLongest s < 2 ^ 32"
  shows "conn_inv v clnt s \<and> served_ok v clnt st s"
proof (rule conn_run_inv [OF assms(1) _ _ assms(2-4)])
  have "length (eEnc v \<lparr>mTag = 0, mData = eEncInit v clnt, mOk = True\<rparr>) \<le> dLongest (NewDemuxClnt v clnt st)"
    by (simp add: NewDemuxClnt_def sent_def)
  then show "conn_inv v clnt (NewDemuxClnt v clnt st)"
    using conn_run_grows [OF assms(1)] assms(4) by (intro conn_init_inv) (simp add: fits_def)
  show "served_ok v clnt st (NewDemuxClnt v clnt st)" by (simp add: served_ok_def NewDemuxClnt_def)
qed

text \<open>
  C37. A reply reaches the call that asked. In every run with fewer than 2^32 calls, the server is
  handed requests one after another, each the request of one call under its tag and no tag twice; a
  call that returns without an error returns what ServeRequest answered to its own request, and any
  other return is empty and false. The client never meets a reply that nobody waits for, and nothing
  is fatal except a connection that ends before the first message.
\<close>

theorem demux_answers_own_call:
  assumes "conn_run v es (NewDemuxClnt v clnt st) = Some s" "codec v" "length (dCalls s) < 2 ^ 32 - 1" "dLongest s < 2 ^ 32"
  shows "distinct (map fst (dServed s)) \<and> served_ok v clnt st s \<and>
    (\<forall>t req rep ok. (t, req, rep, ok) \<in> set (dServed s) \<longrightarrow>
      (\<exists>i < length (dCalls s). kTag (dCalls s ! i) = t \<and> kReq (dCalls s ! i) = req)) \<and>
    (\<forall>i < length (dCalls s). \<forall>r. kPhase (dCalls s ! i) = Returned r \<longrightarrow>
      (if rErr r then rRep r = [] \<and> \<not> rOk r
       else (kTag (dCalls s ! i), kReq (dCalls s ! i), rRep r, rOk r) \<in> set (dServed s))) \<and>
    (\<forall>e. conn_step v e s = None \<longrightarrow> e = StartSrv \<and> \<not> dUp s \<and> dCut s)"
proof -
  have inv: "conn_inv v clnt s" "served_ok v clnt st s" using conn_reachable [OF assms] by simp_all
  obtain ms rs where f: "flow_ok s ms rs" by (rule conn_invD [OF inv(1)])
  have "e = StartSrv \<and> \<not> dUp s \<and> dCut s" if "conn_step v e s = None" for e
    using conn_step_inv [OF inv(1) assms(2,3), of e] that by simp
  moreover have "if rErr r then rRep r = [] \<and> \<not> rOk r
       else (kTag (dCalls s ! i), kReq (dCalls s ! i), rRep r, rOk r) \<in> set (dServed s)"
    if "i < length (dCalls s)" "kPhase (dCalls s ! i) = Returned r" for i r
    using flow_okD(9) [OF f that] by (auto simp: failed_def)
  moreover have "\<exists>i < length (dCalls s). kTag (dCalls s ! i) = t \<and> kReq (dCalls s ! i) = req"
    if "(t, req, rep, ok) \<in> set (dServed s)" for t req rep ok
    using flow_okD(5) [OF f that] by (auto simp: asked_def)
  ultimately show ?thesis using inv(2) flow_okD(1) [OF f] by simp
qed

section \<open>No call is left behind\<close>

fun work_left :: "callPhase \<Rightarrow> nat" where
  "work_left Tagged = 3"
| "work_left Listed = 2"
| "work_left Waiting = 1"
| "work_left (Returned r) = 0"

fun reads_left :: "readerPhase \<Rightarrow> nat" where
  "reads_left Reading = 2"
| "reads_left Broken = 1"
| "reads_left _ = 0"

definition left_over :: "'s conn \<Rightarrow> nat" where
  "left_over s = sum_list (map (\<lambda>c. work_left (kPhase c)) (dCalls s)) + reads_left (dReader s)"

definition nearer :: "'s conn \<Rightarrow> 's conn \<Rightarrow> bool" where
  "nearer s s' \<longleftrightarrow> left_over s' < left_over s \<and> length (dCalls s') = length (dCalls s) \<and> dLongest s' = dLongest s \<and> dServed s' = dServed s"

lemma left_over_set:
  assumes "i < length (dCalls s)" "work_left ph < work_left (kPhase (dCalls s ! i))"
  shows "sum_list (map (\<lambda>c. work_left (kPhase c)) (dCalls (set_call i ph s))) < sum_list (map (\<lambda>c. work_left (kPhase c)) (dCalls s))"
proof -
  have "work_left (kPhase (dCalls s ! i)) \<le> sum_list (map (\<lambda>c. work_left (kPhase c)) (dCalls s))"
    using assms(1) by (intro member_le_sum_list) auto
  then show ?thesis using assms
    by (simp add: set_call_def map_update sum_list_update)
qed

lemma ReadCall_ended: "ReadCall v True buf \<noteq> Blocked"
  by (simp add: ReadCall_def Let_def split: option.splits)

lemma cut_stays: "conn_step v e s = Some s' \<Longrightarrow> dCut s \<Longrightarrow> dCut s'"
  by (cases e) (auto simp: call_tag_def call_put_def call_write_def clnt_read_def give_reply_def NewDemuxSrv_def srv_read_def
      srv_serve_def srv_write_def cut_at_def clnt_Close_def srv_Close_def Let_def
      split: if_splits option.splits readerPhase.splits list.splits readResult.splits prod.splits)

text \<open>On a closed connection some step of the client brings a call, or the reader, forward.\<close>

lemma give_reply_progress:
  assumes "calls_ok s" "\<forall>i < length (dCalls s). kPhase (dCalls s ! i) \<noteq> Listed" "cmCalls (dMap s) t = Some i"
  shows "give_reply t r g s = Some (g (set_call i (Returned r) (s\<lparr>dMap := (dMap s)\<lparr>cmCalls := (cmCalls (dMap s))(t := None)\<rparr>\<rparr>))) \<and>
    i < length (dCalls s) \<and> kPhase (dCalls s ! i) = Waiting"
proof -
  have "i < length (dCalls s)" "kPhase (dCalls s ! i) = Waiting" using listed_call [OF assms(1,3)] assms(2) by auto
  then show ?thesis using assms(3) by (simp add: give_reply_def cm_remove_def call_phase_def)
qed

lemma reader_progress:
  assumes "conn_inv v clnt s" "codec v" "dCut s" "i < length (dCalls s)" "kPhase (dCalls s ! i) = Waiting"
    "\<forall>i < length (dCalls s). kPhase (dCalls s ! i) \<noteq> Listed"
  shows "\<exists>e s'. conn_step v e s = Some s' \<and> nearer s s'"
proof -
  obtain ms rs where inv: "calls_ok s" "drain_ok s" "flow_ok s ms rs" "wires_ok v clnt s ms rs"
    by (rule conn_invD [OF assms(1)])
  have some: "cmCalls (dMap s) (kTag (dCalls s ! i)) = Some i" using calls_okD(4) [OF inv(1) assms(4)] assms(5) by simp
  show ?thesis
  proof (cases "dReader s")
    case Reading
    have "stream v (dCut s) (dToClnt s) rs" using inv(4) by (simp add: wires_ok_def)
    from assms(2) this show ?thesis
    proof (cases rule: stream_read)
      case 1
      then show ?thesis using ReadCall_ended assms(3) by metis
    next
      case (2 eof)
      let ?s = "s\<lparr>dMap := cm_close (dMap s), dReader := Broken\<rparr>"
      have "conn_step v ReadReply s = Some ?s" using Reading 2 by (simp add: clnt_read_def)
      moreover have "left_over ?s < left_over s" by (simp add: left_over_def Reading)
      ultimately show ?thesis by (intro exI [of _ ReadReply] exI [of _ ?s]) (simp add: nearer_def)
    next
      case (3 m rs' rest)
      have "cmCalls (dMap s) (mTag m) \<noteq> None" using flow_okD(8) [OF inv(3) Reading, of "mTag m"] 3(1) by simp
      then obtain k where c: "cmCalls (dMap s) (mTag m) = Some k" by auto
      let ?r = "\<lparr>rRep = mData m, rOk = mOk m, rErr = False\<rparr>"
      let ?s = "set_call k (Returned ?r) (s\<lparr>dMap := (dMap s)\<lparr>cmCalls := (cmCalls (dMap s))(mTag m := None)\<rparr>\<rparr>)\<lparr>dToClnt := rest\<rparr>"
      note g = give_reply_progress [OF inv(1) assms(6) c, of ?r "\<lambda>s. s\<lparr>dToClnt := rest\<rparr>"]
      have "conn_step v ReadReply s = Some ?s" using Reading 3(2) g by (simp add: clnt_read_def)
      moreover have "left_over ?s < left_over s" using left_over_set [of k s "Returned ?r"] g by (simp add: left_over_def set_call_def)
      ultimately show ?thesis by (intro exI [of _ ReadReply] exI [of _ ?s]) (simp add: nearer_def)
    qed
  next
    case Broken
    have "finite {t. cmCalls (dMap s) t \<noteq> None}" by (rule finite)
    from finite_distinct_list [OF this] obtain ts where ts: "set ts = {t. cmCalls (dMap s) t \<noteq> None}" "distinct ts" by (elim exE conjE)
    have "cm_outstanding (dMap s) ts" unfolding cm_outstanding_def ts(1) using ts(2) by simp
    then have "conn_step v (ListOutstanding ts) s = Some (s\<lparr>dReader := Draining ts\<rparr>)" using Broken by simp
    moreover have "left_over (s\<lparr>dReader := Draining ts\<rparr>) < left_over s" by (simp add: left_over_def Broken)
    ultimately show ?thesis by (intro exI [of _ "ListOutstanding ts"] exI [of _ "s\<lparr>dReader := Draining ts\<rparr>"]) (simp add: nearer_def)
  next
    case (Draining ts)
    then have out: "cmCalls (dMap s) t \<noteq> None \<longleftrightarrow> t \<in> set ts" for t using inv(2) by (auto simp: drain_ok_def cm_outstanding_def)
    then obtain t ts' where ts: "ts = t # ts'" using some by (cases ts) auto
    then obtain k where c: "cmCalls (dMap s) t = Some k" using out [of t] by auto
    let ?s = "set_call k (Returned failed) (s\<lparr>dMap := (dMap s)\<lparr>cmCalls := (cmCalls (dMap s))(t := None)\<rparr>\<rparr>)\<lparr>dReader := Draining ts'\<rparr>"
    note g = give_reply_progress [OF inv(1) assms(6) c, of failed "\<lambda>s. s\<lparr>dReader := Draining ts'\<rparr>"]
    have "conn_step v FailNext s = Some ?s" using Draining ts g by simp
    moreover have "left_over ?s < left_over s" using left_over_set [of k s "Returned failed"] g Draining by (simp add: left_over_def set_call_def)
    ultimately show ?thesis by (intro exI [of _ FailNext] exI [of _ ?s]) (simp add: nearer_def)
  next
    case Ended
    then show ?thesis using inv(2) some by (simp add: drain_ok_def)
  qed
qed

lemma call_progress:
  assumes "conn_inv v clnt s" "codec v" "dCut s" "i < length (dCalls s)" "\<nexists>r. kPhase (dCalls s ! i) = Returned r"
  shows "\<exists>e s'. conn_step v e s = Some s' \<and> nearer s s'"
proof (cases "\<exists>j < length (dCalls s). kPhase (dCalls s ! j) \<in> {Tagged, Listed}")
  case True
  then obtain j where j: "j < length (dCalls s)" "kPhase (dCalls s ! j) \<in> {Tagged, Listed}" by blast
  show ?thesis
  proof (cases "kPhase (dCalls s ! j) = Tagged")
    case True
    have "conn_step v (PutCall j) s = Some (call_put j s)" using True j by (simp add: call_phase_def)
    moreover have "nearer s (call_put j s)"
      using True j left_over_set [of j s "Returned failed"] left_over_set [of j s Listed]
      by (auto simp: call_put_def nearer_def left_over_def set_call_def split: option.splits)
    ultimately show ?thesis by blast
  next
    case False
    then have "conn_step v (WriteReq j) s = Some (call_write v j s)" using j by (simp add: call_phase_def)
    moreover have "nearer s (call_write v j s)"
      using False j left_over_set [of j s Waiting] assms(3) by (simp add: call_write_def nearer_def left_over_def Let_def)
    ultimately show ?thesis by blast
  qed
next
  case False
  then have "kPhase (dCalls s ! i) = Waiting" using assms(4,5) by (cases "kPhase (dCalls s ! i)") auto
  then show ?thesis using reader_progress [OF assms(1-4)] False by auto
qed

lemma calls_end:
  assumes "conn_inv v clnt s" "codec v" "dCut s" "length (dCalls s) < 2 ^ 32 - 1" "dLongest s < 2 ^ 32"
  shows "\<exists>es s'. conn_run v es s = Some s' \<and> length (dCalls s') = length (dCalls s) \<and> dServed s' = dServed s \<and>
    (\<forall>i < length (dCalls s'). \<exists>r. kPhase (dCalls s' ! i) = Returned r)"
  using assms
proof (induction "left_over s" arbitrary: s rule: less_induct)
  case less
  show ?case
  proof (cases "\<forall>i < length (dCalls s). \<exists>r. kPhase (dCalls s ! i) = Returned r")
    case True
    then show ?thesis by (intro exI [of _ "[]"] exI [of _ s]) simp
  next
    case False
    then obtain e s1 where s1: "conn_step v e s = Some s1" "nearer s s1"
      using call_progress [OF less.prems(1-3)] by blast
    have "conn_inv v clnt s1"
      using conn_step_inv [OF less.prems(1,2,4), of e] s1 less.prems(5) by (auto simp: nearer_def)
    then obtain es s' where "conn_run v es s1 = Some s'" "length (dCalls s') = length (dCalls s1)" "dServed s' = dServed s1"
        "\<forall>i < length (dCalls s'). \<exists>r. kPhase (dCalls s' ! i) = Returned r"
      using less.hyps [of s1] less.prems(2,4,5) cut_stays [OF s1(1) less.prems(3)] s1(2) by (auto simp: nearer_def)
    then show ?thesis using s1 by (intro exI [of _ "e # es"] exI [of _ s']) (simp add: nearer_def)
  qed
qed

text \<open>
  C38. No call is left behind. Once the connection is closed, whoever closed it and wherever it was cut,
  the client can bring every call it has begun to its return, without the server; and when its
  reader has ended, no call waits and a later one is refused.
\<close>

theorem demux_calls_end:
  assumes "conn_run v es (NewDemuxClnt v clnt st) = Some s" "codec v" "length (dCalls s) < 2 ^ 32 - 1" "dLongest s < 2 ^ 32" "dCut s"
  shows "(\<exists>es' s'. conn_run v es' s = Some s' \<and> length (dCalls s') = length (dCalls s) \<and> dServed s' = dServed s \<and>
      (\<forall>i < length (dCalls s'). \<exists>r. kPhase (dCalls s' ! i) = Returned r)) \<and>
    (dReader s = Ended \<longrightarrow> (\<forall>i < length (dCalls s). kPhase (dCalls s ! i) = Tagged \<and> call_put i s = set_call i (Returned failed) s \<or>
      (\<exists>r. kPhase (dCalls s ! i) = Returned r)))"
proof -
  have inv: "conn_inv v clnt s" using conn_reachable [OF assms(1-4)] by simp
  obtain ms rs where c: "calls_ok s" "drain_ok s" by (rule conn_invD [OF inv])
  have "kPhase (dCalls s ! i) = Tagged \<and> call_put i s = set_call i (Returned failed) s \<or> (\<exists>r. kPhase (dCalls s ! i) = Returned r)"
    if "dReader s = Ended" "i < length (dCalls s)" for i
  proof -
    have "cmClosed (dMap s)" "cmCalls (dMap s) (kTag (dCalls s ! i)) = None"
      using calls_okD(2) [OF c(1)] c(2) that(1) by (simp_all add: drain_ok_def)
    then show ?thesis using calls_okD(4) [OF c(1) that(2)]
      by (cases "kPhase (dCalls s ! i)") (auto simp: call_put_def cm_put_def)
  qed
  then show ?thesis using calls_end [OF inv assms(2,5,3,4)] by blast
qed

section \<open>Two small runs\<close>

definition plain_env :: "nat env" where
  "plain_env =
     \<lparr>eEnc = (\<lambda>m. (if mOk m then CHR ''t'' else CHR ''f'') # le32 (unat (mTag m)) @ mData m),
      eDec = (\<lambda>bs. Some \<lparr>mTag = word_of_nat (le_val (take 4 (tl bs))), mData = drop 4 (tl bs), mOk = (hd bs = CHR ''t'')\<rparr>),
      eEncInit = id, eDecInit = Some, eServe = (\<lambda>c req n. ((c @ req, True), Suc n))\<rparr>"

lemma plain_codec: "codec plain_env"
proof -
  have "unat (t :: Ttag) < 2 ^ 32" for t using unsigned_less [of t] by simp
  then show ?thesis using le_val_le32 by (simp add: codec_def plain_env_def)
qed

definition plain_run :: "connEvent list" where
  "plain_run = [Call ''hi'', PutCall 0, WriteReq 0, StartSrv, ReadReq, ServeReq 0, WriteReply 0]"

lemma plain_whole: "ReadCall plain_env e (WriteCall plain_env t d ok) = Got \<lparr>mTag = t, mData = d, mOk = ok\<rparr> []"
  if "length d < 1000"
  using ReadCall_whole [OF plain_codec, of "\<lparr>mTag = t, mData = d, mOk = ok\<rparr>" e "[]"] that
  by (simp add: fits_def plain_env_def)

lemma plain_first: "ReadCall plain_env e (WriteCall plain_env t d ok @ rest) = Got \<lparr>mTag = t, mData = d, mOk = ok\<rparr> rest"
  if "length d < 1000"
  using ReadCall_whole [OF plain_codec, of "\<lparr>mTag = t, mData = d, mOk = ok\<rparr>" e rest] that
  by (simp add: fits_def plain_env_def)

lemmas conn_eval = plain_run_def NewDemuxClnt_def newCallMap_def call_tag_def call_put_def call_write_def cm_put_def cm_remove_def
  set_call_def call_phase_def sent_def NewDemuxSrv_def srv_read_def srv_serve_def srv_write_def clnt_read_def give_reply_def
  cut_at_def plain_whole plain_first

lemma plain_fields [simp]:
  "eEncInit plain_env c = c" "eDecInit plain_env c = Some c" "eServe plain_env c req n = ((c @ req, True), Suc n)"
  "length (eEnc plain_env m) = 5 + length (mData m)"
  by (simp_all add: plain_env_def)

lemma demux_answers_own_call_witness:
  "\<exists>s. conn_run plain_env (plain_run @ [ReadReply]) (NewDemuxClnt plain_env ''c'' 0) = Some s \<and> dState s = 1 \<and>
     kPhase (dCalls s ! 0) = Returned \<lparr>rRep = ''chi'', rOk = True, rErr = False\<rparr> \<and>
     (kTag (dCalls s ! 0), ''hi'', ''chi'', True) \<in> set (dServed s)"
proof -
  have r: "case conn_run plain_env (plain_run @ [ReadReply]) (NewDemuxClnt plain_env ''c'' 0) of None \<Rightarrow> False | Some s \<Rightarrow>
      dState s = 1 \<and> length (dCalls s) = 1 \<and> dLongest s < 2 ^ 32 \<and> kReq (dCalls s ! 0) = ''hi'' \<and>
      kPhase (dCalls s ! 0) = Returned \<lparr>rRep = ''chi'', rOk = True, rErr = False\<rparr>"
    by (simp add: conn_eval)
  then obtain s where s: "conn_run plain_env (plain_run @ [ReadReply]) (NewDemuxClnt plain_env ''c'' 0) = Some s"
    "dState s = 1" "length (dCalls s) = 1" "dLongest s < 2 ^ 32" "kReq (dCalls s ! 0) = ''hi''"
    "kPhase (dCalls s ! 0) = Returned \<lparr>rRep = ''chi'', rOk = True, rErr = False\<rparr>" by (auto split: option.splits)
  have "\<forall>i < length (dCalls s). \<forall>r. kPhase (dCalls s ! i) = Returned r \<longrightarrow>
      (if rErr r then rRep r = [] \<and> \<not> rOk r
       else (kTag (dCalls s ! i), kReq (dCalls s ! i), rRep r, rOk r) \<in> set (dServed s))"
    using demux_answers_own_call [OF s(1) plain_codec] s(3,4) by simp
  then show ?thesis using s by auto
qed

lemma demux_calls_end_witness:
  "\<exists>s es s'. conn_run plain_env (plain_run @ [Call ''ho'', PutCall 1, Break 0 3]) (NewDemuxClnt plain_env ''c'' 0) = Some s \<and>
     kPhase (dCalls s ! 1) = Listed \<and> conn_run plain_env es s = Some s' \<and>
     (\<forall>i < 2. \<exists>r. kPhase (dCalls s' ! i) = Returned r)"
proof -
  have r: "case conn_run plain_env (plain_run @ [Call ''ho'', PutCall 1, Break 0 3]) (NewDemuxClnt plain_env ''c'' 0) of
      None \<Rightarrow> False | Some s \<Rightarrow> length (dCalls s) = 2 \<and> dLongest s < 2 ^ 32 \<and> dCut s \<and> kPhase (dCalls s ! 1) = Listed"
    by (simp add: conn_eval)
  then obtain s where s: "conn_run plain_env (plain_run @ [Call ''ho'', PutCall 1, Break 0 3]) (NewDemuxClnt plain_env ''c'' 0) = Some s"
    "length (dCalls s) = 2" "dLongest s < 2 ^ 32" "dCut s" "kPhase (dCalls s ! 1) = Listed" by (auto split: option.splits)
  have "length (dCalls s) < 2 ^ 32 - 1" using s(2) by simp
  from demux_calls_end [OF s(1) plain_codec this s(3,4)]
  obtain es s' where "conn_run plain_env es s = Some s'" "length (dCalls s') = length (dCalls s)"
    "\<forall>i < length (dCalls s'). \<exists>r. kPhase (dCalls s' ! i) = Returned r" by blast
  then show ?thesis using s(1,2,5) by auto
qed

lemma frames_round_trip_witness:
  "read_calls plain_env (frames plain_env [\<lparr>mTag = 7, mData = ''ab'', mOk = True\<rparr>, \<lparr>mTag = 8, mData = [], mOk = False\<rparr>]) =
     [\<lparr>mTag = 7, mData = ''ab'', mOk = True\<rparr>, \<lparr>mTag = 8, mData = [], mOk = False\<rparr>]"
proof -
  have "\<forall>m \<in> set [\<lparr>mTag = 7, mData = ''ab'', mOk = True\<rparr>, \<lparr>mTag = 8, mData = [], mOk = False\<rparr>].
      length (eEnc plain_env m) < 2 ^ 32" by simp
  from frames_round_trip [OF plain_codec this] show ?thesis by blast
qed

end
