(* ===== verification/Raft_Tester.thy ===== *)
theory Raft_Tester
  imports RSM_Invariant
begin

text \<open>
  The service the Raft tests run on every server (src/src/raft1/server.go) and the tester that watches it
  (CheckLogs, IngestLog, ApplyErr, nCommitted and the leader check of src/src/raft1/test.go): the server
  reports every command it is handed and takes a snapshot of its log now and then, the tester
  compares what all servers report. A Go value of type any is an option, nil being \<open>None\<close>; a
  snapshot is the pair that was encoded. The calls between server and tester get through; what a
  lost one would do is not modelled.
\<close>

section \<open>The tester\<close>

datatype applyErr =
    Differs int nat nat
  | OutOfOrder int
  | UnexpectedIndex int int
  | NilSnapshot
  | SnapshotMismatch

record 'c raftServer =
  rsApplyErr :: "applyErr option"
  rsLogs :: "int \<Rightarrow> 'c option option"

definition newRaftServer :: "'c raftServer" where
  "newRaftServer = \<lparr>rsApplyErr = None, rsLogs = (\<lambda>_. None)\<rparr>"

record 'c rtest =
  tsSrvs :: "'c raftServer list"
  tsMaxIndex :: int

definition ts_update :: "nat \<Rightarrow> ('c raftServer \<Rightarrow> 'c raftServer) \<Rightarrow> 'c rtest \<Rightarrow> 'c rtest" where
  "ts_update i f ts = ts\<lparr>tsSrvs := (tsSrvs ts)[i := f (tsSrvs ts ! i)]\<rparr>"

text \<open>The last server that disagrees gives the message; the second result is whether the previous entry is there.\<close>

definition CheckLogs :: "nat \<Rightarrow> ('c, 'b) ApplyMsg \<Rightarrow> 'c rtest \<Rightarrow> (applyErr option \<times> bool) \<times> 'c rtest" where
  "CheckLogs i m ts =
     (let index = CommandIndex m; v = Command m;
          err_msg = foldl (\<lambda>e (j, rs). case rsLogs rs index of
                Some old \<Rightarrow> if old \<noteq> v then Some (Differs index i j) else e
              | None \<Rightarrow> e) None (enumerate 0 (tsSrvs ts));
          prevok = (rsLogs (tsSrvs ts ! i) (index - 1) \<noteq> None);
          ts1 = ts_update i (\<lambda>me. me\<lparr>rsLogs := (rsLogs me)(index \<mapsto> v)\<rparr>) ts in
      ((err_msg, prevok), ts1\<lparr>tsMaxIndex := max index (tsMaxIndex ts)\<rparr>))"

definition IngestLog :: "nat \<Rightarrow> (int \<Rightarrow> 'c option option) \<Rightarrow> 'c rtest \<Rightarrow> 'c rtest" where
  "IngestLog i xlog ts = ts_update i (\<lambda>me. me\<lparr>rsLogs := xlog\<rparr>) ts"

definition ApplyErr :: "nat \<Rightarrow> applyErr \<Rightarrow> 'c rtest \<Rightarrow> 'c rtest" where
  "ApplyErr i err ts = ts_update i (\<lambda>me. me\<lparr>rsApplyErr := Some err\<rparr>) ts"

definition report :: "nat \<Rightarrow> applyErr option \<Rightarrow> 'c rtest \<Rightarrow> 'c rtest" where
  "report i err ts = (case err of None \<Rightarrow> ts | Some e \<Rightarrow> ApplyErr i e ts)"

text \<open>How many servers think an entry is committed; two values at one index and a reported error are fatal.\<close>

fun count_committed :: "int \<Rightarrow> 'c raftServer list \<Rightarrow> nat \<times> 'c option \<Rightarrow> (nat \<times> 'c option) option" where
  "count_committed index [] acc = Some acc"
| "count_committed index (rs # rss) (k, cmd) =
     (if rsApplyErr rs \<noteq> None then None
      else case rsLogs rs index of
        None \<Rightarrow> count_committed index rss (k, cmd)
      | Some cmd1 \<Rightarrow> if 0 < k \<and> cmd \<noteq> cmd1 then None else count_committed index rss (Suc k, cmd1))"

definition nCommitted :: "int \<Rightarrow> 'c rtest \<Rightarrow> (nat \<times> 'c option) option" where
  "nCommitted index ts = count_committed index (tsSrvs ts) (0, None)"

text \<open>
  One round of checkOneLeader over the answers of GetState of the connected servers: the leader of
  the last term that has one; two leaders in one term are fatal.
\<close>

definition leaders_of :: "int \<Rightarrow> (nat \<times> int \<times> bool) list \<Rightarrow> nat list" where
  "leaders_of t seen = map fst (filter (\<lambda>(i, term, leader). leader \<and> term = t) seen)"

definition leader_round :: "(nat \<times> int \<times> bool) list \<Rightarrow> nat option option" where
  "leader_round seen =
     (let terms = map (\<lambda>(i, term, leader). term) (filter (\<lambda>(i, term, leader). leader) seen) in
      if \<exists>t \<in> set terms. 1 < length (leaders_of t seen) then None
      else if terms = [] then Some None
      else Some (Some (hd (leaders_of (Max (set terms)) seen))))"

section \<open>The server\<close>

type_synonym 'c tsnap = "int \<times> 'c option list"

definition SnapShotInterval :: int where
  "SnapShotInterval = 10"

record 'c rfsrv =
  rfLastApplied :: int
  rfLog :: "int \<Rightarrow> 'c option option"

definition ingestSnap :: "'c tsnap option \<Rightarrow> int \<Rightarrow> 'c rfsrv \<Rightarrow> 'c rfsrv \<times> applyErr option" where
  "ingestSnap snapshot index rs =
     (case snapshot of
        None \<Rightarrow> (rs, Some NilSnapshot)
      | Some (lastIncludedIndex, xlog) \<Rightarrow>
          if index \<noteq> -1 \<and> index \<noteq> lastIncludedIndex then (rs, Some SnapshotMismatch)
          else (\<lparr>rfLastApplied = lastIncludedIndex,
                 rfLog = (\<lambda>j. if 0 \<le> j \<and> j < int (length xlog) then Some (xlog ! nat j) else None)\<rparr>, None))"

text \<open>
  newRfsrv, with and without snapshots; \<open>None\<close> is the fatal exit when a stored snapshot cannot be used. An
  empty snapshot is no snapshot.
\<close>

definition newRfsrv :: "bool \<Rightarrow> nat \<Rightarrow> 'c tsnap option \<Rightarrow> 'c rtest \<Rightarrow> ('c rfsrv \<times> 'c rtest) option" where
  "newRfsrv snap srv sn ts =
     (let s = \<lparr>rfLastApplied = 0, rfLog = (\<lambda>_. None)\<rparr> in
      if snap \<and> sn \<noteq> None
      then case ingestSnap sn (-1) s of
             (s1, None) \<Rightarrow> Some (s1, IngestLog srv (rfLog s1) ts)
           | (s1, Some err) \<Rightarrow> None
      else Some (s, ts))"

text \<open>One message in the loop of applier: only commands, reported to the tester.\<close>

definition rf_applier :: "nat \<Rightarrow> ('c, 'c tsnap) ApplyMsg \<Rightarrow> 'c rtest \<Rightarrow> 'c rtest" where
  "rf_applier srv m ts =
     (if \<not> CommandValid m then ts
      else let ((err, prevok), ts1) = CheckLogs srv m ts in
        report srv (if CommandIndex m > 1 \<and> \<not> prevok then Some (OutOfOrder (CommandIndex m)) else err) ts1)"

text \<open>One message in the loop of applierSnap; the last result is whether a snapshot is due.\<close>

definition rf_applierSnap ::
  "nat \<Rightarrow> ('c, 'c tsnap) ApplyMsg \<Rightarrow> 'c rfsrv \<Rightarrow> 'c rtest \<Rightarrow> 'c rfsrv \<times> 'c rtest \<times> bool" where
  "rf_applierSnap srv m rs ts =
     (if SnapshotValid m then
        let (rs1, err) = ingestSnap (SnapshotData m) (SnapshotIndex m) rs in
        (rs1, report srv err (IngestLog srv (rfLog rs1) ts), False)
      else if CommandValid m then
        let index = CommandIndex m;
            (err, ts1) =
              (if index \<noteq> rfLastApplied rs + 1 then (Some (UnexpectedIndex (rfLastApplied rs + 1) index), ts)
               else let ((err, prevok), ts1) = CheckLogs srv m ts in
                 (if index > 1 \<and> \<not> prevok then Some (OutOfOrder index) else err, ts1));
            rs1 = rs\<lparr>rfLog := (rfLog rs)(index \<mapsto> Command m), rfLastApplied := index\<rparr> in
        (rs1, report srv err ts1, (index + 1) mod SnapShotInterval = 0)
      else (rs, ts, False))"

text \<open>The snapshot: the index and every entry up to it, nil where there is none.\<close>

definition rf_snapshot :: "'c rfsrv \<Rightarrow> 'c tsnap" where
  "rf_snapshot rs =
     (rfLastApplied rs,
      map (\<lambda>j. case rfLog rs (int j) of Some c \<Rightarrow> c | None \<Rightarrow> None) [0..<nat (rfLastApplied rs + 1)])"

section \<open>Servers, tester and network\<close>

record 'c rtsys =
  tCluster :: "('c, 'c tsnap) cluster"
  tSrv :: "nat \<Rightarrow> 'c rfsrv"
  tPos :: "nat \<Rightarrow> nat"
  tDue :: "nat \<Rightarrow> bool"
  tTest :: "'c rtest"

datatype 'c rtevent =
    TNet "('c, 'c tsnap) event"
  | TStart nat 'c
  | TRead nat
  | TSnap nat
  | TRestart nat int int

definition rt_init :: "nat \<Rightarrow> int \<Rightarrow> (nat \<Rightarrow> int) \<Rightarrow> 'c rtsys" where
  "rt_init n now rnd =
     \<lparr>tCluster = cluster_init n now rnd, tSrv = (\<lambda>_. \<lparr>rfLastApplied = 0, rfLog = (\<lambda>_. None)\<rparr>),
      tPos = (\<lambda>_. 0), tDue = (\<lambda>_. False), tTest = \<lparr>tsSrvs = replicate n newRaftServer, tsMaxIndex = 0\<rparr>\<rparr>"

definition rt_read :: "bool \<Rightarrow> nat \<Rightarrow> 'c rtsys \<Rightarrow> 'c rtsys" where
  "rt_read snap p s =
     (if tDue s p \<or> tPos s p \<ge> length (applyCh (tCluster s) p) then s
      else let m = applyCh (tCluster s) p ! tPos s p; s1 = s\<lparr>tPos := (tPos s)(p := Suc (tPos s p))\<rparr> in
        if snap
        then let (rs, ts, due) = rf_applierSnap p m (tSrv s p) (tTest s) in
          s1\<lparr>tSrv := (tSrv s)(p := rs), tTest := ts, tDue := (tDue s)(p := due)\<rparr>
        else s1\<lparr>tTest := rf_applier p m (tTest s)\<rparr>)"

definition rt_snap :: "nat \<Rightarrow> 'c rtsys \<Rightarrow> 'c rtsys option" where
  "rt_snap p s =
     (if \<not> tDue s p then Some s
      else do {
        c \<leftarrow> compact_at (tCluster s) p (rfLastApplied (tSrv s p)) (rf_snapshot (tSrv s p));
        Some (s\<lparr>tCluster := c, tDue := (tDue s)(p := False)\<rparr>)
      })"

definition rt_restart :: "bool \<Rightarrow> nat \<Rightarrow> int \<Rightarrow> int \<Rightarrow> 'c rtsys \<Rightarrow> 'c rtsys option" where
  "rt_restart snap p now rnd s =
     do {
       (rs, ts) \<leftarrow> newRfsrv snap p (ReadSnapshot (persister (node (tCluster s) p))) (tTest s);
       c \<leftarrow> crash_at (tCluster s) p now rnd;
       Some (s\<lparr>tCluster := c, tSrv := (tSrv s)(p := rs), tPos := (tPos s)(p := 0), tDue := (tDue s)(p := False),
               tTest := ts\<rparr>)
     }"

fun rt_step :: "bool \<Rightarrow> 'c rtevent \<Rightarrow> 'c rtsys \<Rightarrow> 'c rtsys option" where
  "rt_step snap (TNet e) s =
     (if network e then do { c \<leftarrow> cluster_exec (tCluster s) e; Some (s\<lparr>tCluster := c\<rparr>) } else Some s)"
| "rt_step snap (TStart p cmd) s = do { c \<leftarrow> cluster_exec (tCluster s) (Propose p cmd); Some (s\<lparr>tCluster := c\<rparr>) }"
| "rt_step snap (TRead p) s = Some (if p < csize (tCluster s) then rt_read snap p s else s)"
| "rt_step snap (TSnap p) s = (if p < csize (tCluster s) then rt_snap p s else Some s)"
| "rt_step snap (TRestart p now rnd) s = (if p < csize (tCluster s) then rt_restart snap p now rnd s else Some s)"

fun rt_run :: "bool \<Rightarrow> 'c rtevent list \<Rightarrow> 'c rtsys \<Rightarrow> 'c rtsys option" where
  "rt_run snap [] s = Some s"
| "rt_run snap (e # es) s = do { s' \<leftarrow> rt_step snap e s; rt_run snap es s' }"

section \<open>The invariant\<close>

text \<open>The command at an index, once it is settled.\<close>

definition fixed_at :: "nat \<Rightarrow> 'c proto \<Rightarrow> int \<Rightarrow> 'c option \<Rightarrow> bool" where
  "fixed_at n a j c \<longleftrightarrow> (\<exists>l. ledger n a (l @ [c]) \<and> j = int (length l) + 1)"

lemma fixed_unique:
  assumes "proto_inv (electQuorum n) a" "fixed_at n a j c" "fixed_at n a j c'"
  shows "c = c'"
proof -
  obtain l l' where "ledger n a (l @ [c])" "ledger n a (l' @ [c'])" "length l = length l'"
    using assms(2,3) by (auto simp: fixed_at_def)
  then show ?thesis using ledger_agree [OF assms(1), of "l @ [c]" "l' @ [c']"] by simp
qed

lemma fixed_mono: "fixed_at n a j c \<Longrightarrow> extends a a' \<Longrightarrow> fixed_at n a' j c"
  unfolding fixed_at_def using ledger_extends by blast

definition snap_right :: "nat \<Rightarrow> 'c proto \<Rightarrow> int \<Rightarrow> 'c tsnap \<Rightarrow> bool" where
  "snap_right n a i d \<longleftrightarrow> fst d = i \<and> int (length (snd d)) = i + 1 \<and> (\<forall>j. 1 \<le> j \<and> j \<le> i \<longrightarrow> fixed_at n a j (snd d ! nat j))"

lemma snap_right_mono: "snap_right n a i d \<Longrightarrow> extends a a' \<Longrightarrow> snap_right n a' i d"
  unfolding snap_right_def using fixed_mono by blast

text \<open>A log as a server or the tester keeps it: right wherever it says something.\<close>

definition log_right :: "nat \<Rightarrow> 'c proto \<Rightarrow> (int \<Rightarrow> 'c option option) \<Rightarrow> bool" where
  "log_right n a l \<longleftrightarrow> (\<forall>j c. 1 \<le> j \<longrightarrow> l j = Some c \<longrightarrow> fixed_at n a j c)"

lemma log_right_mono: "log_right n a l \<Longrightarrow> extends a a' \<Longrightarrow> log_right n a' l"
  unfolding log_right_def using fixed_mono by blast

definition test_ok :: "nat \<Rightarrow> 'c proto \<Rightarrow> 'c rtest \<Rightarrow> bool" where
  "test_ok n a ts \<longleftrightarrow> length (tsSrvs ts) = n \<and> (\<forall>rs \<in> set (tsSrvs ts). rsApplyErr rs = None \<and> log_right n a (rsLogs rs))"

text \<open>Server \<open>p\<close> has handled its channel up to index \<open>k\<close>, which the tester knows.\<close>

definition srv_ok :: "bool \<Rightarrow> 'c proto \<Rightarrow> 'c rtsys \<Rightarrow> nat \<Rightarrow> bool" where
  "srv_ok snap a s p \<longleftrightarrow>
     tPos s p \<le> length (applyCh (tCluster s) p) \<and>
     (\<exists>k. delivered (applyBase (tCluster s) p) (take (tPos s p) (applyCh (tCluster s) p)) = Some k \<and> 0 \<le> k \<and>
        (0 < k \<longrightarrow> rsLogs (tsSrvs (tTest s) ! p) k \<noteq> None) \<and>
        (snap \<longrightarrow> rfLastApplied (tSrv s p) = k \<and> log_right (csize (tCluster s)) a (rfLog (tSrv s p)) \<and>
          (\<forall>j. 1 \<le> j \<and> j \<le> k \<longrightarrow> rfLog (tSrv s p) j \<noteq> None))) \<and>
     (tDue s p \<longrightarrow> snap)"

definition rt_inv :: "bool \<Rightarrow> 'c rtsys \<Rightarrow> 'c proto \<Rightarrow> bool" where
  "rt_inv snap s a \<longleftrightarrow>
     coupled (tCluster s) a \<and> served (tCluster s) \<and> sent_ok (tCluster s) \<and>
     (\<forall>(i, d) \<in> set (taken (tCluster s)). snap_right (csize (tCluster s)) a i d) \<and>
     (\<not> snap \<longrightarrow> taken (tCluster s) = []) \<and>
     test_ok (csize (tCluster s)) a (tTest s) \<and> (\<forall>p < csize (tCluster s). srv_ok snap a s p)"

lemma rt_invD:
  assumes "rt_inv snap s a"
  shows "coupled (tCluster s) a" "served (tCluster s)" "sent_ok (tCluster s)"
    "(i, d) \<in> set (taken (tCluster s)) \<Longrightarrow> snap_right (csize (tCluster s)) a i d"
    "\<not> snap \<Longrightarrow> taken (tCluster s) = []" "test_ok (csize (tCluster s)) a (tTest s)"
    "p < csize (tCluster s) \<Longrightarrow> srv_ok snap a s p"
  using assms by (auto simp: rt_inv_def)

lemma rt_invI:
  assumes "coupled (tCluster s) a" "served (tCluster s)" "sent_ok (tCluster s)"
    "\<And>i d. (i, d) \<in> set (taken (tCluster s)) \<Longrightarrow> snap_right (csize (tCluster s)) a i d"
    "\<not> snap \<Longrightarrow> taken (tCluster s) = []" "test_ok (csize (tCluster s)) a (tTest s)"
    "\<And>p. p < csize (tCluster s) \<Longrightarrow> srv_ok snap a s p"
  shows "rt_inv snap s a"
  using assms by (auto simp: rt_inv_def)

text \<open>What the tester answers while all is right.\<close>

lemma no_difference:
  assumes "\<forall>(j, rs) \<in> set xs. rsLogs rs index = None \<or> rsLogs rs index = Some v"
  shows "foldl (\<lambda>e (j, rs). case rsLogs rs index of Some old \<Rightarrow> if old \<noteq> v then Some (Differs index i j) else e | None \<Rightarrow> e) None xs = None"
  using assms by (induction xs) (auto split: prod.splits)

lemma CheckLogs_right:
  assumes "proto_inv (electQuorum n) a" "test_ok n a ts" "fixed_at n a (CommandIndex m) (Command m)" "i < n" "1 \<le> CommandIndex m"
  shows "\<exists>ts'. CheckLogs i m ts = ((None, rsLogs (tsSrvs ts ! i) (CommandIndex m - 1) \<noteq> None), ts') \<and> test_ok n a ts' \<and>
    rsLogs (tsSrvs ts' ! i) = (rsLogs (tsSrvs ts ! i))(CommandIndex m \<mapsto> Command m) \<and>
    (\<forall>q. q \<noteq> i \<longrightarrow> tsSrvs ts' ! q = tsSrvs ts ! q)"
proof -
  have "rsLogs rs (CommandIndex m) = None \<or> rsLogs rs (CommandIndex m) = Some (Command m)" if "rs \<in> set (tsSrvs ts)" for rs
  proof (cases "rsLogs rs (CommandIndex m)")
    case (Some c)
    then have "fixed_at n a (CommandIndex m) c" using assms(2,5) that by (auto simp: test_ok_def log_right_def)
    then show ?thesis using fixed_unique [OF assms(1) _ assms(3)] Some by simp
  qed simp
  note this [OF nth_mem]
  then have e: "foldl (\<lambda>e (j, rs). case rsLogs rs (CommandIndex m) of
        Some old \<Rightarrow> if old \<noteq> Command m then Some (Differs (CommandIndex m) i j) else e
      | None \<Rightarrow> e) None (enumerate 0 (tsSrvs ts)) = None"
    by (intro no_difference) (force simp: in_set_enumerate_eq)
  let ?me = "tsSrvs ts ! i"
  let ?srvs = "(tsSrvs ts)[i := ?me\<lparr>rsLogs := (rsLogs ?me)(CommandIndex m \<mapsto> Command m)\<rparr>]"
  have i: "i < length (tsSrvs ts)" using assms(2,4) by (simp add: test_ok_def)
  have "log_right n a (rsLogs ?me)" "rsApplyErr ?me = None" using assms(2) nth_mem [OF i] by (auto simp: test_ok_def)
  then have "log_right n a ((rsLogs ?me)(CommandIndex m \<mapsto> Command m))" using assms(3) by (auto simp: log_right_def)
  then have "\<forall>rs \<in> set ?srvs. rsApplyErr rs = None \<and> log_right n a (rsLogs rs)"
    using assms(2) \<open>rsApplyErr ?me = None\<close> set_update_subset_insert [of "tsSrvs ts" i] by (fastforce simp: test_ok_def)
  then show ?thesis using assms(2) e i by (simp add: CheckLogs_def Let_def ts_update_def test_ok_def)
qed

subsection \<open>Every event keeps it\<close>

lemma srv_ok_mono:
  assumes "srv_ok snap a s p" "extends a a'" "csize (tCluster s') = csize (tCluster s)" "tSrv s' p = tSrv s p"
    "tPos s' p = tPos s p" "tDue s' p \<longrightarrow> tDue s p" "applyBase (tCluster s') p = applyBase (tCluster s) p"
    "applyCh (tCluster s') p = applyCh (tCluster s) p @ ms" "tsSrvs (tTest s') ! p = tsSrvs (tTest s) ! p"
  shows "srv_ok snap a' s' p"
  using assms log_right_mono [OF _ assms(2)] unfolding srv_ok_def by fastforce

lemma test_ok_mono: "test_ok n a ts \<Longrightarrow> extends a a' \<Longrightarrow> test_ok n a' ts"
  unfolding test_ok_def using log_right_mono by blast

text \<open>An event of the cluster that no server or tester notices yet.\<close>

lemma quiet_inv:
  assumes inv: "rt_inv snap s a" and ex: "cluster_exec (tCluster s) e = Some c" "taken c = taken (tCluster s)"
    "applyBase c = applyBase (tCluster s)" "\<And>p. \<exists>ms. applyCh c p = applyCh (tCluster s) p @ ms" "sent_ok c"
  shows "\<exists>a'. rt_inv snap (s\<lparr>tCluster := c\<rparr>) a' \<and> extends a a'"
proof -
  note S = rt_invD [OF inv]
  obtain a' where c: "coupled c a'" "extends a a'"
    using exec_coupled [OF S(1), of e] ex(1) by (auto simp: evolves_def)
  have n: "csize c = csize (tCluster s)" using exec_csize [OF ex(1)] by simp
  have "rt_inv snap (s\<lparr>tCluster := c\<rparr>) a'"
  proof (rule rt_invI, simp_all add: n ex(2,5) c(1))
    show "served c" by (rule exec_served [OF S(2,1) ex(1)])
    show "(i, d) \<in> set (taken (tCluster s)) \<Longrightarrow> snap_right (csize (tCluster s)) a' i d" for i d
      using snap_right_mono [OF S(4) c(2)] .
    show "\<not> snap \<Longrightarrow> taken (tCluster s) = []" by (rule S(5))
    show "test_ok (csize (tCluster s)) a' (tTest s)" by (rule test_ok_mono [OF S(6) c(2)])
    show "srv_ok snap a' (s\<lparr>tCluster := c\<rparr>) p" if p: "p < csize (tCluster s)" for p
    proof -
      obtain ms where "applyCh c p = applyCh (tCluster s) p @ ms" using ex(4) by blast
      then show ?thesis using n ex(3) by (intro srv_ok_mono [OF S(7) [OF p] c(2)]) simp_all
    qed
  qed
  then show ?thesis using c(2) by blast
qed

lemma rt_net_inv:
  assumes "rt_inv snap s a" "network e"
  shows "\<exists>c a'. cluster_exec (tCluster s) e = Some c \<and> rt_inv snap (s\<lparr>tCluster := c\<rparr>) a' \<and> extends a a'"
proof -
  obtain c where c: "cluster_exec (tCluster s) e = Some c"
    using exec_coupled [OF rt_invD(1) [OF assms(1)], of e] by blast
  note F = network_frame [OF assms(2) c]
  from quiet_inv [OF assms(1) c F(1,2,3) F(4) [OF rt_invD(3) [OF assms(1)]]] c show ?thesis by blast
qed

lemma rt_start_inv:
  assumes "rt_inv snap s a"
  shows "\<exists>c a'. cluster_exec (tCluster s) (Propose p x) = Some c \<and> rt_inv snap (s\<lparr>tCluster := c\<rparr>) a' \<and> extends a a'"
proof -
  obtain c where c: "cluster_exec (tCluster s) (Propose p x) = Some c"
    using exec_coupled [OF rt_invD(1) [OF assms(1)], of "Propose p x"] by blast
  have F: "taken c = taken (tCluster s)" "applyBase c = applyBase (tCluster s)" "applyCh c = applyCh (tCluster s)"
    "history c = history (tCluster s)"
    using c by (auto simp: propose_at_def update_def split: if_splits)
  have "sent_ok c" using rt_invD(3) [OF assms(1)] F(3,4) by (simp add: sent_ok_def)
  moreover have "\<exists>ms. applyCh c q = applyCh (tCluster s) q @ ms" for q using F(3) by simp
  ultimately show ?thesis using quiet_inv [OF assms c F(1,2)] c by blast
qed

text \<open>The server takes the next message of its channel.\<close>

lemma ingest_right:
  assumes "snap_right n a i d" "index = -1 \<or> index = i" "0 \<le> i"
  shows "\<exists>rs'. ingestSnap (Some d) index rs = (rs', None) \<and> rfLastApplied rs' = i \<and> log_right n a (rfLog rs') \<and>
    (\<forall>j. 1 \<le> j \<and> j \<le> i \<longrightarrow> rfLog rs' j \<noteq> None)"
proof -
  obtain xlog where d: "d = (i, xlog)" "int (length xlog) = i + 1" "\<forall>j. 1 \<le> j \<and> j \<le> i \<longrightarrow> fixed_at n a j (xlog ! nat j)"
    using assms(1) by (cases d) (auto simp: snap_right_def)
  then show ?thesis using assms(2) by (auto simp: ingestSnap_def log_right_def)
qed

lemma IngestLog_right:
  assumes "test_ok n a ts" "log_right n a l" "i < n"
  shows "test_ok n a (IngestLog i l ts)" "rsLogs (tsSrvs (IngestLog i l ts) ! i) = l"
    "q \<noteq> i \<Longrightarrow> tsSrvs (IngestLog i l ts) ! q = tsSrvs ts ! q"
proof -
  have i: "i < length (tsSrvs ts)" using assms(1,3) by (simp add: test_ok_def)
  then show "test_ok n a (IngestLog i l ts)" using assms(1,2) nth_mem [OF i] set_update_subset_insert [of "tsSrvs ts" i]
    by (fastforce simp: test_ok_def IngestLog_def ts_update_def)
  show "rsLogs (tsSrvs (IngestLog i l ts) ! i) = l" "q \<noteq> i \<Longrightarrow> tsSrvs (IngestLog i l ts) ! q = tsSrvs ts ! q"
    using i by (simp_all add: IngestLog_def ts_update_def)
qed

lemma applied_fixed:
  assumes "applied_ok n a m" "CommandValid m"
  shows "fixed_at n a (CommandIndex m) (Command m)"
  using applied_ledger [OF assms] by (simp add: fixed_at_def)

text \<open>One command at the right place raises no error, in either loop.\<close>

lemma command_right:
  assumes "proto_inv (electQuorum n) a" "test_ok n a ts" "fixed_at n a (k + 1) (Command m)" "p < n" "0 \<le> k"
    "CommandValid m" "\<not> SnapshotValid m" "CommandIndex m = k + 1" "0 < k \<longrightarrow> rsLogs (tsSrvs ts ! p) k \<noteq> None"
  shows "test_ok n a (rf_applier p m ts) \<and> rsLogs (tsSrvs (rf_applier p m ts) ! p) (k + 1) \<noteq> None \<and>
      (\<forall>q. q \<noteq> p \<longrightarrow> tsSrvs (rf_applier p m ts) ! q = tsSrvs ts ! q)"
    "rfLastApplied rs = k \<Longrightarrow> \<exists>due. rf_applierSnap p m rs ts =
      (rs\<lparr>rfLog := (rfLog rs)(k + 1 \<mapsto> Command m), rfLastApplied := k + 1\<rparr>, rf_applier p m ts, due)"
proof -
  obtain ts' where c: "CheckLogs p m ts = ((None, rsLogs (tsSrvs ts ! p) (CommandIndex m - 1) \<noteq> None), ts')"
    "test_ok n a ts'" "rsLogs (tsSrvs ts' ! p) = (rsLogs (tsSrvs ts ! p))(CommandIndex m \<mapsto> Command m)"
    "\<forall>q. q \<noteq> p \<longrightarrow> tsSrvs ts' ! q = tsSrvs ts ! q"
    using CheckLogs_right [OF assms(1,2), of m p] assms(3-5,8) by auto
  have r: "rf_applier p m ts = ts'" using c(1) assms(5,6,8,9) by (auto simp: rf_applier_def report_def)
  then show "test_ok n a (rf_applier p m ts) \<and> rsLogs (tsSrvs (rf_applier p m ts) ! p) (k + 1) \<noteq> None \<and>
      (\<forall>q. q \<noteq> p \<longrightarrow> tsSrvs (rf_applier p m ts) ! q = tsSrvs ts ! q)" using c assms(8) by simp
  show "\<exists>due. rf_applierSnap p m rs ts =
      (rs\<lparr>rfLog := (rfLog rs)(k + 1 \<mapsto> Command m), rfLastApplied := k + 1\<rparr>, rf_applier p m ts, due)" if "rfLastApplied rs = k"
    using c(1) assms(5-9) that unfolding r by (auto simp: rf_applierSnap_def report_def Let_def)
qed

lemma rt_read_inv:
  assumes inv: "rt_inv snap s a" and p: "p < csize (tCluster s)"
  shows "rt_inv snap (rt_read snap p s) a"
proof (cases "tDue s p \<or> tPos s p \<ge> length (applyCh (tCluster s) p)")
  case True
  then show ?thesis using inv by (simp add: rt_read_def)
next
  case False
  let ?n = "csize (tCluster s)" and ?ch = "applyCh (tCluster s) p" and ?b = "applyBase (tCluster s) p"
  let ?m = "?ch ! tPos s p"
  have more: "tPos s p < length ?ch" "\<not> tDue s p" using False by auto
  note S = rt_invD [OF inv]
  obtain k where k: "delivered ?b (take (tPos s p) ?ch) = Some k" "0 \<le> k" "0 < k \<longrightarrow> rsLogs (tsSrvs (tTest s) ! p) k \<noteq> None"
      "snap \<longrightarrow> rfLastApplied (tSrv s p) = k \<and> log_right ?n a (rfLog (tSrv s p)) \<and> (\<forall>j. 1 \<le> j \<and> j \<le> k \<longrightarrow> rfLog (tSrv s p) j \<noteq> None)"
    using S(7) [OF p] by (auto simp: srv_ok_def)
  have split: "?ch = take (tPos s p) ?ch @ ?m # drop (Suc (tPos s p)) ?ch" using more(1) by (simp add: id_take_nth_drop [symmetric])
  have tk: "take (Suc (tPos s p)) ?ch = take (tPos s p) ?ch @ [?m]" using more(1) by (rule take_Suc_conv_app_nth)
  have "delivered ?b ?ch \<noteq> None" using servedD(1) [OF S(2) p] by (auto simp: stream_ok_def)
  then have nx: "CommandValid ?m \<and> \<not> SnapshotValid ?m \<and> CommandIndex ?m = k + 1 \<and>
        delivered ?b (take (Suc (tPos s p)) ?ch) = Some (k + 1) \<or>
      SnapshotValid ?m \<and> \<not> CommandValid ?m \<and> k < SnapshotIndex ?m \<and>
        delivered ?b (take (Suc (tPos s p)) ?ch) = Some (SnapshotIndex ?m)"
    using delivered_next [OF _ k(1), of ?m "drop (Suc (tPos s p)) ?ch"] split tk by metis
  have hist: "(p, ?m) \<in> set (history (tCluster s))" using S(3) more(1) by (simp add: sent_ok_def)
  have "\<exists>ts rs due j. rt_read snap p s = s\<lparr>tPos := (tPos s)(p := Suc (tPos s p)), tSrv := (tSrv s)(p := rs), tTest := ts,
        tDue := (tDue s)(p := due)\<rparr> \<and> test_ok ?n a ts \<and> (\<forall>q. q \<noteq> p \<longrightarrow> tsSrvs ts ! q = tsSrvs (tTest s) ! q) \<and>
      delivered ?b (take (Suc (tPos s p)) ?ch) = Some j \<and> 0 \<le> j \<and> rsLogs (tsSrvs ts ! p) j \<noteq> None \<and> (due \<longrightarrow> snap) \<and>
      (snap \<longrightarrow> rfLastApplied rs = j \<and> log_right ?n a (rfLog rs) \<and> (\<forall>i. 1 \<le> i \<and> i \<le> j \<longrightarrow> rfLog rs i \<noteq> None))"
    using nx
  proof (elim disjE conjE)
    assume m: "CommandValid ?m" "\<not> SnapshotValid ?m" "CommandIndex ?m = k + 1"
      "delivered ?b (take (Suc (tPos s p)) ?ch) = Some (k + 1)"
    have fx: "fixed_at ?n a (k + 1) (Command ?m)"
      using applied_fixed [OF coupledD(4) [OF S(1) hist] m(1)] m(3) by simp
    note C = command_right [OF coupledD(1) [OF S(1)] S(6) fx p k(2) m(1-3) k(3)]
    let ?ts = "rf_applier p ?m (tTest s)"
    show ?thesis
    proof (cases snap)
      case False
      have "rt_read snap p s = s\<lparr>tPos := (tPos s)(p := Suc (tPos s p)), tSrv := (tSrv s)(p := tSrv s p), tTest := ?ts,
          tDue := (tDue s)(p := False)\<rparr>" using more False by (simp add: rt_read_def fun_upd_idem)
      moreover have "0 \<le> k + 1" using k(2) by simp
      ultimately show ?thesis using C(1) m(4) False by blast
    next
      case True
      let ?rs = "(tSrv s p)\<lparr>rfLog := (rfLog (tSrv s p))(k + 1 \<mapsto> Command ?m), rfLastApplied := k + 1\<rparr>"
      obtain due where r: "rf_applierSnap p ?m (tSrv s p) (tTest s) = (?rs, ?ts, due)" using C(2) [of "tSrv s p"] k(4) True by blast
      have "rt_read snap p s = s\<lparr>tPos := (tPos s)(p := Suc (tPos s p)), tSrv := (tSrv s)(p := ?rs), tTest := ?ts,
          tDue := (tDue s)(p := due)\<rparr>" using more True r by (simp add: rt_read_def)
      moreover have "rfLastApplied ?rs = k + 1 \<and> log_right ?n a (rfLog ?rs) \<and> (\<forall>i. 1 \<le> i \<and> i \<le> k + 1 \<longrightarrow> rfLog ?rs i \<noteq> None)"
        using k(4) True fx by (auto simp: log_right_def)
      moreover have "0 \<le> k + 1" using k(2) by simp
      ultimately show ?thesis using C(1) m(4) True by blast
    qed
  next
    assume m: "SnapshotValid ?m" "\<not> CommandValid ?m" "k < SnapshotIndex ?m"
      "delivered ?b (take (Suc (tPos s p)) ?ch) = Some (SnapshotIndex ?m)"
    let ?i = "SnapshotIndex ?m"
    obtain d where d: "SnapshotData ?m = Some d" "(?i, d) \<in> set (taken (tCluster s))"
      using servedD(4) [OF S(2) hist] m(1) by (auto simp: shows_ok_def)
    have snap using S(5) d(2) by (cases snap) auto
    have i: "0 \<le> ?i" "1 \<le> ?i" using m(3) k(2) by simp_all
    obtain rs where g: "ingestSnap (Some d) ?i (tSrv s p) = (rs, None)" "rfLastApplied rs = ?i" "log_right ?n a (rfLog rs)"
        "\<forall>j. 1 \<le> j \<and> j \<le> ?i \<longrightarrow> rfLog rs j \<noteq> None"
      using ingest_right [OF S(4) [OF d(2)] _ i(1), of ?i "tSrv s p"] by blast
    let ?ts = "IngestLog p (rfLog rs) (tTest s)"
    note T = IngestLog_right [OF S(6) g(3) p]
    have "rt_read snap p s = s\<lparr>tPos := (tPos s)(p := Suc (tPos s p)), tSrv := (tSrv s)(p := rs), tTest := ?ts,
        tDue := (tDue s)(p := False)\<rparr>"
      using more \<open>snap\<close> m(1) d(1) g(1) by (simp add: rt_read_def rf_applierSnap_def report_def)
    moreover have "rsLogs (tsSrvs ?ts ! p) ?i \<noteq> None" using T(2) g(4) i(2) by simp
    ultimately show ?thesis using T(1,3) g(2-4) m(4) i(1) \<open>snap\<close> by blast
  qed
  then obtain ts rs due j where r: "rt_read snap p s = s\<lparr>tPos := (tPos s)(p := Suc (tPos s p)), tSrv := (tSrv s)(p := rs),
        tTest := ts, tDue := (tDue s)(p := due)\<rparr>" "test_ok ?n a ts" "\<forall>q. q \<noteq> p \<longrightarrow> tsSrvs ts ! q = tsSrvs (tTest s) ! q"
      "delivered ?b (take (Suc (tPos s p)) ?ch) = Some j" "0 \<le> j" "rsLogs (tsSrvs ts ! p) j \<noteq> None" "due \<longrightarrow> snap"
      "snap \<longrightarrow> rfLastApplied rs = j \<and> log_right ?n a (rfLog rs) \<and> (\<forall>i. 1 \<le> i \<and> i \<le> j \<longrightarrow> rfLog rs i \<noteq> None)"
    by blast
  let ?s = "s\<lparr>tPos := (tPos s)(p := Suc (tPos s p)), tSrv := (tSrv s)(p := rs), tTest := ts, tDue := (tDue s)(p := due)\<rparr>"
  have "rt_inv snap ?s a"
  proof (rule rt_invI)
    show "srv_ok snap a ?s q" if q: "q < csize (tCluster ?s)" for q
    proof (cases "q = p")
      case True
      then show ?thesis using r(4-8) more(1) by (simp add: srv_ok_def)
    next
      case False
      then show ?thesis using q r(3) by (intro srv_ok_mono [OF S(7) extends_refl, where ms = "[]"]) simp_all
    qed
  qed (use S(1-5) r(2) in simp_all)
  then show ?thesis unfolding r(1) .
qed

text \<open>The server hands its snapshot to Raft.\<close>

lemma snapshot_right:
  assumes "rfLastApplied rs = k" "0 \<le> k" "log_right n a (rfLog rs)" "\<forall>j. 1 \<le> j \<and> j \<le> k \<longrightarrow> rfLog rs j \<noteq> None"
  shows "snap_right n a k (rf_snapshot rs)"
proof -
  have "fixed_at n a j (map (\<lambda>j. case rfLog rs (int j) of Some c \<Rightarrow> c | None \<Rightarrow> None) [0..<nat (k + 1)] ! nat j)"
    if j: "1 \<le> j" "j \<le> k" for j
  proof -
    obtain c where "rfLog rs j = Some c" "fixed_at n a j c" using assms(3,4) j by (auto simp: log_right_def)
    then show ?thesis using j by (simp del: upt_Suc)
  qed
  then show ?thesis using assms(1,2) by (simp add: snap_right_def rf_snapshot_def del: upt_Suc)
qed

lemma rt_snap_inv:
  assumes inv: "rt_inv snap s a" and p: "p < csize (tCluster s)"
  shows "\<exists>s' a'. rt_snap p s = Some s' \<and> rt_inv snap s' a' \<and> extends a a'"
proof (cases "tDue s p")
  case False
  then show ?thesis using inv extends_refl by (auto simp: rt_snap_def)
next
  case True
  note S = rt_invD [OF inv]
  let ?i = "rfLastApplied (tSrv s p)" and ?d = "rf_snapshot (tSrv s p)"
  have snap using S(7) [OF p] True by (simp add: srv_ok_def)
  then have right: "snap_right (csize (tCluster s)) a ?i ?d"
    using S(7) [OF p] by (auto simp: srv_ok_def intro!: snapshot_right)
  obtain c a' where c: "compact_at (tCluster s) p ?i ?d = Some c" "coupled c a'" "extends a a'"
    using compact_coupled [OF S(1), of p ?i ?d] by (auto simp: evolves_def)
  obtain rf where "c = (update (tCluster s) p rf [])\<lparr>taken := (?i, ?d) # taken (tCluster s)\<rparr>"
    using c(1) p by (auto simp: compact_at_def split: Option.bind_splits)
  then have fields: "csize c = csize (tCluster s)" "applyBase c = applyBase (tCluster s)" "applyCh c = applyCh (tCluster s)"
    "history c = history (tCluster s)" "taken c = (?i, ?d) # taken (tCluster s)"
    by (simp_all add: update_def)
  let ?s = "s\<lparr>tCluster := c, tDue := (tDue s)(p := False)\<rparr>"
  have "rt_inv snap ?s a'"
  proof (rule rt_invI, simp_all)
    show "coupled c a'" "served c" "sent_ok c"
      using c(2) compact_served [OF S(2) c(1)] S(3) fields(3,4) by (simp_all add: sent_ok_def)
    show "snap_right (csize c) a' i d" if "(i, d) \<in> set (taken c)" for i d
      using that fields right S(4) [of i d] snap_right_mono [OF _ c(3), of "csize (tCluster s)" i d] by auto
    show "\<not> snap \<Longrightarrow> taken c = []" using \<open>snap\<close> by simp
    show "test_ok (csize c) a' (tTest s)" using test_ok_mono [OF S(6) c(3)] fields(1) by simp
    show "srv_ok snap a' ?s q" if "q < csize c" for q
      using fields that by (intro srv_ok_mono [OF S(7) c(3), where ms = "[]"]) auto
  qed
  then show ?thesis using True c(1,3) by (auto simp: rt_snap_def)
qed

text \<open>A server starts again from what its persister holds.\<close>

lemma rt_restart_inv:
  assumes inv: "rt_inv snap s a" and p: "p < csize (tCluster s)"
  shows "\<exists>s' a'. rt_restart snap p now rnd s = Some s' \<and> rt_inv snap s' a' \<and> extends a a'"
proof -
  note S = rt_invD [OF inv]
  let ?n = "csize (tCluster s)" and ?node = "node (tCluster s) p"
  let ?rf = "MakeRaft ?n p now rnd (persister ?node)" and ?k = "lastIncludeIndex ?node"
  note N = node_relD(1) [OF coupledD(2) [OF S(1) p]]
  note R = restart_ok [OF N, of now rnd]
  obtain c a' where c: "crash_at (tCluster s) p now rnd = Some c" "coupled c a'" "extends a a'"
    using crash_coupled [OF S(1), of p now rnd] by (auto simp: evolves_def)
  have "c = (update (tCluster s) p ?rf [])\<lparr>applyCh := (applyCh (tCluster s))(p := []),
     applyBase := (applyBase (tCluster s))(p := lastIncludeIndex ?rf)\<rparr>"
    using c(1) p by (simp add: crash_at_def Let_def)
  then have fields: "csize c = ?n" "history c = history (tCluster s)" "taken c = taken (tCluster s)"
    "applyCh c = (applyCh (tCluster s))(p := [])" "applyBase c = (applyBase (tCluster s))(p := ?k)"
    using R by (simp_all add: update_def)
  have Z: "snapshots_ok (taken (tCluster s)) ?node" by (rule servedD(2) [OF S(2) p])
  have disk: "ReadSnapshot (persister ?node) = rsnapshot ?node" using node_okD(6) [OF N] by (simp add: durable_def)
  have k: "0 \<le> ?k" using Z by (simp add: snapshots_ok_def)
  have "\<exists>rs ts. newRfsrv snap p (ReadSnapshot (persister ?node)) (tTest s) = Some (rs, ts) \<and> test_ok ?n a ts \<and>
      (\<forall>q. q \<noteq> p \<longrightarrow> tsSrvs ts ! q = tsSrvs (tTest s) ! q) \<and> (0 < ?k \<longrightarrow> rsLogs (tsSrvs ts ! p) ?k \<noteq> None) \<and>
      (snap \<longrightarrow> rfLastApplied rs = ?k \<and> log_right ?n a (rfLog rs) \<and> (\<forall>j. 1 \<le> j \<and> j \<le> ?k \<longrightarrow> rfLog rs j \<noteq> None))"
  proof (cases "?k = 0")
    case True
    then have "rsnapshot ?node = None" using Z by (simp add: snapshots_ok_def)
    then show ?thesis using True disk S(6) by (simp add: newRfsrv_def log_right_def)
  next
    case False
    then obtain d where d: "rsnapshot ?node = Some d" "(?k, d) \<in> set (taken (tCluster s))"
      using Z by (auto simp: snapshots_ok_def)
    then have snap using S(5) by (cases snap) auto
    let ?s0 = "\<lparr>rfLastApplied = 0, rfLog = (\<lambda>_. None)\<rparr> :: 'a rfsrv"
    obtain rs where g: "ingestSnap (Some d) (-1) ?s0 = (rs, None)" "rfLastApplied rs = ?k" "log_right ?n a (rfLog rs)"
        "\<forall>j. 1 \<le> j \<and> j \<le> ?k \<longrightarrow> rfLog rs j \<noteq> None"
      using ingest_right [OF S(4) [OF d(2)] _ k, of "-1" ?s0] by blast
    note T = IngestLog_right [OF S(6) g(3) p]
    have "newRfsrv snap p (ReadSnapshot (persister ?node)) (tTest s) = Some (rs, IngestLog p (rfLog rs) (tTest s))"
      using \<open>snap\<close> disk d(1) g(1) by (simp add: newRfsrv_def)
    moreover have "rsLogs (tsSrvs (IngestLog p (rfLog rs) (tTest s)) ! p) ?k \<noteq> None" using T(2) g(4) False k by simp
    ultimately show ?thesis using T(1,3) g(2-4) by blast
  qed
  then obtain rs ts where r: "newRfsrv snap p (ReadSnapshot (persister ?node)) (tTest s) = Some (rs, ts)" "test_ok ?n a ts"
      "\<forall>q. q \<noteq> p \<longrightarrow> tsSrvs ts ! q = tsSrvs (tTest s) ! q" "0 < ?k \<longrightarrow> rsLogs (tsSrvs ts ! p) ?k \<noteq> None"
      "snap \<longrightarrow> rfLastApplied rs = ?k \<and> log_right ?n a (rfLog rs) \<and> (\<forall>j. 1 \<le> j \<and> j \<le> ?k \<longrightarrow> rfLog rs j \<noteq> None)"
    by blast
  let ?s = "s\<lparr>tCluster := c, tSrv := (tSrv s)(p := rs), tPos := (tPos s)(p := 0), tDue := (tDue s)(p := False), tTest := ts\<rparr>"
  have "rt_inv snap ?s a'"
  proof (rule rt_invI, simp_all)
    show "coupled c a'" "served c" "sent_ok c"
      using c(2) crash_served [OF S(2,1) c(1)] S(3) fields(2,4) by (simp_all add: sent_ok_def)
    show "snap_right (csize c) a' i d" if "(i, d) \<in> set (taken c)" for i d
      using that fields S(4) [of i d] snap_right_mono [OF _ c(3), of ?n i d] by auto
    show "\<not> snap \<Longrightarrow> taken c = []" using S(5) fields(3) by simp
    show "test_ok (csize c) a' ts" using test_ok_mono [OF r(2) c(3)] fields(1) by simp
    show "srv_ok snap a' ?s q" if q: "q < csize c" for q
    proof (cases "q = p")
      case True
      then show ?thesis using r(4,5) fields k log_right_mono [OF _ c(3)] by (auto simp: srv_ok_def)
    next
      case False
      then show ?thesis using q fields r(3) by (intro srv_ok_mono [OF S(7) c(3), where ms = "[]"]) auto
    qed
  qed
  then show ?thesis using r(1) c(1,3) by (auto simp: rt_restart_def)
qed

lemma rt_step_inv:
  assumes "rt_inv snap s a"
  shows "\<exists>s' a'. rt_step snap e s = Some s' \<and> rt_inv snap s' a' \<and> extends a a'"
proof (cases e)
  case (TNet ev)
  then show ?thesis using rt_net_inv [OF assms, of ev] assms extends_refl by fastforce
next
  case (TStart p cmd)
  then show ?thesis using rt_start_inv [OF assms, of p cmd] by auto
next
  case (TRead p)
  then show ?thesis using rt_read_inv [OF assms, of p] assms extends_refl by auto
next
  case (TSnap p)
  then show ?thesis using rt_snap_inv [OF assms, of p] assms extends_refl by auto
next
  case (TRestart p now rnd)
  then show ?thesis using rt_restart_inv [OF assms, of p now rnd] assms extends_refl by auto
qed

lemma rt_run_inv:
  "rt_inv snap s a \<Longrightarrow> \<exists>s' a'. rt_run snap es s = Some s' \<and> rt_inv snap s' a' \<and> extends a a'"
proof (induction es arbitrary: s a)
  case Nil
  then show ?case using extends_refl by auto
next
  case (Cons e es)
  obtain s1 a1 where 1: "rt_step snap e s = Some s1" "rt_inv snap s1 a1" "extends a a1"
    using rt_step_inv [OF Cons.prems] by blast
  then show ?case using Cons.IH [OF 1(2)] extends_trans [OF 1(3)] by fastforce
qed

lemma rt_init_inv: "rt_inv snap (rt_init n now rnd) proto_init"
proof (rule rt_invI)
  show "coupled (tCluster (rt_init n now rnd)) proto_init" "served (tCluster (rt_init n now rnd))"
    by (simp_all add: rt_init_def init_coupled init_served)
qed (auto simp: rt_init_def cluster_init_def sent_ok_def test_ok_def newRaftServer_def log_right_def srv_ok_def)

lemma rt_csize: "rt_step snap e s = Some s' \<Longrightarrow> csize (tCluster s') = csize (tCluster s)"
  by (cases e) (auto simp: rt_read_def rt_snap_def rt_restart_def Let_def propose_at_def compact_at_def crash_at_def
      update_def split: if_splits Option.bind_splits prod.splits dest!: exec_csize)

section \<open>The tester has nothing to complain about\<close>

lemma rt_run_append: "rt_run snap (es @ fs) s = do { s' \<leftarrow> rt_run snap es s; rt_run snap fs s' }"
  by (induction es arbitrary: s) (auto split: Option.bind_split)

lemma rt_run_csize: "rt_run snap es s = Some s' \<Longrightarrow> csize (tCluster s') = csize (tCluster s)"
  by (induction es arbitrary: s) (auto split: bind_splits dest: rt_csize)

lemma rt_reached:
  obtains s a where "rt_run snap es (rt_init n now rnd) = Some s" "rt_inv snap s a" "csize (tCluster s) = n"
proof -
  obtain s a where s: "rt_run snap es (rt_init n now rnd) = Some s" "rt_inv snap s a"
    using rt_run_inv [OF rt_init_inv, of snap es n now rnd] by blast
  then show thesis using that rt_run_csize [OF s(1)] by (simp add: rt_init_def cluster_init_def)
qed

lemma same_leader:
  assumes "rt_run snap es (rt_init n now rnd) = Some s" "rt_run snap fs s = Some s'" "p < n" "q < n"
    "GetState (node (tCluster s) p) = (t, True)" "GetState (node (tCluster s') q) = (t, True)"
  shows "p = q"
proof -
  obtain a where a: "rt_inv snap s a" "csize (tCluster s) = n"
    using rt_reached [of snap es n now rnd] assms(1) by (metis option.inject)
  obtain a' where a': "rt_inv snap s' a'" "extends a a'" using rt_run_inv [OF a(1), of fs] assms(2) by auto
  have n: "csize (tCluster s') = n" using rt_run_csize [OF assms(2)] a(2) by simp
  have "leads n p (node (tCluster s) p) a" "leads n q (node (tCluster s') q) a'"
    using coupledD(2) [OF rt_invD(1) [OF a(1)]] coupledD(2) [OF rt_invD(1) [OF a'(1)]] a(2) n assms(3,4) node_relD(4) by metis+
  then have "pleader a t = Some p" "pleader a' t = Some q" using assms(5,6) by (auto simp: leads_def GetState_def)
  then show ?thesis using extends_leader [OF a'(2)] by fastforce
qed

lemma leader_round_fine:
  assumes "distinct (map fst seen)" "\<And>i j t. (i, t, True) \<in> set seen \<Longrightarrow> (j, t, True) \<in> set seen \<Longrightarrow> i = j"
  shows "leader_round seen \<noteq> None"
proof -
  have "length (leaders_of t seen) \<le> 1" for t
  proof -
    have sub: "set (leaders_of t seen) \<subseteq> {i. (i, t, True) \<in> set seen}" by (auto simp: leaders_of_def)
    have "i = j" if "i \<in> set (leaders_of t seen)" "j \<in> set (leaders_of t seen)" for i j
      using assms(2) [of i t j] that sub by auto
    moreover have "distinct (leaders_of t seen)" unfolding leaders_of_def using assms(1) by (induction seen) auto
    ultimately have "card (set (leaders_of t seen)) \<le> 1" by (metis List.finite_set card_le_Suc0_iff_eq One_nat_def)
    then show ?thesis using \<open>distinct (leaders_of t seen)\<close> by (simp add: distinct_card)
  qed
  then have "\<not> (\<exists>t \<in> T. 1 < length (leaders_of t seen))" for T by (meson not_le)
  then show ?thesis by (simp add: leader_round_def Let_def)
qed

lemma count_right:
  assumes "\<forall>rs \<in> set rss. rsApplyErr rs = None" "\<forall>rs \<in> set rss. \<forall>c. rsLogs rs index = Some c \<longrightarrow> c = v" "0 < k \<longrightarrow> cmd = v"
  shows "\<exists>cmd'. count_committed index rss (k, cmd) = Some (k + length (filter (\<lambda>rs. rsLogs rs index \<noteq> None) rss), cmd') \<and>
    (0 < k + length (filter (\<lambda>rs. rsLogs rs index \<noteq> None) rss) \<longrightarrow> cmd' = v)"
  using assms
proof (induction rss arbitrary: k cmd)
  case (Cons rs rss)
  then show ?case using Cons.IH [of k cmd] Cons.IH [of "Suc k" v] by (cases "rsLogs rs index") auto
qed simp

text \<open>
  C8. The Raft tests' checks never fail. In every run of the servers of the Raft tests under any loss,
  delay, repetition, reordering and restarts, with or without snapshots, no server dies and none
  reports an apply error: nobody is handed a command out of order, and no two servers report
  different commands at an index. nCommitted gives the number of servers that hold the entry and the
  one command they hold; a round of the leader check, whenever each server is asked during the run,
  never sees two leaders of a term.
\<close>

theorem tester_finds_nothing:
  assumes "distinct (map fst seen)"
    "\<And>i t l. (i, t, l) \<in> set seen \<Longrightarrow> i < n \<and> (\<exists>es1 es2 s1. es = es1 @ es2 \<and> rt_run snap es1 (rt_init n now rnd) = Some s1 \<and>
       GetState (node (tCluster s1) i) = (t, l))"
    "1 \<le> index"
  shows "\<exists>s c. rt_run snap es (rt_init n now rnd) = Some s \<and> (\<forall>rs \<in> set (tsSrvs (tTest s)). rsApplyErr rs = None) \<and>
    nCommitted index (tTest s) = Some (length (filter (\<lambda>rs. rsLogs rs index \<noteq> None) (tsSrvs (tTest s))), c) \<and>
    (\<forall>rs \<in> set (tsSrvs (tTest s)). rsLogs rs index \<in> {None, Some c}) \<and>
    leader_round seen \<noteq> None"
proof -
  obtain s a where s: "rt_run snap es (rt_init n now rnd) = Some s" "rt_inv snap s a" "csize (tCluster s) = n"
    by (rule rt_reached)
  have T: "test_ok n a (tTest s)" using rt_invD(6) [OF s(2)] s(3) by simp
  have P: "proto_inv (electQuorum n) a" using coupledD(1) [OF rt_invD(1) [OF s(2)]] s(3) by simp
  have agree: "c = c'" if "rs \<in> set (tsSrvs (tTest s))" "rs' \<in> set (tsSrvs (tTest s))" "rsLogs rs index = Some c" "rsLogs rs' index = Some c'"
    for rs rs' c c'
    using that T assms(3) by (intro fixed_unique [OF P, of index]) (auto simp: test_ok_def log_right_def)
  obtain v where v: "\<forall>rs \<in> set (tsSrvs (tTest s)). \<forall>c. rsLogs rs index = Some c \<longrightarrow> c = v" using agree by metis
  then obtain c where "nCommitted index (tTest s) = Some (length (filter (\<lambda>rs. rsLogs rs index \<noteq> None) (tsSrvs (tTest s))), c)"
      "0 < length (filter (\<lambda>rs. rsLogs rs index \<noteq> None) (tsSrvs (tTest s))) \<longrightarrow> c = v"
    using count_right [of "tsSrvs (tTest s)" index v 0 None] T by (auto simp: nCommitted_def test_ok_def)
  moreover have "rsLogs rs index \<in> {None, Some c}" if "rs \<in> set (tsSrvs (tTest s))" for rs
  proof (cases "rsLogs rs index")
    case (Some c')
    then have "rs \<in> set (filter (\<lambda>rs. rsLogs rs index \<noteq> None) (tsSrvs (tTest s)))" using that by simp
    then have "0 < length (filter (\<lambda>rs. rsLogs rs index \<noteq> None) (tsSrvs (tTest s)))" by (rule length_pos_if_in_set)
    then show ?thesis using v that Some calculation(2) by auto
  qed simp
  moreover have "i = j" if x: "(i, t, True) \<in> set seen" "(j, t, True) \<in> set seen" for i j t
  proof -
    obtain es1 es2 s1 where 1: "i < n" "es = es1 @ es2" "rt_run snap es1 (rt_init n now rnd) = Some s1"
      "GetState (node (tCluster s1) i) = (t, True)" using assms(2) [OF x(1)] by blast
    obtain fs1 fs2 s2 where 2: "j < n" "es = fs1 @ fs2" "rt_run snap fs1 (rt_init n now rnd) = Some s2"
      "GetState (node (tCluster s2) j) = (t, True)" using assms(2) [OF x(2)] by blast
    consider us where "fs1 = es1 @ us" | us where "es1 = fs1 @ us" using 1(2) 2(2) by (metis append_eq_append_conv2)
    then show ?thesis
    proof cases
      case (1 us)
      then show ?thesis using \<open>rt_run snap es1 _ = _\<close> \<open>i < n\<close> \<open>GetState (node (tCluster s1) i) = _\<close> 2
        by (intro same_leader [of snap es1 n now rnd s1 us s2 i j t]) (simp_all add: rt_run_append)
    next
      case (2 us)
      then show ?thesis using 1 \<open>rt_run snap fs1 _ = _\<close> \<open>j < n\<close> \<open>GetState (node (tCluster s2) j) = _\<close>
        by (intro same_leader [of snap fs1 n now rnd s2 us s1 j i t, symmetric]) (simp_all add: rt_run_append)
    qed
  qed
  then have "leader_round seen \<noteq> None" by (rule leader_round_fine [OF assms(1)])
  ultimately show ?thesis using s(1) T by (auto simp: test_ok_def)
qed

text \<open>An election, two commands, and three servers of which two have reported.\<close>

definition test_run :: "nat rtevent list" where
  "test_run =
     [TNet (Elect 0 10000 5), TNet (DeliverVote 0 10 5), TNet (ReturnVote 2), TStart 0 7, TStart 0 8, TNet (Replicate 0 1),
      TNet (DeliverAppend 3 20), TNet (ReturnAppend 4), TNet (Replicate 0 1), TNet (DeliverAppend 5 30), TNet (Apply 0),
      TNet (Apply 1), TRead 0, TRead 0, TRead 1, TRead 1]"

lemma tester_finds_nothing_witness:
  "\<exists>s. rt_run True test_run (rt_init 3 0 (\<lambda>_. 0)) = Some s \<and> nCommitted 2 (tTest s) = Some (2, Some 8) \<and>
     (\<forall>rs \<in> set (tsSrvs (tTest s)). rsApplyErr rs = None) \<and> leader_round [(0, 1, True), (1, 1, False)] \<noteq> None"
proof -
  have r: "case rt_run True test_run (rt_init 3 0 (\<lambda>_. 0)) of None \<Rightarrow> False | Some s \<Rightarrow>
      GetState (node (tCluster s) 0) = (1, True) \<and> GetState (node (tCluster s) 1) = (1, False) \<and>
      nCommitted 2 (tTest s) = Some (2, Some 8)"
    by code_simp
  then obtain s where s: "rt_run True test_run (rt_init 3 0 (\<lambda>_. 0)) = Some s" "GetState (node (tCluster s) 0) = (1, True)"
    "GetState (node (tCluster s) 1) = (1, False)" "nCommitted 2 (tTest s) = Some (2, Some 8)" by (auto split: option.splits)
  have seen: "i < 3 \<and> (\<exists>es1 es2 s1. test_run = es1 @ es2 \<and> rt_run True es1 (rt_init 3 0 (\<lambda>_. 0)) = Some s1 \<and>
      GetState (node (tCluster s1) i) = (t, l))" if "(i, t, l) \<in> set [(0, 1, True), (1, 1, False)]" for i t l
  proof -
    have "GetState (node (tCluster s) i) = (t, l) \<and> i < 3" using that s(2,3) by auto
    then show ?thesis using s(1) by (intro conjI exI [of _ test_run] exI [of _ "[]"] exI [of _ s]) simp_all
  qed
  have d: "distinct (map fst [(0 :: nat, 1 :: int, True), (1, 1, False)])" by simp
  from tester_finds_nothing [OF d seen, of 2] s show ?thesis by auto
qed

end
