(* ===== verification/Labgob.thy ===== *)
theory Labgob
  imports Prelude
begin

text \<open>
  The wrapper of the encoder every message and every persisted state goes through
  (src/src/labgob/labgob.go): it looks at types for fields that gob would leave out silently and at
  values for what gob would not overwrite. A type is a number, the types of the program a table;
  the encoding itself is the standard library's.
\<close>

section \<open>Types\<close>

type_synonym gotype = nat

text \<open>\<open>ElemOf\<close> is a slice, an array or a pointer; a type that is not in the table is a basic one.\<close>

datatype gokind =
    Struct "(string \<times> gotype) list"
  | ElemOf gotype
  | MapOf gotype gotype
  | Basic

record typeInfo =
  tyName :: string
  tyKind :: gokind

definition kind_of :: "typeInfo list \<Rightarrow> gotype \<Rightarrow> gokind" where
  "kind_of T t = (if t < length T then tyKind (T ! t) else Basic)"

text \<open>The package variables, and what was printed: fields with the type they are in, and warnings.\<close>

record labgob =
  errorCount :: nat
  checked :: "gotype list"
  printed :: "(string \<times> string) list"
  warned :: "string list"

definition complain :: "(string \<times> string) \<Rightarrow> labgob \<Rightarrow> labgob" where
  "complain x g = g\<lparr>errorCount := errorCount g + 1, printed := printed g @ [x]\<rparr>"

text \<open>
  What a type is checked through: its fields (with their name and the type's), its element, its key.
  \<open>upper\<close> is unicode.IsUpper of the first rune of a name.
\<close>

definition parts :: "typeInfo list \<Rightarrow> gotype \<Rightarrow> ((string \<times> string) option \<times> gotype) list" where
  "parts T t = (case kind_of T t of
       Struct fs \<Rightarrow> map (\<lambda>(f, u). (Some (f, tyName (T ! t)), u)) fs
     | ElemOf u \<Rightarrow> [(None, u)]
     | MapOf u k \<Rightarrow> [(None, u), (None, k)]
     | Basic \<Rightarrow> [])"

definition see_field :: "(string \<Rightarrow> bool) \<Rightarrow> (string \<times> string) option \<Rightarrow> labgob \<Rightarrow> labgob" where
  "see_field upper f g = (case f of None \<Rightarrow> g | Some x \<Rightarrow> if upper (fst x) then g else complain x g)"

lemma see_field_checked [simp]: "checked (see_field upper f g) = checked g"
  by (auto simp: see_field_def complain_def split: option.splits)

text \<open>checkType for the parts of a type, one after another.\<close>

function check_parts ::
  "(string \<Rightarrow> bool) \<Rightarrow> typeInfo list \<Rightarrow> ((string \<times> string) option \<times> gotype) list \<Rightarrow> labgob \<Rightarrow> labgob" where
  "check_parts upper T [] g = g"
| "check_parts upper T ((f, t) # ps) g =
     (let g1 = see_field upper f g in
      if t \<in> set (checked g1) then check_parts upper T ps g1
      else check_parts upper T ps (check_parts upper T (parts T t) (g1\<lparr>checked := t # checked g1\<rparr>)))"
  by pat_completeness auto

lemma check_parts_grows:
  "check_parts_dom (upper, T, ps, g) \<Longrightarrow> set (checked g) \<subseteq> set (checked (check_parts upper T ps g))"
  by (induction upper T ps g rule: check_parts.pinduct) (auto simp: check_parts.psimps Let_def)

lemma parts_basic: "\<not> t < length T \<Longrightarrow> parts T t = []"
  by (simp add: parts_def kind_of_def)

termination check_parts
proof (relation "inv_image (finite_psubset <*lex*> less_than) (\<lambda>(upper, T, ps, g). ({..<length T} - set (checked g), length ps))")
  fix upper T f t ps g g1
  assume a: "g1 = see_field upper f g" "t \<notin> set (checked g1)"
  show "((upper, T, parts T t, g1\<lparr>checked := t # checked g1\<rparr>), upper, T, (f, t) # ps, g)
      \<in> inv_image (finite_psubset <*lex*> less_than) (\<lambda>(upper, T, ps, g). ({..<length T} - set (checked g), length ps))"
    using a by (cases "t < length T") (auto simp: finite_psubset_def parts_basic)
  assume "check_parts_dom (upper, T, parts T t, g1\<lparr>checked := t # checked g1\<rparr>)"
  note check_parts_grows [OF this]
  then show "((upper, T, ps, check_parts upper T (parts T t) (g1\<lparr>checked := t # checked g1\<rparr>)), upper, T, (f, t) # ps, g)
      \<in> inv_image (finite_psubset <*lex*> less_than) (\<lambda>(upper, T, ps, g). ({..<length T} - set (checked g), length ps))"
    using a by (cases "t < length T") (auto simp: finite_psubset_def)
qed (auto simp: finite_psubset_def intro!: wf_inv_image wf_lex_prod wf_finite_psubset [unfolded finite_psubset_def])

definition checkType :: "(string \<Rightarrow> bool) \<Rightarrow> typeInfo list \<Rightarrow> gotype \<Rightarrow> labgob \<Rightarrow> labgob" where
  "checkType upper T t g = check_parts upper T [(None, t)] g"

section \<open>Values\<close>

text \<open>
  A value as reflection shows it; a scalar comes with the name of its type and whether it is its
  type's zero. Slices, maps and the like are not looked into.
\<close>

datatype goval =
    VStruct "(string \<times> goval) list"
  | VPtr "goval option"
  | VScalar string bool
  | VOther

text \<open>
  checkDefault1: the first warning is printed, all are counted. \<open>hidden\<close> is whether reflection came
  through a field that is not exported: asking such a value for its content panics.
\<close>

fun checkDefault1 :: "(string \<Rightarrow> bool) \<Rightarrow> goval \<Rightarrow> bool \<Rightarrow> nat \<Rightarrow> string \<Rightarrow> labgob \<Rightarrow> labgob option" where
  "checkDefault1 upper (VStruct fs) hidden depth name g =
     (if depth > 3 then Some g
      else fold (\<lambda>(f, v) r. do {
               g \<leftarrow> r;
               checkDefault1 upper v (hidden \<or> \<not> upper f) (depth + 1) (if name \<noteq> [] then name @ ''.'' @ f else f) g
             }) fs (Some g))"
| "checkDefault1 upper (VPtr None) hidden depth name g = Some g"
| "checkDefault1 upper (VPtr (Some v)) hidden depth name g =
     (if depth > 3 then Some g else checkDefault1 upper v hidden (depth + 1) name g)"
| "checkDefault1 upper (VScalar tn zero) hidden depth name g =
     (if depth > 3 then Some g
      else if hidden then None
      else if zero then Some g
      else Some (g\<lparr>warned := (if errorCount g < 1 then warned g @ [if name = [] then tn else name] else warned g),
                   errorCount := errorCount g + 1\<rparr>))"
| "checkDefault1 upper VOther hidden depth name g = Some g"

text \<open>
  Encode and Decode up to the standard library: the type of a nil value is nil, and asking for its
  kind panics.
\<close>

definition checkValue :: "(string \<Rightarrow> bool) \<Rightarrow> typeInfo list \<Rightarrow> gotype option \<Rightarrow> labgob \<Rightarrow> labgob option" where
  "checkValue upper T t g = map_option (\<lambda>t. checkType upper T t g) t"

definition checkDefault :: "(string \<Rightarrow> bool) \<Rightarrow> goval option \<Rightarrow> labgob \<Rightarrow> labgob option" where
  "checkDefault upper v g = (case v of None \<Rightarrow> Some g | Some v \<Rightarrow> checkDefault1 upper v False 1 [] g)"

definition gob_Encode :: "(string \<Rightarrow> bool) \<Rightarrow> typeInfo list \<Rightarrow> (gotype \<times> goval) option \<Rightarrow> labgob \<Rightarrow> labgob option" where
  "gob_Encode upper T e g = checkValue upper T (map_option fst e) g"

definition gob_Decode :: "(string \<Rightarrow> bool) \<Rightarrow> typeInfo list \<Rightarrow> (gotype \<times> goval) option \<Rightarrow> labgob \<Rightarrow> labgob option" where
  "gob_Decode upper T e g =
     do { g1 \<leftarrow> checkValue upper T (map_option fst e) g; checkDefault upper (map_option snd e) g1 }"

section \<open>What the checks find\<close>

definition mentions :: "typeInfo list \<Rightarrow> (gotype \<times> gotype) set" where
  "mentions T = {(t, u). u \<in> snd ` set (parts T t)}"

definition bad_fields :: "(string \<Rightarrow> bool) \<Rightarrow> ((string \<times> string) option \<times> gotype) list \<Rightarrow> (string \<times> string) list" where
  "bad_fields upper ps = filter (\<lambda>x. \<not> upper (fst x)) (List.map_filter fst ps)"

lemma bad_fields_Cons:
  "bad_fields upper ((f, t) # ps) = (case f of None \<Rightarrow> [] | Some x \<Rightarrow> if upper (fst x) then [] else [x]) @ bad_fields upper ps"
  by (auto simp: bad_fields_def List.map_filter_def split: option.splits)

text \<open>
  A check of some parts adds exactly the types behind them, looks through each new type, and
  complains about each bad field of the parts and of the new types once.
\<close>

lemma checked_grows: "set (checked g) \<subseteq> set (checked (check_parts upper T ps g))"
  by (induction upper T ps g rule: check_parts.induct) (auto simp: Let_def)

lemma checked_distinct: "distinct (checked g) \<Longrightarrow> distinct (checked (check_parts upper T ps g))"
  by (induction upper T ps g rule: check_parts.induct) (auto simp: Let_def)

lemma checked_parts: "snd ` set ps \<subseteq> set (checked (check_parts upper T ps g))"
proof (induction upper T ps g rule: check_parts.induct)
  case (2 upper T f t ps g)
  show ?case
  proof (cases "t \<in> set (checked g)")
    case True
    then have "t \<in> set (checked (check_parts upper T ps (see_field upper f g)))" using checked_grows [of "see_field upper f g"] by auto
    then show ?thesis using 2(1) [OF refl] True by (simp add: Let_def)
  next
    case False
    let ?g3 = "check_parts upper T (parts T t) ((see_field upper f g)\<lparr>checked := t # checked (see_field upper f g)\<rparr>)"
    have "t \<in> set (checked ?g3)" using checked_grows [of "(see_field upper f g)\<lparr>checked := t # checked (see_field upper f g)\<rparr>"] by auto
    then have "t \<in> set (checked (check_parts upper T ps ?g3))" using checked_grows [of ?g3] by auto
    then show ?thesis using 2(3) [OF refl] False by (simp add: Let_def)
  qed
qed simp

lemma mentions_parts: "mentions T `` {t} = snd ` set (parts T t)"
  by (auto simp: mentions_def)

lemma reach_chain: "A \<subseteq> B \<union> X \<Longrightarrow> B \<subseteq> insert t C \<union> Y \<Longrightarrow> Y \<subseteq> Z \<Longrightarrow> t \<in> Z \<Longrightarrow> A \<subseteq> C \<union> (Z \<union> X)"
  by blast

lemma checked_reachable: "set (checked (check_parts upper T ps g)) \<subseteq> set (checked g) \<union> (mentions T)\<^sup>* `` (snd ` set ps)"
proof (induction upper T ps g rule: check_parts.induct)
  case (2 upper T f t ps g)
  show ?case
  proof (cases "t \<in> set (checked g)")
    case True
    then show ?thesis using 2(1) [OF refl] by (auto simp: Let_def)
  next
    case False
    let ?g2 = "(see_field upper f g)\<lparr>checked := t # checked (see_field upper f g)\<rparr>"
    let ?g3 = "check_parts upper T (parts T t) ?g2"
    have sub: "(mentions T)\<^sup>* `` (snd ` set (parts T t)) \<subseteq> (mentions T)\<^sup>* `` {t}"
      unfolding mentions_parts [symmetric] by (auto intro: converse_rtrancl_into_rtrancl)
    have t: "t \<in> (mentions T)\<^sup>* `` {t}" by simp
    have g3: "set (checked ?g3) \<subseteq> insert t (set (checked g)) \<union> (mentions T)\<^sup>* `` (snd ` set (parts T t))"
      using 2(2) [OF refl] False by simp
    have g4: "set (checked (check_parts upper T ps ?g3)) \<subseteq> set (checked ?g3) \<union> (mentions T)\<^sup>* `` (snd ` set ps)"
      using 2(3) [OF refl] False by simp
    have "set (checked (check_parts upper T ps ?g3)) \<subseteq>
        set (checked g) \<union> ((mentions T)\<^sup>* `` {t} \<union> (mentions T)\<^sup>* `` (snd ` set ps))"
      by (rule reach_chain [OF g4 g3 sub t])
    also have "(mentions T)\<^sup>* `` {t} \<union> (mentions T)\<^sup>* `` (snd ` set ps) = (mentions T)\<^sup>* `` (snd ` set ((f, t) # ps))" by auto
    finally show ?thesis using False by (simp add: Let_def)
  qed
qed simp

lemma checked_closed:
  "mentions T `` (set (checked (check_parts upper T ps g)) - set (checked g)) \<subseteq> set (checked (check_parts upper T ps g))"
proof (induction upper T ps g rule: check_parts.induct)
  case (2 upper T f t ps g)
  show ?case
  proof (cases "t \<in> set (checked g)")
    case True
    then show ?thesis using 2(1) [OF refl] by (simp add: Let_def)
  next
    case False
    let ?g2 = "(see_field upper f g)\<lparr>checked := t # checked (see_field upper f g)\<rparr>"
    let ?g3 = "check_parts upper T (parts T t) ?g2"
    have "mentions T `` {t} \<subseteq> set (checked ?g3)" unfolding mentions_parts by (rule checked_parts)
    moreover note checked_grows [of ?g3 upper T ps]
    moreover have "mentions T `` (set (checked ?g3) - insert t (set (checked g))) \<subseteq> set (checked ?g3)"
      "mentions T `` (set (checked (check_parts upper T ps ?g3)) - set (checked ?g3)) \<subseteq> set (checked (check_parts upper T ps ?g3))"
      using 2(2,3) [OF refl] False by simp_all
    ultimately have "mentions T `` (set (checked (check_parts upper T ps ?g3)) - set (checked g)) \<subseteq> set (checked (check_parts upper T ps ?g3))"
      by blast
    then show ?thesis using False by (simp add: Let_def)
  qed
qed simp

lemma see_field_fields:
  "warned (see_field upper f g) = warned g"
  "errorCount (see_field upper f g) + length (printed g) = errorCount g + length (printed (see_field upper f g))"
  "printed (see_field upper f g) = printed g @ (case f of None \<Rightarrow> [] | Some x \<Rightarrow> if upper (fst x) then [] else [x])"
  by (auto simp: see_field_def complain_def split: option.splits)

lemma checked_counts:
  "warned (check_parts upper T ps g) = warned g \<and>
   errorCount (check_parts upper T ps g) + length (printed g) = errorCount g + length (printed (check_parts upper T ps g))"
proof (induction upper T ps g rule: check_parts.induct)
  case (2 upper T f t ps g)
  show ?case
  proof (cases "t \<in> set (checked g)")
    case True
    then show ?thesis using 2(1) [OF refl] see_field_fields(1,2) [of upper f g] by (simp add: Let_def)
  next
    case False
    then show ?thesis using 2(2,3) [OF refl] see_field_fields(1,2) [of upper f g] by (simp add: Let_def)
  qed
qed simp

lemma checked_prints:
  "mset (printed (check_parts upper T ps g)) = mset (printed g) + mset (bad_fields upper ps) +
     (\<Sum>t \<in> set (checked (check_parts upper T ps g)) - set (checked g). mset (bad_fields upper (parts T t)))"
proof (induction upper T ps g rule: check_parts.induct)
  case (1 upper T g)
  then show ?case by (simp add: bad_fields_def)
next
  case (2 upper T f t ps g)
  show ?case
  proof (cases "t \<in> set (checked g)")
    case True
    then show ?thesis using 2(1) [OF refl] by (simp add: Let_def bad_fields_Cons see_field_fields(3) add_ac)
  next
    case False
    let ?g2 = "(see_field upper f g)\<lparr>checked := t # checked (see_field upper f g)\<rparr>"
    let ?g3 = "check_parts upper T (parts T t) ?g2"
    let ?g4 = "check_parts upper T ps ?g3"
    let ?bad = "\<lambda>t. mset (bad_fields upper (parts T t))"
    have sub: "insert t (set (checked g)) \<subseteq> set (checked ?g3)" "set (checked ?g3) \<subseteq> set (checked ?g4)"
      using checked_grows [of ?g2 upper T "parts T t"] checked_grows [of ?g3 upper T ps] by simp_all
    have "set (checked ?g4) - set (checked g) =
        insert t ((set (checked ?g3) - insert t (set (checked g))) \<union> (set (checked ?g4) - set (checked ?g3)))"
      using sub False by blast
    moreover have "t \<notin> (set (checked ?g3) - insert t (set (checked g))) \<union> (set (checked ?g4) - set (checked ?g3))" using sub by blast
    moreover have "(set (checked ?g3) - insert t (set (checked g))) \<inter> (set (checked ?g4) - set (checked ?g3)) = {}" by blast
    ultimately have "(\<Sum>t \<in> set (checked ?g4) - set (checked g). ?bad t) =
        ?bad t + ((\<Sum>t \<in> set (checked ?g3) - insert t (set (checked g)). ?bad t) + (\<Sum>t \<in> set (checked ?g4) - set (checked ?g3). ?bad t))"
      by (simp add: sum.union_disjoint)
    moreover have "mset (printed ?g3) = mset (printed (see_field upper f g)) + ?bad t +
        (\<Sum>t \<in> set (checked ?g3) - insert t (set (checked g)). ?bad t)" using 2(2) [OF refl] False by simp
    moreover have "mset (printed ?g4) = mset (printed ?g3) + mset (bad_fields upper ps) +
        (\<Sum>t \<in> set (checked ?g4) - set (checked ?g3). ?bad t)" using 2(3) [OF refl] False by simp
    ultimately have "mset (printed ?g4) = mset (printed g) + mset (bad_fields upper ((f, t) # ps)) +
        (\<Sum>t \<in> set (checked ?g4) - set (checked g). ?bad t)"
      by (simp add: bad_fields_Cons see_field_fields(3) add_ac)
    then show ?thesis using False by (simp add: Let_def)
  qed
qed

text \<open>The names the warnings would carry, down to depth 3, and whether there is a scalar that cannot be read.\<close>

fun defaults_at :: "goval \<Rightarrow> nat \<Rightarrow> string \<Rightarrow> string list" where
  "defaults_at (VStruct fs) depth name =
     (if depth > 3 then []
      else concat (map (\<lambda>(f, v). defaults_at v (depth + 1) (if name \<noteq> [] then name @ ''.'' @ f else f)) fs))"
| "defaults_at (VPtr None) depth name = []"
| "defaults_at (VPtr (Some v)) depth name = (if depth > 3 then [] else defaults_at v (depth + 1) name)"
| "defaults_at (VScalar tn zero) depth name =
     (if depth > 3 \<or> zero then [] else [if name = [] then tn else name])"
| "defaults_at VOther depth name = []"

fun unreadable :: "(string \<Rightarrow> bool) \<Rightarrow> goval \<Rightarrow> bool \<Rightarrow> nat \<Rightarrow> bool" where
  "unreadable upper (VStruct fs) hidden depth =
     (depth \<le> 3 \<and> (\<exists>(f, v) \<in> set fs. unreadable upper v (hidden \<or> \<not> upper f) (depth + 1)))"
| "unreadable upper (VPtr None) hidden depth = False"
| "unreadable upper (VPtr (Some v)) hidden depth = (depth \<le> 3 \<and> unreadable upper v hidden (depth + 1))"
| "unreadable upper (VScalar tn zero) hidden depth = (depth \<le> 3 \<and> hidden)"
| "unreadable upper VOther hidden depth = False"

definition warn_all :: "string list \<Rightarrow> labgob \<Rightarrow> labgob" where
  "warn_all ns g = g\<lparr>warned := warned g @ (if errorCount g < 1 then take 1 ns else []), errorCount := errorCount g + length ns\<rparr>"

lemma warn_all_append: "warn_all (ns @ ms) g = warn_all ms (warn_all ns g)"
  by (cases ns) (simp_all add: warn_all_def)

lemma warn_all_nil [simp]: "warn_all [] g = g"
  by (simp add: warn_all_def)

text \<open>A fold of options that has failed stays failed.\<close>

lemma fold_failed: "fold (\<lambda>(f, v) r. do { g \<leftarrow> r; F f v g }) fs None = None"
  by (induction fs) auto

lemma checkDefault1_warns:
  "checkDefault1 upper v hidden depth name g =
     (if unreadable upper v hidden depth then None else Some (warn_all (defaults_at v depth name) g))"
proof (induction upper v hidden depth name g rule: checkDefault1.induct)
  case (1 upper fs hidden depth name g)
  show ?case
  proof (cases "depth > 3")
    case False
    let ?n = "\<lambda>f. if name \<noteq> [] then name @ ''.'' @ f else f" and ?h = "\<lambda>f. hidden \<or> \<not> upper f"
    let ?F = "\<lambda>(f, v) r. do { g \<leftarrow> r; checkDefault1 upper v (?h f) (depth + 1) (?n f) g }"
    have "fold ?F xs (Some g) =
        (if \<exists>(f, v) \<in> set xs. unreadable upper v (?h f) (depth + 1) then None
         else Some (warn_all (concat (map (\<lambda>(f, v). defaults_at v (depth + 1) (?n f)) xs)) g))"
      if "set xs \<subseteq> set fs" for xs
      using that
    proof (induction xs arbitrary: g)
      case (Cons x xs)
      obtain f v where x: "x = (f, v)" by fastforce
      have "checkDefault1 upper v (?h f) (depth + 1) (?n f) g' =
          (if unreadable upper v (?h f) (depth + 1) then None else Some (warn_all (defaults_at v (depth + 1) (?n f)) g'))" for g'
        using 1 False Cons.prems x by auto
      then show ?case using Cons x by (simp add: warn_all_append fold_failed)
    qed simp
    then show ?thesis using False by simp
  qed simp
qed (auto simp: warn_all_def)

section \<open>Any sequence of checks\<close>

definition fresh_gob :: labgob where
  "fresh_gob = \<lparr>errorCount = 0, checked = [], printed = [], warned = []\<rparr>"

lemma mentions_closed:
  assumes "mentions T `` X \<subseteq> X"
  shows "(mentions T)\<^sup>* `` X = X"
  by (rule Image_closed_trancl [OF assms])

lemma checkType_finds:
  assumes "set (checked g) = (mentions T)\<^sup>* `` X"
  shows "set (checked (checkType upper T t g)) = (mentions T)\<^sup>* `` (insert t X)"
proof -
  let ?g = "checkType upper T t g" and ?R = "mentions T"
  have up: "set (checked g) \<subseteq> set (checked ?g)" "t \<in> set (checked ?g)"
    "set (checked ?g) \<subseteq> set (checked g) \<union> ?R\<^sup>* `` {t}"
    using checked_grows [of g upper T "[(None, t)]"] checked_parts [of "[(None, t)]" upper T g]
      checked_reachable [of upper T "[(None, t)]" g] by (simp_all add: checkType_def del: check_parts.simps)
  have "?R `` (?R\<^sup>* `` X) \<subseteq> ?R\<^sup>* `` X" by (auto intro: rtrancl_into_rtrancl)
  then have old: "?R `` set (checked g) \<subseteq> set (checked ?g)" using assms up(1) by simp
  have new: "?R `` (set (checked ?g) - set (checked g)) \<subseteq> set (checked ?g)"
    unfolding checkType_def by (rule checked_closed)
  have "?R `` set (checked ?g) \<subseteq> set (checked ?g)" using old new by auto
  then have "?R\<^sup>* `` set (checked ?g) = set (checked ?g)" by (rule mentions_closed)
  then have "?R\<^sup>* `` {t} \<subseteq> set (checked ?g)" using up(2) by blast
  moreover have "?R\<^sup>* `` (insert t X) = ?R\<^sup>* `` {t} \<union> ?R\<^sup>* `` X" by auto
  ultimately show ?thesis using up(1,3) assms by auto
qed

lemma checkType_distinct: "distinct (checked g) \<Longrightarrow> distinct (checked (checkType upper T t g))"
  unfolding checkType_def by (rule checked_distinct)

lemma checkType_counts:
  "errorCount (checkType upper T t g) + length (printed g) = errorCount g + length (printed (checkType upper T t g))"
  unfolding checkType_def using checked_counts by blast

lemma checkType_again: "t \<in> set (checked g) \<Longrightarrow> checkType upper T t g = g"
  by (simp add: checkType_def see_field_def)

text \<open>
  C40. Each type is looked at once, and each bad field is reported once. After any sequence of checks,
  of recursive types too, the types that have been looked at are exactly those that the checked
  ones mention, directly or through fields, elements and keys; the complaints printed are, with
  their multiplicity, exactly the lower-case fields of these types; the count is their number; and
  checking any of these types again changes nothing.
\<close>

theorem gob_types_checked:
  shows "let g = fold (checkType upper T) ts fresh_gob; seen = (mentions T)\<^sup>* `` set ts in
    distinct (checked g) \<and> set (checked g) = seen \<and>
    mset (printed g) = (\<Sum>t \<in> seen. mset (bad_fields upper (parts T t))) \<and>
    errorCount g = length (printed g) \<and> (\<forall>t \<in> seen. checkType upper T t g = g)"
proof -
  let ?g = "\<lambda>ts. fold (checkType upper T) ts fresh_gob"
  have "distinct (checked (?g ts)) \<and> set (checked (?g ts)) = (mentions T)\<^sup>* `` set ts \<and>
    mset (printed (?g ts)) = (\<Sum>t \<in> (mentions T)\<^sup>* `` set ts. mset (bad_fields upper (parts T t))) \<and>
    errorCount (?g ts) = length (printed (?g ts))"
  proof (induction ts rule: rev_induct)
    case (snoc t ts)
    let ?g' = "checkType upper T t (?g ts)"
    have g': "?g (ts @ [t]) = ?g'" by simp
    have seen: "set (checked ?g') = (mentions T)\<^sup>* `` set (ts @ [t])" using checkType_finds [of "?g ts" T "set ts" upper t] snoc.IH by simp
    have sub: "set (checked (?g ts)) \<subseteq> set (checked ?g')" unfolding checkType_def by (rule checked_grows)
    have "mset (printed ?g') = mset (printed (?g ts)) + (\<Sum>t \<in> set (checked ?g') - set (checked (?g ts)). mset (bad_fields upper (parts T t)))"
      unfolding checkType_def checked_prints by (simp add: bad_fields_def List.map_filter_def)
    also have "mset (printed (?g ts)) = (\<Sum>t \<in> set (checked (?g ts)). mset (bad_fields upper (parts T t)))" using snoc.IH by simp
    also have "(\<Sum>t \<in> set (checked (?g ts)). mset (bad_fields upper (parts T t))) +
        (\<Sum>t \<in> set (checked ?g') - set (checked (?g ts)). mset (bad_fields upper (parts T t))) =
        (\<Sum>t \<in> set (checked ?g'). mset (bad_fields upper (parts T t)))"
      using sum.subset_diff [OF sub, of "\<lambda>t. mset (bad_fields upper (parts T t))"] by (simp add: add.commute)
    finally have "mset (printed ?g') = (\<Sum>t \<in> (mentions T)\<^sup>* `` set (ts @ [t]). mset (bad_fields upper (parts T t)))" using seen by simp
    moreover have "distinct (checked ?g')" using snoc.IH by (intro checkType_distinct) simp
    moreover have "errorCount ?g' = length (printed ?g')"
      using checkType_counts [of upper T t "?g ts"] snoc.IH by simp
    ultimately show ?case using seen unfolding g' by blast
  qed (simp add: fresh_gob_def)
  then show ?thesis by (simp add: Let_def checkType_again)
qed

text \<open>A list: a struct with a lower-case field and a pointer to itself.\<close>

definition list_types :: "typeInfo list" where
  "list_types = [\<lparr>tyName = ''List'', tyKind = Struct [(''val'', 2), (''Next'', 1)]\<rparr>, \<lparr>tyName = [], tyKind = ElemOf 0\<rparr>]"

lemma gob_types_checked_witness:
  "printed (fold (checkType (\<lambda>n. n = ''Next'') list_types) [1, 0] fresh_gob) = [(''val'', ''List'')] \<and>
   checkType (\<lambda>n. n = ''Next'') list_types 1 (fold (checkType (\<lambda>n. n = ''Next'') list_types) [1, 0] fresh_gob) =
     fold (checkType (\<lambda>n. n = ''Next'') list_types) [1, 0] fresh_gob"
proof -
  let ?upper = "\<lambda>n. n = ''Next''"
  have "(1 :: gotype) \<in> (mentions list_types)\<^sup>* `` set [1, 0]" by auto
  then have "checkType ?upper list_types 1 (fold (checkType ?upper list_types) [1, 0] fresh_gob) =
     fold (checkType ?upper list_types) [1, 0] fresh_gob"
    using gob_types_checked [of ?upper list_types "[1, 0]"] unfolding Let_def by blast
  moreover have "printed (fold (checkType ?upper list_types) [1, 0] fresh_gob) = [(''val'', ''List'')]"
    by (simp add: list_types_def fresh_gob_def checkType_def see_field_def complain_def parts_def kind_of_def Let_def)
  ultimately show ?thesis by blast
qed

end
