(* ===== verification/Spec2Isabelle.thy ===== *)
theory Spec2Isabelle
  imports KV_Raft Lock Shard_Service Shard_Clerk MR_Apps MR_Duplicates Demux_Safety Raft_Tester Labgob
begin

text \<open>
  A verification library for the two systems of this repository: a sharded, replicated key/value
  store built on Raft, and a MapReduce library.

  \<^bold>\<open>The program and its parts\<close> (paths below src/src).
  Raft peers (raft1/raft.go) replicate a log of commands and keep their state in a store
  (tester1/persister.go). On each server the replicated state machine layer (kvraft1/rsm/rsm.go)
  puts operations into the log, applies what Raft commits to a state machine and wakes the caller
  whose operation it was. The state machine is a key/value server (kvraft1/server.go), a counter
  (kvraft1/rsm/server.go), or one group of the sharded store (shardkv1/shardgrp/server.go). Clerks
  (kvsrv1/client.go, kvraft1/client.go, shardkv1/shardgrp/client.go, shardkv1/client.go) retry
  until a server answers. A controller (shardkv1/shardctrler/shardctrler.go) moves shards between
  groups according to configurations (shardkv1/shardcfg/shardcfg.go) that it keeps in an
  unreplicated key/value server (kvsrv1/server.go), on which a lock (kvsrv1/lock/lock.go) is also
  built. All of them talk over a simulated network (labrpc/labrpc.go). MapReduce has a coordinator
  (mr/coordinator.go), workers (mr/worker.go), plugins (mrapps) and a sequential reference program
  (main/mrsequential.go).

  \<^bold>\<open>Theories\<close>, in the order in which they build on each other. Names of functions are those of the code;
  a name that clashes has a prefix (\<open>kv_Put\<close>, \<open>rf_Snapshot\<close>, \<open>list_remove\<close>).

    \<^item> \<open>Prelude\<close>: Go slices with their panics as \<open>None\<close>, fnv32a, lemmas on lists and options, the
      collection \<open>go_slice\<close>. \<open>Persister\<close>: the stable store.
    \<^item> \<open>Raft_Node\<close>: one peer, every method of raft.go that changes state, its reply handlers and loops as
      functions on the record \<open>raft\<close>. \<open>Raft_Cluster\<close>: all peers and an asynchronous network; one event is one
      section of code under \<open>rf.mu\<close>. \<open>Raft_Protocol\<close>: the abstract protocol on uncompacted logs with its history,
      in the locale \<open>raft_quorums\<close>. \<open>Raft_Local\<close>: the log access and the searches of the code against the
      uncompacted log. \<open>Raft_Refine\<close>: the cluster refines the protocol (and interprets the locale).
      \<open>Raft_Service\<close>, \<open>Raft_Safety\<close>: the guarantees, on states of the code. \<open>Raft_Commands\<close>: no peer invents a command.
    \<^item> \<open>KV_Server\<close>: kvsrv1/server.go, its types and models1/kv.go; the locale \<open>versioned_store\<close> is what its clients
      rely on. \<open>KV_Clerk\<close>, \<open>Lock\<close>: clerk and lock.
    \<^item> \<open>RSM\<close>: the layer on one server, over the locale \<open>state_machine\<close>; \<open>RSM_System\<close>: the layer on every server of a
      Raft cluster, with the callers; \<open>RSM_Invariant\<close>, \<open>RSM_Safety\<close>: one log explains what everybody has seen.
      \<open>KV_Raft\<close>: the two services and the clerk of kvraft1.
    \<^item> \<open>Shard_Config\<close>: configurations and balancing. \<open>Shard_Group\<close>: the state machine and handlers of a group.
      \<open>Shard_Group_Clerk\<close>, \<open>Shard_Clerk\<close>: the clerks. \<open>Shard_Ctrler\<close>: the controllers as trees of calls. \<open>Shard_Move\<close>:
      the hand-over of shards alone. \<open>Shard_System\<close>: everything together; \<open>Shard_Safety\<close>, \<open>Shard_Service\<close>: it is one server.
      \<open>Shard_Configs\<close>: the two stored configurations, without any assumption on recoveries.
    \<^item> \<open>MR_Nodes\<close>: the doubly linked lists of the coordinator on a heap of nodes, behind the locale \<open>node_store\<close>.
      \<open>MR_Coordinator\<close>: its handlers and \<open>checkTimeout\<close>. \<open>MR_Jobs\<close>: two plain queues, which \<open>MR_Layout\<close> and \<open>MR_Refine\<close> show it
      implements; \<open>MR_Invariant\<close>, \<open>MR_Service\<close>: what a session guarantees. \<open>MR_Duplicates\<close>: sessions with a file named twice.
    \<^item> \<open>MR_Files\<close>: printing, parsing and buffered reading of pairs. \<open>MR_Heap\<close>: container/heap as the worker drives it,
      an instance of the locale \<open>min_queue\<close>. \<open>MR_Map\<close>, \<open>MR_Reduce\<close>: doMap and doReduce. \<open>MR_Groups\<close>: the grouping loops of the
      worker and of mrsequential. \<open>MR_Worker\<close>: the worker loop, and a job of one coordinator, a shared directory and
      any number of workers. \<open>MR_Finish\<close>, \<open>MR_Results\<close>: what a job computes and when it can end. \<open>MR_Apps\<close>: plugins.
    \<^item> \<open>Labrpc\<close>: labrpc.go: ends, servers, and each request's goroutine, interleaved with changes of the network.
      \<open>Demux\<close>, \<open>Demux_Safety\<close>: tester1/demux: frames on a byte stream, tags, both ends of a connection that can break at
      any byte. \<open>Labgob\<close>: labgob.go: the traversal of (recursive) types and of values.
    \<^item> \<open>Raft_Tester\<close>: raft1/server.go on every server of a cluster, and the checks of raft1/test.go.
\<close>

text \<open>
  \<^bold>\<open>What is shown.\<close>
  Raft: election safety, log matching, leader completeness and state machine safety for every number
  of peers and every sequence of events (loss, delay, duplication, crashes, compaction, snapshots),
  no slice access out of range, durability, and an apply stream without gaps. The replicated layer:
  one growing log, the meaning of an OK answer, order in real time, and, for every service, a run in
  which a request id reused after a restart gives the answer of another command. Key/value: at most one success of a Put, agreement with the
  checker's model, what each answer of each clerk means, mutual exclusion of the lock. Sharding:
  in every run without a racing recovery all groups together are one server, in every run
  configurations only advance, commands can be repeated, a transfer moves exactly a shard; and a run in which a
  recovery reads the configurations at the wrong moments and loses a value. MapReduce: the
  coordinator never follows nil and equals two queues, no task is lost, the phases are in order;
  result files equal the output of the sequential program whatever workers and messages do; the
  exact condition under which a job can still finish, and the ways it cannot, among them every job
  with a file named twice. The network: at most
  one execution per request, no true answer from a server that has been replaced (unless that server is put
  back), and an answer within five of its own steps for every call whose handler returns. A connection: frames survive a cut, each reply reaches the
  call that asked, and a closed connection leaves no call behind. The Raft tests: their checks
  (order of commands, agreement, one leader of a term) cannot fail. The encoder's wrapper: types are
  looked at once and bad fields reported once.

  \<^bold>\<open>How the code is represented.\<close>
  A panic, a fatal exit and a nil dereference are \<open>None\<close>; theorems say where they cannot happen.
  Go's \<open>int\<close> is \<open>int\<close> or \<open>nat\<close> where it counts log entries, terms and tasks (they stay far below \<open>2^63\<close>);
  versions and configuration numbers of requests are 64-bit words, and where wrap-around matters a
  theorem bounds the number of operations by \<open>2^64\<close>; tags of a connection and lengths of frames are
  32-bit, and its theorems bound calls and lengths by \<open>2^32\<close>. Structs behind pointers that are shared are
  addresses in a heap (nodes of the coordinator, servers of the network). A Go map is a partial
  function, or an association list where the code ranges over it, and then theorems hold for every
  order. Retry loops that may not end are \<open>partial_function (option)\<close> over the script of what the network
  answers, and theorems state under which scripts they return; other loops are recursive functions
  that terminate. Clocks, random numbers and the choices of \<open>select\<close> are arguments or events, so a
  theorem about every run is about every schedule. Locks are the boundaries of events.

  \<^bold>\<open>Assumptions\<close>, all visible in the statements.
  Decoding what gob encoded gives the value back. The theorem that the groups are one server excludes the race of
  \<open>recovery_race_loses_data\<close>; the theorems on finished jobs have distinct input files, pairs
  without spaces and line ends, and a Reduce that does not depend on the order of its values (\<open>mr_job\<close>); random client ids of a lock are distinct. \<open>sort.Sort\<close> is any
  function that returns a sorted permutation, and \<open>strings.FieldsFunc\<close>, Map and Reduce are any functions.

  \<^bold>\<open>Not modelled.\<close>
  sockrpc and the test daemons of tester1 (sockets, processes, pipes), annotation.go and annotator.go
  (labels for a visualisation), group.go, config.go, clnts.go, and the set-up code of the tests (kvtest1,
  the files test.go and proxy.go except the checks of raft1/test.go, mr/util.go), the command lines in
  main, and the plugins that exit, sleep or count processes. What gob writes is not modelled, nor
  is a lost call between a Raft test server and the tester. The progress of Raft under timing assumptions is
  not stated: timers are events that may happen at any time.
\<close>

end
